(* ===== verification/Prelude.thy ===== *)
theory Prelude
  imports Main "HOL-Library.Word" "HOL-Library.Code_Target_Nat"
begin

text \<open>
  Shared vocabulary of the development: the widths the kernel and its library
  operating systems compute with, the fallible arithmetic of the source
  (\<open>checked_add\<close>, \<open>checked_mul\<close>, \<open>checked_sub\<close>, \<open>saturating_sub\<close>), bounds-checked
  array access, the linear scans every fixed table of the program uses
  (\<open>position\<close>, the library's \<open>find\<close>), and the lemmas about
  them that the component theories share.  Two fact collections are declared
  here: \<open>wf\<close> for the preservation of well-formedness and \<open>frame\<close> for the state an
  operation leaves alone.
\<close>

unbundle bit_operations_syntax

named_theorems wf
named_theorems frame

type_synonym u8 = "8 word"
type_synonym u16 = "16 word"
type_synonym u32 = "32 word"
type_synonym u64 = "64 word"

section \<open>Rust integer arithmetic\<close>

definition checked_add :: "'a::len word \<Rightarrow> 'a word \<Rightarrow> 'a word option" where
  "checked_add a b = (if unat a + unat b < 2 ^ LENGTH('a) then Some (a + b) else None)"

definition checked_mul :: "'a::len word \<Rightarrow> 'a word \<Rightarrow> 'a word option" where
  "checked_mul a b = (if unat a * unat b < 2 ^ LENGTH('a) then Some (a * b) else None)"

definition checked_sub :: "'a::len word \<Rightarrow> 'a word \<Rightarrow> 'a word option" where
  "checked_sub a b = (if b \<le> a then Some (a - b) else None)"

definition saturating_sub :: "'a::len word \<Rightarrow> 'a word \<Rightarrow> 'a word" where
  "saturating_sub a b = (if b \<le> a then a - b else 0)"

definition saturating_add :: "'a::len word \<Rightarrow> 'a word \<Rightarrow> 'a word" where
  "saturating_add a b = (if unat a + unat b < 2 ^ LENGTH('a) then a + b else - 1)"

text \<open>\<open>div_ceil\<close> on a quantity already read as a natural number.\<close>

definition div_ceil :: "nat \<Rightarrow> nat \<Rightarrow> nat" where
  "div_ceil n d = (n + d - 1) div d"

lemma unat_add_if_less:
  "unat a + unat b < 2 ^ LENGTH('a) \<Longrightarrow> unat (a + b) = unat a + unat (b :: 'a::len word)"
  by (simp add: unat_word_ariths)

lemma unat_mult_if_less:
  "unat a * unat b < 2 ^ LENGTH('a) \<Longrightarrow> unat (a * b) = unat a * unat (b :: 'a::len word)"
  by (simp add: unat_word_ariths)

lemma checked_add_SomeD:
  "checked_add a b = Some c \<Longrightarrow> c = a + b \<and> unat c = unat a + unat b"
  by (auto simp: checked_add_def unat_add_if_less split: if_splits)

lemma checked_mul_SomeD:
  "checked_mul a b = Some c \<Longrightarrow> c = a * b \<and> unat c = unat a * unat b"
  by (auto simp: checked_mul_def unat_mult_if_less split: if_splits)

lemma checked_sub_SomeD:
  "checked_sub a b = Some c \<Longrightarrow> c = a - b \<and> b \<le> a \<and> unat c = unat a - unat b"
  by (auto simp: checked_sub_def unat_sub split: if_splits)

lemma checked_sub_None_iff: "checked_sub a b = None \<longleftrightarrow> a < b"
  by (auto simp: checked_sub_def)

lemma unat_saturating_sub: "unat (saturating_sub a b) = unat a - unat b"
  by (auto simp: saturating_sub_def unat_sub word_le_nat_alt)

lemma unat_of_nat_id: "n < 2 ^ LENGTH('a) \<Longrightarrow> unat (of_nat n :: 'a::len word) = n"
  by (simp add: unat_of_nat take_bit_nat_eq_self)

lemma div_ceil_mult_ge:
  assumes "0 < d"
  shows "n \<le> div_ceil n d * d"
proof -
  have "(n + d - 1) div d * d + (n + d - 1) mod d = n + d - 1"
    by (rule div_mult_mod_eq)
  moreover have "(n + d - 1) mod d < d"
    using assms by simp
  ultimately show ?thesis
    unfolding div_ceil_def using assms by linarith
qed

lemma unat_u64_less: "unat (x :: u64) < 18446744073709551616"
proof -
  have "unat x < 2 ^ LENGTH(64)" by (rule unsigned_less)
  then show ?thesis by simp
qed

lemma unat_u32_less: "unat (x :: u32) < 4294967296"
proof -
  have "unat x < 2 ^ LENGTH(32)" by (rule unsigned_less)
  then show ?thesis by simp
qed

text \<open>The mask \<open>1 << b\<close>.\<close>

definition shl1 :: "nat \<Rightarrow> 'a::len word" where
  "shl1 b = push_bit b 1"

lemma bit_shl1: "bit (shl1 b :: 'a::len word) k \<longleftrightarrow> k = b \<and> k < LENGTH('a)"
  unfolding shl1_def by (subst bit_push_bit_iff) (auto simp: bit_1_iff)

lemma word_bits_eq_iff:
  "(a :: 'a::len word) = b \<longleftrightarrow> (\<forall>n < LENGTH('a). bit a n = bit b n)"
  by (auto intro: bit_word_eqI)

lemma and_shl1_eq_0:
  "b < LENGTH('a) \<Longrightarrow> (w :: 'a::len word) AND shl1 b = 0 \<longleftrightarrow> \<not> bit w b"
  by (auto simp: word_bits_eq_iff bit_and_iff bit_shl1)

lemma bit_or_shl1:
  "k < LENGTH('a) \<Longrightarrow> bit ((w :: 'a::len word) OR shl1 b) k \<longleftrightarrow> k = b \<or> bit w k"
  by (auto simp: bit_or_iff bit_shl1)

lemma bit_and_not_shl1:
  "k < LENGTH('a) \<Longrightarrow> bit ((w :: 'a::len word) AND NOT (shl1 b)) k \<longleftrightarrow> k \<noteq> b \<and> bit w k"
  by (auto simp: bit_and_iff bit_not_iff bit_shl1)

section \<open>Bounds-checked access\<close>

text \<open>\<open>slice.get(i)\<close>.\<close>

definition get :: "'a list \<Rightarrow> nat \<Rightarrow> 'a option" where
  "get xs i = (if i < length xs then Some (xs ! i) else None)"

lemma get_Some_iff: "get xs i = Some x \<longleftrightarrow> i < length xs \<and> xs ! i = x"
  by (simp add: get_def)

lemma get_None_iff: "get xs i = None \<longleftrightarrow> length xs \<le> i"
  by (auto simp: get_def)

section \<open>Linear scans\<close>

text \<open>\<open>Iterator::position\<close>: the index of the first element satisfying \<open>P\<close>.\<close>

fun position :: "('a \<Rightarrow> bool) \<Rightarrow> 'a list \<Rightarrow> nat option" where
  "position P [] = None"
| "position P (x # xs) = (if P x then Some 0 else map_option Suc (position P xs))"

lemma position_Some_iff:
  "position P xs = Some i \<longleftrightarrow> i < length xs \<and> P (xs ! i) \<and> (\<forall>j < i. \<not> P (xs ! j))"
proof (induction xs arbitrary: i)
  case Nil
  then show ?case by simp
next
  case (Cons x xs)
  show ?case
    by (cases i) (auto simp: Cons.IH All_less_Suc2)
qed

lemma position_None_iff: "position P xs = None \<longleftrightarrow> (\<forall>x \<in> set xs. \<not> P x)"
  by (induction xs) auto

lemma position_SomeD:
  assumes "position P xs = Some i"
  shows "i < length xs" and "P (xs ! i)" and "\<And>j. j < i \<Longrightarrow> \<not> P (xs ! j)"
  using assms by (simp_all add: position_Some_iff)

lemma find_SomeD: "find P xs = Some x \<Longrightarrow> P x \<and> x \<in> set xs"
  by (induction xs) (auto split: if_splits)

lemma position_map: "position P (map f xs) = position (P \<circ> f) xs"
  by (induction xs) auto

lemma position_exists: "x \<in> set xs \<Longrightarrow> P x \<Longrightarrow> \<exists>i. position P xs = Some i"
  by (metis not_None_eq position_None_iff)

lemma position_cong_nth:
  "length xs = length ys \<Longrightarrow> (\<And>i. i < length ys \<Longrightarrow> P (xs ! i) = Q (ys ! i)) \<Longrightarrow>
   position P xs = position Q ys"
proof (induction xs ys rule: list_induct2)
  case Nil
  then show ?case by simp
next
  case (Cons x xs y ys)
  have "P x = Q y" using Cons.prems[of 0] by simp
  moreover have "position P xs = position Q ys"
    using Cons.prems[of "Suc _"] by (intro Cons.IH) auto
  ultimately show ?case by simp
qed

section \<open>Lists as fixed arrays\<close>

lemma nth_list_update_if:
  "i < length xs \<Longrightarrow> xs[i := x] ! j = (if i = j then x else xs ! j)"
  by simp

lemma nth_list_update_cases:
  "xs[i := x] ! j = (if i = j \<and> j < length xs then x else xs ! j)"
  by (cases "i = j") (auto simp: list_update_beyond)

lemma length_filter_update:
  assumes "i < length xs"
  shows "length (filter P (xs[i := x])) + (if P (xs ! i) then 1 else 0)
       = length (filter P xs) + (if P x then 1 else 0)"
  using assms
proof (induction xs arbitrary: i)
  case Nil
  then show ?case by simp
next
  case (Cons y ys)
  then show ?case by (cases i) auto
qed

lemma set_list_update_subset: "set (xs[i := x]) \<subseteq> insert x (set xs)"
  by (rule set_update_subset_insert)


section \<open>The question-mark operator\<close>

text \<open>
  \<open>ok_or x e k\<close> is \<open>let v = x.ok_or(e)?; k(v)\<close>, \<open>try_in\<close> is \<open>let v = r?; k(v)\<close>, and
  \<open>try_fold\<close> a \<open>for\<close> loop whose body may return early with an error.
\<close>

definition ok_or :: "'a option \<Rightarrow> 'e \<Rightarrow> ('a \<Rightarrow> 'e + 'b) \<Rightarrow> 'e + 'b" where
  "ok_or x e k = (case x of None \<Rightarrow> Inl e | Some v \<Rightarrow> k v)"

definition try_in :: "'e + 'a \<Rightarrow> ('a \<Rightarrow> 'e + 'b) \<Rightarrow> 'e + 'b" where
  "try_in r k = (case r of Inl e \<Rightarrow> Inl e | Inr v \<Rightarrow> k v)"

fun try_fold :: "('i \<Rightarrow> 's \<Rightarrow> 'e + 's) \<Rightarrow> 'i list \<Rightarrow> 's \<Rightarrow> 'e + 's" where
  "try_fold f [] s = Inr s"
| "try_fold f (i # is) s = (case f i s of Inl e \<Rightarrow> Inl e | Inr s' \<Rightarrow> try_fold f is s')"

lemma ok_or_Inr: "ok_or x e k = Inr r \<longleftrightarrow> (\<exists>v. x = Some v \<and> k v = Inr r)"
  by (cases x) (simp_all add: ok_or_def)

lemma if_Inl_Inr: "(if c then Inl e else k) = Inr r \<longleftrightarrow> \<not> c \<and> k = Inr r"
  by simp

lemma try_in_Inr: "try_in x k = Inr r \<longleftrightarrow> (\<exists>v. x = Inr v \<and> k v = Inr r)"
  by (cases x) (simp_all add: try_in_def)

lemma try_fold_induct:
  assumes "try_fold f is s = Inr s'" and "I [] s"
    and "\<And>js i s s'. I js s \<Longrightarrow> i \<in> set is \<Longrightarrow> f i s = Inr s' \<Longrightarrow> I (js @ [i]) s'"
  shows "I is s'"
proof -
  have "I (js @ is) s'" if "try_fold f is s = Inr s'" "I js s"
    "\<And>js i s s'. I js s \<Longrightarrow> i \<in> set is \<Longrightarrow> f i s = Inr s' \<Longrightarrow> I (js @ [i]) s'" for js "is" s
    using that
  proof (induction "is" arbitrary: js s)
    case Nil
    then show ?case by simp
  next
    case (Cons i "is")
    then obtain s1 where s1: "f i s = Inr s1" "try_fold f is s1 = Inr s'"
      by (auto split: sum.splits)
    have "I ((js @ [i]) @ is) s'"
      by (rule Cons.IH[OF s1(2)]) (use Cons.prems(2,3) s1(1) in auto)
    then show ?case by simp
  qed
  from this[of "is" s "[]"] show ?thesis using assms by simp
qed

section \<open>Little-endian fields of a byte slice\<close>

fun le_nat :: "u8 list \<Rightarrow> nat" where
  "le_nat [] = 0"
| "le_nat (b # bs) = unat b + 256 * le_nat bs"

text \<open>\<open>b.get(off..off + n)\<close>.\<close>

definition slice :: "'a list \<Rightarrow> nat \<Rightarrow> nat \<Rightarrow> 'a list option" where
  "slice b off n = (if off + n \<le> length b then Some (take n (drop off b)) else None)"

definition rd_u16 :: "u8 list \<Rightarrow> nat \<Rightarrow> u16 option" where
  "rd_u16 b off = map_option (of_nat \<circ> le_nat) (slice b off 2)"

definition rd_u32 :: "u8 list \<Rightarrow> nat \<Rightarrow> u32 option" where
  "rd_u32 b off = map_option (of_nat \<circ> le_nat) (slice b off 4)"

definition rd_u64 :: "u8 list \<Rightarrow> nat \<Rightarrow> u64 option" where
  "rd_u64 b off = map_option (of_nat \<circ> le_nat) (slice b off 8)"

text \<open>\<open>to_le_bytes\<close> of an \<open>n\<close>-byte integer.\<close>

fun le_bytes :: "nat \<Rightarrow> nat \<Rightarrow> u8 list" where
  "le_bytes 0 v = []"
| "le_bytes (Suc n) v = of_nat (v mod 256) # le_bytes n (v div 256)"

lemma length_le_bytes [simp]: "length (le_bytes n v) = n"
  by (induction n arbitrary: v) simp_all

lemma le_nat_le_bytes: "v < 256 ^ n \<Longrightarrow> le_nat (le_bytes n v) = v"
proof (induction n arbitrary: v)
  case 0
  then show ?case by simp
next
  case (Suc n)
  have "unat (of_nat (v mod 256) :: u8) = v mod 256" by (rule unat_of_nat_id) simp
  moreover have "v div 256 < 256 ^ n" using Suc.prems by (simp add: less_mult_imp_div_less mult.commute)
  ultimately show ?case using Suc.IH by simp
qed

lemma le_nat_less: "le_nat xs < 256 ^ length xs"
proof (induction xs)
  case Nil
  then show ?case by simp
next
  case (Cons b bs)
  have "unat b < 256" using unsigned_less[of b] by simp
  then show ?case using Cons by simp
qed

lemma rd_None_iff:
  "rd_u16 b o1 = None \<longleftrightarrow> length b < o1 + 2"
  "rd_u32 b o1 = None \<longleftrightarrow> length b < o1 + 4"
  "rd_u64 b o1 = None \<longleftrightarrow> length b < o1 + 8"
  by (auto simp: rd_u16_def rd_u32_def rd_u64_def slice_def)

section \<open>Families of pairwise disjoint sets\<close>

fun disjoint_list :: "'x set list \<Rightarrow> bool" where
  "disjoint_list [] = True"
| "disjoint_list (E # Es) = (E \<inter> \<Union> (set Es) = {} \<and> disjoint_list Es)"

lemma disjoint_list_remove:
  "disjoint_list (map f xs) \<Longrightarrow> disjoint_list (map f (remove1 x xs))"
proof (induction xs)
  case Nil
  then show ?case by simp
next
  case (Cons y ys)
  have "f ` set (remove1 x ys) \<subseteq> f ` set ys"
    by (intro image_mono set_remove1_subset)
  then show ?case using Cons by auto
qed

lemma disjoint_list_remove_Union:
  "disjoint_list (map f xs) \<Longrightarrow> x \<in> set xs \<Longrightarrow>
   f x \<inter> \<Union> (set (map f (remove1 x xs))) = {} \<and>
   f x \<union> \<Union> (set (map f (remove1 x xs))) = \<Union> (set (map f xs))"
proof (induction xs)
  case Nil
  then show ?case by simp
next
  case (Cons y ys)
  show ?case
  proof (cases "y = x")
    case True
    then show ?thesis using Cons.prems by auto
  next
    case False
    then have x: "x \<in> set ys" using Cons.prems by simp
    then have "f x \<inter> \<Union> (set (map f (remove1 x ys))) = {} \<and>
        f x \<union> \<Union> (set (map f (remove1 x ys))) = \<Union> (set (map f ys))"
      using Cons by simp
    moreover have "f x \<inter> f y = {}" using Cons.prems x by auto
    ultimately show ?thesis using False by auto
  qed
qed

lemma disjoint_list_append:
  "disjoint_list (xs @ ys) \<longleftrightarrow>
     disjoint_list xs \<and> disjoint_list ys \<and> \<Union> (set xs) \<inter> \<Union> (set ys) = {}"
  by (induction xs) auto

lemma disjoint_list_nth:
  "disjoint_list xs \<longleftrightarrow> (\<forall>i < length xs. \<forall>j < i. xs ! i \<inter> xs ! j = {})"
proof (induction xs rule: rev_induct)
  case Nil
  then show ?case by simp
next
  case (snoc x xs)
  have "disjoint_list (xs @ [x]) \<longleftrightarrow> disjoint_list xs \<and> (\<forall>j < length xs. x \<inter> xs ! j = {})"
    by (auto simp: disjoint_list_append set_conv_nth)
  also have "\<dots> \<longleftrightarrow> (\<forall>i < Suc (length xs). \<forall>j < i. (xs @ [x]) ! i \<inter> (xs @ [x]) ! j = {})"
    by (simp add: All_less_Suc nth_append snoc conj_commute)
  finally show ?case by simp
qed


lemma card_disjoint_list:
  "disjoint_list Es \<Longrightarrow> \<forall>E \<in> set Es. finite E \<Longrightarrow> card (\<Union> (set Es)) = sum_list (map card Es)"
  by (induction Es) (auto simp: card_Un_disjoint)

lemma unat_sum_list:
  "sum_list (map unat ws) < 2 ^ LENGTH('a) \<Longrightarrow> unat (sum_list (ws :: 'a::len word list)) = sum_list (map unat ws)"
  by (induction ws) (simp_all add: unat_add_if_less)


section \<open>Sums over arrays\<close>

lemma sum_list_update_add:
  "i < length xs \<Longrightarrow> sum_list (xs[i := x]) + xs ! i = sum_list xs + (x :: 'a::comm_monoid_add)"
proof (induction xs arbitrary: i)
  case Nil
  then show ?case by simp
next
  case (Cons y ys)
  then show ?case by (cases i) (simp_all add: ac_simps)
qed

lemma sum_list_map_update:
  assumes "i < length xs"
  shows "sum_list (map f (xs[i := x])) + f (xs ! i) = sum_list (map f xs) + (f x :: 'a::comm_monoid_add)"
  using sum_list_update_add[of i "map f xs" "f x"] assms by (simp add: map_update)

lemma position_eq_Some_iff:
  "(\<exists>i. position P xs = Some i) \<longleftrightarrow> (\<exists>x \<in> set xs. P x)"
  using position_None_iff[of P xs] by (cases "position P xs") auto

end
