(* ===== verification/Capability.thy ===== *)
theory Capability
  imports Prelude
begin

text \<open>
  The capability layer, \<open>kernel/src/capability.rs\<close>: capability objects and rights,
  the lending rule (\<open>lent_to\<close>) with its root-lender origin, the release policy
  (\<open>release_action\<close>, \<open>reclaim_target\<close>), and the fixed capability table with its
  homecoming reservations.  A table operation that fails leaves the table as it
  was, so the fallible operations return the new table only beside a success.
\<close>

section \<open>Rights, objects, capabilities\<close>

definition RIGHT_READ :: u8 where "RIGHT_READ = 1"
definition RIGHT_WRITE :: u8 where "RIGHT_WRITE = 2"
definition RIGHT_MAP :: u8 where "RIGHT_MAP = 4"
definition RIGHT_CONSUME :: u8 where "RIGHT_CONSUME = 8"
definition RIGHT_SEND :: u8 where "RIGHT_SEND = 16"
definition RIGHT_RECV :: u8 where "RIGHT_RECV = 32"

lemmas right_defs = RIGHT_READ_def RIGHT_WRITE_def RIGHT_MAP_def
  RIGHT_CONSUME_def RIGHT_SEND_def RIGHT_RECV_def

definition MAX_CAPS :: nat where "MAX_CAPS = 16"

text \<open>
  The constructors carry the fields of the source's variants in order; a
  \<open>Framebuffer\<close> is base, width, height, stride, bytes per pixel and format.
\<close>

datatype cap_object =
    Frame u64
  | CpuTime u64
  | Endpoint nat
  | Reply nat
  | BlockRange u8 u64 u64
  | EventSource u8
  | Ring nat
  | Framebuffer u64 u32 u32 u32 u8 u8
  | BoundDevice u8

record origin =
  proc_slot :: u8
  cap_slot :: u8

definition origin_new :: "nat \<Rightarrow> nat \<Rightarrow> origin" where
  "origin_new p c = \<lparr>proc_slot = of_nat p, cap_slot = of_nat c\<rparr>"

definition lender :: "origin \<Rightarrow> nat" where
  "lender og = unat (proc_slot og)"

definition home :: "origin \<Rightarrow> nat" where
  "home og = unat (cap_slot og)"

record capability =
  cap_obj :: cap_object
  cap_rights :: u8
  cap_origin :: "origin option"

definition lent_to :: "capability \<Rightarrow> origin \<Rightarrow> nat \<Rightarrow> capability" where
  "lent_to c source dest =
     c\<lparr>cap_origin :=
         (case cap_origin c of
            Some og \<Rightarrow> if lender og = dest then None else Some og
          | None \<Rightarrow> Some source)\<rparr>"

section \<open>The release policy\<close>

datatype release_action =
    FreeFrame u64
  | ReleaseRing nat
  | DropEndpoint
  | UnmapFramebuffer
  | ReclaimTo origin
  | DropSlot
  | UnbindDevice u8
  | Refuse

fun is_reclaimable_kind :: "cap_object \<Rightarrow> bool" where
  "is_reclaimable_kind (Framebuffer _ _ _ _ _ _) = True"
| "is_reclaimable_kind (BlockRange _ _ _) = True"
| "is_reclaimable_kind (EventSource _) = True"
| "is_reclaimable_kind _ = False"

definition lend_reserves_home :: "capability \<Rightarrow> bool" where
  "lend_reserves_home c \<longleftrightarrow> cap_origin c = None \<and> is_reclaimable_kind (cap_obj c)"

fun kind_release :: "cap_object \<Rightarrow> release_action" where
  "kind_release (Frame addr) = FreeFrame addr"
| "kind_release (Ring i) = ReleaseRing i"
| "kind_release (Endpoint _) = DropEndpoint"
| "kind_release (Reply _) = Refuse"
| "kind_release (Framebuffer _ _ _ _ _ _) = UnmapFramebuffer"
| "kind_release (CpuTime _) = DropSlot"
| "kind_release (BlockRange _ _ _) = DropSlot"
| "kind_release (EventSource _) = DropSlot"
| "kind_release (BoundDevice dev) = UnbindDevice dev"

definition release_action_of :: "capability \<Rightarrow> release_action" where
  "release_action_of c =
     (if is_reclaimable_kind (cap_obj c)
      then (case cap_origin c of Some og \<Rightarrow> ReclaimTo og | None \<Rightarrow> kind_release (cap_obj c))
      else kind_release (cap_obj c))"

definition reclaim_target :: "capability \<Rightarrow> nat \<Rightarrow> (origin \<times> capability) option" where
  "reclaim_target c dying_slot =
     (case release_action_of c of
        ReclaimTo og \<Rightarrow> Some (og, lent_to c (origin_new dying_slot (home og)) (lender og))
      | _ \<Rightarrow> None)"

section \<open>The capability table\<close>

datatype cap_error = TableFull | BadSlot | EmptySlot | RightsDenied | WrongType | Insufficient

record cap_table =
  ct_slots :: "capability option list"
  ct_reserved :: "bool list"

definition ct_new :: cap_table where
  "ct_new = \<lparr>ct_slots = replicate MAX_CAPS None, ct_reserved = replicate MAX_CAPS False\<rparr>"

definition peek :: "cap_table \<Rightarrow> nat \<Rightarrow> capability option" where
  "peek t slot = (case get (ct_slots t) slot of None \<Rightarrow> None | Some e \<Rightarrow> e)"

definition reserve :: "cap_table \<Rightarrow> nat \<Rightarrow> cap_table" where
  "reserve t slot =
     (if slot < length (ct_reserved t)
      then t\<lparr>ct_reserved := (ct_reserved t)[slot := True]\<rparr> else t)"

definition is_reserved :: "cap_table \<Rightarrow> nat \<Rightarrow> bool" where
  "is_reserved t slot = (case get (ct_reserved t) slot of None \<Rightarrow> False | Some r \<Rightarrow> r)"

definition clear_reservation :: "cap_table \<Rightarrow> nat \<Rightarrow> cap_table" where
  "clear_reservation t slot =
     (if slot < length (ct_reserved t)
      then t\<lparr>ct_reserved := (ct_reserved t)[slot := False]\<rparr> else t)"

definition reclaim_to :: "cap_table \<Rightarrow> nat \<Rightarrow> capability \<Rightarrow> (nat \<times> cap_table) option" where
  "reclaim_to t slot c =
     (if \<not> is_reserved t slot then None
      else case get (ct_slots t) slot of
             None \<Rightarrow> None
           | Some (Some _) \<Rightarrow> None
           | Some None \<Rightarrow>
               Some (slot, t\<lparr>ct_slots := (ct_slots t)[slot := Some c],
                             ct_reserved := (ct_reserved t)[slot := False]\<rparr>))"

definition install :: "cap_table \<Rightarrow> capability \<Rightarrow> cap_error + (nat \<times> cap_table)" where
  "install t c =
     (case position (\<lambda>(s, r). s = None \<and> \<not> r) (zip (ct_slots t) (ct_reserved t)) of
        Some i \<Rightarrow> Inr (i, t\<lparr>ct_slots := (ct_slots t)[i := Some c]\<rparr>)
      | None \<Rightarrow> Inl TableFull)"

definition mint :: "cap_table \<Rightarrow> cap_object \<Rightarrow> u8 \<Rightarrow> cap_error + (nat \<times> cap_table)" where
  "mint t ob rts = install t \<lparr>cap_obj = ob, cap_rights = rts, cap_origin = None\<rparr>"

definition reclaim :: "cap_table \<Rightarrow> capability \<Rightarrow> (nat \<times> cap_table) option" where
  "reclaim t c = (case install t c of Inl _ \<Rightarrow> None | Inr r \<Rightarrow> Some r)"

definition install_home ::
    "cap_table \<Rightarrow> capability \<Rightarrow> origin option \<Rightarrow> nat \<Rightarrow> (nat \<times> cap_table) option" where
  "install_home t c prior dest_proc =
     (let direct = (case prior of
                      Some og \<Rightarrow> if lender og = dest_proc then reclaim_to t (home og) c else None
                    | None \<Rightarrow> None)
      in case direct of Some r \<Rightarrow> Some r
         | None \<Rightarrow> (case install t c of Inl _ \<Rightarrow> None | Inr r \<Rightarrow> Some r))"

definition names_lender :: "nat \<Rightarrow> capability option \<Rightarrow> bool" where
  "names_lender slot e =
     (case e of None \<Rightarrow> False | Some c \<Rightarrow> map_option lender (cap_origin c) = Some slot)"

definition clear_origin :: "cap_table \<Rightarrow> nat \<Rightarrow> nat \<times> cap_table" where
  "clear_origin t slot =
     (length (filter (names_lender slot) (ct_slots t)),
      t\<lparr>ct_slots := map (\<lambda>e. if names_lender slot e
                             then map_option (\<lambda>c. c\<lparr>cap_origin := None\<rparr>) e else e) (ct_slots t)\<rparr>)"

definition ct_iter :: "cap_table \<Rightarrow> capability list" where
  "ct_iter t = List.map_filter id (ct_slots t)"

definition lookup :: "cap_table \<Rightarrow> nat \<Rightarrow> u8 \<Rightarrow> cap_error + capability" where
  "lookup t slot required =
     (case get (ct_slots t) slot of
        None \<Rightarrow> Inl BadSlot
      | Some None \<Rightarrow> Inl EmptySlot
      | Some (Some c) \<Rightarrow>
          if cap_rights c AND required \<noteq> required then Inl RightsDenied else Inr c)"

definition charge ::
    "cap_table \<Rightarrow> nat \<Rightarrow> u64 \<Rightarrow> u8 \<Rightarrow> cap_error + (u64 \<times> cap_table)" where
  "charge t slot amount required =
     (case get (ct_slots t) slot of
        None \<Rightarrow> Inl BadSlot
      | Some None \<Rightarrow> Inl EmptySlot
      | Some (Some c) \<Rightarrow>
          if cap_rights c AND required \<noteq> required then Inl RightsDenied
          else (case cap_obj c of
                  CpuTime budget \<Rightarrow>
                    (case checked_sub budget amount of
                       None \<Rightarrow> Inl Insufficient
                     | Some remaining \<Rightarrow>
                         Inr (remaining,
                              t\<lparr>ct_slots := (ct_slots t)[slot := Some (c\<lparr>cap_obj := CpuTime remaining\<rparr>)]\<rparr>))
                | _ \<Rightarrow> Inl WrongType))"

definition revoke :: "cap_table \<Rightarrow> nat \<Rightarrow> cap_error + (capability \<times> cap_table)" where
  "revoke t slot =
     (case get (ct_slots t) slot of
        None \<Rightarrow> Inl BadSlot
      | Some None \<Rightarrow> Inl EmptySlot
      | Some (Some c) \<Rightarrow> Inr (c, t\<lparr>ct_slots := (ct_slots t)[slot := None]\<rparr>))"

text \<open>\<open>drain\<close> hands each live capability, in slot order, to its closure.\<close>

definition drain :: "cap_table \<Rightarrow> capability list \<times> cap_table" where
  "drain t = (ct_iter t, t\<lparr>ct_slots := map (\<lambda>_. None) (ct_slots t)\<rparr>)"


section \<open>Well-formed tables\<close>

text \<open>
  The two arrays have the table's length, and a slot held open for a returning
  capability is empty.
\<close>

definition ct_wf :: "cap_table \<Rightarrow> bool" where
  "ct_wf t \<longleftrightarrow>
     length (ct_slots t) = MAX_CAPS \<and> length (ct_reserved t) = MAX_CAPS \<and>
     (\<forall>i < MAX_CAPS. ct_reserved t ! i \<longrightarrow> ct_slots t ! i = None)"

lemma peek_nth: "i < length (ct_slots t) \<Longrightarrow> peek t i = ct_slots t ! i"
  by (simp add: peek_def get_def)

lemma peek_beyond: "length (ct_slots t) \<le> i \<Longrightarrow> peek t i = None"
  by (simp add: peek_def get_def)

lemma is_reserved_nth: "i < length (ct_reserved t) \<Longrightarrow> is_reserved t i = ct_reserved t ! i"
  by (simp add: is_reserved_def get_def)

lemma is_reserved_beyond: "length (ct_reserved t) \<le> i \<Longrightarrow> \<not> is_reserved t i"
  by (simp add: is_reserved_def get_def)

lemma ct_wf_lengths:
  "ct_wf t \<Longrightarrow> length (ct_slots t) = MAX_CAPS" "ct_wf t \<Longrightarrow> length (ct_reserved t) = MAX_CAPS"
  by (simp_all add: ct_wf_def)

lemma peek_lt: "ct_wf t \<Longrightarrow> peek t i = Some c \<Longrightarrow> i < MAX_CAPS"
  by (metis ct_wf_lengths(1) linorder_not_less option.discI peek_beyond)

lemma reserved_lt: "ct_wf t \<Longrightarrow> is_reserved t i \<Longrightarrow> i < MAX_CAPS"
  by (metis ct_wf_lengths(2) is_reserved_beyond linorder_not_less)

lemma reserved_empty: "ct_wf t \<Longrightarrow> is_reserved t i \<Longrightarrow> peek t i = None"
  by (cases "i < MAX_CAPS") (auto simp: ct_wf_def peek_nth is_reserved_nth is_reserved_beyond)

lemma peek_slots_update:
  "i < length (ct_slots t) \<Longrightarrow>
   peek (t\<lparr>ct_slots := (ct_slots t)[i := e]\<rparr>) = (peek t)(i := e)"
  by (rule ext) (simp add: peek_def get_def)

lemma is_reserved_slots_update [simp]: "is_reserved (t\<lparr>ct_slots := xs\<rparr>) = is_reserved t"
  by (rule ext) (simp add: is_reserved_def)

lemma is_reserved_reserved_update:
  "i < length (ct_reserved t) \<Longrightarrow>
   is_reserved (t\<lparr>ct_reserved := (ct_reserved t)[i := b]\<rparr>) = (is_reserved t)(i := b)"
  by (rule ext) (simp add: is_reserved_def get_def)

lemma peek_reserved_update [simp]: "peek (t\<lparr>ct_reserved := rs\<rparr>) = peek t"
  by (rule ext) (simp add: peek_def)

lemma ct_wf_new [wf]: "ct_wf ct_new"
  by (simp add: ct_wf_def ct_new_def)

text \<open>A well-formed table is determined by the two views \<open>peek\<close> and \<open>is_reserved\<close>.\<close>

lemma cap_table_eqI:
  assumes "ct_wf t" "ct_wf (t' :: cap_table)"
    and "peek t = peek t'" and "is_reserved t = is_reserved t'"
  shows "t = t'"
proof -
  have "ct_slots t = ct_slots t'"
    using assms(1,2) fun_cong[OF assms(3)]
    by (intro nth_equalityI) (simp_all add: ct_wf_def peek_nth[symmetric])
  moreover have "ct_reserved t = ct_reserved t'"
    using assms(1,2) fun_cong[OF assms(4)]
    by (intro nth_equalityI) (simp_all add: ct_wf_def is_reserved_nth[symmetric])
  ultimately show ?thesis by (cases t, cases t') simp
qed

section \<open>What each table operation does\<close>

lemma install_Inr:
  assumes "ct_wf t" and "install t c = Inr (i, t')"
  shows "i < MAX_CAPS" and "peek t i = None" and "\<not> is_reserved t i"
    and "peek t' = (peek t)(i := Some c)" and "is_reserved t' = is_reserved t"
    and "\<And>j. j < i \<Longrightarrow> peek t j \<noteq> None \<or> is_reserved t j"
    and "ct_wf t'"
proof -
  let ?z = "zip (ct_slots t) (ct_reserved t)"
  have pos: "position (\<lambda>(s, r). s = None \<and> \<not> r) ?z = Some i"
    and t': "t' = t\<lparr>ct_slots := (ct_slots t)[i := Some c]\<rparr>"
    using assms(2) by (auto simp: install_def split: option.splits)
  note L = ct_wf_lengths[OF assms(1)]
  show lt: "i < MAX_CAPS" using position_SomeD(1)[OF pos] L by simp
  show "peek t i = None" "\<not> is_reserved t i"
    using position_SomeD(2)[OF pos] lt L by (simp_all add: peek_nth is_reserved_nth)
  show "\<And>j. j < i \<Longrightarrow> peek t j \<noteq> None \<or> is_reserved t j"
    using position_SomeD(3)[OF pos] lt L by (fastforce simp: peek_nth is_reserved_nth)
  show "peek t' = (peek t)(i := Some c)" "is_reserved t' = is_reserved t"
    using lt L by (simp_all add: t' peek_slots_update)
  show "ct_wf t'"
    using assms(1) lt \<open>\<not> is_reserved t i\<close> L
    by (auto simp: t' ct_wf_def is_reserved_nth nth_list_update)
qed

lemma install_Inl_iff:
  assumes "ct_wf t"
  shows "install t c = Inl e \<longleftrightarrow>
    e = TableFull \<and> (\<forall>i < MAX_CAPS. peek t i \<noteq> None \<or> is_reserved t i)"
proof -
  let ?z = "zip (ct_slots t) (ct_reserved t)"
  note L = ct_wf_lengths[OF assms]
  have "position (\<lambda>(s, r). s = None \<and> \<not> r) ?z = None \<longleftrightarrow>
        (\<forall>i < MAX_CAPS. peek t i \<noteq> None \<or> is_reserved t i)"
    using L by (auto simp: position_None_iff set_zip peek_nth is_reserved_nth)
  then show ?thesis by (auto simp: install_def split: option.splits)
qed

lemma install_total:
  assumes "ct_wf t" and "i < MAX_CAPS" and "peek t i = None" and "\<not> is_reserved t i"
  obtains j t' where "install t c = Inr (j, t')" and "j \<le> i"
proof (cases "install t c")
  case (Inl e)
  then show ?thesis using assms install_Inl_iff[OF assms(1)] by blast
next
  case (Inr p)
  moreover obtain j t' where "p = (j, t')" by (cases p)
  ultimately have "install t c = Inr (j, t')" by simp
  moreover have "j \<le> i"
    using install_Inr(6)[OF assms(1) calculation] assms(3,4) by (meson not_le)
  ultimately show ?thesis using that by blast
qed

lemma mint_Inr:
  assumes "ct_wf t" and "mint t ob rts = Inr (i, t')"
  shows "peek t' = (peek t)(i := Some \<lparr>cap_obj = ob, cap_rights = rts, cap_origin = None\<rparr>)"
    and "peek t i = None" and "\<not> is_reserved t i" and "is_reserved t' = is_reserved t"
    and "ct_wf t'" and "i < MAX_CAPS"
  using install_Inr[OF assms(1) assms(2)[unfolded mint_def]] by simp_all

lemma revoke_Inr:
  assumes "ct_wf t" and "revoke t i = Inr (c, t')"
  shows "peek t i = Some c" and "peek t' = (peek t)(i := None)"
    and "is_reserved t' = is_reserved t" and "ct_wf t'" and "i < MAX_CAPS"
proof -
  note L = ct_wf_lengths[OF assms(1)]
  have c: "i < length (ct_slots t)" "ct_slots t ! i = Some c"
    and t': "t' = t\<lparr>ct_slots := (ct_slots t)[i := None]\<rparr>"
    using assms(2) by (auto simp: revoke_def get_def split: if_splits option.splits)
  show "peek t i = Some c" using c by (simp add: peek_nth)
  show "peek t' = (peek t)(i := None)" "is_reserved t' = is_reserved t"
    using c by (simp_all add: t' peek_slots_update)
  show "ct_wf t'" using assms(1) by (auto simp: t' ct_wf_def nth_list_update_cases)
  show "i < MAX_CAPS" using c L by simp
qed

lemma revoke_Inl_iff:
  assumes "ct_wf t"
  shows "(\<exists>e. revoke t i = Inl e) \<longleftrightarrow> peek t i = None"
  using assms by (auto simp: revoke_def peek_def split: option.splits)

lemma revoke_Some:
  assumes "ct_wf t" and "peek t i = Some c"
  shows "\<exists>t'. revoke t i = Inr (c, t')"
  using assms by (auto simp: revoke_def peek_def split: option.splits)

lemma reserve_views:
  assumes "ct_wf t" and "i < MAX_CAPS"
  shows "peek (reserve t i) = peek t" and "is_reserved (reserve t i) = (is_reserved t)(i := True)"
  using assms ct_wf_lengths[OF assms(1)] by (simp_all add: reserve_def is_reserved_reserved_update)

lemma ct_wf_reserve [wf]: "ct_wf t \<Longrightarrow> peek t i = None \<Longrightarrow> ct_wf (reserve t i)"
  by (auto simp: reserve_def ct_wf_def peek_def get_def nth_list_update split: if_splits)

lemma clear_reservation_views:
  assumes "ct_wf t"
  shows "peek (clear_reservation t i) = peek t"
    and "is_reserved (clear_reservation t i) = (is_reserved t)(i := False)"
  using ct_wf_lengths[OF assms]
  by (auto simp: clear_reservation_def is_reserved_reserved_update is_reserved_beyond fun_eq_iff)

lemma ct_wf_clear_reservation [wf]: "ct_wf t \<Longrightarrow> ct_wf (clear_reservation t i)"
  by (auto simp: clear_reservation_def ct_wf_def nth_list_update split: if_splits)

lemma reclaim_to_Some:
  assumes "ct_wf t" and "reclaim_to t i c = Some (j, t')"
  shows "j = i" and "is_reserved t i" and "i < MAX_CAPS"
    and "peek t' = (peek t)(i := Some c)" and "is_reserved t' = (is_reserved t)(i := False)"
    and "ct_wf t'"
proof -
  note L = ct_wf_lengths[OF assms(1)]
  have ji: "j = i" and r: "is_reserved t i" and lt: "i < length (ct_slots t)"
    and t': "t' = t\<lparr>ct_slots := (ct_slots t)[i := Some c], ct_reserved := (ct_reserved t)[i := False]\<rparr>"
    using assms(2) by (auto simp: reclaim_to_def get_def split: if_splits option.splits)
  show "j = i" "is_reserved t i" "i < MAX_CAPS" using ji r lt L by simp_all
  have "peek t' = peek (t\<lparr>ct_slots := (ct_slots t)[i := Some c]\<rparr>)"
    by (simp add: t' peek_def fun_eq_iff)
  then show "peek t' = (peek t)(i := Some c)" using lt by (simp add: peek_slots_update)
  have "is_reserved t' = is_reserved (t\<lparr>ct_reserved := (ct_reserved t)[i := False]\<rparr>)"
    by (simp add: t' is_reserved_def fun_eq_iff)
  then show "is_reserved t' = (is_reserved t)(i := False)"
    using lt L by (simp add: is_reserved_reserved_update)
  show "ct_wf t'" using assms(1) lt by (auto simp: t' ct_wf_def nth_list_update_cases)
qed

lemma reclaim_to_reserved:
  assumes "ct_wf t" and "is_reserved t i"
  shows "\<exists>t'. reclaim_to t i c = Some (i, t')"
proof -
  have "i < MAX_CAPS" "peek t i = None"
    using assms by (simp_all add: reserved_lt reserved_empty)
  then show ?thesis
    using assms ct_wf_lengths[OF assms(1)]
    by (simp add: reclaim_to_def get_def peek_nth)
qed

lemma reclaim_to_None:
  assumes "ct_wf t"
  shows "reclaim_to t i c = None \<longleftrightarrow> \<not> is_reserved t i"
  using reclaim_to_reserved[OF assms, of i c] by (auto simp: reclaim_to_def)

lemma lookup_Inr:
  assumes "lookup t i req = Inr c"
  shows "peek t i = Some c" and "cap_rights c AND req = req"
  using assms by (auto simp: lookup_def peek_def split: option.splits if_splits)

lemma lookup_Inr_iff:
  "lookup t i req = Inr c \<longleftrightarrow> peek t i = Some c \<and> cap_rights c AND req = req"
  by (auto simp: lookup_def peek_def split: option.splits)

section \<open>Counting the capabilities a table holds\<close>

definition cap_count :: "(capability \<Rightarrow> bool) \<Rightarrow> cap_table \<Rightarrow> nat" where
  "cap_count P t = length (filter (\<lambda>e. case e of None \<Rightarrow> False | Some c \<Rightarrow> P c) (ct_slots t))"

lemma cap_count_slots_update:
  assumes "i < length (ct_slots t)"
  shows "cap_count P (t\<lparr>ct_slots := (ct_slots t)[i := e]\<rparr>)
           + (case peek t i of None \<Rightarrow> 0 | Some c \<Rightarrow> if P c then 1 else 0)
       = cap_count P t + (case e of None \<Rightarrow> 0 | Some c \<Rightarrow> if P c then 1 else 0)"
proof -
  let ?Q = "\<lambda>e. case e of None \<Rightarrow> False | Some c \<Rightarrow> P c"
  have w: "(case x of None \<Rightarrow> 0 | Some c \<Rightarrow> if P c then 1 else 0) = (if ?Q x then 1 else (0::nat))" for x
    by (simp split: option.split)
  show ?thesis
    using length_filter_update[OF assms, of ?Q e] assms
    by (simp add: cap_count_def w peek_nth)
qed

lemma cap_count_install:
  assumes "ct_wf t" and "install t c = Inr (i, t')"
  shows "cap_count P t' = cap_count P t + (if P c then 1 else 0)"
proof -
  have "t' = t\<lparr>ct_slots := (ct_slots t)[i := Some c]\<rparr>"
    using assms(2) by (auto simp: install_def split: option.splits)
  then show ?thesis
    using cap_count_slots_update[of i t P "Some c"] install_Inr(1,2)[OF assms] ct_wf_lengths[OF assms(1)]
    by simp
qed

lemma cap_count_revoke:
  assumes "ct_wf t" and "revoke t i = Inr (c, t')"
  shows "cap_count P t = cap_count P t' + (if P c then 1 else 0)"
proof -
  have "t' = t\<lparr>ct_slots := (ct_slots t)[i := None]\<rparr>"
    using assms(2) by (auto simp: revoke_def split: option.splits)
  then show ?thesis
    using cap_count_slots_update[of i t P None] revoke_Inr(1,5)[OF assms] ct_wf_lengths[OF assms(1)]
    by simp
qed

lemma cap_count_reserved_update [simp]:
  "cap_count P (t\<lparr>ct_reserved := rs\<rparr>) = cap_count P t"
  by (simp add: cap_count_def)

lemma cap_count_reserve [simp]: "cap_count P (reserve t i) = cap_count P t"
  by (simp add: reserve_def)

lemma cap_count_clear_reservation [simp]: "cap_count P (clear_reservation t i) = cap_count P t"
  by (simp add: clear_reservation_def)

lemma cap_count_reclaim_to:
  assumes "ct_wf t" and "reclaim_to t i c = Some (j, t')"
  shows "cap_count P t' = cap_count P t + (if P c then 1 else 0)"
proof -
  have t': "t' = t\<lparr>ct_slots := (ct_slots t)[i := Some c], ct_reserved := (ct_reserved t)[i := False]\<rparr>"
    using assms(2) by (auto simp: reclaim_to_def split: if_splits option.splits)
  have "peek t i = None"
    using reclaim_to_Some(2)[OF assms] reserved_empty[OF assms(1)] by blast
  then show ?thesis
    using cap_count_slots_update[of i t P "Some c"] reclaim_to_Some(3)[OF assms] ct_wf_lengths[OF assms(1)]
    by (simp add: t' cap_count_def)
qed

text \<open>
  What the lending code relies on: a store of capabilities that can be put in and
  taken out one at a time, with slots that may be held open.  A transfer is a
  take from one store and a put into another.
\<close>

locale cap_store =
  fixes ok :: "'t \<Rightarrow> bool"
    and view :: "'t \<Rightarrow> nat \<Rightarrow> 'c option"
    and held :: "'t \<Rightarrow> nat \<Rightarrow> bool"
    and count :: "('c \<Rightarrow> bool) \<Rightarrow> 't \<Rightarrow> nat"
    and put :: "'t \<Rightarrow> 'c \<Rightarrow> 'e + (nat \<times> 't)"
    and take_out :: "'t \<Rightarrow> nat \<Rightarrow> 'e + ('c \<times> 't)"
  assumes put_view: "ok t \<Longrightarrow> put t c = Inr (i, t') \<Longrightarrow>
      view t i = None \<and> \<not> held t i \<and> view t' = (view t)(i := Some c) \<and> held t' = held t"
    and put_ok: "ok t \<Longrightarrow> put t c = Inr (i, t') \<Longrightarrow> ok t'"
    and put_count: "ok t \<Longrightarrow> put t c = Inr (i, t') \<Longrightarrow>
      count P t' = count P t + (if P c then 1 else 0)"
    and put_full: "ok t \<Longrightarrow> put t c = Inl e \<Longrightarrow> put t c' = Inl e"
    and take_view: "ok t \<Longrightarrow> take_out t i = Inr (c, t') \<Longrightarrow>
      view t i = Some c \<and> view t' = (view t)(i := None) \<and> held t' = held t"
    and take_ok: "ok t \<Longrightarrow> take_out t i = Inr (c, t') \<Longrightarrow> ok t'"
    and take_count: "ok t \<Longrightarrow> take_out t i = Inr (c, t') \<Longrightarrow>
      count P t = count P t' + (if P c then 1 else 0)"
    and take_total: "ok t \<Longrightarrow> view t i = Some c \<Longrightarrow> \<exists>t'. take_out t i = Inr (c, t')"
begin

lemma move_counts:
  assumes "ok src" "ok dst" and "take_out src i = Inr (c, src')" and "put dst (f c) = Inr (j, dst')"
    and "P (f c) = P c"
  shows "count P src' + count P dst' = count P src + count P dst"
  using take_count[OF assms(1,3), of P] put_count[OF assms(2,4), of P] assms(5) by simp

lemma put_back:
  assumes "ok t" and "take_out t i = Inr (c, t')" and "put t' c = Inr (j, t'')"
  shows "count P t'' = count P t"
  using take_count[OF assms(1,2), of P] put_count[OF take_ok[OF assms(1,2)] assms(3), of P] by simp

lemma put_take_again:
  assumes "ok t" and "put t c = Inr (i, t')"
  shows "\<exists>t''. take_out t' i = Inr (c, t'') \<and> view t'' = view t \<and> held t'' = held t"
proof -
  have v: "view t' = (view t)(i := Some c)" "view t i = None" "held t' = held t"
    using put_view[OF assms] by simp_all
  then obtain t'' where "take_out t' i = Inr (c, t'')"
    using take_total[OF put_ok[OF assms], of i c] by auto
  moreover from this have "view t'' = view t" "held t'' = held t"
    using take_view[OF put_ok[OF assms]] v by (auto simp: fun_eq_iff)
  ultimately show ?thesis by blast
qed

lemma put_elsewhere:
  assumes "ok t" and "put t c = Inr (i, t')" and "view t k = Some d"
  shows "k \<noteq> i" and "view t' k = Some d"
  using put_view[OF assms(1,2)] assms(3) by auto

end

interpretation tab: cap_store ct_wf peek is_reserved cap_count install revoke
proof unfold_locales
  fix t c i t'
  assume "ct_wf t" "install t c = Inr (i, t')"
  then show "peek t i = None \<and> \<not> is_reserved t i \<and> peek t' = (peek t)(i := Some c) \<and>
             is_reserved t' = is_reserved t"
    by (simp add: install_Inr)
next
  fix t c e c'
  assume "ct_wf t" "install t c = Inl e"
  then show "install t c' = Inl e"
    using install_Inl_iff by metis
qed (blast intro: install_Inr(7) cap_count_install revoke_Inr(1-4) cap_count_revoke revoke_Some)+

section \<open>Lending, return and the root lender\<close>

text \<open>A capability handed on several times: each hop names its source and its destination.\<close>

fun lend_chain :: "capability \<Rightarrow> (origin \<times> nat) list \<Rightarrow> capability" where
  "lend_chain c [] = c"
| "lend_chain c ((source, dest) # hops) = lend_chain (lent_to c source dest) hops"

lemma lent_to_keeps [simp]:
  "cap_obj (lent_to c og d) = cap_obj c" "cap_rights (lent_to c og d) = cap_rights c"
  by (simp_all add: lent_to_def)

lemma lent_to_first: "cap_origin c = None \<Longrightarrow> lent_to c og d = c\<lparr>cap_origin := Some og\<rparr>"
  by (simp add: lent_to_def)

lemma lent_to_onward:
  "cap_origin c = Some og \<Longrightarrow> d \<noteq> lender og \<Longrightarrow> lent_to c src d = c"
  by (cases c) (auto simp: lent_to_def)

lemma lent_to_home: "cap_origin c = Some og \<Longrightarrow> lent_to c src (lender og) = c\<lparr>cap_origin := None\<rparr>"
  by (simp add: lent_to_def)

lemma lend_chain_onward:
  "cap_origin c = Some og \<Longrightarrow> (\<forall>(src, d) \<in> set hops. d \<noteq> lender og) \<Longrightarrow> lend_chain c hops = c"
proof (induction hops)
  case Nil
  then show ?case by simp
next
  case (Cons h hops)
  obtain src d where h: "h = (src, d)" by (cases h)
  then have "lent_to c src d = c"
    using Cons.prems by (intro lent_to_onward) auto
  then show ?case using Cons h by simp
qed

text \<open>
  C8. The root-lender rule: however often a lent capability is handed on, as long as
  no hop reaches its owner the capability still names the owner's process and slot,
  and the hop that does reach the owner gives back exactly the capability that left,
  owned outright.
\<close>

theorem root_lender_survives:
  assumes "cap_origin c = None"
    and "\<forall>(src, d) \<in> set hops. d \<noteq> lender og"
  shows "cap_origin (lend_chain (lent_to c og d0) hops) = Some og \<and>
         lent_to (lend_chain (lent_to c og d0) hops) src (lender og) = c"
proof -
  have chain: "lend_chain (lent_to c og d0) hops = c\<lparr>cap_origin := Some og\<rparr>"
    using assms by (simp add: lent_to_first lend_chain_onward)
  then show ?thesis using assms(1) by (simp add: lent_to_home)
qed

theorem root_lender_survives_witness:
  "cap_origin (lend_chain (lent_to \<lparr>cap_obj = EventSource 0, cap_rights = 1, cap_origin = None\<rparr>
      (origin_new 0 3) 1) [(origin_new 1 2, 2), (origin_new 2 2, 1)]) = Some (origin_new 0 3)"
  by (rule conjunct1 [OF root_lender_survives]) (simp_all add: lender_def origin_new_def)

text \<open>
  Lend time and death time agree: a slot is reserved for a capability lent by its
  outright owner exactly when the release policy would send the borrower's copy back to
  that slot, and what would come back is the capability that left.
\<close>

lemma reservation_matches_release:
  assumes "cap_origin c = None"
  shows "(lend_reserves_home c \<longleftrightarrow> release_action_of (lent_to c og dest) = ReclaimTo og) \<and>
         reclaim_target (lent_to c og dest) dying
           = (if lend_reserves_home c then Some (og, c) else None)"
proof -
  have l: "lent_to c og dest = c\<lparr>cap_origin := Some og\<rparr>" by (rule lent_to_first[OF assms])
  show ?thesis
    using assms
    by (cases "cap_obj c")
      (auto simp: l release_action_of_def lend_reserves_home_def reclaim_target_def lent_to_home)
qed

theorem reservation_matches_release_witness:
  "reclaim_target (lent_to \<lparr>cap_obj = BlockRange 0 8 4, cap_rights = 1, cap_origin = None\<rparr>
      (origin_new 2 5) 1) 1
   = (if lend_reserves_home \<lparr>cap_obj = BlockRange 0 8 4, cap_rights = 1, cap_origin = None\<rparr>
      then Some (origin_new 2 5, \<lparr>cap_obj = BlockRange 0 8 4, cap_rights = 1, cap_origin = None\<rparr>)
      else None)"
  by (rule conjunct2 [OF reservation_matches_release]) simp

section \<open>Every sequence of table operations\<close>

text \<open>
  The operations the kernel performs on one process's table.  \<open>OpLend\<close> is the table half
  of \<open>process::revoke_and_unmap_for_lend\<close>: revoke, and hold the slot open when the
  capability can come home.  An operation that the source reports as an error leaves the table alone.
\<close>

datatype table_op =
    OpMint cap_object u8
  | OpInstall capability
  | OpInstallHome capability "origin option" nat
  | OpReclaimTo nat capability
  | OpRevoke nat
  | OpLend nat
  | OpClearReservation nat
  | OpClearOrigin nat
  | OpCharge nat u64 u8
  | OpDrain

fun apply_op :: "cap_table \<Rightarrow> table_op \<Rightarrow> cap_table" where
  "apply_op t (OpMint ob rts) = (case mint t ob rts of Inl _ \<Rightarrow> t | Inr (_, t') \<Rightarrow> t')"
| "apply_op t (OpInstall c) = (case install t c of Inl _ \<Rightarrow> t | Inr (_, t') \<Rightarrow> t')"
| "apply_op t (OpInstallHome c prior dest) =
     (case install_home t c prior dest of None \<Rightarrow> t | Some (_, t') \<Rightarrow> t')"
| "apply_op t (OpReclaimTo s c) = (case reclaim_to t s c of None \<Rightarrow> t | Some (_, t') \<Rightarrow> t')"
| "apply_op t (OpRevoke s) = (case revoke t s of Inl _ \<Rightarrow> t | Inr (_, t') \<Rightarrow> t')"
| "apply_op t (OpLend s) =
     (case revoke t s of Inl _ \<Rightarrow> t
      | Inr (c, t') \<Rightarrow> if lend_reserves_home c then reserve t' s else t')"
| "apply_op t (OpClearReservation s) = clear_reservation t s"
| "apply_op t (OpClearOrigin p) = snd (clear_origin t p)"
| "apply_op t (OpCharge s amount req) = (case charge t s amount req of Inl _ \<Rightarrow> t | Inr (_, t') \<Rightarrow> t')"
| "apply_op t OpDrain = snd (drain t)"

text \<open>The operations that may end the reservation of slot \<open>s\<close>.\<close>

fun claims_slot :: "nat \<Rightarrow> table_op \<Rightarrow> bool" where
  "claims_slot s (OpReclaimTo s' _) = (s' = s)"
| "claims_slot s (OpClearReservation s') = (s' = s)"
| "claims_slot s (OpInstallHome _ prior dest) =
     (case prior of None \<Rightarrow> False | Some og \<Rightarrow> lender og = dest \<and> home og = s)"
| "claims_slot s _ = False"

lemma clear_origin_views:
  "peek (snd (clear_origin t p)) i =
     (if names_lender p (peek t i) then map_option (\<lambda>c. c\<lparr>cap_origin := None\<rparr>) (peek t i) else peek t i)"
  "is_reserved (snd (clear_origin t p)) = is_reserved t"
  by (simp_all add: clear_origin_def peek_def get_def names_lender_def)

lemma ct_wf_clear_origin [wf]: "ct_wf t \<Longrightarrow> ct_wf (snd (clear_origin t p))"
  by (auto simp: clear_origin_def ct_wf_def names_lender_def)

lemma ct_wf_drain [wf]: "ct_wf t \<Longrightarrow> ct_wf (snd (drain t))"
  by (simp add: drain_def ct_wf_def)

lemma drain_views:
  "peek (snd (drain t)) i = None" "is_reserved (snd (drain t)) = is_reserved t"
  by (simp_all add: drain_def peek_def get_def)

lemma charge_Inr:
  assumes "charge t s amount req = Inr (rem, t')"
  obtains c b where "peek t s = Some c" "cap_obj c = CpuTime b" "cap_rights c AND req = req"
    and "checked_sub b amount = Some rem"
    and "t' = t\<lparr>ct_slots := (ct_slots t)[s := Some (c\<lparr>cap_obj := CpuTime rem\<rparr>)]\<rparr>"
    and "s < length (ct_slots t)"
  using assms
  by (auto simp: charge_def get_def peek_def split: option.splits if_splits cap_object.splits)

lemma charge_views:
  assumes "ct_wf t" and "charge t s amount req = Inr (rem, t')"
  shows "ct_wf t'" and "is_reserved t' = is_reserved t"
    and "peek t i = None \<Longrightarrow> peek t' i = None"
  using assms
  by (auto elim!: charge_Inr simp: peek_slots_update ct_wf_def nth_list_update_cases peek_nth)

lemma install_home_cases:
  assumes "ct_wf t" and "install_home t c prior dest = Some (i, t')"
  shows "(\<exists>og. prior = Some og \<and> lender og = dest \<and> reclaim_to t (home og) c = Some (i, t')) \<or>
         install t c = Inr (i, t')"
  using assms by (auto simp: install_home_def Let_def split: option.splits sum.splits if_splits)

lemma ct_wf_install_home [wf]:
  assumes "ct_wf t" and "install_home t c prior dest = Some (i, t')"
  shows "ct_wf t'"
  using install_home_cases[OF assms] install_Inr(7)[OF assms(1)] reclaim_to_Some(6)[OF assms(1)] by blast

lemma apply_op_wf [wf]: "ct_wf t \<Longrightarrow> ct_wf (apply_op t x)"
proof (cases x)
  case (OpLend s)
  assume wf_t: "ct_wf t"
  show ?thesis
  proof (cases "revoke t s")
    case (Inr p)
    obtain c t' where p: "p = (c, t')" by (cases p)
    note R = revoke_Inr[OF wf_t Inr[unfolded p]]
    show ?thesis using OpLend Inr p R by (auto intro: ct_wf_reserve)
  qed (simp add: OpLend wf_t)
qed (auto simp: mint_def split: sum.splits option.splits
      intro: wf install_Inr(7) reclaim_to_Some(6) revoke_Inr(4) charge_views(1))

lemma apply_op_keeps_reservation:
  assumes "ct_wf t" and "is_reserved t s" and "\<not> claims_slot s x"
  shows "is_reserved (apply_op t x) s"
proof (cases x)
  case (OpInstallHome c prior dest)
  show ?thesis
  proof (cases "install_home t c prior dest")
    case (Some p)
    obtain i t' where p: "p = (i, t')" by (cases p)
    have "(\<exists>og. prior = Some og \<and> lender og = dest \<and> reclaim_to t (home og) c = Some (i, t')) \<or>
          install t c = Inr (i, t')"
      using install_home_cases[OF assms(1) Some[unfolded p]] .
    then have "is_reserved t' s"
      using assms reclaim_to_Some(5)[OF assms(1)] install_Inr(5)[OF assms(1)] OpInstallHome
      by fastforce
    then show ?thesis using OpInstallHome Some p by simp
  qed (simp add: OpInstallHome assms)
next
  case (OpReclaimTo s' c)
  then show ?thesis
    using assms reclaim_to_Some(5)[OF assms(1)] by (fastforce split: option.splits)
next
  case (OpLend s')
  show ?thesis
  proof (cases "revoke t s'")
    case (Inr p)
    obtain c t' where p: "p = (c, t')" by (cases p)
    note R = revoke_Inr[OF assms(1) Inr[unfolded p]]
    show ?thesis using OpLend Inr p R assms(2) reserve_views[OF R(4,5)] by auto
  qed (simp add: OpLend assms)
qed (use assms in \<open>auto simp: mint_def clear_origin_views drain_views clear_reservation_views
      install_Inr(5) revoke_Inr(3) charge_views(2) split: sum.splits\<close>)



section \<open>First fit, metering, and the exit-time sweep\<close>

text \<open>
  \<open>install\<close> is first fit over the slots that are empty and not held open: it fails, with
  \<open>TableFull\<close>, exactly when there is no such slot, and otherwise fills the lowest one and
  changes nothing else.
\<close>

lemma install_first_fit:
  assumes "ct_wf t"
  shows "(case install t c of
            Inl e \<Rightarrow> e = TableFull \<and> (\<forall>i < MAX_CAPS. peek t i \<noteq> None \<or> is_reserved t i)
          | Inr (i, t') \<Rightarrow>
              i < MAX_CAPS \<and> peek t i = None \<and> \<not> is_reserved t i \<and>
              (\<forall>j < i. peek t j \<noteq> None \<or> is_reserved t j) \<and>
              peek t' = (peek t)(i := Some c) \<and> is_reserved t' = is_reserved t)"
proof (cases "install t c")
  case (Inl e)
  then show ?thesis using install_Inl_iff[OF assms, of c e] by simp
next
  case (Inr p)
  obtain i t' where p: "p = (i, t')" by (cases p)
  show ?thesis using install_Inr[OF assms Inr[unfolded p]] Inr p by simp
qed

theorem install_first_fit_witness:
  "case install (reserve ct_new 0) \<lparr>cap_obj = Ring 1, cap_rights = 3, cap_origin = None\<rparr> of
     Inl e \<Rightarrow> e = TableFull \<and> (\<forall>i < MAX_CAPS. peek (reserve ct_new 0) i \<noteq> None \<or> is_reserved (reserve ct_new 0) i)
   | Inr (i, t') \<Rightarrow>
       i < MAX_CAPS \<and> peek (reserve ct_new 0) i = None \<and> \<not> is_reserved (reserve ct_new 0) i \<and>
       (\<forall>j < i. peek (reserve ct_new 0) j \<noteq> None \<or> is_reserved (reserve ct_new 0) j) \<and>
       peek t' = (peek (reserve ct_new 0))(i := Some \<lparr>cap_obj = Ring 1, cap_rights = 3, cap_origin = None\<rparr>) \<and>
       is_reserved t' = is_reserved (reserve ct_new 0)"
  by (rule install_first_fit) (simp add: ct_wf_reserve ct_wf_new ct_new_def peek_def get_def MAX_CAPS_def ct_wf_def reserve_def)

text \<open>A process charging its budget again and again: the total charged, and the table after it.\<close>

fun charge_all :: "cap_table \<Rightarrow> nat \<Rightarrow> u64 list \<Rightarrow> nat \<times> cap_table" where
  "charge_all t s [] = (0, t)"
| "charge_all t s (a # as) =
     (case charge t s a RIGHT_CONSUME of
        Inl _ \<Rightarrow> charge_all t s as
      | Inr (_, t') \<Rightarrow> (let (spent, t'') = charge_all t' s as in (unat a + spent, t'')))"

lemma charge_CpuTime:
  assumes "peek t s = Some c" "cap_obj c = CpuTime b" "cap_rights c AND req = req"
  shows "charge t s a req =
    (if a \<le> b
     then Inr (b - a, t\<lparr>ct_slots := (ct_slots t)[s := Some (c\<lparr>cap_obj := CpuTime (b - a)\<rparr>)]\<rparr>)
     else Inl Insufficient)"
  using assms
  by (auto simp: charge_def peek_def get_def checked_sub_def split: option.splits if_splits)

text \<open>
  C17. Budget accounting: over any sequence of charges what a holder has spent and what it
  has left add up to the budget it started with, an overdraw costs nothing, and no other
  slot is touched.
\<close>

theorem charge_accounting:
  assumes "peek t s = Some c" "cap_obj c = CpuTime b" "cap_rights c AND RIGHT_CONSUME = RIGHT_CONSUME"
    and "charge_all t s as = (spent, t')"
  shows "\<exists>b'. peek t' s = Some (c\<lparr>cap_obj := CpuTime b'\<rparr>) \<and> spent + unat b' = unat b \<and>
              (\<forall>i. i \<noteq> s \<longrightarrow> peek t' i = peek t i) \<and> ct_reserved t' = ct_reserved t"
  using assms
proof (induction "as" arbitrary: t c b spent t')
  case Nil
  then have "c\<lparr>cap_obj := CpuTime b\<rparr> = c" by (cases c) simp
  then show ?case using Nil by (intro exI[of _ b]) simp
next
  case (Cons a "as")
  have s: "s < length (ct_slots t)"
    using Cons.prems(1) by (auto simp: peek_def get_def split: if_splits)
  show ?case
  proof (cases "a \<le> b")
    case False
    then have "charge_all t s as = (spent, t')"
      using Cons.prems(4) charge_CpuTime[OF Cons.prems(1-3)] by simp
    then show ?thesis using Cons.IH[OF Cons.prems(1-3)] by blast
  next
    case True
    define c1 where "c1 = c\<lparr>cap_obj := CpuTime (b - a)\<rparr>"
    define t1 where "t1 = t\<lparr>ct_slots := (ct_slots t)[s := Some c1]\<rparr>"
    have p1: "peek t1 = (peek t)(s := Some c1)"
      using s by (simp add: t1_def peek_slots_update)
    obtain spent1 where sp: "charge_all t1 s as = (spent1, t')" "spent = unat a + spent1"
      using Cons.prems(4) charge_CpuTime[OF Cons.prems(1-3)] True
      by (auto simp: t1_def c1_def split: prod.splits)
    obtain b' where b': "peek t' s = Some (c1\<lparr>cap_obj := CpuTime b'\<rparr>)" "spent1 + unat b' = unat (b - a)"
      "\<forall>i. i \<noteq> s \<longrightarrow> peek t' i = peek t1 i" "ct_reserved t' = ct_reserved t1"
      using Cons.IH[of t1 c1 "b - a" spent1 t'] p1 Cons.prems(3) sp(1) by (auto simp: c1_def)
    have "c1\<lparr>cap_obj := CpuTime b'\<rparr> = c\<lparr>cap_obj := CpuTime b'\<rparr>" by (simp add: c1_def)
    moreover have "spent + unat b' = unat b"
      using b'(2) sp(2) True by (simp add: unat_sub word_le_nat_alt)
    ultimately show ?thesis
      using b' p1 by (intro exI[of _ b']) (simp add: t1_def)
  qed
qed

definition budget_cap :: capability where
  "budget_cap = \<lparr>cap_obj = CpuTime 1024, cap_rights = RIGHT_CONSUME, cap_origin = None\<rparr>"

definition budget_table :: cap_table where
  "budget_table = ct_new\<lparr>ct_slots := [Some budget_cap]\<rparr>"

theorem charge_accounting_witness:
  "\<exists>b'. peek (snd (charge_all budget_table 0 [256, 2000, 256])) 0 = Some (budget_cap\<lparr>cap_obj := CpuTime b'\<rparr>) \<and>
        512 + unat b' = unat (1024 :: u64)"
proof -
  let ?r = "charge_all budget_table 0 [256, 2000, 256]"
  have r: "?r = (512, snd ?r)"
    by (simp add: budget_table_def budget_cap_def get_def RIGHT_CONSUME_def charge_def checked_sub_def)
  have "peek budget_table 0 = Some budget_cap"
    by (simp add: budget_table_def peek_def get_def)
  from charge_accounting[OF this _ _ r, of 1024] show ?thesis
    by (auto simp: budget_cap_def)
qed

text \<open>
  The exit-time sweep: afterwards no capability in the table names the departing
  process as its lender, the count returned is the number that did, and every capability
  is otherwise the one that was there.
\<close>

lemma clear_origin_sweeps:
  shows "(\<forall>i. \<not> names_lender p (peek (snd (clear_origin t p)) i)) \<and>
         (\<forall>i. \<not> names_lender p (peek t i) \<longrightarrow> peek (snd (clear_origin t p)) i = peek t i) \<and>
         (\<forall>i. map_option (\<lambda>c. (cap_obj c, cap_rights c)) (peek (snd (clear_origin t p)) i)
            = map_option (\<lambda>c. (cap_obj c, cap_rights c)) (peek t i)) \<and>
         fst (clear_origin t p) = cap_count (\<lambda>c. map_option lender (cap_origin c) = Some p) t"
proof -
  have "fst (clear_origin t p) = cap_count (\<lambda>c. map_option lender (cap_origin c) = Some p) t"
    by (simp add: clear_origin_def cap_count_def names_lender_def[abs_def])
  then show ?thesis
    by (auto simp: clear_origin_views names_lender_def split: option.splits)
qed

text \<open>The sweep's statement quantifies over slots that name another lender; this is one.\<close>

theorem clear_origin_sweeps_witness:
  "peek (snd (clear_origin (ct_new\<lparr>ct_slots := [Some \<lparr>cap_obj = EventSource 0, cap_rights = 1,
       cap_origin = Some (origin_new 2 4)\<rparr>]\<rparr>) 1)) 0
   = peek (ct_new\<lparr>ct_slots := [Some \<lparr>cap_obj = EventSource 0, cap_rights = 1,
       cap_origin = Some (origin_new 2 4)\<rparr>]\<rparr>) 0"
  by (rule conjunct1 [OF conjunct2 [OF clear_origin_sweeps], rule_format])
    (simp add: names_lender_def peek_def get_def lender_def origin_new_def)

end
