(* ===== verification/Process.thy ===== *)
theory Process
  imports Capability
begin

text \<open>
  The process of \<open>kernel/src/process.rs\<close>: a capability table, the records of what it has
  mapped, its fault registration and its address space; and the giving half of every
  capability transfer, which takes the access away with the authority.  The page-table walker
  is third-party code: an operation here returns the virtual addresses it asks
  \<open>memory::unmap_user_page\<close> to unmap in the process's address space, in order.
\<close>

section \<open>State\<close>

record fb_map_rec =
  fm_va :: u64
  fm_pages :: u32
  fm_slot :: nat

record fault_reg =
  fr_entry :: u64
  fr_stack_top :: u64

record process =
  p_caps :: cap_table
  p_maps :: "(u64 \<times> nat) option list"
  p_fb_maps :: "fb_map_rec option list"
  p_fault :: "fault_reg option"
  p_in_fault :: bool
  p_l4 :: u64

definition MAX_USER_MAPS :: nat where "MAX_USER_MAPS = 16"
definition MAX_FB_MAPS :: nat where "MAX_FB_MAPS = 4"
definition CPU_CAP_SLOT :: nat where "CPU_CAP_SLOT = 0"
definition GRANT_SLOT :: nat where "GRANT_SLOT = 1"
definition MAX_BOOT_FRAMES :: nat where "MAX_BOOT_FRAMES = 64"
definition USER_STACK_TOP :: u64 where "USER_STACK_TOP = 0x0FF00000"
definition INITIAL_CPU_BUDGET :: u64 where "INITIAL_CPU_BUDGET = 1024"

definition process_new :: process where
  "process_new = \<lparr>p_caps = ct_new, p_maps = replicate MAX_USER_MAPS None,
     p_fb_maps = replicate MAX_FB_MAPS None, p_fault = None, p_in_fault = False, p_l4 = 0\<rparr>"

section \<open>Framebuffer records\<close>

definition fb_record :: "fb_map_rec option list \<Rightarrow> fb_map_rec \<Rightarrow> bool \<times> fb_map_rec option list" where
  "fb_record maps m =
     (case position (\<lambda>e. e = None) maps of
        None \<Rightarrow> (False, maps)
      | Some i \<Rightarrow> (True, maps[i := Some m]))"

definition names_fb_slot :: "nat \<Rightarrow> fb_map_rec option \<Rightarrow> bool" where
  "names_fb_slot slot e = (case e of None \<Rightarrow> False | Some m \<Rightarrow> fm_slot m = slot)"

text \<open>The records taken, in order, and the cleared array.\<close>

definition fb_take_slot ::
    "fb_map_rec option list \<Rightarrow> nat \<Rightarrow> fb_map_rec list \<times> fb_map_rec option list" where
  "fb_take_slot maps slot =
     (List.map_filter id (filter (names_fb_slot slot) maps),
      map (\<lambda>e. if names_fb_slot slot e then None else e) maps)"

definition fb_pages :: "fb_map_rec \<Rightarrow> u64 list" where
  "fb_pages m = map (\<lambda>i. fm_va m + of_nat i * 4096) [0..<unat (fm_pages m)]"

definition unmap_fb_for_slot :: "process \<Rightarrow> nat \<Rightarrow> process \<times> u64 list" where
  "unmap_fb_for_slot p slot =
     (let (taken, maps) = fb_take_slot (p_fb_maps p) slot in
      (p\<lparr>p_fb_maps := maps\<rparr>, concat (map fb_pages taken)))"

section \<open>Giving a capability away\<close>

definition is_frame :: "cap_object \<Rightarrow> bool" where
  "is_frame ob = (case ob of Frame _ \<Rightarrow> True | _ \<Rightarrow> False)"

definition is_framebuffer :: "cap_object \<Rightarrow> bool" where
  "is_framebuffer ob = (case ob of Framebuffer _ _ _ _ _ _ \<Rightarrow> True | _ \<Rightarrow> False)"

definition names_map_slot :: "nat \<Rightarrow> (u64 \<times> nat) option \<Rightarrow> bool" where
  "names_map_slot slot e = (case e of None \<Rightarrow> False | Some (va, s) \<Rightarrow> s = slot)"

definition unmap_frame_for_slot :: "process \<Rightarrow> nat \<Rightarrow> process \<times> u64 list" where
  "unmap_frame_for_slot p slot =
     (p\<lparr>p_maps := map (\<lambda>e. if names_map_slot slot e then None else e) (p_maps p)\<rparr>,
      map fst (List.map_filter id (filter (names_map_slot slot) (p_maps p))))"

definition revoke_and_unmap :: "process \<Rightarrow> nat \<Rightarrow> (capability \<times> process \<times> u64 list) option" where
  "revoke_and_unmap p slot =
     (case revoke (p_caps p) slot of
        Inl _ \<Rightarrow> None
      | Inr (c, t) \<Rightarrow>
          let p1 = p\<lparr>p_caps := t\<rparr>;
              (p2, u1) = (if is_frame (cap_obj c) then unmap_frame_for_slot p1 slot else (p1, []));
              (p3, u2) = (if is_framebuffer (cap_obj c) then unmap_fb_for_slot p2 slot else (p2, []))
          in Some (c, p3, u1 @ u2))"

definition revoke_and_unmap_for_lend :: "process \<Rightarrow> nat \<Rightarrow> (capability \<times> process \<times> u64 list) option" where
  "revoke_and_unmap_for_lend p slot =
     (let reserves = (case peek (p_caps p) slot of None \<Rightarrow> False | Some c \<Rightarrow> lend_reserves_home c) in
      case revoke_and_unmap p slot of
        None \<Rightarrow> None
      | Some (c, p', us) \<Rightarrow>
          Some (c, if reserves then p'\<lparr>p_caps := reserve (p_caps p') slot\<rparr> else p', us))"

text \<open>\<open>None\<close> is the panic of a fresh table that is full, which \<open>spawn_process_caps\<close> excludes.\<close>

definition spawn_process :: "capability option \<Rightarrow> process option" where
  "spawn_process transferred =
     (case mint (p_caps process_new) (CpuTime INITIAL_CPU_BUDGET) RIGHT_CONSUME of
        Inl _ \<Rightarrow> None
      | Inr (_, t) \<Rightarrow>
          (case transferred of
             None \<Rightarrow> Some (process_new\<lparr>p_caps := t\<rparr>)
           | Some c \<Rightarrow>
               (case install t c of
                  Inl _ \<Rightarrow> None
                | Inr (_, t') \<Rightarrow> Some (process_new\<lparr>p_caps := t'\<rparr>))))"

section \<open>Lemmas\<close>

text \<open>The virtual addresses a process reaches through the capability at \<open>slot\<close>.\<close>

definition reaches_through :: "process \<Rightarrow> nat \<Rightarrow> u64 set" where
  "reaches_through p slot =
     {va. Some (va, slot) \<in> set (p_maps p)} \<union>
     \<Union> {set (fb_pages m) | m. Some m \<in> set (p_fb_maps p) \<and> fm_slot m = slot}"

lemma revoke_caps:
  assumes "ct_wf t" and "revoke t slot = Inr (c, t')"
  shows "peek t slot = Some c \<and> peek t' = (peek t)(slot := None) \<and> is_reserved t' = is_reserved t \<and> ct_wf t'"
  using assms revoke_Inr by blast

lemma map_filter_id_set: "set (List.map_filter id xs) = {x. Some x \<in> set xs}"
  by (force simp: List.map_filter_def)

lemma revoke_and_unmap_Some:
  assumes "revoke_and_unmap p slot = Some (c, p', us)"
  shows "\<exists>t. revoke (p_caps p) slot = Inr (c, t) \<and> p_caps p' = t"
    and "p_l4 p' = p_l4 p" "p_fault p' = p_fault p" "p_in_fault p' = p_in_fault p"
    and "p_maps p' = (if is_frame (cap_obj c)
           then map (\<lambda>e. if names_map_slot slot e then None else e) (p_maps p) else p_maps p)"
    and "p_fb_maps p' = (if is_framebuffer (cap_obj c)
           then map (\<lambda>e. if names_fb_slot slot e then None else e) (p_fb_maps p) else p_fb_maps p)"
    and "set us = (if is_frame (cap_obj c) then {va. Some (va, slot) \<in> set (p_maps p)}
           else if is_framebuffer (cap_obj c)
             then \<Union> {set (fb_pages m) | m. Some m \<in> set (p_fb_maps p) \<and> fm_slot m = slot} else {})"
proof -
  obtain t where t: "revoke (p_caps p) slot = Inr (c, t)"
    using assms by (auto simp: revoke_and_unmap_def Let_def split: sum.splits prod.splits)
  have ex: "\<not> (is_frame ob \<and> is_framebuffer ob)" for ob
    by (cases ob) (simp_all add: is_frame_def is_framebuffer_def)
  have fr: "set (map fst (List.map_filter id (filter (names_map_slot slot) (p_maps p))))
      = {va. Some (va, slot) \<in> set (p_maps p)}"
    by (force simp: map_filter_id_set names_map_slot_def split: option.splits)
  have fb: "set (concat (map fb_pages (List.map_filter id (filter (names_fb_slot slot) (p_fb_maps p)))))
      = \<Union> {set (fb_pages m) | m. Some m \<in> set (p_fb_maps p) \<and> fm_slot m = slot}"
    by (auto simp: map_filter_id_set names_fb_slot_def split: option.splits)
  have E: "(c, p', us) = (c,
      (if is_frame (cap_obj c) then fst (unmap_frame_for_slot (p\<lparr>p_caps := t\<rparr>) slot)
       else if is_framebuffer (cap_obj c) then fst (unmap_fb_for_slot (p\<lparr>p_caps := t\<rparr>) slot)
       else p\<lparr>p_caps := t\<rparr>),
      (if is_frame (cap_obj c) then snd (unmap_frame_for_slot (p\<lparr>p_caps := t\<rparr>) slot)
       else if is_framebuffer (cap_obj c) then snd (unmap_fb_for_slot (p\<lparr>p_caps := t\<rparr>) slot) else []))"
    using assms t ex[of "cap_obj c"]
    by (auto simp: revoke_and_unmap_def Let_def split: prod.splits if_splits)
  show "\<exists>t. revoke (p_caps p) slot = Inr (c, t) \<and> p_caps p' = t"
    "p_l4 p' = p_l4 p" "p_fault p' = p_fault p" "p_in_fault p' = p_in_fault p"
    using E t by (auto simp: unmap_frame_for_slot_def unmap_fb_for_slot_def fb_take_slot_def)
  show "p_maps p' = (if is_frame (cap_obj c)
           then map (\<lambda>e. if names_map_slot slot e then None else e) (p_maps p) else p_maps p)"
    "p_fb_maps p' = (if is_framebuffer (cap_obj c)
           then map (\<lambda>e. if names_fb_slot slot e then None else e) (p_fb_maps p) else p_fb_maps p)"
    using E ex[of "cap_obj c"]
    by (auto simp: unmap_frame_for_slot_def unmap_fb_for_slot_def fb_take_slot_def)
  have us: "us = (if is_frame (cap_obj c)
        then map fst (List.map_filter id (filter (names_map_slot slot) (p_maps p)))
      else if is_framebuffer (cap_obj c)
        then concat (map fb_pages (List.map_filter id (filter (names_fb_slot slot) (p_fb_maps p)))) else [])"
    using E by (simp add: unmap_frame_for_slot_def unmap_fb_for_slot_def fb_take_slot_def)
  show "set us = (if is_frame (cap_obj c) then {va. Some (va, slot) \<in> set (p_maps p)}
           else if is_framebuffer (cap_obj c)
             then \<Union> {set (fb_pages m) | m. Some m \<in> set (p_fb_maps p) \<and> fm_slot m = slot} else {})"
    unfolding us using fr fb
    by (cases "is_frame (cap_obj c)"; cases "is_framebuffer (cap_obj c)";
        simp only: if_True if_False simp_thms list.set(1))
qed


lemma revoke_and_unmap_None_iff: "revoke_and_unmap p slot = None \<longleftrightarrow> (\<exists>e. revoke (p_caps p) slot = Inl e)"
  by (auto simp: revoke_and_unmap_def Let_def split: sum.splits prod.splits)

lemma for_lend_Some:
  assumes "revoke_and_unmap_for_lend p slot = Some (c, p', us)"
  obtains q where "revoke_and_unmap p slot = Some (c, q, us)"
    and "p' = (if lend_reserves_home c then q\<lparr>p_caps := reserve (p_caps q) slot\<rparr> else q)"
proof -
  obtain q where q: "revoke_and_unmap p slot = Some (c, q, us)"
    using assms by (auto simp: revoke_and_unmap_for_lend_def Let_def split: option.splits)
  then obtain t where "revoke (p_caps p) slot = Inr (c, t)" using revoke_and_unmap_Some(1) by blast
  then have "peek (p_caps p) slot = Some c"
    by (auto simp: revoke_def peek_def split: option.splits)
  then have "p' = (if lend_reserves_home c then q\<lparr>p_caps := reserve (p_caps q) slot\<rparr> else q)"
    using assms q by (auto simp: revoke_and_unmap_for_lend_def Let_def)
  then show ?thesis using that q by blast
qed

lemma for_lend_caps:
  assumes "ct_wf (p_caps p)" and "revoke_and_unmap_for_lend p slot = Some (c, p', us)"
  shows "peek (p_caps p) slot = Some c" and "peek (p_caps p') = (peek (p_caps p))(slot := None)"
    and "is_reserved (p_caps p') = (if lend_reserves_home c then (is_reserved (p_caps p))(slot := True)
           else is_reserved (p_caps p))"
    and "ct_wf (p_caps p')" and "p_l4 p' = p_l4 p" and "slot < MAX_CAPS"
proof -
  obtain q where q: "revoke_and_unmap p slot = Some (c, q, us)"
    and p': "p' = (if lend_reserves_home c then q\<lparr>p_caps := reserve (p_caps q) slot\<rparr> else q)"
    using for_lend_Some[OF assms(2)] by blast
  obtain t where t: "revoke (p_caps p) slot = Inr (c, t)" "p_caps q = t"
    using revoke_and_unmap_Some(1)[OF q] by blast
  note R = revoke_Inr[OF assms(1) t(1)]
  show "peek (p_caps p) slot = Some c" "slot < MAX_CAPS" by (fact R)+
  have e: "peek t slot = None" using R(2) by simp
  have res: "peek (reserve t slot) = peek t \<and> is_reserved (reserve t slot) = (is_reserved t)(slot := True) \<and>
      ct_wf (reserve t slot)"
    using reserve_views[OF R(4,5)] ct_wf_reserve[OF R(4) e] by simp
  show "peek (p_caps p') = (peek (p_caps p))(slot := None)"
    "is_reserved (p_caps p') = (if lend_reserves_home c then (is_reserved (p_caps p))(slot := True)
           else is_reserved (p_caps p))"
    "ct_wf (p_caps p')"
    using p' t(2) R res by auto
  show "p_l4 p' = p_l4 p" using p' revoke_and_unmap_Some(2)[OF q] by simp
qed

lemma no_map_left:
  "Some (va, slot) \<notin> set (map (\<lambda>e. if names_map_slot slot e then None else e) ms)"
  by (auto simp: names_map_slot_def split: option.splits)

lemma no_fb_left:
  "Some m \<in> set (map (\<lambda>e. if names_fb_slot slot e then None else e) ms) \<Longrightarrow> fm_slot m \<noteq> slot"
  by (auto simp: names_fb_slot_def split: option.splits if_splits)

lemma other_map_kept:
  "s \<noteq> slot \<Longrightarrow> Some (va, s) \<in> set (map (\<lambda>e. if names_map_slot slot e then None else e) ms)
     \<longleftrightarrow> Some (va, s) \<in> set ms"
  by (force simp: names_map_slot_def split: option.splits if_splits)

lemma other_fb_kept:
  "fm_slot m \<noteq> slot \<Longrightarrow> Some m \<in> set (map (\<lambda>e. if names_fb_slot slot e then None else e) ms)
     \<longleftrightarrow> Some m \<in> set ms"
  by (force simp: names_fb_slot_def split: option.splits if_splits)

text \<open>
  A frame is mapped through \<open>p_maps\<close> and a framebuffer through \<open>p_fb_maps\<close>; a process whose
  records follow that rule has only records whose capability is of the matching kind.
\<close>

definition maps_typed :: "process \<Rightarrow> bool" where
  "maps_typed p \<longleftrightarrow>
     (\<forall>va s. Some (va, s) \<in> set (p_maps p) \<longrightarrow>
        (\<exists>c. peek (p_caps p) s = Some c \<and> is_frame (cap_obj c))) \<and>
     (\<forall>m. Some m \<in> set (p_fb_maps p) \<longrightarrow>
        (\<exists>c. peek (p_caps p) (fm_slot m) = Some c \<and> is_framebuffer (cap_obj c)))"

text \<open>
  Giving a capability away takes the access with the authority: after a successful give the
  slot is empty, every page the process reached through it is unmapped and no record of it
  remains, every other capability and mapping is untouched, the rule that every mapping record
  names a live capability of its kind is kept, and the slot stays reserved exactly for an
  owned capability that can come home.
\<close>
lemma give_takes_access:
  assumes "ct_wf (p_caps p)" and "maps_typed p"
    and "revoke_and_unmap_for_lend p slot = Some (c, p', us)"
  shows "peek (p_caps p) slot = Some c \<and> peek (p_caps p') = (peek (p_caps p))(slot := None) \<and>
    set us = reaches_through p slot \<and> reaches_through p' slot = {} \<and>
    (\<forall>s. s \<noteq> slot \<longrightarrow> reaches_through p' s = reaches_through p s) \<and>
    maps_typed p' \<and>
    (is_reserved (p_caps p') slot \<longleftrightarrow> cap_origin c = None \<and> is_reclaimable_kind (cap_obj c))"
proof -
  note F = for_lend_caps[OF assms(1,3)]
  obtain q where q: "revoke_and_unmap p slot = Some (c, q, us)"
    and p': "p' = (if lend_reserves_home c then q\<lparr>p_caps := reserve (p_caps q) slot\<rparr> else q)"
    using for_lend_Some[OF assms(3)] by blast
  note R = revoke_and_unmap_Some[OF q]
  have maps: "p_maps p' = p_maps q" "p_fb_maps p' = p_fb_maps q" using p' by simp_all
  have kind1: "is_frame (cap_obj c)" if "Some (va, slot) \<in> set (p_maps p)" for va
    using assms(2) F(1) that unfolding maps_typed_def by force
  have kind2: "is_framebuffer (cap_obj c)" if "Some m \<in> set (p_fb_maps p)" "fm_slot m = slot" for m
    using assms(2) F(1) that unfolding maps_typed_def by force
  have ex: "\<not> (is_frame ob \<and> is_framebuffer ob)" for ob
    by (cases ob) (simp_all add: is_frame_def is_framebuffer_def)
  have us: "set us = reaches_through p slot"
    using R(7) kind1 kind2 ex[of "cap_obj c"] by (auto simp: reaches_through_def split: if_splits)
  have m0: "Some (va, slot) \<notin> set (p_maps p')" for va
    using kind1 no_map_left by (auto simp: maps R(5))
  have f0: "fm_slot m \<noteq> slot" if "Some m \<in> set (p_fb_maps p')" for m
    using kind2 no_fb_left that by (auto simp: maps R(6) split: if_splits)
  have m1: "Some (va, s) \<in> set (p_maps p') \<longleftrightarrow> Some (va, s) \<in> set (p_maps p)" if "s \<noteq> slot" for va s
    using other_map_kept[OF that] by (simp add: maps R(5))
  have f1: "Some m \<in> set (p_fb_maps p') \<longleftrightarrow> Some m \<in> set (p_fb_maps p)" if "fm_slot m \<noteq> slot" for m
    using other_fb_kept[OF that] by (simp add: maps R(6))
  have none: "reaches_through p' slot = {}" using m0 f0 by (auto simp: reaches_through_def)
  have other: "reaches_through p' s = reaches_through p s" if "s \<noteq> slot" for s
    using m1[OF that] f1 that by (auto simp: reaches_through_def)
  have "maps_typed p'"
    using assms(2) m0 f0 m1 f1 F(2) unfolding maps_typed_def by (metis fun_upd_other)
  moreover have "is_reserved (p_caps p') slot \<longleftrightarrow> lend_reserves_home c"
    using F(3) reserved_empty[OF assms(1)] F(1) by auto
  ultimately show ?thesis using F(1,2) us none other by (auto simp: lend_reserves_home_def)
qed

lemma give_takes_access_witness:
  "\<exists>p' us. revoke_and_unmap_for_lend
       (process_new\<lparr>p_caps := ct_new\<lparr>ct_slots := (ct_slots ct_new)[2 := Some \<lparr>cap_obj = Frame 0x9000, cap_rights = 3, cap_origin = None\<rparr>]\<rparr>,
                     p_maps := (p_maps process_new)[5 := Some (0x10000000, 2)]\<rparr>) 2
     = Some (\<lparr>cap_obj = Frame 0x9000, cap_rights = 3, cap_origin = None\<rparr>, p', us) \<and>
     set us = {0x10000000} \<and> reaches_through p' 2 = {}"
proof -
  let ?c = "\<lparr>cap_obj = Frame 0x9000, cap_rights = 3, cap_origin = None\<rparr> :: capability"
  let ?p = "process_new\<lparr>p_caps := ct_new\<lparr>ct_slots := (ct_slots ct_new)[2 := Some ?c]\<rparr>,
                     p_maps := (p_maps process_new)[5 := Some (0x10000000, 2)]\<rparr>"
  have pk: "peek (p_caps ?p) 2 = Some ?c"
    by (simp add: peek_def get_def ct_new_def MAX_CAPS_def)
  have wf: "ct_wf (p_caps ?p)" by (auto simp: ct_wf_def ct_new_def MAX_CAPS_def nth_list_update)
  have maps: "Some (va, s) \<in> set (p_maps ?p) \<longleftrightarrow> va = 0x10000000 \<and> s = 2" for va s
    by (auto simp: process_new_def MAX_USER_MAPS_def numeral_eq_Suc)
  have fbs: "Some m \<notin> set (p_fb_maps ?p)" for m
    by (simp add: process_new_def MAX_FB_MAPS_def)
  have ty: "maps_typed ?p" unfolding maps_typed_def using maps fbs pk by (simp add: is_frame_def)
  have "\<not> (\<exists>e. revoke (p_caps ?p) 2 = Inl e)" using pk
    by (auto simp: revoke_def peek_def split: option.splits)
  then obtain c p' us where r: "revoke_and_unmap_for_lend ?p 2 = Some (c, p', us)"
    using revoke_and_unmap_None_iff[of ?p 2]
    by (auto simp: revoke_and_unmap_for_lend_def Let_def split: option.splits)
  note T = give_takes_access[OF wf ty r]
  have "reaches_through ?p 2 = {0x10000000}" using maps fbs by (auto simp: reaches_through_def)
  then show ?thesis using r T pk by auto
qed

end
