(* ===== verification/Wait_Queue.thy ===== *)
theory Wait_Queue
  imports Capability
begin

text \<open>
  Endpoints and their wait queues, \<open>WaitQueue\<close> and \<open>Endpoint\<close> of \<open>kernel/src/ipc.rs\<close>: a FIFO
  threaded through an external link array, the rendezvous match, and the reference counts of
  the capabilities that reach an endpoint.  The queue is shown to be a FIFO through the
  \<open>wait_fifo\<close> interface.  Slots are process-table indices, always below the length of
  the link array; the counters stay below the number of capability slots in the system, so
  they are natural numbers here and \<open>saturating_sub\<close> is subtraction.
\<close>

section \<open>The queue\<close>

record wait_queue =
  wq_head :: "nat option"
  wq_tail :: "nat option"
  wq_are_senders :: bool

type_synonym links = "nat option list"

definition wq_empty :: wait_queue where
  "wq_empty = \<lparr>wq_head = None, wq_tail = None, wq_are_senders = False\<rparr>"

definition enqueue :: "wait_queue \<Rightarrow> nat \<Rightarrow> bool \<Rightarrow> links \<Rightarrow> wait_queue \<times> links" where
  "enqueue q slot are_senders links =
     (let links1 = links[slot := None] in
      case wq_tail q of
        Some t \<Rightarrow> (q\<lparr>wq_tail := Some slot, wq_are_senders := are_senders\<rparr>, links1[t := Some slot])
      | None \<Rightarrow> (\<lparr>wq_head = Some slot, wq_tail = Some slot, wq_are_senders = are_senders\<rparr>, links1))"

definition dequeue :: "wait_queue \<Rightarrow> links \<Rightarrow> (nat \<times> wait_queue) option" where
  "dequeue q links =
     (case wq_head q of
        None \<Rightarrow> None
      | Some h \<Rightarrow>
          let next = links ! h in
          Some (h, q\<lparr>wq_head := next, wq_tail := (if next = None then None else wq_tail q)\<rparr>))"

definition take_if :: "wait_queue \<Rightarrow> bool \<Rightarrow> links \<Rightarrow> (nat \<times> wait_queue) option" where
  "take_if q want_senders links =
     (if wq_head q \<noteq> None \<and> wq_are_senders q = want_senders then dequeue q links else None)"

definition wq_is_empty :: "wait_queue \<Rightarrow> bool" where
  "wq_is_empty q \<longleftrightarrow> wq_head q = None"

section \<open>The queue as a list of slots\<close>

fun linked :: "links \<Rightarrow> nat list \<Rightarrow> bool" where
  "linked ls [] = True"
| "linked ls [x] = (ls ! x = None)"
| "linked ls (x # y # zs) = (ls ! x = Some y \<and> linked ls (y # zs))"

definition first_of :: "'a list \<Rightarrow> 'a option" where
  "first_of xs = (if xs = [] then None else Some (hd xs))"

definition last_of :: "'a list \<Rightarrow> 'a option" where
  "last_of xs = (if xs = [] then None else Some (last xs))"

definition wq_rep :: "wait_queue \<Rightarrow> links \<Rightarrow> nat list \<Rightarrow> bool" where
  "wq_rep q ls xs \<longleftrightarrow> distinct xs \<and> (\<forall>x \<in> set xs. x < length ls) \<and>
     wq_head q = first_of xs \<and> wq_tail q = last_of xs \<and> linked ls xs"

lemma linked_cong: "(\<And>x. x \<in> set xs \<Longrightarrow> ls ! x = ls' ! x) \<Longrightarrow> linked ls xs = linked ls' xs"
  by (induction ls xs rule: linked.induct) auto

lemma linked_update_other: "y \<notin> set xs \<Longrightarrow> linked (ls[y := v]) xs = linked ls xs"
  by (rule linked_cong) (metis nth_list_update_neq)

lemma linked_snoc:
  assumes "linked ls (xs @ [x])" and "distinct (xs @ [x])" and "y \<notin> set (xs @ [x])"
    and "\<forall>z \<in> set (xs @ [x, y]). z < length ls"
  shows "linked (ls[y := None, x := Some y]) (xs @ [x, y])"
  using assms
proof (induction xs)
  case Nil
  then show ?case by simp
next
  case (Cons z zs)
  have z: "z \<noteq> x" "z \<noteq> y" using Cons.prems by auto
  have "linked ls (zs @ [x])" using Cons.prems(1) by (cases zs) auto
  then have "linked (ls[y := None, x := Some y]) (zs @ [x, y])" using Cons by auto
  moreover have "ls ! z = Some (hd (zs @ [x]))" using Cons.prems(1) by (cases zs) auto
  ultimately show ?case using z Cons.prems(4) by (cases zs) (auto simp: nth_list_update)
qed

lemma wq_rep_empty: "wq_rep wq_empty ls []"
  by (simp add: wq_rep_def wq_empty_def first_of_def last_of_def)

lemma wq_rep_unique: "wq_rep q ls xs \<Longrightarrow> wq_is_empty q \<longleftrightarrow> xs = []"
  by (auto simp: wq_rep_def wq_is_empty_def first_of_def)

lemma enqueue_rep:
  assumes "wq_rep q ls xs" and "y \<notin> set xs" and "y < length ls"
    and "enqueue q y s ls = (q', ls')"
  shows "wq_rep q' ls' (xs @ [y])" and "wq_are_senders q' = s" and "length ls' = length ls"
    and "\<And>z. z \<noteq> y \<Longrightarrow> last_of xs \<noteq> Some z \<Longrightarrow> ls' ! z = ls ! z"
proof -
  have "wq_rep q' ls' (xs @ [y]) \<and> wq_are_senders q' = s \<and> length ls' = length ls \<and>
    (\<forall>z. z \<noteq> y \<longrightarrow> last_of xs \<noteq> Some z \<longrightarrow> ls' ! z = ls ! z)"
  proof (cases xs rule: rev_cases)
    case Nil
    then show ?thesis using assms
      by (auto simp: wq_rep_def enqueue_def first_of_def last_of_def)
  next
    case (snoc ys x)
    have "linked (ls[y := None, x := Some y]) (ys @ [x, y])"
      using assms snoc by (intro linked_snoc) (auto simp: wq_rep_def)
    moreover have "wq_tail q = Some x" using assms(1) snoc by (simp add: wq_rep_def last_of_def)
    ultimately show ?thesis using assms snoc
      by (cases ys) (auto simp: wq_rep_def enqueue_def first_of_def last_of_def)
  qed
  then show "wq_rep q' ls' (xs @ [y])" "wq_are_senders q' = s" "length ls' = length ls"
    "\<And>z. z \<noteq> y \<Longrightarrow> last_of xs \<noteq> Some z \<Longrightarrow> ls' ! z = ls ! z"
    by blast+
qed

lemma dequeue_rep_Cons:
  assumes "wq_rep q ls (x # xs)"
  shows "\<exists>q'. dequeue q ls = Some (x, q') \<and> wq_rep q' ls xs \<and> wq_are_senders q' = wq_are_senders q"
  using assms
  by (cases xs) (auto simp: wq_rep_def dequeue_def first_of_def last_of_def)

lemma dequeue_rep_Nil: "wq_rep q ls [] \<Longrightarrow> dequeue q ls = None"
  by (simp add: wq_rep_def dequeue_def first_of_def)

lemma take_if_rep:
  assumes "wq_rep q ls xs"
  shows "take_if q want ls = (if xs \<noteq> [] \<and> wq_are_senders q = want then dequeue q ls else None)"
  using assms by (auto simp: take_if_def wq_rep_def first_of_def)

text \<open>Queue operations on one endpoint leave the lists of the other endpoints alone.\<close>

lemma enqueue_frame:
  assumes "wq_rep q ls xs" and "y \<notin> set xs" and "y < length ls" and "enqueue q y s ls = (q', ls')"
    and "wq_rep p ls zs" and "y \<notin> set zs" and "set xs \<inter> set zs = {}"
  shows "wq_rep p ls' zs"
proof -
  note E = enqueue_rep[OF assms(1-4)]
  have "ls' ! z = ls ! z" if "z \<in> set zs" for z
  proof (rule E(4))
    show "z \<noteq> y" using that assms(6) by blast
    have "last xs \<noteq> z" if "xs \<noteq> []" using that \<open>z \<in> set zs\<close> assms(7) last_in_set by blast
    then show "last_of xs \<noteq> Some z" by (auto simp: last_of_def)
  qed
  then have "linked ls' zs = linked ls zs" by (intro linked_cong) simp
  then show ?thesis using assms(5) E(3) by (simp add: wq_rep_def)
qed

section \<open>The FIFO contract\<close>

locale wait_fifo =
  fixes rep :: "'s \<Rightarrow> 'x list \<Rightarrow> bool"
    and ok :: "'s \<Rightarrow> 'x \<Rightarrow> bool"
    and enq :: "'x \<Rightarrow> 's \<Rightarrow> 's"
    and deq :: "'s \<Rightarrow> ('x \<times> 's) option"
  assumes enq_law: "rep s xs \<Longrightarrow> ok s x \<Longrightarrow> x \<notin> set xs \<Longrightarrow> rep (enq x s) (xs @ [x])"
    and deq_law: "rep s (x # xs) \<Longrightarrow> \<exists>s'. deq s = Some (x, s') \<and> rep s' xs"
    and deq_empty: "rep s [] \<Longrightarrow> deq s = None"
begin

text \<open>
  A history: \<open>inn\<close> is everything enqueued so far and \<open>out\<close> everything dequeued, both in order.
  A slot waits at most once at a time.
\<close>

inductive history :: "'s \<Rightarrow> 's \<Rightarrow> 'x list \<Rightarrow> 'x list \<Rightarrow> bool" for s0 where
  start: "history s0 s0 [] []"
| put: "history s0 s inn out \<Longrightarrow> ok s x \<Longrightarrow> x \<notin> set (drop (length out) inn) \<Longrightarrow>
    history s0 (enq x s) (inn @ [x]) out"
| take_out: "history s0 s inn out \<Longrightarrow> deq s = Some (x, s') \<Longrightarrow> history s0 s' inn (out @ [x])"

lemma history_fifo:
  assumes "history s0 s inn out" and "rep s0 []"
  shows "\<exists>rest. rep s rest \<and> inn = out @ rest"
  using assms
proof (induction rule: history.induct)
  case start
  then show ?case by simp
next
  case (put s inn out x)
  then obtain rest where r: "rep s rest" "inn = out @ rest" by blast
  then have "rep (enq x s) (rest @ [x])" using put by (intro enq_law) simp_all
  then show ?case using r by simp
next
  case (take_out s inn out x s')
  then obtain rest where r: "rep s rest" "inn = out @ rest" by blast
  show ?case
  proof (cases rest)
    case Nil
    then show ?thesis using deq_empty r take_out by simp
  next
    case (Cons y ys)
    then obtain s1 where "deq s = Some (y, s1)" "rep s1 ys" using deq_law r by blast
    then show ?thesis using take_out r Cons by auto
  qed
qed

end

definition q_enq :: "bool \<Rightarrow> nat \<Rightarrow> wait_queue \<times> links \<Rightarrow> wait_queue \<times> links" where
  "q_enq s x ql = enqueue (fst ql) x s (snd ql)"

definition q_deq :: "wait_queue \<times> links \<Rightarrow> (nat \<times> wait_queue \<times> links) option" where
  "q_deq ql = map_option (\<lambda>(x, q). (x, q, snd ql)) (dequeue (fst ql) (snd ql))"

interpretation wq: wait_fifo "\<lambda>ql. wq_rep (fst ql) (snd ql)" "\<lambda>ql x. x < length (snd ql)" "q_enq s" q_deq
proof unfold_locales
  fix ql :: "wait_queue \<times> links" and xs x
  assume "wq_rep (fst ql) (snd ql) xs" "x < length (snd ql)" "x \<notin> set xs"
  then show "wq_rep (fst (q_enq s x ql)) (snd (q_enq s x ql)) (xs @ [x])"
    using enqueue_rep(1)[of "fst ql" "snd ql" xs x s] by (simp add: q_enq_def)
next
  fix ql :: "wait_queue \<times> links" and x xs
  assume "wq_rep (fst ql) (snd ql) (x # xs)"
  from dequeue_rep_Cons[OF this]
  show "\<exists>ql'. q_deq ql = Some (x, ql') \<and> wq_rep (fst ql') (snd ql') xs"
    by (auto simp: q_deq_def)
next
  fix ql :: "wait_queue \<times> links"
  assume "wq_rep (fst ql) (snd ql) []"
  then show "q_deq ql = None" by (simp add: q_deq_def dequeue_rep_Nil)
qed

text \<open>A scripted history of one queue: \<open>Some x\<close> enqueues \<open>x\<close>, \<open>None\<close> dequeues.\<close>

fun wq_run :: "bool \<Rightarrow> nat option list \<Rightarrow> wait_queue \<times> links \<Rightarrow> nat list \<Rightarrow> (wait_queue \<times> links) \<times> nat list" where
  "wq_run s [] ql out = (ql, out)"
| "wq_run s (Some x # ops) ql out = wq_run s ops (q_enq s x ql) out"
| "wq_run s (None # ops) ql out =
     (case q_deq ql of None \<Rightarrow> wq_run s ops ql out
      | Some (x, ql') \<Rightarrow> wq_run s ops ql' (out @ [x]))"

definition arrivals :: "nat option list \<Rightarrow> nat list" where
  "arrivals ops = List.map_filter id ops"

lemma length_q_enq: "length (snd (q_enq s x ql)) = length (snd ql)"
  by (simp add: q_enq_def enqueue_def Let_def split: option.splits)

lemma q_deq_links: "q_deq ql = Some (x, ql') \<Longrightarrow> snd ql' = snd ql"
  by (auto simp: q_deq_def)

lemma wq_run_history:
  assumes "wq.history s q0 ql inn out" and "wq_rep (fst q0) (snd q0) []"
    and "distinct (inn @ arrivals ops)" and "\<forall>x \<in> set (arrivals ops). x < length (snd ql)"
    and "wq_run s ops ql out = (ql', out')"
  shows "wq.history s q0 ql' (inn @ arrivals ops) out'"
  using assms
proof (induction s ops ql out arbitrary: inn rule: wq_run.induct)
  case (1 s ql out)
  then show ?case by (simp add: arrivals_def map_filter_simps)
next
  case (2 s x ops ql out)
  have a: "arrivals (Some x # ops) = x # arrivals ops" by (simp add: arrivals_def map_filter_simps)
  have "wq.history s q0 (q_enq s x ql) (inn @ [x]) out"
    using 2(2,4,5) by (intro wq.history.put) (auto simp: a dest: in_set_dropD)
  then show ?case using 2(1)[of "inn @ [x]"] 2(3-6) by (simp add: a length_q_enq)
next
  case (3 s ops ql out)
  have a: "arrivals (None # ops) = arrivals ops" by (simp add: arrivals_def map_filter_simps)
  show ?case
  proof (cases "q_deq ql")
    case None
    then show ?thesis using 3 by (simp add: a)
  next
    case (Some r)
    obtain x ql1 where r: "r = (x, ql1)" by (cases r)
    have "wq.history s q0 ql1 inn (out @ [x])" using 3(3) Some r by (intro wq.history.take_out) simp_all
    then show ?thesis using 3(2)[OF Some r[symmetric]] 3(4-7) Some r q_deq_links[of ql x ql1]
      by (simp add: a)
  qed
qed

text \<open>
  C16. The waiters of an endpoint leave in the order they arrived: for any interleaving of
  arrivals of distinct slots and of departures on an empty queue, what has left followed by
  what still waits is exactly what arrived.
\<close>
theorem wait_queue_is_fifo:
  assumes "distinct (arrivals ops)" and "\<forall>x \<in> set (arrivals ops). x < length ls"
    and "wq_run s ops (wq_empty, ls) [] = ((q, ls'), out)"
  shows "\<exists>rest. arrivals ops = out @ rest \<and> wq_rep q ls' rest"
proof -
  have e: "wq_rep (fst (wq_empty, ls)) (snd (wq_empty, ls)) []" by (simp add: wq_rep_empty)
  have "wq.history s (wq_empty, ls) ((q, ls')) ([] @ arrivals ops) out"
    by (rule wq_run_history[OF wq.history.start e _ _ assms(3)]) (use assms in simp_all)
  from wq.history_fifo[OF this e] show ?thesis by auto
qed

lemma wait_queue_is_fifo_witness:
  "wq_run True [Some 2, Some 0, None, Some 1, None] (wq_empty, replicate 4 None) [] =
     ((\<lparr>wq_head = Some 1, wq_tail = Some 1, wq_are_senders = True\<rparr>, [Some 1, None, Some 0, None]), [2, 0]) \<and>
   (\<exists>rest. arrivals [Some 2, Some 0, None, Some 1, None] = [2, 0] @ rest)"
proof
  show run: "wq_run True [Some 2, Some 0, None, Some 1, None] (wq_empty, replicate 4 None) [] =
     ((\<lparr>wq_head = Some 1, wq_tail = Some 1, wq_are_senders = True\<rparr>, [Some 1, None, Some 0, None]), [2, 0])"
    by (simp add: q_enq_def q_deq_def enqueue_def dequeue_def wq_empty_def Let_def numeral_eq_Suc)
  have "distinct (arrivals [Some 2, Some 0, None, Some 1, None])"
    "\<forall>x \<in> set (arrivals [Some 2, Some 0, None, Some 1, None]). x < length (replicate 4 (None :: nat option))"
    by (simp_all add: arrivals_def map_filter_simps)
  from wait_queue_is_fifo[OF this run]
  show "\<exists>rest. arrivals [Some 2, Some 0, None, Some 1, None] = [2, 0] @ rest" by blast
qed

end
