(* ===== verification/Endpoint.thy ===== *)
theory Endpoint
  imports Wait_Queue "HOL-Library.Multiset"
begin

text \<open>
  The endpoint table of \<open>kernel/src/ipc.rs\<close>: allocation, the reference accounting that follows
  every capability entering or leaving a process's table, and release at zero.  The lemmas
  relate the counters to the capabilities they count, so that a counter never underflows and
  an endpoint is reclaimed exactly when nothing can reach it.
\<close>

section \<open>Endpoints\<close>

record endpoint =
  ep_in_use :: bool
  ep_queue :: wait_queue
  ep_senders :: nat
  ep_receivers :: nat

definition MAX_ENDPOINTS :: nat where "MAX_ENDPOINTS = 8"

definition ep_empty :: endpoint where
  "ep_empty = \<lparr>ep_in_use = False, ep_queue = wq_empty, ep_senders = 0, ep_receivers = 0\<rparr>"

definition has_right :: "u8 \<Rightarrow> u8 \<Rightarrow> bool" where
  "has_right rights r \<longleftrightarrow> rights AND r \<noteq> 0"

definition add_cap :: "endpoint \<Rightarrow> u8 \<Rightarrow> endpoint" where
  "add_cap e rights =
     (let e1 = (if has_right rights RIGHT_SEND then e\<lparr>ep_senders := ep_senders e + 1\<rparr> else e) in
      if has_right rights RIGHT_RECV then e1\<lparr>ep_receivers := ep_receivers e1 + 1\<rparr> else e1)"

definition remove_cap :: "endpoint \<Rightarrow> u8 \<Rightarrow> endpoint" where
  "remove_cap e rights =
     (let e1 = (if has_right rights RIGHT_SEND then e\<lparr>ep_senders := ep_senders e - 1\<rparr> else e) in
      if has_right rights RIGHT_RECV then e1\<lparr>ep_receivers := ep_receivers e1 - 1\<rparr> else e1)"

definition is_unreferenced :: "endpoint \<Rightarrow> bool" where
  "is_unreferenced e \<longleftrightarrow> ep_senders e = 0 \<and> ep_receivers e = 0 \<and> wq_is_empty (ep_queue e)"

definition death_strands_peers :: "endpoint \<Rightarrow> nat \<Rightarrow> nat \<Rightarrow> bool" where
  "death_strands_peers e dying_senders dying_receivers \<longleftrightarrow>
     (0 < dying_senders \<and> ep_senders e - dying_senders = 0) \<or>
     (0 < dying_receivers \<and> ep_receivers e - dying_receivers = 0)"

section \<open>The table\<close>

definition create_endpoint :: "endpoint list \<Rightarrow> (nat \<times> endpoint list) option" where
  "create_endpoint eps =
     (case position (\<lambda>e. \<not> ep_in_use e) eps of
        None \<Rightarrow> None
      | Some i \<Rightarrow> Some (i, eps[i := ep_empty\<lparr>ep_in_use := True\<rparr>]))"

definition note_cap_added :: "endpoint list \<Rightarrow> capability \<Rightarrow> endpoint list" where
  "note_cap_added eps c =
     (case cap_obj c of Endpoint i \<Rightarrow> eps[i := add_cap (eps ! i) (cap_rights c)] | _ \<Rightarrow> eps)"

definition note_cap_removed :: "endpoint list \<Rightarrow> capability \<Rightarrow> bool \<Rightarrow> endpoint list" where
  "note_cap_removed eps c free_if_unreferenced =
     (case cap_obj c of
        Endpoint i \<Rightarrow>
          let e = remove_cap (eps ! i) (cap_rights c) in
          eps[i := if free_if_unreferenced \<and> is_unreferenced e then ep_empty else e]
      | _ \<Rightarrow> eps)"

definition release_endpoint :: "endpoint list \<Rightarrow> nat \<Rightarrow> endpoint list" where
  "release_endpoint eps i =
     (if i < MAX_ENDPOINTS \<and> is_unreferenced (eps ! i) then eps[i := ep_empty] else eps)"

definition free_endpoint_count :: "endpoint list \<Rightarrow> nat" where
  "free_endpoint_count eps = length (filter (\<lambda>e. \<not> ep_in_use e) eps)"

section \<open>Counters and the capabilities they count\<close>

text \<open>What one capability contributes to endpoint \<open>i\<close>, per right.\<close>

definition reaches :: "u8 \<Rightarrow> nat \<Rightarrow> capability \<Rightarrow> bool" where
  "reaches r i c \<longleftrightarrow> cap_obj c = Endpoint i \<and> has_right (cap_rights c) r"

text \<open>How many of the given capabilities reach endpoint \<open>i\<close> with right \<open>r\<close>.\<close>

definition refs :: "u8 \<Rightarrow> nat \<Rightarrow> capability multiset \<Rightarrow> nat" where
  "refs r i C = size (filter_mset (reaches r i) C)"

lemma refs_add [simp]: "refs r i (add_mset c C) = (if reaches r i c then 1 else 0) + refs r i C"
  by (simp add: refs_def)

lemma refs_union [simp]: "refs r i (C + D) = refs r i C + refs r i D"
  by (simp add: refs_def)

lemma refs_empty [simp]: "refs r i {#} = 0"
  by (simp add: refs_def)

text \<open>
  The accounting invariant over the multiset of live capabilities: each counter is the number
  of capabilities that reach the endpoint with its right, and every endpoint named is live.
\<close>

definition counts_ok :: "endpoint list \<Rightarrow> capability multiset \<Rightarrow> bool" where
  "counts_ok eps C \<longleftrightarrow> length eps = MAX_ENDPOINTS \<and>
     (\<forall>i < MAX_ENDPOINTS. ep_senders (eps ! i) = refs RIGHT_SEND i C \<and>
                           ep_receivers (eps ! i) = refs RIGHT_RECV i C)"

definition ids_ok :: "capability multiset \<Rightarrow> bool" where
  "ids_ok C \<longleftrightarrow> (\<forall>c \<in># C. \<forall>i. cap_obj c = Endpoint i \<longrightarrow> i < MAX_ENDPOINTS)"

lemma counts_ok_add:
  assumes "counts_ok eps C" and "ids_ok {#c#}"
  shows "counts_ok (note_cap_added eps c) (add_mset c C)"
  using assms
  by (auto simp: counts_ok_def ids_ok_def note_cap_added_def add_cap_def Let_def reaches_def
      nth_list_update split: cap_object.splits)

lemma counts_ok_remove:
  assumes "counts_ok eps (add_mset c C)" and "ids_ok {#c#}"
  shows "counts_ok (note_cap_removed eps c b) C"
  using assms
  by (auto simp: counts_ok_def ids_ok_def note_cap_removed_def remove_cap_def is_unreferenced_def
      ep_empty_def Let_def reaches_def nth_list_update split: cap_object.splits)

lemma note_cap_removed_queue:
  "ep_queue (note_cap_removed eps c False ! i) = ep_queue (eps ! i) \<and>
   ep_in_use (note_cap_removed eps c False ! i) = ep_in_use (eps ! i)"
  by (cases "cap_obj c") (auto simp: note_cap_removed_def remove_cap_def Let_def nth_list_update_cases)

lemma note_cap_added_queue:
  "ep_queue (note_cap_added eps c ! i) = ep_queue (eps ! i) \<and>
   ep_in_use (note_cap_added eps c ! i) = ep_in_use (eps ! i)"
  by (cases "cap_obj c") (auto simp: note_cap_added_def add_cap_def Let_def nth_list_update_cases)

lemma length_note_cap [simp]:
  "length (note_cap_added eps c) = length eps" "length (note_cap_removed eps c b) = length eps"
  by (simp_all add: note_cap_added_def note_cap_removed_def Let_def split: cap_object.splits)

lemma remove_all_caps:
  assumes "counts_ok eps (mset cs + C)" and "ids_ok (mset cs)"
  shows "counts_ok (foldl (\<lambda>eps c. note_cap_removed eps c True) eps cs) C"
  using assms
proof (induction cs arbitrary: eps)
  case Nil
  then show ?case by simp
next
  case (Cons c cs)
  have "counts_ok (note_cap_removed eps c True) (mset cs + C)"
    using Cons.prems by (intro counts_ok_remove) (auto simp: ids_ok_def)
  then show ?case using Cons by (simp add: ids_ok_def)
qed

text \<open>
  C14. Endpoint accounting is exact: if the counters count the live capabilities, then after a
  capability enters or leaves a table they count the new set of live capabilities, no counter
  ever underflows on a removal, a move (a removal that does not free followed by an insertion)
  leaves the endpoints as they were, and a permanent removal reclaims the endpoint exactly when
  no capability reaches it any more and nobody waits on it.
\<close>
theorem endpoint_accounting:
  assumes "counts_ok eps (add_mset c C)" and "cap_obj c = Endpoint i" and "i < MAX_ENDPOINTS"
    and "ep_in_use (eps ! i)"
  shows "counts_ok (note_cap_removed eps c True) C \<and>
    counts_ok (note_cap_removed eps c False) C \<and>
    (has_right (cap_rights c) RIGHT_SEND \<longrightarrow> 0 < ep_senders (eps ! i)) \<and>
    (has_right (cap_rights c) RIGHT_RECV \<longrightarrow> 0 < ep_receivers (eps ! i)) \<and>
    note_cap_added (note_cap_removed eps c False) c = eps \<and>
    (note_cap_removed eps c True ! i = ep_empty \<longleftrightarrow>
       refs RIGHT_SEND i C = 0 \<and> refs RIGHT_RECV i C = 0 \<and> wq_is_empty (ep_queue (eps ! i)))"
proof -
  have ids: "ids_ok {#c#}" using assms(2,3) by (simp add: ids_ok_def)
  have len: "i < length eps" using assms(1,3) by (simp add: counts_ok_def)
  have s: "ep_senders (eps ! i) = (if has_right (cap_rights c) RIGHT_SEND then 1 else 0) + refs RIGHT_SEND i C"
    and r: "ep_receivers (eps ! i) = (if has_right (cap_rights c) RIGHT_RECV then 1 else 0) + refs RIGHT_RECV i C"
    using assms by (simp_all add: counts_ok_def reaches_def)
  have "add_cap (remove_cap (eps ! i) (cap_rights c)) (cap_rights c) = eps ! i"
    using s r by (simp add: add_cap_def remove_cap_def Let_def)
  then have move: "note_cap_added (note_cap_removed eps c False) c = eps"
    using assms(2) len by (simp add: note_cap_added_def note_cap_removed_def)
  have "is_unreferenced (remove_cap (eps ! i) (cap_rights c)) \<longleftrightarrow>
      refs RIGHT_SEND i C = 0 \<and> refs RIGHT_RECV i C = 0 \<and> wq_is_empty (ep_queue (eps ! i))"
    using s r by (simp add: is_unreferenced_def remove_cap_def Let_def)
  moreover have "remove_cap (eps ! i) (cap_rights c) \<noteq> ep_empty"
    using assms(4) by (auto simp: remove_cap_def Let_def ep_empty_def dest: arg_cong[of _ _ ep_in_use])
  ultimately have "note_cap_removed eps c True ! i = ep_empty \<longleftrightarrow>
       refs RIGHT_SEND i C = 0 \<and> refs RIGHT_RECV i C = 0 \<and> wq_is_empty (ep_queue (eps ! i))"
    using assms(2) len by (simp add: note_cap_removed_def Let_def)
  then show ?thesis
    using counts_ok_remove[OF assms(1) ids] move s r by simp
qed

lemma endpoint_accounting_witness:
  "note_cap_removed ((replicate 8 ep_empty)[2 := \<lparr>ep_in_use = True, ep_queue = wq_empty, ep_senders = 1, ep_receivers = 0\<rparr>])
     \<lparr>cap_obj = Endpoint 2, cap_rights = RIGHT_SEND, cap_origin = None\<rparr> True ! 2 = ep_empty"
proof -
  let ?c = "\<lparr>cap_obj = Endpoint 2, cap_rights = RIGHT_SEND, cap_origin = None\<rparr> :: capability"
  let ?e = "\<lparr>ep_in_use = True, ep_queue = wq_empty, ep_senders = 1, ep_receivers = 0\<rparr> :: endpoint"
  let ?eps = "(replicate 8 ep_empty)[2 := ?e]"
  have "reaches RIGHT_SEND i ?c \<longleftrightarrow> i = 2" "\<not> reaches RIGHT_RECV i ?c" for i
    by (auto simp: reaches_def has_right_def right_defs)
  then have ok: "counts_ok ?eps {#?c#}"
    by (auto simp: counts_ok_def MAX_ENDPOINTS_def nth_list_update ep_empty_def)
  show ?thesis
    using endpoint_accounting[OF ok, of 2] by (simp add: MAX_ENDPOINTS_def wq_is_empty_def wq_empty_def)
qed

end
