(* ===== verification/Event_Subs.thy ===== *)
theory Event_Subs
  imports Prelude
begin

text \<open>
  Input events and their routing: \<open>Event\<close> of \<open>kernel/src/input.rs\<close> with its packing into a
  completion word, and the subscription table of \<open>kernel/src/rings.rs\<close>.  The table owns only
  the bookkeeping; the post into a completion queue is an argument of \<open>deliver\<close>, threaded
  through a state of its own.
\<close>

section \<open>Events\<close>

record event =
  ev_kind :: u8
  ev_code :: u16
  ev_value :: u8

definition EVENT_KEY :: u8 where "EVENT_KEY = 1"
definition EVENT_MOUSE_MOVE :: u8 where "EVENT_MOUSE_MOVE = 2"

definition event_key :: "u8 \<Rightarrow> event" where
  "event_key scancode = \<lparr>ev_kind = EVENT_KEY, ev_code = ucast scancode,
     ev_value = (if scancode AND 0x80 = 0 then 1 else 0)\<rparr>"

text \<open>The deltas are signed bytes, reinterpreted as unsigned ones: the same eight bits.\<close>

definition event_mouse_move :: "u8 \<Rightarrow> u8 \<Rightarrow> u8 \<Rightarrow> event" where
  "event_mouse_move dx dy buttons = \<lparr>ev_kind = EVENT_MOUSE_MOVE,
     ev_code = push_bit 8 (ucast dx) OR ucast dy, ev_value = buttons AND 0x7F\<rparr>"

definition pack :: "event \<Rightarrow> u64" where
  "pack e = ucast (ev_kind e) OR push_bit 8 (ucast (ev_code e)) OR push_bit 24 (ucast (ev_value e))"

definition EVENT_DROPPED :: u32 where "EVENT_DROPPED = shl1 31"

section \<open>Subscriptions\<close>

record subscription =
  sub_source :: nat
  sub_ring :: nat
  sub_user_data :: u64
  sub_dropped :: u32

type_synonym subs = "subscription option list"

definition MAX_RINGS :: nat where "MAX_RINGS = 8"
definition MAX_SUBS :: nat where "MAX_SUBS = MAX_RINGS * 4"

definition subs_new :: subs where "subs_new = replicate MAX_SUBS None"

definition keyed :: "nat \<Rightarrow> u64 \<Rightarrow> subscription option \<Rightarrow> bool" where
  "keyed ring user_data e =
     (case e of None \<Rightarrow> False | Some s \<Rightarrow> sub_ring s = ring \<and> sub_user_data s = user_data)"

definition subs_find :: "subs \<Rightarrow> nat \<Rightarrow> u64 \<Rightarrow> nat option" where
  "subs_find ss ring user_data = position (keyed ring user_data) ss"

definition subscribe :: "subs \<Rightarrow> nat \<Rightarrow> nat \<Rightarrow> u64 \<Rightarrow> (nat \<times> subs) option" where
  "subscribe ss source ring user_data =
     (if subs_find ss ring user_data \<noteq> None then None
      else case position (\<lambda>e. e = None) ss of
             None \<Rightarrow> None
           | Some i \<Rightarrow> Some (i, ss[i := Some \<lparr>sub_source = source, sub_ring = ring,
                                  sub_user_data = user_data, sub_dropped = 0\<rparr>]))"

definition cancel :: "subs \<Rightarrow> nat \<Rightarrow> u64 \<Rightarrow> bool \<times> subs" where
  "cancel ss ring user_data =
     (case subs_find ss ring user_data of
        Some i \<Rightarrow> (True, ss[i := None])
      | None \<Rightarrow> (False, ss))"

definition release_ring :: "subs \<Rightarrow> nat \<Rightarrow> subs" where
  "release_ring ss ring =
     map (\<lambda>e. case e of Some s \<Rightarrow> if sub_ring s = ring then None else e | None \<Rightarrow> None) ss"

definition sub_status :: "u32 \<Rightarrow> subscription \<Rightarrow> u32" where
  "sub_status event s = (if 0 < sub_dropped s then event OR EVENT_DROPPED else event)"

fun deliver ::
    "(nat \<Rightarrow> u64 \<Rightarrow> u32 \<Rightarrow> 's \<Rightarrow> bool \<times> 's) \<Rightarrow> nat \<Rightarrow> u32 \<Rightarrow> subs \<Rightarrow> 's \<Rightarrow> subs \<times> 's" where
  "deliver post source event [] st = ([], st)"
| "deliver post source event (None # es) st =
     (let (es', st') = deliver post source event es st in (None # es', st'))"
| "deliver post source event (Some s # es) st =
     (if sub_source s \<noteq> source
      then let (es', st') = deliver post source event es st in (Some s # es', st')
      else let (admitted, st1) = post (sub_ring s) (sub_user_data s) (sub_status event s) st;
               s' = s\<lparr>sub_dropped := if admitted then 0 else saturating_add (sub_dropped s) 1\<rparr>;
               (es', st') = deliver post source event es st1
           in (Some s' # es', st'))"

definition subs_any :: "subs \<Rightarrow> bool" where
  "subs_any ss = list_ex (\<lambda>e. e \<noteq> None) ss"

definition subs_dropped :: "subs \<Rightarrow> nat \<Rightarrow> u64 \<Rightarrow> u32 option" where
  "subs_dropped ss ring user_data =
     map_option (\<lambda>i. case ss ! i of Some s \<Rightarrow> sub_dropped s | None \<Rightarrow> 0) (subs_find ss ring user_data)"

section \<open>Packing\<close>

lemma bit_pack:
  "bit (pack e) k \<longleftrightarrow> (k < 8 \<and> bit (ev_kind e) k) \<or> (8 \<le> k \<and> k < 24 \<and> bit (ev_code e) (k - 8)) \<or>
     (24 \<le> k \<and> k < 32 \<and> bit (ev_value e) (k - 24))"
  by (auto simp: pack_def bit_or_iff bit_push_bit_iff bit_ucast_iff dest: bit_imp_le_length)

lemma pack_fields:
  "ev_kind e = ucast (pack e)" "ev_code e = ucast (drop_bit 8 (pack e))" "ev_value e = ucast (drop_bit 24 (pack e))"
  by (rule bit_word_eqI, auto simp: bit_ucast_iff bit_drop_bit_eq bit_pack)+

lemma pack_u32: "pack e < 2 ^ 32"
proof -
  have "take_bit 32 (pack e) = pack e"
    by (rule bit_word_eqI) (auto simp: bit_take_bit_iff bit_pack)
  then have "unat (pack e) = take_bit 32 (unat (pack e))" by (metis unsigned_take_bit_eq)
  then have "unat (pack e) < 2 ^ 32" by (metis take_bit_nat_less_exp)
  then show ?thesis by (simp add: word_less_nat_alt)
qed

text \<open>
  Packing an input event into a completion word is lossless and unambiguous: distinct events
  pack to distinct words, each word fits the 32 bits of a completion status, a key or mouse
  event never packs to the zero word that reports a failed subscription, and never touches the
  bit the kernel uses to report dropped events.
\<close>
lemma pack_roundtrip:
  "(pack e = pack e' \<longleftrightarrow> e = e') \<and> pack e < 2 ^ 32 \<and>
   pack (event_key sc) \<noteq> 0 \<and> pack (event_mouse_move dx dy b) \<noteq> 0 \<and>
   \<not> bit (pack (event_key sc)) 31 \<and> \<not> bit (pack (event_mouse_move dx dy b)) 31"
proof -
  have inj: "pack e = pack e' \<longleftrightarrow> e = e'"
  proof
    assume "pack e = pack e'"
    then have "ev_kind e = ev_kind e'" "ev_code e = ev_code e'" "ev_value e = ev_value e'"
      by (metis pack_fields)+
    then show "e = e'" by (cases e; cases e') simp
  qed simp
  have "bit (pack (event_key sc)) 0" by (simp add: bit_pack event_key_def EVENT_KEY_def)
  moreover have "bit (pack (event_mouse_move dx dy b)) 1"
    by (simp add: bit_pack event_mouse_move_def EVENT_MOUSE_MOVE_def bit_numeral_rec)
  moreover have "\<not> bit (pack (event_key sc)) 31"
    by (simp add: bit_pack event_key_def)
  moreover have "\<not> bit (b AND 0x7F) 7" by (simp add: bit_and_iff bit_numeral_rec)
  then have "\<not> bit (pack (event_mouse_move dx dy b)) 31"
    by (simp add: bit_pack event_mouse_move_def)
  ultimately show ?thesis using inj pack_u32[of e]
    by auto
qed

section \<open>The table\<close>

text \<open>One cookie names at most one stream on a ring.\<close>

definition subs_wf :: "subs \<Rightarrow> bool" where
  "subs_wf ss \<longleftrightarrow> length ss = MAX_SUBS \<and>
     (\<forall>i < length ss. \<forall>j < length ss. \<forall>s t. ss ! i = Some s \<longrightarrow> ss ! j = Some t \<longrightarrow>
        sub_ring s = sub_ring t \<longrightarrow> sub_user_data s = sub_user_data t \<longrightarrow> i = j)"

definition live_subs :: "subs \<Rightarrow> subscription set" where
  "live_subs ss = {s. Some s \<in> set ss}"

lemma live_subs_nth: "t \<in> live_subs ss \<longleftrightarrow> (\<exists>j < length ss. ss ! j = Some t)"
  by (simp add: live_subs_def in_set_conv_nth)

lemma subs_find_None: "subs_find ss r u = None \<longleftrightarrow> (\<forall>s \<in> live_subs ss. \<not> (sub_ring s = r \<and> sub_user_data s = u))"
  by (auto simp: subs_find_def position_None_iff keyed_def live_subs_def split: option.splits)

lemma subs_find_Some:
  assumes "subs_find ss r u = Some i"
  obtains s where "i < length ss" "ss ! i = Some s" "sub_ring s = r" "sub_user_data s = u"
  using position_SomeD(1,2)[OF assms[unfolded subs_find_def]] that
  by (auto simp: keyed_def split: option.splits)

lemma subs_wf_new: "subs_wf subs_new"
  by (simp add: subs_wf_def subs_new_def)

lemma subscribe_Some:
  assumes "subs_wf ss" and "subscribe ss src r u = Some (i, ss')"
  shows "subs_wf ss'" and "i < length ss" and "ss ! i = None"
    and "ss' = ss[i := Some \<lparr>sub_source = src, sub_ring = r, sub_user_data = u, sub_dropped = 0\<rparr>]"
    and "live_subs ss' = insert \<lparr>sub_source = src, sub_ring = r, sub_user_data = u, sub_dropped = 0\<rparr> (live_subs ss)"
proof -
  have f: "subs_find ss r u = None" and p: "position (\<lambda>e. e = None) ss = Some i"
    and ss': "ss' = ss[i := Some \<lparr>sub_source = src, sub_ring = r, sub_user_data = u, sub_dropped = 0\<rparr>]"
    using assms(2) by (auto simp: subscribe_def split: if_splits option.splits)
  show i: "i < length ss" "ss ! i = None" using position_SomeD(1,2)[OF p] by simp_all
  show "ss' = ss[i := Some \<lparr>sub_source = src, sub_ring = r, sub_user_data = u, sub_dropped = 0\<rparr>]"
    by (rule ss')
  have new: "\<not> (sub_ring s = r \<and> sub_user_data s = u)" if "j < length ss" "ss ! j = Some s" for j s
  proof -
    have "Some s \<in> set ss" using that nth_mem by metis
    then have "s \<in> live_subs ss" by (simp add: live_subs_def)
    then show ?thesis using f subs_find_None[of ss r u] by blast
  qed
  show "subs_wf ss'"
    using assms(1) i new unfolding subs_wf_def ss'
    by (auto simp: nth_list_update split: if_splits)
  show "live_subs ss' = insert \<lparr>sub_source = src, sub_ring = r, sub_user_data = u, sub_dropped = 0\<rparr> (live_subs ss)"
    using i unfolding live_subs_def ss'
    by (auto simp: in_set_conv_nth nth_list_update) (metis option.distinct(1))+
qed

lemma subs_wf_remove: "subs_wf ss \<Longrightarrow> subs_wf (ss[i := None])"
  unfolding subs_wf_def by (simp add: nth_list_update_cases)

lemma cancel_eq:
  assumes "subs_wf ss" and "cancel ss r u = (b, ss')"
  shows "subs_wf ss'" and "b \<longleftrightarrow> (\<exists>s \<in> live_subs ss. sub_ring s = r \<and> sub_user_data s = u)"
    and "live_subs ss' = {s \<in> live_subs ss. \<not> (sub_ring s = r \<and> sub_user_data s = u)}"
proof -
  have "subs_wf ss' \<and> (b \<longleftrightarrow> (\<exists>s \<in> live_subs ss. sub_ring s = r \<and> sub_user_data s = u)) \<and>
      live_subs ss' = {s \<in> live_subs ss. \<not> (sub_ring s = r \<and> sub_user_data s = u)}"
  proof (cases "subs_find ss r u")
    case None
    then have "b = False" "ss' = ss" using assms(2) by (simp_all add: cancel_def)
    then show ?thesis using None subs_find_None[of ss r u] assms(1) by auto
  next
    case (Some i)
    from subs_find_Some[OF Some] obtain s where s: "i < length ss" "ss ! i = Some s" "sub_ring s = r" "sub_user_data s = u"
      by blast
    have e: "b = True" "ss' = ss[i := None]" using assms(2) Some by (simp_all add: cancel_def)
    have mem: "s \<in> live_subs ss" using s nth_mem[of i ss] by (simp add: live_subs_def)
    have uniq: "j = i" if "j < length ss" "ss ! j = Some t" "sub_ring t = r" "sub_user_data t = u" for j t
      using assms(1) s that unfolding subs_wf_def by metis
    have n: "t \<in> live_subs ss' \<longleftrightarrow> (\<exists>j < length ss. j \<noteq> i \<and> ss ! j = Some t)" for t
      using s(1) unfolding live_subs_nth e(2) by (auto simp: nth_list_update)
    have "live_subs ss' = {s \<in> live_subs ss. \<not> (sub_ring s = r \<and> sub_user_data s = u)}"
    proof (intro set_eqI iffI)
      fix t assume "t \<in> live_subs ss'"
      then obtain j where "j < length ss" "j \<noteq> i" "ss ! j = Some t" using n by blast
      then show "t \<in> {s \<in> live_subs ss. \<not> (sub_ring s = r \<and> sub_user_data s = u)}"
        using uniq[of j t] live_subs_nth[of t ss] by blast
    next
      fix t assume t: "t \<in> {s \<in> live_subs ss. \<not> (sub_ring s = r \<and> sub_user_data s = u)}"
      then obtain j where "j < length ss" "ss ! j = Some t" using live_subs_nth[of t ss] by blast
      moreover have "j \<noteq> i" using t s calculation by auto
      ultimately show "t \<in> live_subs ss'" using n by blast
    qed
    moreover have "subs_wf ss'" using subs_wf_remove[OF assms(1)] e(2) by simp
    ultimately show ?thesis using e(1) mem s(3,4) by blast
  qed
  then show "subs_wf ss'" "b \<longleftrightarrow> (\<exists>s \<in> live_subs ss. sub_ring s = r \<and> sub_user_data s = u)"
    "live_subs ss' = {s \<in> live_subs ss. \<not> (sub_ring s = r \<and> sub_user_data s = u)}" by blast+
qed

lemma release_ring_eq:
  assumes "subs_wf ss"
  shows "subs_wf (release_ring ss r)" and "live_subs (release_ring ss r) = {s \<in> live_subs ss. sub_ring s \<noteq> r}"
proof -
  have n: "release_ring ss r ! i = Some s \<longleftrightarrow> ss ! i = Some s \<and> sub_ring s \<noteq> r" if "i < length ss" for i s
    using that by (auto simp: release_ring_def split: option.splits)
  have l: "length (release_ring ss r) = length ss" by (simp add: release_ring_def)
  show "subs_wf (release_ring ss r)" using assms unfolding subs_wf_def l using n by metis
  show "live_subs (release_ring ss r) = {s \<in> live_subs ss. sub_ring s \<noteq> r}"
    unfolding live_subs_def in_set_conv_nth l using n by (auto simp: in_set_conv_nth)
qed

text \<open>
  The subscription table keeps one stream per cookie: starting from the empty table, every
  operation preserves that invariant, a subscription is refused exactly when its cookie is in
  use on that ring or the pool is full and otherwise adds just that stream, cancelling removes
  just the named stream, and releasing a ring removes every stream of that ring, so a reused
  ring inherits none.
\<close>
lemma subscription_table:
  assumes "subs_wf ss"
  shows "subs_wf subs_new \<and>
    (subscribe ss src r u = None \<longleftrightarrow>
       (\<exists>s \<in> live_subs ss. sub_ring s = r \<and> sub_user_data s = u) \<or> (\<forall>e \<in> set ss. e \<noteq> None)) \<and>
    (\<forall>i ss'. subscribe ss src r u = Some (i, ss') \<longrightarrow> subs_wf ss' \<and>
       live_subs ss' = insert \<lparr>sub_source = src, sub_ring = r, sub_user_data = u, sub_dropped = 0\<rparr> (live_subs ss)) \<and>
    subs_wf (snd (cancel ss r u)) \<and>
    live_subs (snd (cancel ss r u)) = {s \<in> live_subs ss. \<not> (sub_ring s = r \<and> sub_user_data s = u)} \<and>
    subs_wf (release_ring ss r) \<and> live_subs (release_ring ss r) = {s \<in> live_subs ss. sub_ring s \<noteq> r}"
proof -
  have "subscribe ss src r u = None \<longleftrightarrow>
       (\<exists>s \<in> live_subs ss. sub_ring s = r \<and> sub_user_data s = u) \<or> (\<forall>e \<in> set ss. e \<noteq> None)"
    using subs_find_None[of ss r u] position_None_iff[of "\<lambda>e. e = None" ss]
    by (cases "position (\<lambda>e. e = None) ss") (auto simp: subscribe_def)
  moreover have "\<forall>i ss'. subscribe ss src r u = Some (i, ss') \<longrightarrow> subs_wf ss' \<and>
       live_subs ss' = insert \<lparr>sub_source = src, sub_ring = r, sub_user_data = u, sub_dropped = 0\<rparr> (live_subs ss)"
    using subscribe_Some(1,5)[OF assms] by (intro allI impI conjI)
  moreover note cancel_eq(1,3)[OF assms prod.collapse[symmetric, of "cancel ss r u"]]
  moreover note release_ring_eq[OF assms, of r]
  ultimately show ?thesis using subs_wf_new by (intro conjI)
qed

lemma subscription_table_witness:
  "subs_wf subs_new \<and> live_subs (release_ring subs_new 3) = {s \<in> live_subs subs_new. sub_ring s \<noteq> 3}"
  using subscription_table[OF subs_wf_new, of 0 3 7] by blast

section \<open>Delivery\<close>

text \<open>A completion queue that admits by an oracle and records every post.\<close>

definition logging ::
    "(nat \<Rightarrow> u64 \<Rightarrow> bool) \<Rightarrow> nat \<Rightarrow> u64 \<Rightarrow> u32 \<Rightarrow> (nat \<times> u64 \<times> u32) list \<Rightarrow> bool \<times> (nat \<times> u64 \<times> u32) list" where
  "logging admit r u st log = (admit r u, log @ [(r, u, st)])"

definition delivered :: "(nat \<Rightarrow> u64 \<Rightarrow> bool) \<Rightarrow> nat \<Rightarrow> subscription option \<Rightarrow> subscription option" where
  "delivered admit source e =
     map_option (\<lambda>s. if sub_source s = source
        then s\<lparr>sub_dropped := if admit (sub_ring s) (sub_user_data s) then 0 else saturating_add (sub_dropped s) 1\<rparr>
        else s) e"

definition posts_for :: "nat \<Rightarrow> u32 \<Rightarrow> subs \<Rightarrow> (nat \<times> u64 \<times> u32) list" where
  "posts_for source event ss =
     map (\<lambda>s. (sub_ring s, sub_user_data s, sub_status event s))
       (filter (\<lambda>s. sub_source s = source) (List.map_filter id ss))"

lemma deliver_logging:
  "deliver (logging admit) source event ss log =
     (map (delivered admit source) ss, log @ posts_for source event ss)"
  by (induction "logging admit" source event ss log rule: deliver.induct)
    (auto simp: delivered_def posts_for_def logging_def map_filter_simps)

lemma deliver_length: "length (fst (deliver post source event ss st)) = length ss"
  by (induction post source event ss st rule: deliver.induct)
    (auto simp: Let_def split: prod.splits)

lemma posts_for_empty: "posts_for source event ss = [] \<longleftrightarrow> (\<forall>s \<in> live_subs ss. sub_source s \<noteq> source)"
  by (auto simp: posts_for_def filter_empty_conv live_subs_def List.map_filter_def)

lemma sub_status_flag:
  assumes "\<not> bit event 31"
  shows "bit (sub_status event s) 31 \<longleftrightarrow> 0 < sub_dropped s"
    and "sub_status event s AND NOT EVENT_DROPPED = event"
proof -
  have b: "bit EVENT_DROPPED k \<longleftrightarrow> k = 31" for k by (auto simp: EVENT_DROPPED_def bit_shl1)
  show "bit (sub_status event s) 31 \<longleftrightarrow> 0 < sub_dropped s"
    using assms by (simp add: sub_status_def bit_or_iff b)
  show "sub_status event s AND NOT EVENT_DROPPED = event"
    by (rule bit_word_eqI) (use assms in \<open>auto simp: sub_status_def bit_or_iff bit_and_iff bit_not_iff b\<close>)
qed

text \<open>
  Event delivery loses nothing silently: an event is posted once to every subscription of its
  source, in table order, and to nobody else; the status carries the event unchanged, with the
  drop flag set exactly when an earlier event of that stream was lost; a post that is admitted
  clears the count of lost events, one that is refused counts one more, and every other
  subscription is left alone.
\<close>
lemma delivery_is_exact:
  assumes "\<not> bit event 31" and "deliver (logging admit) source event ss [] = (ss', posts)"
  shows "posts = posts_for source event ss \<and> length ss' = length ss \<and>
    (\<forall>s. bit (sub_status event s) 31 \<longleftrightarrow> 0 < sub_dropped s) \<and>
    (\<forall>s. sub_status event s AND NOT EVENT_DROPPED = event) \<and>
    (\<forall>i < length ss. case ss ! i of None \<Rightarrow> ss' ! i = None
      | Some s \<Rightarrow> (\<exists>s'. ss' ! i = Some s' \<and> sub_source s' = sub_source s \<and> sub_ring s' = sub_ring s \<and>
          sub_user_data s' = sub_user_data s \<and>
          unat (sub_dropped s') = (if sub_source s \<noteq> source then unat (sub_dropped s)
             else if admit (sub_ring s) (sub_user_data s) then 0 else min (unat (sub_dropped s) + 1) (2 ^ 32 - 1))))"
proof -
  have D: "ss' = map (delivered admit source) ss" "posts = posts_for source event ss"
    using assms(2) deliver_logging[of admit source event ss "[]"] by simp_all
  have m: "unat (- 1 :: u32) = 2 ^ 32 - 1"
    by (simp add: unsigned_minus_1_eq_mask mask_eq_exp_minus_1)
  have sat: "unat (saturating_add d 1) = min (unat d + 1) (2 ^ 32 - 1)" for d :: u32
    using unat_u32_less[of d] unat_add_if_less[of d 1]
    by (auto simp: saturating_add_def m)
  have "\<forall>i < length ss. case ss ! i of None \<Rightarrow> ss' ! i = None
      | Some s \<Rightarrow> (\<exists>s'. ss' ! i = Some s' \<and> sub_source s' = sub_source s \<and> sub_ring s' = sub_ring s \<and>
          sub_user_data s' = sub_user_data s \<and>
          unat (sub_dropped s') = (if sub_source s \<noteq> source then unat (sub_dropped s)
             else if admit (sub_ring s) (sub_user_data s) then 0 else min (unat (sub_dropped s) + 1) (2 ^ 32 - 1)))"
    by (auto simp: D(1) delivered_def sat split: option.splits)
  then show ?thesis using D sub_status_flag[OF assms(1)] by simp
qed

lemma delivery_is_exact_witness:
  "deliver (logging (\<lambda>_ _. False)) 0 7 [Some \<lparr>sub_source = 0, sub_ring = 2, sub_user_data = 9, sub_dropped = 1\<rparr>] [] =
     ([Some \<lparr>sub_source = 0, sub_ring = 2, sub_user_data = 9, sub_dropped = 2\<rparr>], [(2, 9, 7 OR EVENT_DROPPED)]) \<and>
   [(2, 9, 7 OR EVENT_DROPPED)] = posts_for 0 7 [Some \<lparr>sub_source = 0, sub_ring = 2, sub_user_data = 9, sub_dropped = 1\<rparr>]"
proof
  show d: "deliver (logging (\<lambda>_ _. False)) 0 7 [Some \<lparr>sub_source = 0, sub_ring = 2, sub_user_data = 9, sub_dropped = 1\<rparr>] [] =
     ([Some \<lparr>sub_source = 0, sub_ring = 2, sub_user_data = 9, sub_dropped = 2\<rparr>], [(2, 9, 7 OR EVENT_DROPPED)])"
    by (simp add: logging_def sub_status_def saturating_add_def)
  have "\<not> bit (7 :: u32) 31" by (simp add: bit_numeral_rec)
  from delivery_is_exact[OF this d]
  show "[(2, 9, 7 OR EVENT_DROPPED)] = posts_for 0 7 [Some \<lparr>sub_source = 0, sub_ring = 2, sub_user_data = 9, sub_dropped = 1\<rparr>]"
    by blast
qed

end
