(* ===== verification/Pool.thy ===== *)
theory Pool
  imports Prelude
begin

text \<open>
  The interface of a pool of units (frames, sectors) that are granted in extents and given
  back: what a client may rely on is that extents granted and not yet given back are
  pairwise disjoint, disjoint from what is still available, and that nothing is lost.
  The kernel's frame allocator and the file system's sector bitmap are its two providers.
\<close>

locale pool =
  fixes ok :: "'s \<Rightarrow> bool"
    and avl :: "'s \<Rightarrow> 'x set"
    and extent :: "'r \<Rightarrow> 'a \<Rightarrow> 'x set"
    and acquire :: "'s \<Rightarrow> 'r \<Rightarrow> ('a \<times> 's) option"
    and give_back :: "'s \<Rightarrow> 'r \<Rightarrow> 'a \<Rightarrow> 's option"
  assumes acquire_law: "ok s \<Longrightarrow> acquire s r = Some (a, s') \<Longrightarrow>
      ok s' \<and> extent r a \<subseteq> avl s \<and> avl s' = avl s - extent r a"
    and give_back_law: "ok s \<Longrightarrow> extent r a \<inter> avl s = {} \<Longrightarrow> give_back s r a = Some s' \<Longrightarrow>
      ok s' \<and> avl s' = avl s \<union> extent r a"
begin

definition grants :: "('r \<times> 'a) list \<Rightarrow> 'x set list" where
  "grants H = map (\<lambda>(r, a). extent r a) H"

text \<open>The units \<open>U\<close> are the ones held and the ones available, each of them once.\<close>

definition accounted :: "'x set \<Rightarrow> 's \<Rightarrow> ('r \<times> 'a) list \<Rightarrow> bool" where
  "accounted U s H \<longleftrightarrow> ok s \<and> disjoint_list (grants H) \<and> \<Union> (set (grants H)) \<inter> avl s = {} \<and>
     \<Union> (set (grants H)) \<union> avl s = U"

lemma accountedD:
  assumes "accounted U s H"
  shows "ok s" "disjoint_list (grants H)" "\<Union> (set (grants H)) \<inter> avl s = {}" "\<Union> (set (grants H)) \<union> avl s = U"
  using assms by (simp_all add: accounted_def)

lemma acquire_accounted:
  assumes "accounted U s H" "acquire s r = Some (a, s')"
  shows "accounted U s' ((r, a) # H)"
proof -
  note I = accountedD[OF assms(1)]
  have A: "ok s'" "extent r a \<subseteq> avl s" "avl s' = avl s - extent r a"
    using acquire_law[OF I(1) assms(2)] by simp_all
  have G: "grants ((r, a) # H) = extent r a # grants H" by (simp add: grants_def)
  have "extent r a \<inter> \<Union> (set (grants H)) = {}" using I(3) A(2) by blast
  moreover have "(extent r a \<union> \<Union> (set (grants H))) \<inter> avl s' = {}" using I(3) A(3) by blast
  moreover have "(extent r a \<union> \<Union> (set (grants H))) \<union> avl s' = U" using I(4) A(2,3) by blast
  ultimately show ?thesis using A(1) I(2) by (simp add: accounted_def G)
qed

lemma give_back_accounted:
  assumes "accounted U s H" "(r, a) \<in> set H" "give_back s r a = Some s'"
  shows "accounted U s' (remove1 (r, a) H)"
proof -
  note I = accountedD[OF assms(1)]
  let ?f = "\<lambda>(r, a). extent r a"
  have R: "extent r a \<inter> \<Union> (set (grants (remove1 (r, a) H))) = {}"
    "extent r a \<union> \<Union> (set (grants (remove1 (r, a) H))) = \<Union> (set (grants H))"
    using disjoint_list_remove_Union[of ?f H "(r, a)"] I(2) assms(2) by (simp_all add: grants_def)
  have "extent r a \<inter> avl s = {}" using R I(3) by blast
  then have G: "ok s'" "avl s' = avl s \<union> extent r a"
    using give_back_law[OF I(1) _ assms(3)] by simp_all
  have "disjoint_list (grants (remove1 (r, a) H))"
    using I(2) disjoint_list_remove[of ?f H "(r, a)"] by (simp add: grants_def)
  moreover have "\<Union> (set (grants (remove1 (r, a) H))) \<inter> avl s' = {}" using G(2) R I(3) by blast
  moreover have "\<Union> (set (grants (remove1 (r, a) H))) \<union> avl s' = U" using G(2) R(2) I(4) by blast
  ultimately show ?thesis using G(1) by (simp add: accounted_def)
qed

text \<open>The pool and the grants its clients hold, after any history from \<open>s0\<close>.\<close>

inductive run :: "'s \<Rightarrow> 's \<Rightarrow> ('r \<times> 'a) list \<Rightarrow> bool" for s0 where
  start: "run s0 s0 []"
| acq: "run s0 s H \<Longrightarrow> acquire s r = Some (a, s') \<Longrightarrow> run s0 s' ((r, a) # H)"
| rel: "run s0 s H \<Longrightarrow> (r, a) \<in> set H \<Longrightarrow> give_back s r a = Some s' \<Longrightarrow>
    run s0 s' (remove1 (r, a) H)"

lemma run_accounted: "run s0 s H \<Longrightarrow> ok s0 \<Longrightarrow> accounted (avl s0) s H"
proof (induction rule: run.induct)
  case start
  then show ?case by (simp add: accounted_def grants_def)
qed (auto intro: acquire_accounted give_back_accounted)

lemma run_inv:
  assumes "run s0 s H" and "ok s0"
  shows "ok s \<and> disjoint_list (grants H) \<and> \<Union> (set (grants H)) \<inter> avl s = {} \<and>
         \<Union> (set (grants H)) \<union> avl s = avl s0"
  using run_accounted[OF assms] by (simp add: accounted_def)

end

end
