(* ===== verification/Frame_Alloc.thy ===== *)
theory Frame_Alloc
  imports Pool
begin

text \<open>
  The physical frame allocator, \<open>kernel/src/frame_alloc.rs\<close>: one bit per 4 KiB frame in
  64-bit words, set for unavailable; construction from the boot memory map, first-fit
  \<open>alloc\<close>, checked \<open>dealloc\<close>.  Construction reads the 64-bit bounds of the boot memory map
  and computes on them without wrap-around: physical addresses stay far below \<open>2 ^ 64\<close>,
  where rounding one up to a frame cannot overflow.
\<close>

section \<open>State and operations\<close>

definition FRAME_SIZE :: nat where "FRAME_SIZE = 4096"

definition TRAMPOLINE_PHYS :: nat where "TRAMPOLINE_PHYS = 0x8000"

record frame_alloc =
  fa_bitmap :: "u64 list"
  fa_frames :: nat
  fa_free :: nat

datatype frame_error = Exhausted | OutOfRange | NotAllocated

text \<open>A region of the boot memory map: its bounds and whether its kind is \<open>Usable\<close>.\<close>

record region =
  r_start :: u64
  r_end :: u64
  r_usable :: bool

definition trailing_zeros :: "u64 \<Rightarrow> nat" where
  "trailing_zeros w = (case position (bit w) [0..<64] of None \<Rightarrow> 64 | Some i \<Rightarrow> i)"

text \<open>Reads and writes of the bitmap are bounds-checked; \<open>None\<close> is the index panic.\<close>

definition mark_free :: "frame_alloc \<Rightarrow> nat \<Rightarrow> frame_alloc option" where
  "mark_free fa idx =
     (case get (fa_bitmap fa) (idx div 64) of
        None \<Rightarrow> None
      | Some w \<Rightarrow>
          if w AND shl1 (idx mod 64) \<noteq> 0
          then Some (fa\<lparr>fa_bitmap := (fa_bitmap fa)[idx div 64 := w AND NOT (shl1 (idx mod 64))],
                        fa_free := fa_free fa + 1\<rparr>)
          else Some fa)"

definition mark_used :: "frame_alloc \<Rightarrow> nat \<Rightarrow> frame_alloc option" where
  "mark_used fa idx =
     (case get (fa_bitmap fa) (idx div 64) of
        None \<Rightarrow> None
      | Some w \<Rightarrow>
          if w AND shl1 (idx mod 64) = 0
          then Some (fa\<lparr>fa_bitmap := (fa_bitmap fa)[idx div 64 := w OR shl1 (idx mod 64)],
                        fa_free := fa_free fa - 1\<rparr>)
          else Some fa)"

fun mark_all :: "(frame_alloc \<Rightarrow> nat \<Rightarrow> frame_alloc option) \<Rightarrow> frame_alloc \<Rightarrow> nat list \<Rightarrow> frame_alloc option" where
  "mark_all m fa [] = Some fa"
| "mark_all m fa (i # is) = (case m fa i of None \<Rightarrow> None | Some fa' \<Rightarrow> mark_all m fa' is)"

text \<open>\<open>max_by_key\<close> keeps the last of several maxima.\<close>

fun largest_region :: "region list \<Rightarrow> region option" where
  "largest_region [] = None"
| "largest_region (r # rs) =
     (case largest_region rs of
        None \<Rightarrow> Some r
      | Some q \<Rightarrow> if r_end r - r_start r \<le> r_end q - r_start q then Some q else Some r)"

definition region_frames :: "region \<Rightarrow> nat list" where
  "region_frames r = [(unat (r_start r) + FRAME_SIZE - 1) div FRAME_SIZE ..< unat (r_end r) div FRAME_SIZE]"

text \<open>\<open>None\<close> is a boot panic: no usable memory, no room for the bitmap, or an index out of range.\<close>

definition fa_new :: "region list \<Rightarrow> frame_alloc option" where
  "fa_new regions =
     (let usable = filter r_usable regions in
      case largest_region usable of
        None \<Rightarrow> None
      | Some host \<Rightarrow>
          let max_end = Max (set (map (unat \<circ> r_end) usable));
              frames = max_end div FRAME_SIZE;
              words = div_ceil frames 64;
              bitmap_bytes = words * 8;
              bitmap_frames = div_ceil bitmap_bytes FRAME_SIZE;
              bitmap_phys = (unat (r_start host) + FRAME_SIZE - 1) div FRAME_SIZE * FRAME_SIZE
          in if unat (r_end host) < bitmap_phys + bitmap_frames * FRAME_SIZE then None
             else
               let fa0 = \<lparr>fa_bitmap = replicate words (- 1), fa_frames = frames, fa_free = 0\<rparr>;
                   first = bitmap_phys div FRAME_SIZE
               in Option.bind (mark_all mark_free fa0 (concat (map region_frames usable)))
                    (\<lambda>fa1. mark_all mark_used fa1
                       ([first ..< first + bitmap_frames] @ [0, TRAMPOLINE_PHYS div FRAME_SIZE])))"

text \<open>
  The scan stops at the first word that is not all ones: it either yields that word's lowest
  clear bit or, if that bit lies beyond the tracked frames, gives up.
\<close>

definition alloc :: "frame_alloc \<Rightarrow> frame_error + (u64 \<times> frame_alloc)" where
  "alloc fa =
     (case position (\<lambda>w. w \<noteq> - 1) (fa_bitmap fa) of
        None \<Rightarrow> Inl Exhausted
      | Some wi \<Rightarrow>
          let w = fa_bitmap fa ! wi; b = trailing_zeros (NOT w); idx = wi * 64 + b in
          if fa_frames fa \<le> idx then Inl Exhausted
          else Inr (of_nat idx * of_nat FRAME_SIZE,
                    fa\<lparr>fa_bitmap := (fa_bitmap fa)[wi := w OR shl1 b], fa_free := fa_free fa - 1\<rparr>))"

definition dealloc :: "frame_alloc \<Rightarrow> u64 \<Rightarrow> frame_error + frame_alloc" where
  "dealloc fa addr =
     (if unat addr mod FRAME_SIZE \<noteq> 0 then Inl OutOfRange
      else let idx = unat addr div FRAME_SIZE in
           if fa_frames fa \<le> idx then Inl OutOfRange
           else let w = fa_bitmap fa ! (idx div 64) in
                if w AND shl1 (idx mod 64) = 0 then Inl NotAllocated
                else Inr (fa\<lparr>fa_bitmap := (fa_bitmap fa)[idx div 64 := w AND NOT (shl1 (idx mod 64))],
                             fa_free := fa_free fa + 1\<rparr>))"

definition free_frames :: "frame_alloc \<Rightarrow> nat" where
  "free_frames fa = fa_free fa"

section \<open>The bitmap as a set of frames\<close>

definition used :: "frame_alloc \<Rightarrow> nat \<Rightarrow> bool" where
  "used fa i \<longleftrightarrow> bit (fa_bitmap fa ! (i div 64)) (i mod 64)"

text \<open>The frames available for allocation, by index.\<close>

definition avail :: "frame_alloc \<Rightarrow> nat set" where
  "avail fa = {i. i < 64 * length (fa_bitmap fa) \<and> \<not> used fa i}"

text \<open>
  The allocator's invariant: enough words for the tracked frames, nothing available beyond
  them, a faithful free count, and addresses that fit in 64 bits.
\<close>

definition fa_wf :: "frame_alloc \<Rightarrow> bool" where
  "fa_wf fa \<longleftrightarrow>
     fa_frames fa \<le> 64 * length (fa_bitmap fa) \<and>
     (\<forall>i \<in> avail fa. i < fa_frames fa) \<and>
     fa_free fa = card (avail fa) \<and>
     fa_frames fa * FRAME_SIZE \<le> 2 ^ 64"

lemma finite_avail [simp]: "finite (avail fa)"
  by (simp add: avail_def)

lemma index_split: "i div 64 = j div 64 \<and> i mod 64 = j mod 64 \<longleftrightarrow> i = (j :: nat)"
  by (metis div_mult_mod_eq)

lemma used_set:
  assumes "i div 64 < length (fa_bitmap fa)"
  shows "used (fa\<lparr>fa_bitmap := (fa_bitmap fa)[i div 64 := fa_bitmap fa ! (i div 64) OR shl1 (i mod 64)],
                  fa_free := n\<rparr>) j \<longleftrightarrow> j = i \<or> used fa j"
  using assms index_split[of i j]
  by (cases "i = j") (auto simp: used_def nth_list_update_cases bit_or_shl1)

lemma used_clear:
  assumes "i div 64 < length (fa_bitmap fa)"
  shows "used (fa\<lparr>fa_bitmap := (fa_bitmap fa)[i div 64 := fa_bitmap fa ! (i div 64) AND NOT (shl1 (i mod 64))],
                  fa_free := n\<rparr>) j \<longleftrightarrow> j \<noteq> i \<and> used fa j"
  using assms index_split[of i j]
  by (cases "i = j") (auto simp: used_def nth_list_update_cases bit_and_not_shl1)

lemma word_index: "i < 64 * n \<Longrightarrow> i div 64 < (n :: nat)"
  by (simp add: less_mult_imp_div_less mult.commute)

lemma avail_set:
  assumes "i < 64 * length (fa_bitmap fa)"
  shows "avail (fa\<lparr>fa_bitmap := (fa_bitmap fa)[i div 64 := fa_bitmap fa ! (i div 64) OR shl1 (i mod 64)],
                   fa_free := n\<rparr>) = avail fa - {i}"
  using used_set[OF word_index[OF assms]] by (auto simp: avail_def)

lemma avail_clear:
  assumes "i < 64 * length (fa_bitmap fa)"
  shows "avail (fa\<lparr>fa_bitmap := (fa_bitmap fa)[i div 64 := fa_bitmap fa ! (i div 64) AND NOT (shl1 (i mod 64))],
                   fa_free := n\<rparr>) = insert i (avail fa)"
  using used_clear[OF word_index[OF assms]] assms by (auto simp: avail_def)

lemma trailing_zeros_not:
  assumes "w \<noteq> - 1"
  shows "trailing_zeros (NOT w) < 64" and "\<not> bit w (trailing_zeros (NOT w))"
    and "\<And>k. k < trailing_zeros (NOT w) \<Longrightarrow> bit w k"
proof -
  obtain k where k: "k < 64" "\<not> bit w k"
    using assms by (auto simp: word_bits_eq_iff)
  have "\<exists>i. position (bit (NOT w)) [0..<64] = Some i"
    using k by (intro position_exists[of k]) (auto simp: bit_not_iff)
  then obtain i where i: "position (bit (NOT w)) [0..<64] = Some i" by blast
  then have tz: "trailing_zeros (NOT w) = i" by (simp add: trailing_zeros_def)
  note P = position_SomeD[OF i]
  show "trailing_zeros (NOT w) < 64" using P(1) tz by simp
  show "\<not> bit w (trailing_zeros (NOT w))" using P(1,2) tz by (simp add: bit_not_iff)
  show "\<And>k. k < trailing_zeros (NOT w) \<Longrightarrow> bit w k"
    using P(1,3) tz by (force simp: bit_not_iff)
qed

section \<open>Correctness of the operations\<close>

lemma alloc_Inr:
  assumes "fa_wf fa" and "alloc fa = Inr (a, fa')"
  obtains i where "i \<in> avail fa" and "\<And>j. j \<in> avail fa \<Longrightarrow> i \<le> j" and "i < fa_frames fa"
    and "unat a = i * FRAME_SIZE" and "avail fa' = avail fa - {i}" and "fa_wf fa'"
    and "fa_frames fa' = fa_frames fa" and "length (fa_bitmap fa') = length (fa_bitmap fa)"
    and "fa_free fa' + 1 = fa_free fa"
proof -
  obtain wi where wi: "position (\<lambda>w. w \<noteq> - 1) (fa_bitmap fa) = Some wi"
    using assms(2) by (auto simp: alloc_def split: option.splits)
  define w where "w = fa_bitmap fa ! wi"
  define b where "b = trailing_zeros (NOT w)"
  define i where "i = wi * 64 + b"
  note P = position_SomeD[OF wi]
  note T = trailing_zeros_not[OF P(2)[folded w_def], folded b_def]
  have di: "i div 64 = wi" "i mod 64 = b" using T(1) by (simp_all add: i_def)
  have lt: "i < fa_frames fa" and a: "a = of_nat i * of_nat FRAME_SIZE"
    and fa': "fa' = fa\<lparr>fa_bitmap := (fa_bitmap fa)[wi := w OR shl1 b], fa_free := fa_free fa - 1\<rparr>"
    using assms(2) wi by (auto simp: alloc_def Let_def w_def b_def i_def split: if_splits)
  have ib: "i < 64 * length (fa_bitmap fa)" using P(1) T(1) by (simp add: i_def)
  have iav: "i \<in> avail fa" using ib T(2) by (simp add: avail_def used_def di w_def)
  have least: "i \<le> j" if "j \<in> avail fa" for j
  proof (rule ccontr)
    assume "\<not> i \<le> j"
    then consider "j div 64 < wi" | "j div 64 = wi" "j mod 64 < b"
      using di by (metis div_le_mono div_mult_mod_eq le_eq_less_or_eq nat_add_left_cancel_less not_le)
    then show False
    proof cases
      case 1
      then have "fa_bitmap fa ! (j div 64) = - 1" using P(3) by blast
      then show False using that by (simp add: avail_def used_def)
    next
      case 2
      then show False using that T(3) by (simp add: avail_def used_def w_def)
    qed
  qed
  have av: "avail fa' = avail fa - {i}"
    using avail_set[OF ib, of "fa_free fa - 1"] by (simp add: fa' di w_def)
  have small: "i * FRAME_SIZE < 2 ^ 64"
    using lt assms(1) unfolding fa_wf_def FRAME_SIZE_def by linarith
  have "unat a = i * FRAME_SIZE"
  proof -
    have "a = of_nat (i * FRAME_SIZE)" by (simp add: a)
    then show ?thesis using small by (simp add: unat_of_nat_id del: of_nat_mult)
  qed
  moreover have card: "card (avail fa) = Suc (card (avail fa'))"
    using card_Suc_Diff1[OF finite_avail iav] av by simp
  moreover have "fa_wf fa'"
    using assms(1) av card by (auto simp: fa_wf_def fa')
  ultimately show ?thesis
    using that[OF iav least lt _ av] assms(1) by (simp add: fa' fa_wf_def)
qed

lemma alloc_Inl_iff:
  assumes "fa_wf fa"
  shows "(\<exists>e. alloc fa = Inl e) \<longleftrightarrow> avail fa = {}"
proof
  assume "\<exists>e. alloc fa = Inl e"
  then consider "position (\<lambda>w. w \<noteq> - 1) (fa_bitmap fa) = None"
    | wi where "position (\<lambda>w. w \<noteq> - 1) (fa_bitmap fa) = Some wi"
        "fa_frames fa \<le> wi * 64 + trailing_zeros (NOT (fa_bitmap fa ! wi))"
    by (auto simp: alloc_def Let_def split: option.splits if_splits)
  then show "avail fa = {}"
  proof cases
    case 1
    then have "\<forall>k < length (fa_bitmap fa). fa_bitmap fa ! k = - 1"
      by (auto simp: position_None_iff)
    then show ?thesis by (auto simp: avail_def used_def word_index)
  next
    case 2
    note P = position_SomeD[OF 2(1)]
    note T = trailing_zeros_not[OF P(2)]
    let ?i = "wi * 64 + trailing_zeros (NOT (fa_bitmap fa ! wi))"
    have "?i \<in> avail fa" using P(1) T(1,2) by (simp add: avail_def used_def)
    then have "?i < fa_frames fa" using assms by (simp add: fa_wf_def)
    then show ?thesis using 2(2) by simp
  qed
next
  assume e: "avail fa = {}"
  show "\<exists>e. alloc fa = Inl e"
  proof (cases "alloc fa")
    case (Inr p)
    then show ?thesis using e by (cases p) (auto elim!: alloc_Inr[OF assms])
  qed blast
qed

lemma dealloc_Inr:
  assumes "fa_wf fa" and "dealloc fa a = Inr fa'"
  obtains i where "unat a = i * FRAME_SIZE" and "i < fa_frames fa" and "i \<notin> avail fa"
    and "avail fa' = insert i (avail fa)" and "fa_wf fa'" and "fa_frames fa' = fa_frames fa"
    and "fa_free fa' = fa_free fa + 1"
proof -
  define i where "i = unat a div FRAME_SIZE"
  have al: "unat a = i * FRAME_SIZE" and lt: "i < fa_frames fa"
    and set: "fa_bitmap fa ! (i div 64) AND shl1 (i mod 64) \<noteq> 0"
    and fa': "fa' = fa\<lparr>fa_bitmap := (fa_bitmap fa)[i div 64 := fa_bitmap fa ! (i div 64) AND NOT (shl1 (i mod 64))],
                 fa_free := fa_free fa + 1\<rparr>"
    using assms(2) by (auto simp: dealloc_def Let_def i_def split: if_splits)
  have ib: "i < 64 * length (fa_bitmap fa)" using lt assms(1) by (simp add: fa_wf_def)
  have nav: "i \<notin> avail fa" using set by (simp add: avail_def used_def and_shl1_eq_0)
  have av: "avail fa' = insert i (avail fa)" using avail_clear[OF ib] by (simp add: fa')
  have "fa_wf fa'" using assms(1) av nav lt by (auto simp: fa_wf_def fa')
  then show ?thesis using that[OF al lt nav av] by (simp add: fa')
qed

lemma dealloc_of_used:
  assumes "fa_wf fa" and "unat a = i * FRAME_SIZE" and "i < fa_frames fa" and "i \<notin> avail fa"
  shows "\<exists>fa'. dealloc fa a = Inr fa'"
proof -
  have "i < 64 * length (fa_bitmap fa)" using assms(1,3) by (simp add: fa_wf_def)
  then have "used fa i" using assms(4) by (simp add: avail_def)
  then show ?thesis
    using assms by (simp add: dealloc_def Let_def used_def FRAME_SIZE_def and_shl1_eq_0)
qed

section \<open>Construction\<close>

lemma mark_free_Some:
  assumes "mark_free fa i = Some fa'" and "fa_free fa = card (avail fa)"
  shows "avail fa' = insert i (avail fa)" and "fa_free fa' = card (avail fa')"
    and "length (fa_bitmap fa') = length (fa_bitmap fa)" and "fa_frames fa' = fa_frames fa"
proof -
  have d: "i div 64 < length (fa_bitmap fa)"
    using assms(1) by (auto simp: mark_free_def get_def split: if_splits option.splits)
  then have ib: "i < 64 * length (fa_bitmap fa)" by linarith
  let ?w = "fa_bitmap fa ! (i div 64)"
  have "avail fa' = insert i (avail fa) \<and> fa_free fa' = card (avail fa') \<and>
        length (fa_bitmap fa') = length (fa_bitmap fa) \<and> fa_frames fa' = fa_frames fa"
  proof (cases "?w AND shl1 (i mod 64) = 0")
    case True
    then have "fa' = fa" using assms(1) d by (simp add: mark_free_def get_def)
    moreover have "i \<in> avail fa" using True ib by (simp add: avail_def used_def and_shl1_eq_0)
    ultimately show ?thesis using assms(2) by auto
  next
    case False
    then have fa': "fa' = fa\<lparr>fa_bitmap := (fa_bitmap fa)[i div 64 := ?w AND NOT (shl1 (i mod 64))],
        fa_free := fa_free fa + 1\<rparr>"
      using assms(1) d by (simp add: mark_free_def get_def)
    moreover have "i \<notin> avail fa" using False by (simp add: avail_def used_def and_shl1_eq_0)
    ultimately show ?thesis using avail_clear[OF ib] assms(2) by simp
  qed
  then show "avail fa' = insert i (avail fa)" "fa_free fa' = card (avail fa')"
    "length (fa_bitmap fa') = length (fa_bitmap fa)" "fa_frames fa' = fa_frames fa"
    by simp_all
qed

lemma mark_used_Some:
  assumes "mark_used fa i = Some fa'" and "fa_free fa = card (avail fa)"
  shows "avail fa' = avail fa - {i}" and "fa_free fa' = card (avail fa')"
    and "length (fa_bitmap fa') = length (fa_bitmap fa)" and "fa_frames fa' = fa_frames fa"
proof -
  have d: "i div 64 < length (fa_bitmap fa)"
    using assms(1) by (auto simp: mark_used_def get_def split: if_splits option.splits)
  then have ib: "i < 64 * length (fa_bitmap fa)" by linarith
  let ?w = "fa_bitmap fa ! (i div 64)"
  have "avail fa' = avail fa - {i} \<and> fa_free fa' = card (avail fa') \<and>
        length (fa_bitmap fa') = length (fa_bitmap fa) \<and> fa_frames fa' = fa_frames fa"
  proof (cases "?w AND shl1 (i mod 64) = 0")
    case False
    then have "fa' = fa" using assms(1) d by (simp add: mark_used_def get_def)
    moreover have "i \<notin> avail fa" using False by (simp add: avail_def used_def and_shl1_eq_0)
    ultimately show ?thesis using assms(2) by auto
  next
    case True
    then have fa': "fa' = fa\<lparr>fa_bitmap := (fa_bitmap fa)[i div 64 := ?w OR shl1 (i mod 64)],
        fa_free := fa_free fa - 1\<rparr>"
      using assms(1) d by (simp add: mark_used_def get_def)
    moreover have "i \<in> avail fa" using True ib by (simp add: avail_def used_def and_shl1_eq_0)
    ultimately show ?thesis using avail_set[OF ib] assms(2) by simp
  qed
  then show "avail fa' = avail fa - {i}" "fa_free fa' = card (avail fa')"
    "length (fa_bitmap fa') = length (fa_bitmap fa)" "fa_frames fa' = fa_frames fa"
    by simp_all
qed

lemma mark_all_free:
  assumes "mark_all mark_free fa is = Some fa'" and "fa_free fa = card (avail fa)"
  shows "avail fa' = avail fa \<union> set is \<and> fa_free fa' = card (avail fa') \<and>
    length (fa_bitmap fa') = length (fa_bitmap fa) \<and> fa_frames fa' = fa_frames fa"
  using assms
proof (induction "is" arbitrary: fa)
  case Nil
  then show ?case by simp
next
  case (Cons i "is")
  then obtain fa1 where fa1: "mark_free fa i = Some fa1" "mark_all mark_free fa1 is = Some fa'"
    by (auto split: option.splits)
  show ?case
    using Cons.IH[OF fa1(2)] mark_free_Some[OF fa1(1) Cons.prems(2)] by auto
qed

lemma mark_all_used:
  assumes "mark_all mark_used fa is = Some fa'" and "fa_free fa = card (avail fa)"
  shows "avail fa' = avail fa - set is \<and> fa_free fa' = card (avail fa') \<and>
    length (fa_bitmap fa') = length (fa_bitmap fa) \<and> fa_frames fa' = fa_frames fa"
  using assms
proof (induction "is" arbitrary: fa)
  case Nil
  then show ?case by simp
next
  case (Cons i "is")
  then obtain fa1 where fa1: "mark_used fa i = Some fa1" "mark_all mark_used fa1 is = Some fa'"
    by (auto split: option.splits)
  show ?case
    using Cons.IH[OF fa1(2)] mark_used_Some[OF fa1(1) Cons.prems(2)] by auto
qed

lemma avail_all_ones: "avail \<lparr>fa_bitmap = replicate n (- 1), fa_frames = m, fa_free = k\<rparr> = {}"
  by (auto simp: avail_def used_def word_index)

text \<open>The frames a fresh allocator may hand out.\<close>

definition usable_frames :: "region list \<Rightarrow> nat set" where
  "usable_frames regions = \<Union> ((set \<circ> region_frames) ` {r \<in> set regions. r_usable r})"

text \<open>The frames the bitmap itself is stored in, for the region it is hosted in.\<close>

definition bitmap_storage :: "region list \<Rightarrow> nat set" where
  "bitmap_storage regions =
     (let usable = filter r_usable regions in
      case largest_region usable of None \<Rightarrow> {}
      | Some host \<Rightarrow>
          let first = (unat (r_start host) + FRAME_SIZE - 1) div FRAME_SIZE;
              frames = Max (set (map (unat \<circ> r_end) usable)) div FRAME_SIZE
          in {first ..< first + div_ceil (div_ceil frames 64 * 8) FRAME_SIZE})"

lemma usable_frame_bounds:
  assumes "i \<in> usable_frames regions"
  obtains r where "r \<in> set regions" "r_usable r"
    "unat (r_start r) \<le> i * FRAME_SIZE" "(i + 1) * FRAME_SIZE \<le> unat (r_end r)"
proof -
  obtain r where r: "r \<in> set regions" "r_usable r" "i \<in> set (region_frames r)"
    using assms by (auto simp: usable_frames_def)
  then have "(unat (r_start r) + FRAME_SIZE - 1) div FRAME_SIZE \<le> i" "i < unat (r_end r) div FRAME_SIZE"
    by (simp_all add: region_frames_def)
  then have "unat (r_start r) \<le> i * 4096" "i + 1 \<le> unat (r_end r) div 4096"
    unfolding FRAME_SIZE_def by linarith+
  then have "unat (r_start r) \<le> i * FRAME_SIZE" "(i + 1) * FRAME_SIZE \<le> unat (r_end r)"
    using less_eq_div_iff_mult_less_eq[of 4096 "i + 1" "unat (r_end r)"] by (simp_all add: FRAME_SIZE_def)
  then show ?thesis using that r by blast
qed

lemma largest_region_None: "largest_region rs = None \<longleftrightarrow> rs = []"
  by (cases rs) (auto split: option.splits if_splits)

lemma fa_new_Some:
  assumes "fa_new regions = Some fa"
  shows "fa_wf fa" and "avail fa = usable_frames regions - bitmap_storage regions
           - {0, TRAMPOLINE_PHYS div FRAME_SIZE}"
proof -
  define usable where "usable = filter r_usable regions"
  obtain host where host: "largest_region usable = Some host"
    using assms by (auto simp: fa_new_def Let_def usable_def split: option.splits)
  define frames where "frames = Max (set (map (unat \<circ> r_end) usable)) div FRAME_SIZE"
  define words where "words = div_ceil frames 64"
  define first where "first = (unat (r_start host) + FRAME_SIZE - 1) div FRAME_SIZE"
  define bf where "bf = div_ceil (words * 8) FRAME_SIZE"
  let ?fa0 = "\<lparr>fa_bitmap = replicate words (- 1), fa_frames = frames, fa_free = 0\<rparr>"
  have f4: "first * FRAME_SIZE div FRAME_SIZE = first" by (simp add: FRAME_SIZE_def)
  obtain fa1 where fa1: "mark_all mark_free ?fa0 (concat (map region_frames usable)) = Some fa1"
    and fa: "mark_all mark_used fa1 ([first ..< first + bf] @ [0, TRAMPOLINE_PHYS div FRAME_SIZE]) = Some fa"
    using assms host f4 unfolding fa_new_def usable_def[symmetric] Let_def frames_def[symmetric]
      words_def[symmetric] first_def[symmetric] bf_def[symmetric]
    by (auto simp: bind_eq_Some_conv first_def simp del: One_nat_def split: if_splits)
  have F: "avail fa1 = set (concat (map region_frames usable))" "fa_free fa1 = card (avail fa1)"
    "length (fa_bitmap fa1) = words" "fa_frames fa1 = frames"
    using mark_all_free[OF fa1] avail_all_ones[of words frames 0] by auto
  have U: "avail fa = avail fa1 - set ([first ..< first + bf] @ [0, TRAMPOLINE_PHYS div FRAME_SIZE])"
    "fa_free fa = card (avail fa)" "length (fa_bitmap fa) = words" "fa_frames fa = frames"
    using mark_all_used[OF fa F(2)] F(3,4) by simp_all
  have st: "bitmap_storage regions = {first ..< first + bf}"
    using host by (simp add: bitmap_storage_def Let_def usable_def first_def bf_def words_def frames_def)
  have us: "usable_frames regions = set (concat (map region_frames usable))"
    by (auto simp: usable_frames_def usable_def)
  show av: "avail fa = usable_frames regions - bitmap_storage regions - {0, TRAMPOLINE_PHYS div FRAME_SIZE}"
    using U(1) F(1) st us by auto
  have bound: "unat (r_end r) div FRAME_SIZE \<le> frames" if "r \<in> set usable" for r
    using that unfolding frames_def by (intro div_le_mono Max_ge) auto
  have lt: "\<forall>i \<in> avail fa. i < frames"
    using U(1) F(1) bound by (fastforce simp: region_frames_def)
  have "usable \<noteq> []" using host largest_region_None[of usable] by auto
  then have "Max (set (map (unat \<circ> r_end) usable)) \<in> set (map (unat \<circ> r_end) usable)"
    by (intro Max_in) auto
  then obtain r :: region where r: "Max (set (map (unat \<circ> r_end) usable)) = unat (r_end r)"
    by (auto simp del: Max_in)
  have "unat (r_end r) < 2 ^ 64" using unsigned_less[of "r_end r"] by simp
  then have "frames * FRAME_SIZE \<le> 2 ^ 64" using r by (simp add: frames_def FRAME_SIZE_def)
  moreover have "frames \<le> 64 * words" using div_ceil_mult_ge[of 64 frames] by (simp add: words_def mult.commute)
  ultimately show "fa_wf fa" using lt U by (simp add: fa_wf_def)
qed

section \<open>The allocator as a pool of frames\<close>

text \<open>A grant of the pool is the address of one frame.\<close>

definition frame_extent :: "unit \<Rightarrow> u64 \<Rightarrow> nat set" where
  "frame_extent _ a = {unat a div FRAME_SIZE}"

definition frame_acquire :: "frame_alloc \<Rightarrow> unit \<Rightarrow> (u64 \<times> frame_alloc) option" where
  "frame_acquire fa _ = (case alloc fa of Inl _ \<Rightarrow> None | Inr r \<Rightarrow> Some r)"

definition frame_give_back :: "frame_alloc \<Rightarrow> unit \<Rightarrow> u64 \<Rightarrow> frame_alloc option" where
  "frame_give_back fa _ a = (case dealloc fa a of Inl _ \<Rightarrow> None | Inr fa' \<Rightarrow> Some fa')"

interpretation frames: pool fa_wf avail frame_extent frame_acquire frame_give_back
proof unfold_locales
  fix fa :: frame_alloc and r a fa'
  assume ok: "fa_wf fa" and "frame_acquire fa r = Some (a, fa')"
  then have "alloc fa = Inr (a, fa')" by (auto simp: frame_acquire_def split: sum.splits)
  from alloc_Inr[OF ok this] obtain i where "i \<in> avail fa" "unat a = i * FRAME_SIZE"
    "avail fa' = avail fa - {i}" "fa_wf fa'"
    by metis
  then show "fa_wf fa' \<and> frame_extent r a \<subseteq> avail fa \<and> avail fa' = avail fa - frame_extent r a"
    by (simp add: frame_extent_def FRAME_SIZE_def)
next
  fix fa :: frame_alloc and r a fa'
  assume ok: "fa_wf fa" and "frame_give_back fa r a = Some fa'"
  then have "dealloc fa a = Inr fa'" by (auto simp: frame_give_back_def split: sum.splits)
  from dealloc_Inr[OF ok this] obtain i where "unat a = i * FRAME_SIZE"
    "avail fa' = insert i (avail fa)" "fa_wf fa'"
    by metis
  then show "fa_wf fa' \<and> avail fa' = avail fa \<union> frame_extent r a"
    by (simp add: frame_extent_def FRAME_SIZE_def)
qed

section \<open>Histories of the allocator\<close>

datatype frame_op = Take | Give u64

text \<open>
  A history of the allocator and of the frames its clients hold: a client gives back only
  what it holds.
\<close>

fun frame_run :: "frame_alloc \<Rightarrow> u64 list \<Rightarrow> frame_op list \<Rightarrow> frame_alloc \<times> u64 list" where
  "frame_run fa H [] = (fa, H)"
| "frame_run fa H (Take # ops) =
     (case alloc fa of Inl _ \<Rightarrow> frame_run fa H ops
      | Inr (a, fa') \<Rightarrow> frame_run fa' (a # H) ops)"
| "frame_run fa H (Give a # ops) =
     (if a \<in> set H then
        (case dealloc fa a of Inl _ \<Rightarrow> frame_run fa H ops
         | Inr fa' \<Rightarrow> frame_run fa' (remove1 a H) ops)
      else frame_run fa H ops)"

definition frame_addr :: "frame_alloc \<Rightarrow> u64 \<Rightarrow> bool" where
  "frame_addr fa a \<longleftrightarrow> unat a mod FRAME_SIZE = 0 \<and> unat a div FRAME_SIZE < fa_frames fa"

lemma map_remove1_Pair: "map (Pair x) (remove1 a H) = remove1 (x, a) (map (Pair x) H)"
  by (induction H) auto

lemma frame_run_pool:
  assumes "frames.run fa0 fa (map (Pair ()) H)" and "fa_wf fa0"
    and "\<forall>a \<in> set H. frame_addr fa a" and "frame_run fa H ops = (fa', H')"
  shows "frames.run fa0 fa' (map (Pair ()) H') \<and> fa_frames fa' = fa_frames fa \<and>
         (\<forall>a \<in> set H'. frame_addr fa' a)"
  using assms
proof (induction fa H ops rule: frame_run.induct)
  case (1 fa H)
  then show ?case by simp
next
  case (2 fa H ops)
  have ok: "fa_wf fa" using frames.run_inv[OF 2(3,4)] by simp
  show ?case
  proof (cases "alloc fa")
    case (Inl e)
    then show ?thesis using 2(1)[OF Inl 2(3-5)] 2(6) by simp
  next
    case (Inr p)
    obtain a fa1 where p: "p = (a, fa1)" by (cases p)
    note al = Inr[unfolded p]
    from alloc_Inr[OF ok al] obtain i where i: "i < fa_frames fa" "unat a = i * FRAME_SIZE"
      "fa_frames fa1 = fa_frames fa" by metis
    have "frames.run fa0 fa1 (map (Pair ()) (a # H))"
      using frames.run.acq[OF 2(3), of "()" a fa1] al by (simp add: frame_acquire_def)
    moreover have "\<forall>b \<in> set (a # H). frame_addr fa1 b"
      using 2(5) i by (simp add: frame_addr_def FRAME_SIZE_def)
    moreover have "frame_run fa1 (a # H) ops = (fa', H')" using 2(6) al by simp
    ultimately show ?thesis using 2(2)[OF Inr p[symmetric] _ 2(4)] i(3) by simp
  qed
next
  case (3 fa H a ops)
  have ok: "fa_wf fa" using frames.run_inv[OF 3(4,5)] by simp
  show ?case
  proof (cases "a \<in> set H")
    case False
    then show ?thesis using 3(3)[OF False 3(4-6)] 3(7) by simp
  next
    case H: True
    show ?thesis
    proof (cases "dealloc fa a")
      case (Inl e)
      then show ?thesis using 3(1)[OF H Inl 3(4-6)] 3(7) H by simp
    next
      case (Inr fa1)
      have fr: "fa_frames fa1 = fa_frames fa" by (rule dealloc_Inr[OF ok Inr]) simp
      have "frames.run fa0 fa1 (map (Pair ()) (remove1 a H))"
        using frames.run.rel[OF 3(4), of "()" a fa1] H Inr
        by (simp add: frame_give_back_def map_remove1_Pair)
      moreover have "\<forall>b \<in> set (remove1 a H). frame_addr fa1 b"
        using 3(6) fr notin_set_remove1 by (fastforce simp: frame_addr_def)
      moreover have "frame_run fa1 (remove1 a H) ops = (fa', H')" using 3(7) H Inr by simp
      ultimately show ?thesis using 3(2)[OF H Inr _ 3(5)] fr by simp
    qed
  qed
qed

lemma disjoint_singletons: "disjoint_list (map (\<lambda>a. {f a}) H) \<longleftrightarrow> distinct (map f H)"
  by (induction H) auto

lemma frame_run_held:
  assumes "fa_wf fa0" and "frame_run fa0 [] ops = (fa, H)"
  shows "fa_wf fa" and "distinct H" and "\<forall>a \<in> set H. frame_addr fa a"
    and "(\<lambda>a. unat a div FRAME_SIZE) ` set H \<inter> avail fa = {}"
    and "(\<lambda>a. unat a div FRAME_SIZE) ` set H \<union> avail fa = avail fa0"
    and "inj_on (\<lambda>a. unat a div FRAME_SIZE) (set H)"
proof -
  let ?g = "\<lambda>a :: u64. unat a div FRAME_SIZE"
  have R: "frames.run fa0 fa (map (Pair ()) H)" "\<forall>a \<in> set H. frame_addr fa a"
    using frame_run_pool[of fa0 fa0 "[]" ops fa H] assms frames.run.start by auto
  note I = frames.run_inv[OF R(1) assms(1)]
  have g: "frames.grants (map (Pair ()) H) = map (\<lambda>a. {?g a}) H"
    by (simp add: frames.grants_def frame_extent_def comp_def)
  have d: "distinct (map ?g H)" using I by (simp add: g disjoint_singletons)
  show "fa_wf fa" using I by simp
  show "distinct H" "inj_on ?g (set H)" using d by (simp_all add: distinct_map)
  show "\<forall>a \<in> set H. frame_addr fa a" by (rule R(2))
  show "?g ` set H \<inter> avail fa = {}" "?g ` set H \<union> avail fa = avail fa0"
    using I by (simp_all add: g UNION_singleton_eq_range image_image)
qed

text \<open>
  C11. From the boot memory map on, after any sequence of allocations and of frees of held
  frames: no frame is ever handed out twice, every frame handed out is a whole page inside a
  usable region, is neither frame 0, the trampoline page nor part of the bitmap's own storage,
  it can be given back, and the frames held and the free count always add up to the initial
  free count.
\<close>
theorem frames_never_shared:
  assumes "fa_new regions = Some fa0" and "frame_run fa0 [] ops = (fa, H)"
  shows "distinct H \<and> free_frames fa + length H = free_frames fa0 \<and>
         (\<forall>a \<in> set H. unat a mod FRAME_SIZE = 0 \<and> (\<exists>fa'. dealloc fa a = Inr fa') \<and>
            unat a div FRAME_SIZE \<in> usable_frames regions - bitmap_storage regions
              - {0, TRAMPOLINE_PHYS div FRAME_SIZE})"
proof -
  note N = fa_new_Some[OF assms(1)]
  note F = frame_run_held[OF N(1) assms(2)]
  let ?g = "\<lambda>a :: u64. unat a div FRAME_SIZE"
  have "card (?g ` set H) = length H" using F(2,6) by (simp add: card_image distinct_card)
  then have "length H + card (avail fa) = card (avail fa0)"
    using card_Un_disjoint[of "?g ` set H" "avail fa"] F(4,5) by simp
  then have "free_frames fa + length H = free_frames fa0"
    using F(1) N(1) by (simp add: free_frames_def fa_wf_def)
  moreover have "\<exists>fa'. dealloc fa a = Inr fa'" if "a \<in> set H" for a
  proof (rule dealloc_of_used[OF F(1)])
    show "unat a = ?g a * FRAME_SIZE" using F(3) that by (auto simp: frame_addr_def)
    show "?g a < fa_frames fa" using F(3) that by (simp add: frame_addr_def)
    show "?g a \<notin> avail fa" using F(4) that by blast
  qed
  moreover have "?g a \<in> avail fa0" if "a \<in> set H" for a using F(5) that by blast
  ultimately show ?thesis using F(2,3) N(2) by (simp add: frame_addr_def)
qed

lemma fa_new_example:
  "fa_new [\<lparr>r_start = 0x9000, r_end = 0xC000, r_usable = True\<rparr>] =
     Some \<lparr>fa_bitmap = [0xFFFFFFFFFFFFF3FF], fa_frames = 12, fa_free = 2\<rparr>"
  by (simp add: fa_new_def Let_def region_frames_def FRAME_SIZE_def div_ceil_def mark_free_def
      mark_used_def get_def shl1_def upt_rec_numeral TRAMPOLINE_PHYS_def)

lemma frame_run_example:
  "frame_run \<lparr>fa_bitmap = [0xFFFFFFFFFFFFF3FF], fa_frames = 12, fa_free = 2\<rparr> [] [Take, Take, Give 0xA000] =
     (\<lparr>fa_bitmap = [0xFFFFFFFFFFFFFBFF], fa_frames = 12, fa_free = 1\<rparr>, [0xB000])"
  by code_simp

lemma frames_never_shared_witness:
  "\<exists>fa0 fa. fa_new [\<lparr>r_start = 0x9000, r_end = 0xC000, r_usable = True\<rparr>] = Some fa0 \<and>
     frame_run fa0 [] [Take, Take, Give 0xA000] = (fa, [0xB000]) \<and>
     free_frames fa + length [0xB000 :: u64] = free_frames fa0"
  using fa_new_example frame_run_example frames_never_shared[OF fa_new_example frame_run_example]
  by blast

text \<open>A bitmap with one clear bit, for the examples.\<close>

lemma one_available: "avail \<lparr>fa_bitmap = [0xFFFFFFFFFFFFFBFF], fa_frames = 12, fa_free = 1\<rparr> = {10}"
proof -
  have w: "(0xFFFFFFFFFFFFFBFF :: u64) = NOT (shl1 10)" by (simp add: shl1_def)
  show ?thesis by (auto simp: avail_def used_def w bit_not_iff bit_shl1)
qed

text \<open>
  The allocator hands out the lowest available frame and fails exactly when none is
  available; freeing what it handed out makes that frame available again and leaves every
  other frame as it was; freeing it a second time, an unaligned address or one beyond the
  tracked memory is refused.
\<close>
lemma alloc_dealloc:
  assumes "fa_wf fa"
  shows "((\<exists>e. alloc fa = Inl e) \<longleftrightarrow> avail fa = {}) \<and>
         (\<forall>a fa1. alloc fa = Inr (a, fa1) \<longrightarrow>
            unat a div FRAME_SIZE = Min (avail fa) \<and> avail fa1 = avail fa - {unat a div FRAME_SIZE} \<and>
            (\<exists>fa2. dealloc fa1 a = Inr fa2 \<and> avail fa2 = avail fa \<and> fa_free fa2 = fa_free fa \<and>
                   dealloc fa2 a = Inl NotAllocated)) \<and>
         (\<forall>a. unat a mod FRAME_SIZE \<noteq> 0 \<or> fa_frames fa * FRAME_SIZE \<le> unat a \<longrightarrow>
            dealloc fa a = Inl OutOfRange)"
proof (intro conjI allI impI)
  show "(\<exists>e. alloc fa = Inl e) \<longleftrightarrow> avail fa = {}" by (rule alloc_Inl_iff[OF assms])
next
  fix a fa1
  assume al: "alloc fa = Inr (a, fa1)"
  obtain i where i: "i \<in> avail fa" "\<And>j. j \<in> avail fa \<Longrightarrow> i \<le> j" "i < fa_frames fa"
    "unat a = i * FRAME_SIZE" "avail fa1 = avail fa - {i}" "fa_wf fa1" "fa_frames fa1 = fa_frames fa"
    "fa_free fa1 + 1 = fa_free fa"
    using alloc_Inr[OF assms al] by metis
  have d: "unat a div FRAME_SIZE = i" using i(4) by (simp add: FRAME_SIZE_def)
  show "unat a div FRAME_SIZE = Min (avail fa)"
    using i(1,2) d by (metis Min_eqI finite_avail)
  show "avail fa1 = avail fa - {unat a div FRAME_SIZE}" using d i(5) by simp
  obtain fa2 where fa2: "dealloc fa1 a = Inr fa2"
    using dealloc_of_used[OF i(6,4)] i(3,5,7) by auto
  obtain k where k: "unat a = k * FRAME_SIZE" "avail fa2 = insert k (avail fa1)" "fa_wf fa2"
    "fa_frames fa2 = fa_frames fa1" "fa_free fa2 = fa_free fa1 + 1"
    using dealloc_Inr[OF i(6) fa2] by metis
  have ki: "k = i" using k(1) i(4) by (simp add: FRAME_SIZE_def)
  have av: "avail fa2 = avail fa" using k(2) i(1,5) ki by auto
  have "dealloc fa2 a \<noteq> Inr fa3" for fa3
    using dealloc_Inr[OF k(3), of a fa3] i(1,4) av by (auto simp: FRAME_SIZE_def)
  moreover have "dealloc fa2 a \<noteq> Inl OutOfRange" "dealloc fa2 a \<noteq> Inl Exhausted"
    using i(3,4,7) k(4) d by (auto simp: dealloc_def Let_def FRAME_SIZE_def)
  ultimately have "dealloc fa2 a = Inl NotAllocated"
    by (metis frame_error.exhaust sum.exhaust)
  then show "\<exists>fa2. dealloc fa1 a = Inr fa2 \<and> avail fa2 = avail fa \<and> fa_free fa2 = fa_free fa \<and>
      dealloc fa2 a = Inl NotAllocated"
    using fa2 av k(5) i(8) by auto
next
  fix a :: u64
  assume "unat a mod FRAME_SIZE \<noteq> 0 \<or> fa_frames fa * FRAME_SIZE \<le> unat a"
  then show "dealloc fa a = Inl OutOfRange"
    by (auto simp: dealloc_def FRAME_SIZE_def)
qed

lemma alloc_dealloc_witness:
  "\<exists>fa1. alloc \<lparr>fa_bitmap = [0xFFFFFFFFFFFFFBFF], fa_frames = 12, fa_free = 1\<rparr> = Inr (0xA000, fa1) \<and>
     avail fa1 = avail \<lparr>fa_bitmap = [0xFFFFFFFFFFFFFBFF], fa_frames = 12, fa_free = 1\<rparr> - {10}"
proof -
  let ?fa = "\<lparr>fa_bitmap = [0xFFFFFFFFFFFFFBFF], fa_frames = 12, fa_free = 1\<rparr> :: frame_alloc"
  have wf: "fa_wf ?fa" using one_available by (simp add: fa_wf_def FRAME_SIZE_def)
  have a: "alloc ?fa = Inr (0xA000, ?fa\<lparr>fa_bitmap := [- 1], fa_free := 0\<rparr>)" by code_simp
  have "avail (?fa\<lparr>fa_bitmap := [- 1], fa_free := 0\<rparr>) = avail ?fa - {unat (0xA000 :: u64) div FRAME_SIZE}"
    using conjunct1[OF conjunct2[OF alloc_dealloc[OF wf]]] a by blast
  then show ?thesis using a by (auto simp: FRAME_SIZE_def)
qed

end
