(* ===== verification/Kernel.thy ===== *)
theory Kernel
  imports Process Endpoint Event_Subs Frame_Alloc
begin

text \<open>
  The kernel's shared state and the scheduler of \<open>kernel/src/scheduler.rs\<close>: the process table,
  the per-core queues, work stealing, the context-switch decisions, blocking and waking, and the
  reclamation of lent capabilities at death.  Every operation runs under the big kernel lock, so
  an operation is a function of the whole state; \<open>me\<close> is the core it runs on.  \<open>None\<close> is a
  kernel panic (a failed \<open>expect\<close>); slots, cores and endpoint ids are table indices,
  which the invariant keeps in range.

  Hardware effects that carry no state here (loading CR3 and RSP0, the reschedule interrupt) are
  omitted; trap frames live in \<open>k_frames\<close> by kernel address, and the page unmappings an
  operation asks for are appended to \<open>k_unmaps\<close> as (address space, virtual address) pairs.
\<close>

section \<open>State\<close>

datatype proc_state = Empty | Ready | Running | Blocked

text \<open>The fifteen general registers in push order, then the interrupt-return frame.\<close>

record trap_frame =
  tf_gp :: "u64 list"
  tf_rip :: u64
  tf_cs :: u64
  tf_rflags :: u64
  tf_rsp :: u64
  tf_ss :: u64

definition GP_RAX :: nat where "GP_RAX = 0"
definition GP_RDX :: nat where "GP_RDX = 3"
definition GP_RSI :: nat where "GP_RSI = 4"
definition GP_RDI :: nat where "GP_RDI = 5"

record slot =
  sl_state :: proc_state
  sl_process :: "process option"
  sl_rsp :: u64
  sl_boot_frames :: "(u64 \<times> u64) option list"
  sl_msg :: u64
  sl_cap :: u64
  sl_call :: bool
  sl_landing :: u64

definition NO_CAP :: u64 where "NO_CAP = - 1"
definition MAX_PROCESSES :: nat where "MAX_PROCESSES = 4"
definition MAX_CORES :: nat where "MAX_CORES = 16"
definition QUANTUM :: u64 where "QUANTUM = 1"

definition slot_empty :: slot where
  "slot_empty = \<lparr>sl_state = Empty, sl_process = None, sl_rsp = 0,
     sl_boot_frames = replicate MAX_BOOT_FRAMES None, sl_msg = 0, sl_cap = - 1,
     sl_call = False, sl_landing = - 1\<rparr>"

record ring =
  rg_in_use :: bool
  rg_owner :: nat
  rg_sq_phys :: u64
  rg_cq_phys :: u64
  rg_mask :: u32
  rg_sq_head :: u32
  rg_cq_tail :: u32
  rg_waiting :: bool

definition ring_empty :: ring where
  "ring_empty = \<lparr>rg_in_use = False, rg_owner = 0, rg_sq_phys = 0, rg_cq_phys = 0, rg_mask = 0,
     rg_sq_head = 0, rg_cq_tail = 0, rg_waiting = False\<rparr>"

record kernel =
  k_table :: "slot list"
  k_links :: links
  k_current_slot :: "nat list"
  k_queues :: "nat option list list"
  k_next_home :: nat
  k_ticks :: "u64 list"
  k_launcher :: "bool list"
  k_steals :: nat
  k_active :: bool
  k_current :: "process option list"
  k_endpoints :: "endpoint list"
  k_rings :: "ring list"
  k_subs :: subs
  k_frames :: "u64 \<Rightarrow> trap_frame"
  k_mem :: "u64 \<Rightarrow> u8"
  k_alloc :: frame_alloc
  k_unmaps :: "(u64 \<times> u64) list"

abbreviation slot_of :: "kernel \<Rightarrow> nat \<Rightarrow> slot" where
  "slot_of k t \<equiv> k_table k ! t"

abbreviation state_of :: "kernel \<Rightarrow> nat \<Rightarrow> proc_state" where
  "state_of k t \<equiv> sl_state (k_table k ! t)"

definition set_slot :: "kernel \<Rightarrow> nat \<Rightarrow> slot \<Rightarrow> kernel" where
  "set_slot k t s = k\<lparr>k_table := (k_table k)[t := s]\<rparr>"

definition set_current :: "kernel \<Rightarrow> nat \<Rightarrow> process option \<Rightarrow> kernel" where
  "set_current k me p = k\<lparr>k_current := (k_current k)[me := p]\<rparr>"

definition current_slot :: "kernel \<Rightarrow> nat \<Rightarrow> nat" where
  "current_slot k me = k_current_slot k ! me"

text \<open>The statics at boot, over an allocator and the endpoint and ring tables, all empty.\<close>

definition kernel_init :: "frame_alloc \<Rightarrow> kernel" where
  "kernel_init fa =
     \<lparr>k_table = replicate MAX_PROCESSES slot_empty, k_links = replicate MAX_PROCESSES None,
      k_current_slot = replicate MAX_CORES 0,
      k_queues = replicate MAX_CORES (replicate MAX_PROCESSES None), k_next_home = 1,
      k_ticks = replicate MAX_CORES 0, k_launcher = replicate MAX_CORES False, k_steals = 0,
      k_active = False, k_current = replicate MAX_CORES None,
      k_endpoints = replicate MAX_ENDPOINTS ep_empty, k_rings = replicate MAX_RINGS ring_empty,
      k_subs = subs_new,
      k_frames = (\<lambda>_. \<lparr>tf_gp = replicate 15 0, tf_rip = 0, tf_cs = 0, tf_rflags = 0, tf_rsp = 0, tf_ss = 0\<rparr>),
      k_mem = (\<lambda>_. 0), k_alloc = fa, k_unmaps = []\<rparr>"

section \<open>Core queues\<close>

definition core_states :: "kernel \<Rightarrow> nat \<Rightarrow> proc_state list" where
  "core_states k me = map (\<lambda>e. case e of None \<Rightarrow> Empty | Some t \<Rightarrow> state_of k t) (k_queues k ! me)"

definition core_position :: "kernel \<Rightarrow> nat \<Rightarrow> nat \<Rightarrow> nat option" where
  "core_position k me t = position (\<lambda>e. e = Some t) (k_queues k ! me)"

definition core_table_slot :: "kernel \<Rightarrow> nat \<Rightarrow> nat \<Rightarrow> nat option" where
  "core_table_slot k me pos = k_queues k ! me ! pos"

definition push_to_core_queue :: "kernel \<Rightarrow> nat \<Rightarrow> nat \<Rightarrow> kernel option" where
  "push_to_core_queue k core t =
     (case position (\<lambda>e. e = None) (k_queues k ! core) of
        None \<Rightarrow> None
      | Some i \<Rightarrow> Some (k\<lparr>k_queues := (k_queues k)[core := (k_queues k ! core)[i := Some t]]\<rparr>))"

definition remove_from_core_queue :: "kernel \<Rightarrow> nat \<Rightarrow> nat \<Rightarrow> kernel option" where
  "remove_from_core_queue k core t =
     (case position (\<lambda>e. e = Some t) (k_queues k ! core) of
        None \<Rightarrow> None
      | Some i \<Rightarrow> Some (k\<lparr>k_queues := (k_queues k)[core := (k_queues k ! core)[i := None]]\<rparr>))"

text \<open>
  The search for the next online core, from the counter \<open>n\<close>; the result is the core and the
  counter to store.  Not returning is \<open>None\<close>.
\<close>

partial_function (option) next_home_core :: "(nat \<Rightarrow> bool) \<Rightarrow> nat \<Rightarrow> (nat \<times> nat) option" where
  "next_home_core online n =
     (let candidate = n mod MAX_CORES in
      if online candidate then Some (candidate, candidate + 1)
      else next_home_core online (candidate + 1))"

definition stealable :: "kernel \<Rightarrow> nat \<Rightarrow> nat option" where
  "stealable k donor =
     (case find (\<lambda>e. case e of None \<Rightarrow> False
                      | Some t \<Rightarrow> t \<noteq> k_current_slot k ! donor \<and> state_of k t = Ready)
             (k_queues k ! donor) of
        Some (Some t) \<Rightarrow> Some t
      | _ \<Rightarrow> None)"

text \<open>The result is the stolen slot, if any, beside the state; \<open>None\<close> is a panic.\<close>

fun steal_from :: "kernel \<Rightarrow> nat \<Rightarrow> nat list \<Rightarrow> (nat option \<times> kernel) option" where
  "steal_from k me [] = Some (None, k)"
| "steal_from k me (donor # donors) =
     (case stealable k donor of
        None \<Rightarrow> steal_from k me donors
      | Some t \<Rightarrow>
          Option.bind (remove_from_core_queue k donor t) (\<lambda>k1.
          Option.bind (push_to_core_queue k1 me t) (\<lambda>k2.
            Some (Some t, k2\<lparr>k_steals := k_steals k2 + 1\<rparr>))))"

definition try_steal :: "kernel \<Rightarrow> nat \<Rightarrow> (nat option \<times> kernel) option" where
  "try_steal k me = steal_from k me (map (\<lambda>off. (me + off) mod MAX_CORES) [1..<MAX_CORES])"

definition pick_next :: "proc_state list \<Rightarrow> nat \<Rightarrow> nat option" where
  "pick_next states cur =
     find (\<lambda>i. states ! i = Ready) (map (\<lambda>off. (cur + off) mod MAX_PROCESSES) [1..<MAX_PROCESSES])"

definition first_claimable_slot :: "kernel \<Rightarrow> nat \<Rightarrow> nat option" where
  "first_claimable_slot k me =
     (case position (\<lambda>s. s = Ready) (core_states k me) of
        None \<Rightarrow> None
      | Some pos \<Rightarrow> core_table_slot k me pos)"

definition find_free_slot :: "kernel \<Rightarrow> nat option" where
  "find_free_slot k = position (\<lambda>s. sl_state s = Empty) (k_table k)"

definition table_entirely_empty :: "kernel \<Rightarrow> bool" where
  "table_entirely_empty k \<longleftrightarrow> (\<forall>s \<in> set (k_table k). sl_state s = Empty)"

section \<open>Switching\<close>

definition quantum_expired :: "kernel \<Rightarrow> nat \<Rightarrow> bool \<times> kernel" where
  "quantum_expired k me =
     (let n = k_ticks k ! me + 1 in
      if QUANTUM \<le> n then (True, k\<lparr>k_ticks := (k_ticks k)[me := 0]\<rparr>)
      else (False, k\<lparr>k_ticks := (k_ticks k)[me := n]\<rparr>))"

text \<open>Put the process of a Ready slot on the core; also returns the frame to resume.\<close>

definition resume_process :: "kernel \<Rightarrow> nat \<Rightarrow> nat \<Rightarrow> (u64 \<times> kernel) option" where
  "resume_process k me next =
     (case sl_process (slot_of k next) of
        None \<Rightarrow> None
      | Some p \<Rightarrow>
          let k1 = set_slot k next ((slot_of k next)\<lparr>sl_process := None, sl_state := Running\<rparr>);
              k2 = set_current k1 me (Some p)
          in Some (sl_rsp (slot_of k next), k2\<lparr>k_current_slot := (k_current_slot k2)[me := next]\<rparr>))"

text \<open>Park the running process of the core in its slot, saving its frame.\<close>

definition park :: "kernel \<Rightarrow> nat \<Rightarrow> u64 \<Rightarrow> proc_state \<Rightarrow> kernel option" where
  "park k me frame_ptr st =
     (case k_current k ! me of
        None \<Rightarrow> None
      | Some p \<Rightarrow>
          let cur = k_current_slot k ! me in
          Some (set_current
            (set_slot k cur ((slot_of k cur)\<lparr>sl_rsp := frame_ptr, sl_process := Some p, sl_state := st\<rparr>))
            me None))"

text \<open>The timer interrupt: the frame to resume, and the state.\<close>

definition timer_tick :: "kernel \<Rightarrow> nat \<Rightarrow> u64 \<Rightarrow> (u64 \<times> kernel) option" where
  "timer_tick k me frame_ptr =
     (if tf_cs (k_frames k frame_ptr) AND 3 \<noteq> 3 then Some (frame_ptr, k)
      else let (expired, k0) = quantum_expired k me in
      if \<not> expired \<or> \<not> k_active k0 then Some (frame_ptr, k0)
      else Option.bind (core_position k0 me (k_current_slot k0 ! me)) (\<lambda>cur_pos.
        case pick_next (core_states k0 me) cur_pos of
          None \<Rightarrow> Some (frame_ptr, k0)
        | Some next_pos \<Rightarrow>
            Option.bind (core_table_slot k0 me next_pos) (\<lambda>next.
            Option.bind (park k0 me frame_ptr Ready) (\<lambda>k1.
              resume_process k1 me next))))"

text \<open>\<open>block_current\<close> up to the switch: the queue position to scan from, and the state.\<close>

definition block_current :: "kernel \<Rightarrow> nat \<Rightarrow> u64 \<Rightarrow> (nat \<times> kernel) option" where
  "block_current k me frame_ptr =
     Option.bind (core_position k me (k_current_slot k ! me)) (\<lambda>cur_pos.
     Option.bind (park k me frame_ptr Blocked) (\<lambda>k1. Some (cur_pos, k1)))"

datatype on_idle = ExitedReturnIfDone | BlockedDeadlockIfNoOtherWork

text \<open>
  How one pass of \<open>switch_to_next\<close>'s loop ends: a process resumed from a frame, the core handed to
  its idle loop, a wait for the devices (with the synthetic input delivered first when an input
  waiter exists), the launcher returning to its caller, or a halt until the next wake.
\<close>

datatype switch = Resumed u64 | ApIdle | IdleDevices bool | ReturnToLauncher | HaltAndRetry

definition switch_resume :: "kernel \<Rightarrow> nat \<Rightarrow> nat \<Rightarrow> (switch \<times> kernel) option" where
  "switch_resume k me next = map_option (\<lambda>(rsp, k'). (Resumed rsp, k')) (resume_process k me next)"

definition switch_idle :: "kernel \<Rightarrow> nat \<Rightarrow> bool \<Rightarrow> bool \<Rightarrow> switch" where
  "switch_idle k me input_waiter disk_waiter =
     (if input_waiter \<or> disk_waiter then IdleDevices input_waiter
      else if table_entirely_empty k
        then (if k_launcher k ! me then ReturnToLauncher else ApIdle)
      else HaltAndRetry)"

definition switch_to_next ::
    "kernel \<Rightarrow> nat \<Rightarrow> nat \<Rightarrow> on_idle \<Rightarrow> bool \<Rightarrow> bool \<Rightarrow> (switch \<times> kernel) option" where
  "switch_to_next k me cur_pos idle input_waiter disk_waiter =
     (let states = core_states k me in
      case pick_next states cur_pos of
        Some next_pos \<Rightarrow> Option.bind (core_table_slot k me next_pos) (switch_resume k me)
      | None \<Rightarrow>
          if states ! cur_pos = Ready then Option.bind (core_table_slot k me cur_pos) (switch_resume k me)
          else if idle = ExitedReturnIfDone \<and> \<not> k_launcher k ! me then Some (ApIdle, k)
          else if idle = ExitedReturnIfDone
            then Option.bind (try_steal k me) (\<lambda>(stolen, k').
              case stolen of
                Some t \<Rightarrow> switch_resume k' me t
              | None \<Rightarrow> Some (switch_idle k' me input_waiter disk_waiter, k'))
          else Some (switch_idle k me input_waiter disk_waiter, k))"

text \<open>
  One pass of an idle core's loop, \<open>ap_idle_loop\<close> and \<open>idle_until_runnable\<close> before they halt:
  resume whatever the own queue or a steal offers.
\<close>

definition idle_pass :: "kernel \<Rightarrow> nat \<Rightarrow> (switch \<times> kernel) option" where
  "idle_pass k me =
     (case first_claimable_slot k me of
        Some t \<Rightarrow> switch_resume k me t
      | None \<Rightarrow>
          Option.bind (try_steal k me) (\<lambda>(stolen, k').
            case stolen of
              Some t \<Rightarrow> switch_resume k' me t
            | None \<Rightarrow> Some (HaltAndRetry, k')))"

section \<open>Blocking support\<close>

definition set_pending :: "kernel \<Rightarrow> nat \<Rightarrow> u64 \<Rightarrow> u64 \<Rightarrow> bool \<Rightarrow> kernel" where
  "set_pending k t msg cap is_call =
     set_slot k t ((slot_of k t)\<lparr>sl_msg := msg, sl_cap := cap, sl_call := is_call\<rparr>)"

definition take_pending :: "kernel \<Rightarrow> nat \<Rightarrow> u64" where
  "take_pending k t = sl_msg (slot_of k t)"

definition take_pending_cap :: "kernel \<Rightarrow> nat \<Rightarrow> u64" where
  "take_pending_cap k t = sl_cap (slot_of k t)"

definition take_pending_call :: "kernel \<Rightarrow> nat \<Rightarrow> bool" where
  "take_pending_call k t = sl_call (slot_of k t)"

definition set_reclaim_landing :: "kernel \<Rightarrow> nat \<Rightarrow> u64 \<Rightarrow> kernel" where
  "set_reclaim_landing k t landing =
     (if sl_landing (slot_of k t) = NO_CAP
      then set_slot k t ((slot_of k t)\<lparr>sl_landing := landing\<rparr>) else k)"

definition take_reclaim_landing :: "kernel \<Rightarrow> nat \<Rightarrow> u64 \<times> kernel" where
  "take_reclaim_landing k t =
     (sl_landing (slot_of k t), set_slot k t ((slot_of k t)\<lparr>sl_landing := NO_CAP\<rparr>))"

definition is_blocked :: "kernel \<Rightarrow> nat \<Rightarrow> bool" where
  "is_blocked k t \<longleftrightarrow> state_of k t = Blocked"

definition set_gp :: "trap_frame \<Rightarrow> nat \<Rightarrow> u64 \<Rightarrow> trap_frame" where
  "set_gp f r v = f\<lparr>tf_gp := (tf_gp f)[r := v]\<rparr>"

definition wake_with :: "kernel \<Rightarrow> nat \<Rightarrow> u64 \<Rightarrow> u64 \<Rightarrow> u64 \<Rightarrow> kernel" where
  "wake_with k t status payload landing =
     (let a = sl_rsp (slot_of k t);
          f = set_gp (set_gp (set_gp (k_frames k a) GP_RAX status) GP_RSI payload) GP_RDX landing
      in (set_slot k t ((slot_of k t)\<lparr>sl_state := Ready\<rparr>))\<lparr>k_frames := (k_frames k)(a := f)\<rparr>)"

definition set_caps :: "slot \<Rightarrow> process \<Rightarrow> cap_table \<Rightarrow> slot" where
  "set_caps s p t = s\<lparr>sl_process := Some (p\<lparr>p_caps := t\<rparr>)\<rparr>"

definition install_into_blocked_home ::
    "kernel \<Rightarrow> nat \<Rightarrow> capability \<Rightarrow> origin option \<Rightarrow> (nat \<times> kernel) option" where
  "install_into_blocked_home k t c prior =
     (case sl_process (slot_of k t) of
        None \<Rightarrow> None
      | Some p \<Rightarrow>
          (case install_home (p_caps p) c prior t of
             None \<Rightarrow> None
           | Some (i, caps) \<Rightarrow> Some (i, set_slot k t (set_caps (slot_of k t) p caps))))"

definition install_into_blocked :: "kernel \<Rightarrow> nat \<Rightarrow> capability \<Rightarrow> (nat \<times> kernel) option" where
  "install_into_blocked k t c =
     (case sl_process (slot_of k t) of
        None \<Rightarrow> None
      | Some p \<Rightarrow>
          (case install (p_caps p) c of
             Inl _ \<Rightarrow> None
           | Inr (i, caps) \<Rightarrow> Some (i, set_slot k t (set_caps (slot_of k t) p caps))))"

definition revoke_from_blocked :: "kernel \<Rightarrow> nat \<Rightarrow> nat \<Rightarrow> (capability \<times> kernel) option" where
  "revoke_from_blocked k t slot =
     (case sl_process (slot_of k t) of
        None \<Rightarrow> None
      | Some p \<Rightarrow>
          (case revoke_and_unmap_for_lend p slot of
             None \<Rightarrow> None
           | Some (c, p', us) \<Rightarrow>
               Some (c, (set_slot k t ((slot_of k t)\<lparr>sl_process := Some p'\<rparr>))
                          \<lparr>k_unmaps := k_unmaps k @ map (Pair (p_l4 p)) us\<rparr>)))"


section \<open>Reaching a capability table wherever its process is\<close>

text \<open>
  A suspended process is in its slot, a running one in its core's \<open>k_current\<close>: the first core
  whose current slot is the process's and which runs one.
\<close>

datatype place = InTable | OnCore nat

definition lender_place :: "kernel \<Rightarrow> nat \<Rightarrow> place option" where
  "lender_place k t =
     (if t < length (k_table k) \<and> sl_process (slot_of k t) \<noteq> None then Some InTable
      else map_option OnCore
        (find (\<lambda>c. k_current_slot k ! c = t \<and> k_current k ! c \<noteq> None) [0..<MAX_CORES]))"

definition process_at :: "kernel \<Rightarrow> nat \<Rightarrow> place \<Rightarrow> process option" where
  "process_at k t pl = (case pl of InTable \<Rightarrow> sl_process (slot_of k t) | OnCore c \<Rightarrow> k_current k ! c)"

definition set_process_at :: "kernel \<Rightarrow> nat \<Rightarrow> place \<Rightarrow> process \<Rightarrow> kernel" where
  "set_process_at k t pl p =
     (case pl of
        InTable \<Rightarrow> set_slot k t ((slot_of k t)\<lparr>sl_process := Some p\<rparr>)
      | OnCore c \<Rightarrow> set_current k c (Some p))"

text \<open>
  \<open>with_lender_caps\<close>: \<open>None\<close> when no live process occupies the slot, otherwise the closure's
  result beside the state with the table it left.
\<close>

definition with_lender_caps ::
    "kernel \<Rightarrow> nat \<Rightarrow> (cap_table \<Rightarrow> 'r \<times> cap_table) \<Rightarrow> ('r \<times> kernel) option" where
  "with_lender_caps k t f =
     (case lender_place k t of
        None \<Rightarrow> None
      | Some pl \<Rightarrow>
          (case process_at k t pl of
             None \<Rightarrow> None
           | Some p \<Rightarrow>
               let (r, caps) = f (p_caps p) in
               Some (r, set_process_at k t pl (p\<lparr>p_caps := caps\<rparr>))))"

datatype reclaim_home = Landed nat | LenderFull | NoLender

definition reclaim_into :: "nat \<Rightarrow> capability \<Rightarrow> cap_table \<Rightarrow> nat option \<times> cap_table" where
  "reclaim_into home_slot c t =
     (case reclaim_to t home_slot c of
        Some (i, t') \<Rightarrow> (Some i, t')
      | None \<Rightarrow> (case reclaim t c of Some (i, t') \<Rightarrow> (Some i, t') | None \<Rightarrow> (None, t)))"

definition reclaim_cap_home ::
    "kernel \<Rightarrow> capability \<Rightarrow> origin \<Rightarrow> capability \<Rightarrow> reclaim_home \<times> kernel" where
  "reclaim_cap_home k c og returning =
     (case with_lender_caps k (lender og) (reclaim_into (home og) returning) of
        None \<Rightarrow> (NoLender, k)
      | Some (None, k') \<Rightarrow> (LenderFull, k')
      | Some (Some i, k') \<Rightarrow>
          (Landed i, k'\<lparr>k_endpoints :=
             note_cap_added (note_cap_removed (k_endpoints k') c False) returning\<rparr>))"

text \<open>One borrowed capability of the dying process; the death path records where it landed.\<close>

definition reclaim_one :: "nat \<Rightarrow> kernel \<Rightarrow> capability \<Rightarrow> kernel" where
  "reclaim_one dying_slot k c =
     (case reclaim_target c dying_slot of
        None \<Rightarrow> k
      | Some (og, returning) \<Rightarrow>
          (case reclaim_cap_home k c og returning of
             (Landed i, k') \<Rightarrow> set_reclaim_landing k' (lender og) (of_nat i)
           | (_, k') \<Rightarrow> k'))"

definition reclaim_lent_caps :: "kernel \<Rightarrow> cap_table \<Rightarrow> nat \<Rightarrow> kernel" where
  "reclaim_lent_caps k dying dying_slot = foldl (reclaim_one dying_slot) k (ct_iter dying)"

definition clear_origin_proc :: "nat \<Rightarrow> process option \<Rightarrow> process option" where
  "clear_origin_proc t = map_option (\<lambda>p. p\<lparr>p_caps := snd (clear_origin (p_caps p) t)\<rparr>)"

definition cleared_in :: "nat \<Rightarrow> process option \<Rightarrow> nat" where
  "cleared_in t po = (case po of None \<Rightarrow> 0 | Some p \<Rightarrow> fst (clear_origin (p_caps p) t))"

definition clear_origins_naming :: "kernel \<Rightarrow> nat \<Rightarrow> nat \<times> kernel" where
  "clear_origins_naming k t =
     (sum_list (map (cleared_in t \<circ> sl_process) (k_table k)) + sum_list (map (cleared_in t) (k_current k)),
      k\<lparr>k_table := map (\<lambda>s. s\<lparr>sl_process := clear_origin_proc t (sl_process s)\<rparr>) (k_table k),
        k_current := map (clear_origin_proc t) (k_current k)\<rparr>)"

section \<open>Death\<close>

text \<open>\<open>rings::release\<close>.\<close>

definition ring_release :: "kernel \<Rightarrow> nat \<Rightarrow> kernel" where
  "ring_release k i =
     (let k1 = (if i < MAX_RINGS then k\<lparr>k_rings := (k_rings k)[i := ring_empty]\<rparr> else k) in
      k1\<lparr>k_subs := release_ring (k_subs k1) i\<rparr>)"

definition dealloc_frame :: "kernel \<Rightarrow> u64 \<Rightarrow> kernel" where
  "dealloc_frame k addr =
     (case dealloc (k_alloc k) addr of Inl _ \<Rightarrow> k | Inr fa \<Rightarrow> k\<lparr>k_alloc := fa\<rparr>)"

definition teardown_cap :: "kernel \<Rightarrow> capability \<Rightarrow> kernel" where
  "teardown_cap k c =
     (case release_action_of c of
        FreeFrame addr \<Rightarrow> dealloc_frame k addr
      | ReleaseRing i \<Rightarrow> ring_release k i
      | DropEndpoint \<Rightarrow> k\<lparr>k_endpoints := note_cap_removed (k_endpoints k) c True\<rparr>
      | UnmapFramebuffer \<Rightarrow> k
      | ReclaimTo _ \<Rightarrow> k
      | DropSlot \<Rightarrow> k
      | UnbindDevice _ \<Rightarrow> k
      | Refuse \<Rightarrow> k)"

definition unmap :: "u64 \<Rightarrow> kernel \<Rightarrow> u64 \<Rightarrow> kernel" where
  "unmap l4 k va = k\<lparr>k_unmaps := k_unmaps k @ [(l4, va)]\<rparr>"

definition teardown_boot :: "u64 \<Rightarrow> kernel \<Rightarrow> u64 \<times> u64 \<Rightarrow> kernel" where
  "teardown_boot l4 k e = dealloc_frame (unmap l4 k (fst e)) (snd e)"

definition teardown :: "kernel \<Rightarrow> process \<Rightarrow> (u64 \<times> u64) option list \<Rightarrow> kernel" where
  "teardown k p boot_frames =
     (let l4 = p_l4 p;
          k1 = foldl (unmap l4) k (map fst (List.map_filter id (p_maps p)));
          k2 = foldl teardown_cap k1 (fst (drain (p_caps p)))
      in foldl (teardown_boot l4) k2 (List.map_filter id boot_frames))"

end
