(* ===== verification/Scheduler.thy ===== *)
theory Scheduler
  imports Kernel
begin

text \<open>
  Correctness of the scheduler of \<open>Kernel\<close>: the invariant that ties the process table, the
  per-core queues and the running processes together, its preservation by every switch, steal,
  block and wake, and the round-robin policy.
\<close>

section \<open>The invariant\<close>

definition opt_mset :: "'a option \<Rightarrow> 'a multiset" where
  "opt_mset e = (case e of None \<Rightarrow> {#} | Some t \<Rightarrow> {#t#})"

definition queue_mset :: "nat option list \<Rightarrow> nat multiset" where
  "queue_mset q = sum_list (map opt_mset q)"

definition queued :: "kernel \<Rightarrow> nat multiset" where
  "queued k = sum_list (map queue_mset (k_queues k))"

definition live :: "kernel \<Rightarrow> nat set" where
  "live k = {t. t < MAX_PROCESSES \<and> state_of k t \<noteq> Empty}"

definition homed :: "kernel \<Rightarrow> nat \<Rightarrow> nat \<Rightarrow> bool" where
  "homed k c t \<longleftrightarrow> Some t \<in> set (k_queues k ! c)"

definition runs_on :: "kernel \<Rightarrow> nat \<Rightarrow> nat \<Rightarrow> bool" where
  "runs_on k c t \<longleftrightarrow> k_current k ! c \<noteq> None \<and> k_current_slot k ! c = t"

definition shape :: "kernel \<Rightarrow> bool" where
  "shape k \<longleftrightarrow> length (k_table k) = MAX_PROCESSES \<and> length (k_current k) = MAX_CORES \<and>
     length (k_current_slot k) = MAX_CORES \<and> length (k_queues k) = MAX_CORES \<and>
     (\<forall>q \<in> set (k_queues k). length q = MAX_PROCESSES)"

text \<open>
  Every live process is in exactly one queue, once, and nothing else is queued; a process value
  is in its slot exactly while the process is suspended; each core's running process is homed
  there, and every Running process runs on some core.
\<close>

definition sched_wf :: "kernel \<Rightarrow> bool" where
  "sched_wf k \<longleftrightarrow> shape k \<and> queued k = mset_set (live k) \<and>
     (\<forall>t < MAX_PROCESSES. sl_process (slot_of k t) \<noteq> None \<longleftrightarrow> state_of k t \<in> {Ready, Blocked}) \<and>
     (\<forall>c < MAX_CORES. \<forall>t. runs_on k c t \<longrightarrow> t < MAX_PROCESSES \<and> state_of k t = Running \<and> homed k c t) \<and>
     (\<forall>t < MAX_PROCESSES. state_of k t = Running \<longrightarrow> (\<exists>c < MAX_CORES. runs_on k c t))"

lemma sched_wfD:
  assumes "sched_wf k"
  shows "shape k" and "queued k = mset_set (live k)"
    and "\<And>t. t < MAX_PROCESSES \<Longrightarrow> sl_process (slot_of k t) \<noteq> None \<longleftrightarrow> state_of k t \<in> {Ready, Blocked}"
    and "\<And>c t. c < MAX_CORES \<Longrightarrow> runs_on k c t \<Longrightarrow> t < MAX_PROCESSES \<and> state_of k t = Running \<and> homed k c t"
    and "\<And>t. t < MAX_PROCESSES \<Longrightarrow> state_of k t = Running \<Longrightarrow> \<exists>c < MAX_CORES. runs_on k c t"
  using assms unfolding sched_wf_def by blast+

lemma finite_live [simp]: "finite (live k)"
  by (simp add: live_def)

lemma card_live: "card (live k) \<le> MAX_PROCESSES"
proof -
  have "card (live k) \<le> card {..< MAX_PROCESSES}" by (rule card_mono) (auto simp: live_def)
  then show ?thesis by simp
qed

section \<open>Queues as multisets\<close>

lemma opt_mset_simps [simp]: "opt_mset None = {#}" "opt_mset (Some t) = {#t#}"
  by (simp_all add: opt_mset_def)

lemma in_queue_mset: "t \<in># queue_mset q \<longleftrightarrow> Some t \<in> set q"
  by (induction q) (auto simp: queue_mset_def opt_mset_def split: option.splits)

lemma in_queued: "t \<in># queued k \<longleftrightarrow> (\<exists>q \<in> set (k_queues k). Some t \<in> set q)"
proof -
  have "t \<in># sum_list (map queue_mset qs) \<longleftrightarrow> (\<exists>q \<in> set qs. Some t \<in> set q)" for qs
    by (induction qs) (auto simp: in_queue_mset)
  then show ?thesis by (simp add: queued_def)
qed

lemma homed_queued: "shape k \<Longrightarrow> c < MAX_CORES \<Longrightarrow> homed k c t \<Longrightarrow> t \<in># queued k"
  by (auto simp: in_queued homed_def shape_def)

lemma queue_mset_update:
  "i < length q \<Longrightarrow> queue_mset (q[i := e]) + opt_mset (q ! i) = queue_mset q + opt_mset e"
  unfolding queue_mset_def by (rule sum_list_map_update)

lemma queued_update:
  "c < length (k_queues k) \<Longrightarrow>
   queued (k\<lparr>k_queues := (k_queues k)[c := q]\<rparr>) + queue_mset (k_queues k ! c) = queued k + queue_mset q"
  unfolding queued_def using sum_list_map_update[of c "k_queues k" queue_mset q] by simp

lemma queue_mset_sub: "c < length (k_queues k) \<Longrightarrow> queue_mset (k_queues k ! c) \<subseteq># queued k"
proof -
  have "i < length qs \<Longrightarrow> queue_mset (qs ! i) \<subseteq># sum_list (map queue_mset qs)" for i qs
  proof (induction qs arbitrary: i)
    case (Cons q qs)
    then show ?case by (cases i) (auto intro: subset_mset.add_increasing)
  qed simp
  then show "c < length (k_queues k) \<Longrightarrow> queue_mset (k_queues k ! c) \<subseteq># queued k"
    by (simp add: queued_def)
qed

lemma full_queue_size: "None \<notin> set q \<Longrightarrow> size (queue_mset q) = length q"
proof (induction q)
  case Nil
  then show ?case by (simp add: queue_mset_def)
next
  case (Cons e q)
  then show ?case by (cases e) (simp_all add: queue_mset_def)
qed

lemma queued_pair:
  "c < length qs \<Longrightarrow> d < length qs \<Longrightarrow> c \<noteq> d \<Longrightarrow>
   queue_mset (qs ! c) + queue_mset (qs ! d) \<subseteq># sum_list (map queue_mset qs)"
proof (induction qs arbitrary: c d)
  case (Cons q qs)
  have sub: "i < length qs \<Longrightarrow> queue_mset (qs ! i) \<subseteq># sum_list (map queue_mset qs)" for i
  proof -
    have "i < length xs \<Longrightarrow> queue_mset (xs ! i) \<subseteq># sum_list (map queue_mset xs)" for i xs
    proof (induction xs arbitrary: i)
      case (Cons q qs)
      then show ?case by (cases i) (auto intro: subset_mset.add_increasing)
    qed simp
    then show "i < length qs \<Longrightarrow> queue_mset (qs ! i) \<subseteq># sum_list (map queue_mset qs)" .
  qed
  show ?case
  proof (cases c)
    case 0
    then obtain d' where "d = Suc d'" using Cons.prems by (cases d) auto
    then show ?thesis using 0 sub[of d'] Cons.prems by simp
  next
    case c: (Suc c')
    show ?thesis
    proof (cases d)
      case 0
      then show ?thesis using c sub[of c'] Cons.prems by (simp add: add.commute)
    next
      case (Suc d')
      then have "queue_mset (qs ! c') + queue_mset (qs ! d') \<subseteq># sum_list (map queue_mset qs)"
        using Cons c by simp
      then show ?thesis using c Suc by (simp add: subset_mset.add_increasing)
    qed
  qed
qed simp

text \<open>The home of a live process is unique.\<close>

lemma homed_unique:
  assumes "sched_wf k" "c < MAX_CORES" "d < MAX_CORES" "homed k c t" "homed k d t"
  shows "c = d"
proof (rule ccontr)
  assume "c \<noteq> d"
  then have sub: "queue_mset (k_queues k ! c) + queue_mset (k_queues k ! d) \<subseteq># queued k"
    using queued_pair[of c "k_queues k" d] assms(2,3) sched_wfD(1)[OF assms(1)]
    unfolding queued_def by (simp add: shape_def)
  moreover have "1 \<le> count (queue_mset (k_queues k ! c)) t" "1 \<le> count (queue_mset (k_queues k ! d)) t"
    using assms(4,5) by (simp_all add: homed_def in_queue_mset[symmetric] Suc_le_eq)
  ultimately have "2 \<le> count (queued k) t"
    using mset_subset_eq_count[OF sub, of t] unfolding count_union by linarith
  moreover have "count (queued k) t \<le> 1"
    using sched_wfD(2)[OF assms(1)] by (simp add: count_mset_set')
  ultimately show False by simp
qed

lemma live_homed:
  assumes "sched_wf k" "t \<in> live k"
  shows "\<exists>c < MAX_CORES. homed k c t"
proof -
  have "t \<in># queued k" using assms sched_wfD(2)[OF assms(1)] by simp
  then obtain q where "q \<in> set (k_queues k)" "Some t \<in> set q" by (auto simp: in_queued)
  then obtain c where "c < length (k_queues k)" "k_queues k ! c = q" by (auto simp: in_set_conv_nth)
  then show ?thesis using \<open>Some t \<in> set q\<close> sched_wfD(1)[OF assms(1)] unfolding homed_def shape_def by metis
qed

lemma homed_live: "sched_wf k \<Longrightarrow> c < MAX_CORES \<Longrightarrow> homed k c t \<Longrightarrow> t \<in> live k"
  using homed_queued[of k c t] sched_wfD(1,2)[of k] by simp

lemma runs_on_unique:
  assumes "sched_wf k" "c < MAX_CORES" "d < MAX_CORES" "runs_on k c t" "runs_on k d t"
  shows "c = d"
  using sched_wfD(4)[OF assms(1)] assms homed_unique by blast

section \<open>Queue operations\<close>

lemma shape_queue_update:
  assumes "shape k" "length q = MAX_PROCESSES"
  shows "shape (k\<lparr>k_queues := (k_queues k)[c := q]\<rparr>)"
proof -
  have "length x = MAX_PROCESSES" if "x \<in> set ((k_queues k)[c := q])" for x
    using that assms set_update_subset_insert[of "k_queues k" c q] by (auto simp: shape_def)
  then show ?thesis using assms(1) by (simp add: shape_def)
qed

lemma set_update_Some:
  assumes "i < length q" and "q ! i = None"
  shows "Some u \<in> set (q[i := Some t]) \<longleftrightarrow> u = t \<or> Some u \<in> set q"
proof
  assume "Some u \<in> set (q[i := Some t])"
  then show "u = t \<or> Some u \<in> set q" using set_update_subset_insert[of q i "Some t"] by auto
next
  assume "u = t \<or> Some u \<in> set q"
  then show "Some u \<in> set (q[i := Some t])"
  proof
    assume "u = t"
    then show ?thesis using set_update_memI[OF assms(1)] by simp
  next
    assume "Some u \<in> set q"
    then obtain j where "j < length q" "q ! j = Some u" by (auto simp: in_set_conv_nth)
    moreover have "j \<noteq> i" using calculation assms(2) by auto
    ultimately show ?thesis by (metis length_list_update nth_list_update_neq nth_mem)
  qed
qed

lemma set_update_None:
  assumes "i < length q" and "q ! i = Some t" and "u \<noteq> t"
  shows "Some u \<in> set (q[i := None]) \<longleftrightarrow> Some u \<in> set q"
proof
  assume "Some u \<in> set (q[i := None])"
  then show "Some u \<in> set q" using set_update_subset_insert[of q i None] by auto
next
  assume "Some u \<in> set q"
  then obtain j where "j < length q" "q ! j = Some u" by (auto simp: in_set_conv_nth)
  moreover have "j \<noteq> i" using calculation assms(2,3) by auto
  ultimately show "Some u \<in> set (q[i := None])" by (metis length_list_update nth_list_update_neq nth_mem)
qed

lemma remove_queue_Some:
  assumes "shape k" "c < MAX_CORES" "homed k c t"
  obtains k1 where "remove_from_core_queue k c t = Some k1" "add_mset t (queued k1) = queued k"
    "shape k1" "k1 = k\<lparr>k_queues := k_queues k1\<rparr>" "\<And>d. d \<noteq> c \<Longrightarrow> k_queues k1 ! d = k_queues k ! d"
    "\<And>u. u \<noteq> t \<Longrightarrow> homed k1 c u = homed k c u"
proof -
  let ?q = "k_queues k ! c"
  have c: "c < length (k_queues k)" and lq: "length ?q = MAX_PROCESSES" using assms(1,2) by (auto simp: shape_def)
  obtain i where i: "position (\<lambda>e. e = Some t) ?q = Some i"
    using assms(3) position_exists[of "Some t" ?q "\<lambda>e. e = Some t"] by (auto simp: homed_def)
  note P = position_SomeD[OF i]
  let ?k1 = "k\<lparr>k_queues := (k_queues k)[c := ?q[i := None]]\<rparr>"
  have r: "remove_from_core_queue k c t = Some ?k1" using i by (simp add: remove_from_core_queue_def)
  have A: "queue_mset (?q[i := None]) + {#t#} = queue_mset ?q"
    using queue_mset_update[OF P(1), of None] P(2) by simp
  have B: "queued ?k1 + queue_mset ?q = queued k + queue_mset (?q[i := None])"
    using queued_update[OF c] by simp
  have "queued ?k1 + {#t#} + queue_mset (?q[i := None]) = queued k + queue_mset (?q[i := None])"
    using B unfolding A[symmetric] by (simp only: ac_simps)
  then have "queued ?k1 + {#t#} = queued k" by (rule add_right_imp_eq)
  then have m: "add_mset t (queued ?k1) = queued k" by simp
  have s: "shape ?k1" by (rule shape_queue_update[OF assms(1)]) (simp add: lq)
  have h: "homed ?k1 c u = homed k c u" if "u \<noteq> t" for u
    using set_update_None[OF P(1), of t u] P(2) that c by (simp add: homed_def)
  show ?thesis by (rule that[OF r m s _ _ h]) simp_all
qed

lemma push_queue_Some:
  assumes "shape k" "c < MAX_CORES" "size (queued k) < MAX_PROCESSES"
  obtains k1 where "push_to_core_queue k c t = Some k1" "queued k1 = add_mset t (queued k)"
    "shape k1" "k1 = k\<lparr>k_queues := k_queues k1\<rparr>" "\<And>d. d \<noteq> c \<Longrightarrow> k_queues k1 ! d = k_queues k ! d"
    "\<And>u. homed k1 c u \<longleftrightarrow> u = t \<or> homed k c u"
proof -
  let ?q = "k_queues k ! c"
  have c: "c < length (k_queues k)" and lq: "length ?q = MAX_PROCESSES" using assms(1,2) by (auto simp: shape_def)
  have "None \<in> set ?q"
  proof (rule ccontr)
    assume "None \<notin> set ?q"
    then have "size (queue_mset ?q) = MAX_PROCESSES" using full_queue_size lq by metis
    then show False using size_mset_mono[OF queue_mset_sub[OF c]] assms(3) by simp
  qed
  then obtain i where i: "position (\<lambda>e. e = None) ?q = Some i"
    using position_exists[of None ?q "\<lambda>e. e = None"] by auto
  note P = position_SomeD[OF i]
  let ?k1 = "k\<lparr>k_queues := (k_queues k)[c := ?q[i := Some t]]\<rparr>"
  have r: "push_to_core_queue k c t = Some ?k1" using i by (simp add: push_to_core_queue_def)
  have "queue_mset (?q[i := Some t]) = queue_mset ?q + {#t#}"
    using queue_mset_update[OF P(1), of "Some t"] P(2) by simp
  moreover have "queued ?k1 + queue_mset ?q = queued k + queue_mset (?q[i := Some t])"
    using queued_update[OF c] by simp
  ultimately have m: "queued ?k1 = add_mset t (queued k)" by simp
  have s: "shape ?k1" by (rule shape_queue_update[OF assms(1)]) (simp add: lq)
  have h: "homed ?k1 c u \<longleftrightarrow> u = t \<or> homed k c u" for u
    using set_update_Some[OF P(1), of u t] P(2) c by (simp add: homed_def)
  show ?thesis by (rule that[OF r m s _ _ h]) simp_all
qed


text \<open>The invariant only reads the queues through the process table and the homes.\<close>

lemma core_position_iff: "(\<exists>i. core_position k c t = Some i) \<longleftrightarrow> homed k c t"
  using position_eq_Some_iff[of "\<lambda>e. e = Some t" "k_queues k ! c"]
  by (auto simp: core_position_def homed_def)

lemma core_states_nth:
  assumes "shape k" "c < MAX_CORES" "i < MAX_PROCESSES"
  shows "core_states k c ! i = (case core_table_slot k c i of None \<Rightarrow> Empty | Some t \<Rightarrow> state_of k t)"
proof -
  have "length (k_queues k ! c) = MAX_PROCESSES" using assms(1,2) by (simp add: shape_def)
  then show ?thesis using assms(3) by (simp add: core_states_def core_table_slot_def)
qed

lemma ready_position:
  assumes "shape k" "c < MAX_CORES" "i < MAX_PROCESSES" "core_states k c ! i = Ready"
  obtains t where "core_table_slot k c i = Some t" "homed k c t" "state_of k t = Ready"
proof -
  have l: "length (k_queues k ! c) = MAX_PROCESSES" using assms(1,2) by (simp add: shape_def)
  obtain t where t: "core_table_slot k c i = Some t" "state_of k t = Ready"
    using core_states_nth[OF assms(1-3)] assms(4) by (auto split: option.splits)
  then have "homed k c t" using l assms(3) by (auto simp: homed_def core_table_slot_def in_set_conv_nth)
  then show ?thesis using that t by blast
qed

section \<open>Round robin\<close>

lemma offsets: "[1..<MAX_PROCESSES] = [1, 2, 3]"
  by (simp add: MAX_PROCESSES_def upt_conv_Cons numeral_eq_Suc)

lemma pick_next_unfold:
  "pick_next states cur =
      (if states ! ((cur + 1) mod 4) = Ready then Some ((cur + 1) mod 4)
       else if states ! ((cur + 2) mod 4) = Ready then Some ((cur + 2) mod 4)
       else if states ! ((cur + 3) mod 4) = Ready then Some ((cur + 3) mod 4) else None)"
  unfolding pick_next_def offsets by (simp add: MAX_PROCESSES_def)

lemma pick_next_table:
  "pick_next s 0 = (if s ! 1 = Ready then Some 1 else if s ! 2 = Ready then Some 2
     else if s ! 3 = Ready then Some 3 else None)"
  "pick_next s 1 = (if s ! 2 = Ready then Some 2 else if s ! 3 = Ready then Some 3
     else if s ! 0 = Ready then Some 0 else None)"
  "pick_next s 2 = (if s ! 3 = Ready then Some 3 else if s ! 0 = Ready then Some 0
     else if s ! 1 = Ready then Some 1 else None)"
  "pick_next s 3 = (if s ! 0 = Ready then Some 0 else if s ! 1 = Ready then Some 1
     else if s ! 2 = Ready then Some 2 else None)"
proof -
  have m: "(0 + 1) mod 4 = (1 :: nat)" "(0 + 2) mod 4 = (2 :: nat)" "(0 + 3) mod 4 = (3 :: nat)"
    "(1 + 1) mod 4 = (2 :: nat)" "(1 + 2) mod 4 = (3 :: nat)" "(1 + 3) mod 4 = (0 :: nat)"
    "(2 + 1) mod 4 = (3 :: nat)" "(2 + 2) mod 4 = (0 :: nat)" "(2 + 3) mod 4 = (1 :: nat)"
    "(3 + 1) mod 4 = (0 :: nat)" "(3 + 2) mod 4 = (1 :: nat)" "(3 + 3) mod 4 = (2 :: nat)"
    by simp_all
  show "pick_next s 0 = (if s ! 1 = Ready then Some 1 else if s ! 2 = Ready then Some 2
     else if s ! 3 = Ready then Some 3 else None)"
    "pick_next s 1 = (if s ! 2 = Ready then Some 2 else if s ! 3 = Ready then Some 3
     else if s ! 0 = Ready then Some 0 else None)"
    "pick_next s 2 = (if s ! 3 = Ready then Some 3 else if s ! 0 = Ready then Some 0
     else if s ! 1 = Ready then Some 1 else None)"
    "pick_next s 3 = (if s ! 0 = Ready then Some 0 else if s ! 1 = Ready then Some 1
     else if s ! 2 = Ready then Some 2 else None)"
    unfolding pick_next_unfold m by (rule refl)+
qed

lemma pick_next_Some:
  assumes "pick_next states cur = Some i"
  shows "i < MAX_PROCESSES" and "states ! i = Ready"
  using assms by (auto simp: pick_next_unfold MAX_PROCESSES_def split: if_splits)

text \<open>The distance, going round, from one position to another.\<close>

definition ring_dist :: "nat \<Rightarrow> nat \<Rightarrow> nat" where
  "ring_dist cur i = (i + MAX_PROCESSES - cur) mod MAX_PROCESSES"

lemma pick_next_nearest:
  assumes "cur < MAX_PROCESSES"
  shows "(\<forall>i. pick_next states cur = Some i \<longrightarrow> i < MAX_PROCESSES \<and> i \<noteq> cur \<and> states ! i = Ready \<and>
            (\<forall>j < MAX_PROCESSES. j \<noteq> cur \<longrightarrow> states ! j = Ready \<longrightarrow> ring_dist cur i \<le> ring_dist cur j)) \<and>
         (pick_next states cur = None \<longleftrightarrow> (\<forall>j < MAX_PROCESSES. j \<noteq> cur \<longrightarrow> states ! j \<noteq> Ready))"
proof -
  have c: "cur = 0 \<or> cur = 1 \<or> cur = 2 \<or> cur = 3" using assms by (auto simp: MAX_PROCESSES_def)
  have all4: "(\<forall>j < MAX_PROCESSES. P j) \<longleftrightarrow> P 0 \<and> P 1 \<and> P 2 \<and> P 3" for P
    by (auto simp: MAX_PROCESSES_def less_Suc_eq numeral_eq_Suc)
  have d: "ring_dist 0 1 = 1" "ring_dist 0 2 = 2" "ring_dist 0 3 = 3" "ring_dist 1 2 = 1"
    "ring_dist 1 3 = 2" "ring_dist 1 0 = 3" "ring_dist 2 3 = 1" "ring_dist 2 0 = 2" "ring_dist 2 1 = 3"
    "ring_dist 3 0 = 1" "ring_dist 3 1 = 2" "ring_dist 3 2 = 3"
    by (simp_all add: ring_dist_def MAX_PROCESSES_def)
  have b: "(0::nat) < MAX_PROCESSES" "1 < MAX_PROCESSES" "2 < MAX_PROCESSES" "3 < MAX_PROCESSES"
    by (simp_all add: MAX_PROCESSES_def)
  show ?thesis
    unfolding all4
    using c by (elim disjE; simp add: pick_next_table d b del: One_nat_def)
qed

lemma pick_next_no_other:
  "cur < MAX_PROCESSES \<Longrightarrow> pick_next states cur = None \<Longrightarrow> j < MAX_PROCESSES \<Longrightarrow> j \<noteq> cur \<Longrightarrow> states ! j \<noteq> Ready"
  using pick_next_nearest[of cur states] by blast

text \<open>
  The round-robin choice is the nearest runnable process after the current one: it is a
  different position, it is Ready, no Ready position lies closer going round, and nothing is
  chosen exactly when no other position is Ready.  So a Ready position is passed over at most
  twice before it is chosen.
\<close>
lemma pick_next_round_robin:
  assumes "cur < MAX_PROCESSES"
  shows "(\<forall>i. pick_next states cur = Some i \<longrightarrow> i < MAX_PROCESSES \<and> i \<noteq> cur \<and> states ! i = Ready \<and>
            (\<forall>j < MAX_PROCESSES. j \<noteq> cur \<longrightarrow> states ! j = Ready \<longrightarrow> ring_dist cur i \<le> ring_dist cur j)) \<and>
         (pick_next states cur = None \<longleftrightarrow> (\<forall>j < MAX_PROCESSES. j \<noteq> cur \<longrightarrow> states ! j \<noteq> Ready))"
  by (rule pick_next_nearest[OF assms])

lemma pick_next_round_robin_witness:
  "pick_next [Ready, Running, Blocked, Ready] 1 = Some 3 \<and> [Ready, Running, Blocked, Ready] ! 3 = Ready"
proof
  show p: "pick_next [Ready, Running, Blocked, Ready] 1 = Some 3"
    by (simp add: pick_next_unfold)
  have "1 < MAX_PROCESSES" by (simp add: MAX_PROCESSES_def)
  from conjunct1[OF pick_next_round_robin[OF this]] p
  show "[Ready, Running, Blocked, Ready] ! 3 = Ready" by blast
qed


section \<open>Stealing\<close>

lemma stealable_Some:
  assumes "stealable k donor = Some t"
  shows "homed k donor t" and "t \<noteq> k_current_slot k ! donor" and "state_of k t = Ready"
proof -
  have "find (\<lambda>e. case e of None \<Rightarrow> False | Some t \<Rightarrow> t \<noteq> k_current_slot k ! donor \<and> state_of k t = Ready)
      (k_queues k ! donor) = Some (Some t)"
    using assms by (auto simp: stealable_def split: option.splits)
  then show "homed k donor t" "t \<noteq> k_current_slot k ! donor" "state_of k t = Ready"
    by (auto simp: homed_def dest: find_SomeD)
qed

lemma stealable_None:
  "stealable k donor = None \<longleftrightarrow>
     (\<forall>t. homed k donor t \<longrightarrow> t = k_current_slot k ! donor \<or> state_of k t \<noteq> Ready)"
proof -
  let ?P = "\<lambda>e. case e of None \<Rightarrow> False | Some t \<Rightarrow> t \<noteq> k_current_slot k ! donor \<and> state_of k t = Ready"
  have "stealable k donor = None \<longleftrightarrow> find ?P (k_queues k ! donor) = None"
  proof (cases "find ?P (k_queues k ! donor)")
    case None
    then show ?thesis by (simp add: stealable_def)
  next
    case (Some e)
    then obtain t where "e = Some t" using find_SomeD[OF Some] by (auto split: option.splits)
    then show ?thesis using Some by (simp add: stealable_def)
  qed
  then show ?thesis by (auto simp: find_None_iff homed_def split: option.splits)
qed

text \<open>A process moves from the queue of \<open>donor\<close> to that of \<open>me\<close> and nothing else changes.\<close>

definition moved :: "kernel \<Rightarrow> nat \<Rightarrow> nat \<Rightarrow> nat \<Rightarrow> kernel \<Rightarrow> bool" where
  "moved k donor me t k' \<longleftrightarrow>
     k' = k\<lparr>k_queues := k_queues k', k_steals := k_steals k + 1\<rparr> \<and> shape k' \<and> queued k' = queued k \<and>
     (\<forall>u. u \<noteq> t \<longrightarrow> (\<forall>c < MAX_CORES. homed k' c u = homed k c u)) \<and>
     homed k donor t \<and> homed k' me t \<and> donor \<noteq> me \<and> donor < MAX_CORES \<and>
     state_of k t = Ready \<and> t \<noteq> k_current_slot k ! donor"

lemma steal_step:
  assumes wf: "sched_wf k" and "me < MAX_CORES" "donor < MAX_CORES" "donor \<noteq> me"
    and st: "stealable k donor = Some t"
  shows "\<exists>k'. steal_from k me (donor # ds) = Some (Some t, k') \<and> moved k donor me t k'"
proof -
  note S = stealable_Some[OF st]
  obtain k1 where k1: "remove_from_core_queue k donor t = Some k1" "add_mset t (queued k1) = queued k"
    "shape k1" "k1 = k\<lparr>k_queues := k_queues k1\<rparr>" "\<And>d. d \<noteq> donor \<Longrightarrow> k_queues k1 ! d = k_queues k ! d"
    "\<And>u. u \<noteq> t \<Longrightarrow> homed k1 donor u = homed k donor u"
    using remove_queue_Some[OF sched_wfD(1)[OF wf] assms(3) S(1)] by metis
  have "size (queued k) \<le> MAX_PROCESSES" using sched_wfD(2)[OF wf] card_live[of k] by simp
  then have "size (queued k1) < MAX_PROCESSES" using k1(2) by (metis Suc_le_eq size_add_mset)
  then obtain k2 where k2: "push_to_core_queue k1 me t = Some k2" "queued k2 = add_mset t (queued k1)"
    "shape k2" "k2 = k1\<lparr>k_queues := k_queues k2\<rparr>" "\<And>d. d \<noteq> me \<Longrightarrow> k_queues k2 ! d = k_queues k1 ! d"
    "\<And>u. homed k2 me u \<longleftrightarrow> u = t \<or> homed k1 me u"
    using push_queue_Some[OF k1(3) assms(2), of t] by metis
  let ?k' = "k2\<lparr>k_steals := k_steals k2 + 1\<rparr>"
  have s: "steal_from k me (donor # ds) = Some (Some t, ?k')" using st k1(1) k2(1) by simp
  have h2: "homed k2 c u = homed k c u" if "u \<noteq> t" "c < MAX_CORES" for c u
    using k1(5)[of c] k1(6)[OF that(1)] k2(5)[of c] k2(6)[of u] that assms(4)
    by (cases "c = me"; cases "c = donor") (auto simp: homed_def)
  have st: "k_steals k2 = k_steals k" by (subst k2(4), subst k1(4)) simp
  have eq: "k2 = k\<lparr>k_queues := k_queues k2\<rparr>" by (subst k2(4), subst k1(4)) simp
  have "?k' = k\<lparr>k_queues := k_queues ?k', k_steals := k_steals k + 1\<rparr>"
    using arg_cong[OF eq, of "\<lambda>k. k\<lparr>k_steals := k_steals k2 + 1\<rparr>"] st by simp
  moreover have "shape ?k'" "queued ?k' = queued k" using k2(2,3) k1(2) by (simp_all add: shape_def queued_def)
  moreover have "homed ?k' c u = homed k2 c u" for c u by (simp add: homed_def)
  ultimately have "moved k donor me t ?k'"
    using h2 k2(6)[of t] S assms(3,4) by (auto simp: moved_def)
  then show ?thesis using s by blast
qed

lemma steal_from_cases:
  assumes "sched_wf k" "me < MAX_CORES" "\<forall>d \<in> set ds. d < MAX_CORES \<and> d \<noteq> me"
  shows "(\<forall>d \<in> set ds. stealable k d = None) \<and> steal_from k me ds = Some (None, k) \<or>
    (\<exists>d t k'. steal_from k me ds = Some (Some t, k') \<and> moved k d me t k')"
  using assms(3)
proof (induction ds)
  case Nil
  then show ?case by simp
next
  case (Cons d ds)
  show ?case
  proof (cases "stealable k d")
    case (Some t)
    then show ?thesis using steal_step[OF assms(1,2) _ _ Some, of ds] Cons.prems by auto
  next
    case None
    then have "steal_from k me (d # ds) = steal_from k me ds" by simp
    then show ?thesis using Cons None by simp
  qed
qed

lemma moved_wf:
  assumes "sched_wf k" "me < MAX_CORES" "moved k donor me t k'"
  shows "sched_wf k'"
proof -
  have k': "k' = k\<lparr>k_queues := k_queues k', k_steals := k_steals k + 1\<rparr>" using assms(3) by (simp add: moved_def)
  have e: "k_table k' = k_table k" "k_current k' = k_current k" "k_current_slot k' = k_current_slot k"
    by (subst k', simp)+
  have live: "live k' = live k" by (simp add: live_def e)
  have r: "runs_on k' c u = runs_on k c u" for c u by (simp add: runs_on_def e)
  note W = sched_wfD[OF assms(1)]
  have "u \<noteq> t" if "c < MAX_CORES" "runs_on k c u" for c u
    using W(4)[OF that] assms(3) by (auto simp: moved_def)
  then have "\<forall>c < MAX_CORES. \<forall>u. runs_on k' c u \<longrightarrow> u < MAX_PROCESSES \<and> state_of k' u = Running \<and> homed k' c u"
    using W(4) assms(3) by (auto simp: moved_def r e)
  moreover have "queued k' = mset_set (live k')" using assms(3) W(2) by (simp add: moved_def live)
  moreover have "shape k'" using assms(3) by (simp add: moved_def)
  ultimately show ?thesis unfolding sched_wf_def using W(3,5) by (simp add: e r)
qed


text \<open>The scan order of \<open>try_steal\<close>: every other core once, from the next one round.\<close>

lemma steal_order:
  assumes "me < MAX_CORES"
  shows "set (map (\<lambda>off. (me + off) mod MAX_CORES) [1..<MAX_CORES]) = {d. d < MAX_CORES \<and> d \<noteq> me}"
proof (intro set_eqI iffI)
  fix d
  assume "d \<in> set (map (\<lambda>off. (me + off) mod MAX_CORES) [1..<MAX_CORES])"
  then obtain off where off: "1 \<le> off" "off < MAX_CORES" "d = (me + off) mod MAX_CORES" by auto
  then show "d \<in> {d. d < MAX_CORES \<and> d \<noteq> me}"
    using assms by (cases "me + off < MAX_CORES") (auto simp: mod_if MAX_CORES_def split: if_splits)
next
  fix d
  assume d: "d \<in> {d. d < MAX_CORES \<and> d \<noteq> me}"
  define off where "off = (if me < d then d - me else d + MAX_CORES - me)"
  have "1 \<le> off" "off < MAX_CORES" "(me + off) mod MAX_CORES = d"
    using d assms by (auto simp: off_def)
  then show "d \<in> set (map (\<lambda>off. (me + off) mod MAX_CORES) [1..<MAX_CORES])" by force
qed

lemma try_steal_cases:
  assumes "sched_wf k" "me < MAX_CORES"
  obtains (none) "try_steal k me = Some (None, k)"
      "\<And>d t. d < MAX_CORES \<Longrightarrow> d \<noteq> me \<Longrightarrow> homed k d t \<Longrightarrow> t = k_current_slot k ! d \<or> state_of k t \<noteq> Ready"
  | (stolen) d t k' where "try_steal k me = Some (Some t, k')" "moved k d me t k'" "sched_wf k'"
proof -
  let ?ds = "map (\<lambda>off. (me + off) mod MAX_CORES) [1..<MAX_CORES]"
  have ds: "set ?ds = {d. d < MAX_CORES \<and> d \<noteq> me}" by (rule steal_order[OF assms(2)])
  then have all: "\<forall>d \<in> set ?ds. d < MAX_CORES \<and> d \<noteq> me" by blast
  from steal_from_cases[OF assms all] show ?thesis
  proof (elim disjE exE conjE)
    assume s: "\<forall>d \<in> set ?ds. stealable k d = None" "steal_from k me ?ds = Some (None, k)"
    have "t = k_current_slot k ! d \<or> state_of k t \<noteq> Ready" if D: "d < MAX_CORES" "d \<noteq> me" "homed k d t" for d t
    proof -
      have "d \<in> set ?ds" unfolding ds using D by simp
      then have "stealable k d = None" using s(1) by (rule bspec[rotated])
      then show ?thesis using stealable_None[of k d] D(3) by blast
    qed
    then show ?thesis using none s(2) by (simp add: try_steal_def)
  next
    fix d t k'
    assume s: "steal_from k me ?ds = Some (Some t, k')" "moved k d me t k'"
    show ?thesis
      by (rule stolen[OF _ s(2) moved_wf[OF assms s(2)]]) (use s(1) in \<open>simp add: try_steal_def\<close>)
  qed
qed

section \<open>A concrete configuration\<close>

text \<open>Two processes on core 0: slot 0 running, slot 1 ready.\<close>

definition two_processes :: kernel where
  "two_processes = (kernel_init \<lparr>fa_bitmap = [], fa_frames = 0, fa_free = 0\<rparr>)
     \<lparr>k_table := [slot_empty\<lparr>sl_state := Running\<rparr>,
                  slot_empty\<lparr>sl_state := Ready, sl_process := Some process_new, sl_rsp := 0x5000\<rparr>,
                  slot_empty, slot_empty],
      k_queues := (replicate MAX_CORES (replicate MAX_PROCESSES None))[0 := [Some 0, Some 1, None, None]],
      k_current := (replicate MAX_CORES None)[0 := Some process_new]\<rparr>"

lemma two_processes_wf: "sched_wf two_processes"
proof -
  let ?k = "two_processes"
  have sh: "shape ?k"
    by (auto simp: shape_def two_processes_def kernel_init_def MAX_CORES_def MAX_PROCESSES_def
        dest!: set_update_subset_insert[THEN subsetD])
  have lv: "live ?k = {0, 1}"
    by (auto simp: live_def two_processes_def MAX_PROCESSES_def slot_empty_def less_Suc_eq numeral_eq_Suc)
  let ?b = "kernel_init \<lparr>fa_bitmap = [], fa_frames = 0, fa_free = 0\<rparr>"
  have "queued ?b = {#}"
    by (simp add: queued_def kernel_init_def queue_mset_def sum_list_replicate MAX_CORES_def MAX_PROCESSES_def numeral_eq_Suc)
  moreover have "queue_mset (k_queues ?b ! 0) = {#}"
    by (simp add: kernel_init_def queue_mset_def MAX_CORES_def MAX_PROCESSES_def numeral_eq_Suc)
  ultimately have "queued (?b\<lparr>k_queues := (k_queues ?b)[0 := [Some 0, Some 1, None, None]]\<rparr>) = {#0, 1#}"
    using queued_update[of 0 ?b "[Some 0, Some 1, None, None]"]
    by (simp add: kernel_init_def MAX_CORES_def queue_mset_def)
  then have q: "queued ?k = mset_set (live ?k)"
    unfolding lv by (simp add: queued_def two_processes_def kernel_init_def)
  have ro: "runs_on ?k c t \<longleftrightarrow> c = 0 \<and> t = 0" if "c < MAX_CORES" for c t
    using that by (auto simp: runs_on_def two_processes_def kernel_init_def nth_list_update_cases)
  have h: "homed ?k 0 0" by (simp add: homed_def two_processes_def MAX_CORES_def)
  have st: "\<forall>t < MAX_PROCESSES. sl_process (slot_of ?k t) \<noteq> None \<longleftrightarrow> state_of ?k t \<in> {Ready, Blocked}"
    "\<And>t. t < MAX_PROCESSES \<Longrightarrow> state_of ?k t = Running \<longleftrightarrow> t = 0"
    by (auto simp: two_processes_def MAX_PROCESSES_def slot_empty_def less_Suc_eq numeral_eq_Suc)
  have m: "0 < MAX_CORES" "0 < MAX_PROCESSES" by (simp_all add: MAX_CORES_def MAX_PROCESSES_def)
  have "t < MAX_PROCESSES \<and> state_of ?k t = Running \<and> homed ?k c t" if "c < MAX_CORES" "runs_on ?k c t" for c t
    using ro[OF that(1)] that(2) h m(2) st(2) by simp
  moreover have "\<exists>c < MAX_CORES. runs_on ?k c t" if "t < MAX_PROCESSES" "state_of ?k t = Running" for t
    using ro[OF m(1)] st(2) that m(1) by auto
  ultimately show ?thesis unfolding sched_wf_def using sh q st(1) by simp
qed

text \<open>
  C12. Work stealing is safe and complete: it never panics; either it moves exactly one process to
  this core, one that was Ready, homed on another core and not that core's current process,
  leaving every other process where it was and the invariant intact, or it finds nothing and then
  no other core has a Ready process besides its own current one.
\<close>
theorem steal_correct:
  assumes "sched_wf k" "me < MAX_CORES"
  shows "(try_steal k me = Some (None, k) \<and>
       (\<forall>d < MAX_CORES. d \<noteq> me \<longrightarrow> (\<forall>t. homed k d t \<longrightarrow> t = k_current_slot k ! d \<or> state_of k t \<noteq> Ready))) \<or>
    (\<exists>d t k'. try_steal k me = Some (Some t, k') \<and> d < MAX_CORES \<and> d \<noteq> me \<and> homed k d t \<and>
       t \<noteq> k_current_slot k ! d \<and> state_of k t = Ready \<and> homed k' me t \<and> \<not> homed k' d t \<and> sched_wf k' \<and>
       k_table k' = k_table k \<and> (\<forall>u. u \<noteq> t \<longrightarrow> (\<forall>c < MAX_CORES. homed k' c u = homed k c u)))"
proof -
  show ?thesis
  proof (cases rule: try_steal_cases[OF assms])
    case 1
    then show ?thesis by blast
  next
    case (2 d t k')
    then have k': "k' = k\<lparr>k_queues := k_queues k', k_steals := k_steals k + 1\<rparr>" by (simp add: moved_def)
    have "k_table k' = k_table k" by (subst k') simp
    moreover have "\<not> homed k' d t"
      using homed_unique[OF 2(3), of d me t] 2(2) assms(2) by (auto simp: moved_def)
    ultimately show ?thesis using 2 unfolding moved_def by blast
  qed
qed

lemma steal_correct_witness:
  "try_steal two_processes 1 \<noteq> None \<and> \<not> homed (snd (the (try_steal two_processes 1))) 0 1"
proof -
  have "1 < MAX_CORES" by (simp add: MAX_CORES_def)
  note T = steal_correct[OF two_processes_wf this]
  have z: "0 < MAX_CORES" "homed two_processes 0 1" "1 \<noteq> k_current_slot two_processes ! 0"
    "state_of two_processes 1 = Ready"
    by (simp_all add: homed_def two_processes_def kernel_init_def MAX_CORES_def)
  from T z obtain d t k' where r: "try_steal two_processes 1 = Some (Some t, k')" "d < MAX_CORES"
    "homed two_processes d t" "t \<noteq> k_current_slot two_processes ! d" "\<not> homed k' d t"
    by auto
  have "t \<in> live two_processes" using homed_live[OF two_processes_wf r(2,3)] .
  then have "t = 0 \<or> t = 1"
    by (auto simp: live_def two_processes_def MAX_PROCESSES_def slot_empty_def less_Suc_eq numeral_eq_Suc)
  moreover have "k_current_slot two_processes ! d = 0"
    using r(2) by (simp add: two_processes_def kernel_init_def)
  moreover have "d = 0" if "t = 1"
    using homed_unique[OF two_processes_wf r(2) z(1)] r(3) z(2) that by blast
  ultimately show ?thesis using r(1,4,5) by auto
qed

section \<open>Switching\<close>

lemma live_slot_update:
  assumes "shape k" "t < MAX_PROCESSES" "sl_state s \<noteq> Empty" "state_of k t \<noteq> Empty"
    and "k_table k' = (k_table k)[t := s]"
  shows "live k' = live k"
  using assms by (auto simp: live_def shape_def nth_list_update)

lemma resume_wf:
  assumes "sched_wf k" "me < MAX_CORES" "k_current k ! me = None" "homed k me next" "state_of k next = Ready"
  obtains k' where "resume_process k me next = Some (sl_rsp (slot_of k next), k')" "sched_wf k'"
    "runs_on k' me next" "live k' = live k"
proof -
  note W = sched_wfD[OF assms(1)]
  have n: "next < MAX_PROCESSES" using homed_live[OF assms(1,2,4)] by (simp add: live_def)
  obtain p where p: "sl_process (slot_of k next) = Some p" using W(3)[OF n] assms(5) by auto
  let ?s = "(slot_of k next)\<lparr>sl_process := None, sl_state := Running\<rparr>"
  define k' where "k' = k\<lparr>k_table := (k_table k)[next := ?s], k_current := (k_current k)[me := Some p],
      k_current_slot := (k_current_slot k)[me := next]\<rparr>"
  have r: "resume_process k me next = Some (sl_rsp (slot_of k next), k')"
    using p by (simp add: resume_process_def k'_def Let_def set_slot_def set_current_def)
  have sl: "slot_of k' t = (if t = next then ?s else slot_of k t)" for t
    using n W(1) by (simp add: k'_def shape_def nth_list_update_cases)
  have q: "queued k' = queued k" "\<And>c t. homed k' c t = homed k c t" by (simp_all add: k'_def queued_def homed_def)
  have ro: "runs_on k' c t \<longleftrightarrow> (if c = me then t = next else runs_on k c t)" if "c < MAX_CORES" for c t
    using that W(1) by (auto simp: k'_def runs_on_def shape_def nth_list_update_cases)
  have lv: "live k' = live k"
    by (rule live_slot_update[OF W(1) n]) (simp_all add: assms(5) k'_def)
  have "shape k'" using W(1) by (simp add: shape_def k'_def)
  moreover have "\<forall>t < MAX_PROCESSES. sl_process (slot_of k' t) \<noteq> None \<longleftrightarrow> state_of k' t \<in> {Ready, Blocked}"
    using W(3) by (auto simp: sl)
  moreover have "\<forall>c < MAX_CORES. \<forall>t. runs_on k' c t \<longrightarrow> t < MAX_PROCESSES \<and> state_of k' t = Running \<and> homed k' c t"
    using W(4) ro n assms(4) by (auto simp: sl q)
  moreover have "\<exists>c < MAX_CORES. runs_on k' c t" if T: "t < MAX_PROCESSES" "state_of k' t = Running" for t
  proof (cases "t = next")
    case True
    then show ?thesis using ro[OF assms(2)] assms(2) by auto
  next
    case False
    then obtain c where c: "c < MAX_CORES" "runs_on k c t" using W(5)[OF T(1)] T(2) by (auto simp: sl)
    then have "c \<noteq> me" using assms(3) by (auto simp: runs_on_def)
    then show ?thesis using ro[OF c(1)] c by auto
  qed
  ultimately have "sched_wf k'" using W(2) q lv by (simp add: sched_wf_def)
  then show ?thesis using that r ro[OF assms(2)] lv by simp
qed

lemma park_wf:
  assumes "sched_wf k" "me < MAX_CORES" "k_current k ! me = Some p" "st \<in> {Ready, Blocked}"
  obtains k' where "park k me f st = Some k'" "sched_wf k'" "k_current k' ! me = None"
    "state_of k' (k_current_slot k ! me) = st" "live k' = live k" "\<And>c t. homed k' c t = homed k c t"
    "k_queues k' = k_queues k" "k_current_slot k' = k_current_slot k"
    "\<And>t. t \<noteq> k_current_slot k ! me \<Longrightarrow> slot_of k' t = slot_of k t"
    "sl_rsp (slot_of k' (k_current_slot k ! me)) = f"
proof -
  note W = sched_wfD[OF assms(1)]
  define cur where "cur = k_current_slot k ! me"
  have on: "runs_on k me cur" using assms(3) by (simp add: runs_on_def cur_def)
  have c: "cur < MAX_PROCESSES" "state_of k cur = Running" "homed k me cur" using W(4)[OF assms(2) on] by simp_all
  let ?s = "(slot_of k cur)\<lparr>sl_rsp := f, sl_process := Some p, sl_state := st\<rparr>"
  define k' where "k' = k\<lparr>k_table := (k_table k)[cur := ?s], k_current := (k_current k)[me := None]\<rparr>"
  have r: "park k me f st = Some k'"
    using assms(3) by (simp add: park_def k'_def Let_def set_slot_def set_current_def cur_def)
  have sl: "slot_of k' t = (if t = cur then ?s else slot_of k t)" for t
    using c(1) W(1) by (simp add: k'_def shape_def nth_list_update_cases)
  have q: "queued k' = queued k" "\<And>c t. homed k' c t = homed k c t" by (simp_all add: k'_def queued_def homed_def)
  have ro: "runs_on k' d t \<longleftrightarrow> d \<noteq> me \<and> runs_on k d t" if "d < MAX_CORES" for d t
    using that W(1) by (auto simp: k'_def runs_on_def shape_def nth_list_update_cases)
  have lv: "live k' = live k"
    by (rule live_slot_update[OF W(1) c(1), of ?s]) (use assms(4) c(2) in \<open>auto simp: k'_def\<close>)
  have "shape k'" using W(1) by (simp add: shape_def k'_def)
  moreover have "\<forall>t < MAX_PROCESSES. sl_process (slot_of k' t) \<noteq> None \<longleftrightarrow> state_of k' t \<in> {Ready, Blocked}"
    using W(3) assms(4) by (auto simp: sl)
  moreover have "\<forall>d < MAX_CORES. \<forall>t. runs_on k' d t \<longrightarrow> t < MAX_PROCESSES \<and> state_of k' t = Running \<and> homed k' d t"
  proof (intro allI impI)
    fix d t
    assume d: "d < MAX_CORES" "runs_on k' d t"
    then have "d \<noteq> me" "runs_on k d t" using ro by auto
    moreover from this have "t \<noteq> cur" using runs_on_unique[OF assms(1) d(1) assms(2)] on by blast
    ultimately show "t < MAX_PROCESSES \<and> state_of k' t = Running \<and> homed k' d t"
      using W(4)[OF d(1)] by (simp add: sl q)
  qed
  moreover have "\<exists>d < MAX_CORES. runs_on k' d t" if T: "t < MAX_PROCESSES" "state_of k' t = Running" for t
  proof -
    have "t \<noteq> cur" using T assms(4) by (auto simp: sl)
    then obtain d where d: "d < MAX_CORES" "runs_on k d t" using W(5)[OF T(1)] T(2) by (auto simp: sl)
    then have "d \<noteq> me" using \<open>t \<noteq> cur\<close> by (auto simp: runs_on_def cur_def)
    then show ?thesis using ro d by auto
  qed
  ultimately have "sched_wf k'" using W(2) q lv by (simp add: sched_wf_def)
  moreover have "k_current k' ! me = None" using assms(2) W(1) by (simp add: k'_def shape_def)
  ultimately show ?thesis
    using that[of k'] r sl lv q by (simp add: cur_def[symmetric] k'_def)
qed

lemma wake_wf:
  assumes "sched_wf k" "t < MAX_PROCESSES" "is_blocked k t"
  shows "sched_wf (wake_with k t s p l)" and "live (wake_with k t s p l) = live k"
proof -
  note W = sched_wfD[OF assms(1)]
  define k' where "k' = wake_with k t s p l"
  have sl: "slot_of k' u = (if u = t then (slot_of k t)\<lparr>sl_state := Ready\<rparr> else slot_of k u)" for u
    using assms(2) W(1) by (simp add: k'_def wake_with_def set_slot_def Let_def shape_def nth_list_update_cases)
  have e: "k_queues k' = k_queues k" "k_current k' = k_current k" "k_current_slot k' = k_current_slot k"
    by (simp_all add: k'_def wake_with_def set_slot_def Let_def)
  have q: "queued k' = queued k" "\<And>c u. homed k' c u = homed k c u" "\<And>c u. runs_on k' c u = runs_on k c u"
    by (simp_all add: queued_def homed_def runs_on_def e)
  have lv: "live k' = live k"
    by (rule live_slot_update[OF W(1) assms(2), of "(slot_of k t)\<lparr>sl_state := Ready\<rparr>"])
      (use assms(3) in \<open>auto simp: is_blocked_def k'_def wake_with_def set_slot_def Let_def\<close>)
  have "shape k'" using W(1) by (simp add: shape_def e) (simp add: k'_def wake_with_def set_slot_def Let_def)
  moreover have "\<forall>u < MAX_PROCESSES. sl_process (slot_of k' u) \<noteq> None \<longleftrightarrow> state_of k' u \<in> {Ready, Blocked}"
    using W(3) assms(3) by (auto simp: sl is_blocked_def)
  moreover have "\<forall>c < MAX_CORES. \<forall>u. runs_on k' c u \<longrightarrow> u < MAX_PROCESSES \<and> state_of k' u = Running \<and> homed k' c u"
    using W(4) assms(3) by (force simp: sl q is_blocked_def)
  moreover have "\<forall>u < MAX_PROCESSES. state_of k' u = Running \<longrightarrow> (\<exists>c < MAX_CORES. runs_on k' c u)"
    using W(5) by (auto simp: sl q)
  ultimately show "sched_wf (wake_with k t s p l)" using W(2) q lv by (simp add: sched_wf_def k'_def)
  show "live (wake_with k t s p l) = live k" using lv by (simp add: k'_def)
qed


lemma quantum_wf:
  assumes "quantum_expired k me = (b, k')"
  shows "sched_wf k' = sched_wf k" "live k' = live k" "k_current k' = k_current k"
    "k_current_slot k' = k_current_slot k" "k_queues k' = k_queues k" "k_table k' = k_table k"
proof -
  obtain ts where k': "k' = k\<lparr>k_ticks := ts\<rparr>"
    using assms by (auto simp: quantum_expired_def Let_def split: if_splits)
  then show "sched_wf k' = sched_wf k" "live k' = live k" "k_current k' = k_current k"
    "k_current_slot k' = k_current_slot k" "k_queues k' = k_queues k" "k_table k' = k_table k"
    by (simp_all add: sched_wf_def shape_def queued_def live_def runs_on_def homed_def)
qed

text \<open>A Ready position of the core's own queue can be resumed.\<close>

lemma resume_position:
  assumes "sched_wf k" "me < MAX_CORES" "k_current k ! me = None" "i < MAX_PROCESSES"
    and "core_states k me ! i = Ready"
  shows "\<exists>t k'. core_table_slot k me i = Some t \<and> homed k me t \<and> state_of k t = Ready \<and>
    resume_process k me t = Some (sl_rsp (slot_of k t), k') \<and> sched_wf k' \<and> runs_on k' me t \<and> live k' = live k"
proof -
  obtain t where t: "core_table_slot k me i = Some t" "homed k me t" "state_of k t = Ready"
    using ready_position[OF sched_wfD(1)[OF assms(1)] assms(2,4,5)] by blast
  show ?thesis using t by (rule_tac resume_wf[OF assms(1-3) t(2,3)]) blast
qed

lemma timer_tick_wf:
  assumes "sched_wf k" "me < MAX_CORES" "k_current k ! me \<noteq> None"
  shows "\<exists>r k'. timer_tick k me f = Some (r, k') \<and> sched_wf k' \<and> live k' = live k \<and> k_current k' ! me \<noteq> None"
proof (cases "tf_cs (k_frames k f) AND 3 = 3")
  case False
  then show ?thesis using assms by (simp add: timer_tick_def)
next
  case user: True
  obtain b k0 where q: "quantum_expired k me = (b, k0)" by fastforce
  note Q = quantum_wf[OF q]
  have wf0: "sched_wf k0" using Q(1) assms(1) by simp
  obtain p where p: "k_current k0 ! me = Some p" using assms(3) Q(3) by auto
  define cur where "cur = k_current_slot k0 ! me"
  show ?thesis
  proof (cases "b \<and> k_active k0")
    case False
    then show ?thesis using user q wf0 Q(2,3) assms(3) by (auto simp: timer_tick_def Let_def)
  next
    case True
    have "runs_on k0 me cur" using p by (simp add: runs_on_def cur_def)
    then have h: "homed k0 me cur" "state_of k0 cur = Running" using sched_wfD(4)[OF wf0 assms(2)] by blast+
    then obtain pos where pos: "core_position k0 me cur = Some pos" using core_position_iff by blast
    show ?thesis
    proof (cases "pick_next (core_states k0 me) pos")
      case None
      then show ?thesis using user q True pos wf0 Q(2,3) assms(3)
        by (simp add: timer_tick_def Let_def cur_def)
    next
      case (Some i)
      note N = pick_next_Some[OF Some]
      obtain nxt where nx: "core_table_slot k0 me i = Some nxt" "homed k0 me nxt" "state_of k0 nxt = Ready"
        using ready_position[OF sched_wfD(1)[OF wf0] assms(2) N] by blast
      obtain k1 where k1: "park k0 me f Ready = Some k1" "sched_wf k1" "k_current k1 ! me = None"
        "live k1 = live k0" "\<And>c t. homed k1 c t = homed k0 c t"
        "\<And>t. t \<noteq> cur \<Longrightarrow> slot_of k1 t = slot_of k0 t"
        using park_wf[OF wf0 assms(2) p, of Ready f] unfolding cur_def by (metis insertI1)
      have "nxt \<noteq> cur" using nx(3) h(2) by auto
      then have "homed k1 me nxt" "state_of k1 nxt = Ready" using k1(5,6) nx(2,3) by simp_all
      then obtain k2 where k2: "resume_process k1 me nxt = Some (sl_rsp (slot_of k1 nxt), k2)" "sched_wf k2"
        "runs_on k2 me nxt" "live k2 = live k1"
        using resume_wf[OF k1(2) assms(2) k1(3)] by metis
      have "timer_tick k me f = Some (sl_rsp (slot_of k1 nxt), k2)"
        using user q True pos Some nx(1) k1(1) k2(1) by (simp add: timer_tick_def Let_def cur_def)
      then show ?thesis using k2 k1(4) Q(2) by (auto simp: runs_on_def)
    qed
  qed
qed

lemma block_current_wf:
  assumes "sched_wf k" "me < MAX_CORES" "k_current k ! me \<noteq> None"
  shows "\<exists>pos k'. block_current k me f = Some (pos, k') \<and> pos < MAX_PROCESSES \<and> sched_wf k' \<and>
    live k' = live k \<and> k_current k' ! me = None \<and> is_blocked k' (k_current_slot k ! me) \<and>
    sl_rsp (slot_of k' (k_current_slot k ! me)) = f"
proof -
  define cur where "cur = k_current_slot k ! me"
  obtain p where p: "k_current k ! me = Some p" using assms(3) by auto
  have "runs_on k me cur" using p by (simp add: runs_on_def cur_def)
  then have "homed k me cur" using sched_wfD(4)[OF assms(1,2)] by blast
  then obtain pos where pos: "core_position k me cur = Some pos" using core_position_iff by blast
  have "pos < MAX_PROCESSES"
    using position_SomeD(1)[OF pos[unfolded core_position_def]] sched_wfD(1)[OF assms(1)] assms(2)
    by (simp add: shape_def)
  moreover obtain k1 where "park k me f Blocked = Some k1" "sched_wf k1" "k_current k1 ! me = None"
    "state_of k1 cur = Blocked" "live k1 = live k" "sl_rsp (slot_of k1 cur) = f"
    using park_wf[OF assms(1,2) p, of Blocked f] unfolding cur_def by (metis insertI1 insertI2)
  ultimately show ?thesis using pos by (auto simp: block_current_def cur_def is_blocked_def)
qed

lemma switch_resume_wf:
  assumes "sched_wf k" "me < MAX_CORES" "k_current k ! me = None" "homed k me t" "state_of k t = Ready"
  shows "\<exists>r k'. switch_resume k me t = Some (Resumed r, k') \<and> r = sl_rsp (slot_of k t) \<and> sched_wf k' \<and>
    runs_on k' me t \<and> live k' = live k"
  by (rule resume_wf[OF assms]) (auto simp: switch_resume_def)

lemma moved_frame:
  assumes "moved k d me t k'"
  shows "k_table k' = k_table k" "k_current k' = k_current k" "live k' = live k" "k_launcher k' = k_launcher k"
proof -
  have k': "k' = k\<lparr>k_queues := k_queues k', k_steals := k_steals k + 1\<rparr>" using assms by (simp add: moved_def)
  show a: "k_table k' = k_table k" "k_current k' = k_current k" "k_launcher k' = k_launcher k" by (subst k', simp)+
  show "live k' = live k" by (simp add: live_def a)
qed

text \<open>Nothing on the core's own queue is Ready.\<close>

definition no_own_work :: "kernel \<Rightarrow> nat \<Rightarrow> bool" where
  "no_own_work k me \<longleftrightarrow> (\<forall>i < MAX_PROCESSES. core_states k me ! i \<noteq> Ready)"

lemma steal_resume_wf:
  assumes "sched_wf k" "me < MAX_CORES" "k_current k ! me = None" "try_steal k me = Some (Some t, k')"
  shows "\<exists>r k''. switch_resume k' me t = Some (Resumed r, k'') \<and> sched_wf k'' \<and> runs_on k'' me t \<and> live k'' = live k"
proof (cases rule: try_steal_cases[OF assms(1,2)])
  case 1
  then show ?thesis using assms(4) by simp
next
  case (2 d u k1)
  then have e: "u = t" "k1 = k'" using assms(4) by simp_all
  note M = moved_frame[OF 2(2)]
  have "homed k' me t" "state_of k t = Ready" using 2(2) e by (auto simp: moved_def)
  then show ?thesis
    using switch_resume_wf[of k' me t] 2(3) e assms(2,3) M by auto
qed

text \<open>One pass of the switching loop: it never panics, keeps the invariant, and is work-conserving.\<close>

lemma switch_to_next_wf:
  assumes "sched_wf k" "me < MAX_CORES" "k_current k ! me = None" "pos < MAX_PROCESSES"
  shows "\<exists>s k'. switch_to_next k me pos idle i d = Some (s, k') \<and> sched_wf k' \<and> live k' = live k \<and>
    ((\<exists>r. s = Resumed r) \<longleftrightarrow> k_current k' ! me \<noteq> None) \<and>
    (\<not> no_own_work k me \<longrightarrow> (\<exists>r. s = Resumed r))"
proof (cases "pick_next (core_states k me) pos")
  case (Some n)
  note N = pick_next_Some[OF Some]
  obtain t where t: "core_table_slot k me n = Some t" "homed k me t" "state_of k t = Ready"
    using ready_position[OF sched_wfD(1)[OF assms(1)] assms(2) N] by blast
  then show ?thesis
    using switch_resume_wf[OF assms(1-3) t(2,3)] Some by (auto simp: switch_to_next_def Let_def runs_on_def)
next
  case None
  then have others: "\<And>j. j < MAX_PROCESSES \<Longrightarrow> j \<noteq> pos \<Longrightarrow> core_states k me ! j \<noteq> Ready"
    using pick_next_no_other[OF assms(4)] by blast
  show ?thesis
  proof (cases "core_states k me ! pos = Ready")
    case True
    obtain t where t: "core_table_slot k me pos = Some t" "homed k me t" "state_of k t = Ready"
      using ready_position[OF sched_wfD(1)[OF assms(1)] assms(2,4) True] by blast
    then show ?thesis
      using switch_resume_wf[OF assms(1-3) t(2,3)] None True by (auto simp: switch_to_next_def Let_def runs_on_def)
  next
    case idle: False
    then have now: "no_own_work k me" using others unfolding no_own_work_def by metis
    have sw: "switch_idle k' me i d \<noteq> Resumed r" for k' r by (simp add: switch_idle_def)
    show ?thesis
    proof (cases "idle = ExitedReturnIfDone \<and> k_launcher k ! me")
      case False
      then show ?thesis using None idle assms now sw
        by (cases "idle = ExitedReturnIfDone") (auto simp: switch_to_next_def Let_def)
    next
      case l: True
      have sn: "switch_to_next k me pos idle i d = Option.bind (try_steal k me) (\<lambda>(stolen, k').
              case stolen of Some t \<Rightarrow> switch_resume k' me t
              | None \<Rightarrow> Some (switch_idle k' me i d, k'))"
        using None idle l by (simp add: switch_to_next_def Let_def)
      show ?thesis
      proof (cases rule: try_steal_cases[OF assms(1,2)])
        case 1
        then show ?thesis using sn assms now sw by auto
      next
        case (2 e t k')
        then show ?thesis using sn steal_resume_wf[OF assms(1-3) 2(1)] by (auto simp: runs_on_def)
      qed
    qed
  qed
qed


lemma idle_pass_wf:
  assumes "sched_wf k" "me < MAX_CORES" "k_current k ! me = None"
  shows "\<exists>s k'. idle_pass k me = Some (s, k') \<and> sched_wf k' \<and> live k' = live k \<and>
    (s = HaltAndRetry \<longrightarrow> no_own_work k me \<and> k' = k)"
proof (cases "position (\<lambda>s. s = Ready) (core_states k me)")
  case (Some i)
  have l: "length (core_states k me) = MAX_PROCESSES"
    using sched_wfD(1)[OF assms(1)] assms(2) by (simp add: core_states_def shape_def)
  have i: "i < MAX_PROCESSES" "core_states k me ! i = Ready" using position_SomeD(1,2)[OF Some] l by simp_all
  obtain t where t: "core_table_slot k me i = Some t" "homed k me t" "state_of k t = Ready"
    using ready_position[OF sched_wfD(1)[OF assms(1)] assms(2) i] by blast
  then show ?thesis
    using switch_resume_wf[OF assms t(2,3)] Some by (auto simp: idle_pass_def first_claimable_slot_def)
next
  case None
  have l: "length (core_states k me) = MAX_PROCESSES"
    using sched_wfD(1)[OF assms(1)] assms(2) by (simp add: core_states_def shape_def)
  have now: "no_own_work k me" using None l by (auto simp: no_own_work_def position_None_iff)
  have fc: "first_claimable_slot k me = None" using None by (simp add: first_claimable_slot_def)
  show ?thesis
  proof (cases rule: try_steal_cases[OF assms(1,2)])
    case 1
    then show ?thesis using fc assms(1) now by (simp add: idle_pass_def)
  next
    case (2 e t k')
    then show ?thesis using fc steal_resume_wf[OF assms 2(1)] by (auto simp: idle_pass_def)
  qed
qed

section \<open>The scheduler as a transition system\<close>

text \<open>
  One scheduling action on some core: a timer interrupt over a running process, a running process
  blocking and the switch that follows, an idle core's pass, or a wake of a blocked process.
\<close>

inductive sched_step :: "kernel \<Rightarrow> kernel \<Rightarrow> bool" where
  tick: "me < MAX_CORES \<Longrightarrow> k_current k ! me \<noteq> None \<Longrightarrow> timer_tick k me f = Some (r, k') \<Longrightarrow> sched_step k k'"
| block: "me < MAX_CORES \<Longrightarrow> k_current k ! me \<noteq> None \<Longrightarrow> block_current k me f = Some (pos, k1) \<Longrightarrow>
    switch_to_next k1 me pos BlockedDeadlockIfNoOtherWork i d = Some (s, k') \<Longrightarrow> sched_step k k'"
| idle: "me < MAX_CORES \<Longrightarrow> k_current k ! me = None \<Longrightarrow> idle_pass k me = Some (s, k') \<Longrightarrow> sched_step k k'"
| retry: "me < MAX_CORES \<Longrightarrow> k_current k ! me = None \<Longrightarrow> pos < MAX_PROCESSES \<Longrightarrow>
    switch_to_next k me pos on_idle i d = Some (s, k') \<Longrightarrow> sched_step k k'"
| wake: "t < MAX_PROCESSES \<Longrightarrow> is_blocked k t \<Longrightarrow> sched_step k (wake_with k t st payload landing)"

inductive_cases sched_stepE: "sched_step k k'"

lemma sched_step_wf:
  assumes "sched_step k k'" "sched_wf k"
  shows "sched_wf k' \<and> live k' = live k"
  using assms
proof (induction rule: sched_step.induct)
  case (tick me k f r k')
  then show ?case using timer_tick_wf[of k me f] by auto
next
  case (block me k f pos k1 i d s k')
  then have "pos < MAX_PROCESSES \<and> sched_wf k1 \<and> live k1 = live k \<and> k_current k1 ! me = None"
    using block_current_wf[of k me f] by auto
  then show ?case
    using switch_to_next_wf[of k1 me pos BlockedDeadlockIfNoOtherWork i d] block by auto
next
  case (idle me k s k')
  then show ?case using idle_pass_wf[of k me] by auto
next
  case (retry me k pos on_idle i d s k')
  then show ?case using switch_to_next_wf[of k me pos on_idle i d] by auto
next
  case (wake t k st payload landing)
  then show ?case using wake_wf by blast
qed

lemma sched_steps_wf:
  assumes "sched_step\<^sup>*\<^sup>* k k'" "sched_wf k"
  shows "sched_wf k' \<and> live k' = live k"
  using assms by (induction rule: rtranclp_induct) (auto dest: sched_step_wf)

text \<open>
  C2. Over any sequence of timer interrupts, blocks, switches, steals and wakes on any cores, no
  process is lost or invented, none ever runs on two cores or sits in two queues, every process
  value is either in its slot (suspended) or on exactly one core (Running), and a core only runs
  processes homed on it.
\<close>
theorem scheduler_safety:
  assumes "sched_wf k" "sched_step\<^sup>*\<^sup>* k k'"
  shows "live k' = live k \<and>
    (\<forall>c < MAX_CORES. \<forall>d < MAX_CORES. \<forall>t. runs_on k' c t \<and> runs_on k' d t \<longrightarrow> c = d) \<and>
    (\<forall>c < MAX_CORES. \<forall>d < MAX_CORES. \<forall>t. homed k' c t \<and> homed k' d t \<longrightarrow> c = d) \<and>
    (\<forall>t \<in> live k'. (\<exists>c < MAX_CORES. homed k' c t) \<and>
       (state_of k' t = Running \<longleftrightarrow> (\<exists>c < MAX_CORES. runs_on k' c t)) \<and>
       (state_of k' t \<in> {Ready, Blocked} \<longleftrightarrow> sl_process (slot_of k' t) \<noteq> None)) \<and>
    (\<forall>c < MAX_CORES. \<forall>t. runs_on k' c t \<longrightarrow> homed k' c t)"
proof -
  have wf: "sched_wf k'" and lv: "live k' = live k" using sched_steps_wf[OF assms(2,1)] by simp_all
  note W = sched_wfD[OF wf]
  show ?thesis
    using lv runs_on_unique[OF wf] homed_unique[OF wf] live_homed[OF wf] W(3,4,5)
    by (auto simp: live_def)
qed

lemma scheduler_safety_witness:
  "\<exists>k'. sched_step two_processes k' \<and> live k' = live two_processes"
proof -
  have m: "0 < MAX_CORES" by (simp add: MAX_CORES_def)
  have run: "k_current two_processes ! 0 \<noteq> None" by (simp add: two_processes_def MAX_CORES_def)
  obtain r k' where "timer_tick two_processes 0 0 = Some (r, k')"
    using timer_tick_wf[OF two_processes_wf m run] by blast
  then have s: "sched_step two_processes k'" using sched_step.tick[OF m run] by blast
  then show ?thesis using scheduler_safety[OF two_processes_wf r_into_rtranclp[of sched_step, OF s]] by blast
qed

text \<open>
  C13. The scheduler never panics and never idles past runnable work: under the invariant a timer
  interrupt, a block, a switch and an idle pass all complete, a timer interrupt leaves the core
  running a process, and a core whose own queue holds a Ready process leaves a switch or an idle
  pass by resuming one.
\<close>
theorem scheduler_progress:
  assumes "sched_wf k" "me < MAX_CORES"
  shows "(k_current k ! me \<noteq> None \<longrightarrow>
       (\<exists>r k'. timer_tick k me f = Some (r, k') \<and> k_current k' ! me \<noteq> None) \<and>
       (\<exists>pos k'. block_current k me f = Some (pos, k') \<and> is_blocked k' (k_current_slot k ! me) \<and>
          sl_rsp (slot_of k' (k_current_slot k ! me)) = f)) \<and>
    (k_current k ! me = None \<longrightarrow>
       (\<forall>pos < MAX_PROCESSES. \<forall>idle i d. \<exists>s k'. switch_to_next k me pos idle i d = Some (s, k') \<and>
          (\<not> no_own_work k me \<longrightarrow> (\<exists>r. s = Resumed r) \<and> k_current k' ! me \<noteq> None)) \<and>
       (\<exists>s k'. idle_pass k me = Some (s, k') \<and> (s = HaltAndRetry \<longrightarrow> no_own_work k me)))"
proof (intro conjI impI)
  assume run: "k_current k ! me \<noteq> None"
  show "\<exists>r k'. timer_tick k me f = Some (r, k') \<and> k_current k' ! me \<noteq> None"
    using timer_tick_wf[OF assms run] by blast
  show "\<exists>pos k'. block_current k me f = Some (pos, k') \<and> is_blocked k' (k_current_slot k ! me) \<and>
          sl_rsp (slot_of k' (k_current_slot k ! me)) = f"
    using block_current_wf[OF assms run] by blast
next
  assume idle: "k_current k ! me = None"
  show "\<forall>pos < MAX_PROCESSES. \<forall>idle i d. \<exists>s k'. switch_to_next k me pos idle i d = Some (s, k') \<and>
          (\<not> no_own_work k me \<longrightarrow> (\<exists>r. s = Resumed r) \<and> k_current k' ! me \<noteq> None)"
    using switch_to_next_wf[OF assms idle] by blast
  show "\<exists>s k'. idle_pass k me = Some (s, k') \<and> (s = HaltAndRetry \<longrightarrow> no_own_work k me)"
    using idle_pass_wf[OF assms idle] by blast
qed

lemma scheduler_progress_witness:
  "\<exists>r k'. timer_tick two_processes 0 0x4000 = Some (r, k') \<and> k_current k' ! 0 \<noteq> None"
proof -
  have m: "0 < MAX_CORES" by (simp add: MAX_CORES_def)
  have run: "k_current two_processes ! 0 \<noteq> None" by (simp add: two_processes_def MAX_CORES_def)
  from scheduler_progress[OF two_processes_wf m] run show ?thesis by blast
qed

section \<open>Home assignment\<close>

lemma next_home_core_search:
  assumes "online ((n + d) mod MAX_CORES)" "\<And>e. e < d \<Longrightarrow> \<not> online ((n + e) mod MAX_CORES)"
  shows "next_home_core online n = Some ((n + d) mod MAX_CORES, (n + d) mod MAX_CORES + 1)"
  using assms
proof (induction d arbitrary: n)
  case 0
  then show ?case by (subst next_home_core.simps) (simp add: Let_def)
next
  case (Suc d)
  have "\<not> online (n mod MAX_CORES)" using Suc.prems(2)[of 0] by simp
  then have "next_home_core online n = next_home_core online (n mod MAX_CORES + 1)"
    by (subst next_home_core.simps) (simp add: Let_def)
  moreover have e: "(n mod MAX_CORES + 1 + k) mod MAX_CORES = (n + Suc k) mod MAX_CORES" for k
    by (metis add.assoc add_Suc_right mod_add_left_eq plus_1_eq_Suc)
  moreover have "\<not> online ((n mod MAX_CORES + 1 + k) mod MAX_CORES)" if "k < d" for k
    unfolding e using Suc.prems(2)[of "Suc k"] that by simp
  ultimately show ?case using Suc.IH[of "n mod MAX_CORES + 1"] Suc.prems(1) unfolding e by simp
qed

text \<open>
  C18. Home assignment terminates and is round-robin: whenever some core is online the search
  returns, with the first online core from the counter on, and leaves the counter just past it.
\<close>
theorem next_home_core_terminates:
  assumes "online c" "c < MAX_CORES"
  shows "\<exists>d < MAX_CORES. next_home_core online n = Some ((n + d) mod MAX_CORES, (n + d) mod MAX_CORES + 1) \<and>
    online ((n + d) mod MAX_CORES) \<and> (\<forall>e < d. \<not> online ((n + e) mod MAX_CORES))"
proof -
  let ?P = "\<lambda>d. online ((n + d) mod MAX_CORES)"
  define d0 where "d0 = (c + (MAX_CORES - n mod MAX_CORES)) mod MAX_CORES"
  have "(n + d0) mod MAX_CORES = (n mod MAX_CORES + (c + (MAX_CORES - n mod MAX_CORES))) mod MAX_CORES"
    unfolding d0_def by (metis mod_add_left_eq mod_add_right_eq)
  also have "\<dots> = (c + MAX_CORES) mod MAX_CORES"
  proof -
    have "n mod MAX_CORES < MAX_CORES" by (simp add: MAX_CORES_def)
    then show ?thesis by simp
  qed
  also have "\<dots> = c" using assms(2) by simp
  finally have P0: "?P d0" using assms(1) by simp
  have d0: "d0 < MAX_CORES" by (simp add: d0_def MAX_CORES_def)
  define d where "d = (LEAST d. ?P d)"
  have "?P d" "\<forall>e < d. \<not> ?P e" "d \<le> d0"
    using LeastI[of ?P, OF P0] not_less_Least[of _ ?P] Least_le[of ?P, OF P0] by (auto simp: d_def)
  then show ?thesis using next_home_core_search[of online n d] d0 by (intro exI[of _ d]) auto
qed

lemma next_home_core_terminates_witness:
  "\<exists>d < MAX_CORES. next_home_core (\<lambda>c. c = 0) 7 = Some ((7 + d) mod MAX_CORES, (7 + d) mod MAX_CORES + 1)"
proof -
  have "0 < MAX_CORES" by (simp add: MAX_CORES_def)
  from next_home_core_terminates[of "\<lambda>c. c = 0" 0 7, OF _ this] show ?thesis by blast
qed

end
