(* ===== verification/Ipc.thy ===== *)
theory Ipc
  imports Scheduler
begin

text \<open>
  Synchronous IPC, \<open>kernel/src/ipc.rs\<close>: the four operations on capability-named endpoints, the
  capability transfer in both directions, one-shot reply capabilities, and the reaping of peers a
  death would strand.  A blocking operation ends with the process parked; the switch that
  follows is \<open>switch_to_next\<close> of \<open>Kernel\<close>.
\<close>

section \<open>Definitions\<close>

definition IPC_OK :: u64 where "IPC_OK = 0"
definition IPC_ERR :: u64 where "IPC_ERR = 1"
definition IPC_PEER_DIED :: u64 where "IPC_PEER_DIED = 2"

text \<open>An operation returns its status word, or parks the caller (with the queue position to
  switch from).\<close>

datatype outcome = Returns u64 kernel | Blocks nat kernel

definition blocks :: "(nat \<times> kernel) option \<Rightarrow> outcome option" where
  "blocks r = map_option (\<lambda>(pos, k). Blocks pos k) r"

definition write_reg :: "kernel \<Rightarrow> u64 \<Rightarrow> nat \<Rightarrow> u64 \<Rightarrow> kernel" where
  "write_reg k frame_ptr r v = k\<lparr>k_frames := (k_frames k)(frame_ptr := set_gp (k_frames k frame_ptr) r v)\<rparr>"

definition set_endpoint :: "kernel \<Rightarrow> nat \<Rightarrow> endpoint \<Rightarrow> kernel" where
  "set_endpoint k i e = k\<lparr>k_endpoints := (k_endpoints k)[i := e]\<rparr>"

definition note_added :: "kernel \<Rightarrow> capability \<Rightarrow> kernel" where
  "note_added k c = k\<lparr>k_endpoints := note_cap_added (k_endpoints k) c\<rparr>"

definition note_removed :: "kernel \<Rightarrow> capability \<Rightarrow> bool \<Rightarrow> kernel" where
  "note_removed k c b = k\<lparr>k_endpoints := note_cap_removed (k_endpoints k) c b\<rparr>"

definition endpoint_id_for :: "kernel \<Rightarrow> nat \<Rightarrow> u64 \<Rightarrow> u8 \<Rightarrow> nat option" where
  "endpoint_id_for k me slot right =
     (case k_current k ! me of
        None \<Rightarrow> None
      | Some p \<Rightarrow>
          (case lookup (p_caps p) (unat slot) right of
             Inl _ \<Rightarrow> None
           | Inr c \<Rightarrow>
               (case cap_obj c of
                  Endpoint i \<Rightarrow> if i < MAX_ENDPOINTS \<and> ep_in_use (k_endpoints k ! i) then Some i else None
                | _ \<Rightarrow> None)))"

definition take_waiting :: "kernel \<Rightarrow> nat \<Rightarrow> bool \<Rightarrow> (nat \<times> kernel) option" where
  "take_waiting k i want_senders =
     (case take_if (ep_queue (k_endpoints k ! i)) want_senders (k_links k) of
        None \<Rightarrow> None
      | Some (t, q) \<Rightarrow> Some (t, set_endpoint k i ((k_endpoints k ! i)\<lparr>ep_queue := q\<rparr>)))"

definition enqueue_waiter :: "kernel \<Rightarrow> nat \<Rightarrow> nat \<Rightarrow> bool \<Rightarrow> kernel" where
  "enqueue_waiter k i t are_senders =
     (let (q, ls) = enqueue (ep_queue (k_endpoints k ! i)) t are_senders (k_links k) in
      (set_endpoint k i ((k_endpoints k ! i)\<lparr>ep_queue := q\<rparr>))\<lparr>k_links := ls\<rparr>)"

definition reply_cap :: "nat \<Rightarrow> capability" where
  "reply_cap caller = \<lparr>cap_obj = Reply caller, cap_rights = 0, cap_origin = None\<rparr>"

definition mint_reply_cap_into_current :: "kernel \<Rightarrow> nat \<Rightarrow> nat \<Rightarrow> u64 \<times> kernel" where
  "mint_reply_cap_into_current k me caller =
     (case k_current k ! me of
        None \<Rightarrow> (NO_CAP, k)
      | Some p \<Rightarrow>
          (case mint (p_caps p) (cap_obj (reply_cap caller)) (cap_rights (reply_cap caller)) of
             Inl _ \<Rightarrow> (NO_CAP, k)
           | Inr (i, t) \<Rightarrow> (of_nat i, set_current k me (Some (p\<lparr>p_caps := t\<rparr>)))))"

definition mint_reply_cap_into_blocked :: "kernel \<Rightarrow> nat \<Rightarrow> nat \<Rightarrow> u64 \<times> kernel" where
  "mint_reply_cap_into_blocked k server caller =
     (case install_into_blocked k server (reply_cap caller) of
        None \<Rightarrow> (NO_CAP, k)
      | Some (i, k') \<Rightarrow> (of_nat i, k'))"

text \<open>The best-effort restore: the result of the install is ignored.\<close>

definition restore_to_current :: "kernel \<Rightarrow> nat \<Rightarrow> capability \<Rightarrow> kernel" where
  "restore_to_current k me c =
     (case k_current k ! me of
        None \<Rightarrow> k
      | Some p \<Rightarrow>
          (case install (p_caps p) c of
             Inl _ \<Rightarrow> k
           | Inr (_, t) \<Rightarrow> set_current k me (Some (p\<lparr>p_caps := t\<rparr>))))"

definition revoke_from_current :: "kernel \<Rightarrow> nat \<Rightarrow> nat \<Rightarrow> (capability \<times> kernel) option" where
  "revoke_from_current k me slot =
     (case k_current k ! me of
        None \<Rightarrow> None
      | Some p \<Rightarrow>
          (case revoke_and_unmap_for_lend p slot of
             None \<Rightarrow> None
           | Some (c, p', us) \<Rightarrow>
               Some (c, (set_current k me (Some p'))\<lparr>k_unmaps := k_unmaps k @ map (Pair (p_l4 p)) us\<rparr>)))"

definition transfer_current_to_blocked :: "kernel \<Rightarrow> nat \<Rightarrow> nat \<Rightarrow> u64 \<Rightarrow> u64 \<times> kernel" where
  "transfer_current_to_blocked k me receiver slot =
     (case revoke_from_current k me (unat slot) of
        None \<Rightarrow> (NO_CAP, k)
      | Some (c, k1) \<Rightarrow>
          let k2 = note_removed k1 c False;
              lent = lent_to c (origin_new (k_current_slot k2 ! me) (unat slot)) receiver
          in (case install_into_blocked_home k2 receiver lent (cap_origin c) of
                Some (i, k3) \<Rightarrow> (of_nat i, note_added k3 c)
              | None \<Rightarrow> (NO_CAP, note_added (restore_to_current k2 me c) c)))"

definition install_home_current ::
    "kernel \<Rightarrow> nat \<Rightarrow> capability \<Rightarrow> origin option \<Rightarrow> nat \<Rightarrow> (nat \<times> kernel) option" where
  "install_home_current k me c prior dest =
     (case k_current k ! me of
        None \<Rightarrow> None
      | Some p \<Rightarrow>
          (case install_home (p_caps p) c prior dest of
             None \<Rightarrow> None
           | Some (i, t) \<Rightarrow> Some (i, set_current k me (Some (p\<lparr>p_caps := t\<rparr>)))))"

definition transfer_blocked_to_current :: "kernel \<Rightarrow> nat \<Rightarrow> nat \<Rightarrow> u64 \<Rightarrow> u64 \<times> kernel" where
  "transfer_blocked_to_current k me sender slot =
     (case revoke_from_blocked k sender (unat slot) of
        None \<Rightarrow> (NO_CAP, k)
      | Some (c, k1) \<Rightarrow>
          let k2 = note_removed k1 c False;
              dest = k_current_slot k2 ! me;
              lent = lent_to c (origin_new sender (unat slot)) dest
          in (case install_home_current k2 me lent (cap_origin c) dest of
                Some (i, k3) \<Rightarrow> (of_nat i, note_added k3 c)
              | None \<Rightarrow>
                  (let k3 = (case install_into_blocked k2 sender c of None \<Rightarrow> k2 | Some (_, k3) \<Rightarrow> k3)
                   in (NO_CAP, note_added k3 c))))"

definition ipc_send :: "kernel \<Rightarrow> nat \<Rightarrow> u64 \<Rightarrow> u64 \<Rightarrow> u64 \<Rightarrow> u64 \<Rightarrow> outcome option" where
  "ipc_send k me ep_slot msg slot frame_ptr =
     (case endpoint_id_for k me ep_slot RIGHT_SEND of
        None \<Rightarrow> Some (Returns IPC_ERR k)
      | Some i \<Rightarrow>
          (case take_waiting k i False of
             Some (receiver, k1) \<Rightarrow>
               let (landing, k2) = (if slot \<noteq> NO_CAP then transfer_current_to_blocked k1 me receiver slot
                                    else (NO_CAP, k1))
               in Some (Returns IPC_OK (wake_with k2 receiver IPC_OK msg landing))
           | None \<Rightarrow>
               if ep_receivers (k_endpoints k ! i) = 0 then Some (Returns IPC_PEER_DIED k)
               else let cur = current_slot k me in
                    blocks (block_current (enqueue_waiter (set_pending k cur msg slot False) i cur True) me frame_ptr)))"

definition ipc_recv :: "kernel \<Rightarrow> nat \<Rightarrow> u64 \<Rightarrow> u64 \<Rightarrow> outcome option" where
  "ipc_recv k me ep_slot frame_ptr =
     (case endpoint_id_for k me ep_slot RIGHT_RECV of
        None \<Rightarrow> Some (Returns IPC_ERR (write_reg k frame_ptr GP_RDX NO_CAP))
      | Some i \<Rightarrow>
          (case take_waiting k i True of
             Some (sender, k1) \<Rightarrow>
               let msg = take_pending k1 sender in
               if take_pending_call k1 sender then
                 let (reply_slot, k2) = mint_reply_cap_into_current k1 me sender in
                 Some (Returns IPC_OK (write_reg (write_reg k2 frame_ptr GP_RSI msg) frame_ptr GP_RDX reply_slot))
               else
                 let sender_cap = take_pending_cap k1 sender;
                     (landing, k2) = (if sender_cap \<noteq> NO_CAP then transfer_blocked_to_current k1 me sender sender_cap
                                      else (NO_CAP, k1));
                     k3 = wake_with k2 sender IPC_OK 0 NO_CAP
                 in Some (Returns IPC_OK (write_reg (write_reg k3 frame_ptr GP_RSI msg) frame_ptr GP_RDX landing))
           | None \<Rightarrow>
               if ep_senders (k_endpoints k ! i) = 0 then
                 let (landing, k1) = take_reclaim_landing k (current_slot k me) in
                 Some (Returns IPC_PEER_DIED (write_reg k1 frame_ptr GP_RDX landing))
               else blocks (block_current (enqueue_waiter k i (current_slot k me) False) me frame_ptr)))"

definition ipc_call :: "kernel \<Rightarrow> nat \<Rightarrow> u64 \<Rightarrow> u64 \<Rightarrow> u64 \<Rightarrow> outcome option" where
  "ipc_call k me ep_slot req frame_ptr =
     (case endpoint_id_for k me ep_slot RIGHT_SEND of
        None \<Rightarrow> Some (Returns IPC_ERR k)
      | Some i \<Rightarrow>
          (case take_waiting k i False of
             Some (server, k1) \<Rightarrow>
               let (reply_slot, k2) = mint_reply_cap_into_blocked k1 server (current_slot k1 me) in
               blocks (block_current (wake_with k2 server IPC_OK req reply_slot) me frame_ptr)
           | None \<Rightarrow>
               if ep_receivers (k_endpoints k ! i) = 0 then Some (Returns IPC_PEER_DIED k)
               else let cur = current_slot k me in
                    blocks (block_current (enqueue_waiter (set_pending k cur req NO_CAP True) i cur True) me frame_ptr)))"

definition reply_target :: "kernel \<Rightarrow> nat \<Rightarrow> u64 \<Rightarrow> nat option" where
  "reply_target k me reply_slot =
     (case k_current k ! me of
        None \<Rightarrow> None
      | Some p \<Rightarrow>
          (case lookup (p_caps p) (unat reply_slot) 0 of
             Inl _ \<Rightarrow> None
           | Inr c \<Rightarrow> (case cap_obj c of Reply caller \<Rightarrow> Some caller | _ \<Rightarrow> None)))"

definition revoke_current :: "kernel \<Rightarrow> nat \<Rightarrow> nat \<Rightarrow> kernel" where
  "revoke_current k me slot =
     (case k_current k ! me of
        None \<Rightarrow> k
      | Some p \<Rightarrow>
          (case revoke (p_caps p) slot of
             Inl _ \<Rightarrow> k
           | Inr (_, t) \<Rightarrow> set_current k me (Some (p\<lparr>p_caps := t\<rparr>))))"

definition ipc_reply :: "kernel \<Rightarrow> nat \<Rightarrow> u64 \<Rightarrow> u64 \<Rightarrow> outcome option" where
  "ipc_reply k me reply_slot msg =
     (case reply_target k me reply_slot of
        None \<Rightarrow> Some (Returns IPC_ERR k)
      | Some caller \<Rightarrow>
          if \<not> is_blocked k caller then Some (Returns IPC_ERR k)
          else Some (Returns IPC_OK
            (revoke_current (wake_with k caller IPC_OK msg NO_CAP) me (unat reply_slot))))"

section \<open>Death of a peer\<close>

text \<open>Draining one endpoint's queue; each dequeue follows the links, so the fuel is the number of
  slots a queue can hold.\<close>

fun wake_all_stranded :: "nat \<Rightarrow> kernel \<Rightarrow> nat \<Rightarrow> kernel" where
  "wake_all_stranded 0 k i = k"
| "wake_all_stranded (Suc fuel) k i =
     (case dequeue (ep_queue (k_endpoints k ! i)) (k_links k) of
        None \<Rightarrow> k
      | Some (t, q) \<Rightarrow>
          let k1 = set_endpoint k i ((k_endpoints k ! i)\<lparr>ep_queue := q\<rparr>);
              (landing, k2) = take_reclaim_landing k1 t
          in wake_all_stranded fuel (wake_with k2 t IPC_PEER_DIED 0 landing) i)"

definition reap_reply :: "kernel \<Rightarrow> capability \<Rightarrow> kernel" where
  "reap_reply k c =
     (case cap_obj c of
        Reply caller \<Rightarrow>
          if is_blocked k caller then
            let (_, k1) = take_reclaim_landing k caller in wake_with k1 caller IPC_PEER_DIED 0 NO_CAP
          else k
      | _ \<Rightarrow> k)"

definition dying_refs :: "u8 \<Rightarrow> nat \<Rightarrow> capability list \<Rightarrow> nat" where
  "dying_refs r i caps = length (filter (reaches r i) caps)"

definition reap_endpoint :: "capability list \<Rightarrow> kernel \<Rightarrow> nat \<Rightarrow> kernel" where
  "reap_endpoint caps k i =
     (let e = k_endpoints k ! i in
      if ep_in_use e \<and> death_strands_peers e (dying_refs RIGHT_SEND i caps) (dying_refs RIGHT_RECV i caps)
      then wake_all_stranded MAX_PROCESSES k i else k)"

definition reap_dying :: "kernel \<Rightarrow> cap_table \<Rightarrow> kernel" where
  "reap_dying k caps =
     foldl (reap_endpoint (ct_iter caps)) (foldl reap_reply k (ct_iter caps)) [0..<MAX_ENDPOINTS]"

end
