(* ===== verification/Held_Caps.thy ===== *)
theory Held_Caps
  imports Ipc
begin

text \<open>
  Every capability the system holds, as one multiset over all tables, parked and running, and
  the frame lemmas for the operations of \<open>Kernel\<close> and \<open>Ipc\<close> that move capabilities: what such an
  operation does to the multiset, and that it touches nothing but capability tables, page
  mappings and, through the endpoint accounting, counters.
\<close>

section \<open>The capabilities of one table\<close>

definition proc_caps :: "process option \<Rightarrow> capability multiset" where
  "proc_caps po = (case po of None \<Rightarrow> {#} | Some p \<Rightarrow> mset (ct_iter (p_caps p)))"

lemma proc_caps_simps [simp]: "proc_caps None = {#}" "proc_caps (Some p) = mset (ct_iter (p_caps p))"
  by (simp_all add: proc_caps_def)

lemma size_filter_table: "size (filter_mset P (mset (ct_iter t))) = cap_count P t"
proof -
  have "size (filter_mset P (mset (List.map_filter id es))) =
      length (filter (\<lambda>e. case e of None \<Rightarrow> False | Some c \<Rightarrow> P c) es)" for es
    by (induction es) (auto simp: map_filter_simps split: option.splits)
  then show ?thesis by (simp add: cap_count_def ct_iter_def)
qed

lemma count_filter_mset: "count M x = size (filter_mset (\<lambda>c. c = x) M)"
  by (induction M) auto

lemma count_table: "count (mset (ct_iter t)) x = cap_count (\<lambda>c. c = x) t"
  by (simp add: count_filter_mset size_filter_table)

lemma table_mset_add:
  assumes "\<And>P. cap_count P t' = cap_count P t + (if P c then 1 else 0)"
  shows "mset (ct_iter t') = add_mset c (mset (ct_iter t))"
  by (rule multiset_eqI) (simp add: count_table assms)

lemma install_mset: "ct_wf t \<Longrightarrow> install t c = Inr (i, t') \<Longrightarrow> mset (ct_iter t') = add_mset c (mset (ct_iter t))"
  by (rule table_mset_add) (rule cap_count_install)

lemma revoke_mset: "ct_wf t \<Longrightarrow> revoke t i = Inr (c, t') \<Longrightarrow> mset (ct_iter t) = add_mset c (mset (ct_iter t'))"
  by (rule table_mset_add) (rule cap_count_revoke)

lemma reclaim_to_mset:
  "ct_wf t \<Longrightarrow> reclaim_to t i c = Some (j, t') \<Longrightarrow> mset (ct_iter t') = add_mset c (mset (ct_iter t))"
  by (rule table_mset_add) (rule cap_count_reclaim_to)

lemma iter_reserve [simp]: "ct_iter (reserve t i) = ct_iter t"
  by (simp add: ct_iter_def reserve_def)

lemma install_home_mset:
  assumes "ct_wf t" and "install_home t c prior d = Some (i, t')"
  shows "mset (ct_iter t') = add_mset c (mset (ct_iter t))" and "ct_wf t'" and "i < MAX_CAPS"
    and "peek t' = (peek t)(i := Some c)" and "peek t i = None"
proof -
  have "(\<exists>s. reclaim_to t s c = Some (i, t')) \<or> install t c = Inr (i, t')"
    using assms(2) by (auto simp: install_home_def Let_def split: option.splits sum.splits if_splits)
  then have "mset (ct_iter t') = add_mset c (mset (ct_iter t)) \<and> ct_wf t' \<and> i < MAX_CAPS \<and>
      peek t' = (peek t)(i := Some c) \<and> peek t i = None"
  proof (elim disjE exE)
    fix s
    assume r: "reclaim_to t s c = Some (i, t')"
    then show ?thesis
      using reclaim_to_Some[OF assms(1) r] reclaim_to_mset[OF assms(1) r] reserved_empty[OF assms(1)] by auto
  next
    assume r: "install t c = Inr (i, t')"
    show ?thesis using install_Inr[OF assms(1) r] install_mset[OF assms(1) r] by simp
  qed
  then show "mset (ct_iter t') = add_mset c (mset (ct_iter t))" "ct_wf t'" "i < MAX_CAPS"
    "peek t' = (peek t)(i := Some c)" "peek t i = None" by blast+
qed

lemma for_lend_mset:
  assumes "ct_wf (p_caps p)" and "revoke_and_unmap_for_lend p slot = Some (c, p', us)"
  shows "mset (ct_iter (p_caps p)) = add_mset c (mset (ct_iter (p_caps p')))"
proof -
  obtain q where q: "revoke_and_unmap p slot = Some (c, q, us)"
    and p': "p' = (if lend_reserves_home c then q\<lparr>p_caps := reserve (p_caps q) slot\<rparr> else q)"
    using for_lend_Some[OF assms(2)] by blast
  obtain t where "revoke (p_caps p) slot = Inr (c, t)" "p_caps q = t"
    using revoke_and_unmap_Some(1)[OF q] by blast
  then show ?thesis using revoke_mset[OF assms(1)] p' by simp
qed

section \<open>The capabilities of the system\<close>

definition all_caps :: "kernel \<Rightarrow> capability multiset" where
  "all_caps k = sum_list (map (proc_caps \<circ> sl_process) (k_table k)) + sum_list (map proc_caps (k_current k))"

definition proc_ok :: "process option \<Rightarrow> bool" where
  "proc_ok po = (case po of None \<Rightarrow> True | Some p \<Rightarrow> ct_wf (p_caps p))"

lemma proc_ok_simps [simp]: "proc_ok None" "proc_ok (Some p) = ct_wf (p_caps p)"
  by (simp_all add: proc_ok_def)

definition tables_ok :: "kernel \<Rightarrow> bool" where
  "tables_ok k \<longleftrightarrow> (\<forall>s \<in> set (k_table k). proc_ok (sl_process s)) \<and> (\<forall>p \<in> set (k_current k). proc_ok p)"

lemma tables_okD:
  "tables_ok k \<Longrightarrow> t < length (k_table k) \<Longrightarrow> sl_process (slot_of k t) = Some p \<Longrightarrow> ct_wf (p_caps p)"
  "tables_ok k \<Longrightarrow> me < length (k_current k) \<Longrightarrow> k_current k ! me = Some p \<Longrightarrow> ct_wf (p_caps p)"
  unfolding tables_ok_def by (metis nth_mem proc_ok_simps(2))+

lemma tables_ok_slot:
  "tables_ok k \<Longrightarrow> proc_ok (sl_process s) \<Longrightarrow> tables_ok (k\<lparr>k_table := (k_table k)[t := s]\<rparr>)"
  by (auto simp: tables_ok_def dest!: set_list_update_subset[THEN subsetD])

lemma tables_ok_current:
  "tables_ok k \<Longrightarrow> proc_ok p \<Longrightarrow> tables_ok (k\<lparr>k_current := (k_current k)[c := p]\<rparr>)"
  by (auto simp: tables_ok_def dest!: set_list_update_subset[THEN subsetD])

lemma all_caps_slot:
  assumes "t < length (k_table k)"
  shows "all_caps (k\<lparr>k_table := (k_table k)[t := s]\<rparr>) + proc_caps (sl_process (slot_of k t)) =
    all_caps k + proc_caps (sl_process s)"
  using sum_list_map_update[OF assms, of "proc_caps \<circ> sl_process" s] by (simp add: all_caps_def)

lemma all_caps_current:
  assumes "c < length (k_current k)"
  shows "all_caps (k\<lparr>k_current := (k_current k)[c := p]\<rparr>) + proc_caps (k_current k ! c) =
    all_caps k + proc_caps p"
  using sum_list_map_update[OF assms, of proc_caps p] by (simp add: all_caps_def)

text \<open>A lookup through a running process names a capability the system holds.\<close>

lemma current_cap_held:
  assumes "me < length (k_current k)" "k_current k ! me = Some p" "peek (p_caps p) i = Some c"
  shows "c \<in># all_caps k"
proof -
  have "c \<in> set (ct_iter (p_caps p))"
    using assms(3) by (auto simp: ct_iter_def map_filter_id_set peek_def get_def split: if_splits option.splits)
      (metis nth_mem)
  then have "c \<in># proc_caps (Some p)" by simp
  moreover have "proc_caps (k_current k ! me) \<subseteq># sum_list (map proc_caps (k_current k))"
    using sum_list_map_update[OF assms(1), of proc_caps None]
    by (simp add: mset_subset_eq_exists_conv) (metis add.commute)
  ultimately show ?thesis using assms(2) by (auto simp: all_caps_def dest: mset_subset_eqD)
qed

section \<open>Operations that only move capabilities\<close>

definition caps_only :: "kernel \<Rightarrow> kernel \<Rightarrow> bool" where
  "caps_only k k' \<longleftrightarrow>
     (\<exists>tb cu us es. k' = k\<lparr>k_table := tb, k_current := cu, k_unmaps := us, k_endpoints := es\<rparr>) \<and>
     length (k_table k') = length (k_table k) \<and> length (k_current k') = length (k_current k) \<and>
     (\<forall>t. (slot_of k' t)\<lparr>sl_process := None\<rparr> = (slot_of k t)\<lparr>sl_process := None\<rparr> \<and>
          (sl_process (slot_of k' t) = None \<longleftrightarrow> sl_process (slot_of k t) = None)) \<and>
     (\<forall>c. k_current k' ! c = None \<longleftrightarrow> k_current k ! c = None)"

lemma caps_only_refl [simp]: "caps_only k k"
  unfolding caps_only_def by (intro conjI exI[of _ "k_table k"] exI[of _ "k_current k"]
      exI[of _ "k_unmaps k"] exI[of _ "k_endpoints k"]) simp_all

lemma caps_only_trans: "caps_only k k1 \<Longrightarrow> caps_only k1 k2 \<Longrightarrow> caps_only k k2"
  unfolding caps_only_def by (elim conjE exE, intro conjI exI) simp_all

lemma same_but_process:
  assumes "s'\<lparr>sl_process := None\<rparr> = s\<lparr>sl_process := None\<rparr>"
  shows "sl_state s' = sl_state s" "sl_rsp s' = sl_rsp s" "sl_boot_frames s' = sl_boot_frames s"
    "sl_msg s' = sl_msg s" "sl_cap s' = sl_cap s" "sl_call s' = sl_call s" "sl_landing s' = sl_landing s"
  using assms by (cases s, cases s', simp)+

lemma caps_onlyD:
  assumes "caps_only k k'"
  shows "length (k_table k') = length (k_table k)" "length (k_current k') = length (k_current k)"
    "state_of k' t = state_of k t" "sl_rsp (slot_of k' t) = sl_rsp (slot_of k t)"
    "sl_msg (slot_of k' t) = sl_msg (slot_of k t)" "sl_call (slot_of k' t) = sl_call (slot_of k t)"
    "sl_landing (slot_of k' t) = sl_landing (slot_of k t)" "sl_cap (slot_of k' t) = sl_cap (slot_of k t)"
    "sl_process (slot_of k' t) = None \<longleftrightarrow> sl_process (slot_of k t) = None"
    "k_current k' ! c = None \<longleftrightarrow> k_current k ! c = None"
    "k_links k' = k_links k" "k_current_slot k' = k_current_slot k" "k_queues k' = k_queues k"
    "k_frames k' = k_frames k" "is_blocked k' t = is_blocked k t"
proof -
  note A = assms[unfolded caps_only_def]
  show "length (k_table k') = length (k_table k)" "length (k_current k') = length (k_current k)"
    "sl_process (slot_of k' t) = None \<longleftrightarrow> sl_process (slot_of k t) = None"
    "k_current k' ! c = None \<longleftrightarrow> k_current k ! c = None"
    using A by (elim conjE, simp)+
  show "k_links k' = k_links k" "k_current_slot k' = k_current_slot k" "k_queues k' = k_queues k"
    "k_frames k' = k_frames k" using A by auto
  have "(slot_of k' t)\<lparr>sl_process := None\<rparr> = (slot_of k t)\<lparr>sl_process := None\<rparr>" using A by blast
  note S = same_but_process[OF this]
  show "state_of k' t = state_of k t" "sl_rsp (slot_of k' t) = sl_rsp (slot_of k t)"
    "sl_msg (slot_of k' t) = sl_msg (slot_of k t)" "sl_call (slot_of k' t) = sl_call (slot_of k t)"
    "sl_landing (slot_of k' t) = sl_landing (slot_of k t)" "sl_cap (slot_of k' t) = sl_cap (slot_of k t)"
    "is_blocked k' t = is_blocked k t"
    using S by (simp_all add: is_blocked_def)
qed

lemma sched_wf_cong:
  assumes "length (k_table k') = length (k_table k)" "length (k_current k') = length (k_current k)"
    "k_current_slot k' = k_current_slot k" "k_queues k' = k_queues k"
    "\<And>t. state_of k' t = state_of k t"
    "\<And>t. sl_process (slot_of k' t) = None \<longleftrightarrow> sl_process (slot_of k t) = None"
    "\<And>c. k_current k' ! c = None \<longleftrightarrow> k_current k ! c = None"
  shows "sched_wf k' = sched_wf k"
proof -
  have "shape k' = shape k" "queued k' = queued k" "live k' = live k"
    "\<And>c t. runs_on k' c t = runs_on k c t" "\<And>c t. homed k' c t = homed k c t"
    using assms by (simp_all add: shape_def queued_def live_def runs_on_def homed_def)
  then show ?thesis using assms(5,6) by (simp add: sched_wf_def)
qed

lemma caps_only_wf: "caps_only k k' \<Longrightarrow> sched_wf k' = sched_wf k"
  by (rule sched_wf_cong) (simp_all add: caps_onlyD)

text \<open>Replacing one process by another, in its slot or on its core.\<close>

lemma slot_process_change:
  assumes "tables_ok k" "t < length (k_table k)" "sl_process (slot_of k t) = Some p" "ct_wf (p_caps p')"
    and "k' = k\<lparr>k_table := (k_table k)[t := (slot_of k t)\<lparr>sl_process := Some p'\<rparr>], k_unmaps := us\<rparr>"
  shows "caps_only k k'" and "tables_ok k'" and "k_current k' = k_current k"
    and "all_caps k' + mset (ct_iter (p_caps p)) = all_caps k + mset (ct_iter (p_caps p'))"
proof -
  show "caps_only k k'" unfolding caps_only_def
  proof (intro conjI)
    show "\<exists>tb cu us es. k' = k\<lparr>k_table := tb, k_current := cu, k_unmaps := us, k_endpoints := es\<rparr>"
      unfolding assms(5) by (intro exI[of _ "k_current k"] exI[of _ "k_endpoints k"] exI) simp
  qed (use assms in \<open>auto simp: nth_list_update_cases\<close>)
  show "tables_ok k'"
    using tables_ok_slot[OF assms(1), of "(slot_of k t)\<lparr>sl_process := Some p'\<rparr>" t] assms(4,5)
    by (simp add: tables_ok_def)
  show "k_current k' = k_current k" using assms(5) by simp
  show "all_caps k' + mset (ct_iter (p_caps p)) = all_caps k + mset (ct_iter (p_caps p'))"
    using all_caps_slot[OF assms(2), of "(slot_of k t)\<lparr>sl_process := Some p'\<rparr>"] assms(3,5)
    by (simp add: all_caps_def)
qed

lemma current_process_change:
  assumes "tables_ok k" "c < length (k_current k)" "k_current k ! c = Some p" "ct_wf (p_caps p')"
    and "k' = k\<lparr>k_current := (k_current k)[c := Some p'], k_unmaps := us\<rparr>"
  shows "caps_only k k'" and "tables_ok k'" and "k_table k' = k_table k"
    and "all_caps k' + mset (ct_iter (p_caps p)) = all_caps k + mset (ct_iter (p_caps p'))"
proof -
  show "caps_only k k'" unfolding caps_only_def
  proof (intro conjI)
    show "\<exists>tb cu us es. k' = k\<lparr>k_table := tb, k_current := cu, k_unmaps := us, k_endpoints := es\<rparr>"
      unfolding assms(5) by (intro exI[of _ "k_table k"] exI[of _ "k_endpoints k"] exI) simp
  qed (use assms in \<open>auto simp: nth_list_update_cases\<close>)
  show "tables_ok k'"
    using tables_ok_current[OF assms(1), of "Some p'" c] assms(4,5) by (simp add: tables_ok_def)
  show "k_table k' = k_table k" using assms(5) by simp
  show "all_caps k' + mset (ct_iter (p_caps p)) = all_caps k + mset (ct_iter (p_caps p'))"
    using all_caps_current[OF assms(2), of "Some p'"] assms(3,5) by (simp add: all_caps_def)
qed

text \<open>\<open>exchanges k out inn k'\<close>: only tables changed, the capabilities \<open>out\<close> left and \<open>inn\<close> came.\<close>

definition exchanges ::
    "kernel \<Rightarrow> capability multiset \<Rightarrow> capability multiset \<Rightarrow> kernel \<Rightarrow> bool" where
  "exchanges k out inn k' \<longleftrightarrow> caps_only k k' \<and> tables_ok k' \<and> all_caps k' + out = all_caps k + inn"

lemma exchangesD:
  assumes "exchanges k out inn k'"
  shows "caps_only k k'" "tables_ok k'" "all_caps k' + out = all_caps k + inn"
  using assms by (simp_all add: exchanges_def)

lemma exchanges_refl: "tables_ok k \<Longrightarrow> exchanges k {#} {#} k"
  by (simp add: exchanges_def)

lemma exchanges_trans:
  assumes "exchanges k a b k1" "exchanges k1 c d k2"
  shows "exchanges k (a + c) (b + d) k2"
proof -
  have "all_caps k2 + c + all_caps k1 + a = all_caps k1 + d + all_caps k + b"
    using exchangesD(3)[OF assms(1)] exchangesD(3)[OF assms(2)] by (simp add: add.assoc)
  then have "all_caps k1 + (all_caps k2 + (a + c)) = all_caps k1 + (all_caps k + (b + d))"
    by (simp only: ac_simps)
  then have "all_caps k2 + (a + c) = all_caps k + (b + d)" by simp
  then show ?thesis
    using caps_only_trans[OF exchangesD(1)[OF assms(1)] exchangesD(1)[OF assms(2)]] exchangesD(2)[OF assms(2)]
    by (simp add: exchanges_def)
qed

lemma endpoints_irrelevant [simp]:
  "all_caps (k\<lparr>k_endpoints := es\<rparr>) = all_caps k" "tables_ok (k\<lparr>k_endpoints := es\<rparr>) = tables_ok k"
  by (simp_all add: all_caps_def tables_ok_def)

lemma caps_only_endpoints [simp]: "caps_only k (k\<lparr>k_endpoints := es\<rparr>)"
  unfolding caps_only_def
  by (intro conjI exI[of _ "k_table k"] exI[of _ "k_current k"] exI[of _ "k_unmaps k"] exI[of _ es]) simp_all

lemma exchanges_endpoints:
  "exchanges k a b k' \<Longrightarrow> exchanges k a b (k'\<lparr>k_endpoints := es\<rparr>)"
  unfolding exchanges_def by (auto intro: caps_only_trans)

lemma exchanges_from_endpoints:
  "exchanges (k\<lparr>k_endpoints := es\<rparr>) a b k' \<Longrightarrow> exchanges k a b k'"
  unfolding exchanges_def by (auto intro: caps_only_trans[OF caps_only_endpoints])

lemma slot_exchange:
  assumes "tables_ok k" "t < length (k_table k)" "sl_process (slot_of k t) = Some p" "ct_wf (p_caps p')"
    and "k' = k\<lparr>k_table := (k_table k)[t := (slot_of k t)\<lparr>sl_process := Some p'\<rparr>], k_unmaps := us\<rparr>"
    and "mset (ct_iter (p_caps p')) + out = mset (ct_iter (p_caps p)) + inn"
  shows "exchanges k out inn k'" and "k_current k' = k_current k" and "k_endpoints k' = k_endpoints k"
    and "slot_of k' t = (slot_of k t)\<lparr>sl_process := Some p'\<rparr>"
    and "\<And>u. u \<noteq> t \<Longrightarrow> slot_of k' u = slot_of k u"
proof -
  note C = slot_process_change[OF assms(1-5)]
  have "mset (ct_iter (p_caps p)) + (all_caps k' + out) = all_caps k + (mset (ct_iter (p_caps p')) + out)"
    using C(4) by (simp add: ac_simps)
  also have "\<dots> = mset (ct_iter (p_caps p)) + (all_caps k + inn)" unfolding assms(6) by (simp add: ac_simps)
  finally show "exchanges k out inn k'" using C by (simp add: exchanges_def)
qed (use assms in simp_all)

lemma current_exchange:
  assumes "tables_ok k" "c < length (k_current k)" "k_current k ! c = Some p" "ct_wf (p_caps p')"
    and "k' = k\<lparr>k_current := (k_current k)[c := Some p'], k_unmaps := us\<rparr>"
    and "mset (ct_iter (p_caps p')) + out = mset (ct_iter (p_caps p)) + inn"
  shows "exchanges k out inn k'" and "k_table k' = k_table k" and "k_endpoints k' = k_endpoints k"
    and "k_current k' ! c = Some p'" and "\<And>d. d \<noteq> c \<Longrightarrow> k_current k' ! d = k_current k ! d"
proof -
  note C = current_process_change[OF assms(1-5)]
  have "mset (ct_iter (p_caps p)) + (all_caps k' + out) = all_caps k + (mset (ct_iter (p_caps p')) + out)"
    using C(4) by (simp add: ac_simps)
  also have "\<dots> = mset (ct_iter (p_caps p)) + (all_caps k + inn)" unfolding assms(6) by (simp add: ac_simps)
  finally show "exchanges k out inn k'" using C by (simp add: exchanges_def)
qed (use assms in simp_all)

section \<open>What each move does\<close>

lemma revoke_from_current_Some:
  assumes "tables_ok k" "me < length (k_current k)" "k_current k ! me = Some p"
    and "revoke_from_current k me slot = Some (c, k')"
  obtains p' where "exchanges k {#c#} {#} k'" "k_table k' = k_table k" "k_endpoints k' = k_endpoints k"
    "k_current k' ! me = Some p'" "peek (p_caps p) slot = Some c"
    "peek (p_caps p') = (peek (p_caps p))(slot := None)"
    "is_reserved (p_caps p') = (if lend_reserves_home c then (is_reserved (p_caps p))(slot := True)
       else is_reserved (p_caps p))" "ct_wf (p_caps p')" "slot < MAX_CAPS"
proof -
  obtain p' us where r: "revoke_and_unmap_for_lend p slot = Some (c, p', us)"
    and k': "k' = k\<lparr>k_current := (k_current k)[me := Some p'], k_unmaps := k_unmaps k @ map (Pair (p_l4 p)) us\<rparr>"
    using assms(3,4)
    by (auto simp: revoke_from_current_def set_current_def split: option.splits prod.splits)
  have wf: "ct_wf (p_caps p)" using tables_okD(2)[OF assms(1-3)] .
  note F = for_lend_caps[OF wf r]
  have m: "mset (ct_iter (p_caps p')) + {#c#} = mset (ct_iter (p_caps p)) + {#}"
    using for_lend_mset[OF wf r] by simp
  note X = current_exchange[OF assms(1-3) F(4) k' m]
  show ?thesis using that[of p'] X F by simp
qed

lemma revoke_from_blocked_Some:
  assumes "tables_ok k" "t < length (k_table k)" "revoke_from_blocked k t slot = Some (c, k')"
  obtains p p' where "sl_process (slot_of k t) = Some p" "exchanges k {#c#} {#} k'"
    "k_current k' = k_current k" "k_endpoints k' = k_endpoints k"
    "slot_of k' t = (slot_of k t)\<lparr>sl_process := Some p'\<rparr>" "\<And>u. u \<noteq> t \<Longrightarrow> slot_of k' u = slot_of k u"
    "peek (p_caps p) slot = Some c" "peek (p_caps p') = (peek (p_caps p))(slot := None)"
    "is_reserved (p_caps p') = (if lend_reserves_home c then (is_reserved (p_caps p))(slot := True)
       else is_reserved (p_caps p))" "ct_wf (p_caps p')" "slot < MAX_CAPS"
proof -
  obtain p p' us where p: "sl_process (slot_of k t) = Some p"
    and r: "revoke_and_unmap_for_lend p slot = Some (c, p', us)"
    and k': "k' = k\<lparr>k_table := (k_table k)[t := (slot_of k t)\<lparr>sl_process := Some p'\<rparr>],
      k_unmaps := k_unmaps k @ map (Pair (p_l4 p)) us\<rparr>"
    using assms(3)
    by (auto simp: revoke_from_blocked_def set_slot_def split: option.splits prod.splits)
  have wf: "ct_wf (p_caps p)" using tables_okD(1)[OF assms(1,2) p] .
  note F = for_lend_caps[OF wf r]
  have m: "mset (ct_iter (p_caps p')) + {#c#} = mset (ct_iter (p_caps p)) + {#}"
    using for_lend_mset[OF wf r] by simp
  note X = slot_exchange[OF assms(1,2) p F(4) k' m]
  show ?thesis using that[of p p'] p X F by simp
qed

lemma install_blocked_home_Some:
  assumes "tables_ok k" "t < length (k_table k)" "install_into_blocked_home k t c prior = Some (i, k')"
  obtains p p' where "sl_process (slot_of k t) = Some p" "exchanges k {#} {#c#} k'"
    "k_current k' = k_current k" "k_endpoints k' = k_endpoints k"
    "slot_of k' t = (slot_of k t)\<lparr>sl_process := Some p'\<rparr>" "\<And>u. u \<noteq> t \<Longrightarrow> slot_of k' u = slot_of k u"
    "peek (p_caps p) i = None" "peek (p_caps p') = (peek (p_caps p))(i := Some c)" "i < MAX_CAPS"
proof -
  obtain p t' where p: "sl_process (slot_of k t) = Some p"
    and r: "install_home (p_caps p) c prior t = Some (i, t')"
    and k': "k' = k\<lparr>k_table := (k_table k)[t := (slot_of k t)\<lparr>sl_process := Some (p\<lparr>p_caps := t'\<rparr>)\<rparr>]\<rparr>"
    using assms(3)
    by (auto simp: install_into_blocked_home_def set_slot_def set_caps_def split: option.splits prod.splits)
  have wf: "ct_wf (p_caps p)" using tables_okD(1)[OF assms(1,2) p] .
  note F = install_home_mset[OF wf r]
  have k2: "k' = k\<lparr>k_table := (k_table k)[t := (slot_of k t)\<lparr>sl_process := Some (p\<lparr>p_caps := t'\<rparr>)\<rparr>],
      k_unmaps := k_unmaps k\<rparr>" using k' by simp
  note X = slot_exchange[OF assms(1,2) p _ k2, of "{#}" "{#c#}"]
  show ?thesis using that[of p "p\<lparr>p_caps := t'\<rparr>"] p X F by simp
qed

lemma install_blocked_Some:
  assumes "tables_ok k" "t < length (k_table k)" "install_into_blocked k t c = Some (i, k')"
  obtains p p' where "sl_process (slot_of k t) = Some p" "exchanges k {#} {#c#} k'"
    "k_current k' = k_current k" "k_endpoints k' = k_endpoints k"
    "slot_of k' t = (slot_of k t)\<lparr>sl_process := Some p'\<rparr>" "\<And>u. u \<noteq> t \<Longrightarrow> slot_of k' u = slot_of k u"
    "peek (p_caps p) i = None" "peek (p_caps p') = (peek (p_caps p))(i := Some c)" "i < MAX_CAPS"
proof -
  obtain p t' where p: "sl_process (slot_of k t) = Some p"
    and r: "install (p_caps p) c = Inr (i, t')"
    and k': "k' = k\<lparr>k_table := (k_table k)[t := (slot_of k t)\<lparr>sl_process := Some (p\<lparr>p_caps := t'\<rparr>)\<rparr>]\<rparr>"
    using assms(3)
    by (auto simp: install_into_blocked_def set_slot_def set_caps_def split: option.splits prod.splits sum.splits)
  have wf: "ct_wf (p_caps p)" using tables_okD(1)[OF assms(1,2) p] .
  note F = install_Inr[OF wf r] install_mset[OF wf r]
  have k2: "k' = k\<lparr>k_table := (k_table k)[t := (slot_of k t)\<lparr>sl_process := Some (p\<lparr>p_caps := t'\<rparr>)\<rparr>],
      k_unmaps := k_unmaps k\<rparr>" using k' by simp
  note X = slot_exchange[OF assms(1,2) p _ k2, of "{#}" "{#c#}"]
  show ?thesis using that[of p "p\<lparr>p_caps := t'\<rparr>"] p X F by simp
qed

lemma current_install_exchange:
  assumes "tables_ok k" "me < length (k_current k)" "k_current k ! me = Some p"
    and "ct_wf t'" "mset (ct_iter t') = add_mset c (mset (ct_iter (p_caps p)))"
    and "k' = set_current k me (Some (p\<lparr>p_caps := t'\<rparr>))"
  shows "exchanges k {#} {#c#} k'" "k_table k' = k_table k" "k_endpoints k' = k_endpoints k"
    "k_current k' ! me = Some (p\<lparr>p_caps := t'\<rparr>)"
proof -
  have k2: "k' = k\<lparr>k_current := (k_current k)[me := Some (p\<lparr>p_caps := t'\<rparr>)], k_unmaps := k_unmaps k\<rparr>"
    using assms(6) by (simp add: set_current_def)
  note X = current_exchange[OF assms(1-3) _ k2, of "{#}" "{#c#}"]
  show "exchanges k {#} {#c#} k'" "k_table k' = k_table k" "k_endpoints k' = k_endpoints k"
    "k_current k' ! me = Some (p\<lparr>p_caps := t'\<rparr>)"
    using X assms(4,5) by simp_all
qed

section \<open>Transfers\<close>

text \<open>A move that removes without freeing and adds back leaves the endpoint table as it was.\<close>

lemma note_move:
  assumes "counts_ok eps C" and "c \<in># C" and "ids_ok C"
  shows "note_cap_added (note_cap_removed eps c False) c = eps"
proof (cases "cap_obj c")
  case (Endpoint i)
  then have i: "i < MAX_ENDPOINTS" using assms(2,3) by (auto simp: ids_ok_def)
  obtain D where D: "C = add_mset c D" using multi_member_split[OF assms(2)] by blast
  have "(if has_right (cap_rights c) RIGHT_SEND then 1 else 0) \<le> ep_senders (eps ! i)"
    "(if has_right (cap_rights c) RIGHT_RECV then 1 else 0) \<le> ep_receivers (eps ! i)"
    using assms(1) i Endpoint by (simp_all add: counts_ok_def D reaches_def)
  then have "add_cap (remove_cap (eps ! i) (cap_rights c)) (cap_rights c) = eps ! i"
    by (cases "eps ! i") (simp add: add_cap_def remove_cap_def Let_def split: if_splits)
  moreover have "i < length eps" using i assms(1) by (simp add: counts_ok_def)
  ultimately show ?thesis using Endpoint by (simp add: note_cap_added_def note_cap_removed_def)
qed (simp_all add: note_cap_added_def note_cap_removed_def)

text \<open>
  How a transfer can end: the capability moved, nothing changed hands, or (a reclaimable one, when
  neither table had a free slot) it was lost.
\<close>

definition transfer_ends :: "kernel \<Rightarrow> capability \<Rightarrow> capability \<Rightarrow> kernel \<Rightarrow> bool" where
  "transfer_ends k c c' k' \<longleftrightarrow>
     exchanges k {#c#} {#c'#} k' \<or> exchanges k {#} {#} k' \<or> (lend_reserves_home c \<and> exchanges k {#c#} {#} k')"

definition neutral :: "(capability \<Rightarrow> bool) \<Rightarrow> bool" where
  "neutral P \<longleftrightarrow> (\<forall>c og. P (c\<lparr>cap_origin := og\<rparr>) = P c) \<and> (\<forall>c. lend_reserves_home c \<longrightarrow> \<not> P c)"

abbreviation tally :: "(capability \<Rightarrow> bool) \<Rightarrow> kernel \<Rightarrow> nat" where
  "tally P k \<equiv> size (filter_mset P (all_caps k))"

lemma exchanges_tally:
  assumes "exchanges k out inn k'"
  shows "tally P k' + size (filter_mset P out) = tally P k + size (filter_mset P inn)"
proof -
  have "size (filter_mset P (all_caps k' + out)) = size (filter_mset P (all_caps k + inn))"
    by (simp only: exchangesD(3)[OF assms])
  then show ?thesis by simp
qed

lemma transfer_tally:
  assumes "neutral P" and "transfer_ends k c (lent_to c og d) k'"
  shows "tally P k' = tally P k"
proof -
  have "P (lent_to c og d) = P c" using assms(1) by (simp add: neutral_def lent_to_def)
  moreover have "\<not> P c" if "lend_reserves_home c" using assms(1) that by (simp add: neutral_def)
  ultimately show ?thesis
    using assms(2) by (auto simp: transfer_ends_def dest!: exchanges_tally[where P = P] split: if_splits)
qed

lemma neutral_reaches [intro]: "neutral (reaches r i)"
  by (auto simp: neutral_def reaches_def lend_reserves_home_def)

lemma neutral_reply [intro]: "neutral (\<lambda>c. cap_obj c = Reply t)"
  by (auto simp: neutral_def lend_reserves_home_def)

lemma neutral_bad_id [intro]: "neutral (\<lambda>c. \<exists>i \<ge> MAX_ENDPOINTS. cap_obj c = Endpoint i)"
  by (auto simp: neutral_def lend_reserves_home_def)

lemma ids_ok_tally: "ids_ok (all_caps k) \<longleftrightarrow> tally (\<lambda>c. \<exists>i \<ge> MAX_ENDPOINTS. cap_obj c = Endpoint i) k = 0"
  by (auto simp: ids_ok_def filter_mset_eq_conv not_less) (meson not_le)

lemma restore_to_current_ends:
  assumes "tables_ok k" "me < length (k_current k)" "k_current k ! me = Some p"
    and "\<not> lend_reserves_home c \<Longrightarrow> peek (p_caps p) i = None \<and> \<not> is_reserved (p_caps p) i \<and> i < MAX_CAPS"
  shows "k_endpoints (restore_to_current k me c) = k_endpoints k"
    and "exchanges k {#} {#c#} (restore_to_current k me c) \<or>
      (lend_reserves_home c \<and> restore_to_current k me c = k)"
proof -
  have wf: "ct_wf (p_caps p)" using tables_okD(2)[OF assms(1-3)] .
  have R: "k_endpoints (restore_to_current k me c) = k_endpoints k \<and>
    (exchanges k {#} {#c#} (restore_to_current k me c) \<or> (lend_reserves_home c \<and> restore_to_current k me c = k))"
  proof (cases "install (p_caps p) c")
    case (Inl e)
    then have "lend_reserves_home c" using assms(4) install_Inl_iff[OF wf] by blast
    then show ?thesis using Inl assms(3) by (simp add: restore_to_current_def)
  next
    case (Inr r)
    obtain j t' where r: "install (p_caps p) c = Inr (j, t')" using Inr by (cases r) simp
    have e: "restore_to_current k me c = set_current k me (Some (p\<lparr>p_caps := t'\<rparr>))"
      using r assms(3) by (simp add: restore_to_current_def)
    show ?thesis
      using current_install_exchange(1,3)[OF assms(1-3) install_Inr(7)[OF wf r] install_mset[OF wf r] e] by blast
  qed
  show "k_endpoints (restore_to_current k me c) = k_endpoints k" by (rule conjunct1[OF R])
  show "exchanges k {#} {#c#} (restore_to_current k me c) \<or> (lend_reserves_home c \<and> restore_to_current k me c = k)"
    by (rule conjunct2[OF R])
qed

lemma note_endpoints:
  "note_removed k c b = k\<lparr>k_endpoints := note_cap_removed (k_endpoints k) c b\<rparr>"
  "note_added k c = k\<lparr>k_endpoints := note_cap_added (k_endpoints k) c\<rparr>"
  by (simp_all add: note_removed_def note_added_def)

lemma note_views [simp]:
  "k_table (note_removed k c b) = k_table k" "k_current (note_removed k c b) = k_current k"
  "k_current_slot (note_removed k c b) = k_current_slot k" "tables_ok (note_removed k c b) = tables_ok k"
  "k_table (note_added k c) = k_table k" "k_current (note_added k c) = k_current k"
  by (simp_all add: note_endpoints)

lemma put_back_ends:
  assumes "exchanges k {#c#} {#} k2" "exchanges k2 {#} {#c#} k3 \<or> (lend_reserves_home c \<and> k3 = k2)"
  shows "exchanges k {#} {#} (note_added k3 c) \<or> (lend_reserves_home c \<and> exchanges k {#c#} {#} (note_added k3 c))"
  using assms(2)
proof (elim disjE conjE)
  assume X3: "exchanges k2 {#} {#c#} k3"
  have "exchanges k {#c#} {#c#} k3" using exchanges_trans[OF assms(1) X3] by simp
  then have "exchanges k {#} {#} k3" by (simp add: exchanges_def)
  then show ?thesis unfolding note_endpoints by (intro disjI1 exchanges_endpoints)
next
  assume "lend_reserves_home c" "k3 = k2"
  then show ?thesis unfolding note_endpoints using assms(1) by (auto intro: exchanges_endpoints)
qed

lemma transfer_to_blocked_ends:
  assumes "tables_ok k" "me < length (k_current k)" "k_current k ! me = Some p" "r < length (k_table k)"
    and "counts_ok (k_endpoints k) (all_caps k)" "ids_ok (all_caps k)"
    and "transfer_current_to_blocked k me r slot = (l, k')"
  shows "k_endpoints k' = k_endpoints k \<and> (l = NO_CAP \<and> k' = k \<or>
    (\<exists>c. transfer_ends k c (lent_to c (origin_new (k_current_slot k ! me) (unat slot)) r) k'))"
proof (cases "revoke_from_current k me (unat slot)")
  case None
  then show ?thesis using assms(7) by (simp add: transfer_current_to_blocked_def)
next
  case (Some cr)
  obtain c k1 where r1: "revoke_from_current k me (unat slot) = Some (c, k1)" using Some by (cases cr) simp
  obtain p1 where R: "exchanges k {#c#} {#} k1" "k_table k1 = k_table k" "k_endpoints k1 = k_endpoints k"
    "k_current k1 ! me = Some p1" "peek (p_caps p) (unat slot) = Some c"
    "peek (p_caps p1) = (peek (p_caps p))(unat slot := None)"
    "is_reserved (p_caps p1) = (if lend_reserves_home c then (is_reserved (p_caps p))(unat slot := True)
       else is_reserved (p_caps p))" "ct_wf (p_caps p1)" "unat slot < MAX_CAPS"
    using revoke_from_current_Some[OF assms(1-3) r1] .
  define k2 where "k2 = note_removed k1 c False"
  define c' where "c' = lent_to c (origin_new (k_current_slot k ! me) (unat slot)) r"
  have X2: "exchanges k {#c#} {#} k2" unfolding k2_def note_endpoints by (rule exchanges_endpoints[OF R(1)])
  have ok2: "tables_ok k2" using exchangesD(2)[OF X2] .
  have cs: "k_current_slot k2 = k_current_slot k" using caps_onlyD(12)[OF exchangesD(1)[OF X2]] .
  have len: "me < length (k_current k2)" "r < length (k_table k2)"
    using caps_onlyD(1,2)[OF exchangesD(1)[OF X2]] assms(2,4) by simp_all
  have held: "c \<in># all_caps k" using current_cap_held[OF assms(2,3) R(5)] .
  have restored: "note_cap_added (k_endpoints k2) c = k_endpoints k"
    unfolding k2_def using note_move[OF assms(5) held assms(6)] by (simp add: note_endpoints R(3))
  show ?thesis
  proof (cases "install_into_blocked_home k2 r c' (cap_origin c)")
    case (Some jr)
    obtain i k3 where i3: "install_into_blocked_home k2 r c' (cap_origin c) = Some (i, k3)" using Some by (cases jr) simp
    obtain q q' where I: "exchanges k2 {#} {#c'#} k3" "k_endpoints k3 = k_endpoints k2"
      using install_blocked_home_Some[OF ok2 len(2) i3] by metis
    have "k' = note_added k3 c" using assms(7) r1 i3 cs by (simp add: transfer_current_to_blocked_def k2_def c'_def Let_def)
    moreover have "exchanges k {#c#} {#c'#} (note_added k3 c)"
      unfolding note_endpoints using exchanges_endpoints[OF exchanges_trans[OF X2 I(1)]] by simp
    ultimately show ?thesis using restored I(2) by (auto simp: transfer_ends_def c'_def note_endpoints)
  next
    case None
    define k3 where "k3 = restore_to_current k2 me c"
    have cur: "k_current k2 ! me = Some p1" using R(4) by (simp add: k2_def)
    have room: "peek (p_caps p1) (unat slot) = None \<and>
        \<not> is_reserved (p_caps p1) (unat slot) \<and> unat slot < MAX_CAPS" if "\<not> lend_reserves_home c"
      using that R(5-9) reserved_empty[OF tables_okD(2)[OF assms(1-3)], of "unat slot"] by auto
    note S = restore_to_current_ends[OF ok2 len(1) cur, of c "unat slot", OF room, simplified, folded k3_def]
    have k': "k' = note_added k3 c"
      using assms(7) r1 None cs by (simp add: transfer_current_to_blocked_def k2_def c'_def k3_def Let_def)
    have "exchanges k {#} {#} k' \<or> (lend_reserves_home c \<and> exchanges k {#c#} {#} k')"
      unfolding k' by (rule put_back_ends[OF X2 S(2)])
    moreover have "k_endpoints k' = k_endpoints k" using restored S(1) by (simp add: k' note_endpoints)
    ultimately show ?thesis unfolding transfer_ends_def by blast
  qed
qed

lemma restore_to_blocked_ends:
  assumes "tables_ok k" "t < length (k_table k)" "sl_process (slot_of k t) = Some p"
    and "\<not> lend_reserves_home c \<Longrightarrow> peek (p_caps p) i = None \<and> \<not> is_reserved (p_caps p) i \<and> i < MAX_CAPS"
    and "k' = (case install_into_blocked k t c of None \<Rightarrow> k | Some (_, k3) \<Rightarrow> k3)"
  shows "k_endpoints k' = k_endpoints k" and "exchanges k {#} {#c#} k' \<or> (lend_reserves_home c \<and> k' = k)"
proof -
  have wf: "ct_wf (p_caps p)" using tables_okD(1)[OF assms(1-3)] .
  have R: "k_endpoints k' = k_endpoints k \<and> (exchanges k {#} {#c#} k' \<or> (lend_reserves_home c \<and> k' = k))"
  proof (cases "install_into_blocked k t c")
    case None
    then obtain e where "install (p_caps p) c = Inl e"
      using assms(3) by (auto simp: install_into_blocked_def split: sum.splits prod.splits)
    then have "lend_reserves_home c" using assms(4) install_Inl_iff[OF wf] by blast
    then show ?thesis using None assms(5) by simp
  next
    case (Some r)
    obtain j k3 where r: "install_into_blocked k t c = Some (j, k3)" using Some by (cases r) simp
    have "exchanges k {#} {#c#} k3" "k_endpoints k3 = k_endpoints k"
      using install_blocked_Some[OF assms(1,2) r] by metis+
    then show ?thesis using r assms(5) by simp
  qed
  show "k_endpoints k' = k_endpoints k" by (rule conjunct1[OF R])
  show "exchanges k {#} {#c#} k' \<or> (lend_reserves_home c \<and> k' = k)" by (rule conjunct2[OF R])
qed

text \<open>A capability in a parked table is held too.\<close>

lemma blocked_cap_held:
  assumes "tables_ok k" "t < length (k_table k)" "sl_process (slot_of k t) = Some p" "peek (p_caps p) i = Some c"
  shows "c \<in># all_caps k"
proof -
  obtain t' where r: "revoke (p_caps p) i = Inr (c, t')"
    using revoke_Some[OF tables_okD(1)[OF assms(1-3)] assms(4)] by blast
  have "c \<in># mset (ct_iter (p_caps p))" using revoke_mset[OF tables_okD(1)[OF assms(1-3)] r] by simp
  then show ?thesis
    using all_caps_slot[OF assms(2), of "(slot_of k t)\<lparr>sl_process := None\<rparr>"] assms(3)
    by (simp, metis in_multiset_in_set union_iff)
qed

lemma install_home_current_Some:
  assumes "tables_ok k" "me < length (k_current k)" "install_home_current k me c prior d = Some (i, k')"
  obtains p p' where "k_current k ! me = Some p" "exchanges k {#} {#c#} k'" "k_table k' = k_table k"
    "k_endpoints k' = k_endpoints k" "k_current k' ! me = Some p'"
    "peek (p_caps p) i = None" "peek (p_caps p') = (peek (p_caps p))(i := Some c)" "i < MAX_CAPS"
proof -
  obtain p t' where p: "k_current k ! me = Some p" and r: "install_home (p_caps p) c prior d = Some (i, t')"
    and k': "k' = set_current k me (Some (p\<lparr>p_caps := t'\<rparr>))"
    using assms(3) by (auto simp: install_home_current_def split: option.splits prod.splits)
  note F = install_home_mset[OF tables_okD(2)[OF assms(1,2) p] r]
  note X = current_install_exchange[OF assms(1,2) p F(2,1) k']
  show ?thesis using that[of p "p\<lparr>p_caps := t'\<rparr>"] p X F by simp
qed

lemma transfer_from_blocked_ends:
  assumes "tables_ok k" "me < length (k_current k)" "s < length (k_table k)"
    and "counts_ok (k_endpoints k) (all_caps k)" "ids_ok (all_caps k)"
    and "transfer_blocked_to_current k me s slot = (l, k')"
  shows "k_endpoints k' = k_endpoints k \<and> (l = NO_CAP \<and> k' = k \<or>
    (\<exists>c. transfer_ends k c (lent_to c (origin_new s (unat slot)) (k_current_slot k ! me)) k'))"
proof (cases "revoke_from_blocked k s (unat slot)")
  case None
  then show ?thesis using assms(6) by (simp add: transfer_blocked_to_current_def)
next
  case (Some cr)
  obtain c k1 where r1: "revoke_from_blocked k s (unat slot) = Some (c, k1)" using Some by (cases cr) simp
  obtain p p1 where p: "sl_process (slot_of k s) = Some p" and R: "exchanges k {#c#} {#} k1"
    "k_current k1 = k_current k" "k_endpoints k1 = k_endpoints k"
    "slot_of k1 s = (slot_of k s)\<lparr>sl_process := Some p1\<rparr>" "peek (p_caps p) (unat slot) = Some c"
    "peek (p_caps p1) = (peek (p_caps p))(unat slot := None)"
    "is_reserved (p_caps p1) = (if lend_reserves_home c then (is_reserved (p_caps p))(unat slot := True)
       else is_reserved (p_caps p))" "ct_wf (p_caps p1)" "unat slot < MAX_CAPS"
    using revoke_from_blocked_Some[OF assms(1,3) r1] .
  define d where "d = k_current_slot k ! me"
  define k2 where "k2 = note_removed k1 c False"
  define c' where "c' = lent_to c (origin_new s (unat slot)) d"
  have X2: "exchanges k {#c#} {#} k2" unfolding k2_def note_endpoints by (rule exchanges_endpoints[OF R(1)])
  have ok2: "tables_ok k2" using exchangesD(2)[OF X2] .
  have cs: "k_current_slot k1 ! me = d" using caps_onlyD(12)[OF exchangesD(1)[OF R(1)]] by (simp add: d_def)
  have len: "me < length (k_current k2)" "s < length (k_table k2)"
    using caps_onlyD(1,2)[OF exchangesD(1)[OF X2]] assms(2,3) by simp_all
  have held: "c \<in># all_caps k" using blocked_cap_held[OF assms(1,3) p R(5)] .
  have restored: "note_cap_added (k_endpoints k2) c = k_endpoints k"
    unfolding k2_def using note_move[OF assms(4) held assms(5)] by (simp add: note_endpoints R(3))
  show ?thesis
  proof (cases "install_home_current k2 me c' (cap_origin c) d")
    case (Some jr)
    obtain i k3 where i3: "install_home_current k2 me c' (cap_origin c) d = Some (i, k3)" using Some by (cases jr) simp
    obtain q q' where I: "exchanges k2 {#} {#c'#} k3" "k_endpoints k3 = k_endpoints k2"
      using install_home_current_Some[OF ok2 len(1) i3] by metis
    have "k' = note_added k3 c"
      using assms(6) r1 i3 cs by (simp add: transfer_blocked_to_current_def k2_def c'_def Let_def)
    moreover have "exchanges k {#c#} {#c'#} (note_added k3 c)"
      unfolding note_endpoints using exchanges_endpoints[OF exchanges_trans[OF X2 I(1)]] by simp
    ultimately show ?thesis using restored I(2) by (auto simp: transfer_ends_def c'_def d_def note_endpoints)
  next
    case None
    define k3 where "k3 = (case install_into_blocked k2 s c of None \<Rightarrow> k2 | Some (_, k3) \<Rightarrow> k3)"
    have sp: "sl_process (slot_of k2 s) = Some p1" using R(4) by (simp add: k2_def)
    have room: "peek (p_caps p1) (unat slot) = None \<and>
        \<not> is_reserved (p_caps p1) (unat slot) \<and> unat slot < MAX_CAPS" if "\<not> lend_reserves_home c"
      using that R(5-9) reserved_empty[OF tables_okD(1)[OF assms(1,3) p], of "unat slot"] by auto
    note S = restore_to_blocked_ends[OF ok2 len(2) sp, of c "unat slot", OF room k3_def, simplified]
    have k': "k' = note_added k3 c"
      using assms(6) r1 None cs unfolding k3_def k2_def c'_def
      by (simp add: transfer_blocked_to_current_def Let_def)
    have "exchanges k {#} {#} k' \<or> (lend_reserves_home c \<and> exchanges k {#c#} {#} k')"
      unfolding k' by (rule put_back_ends[OF X2 S(2)])
    moreover have "k_endpoints k' = k_endpoints k" using restored S(1) by (simp add: k' note_endpoints)
    ultimately show ?thesis unfolding transfer_ends_def by blast
  qed
qed

end
