(* ===== verification/Rendezvous.thy ===== *)
theory Rendezvous
  imports Held_Caps
begin

text \<open>
  Correctness of the synchronous IPC of \<open>Ipc\<close>: the invariant of endpoints, queues and reply
  capabilities, its preservation by every operation, the rendezvous itself, and what a death does
  to the peers that were waiting on it.
\<close>

section \<open>The invariant\<close>

text \<open>The side an endpoint's queue waits for can still be reached.\<close>

definition served :: "endpoint \<Rightarrow> bool" where
  "served e \<longleftrightarrow> (if wq_are_senders (ep_queue e) then 0 < ep_receivers e else 0 < ep_senders e)"

definition reply_to :: "nat \<Rightarrow> capability \<Rightarrow> bool" where
  "reply_to t c \<longleftrightarrow> cap_obj c = Reply t"

text \<open>
  \<open>Q i\<close> lists the slots waiting on endpoint \<open>i\<close>.  \<open>X\<close> holds the slots an operation in progress is
  about to block; it is empty between operations.
\<close>

definition queues_ok :: "nat set \<Rightarrow> kernel \<Rightarrow> (nat \<Rightarrow> nat list) \<Rightarrow> bool" where
  "queues_ok X k Q \<longleftrightarrow> length (k_links k) = MAX_PROCESSES \<and>
     (\<forall>i < MAX_ENDPOINTS.
        wq_rep (ep_queue (k_endpoints k ! i)) (k_links k) (Q i) \<and>
        (\<forall>t \<in> set (Q i). is_blocked k t \<or> t \<in> X) \<and>
        (Q i \<noteq> [] \<longrightarrow> ep_in_use (k_endpoints k ! i) \<and> served (k_endpoints k ! i)) \<and>
        (\<not> ep_in_use (k_endpoints k ! i) \<longrightarrow>
           ep_senders (k_endpoints k ! i) = 0 \<and> ep_receivers (k_endpoints k ! i) = 0) \<and>
        (\<forall>j < MAX_ENDPOINTS. j \<noteq> i \<longrightarrow> set (Q i) \<inter> set (Q j) = {}))"

definition waits_nowhere :: "(nat \<Rightarrow> nat list) \<Rightarrow> nat \<Rightarrow> bool" where
  "waits_nowhere Q t \<longleftrightarrow> (\<forall>i < MAX_ENDPOINTS. t \<notin> set (Q i))"

lemma waits_nowhere_mono: "(\<And>j. set (Q' j) \<subseteq> set (Q j)) \<Longrightarrow> waits_nowhere Q t \<Longrightarrow> waits_nowhere Q' t"
  by (auto simp: waits_nowhere_def)

text \<open>A reply capability is unique and names a caller blocked outside every queue.\<close>

definition replies_ok :: "nat set \<Rightarrow> kernel \<Rightarrow> (nat \<Rightarrow> nat list) \<Rightarrow> bool" where
  "replies_ok X k Q \<longleftrightarrow> (\<forall>t. tally (reply_to t) k \<le> 1 \<and>
     (tally (reply_to t) k = 1 \<longrightarrow> t < MAX_PROCESSES \<and> (is_blocked k t \<or> t \<in> X) \<and> waits_nowhere Q t))"

definition ipc_inv_at :: "nat set \<Rightarrow> kernel \<Rightarrow> (nat \<Rightarrow> nat list) \<Rightarrow> bool" where
  "ipc_inv_at X k Q \<longleftrightarrow> sched_wf k \<and> tables_ok k \<and> counts_ok (k_endpoints k) (all_caps k) \<and>
     ids_ok (all_caps k) \<and> queues_ok X k Q \<and> replies_ok X k Q"

definition ipc_inv :: "kernel \<Rightarrow> (nat \<Rightarrow> nat list) \<Rightarrow> bool" where
  "ipc_inv k Q \<longleftrightarrow> ipc_inv_at {} k Q"

lemma ipc_inv_atD:
  assumes "ipc_inv_at X k Q"
  shows "sched_wf k" "tables_ok k" "counts_ok (k_endpoints k) (all_caps k)" "ids_ok (all_caps k)"
    "queues_ok X k Q" "replies_ok X k Q" "length (k_table k) = MAX_PROCESSES"
    "length (k_current k) = MAX_CORES" "length (k_endpoints k) = MAX_ENDPOINTS"
  using assms by (auto simp: ipc_inv_at_def sched_wf_def shape_def counts_ok_def)

lemma queues_okD:
  assumes "queues_ok X k Q" "i < MAX_ENDPOINTS"
  shows "wq_rep (ep_queue (k_endpoints k ! i)) (k_links k) (Q i)" "length (k_links k) = MAX_PROCESSES"
    "t \<in> set (Q i) \<Longrightarrow> (is_blocked k t \<or> t \<in> X) \<and> t < MAX_PROCESSES"
    "Q i \<noteq> [] \<Longrightarrow> ep_in_use (k_endpoints k ! i) \<and> served (k_endpoints k ! i)"
    "j < MAX_ENDPOINTS \<Longrightarrow> j \<noteq> i \<Longrightarrow> set (Q i) \<inter> set (Q j) = {}"
    "\<not> ep_in_use (k_endpoints k ! i) \<Longrightarrow> ep_senders (k_endpoints k ! i) = 0 \<and> ep_receivers (k_endpoints k ! i) = 0"
  using assms by (auto simp: queues_ok_def wq_rep_def)

lemma queued_no_reply:
  assumes "replies_ok X k Q" "i < MAX_ENDPOINTS" "t \<in> set (Q i)"
  shows "tally (reply_to t) k = 0"
proof -
  have "tally (reply_to t) k \<le> 1" "tally (reply_to t) k = 1 \<longrightarrow> waits_nowhere Q t"
    using assms(1) by (simp_all add: replies_ok_def)
  moreover have "\<not> waits_nowhere Q t" using assms(2,3) by (auto simp: waits_nowhere_def)
  ultimately show ?thesis by linarith
qed

lemma awake_no_reply:
  assumes "replies_ok {} k Q" "\<not> is_blocked k t"
  shows "tally (reply_to t) k = 0"
proof -
  have "tally (reply_to t) k \<le> 1" "tally (reply_to t) k = 1 \<longrightarrow> is_blocked k t"
    using assms(1) by (simp_all add: replies_ok_def)
  then show ?thesis using assms(2) by linarith
qed

section \<open>Frame lemmas\<close>

lemma inv_cong:
  assumes "length (k_table k') = length (k_table k)" "k_current k' = k_current k"
    "k_current_slot k' = k_current_slot k" "k_queues k' = k_queues k" "k_links k' = k_links k"
    "k_endpoints k' = k_endpoints k"
    "\<And>t. state_of k' t = state_of k t" "\<And>t. sl_process (slot_of k' t) = sl_process (slot_of k t)"
  shows "ipc_inv_at X k' Q = ipc_inv_at X k Q"
proof -
  have s: "sched_wf k' = sched_wf k" by (rule sched_wf_cong) (simp_all add: assms)
  have m: "map sl_process (k_table k') = map sl_process (k_table k)"
    by (rule nth_equalityI) (simp_all add: assms)
  have a: "all_caps k' = all_caps k"
    using arg_cong[OF m, of "\<lambda>xs. sum_list (map proc_caps xs)"] by (simp add: all_caps_def assms)
  have "tables_ok j \<longleftrightarrow> list_all proc_ok (map sl_process (k_table j)) \<and> list_all proc_ok (k_current j)" for j
    by (simp add: tables_ok_def list_all_iff)
  then have t: "tables_ok k' = tables_ok k" by (simp only: m assms(2))
  have b: "is_blocked k' = is_blocked k" by (simp add: fun_eq_iff is_blocked_def assms)
  show ?thesis by (simp add: ipc_inv_at_def s t a queues_ok_def replies_ok_def b assms)
qed

lemma inv_neutral:
  assumes "ipc_inv_at X k Q" "caps_only k k'" "tables_ok k'" "k_endpoints k' = k_endpoints k"
    and "\<And>P. neutral P \<Longrightarrow> tally P k' = tally P k"
  shows "ipc_inv_at X k' Q"
proof -
  note I = ipc_inv_atD[OF assms(1)]
  have b: "is_blocked k' = is_blocked k" by (simp add: fun_eq_iff caps_onlyD[OF assms(2)])
  have n: "neutral (reply_to t)" for t unfolding reply_to_def by (rule neutral_reply)
  have "refs r i (all_caps k') = refs r i (all_caps k)" for r i
    using assms(5)[OF neutral_reaches] by (simp add: refs_def)
  then have "counts_ok (k_endpoints k') (all_caps k')" using I(3) by (simp add: counts_ok_def assms(4))
  moreover have "ids_ok (all_caps k')" using I(4) assms(5)[OF neutral_bad_id] by (simp add: ids_ok_tally)
  moreover have "sched_wf k'" using I(1) caps_only_wf[OF assms(2)] by simp
  moreover have "queues_ok X k' Q" using I(5) by (simp add: queues_ok_def assms(4) b caps_onlyD[OF assms(2)])
  moreover have "replies_ok X k' Q" using I(6) by (simp add: replies_ok_def b assms(5)[OF n])
  ultimately show ?thesis using assms(3) by (simp add: ipc_inv_at_def)
qed

lemma set_pending_inv: "ipc_inv_at X (set_pending k t m c b) Q = ipc_inv_at X k Q"
  by (rule inv_cong) (simp_all add: set_pending_def set_slot_def nth_list_update_cases)

lemma write_reg_inv: "ipc_inv_at X (write_reg k f r v) Q = ipc_inv_at X k Q"
  by (rule inv_cong) (simp_all add: write_reg_def)

lemma take_landing_inv: "take_reclaim_landing k t = (l, k') \<Longrightarrow> ipc_inv_at X k' Q = ipc_inv_at X k Q"
  by (rule inv_cong) (auto simp: take_reclaim_landing_def set_slot_def nth_list_update_cases)

section \<open>The steps of an operation\<close>

lemma queues_ok_shrink:
  assumes "queues_ok X k Q" "\<And>j. set (Q' j) \<subseteq> set (Q j)"
    and "\<And>i. i < MAX_ENDPOINTS \<Longrightarrow> wq_rep (ep_queue (k_endpoints k' ! i)) (k_links k') (Q' i)"
    and "\<And>i. i < MAX_ENDPOINTS \<Longrightarrow> Q' i \<noteq> [] \<Longrightarrow> ep_in_use (k_endpoints k' ! i) \<and> served (k_endpoints k' ! i)"
    and "\<And>t i. i < MAX_ENDPOINTS \<Longrightarrow> t \<in> set (Q' i) \<Longrightarrow> is_blocked k' t = is_blocked k t"
    and "k_links k' = k_links k"
    and "\<And>i. i < MAX_ENDPOINTS \<Longrightarrow> ep_in_use (k_endpoints k' ! i) = ep_in_use (k_endpoints k ! i) \<and>
      ep_senders (k_endpoints k' ! i) = ep_senders (k_endpoints k ! i) \<and>
      ep_receivers (k_endpoints k' ! i) = ep_receivers (k_endpoints k ! i)"
  shows "queues_ok X k' Q'"
  unfolding queues_ok_def
proof (intro conjI allI impI ballI)
  show "length (k_links k') = MAX_PROCESSES" using assms(1,6) by (simp add: queues_ok_def)
next
  fix i
  assume i: "i < MAX_ENDPOINTS"
  show "wq_rep (ep_queue (k_endpoints k' ! i)) (k_links k') (Q' i)" using assms(3) i .
  show "is_blocked k' t \<or> t \<in> X" if "t \<in> set (Q' i)" for t
    using queues_okD(3)[OF assms(1) i, of t] assms(2)[of i] that assms(5)[OF i that] by auto
  show "ep_in_use (k_endpoints k' ! i)" "served (k_endpoints k' ! i)" if "Q' i \<noteq> []"
    using assms(4) i that by simp_all
  show "ep_senders (k_endpoints k' ! i) = 0" "ep_receivers (k_endpoints k' ! i) = 0" if "\<not> ep_in_use (k_endpoints k' ! i)"
    using that queues_okD(6)[OF assms(1) i] assms(7)[OF i] by simp_all
  show "set (Q' i) \<inter> set (Q' j) = {}" if "j < MAX_ENDPOINTS" "j \<noteq> i" for j
    using queues_okD(5)[OF assms(1) i that] assms(2)[of i] assms(2)[of j] by blast
qed

text \<open>Taking the first waiter.\<close>

lemma take_waiting_Some:
  assumes "ipc_inv k Q" "i < MAX_ENDPOINTS" "take_waiting k i w = Some (t, k')"
  obtains rest where "Q i = t # rest" "wq_are_senders (ep_queue (k_endpoints k ! i)) = w"
    "ipc_inv k' (Q(i := rest))" "is_blocked k t" "t < MAX_PROCESSES" "waits_nowhere (Q(i := rest)) t"
    "tally (reply_to t) k' = 0" "\<exists>es. k' = k\<lparr>k_endpoints := es\<rparr>"
    "ep_senders (k_endpoints k' ! i) = ep_senders (k_endpoints k ! i)"
    "ep_receivers (k_endpoints k' ! i) = ep_receivers (k_endpoints k ! i)"
proof -
  note I = ipc_inv_atD[OF assms(1)[unfolded ipc_inv_def]]
  note D = queues_okD[OF I(5) assms(2)]
  let ?e = "k_endpoints k ! i"
  obtain q where tk: "take_if (ep_queue ?e) w (k_links k) = Some (t, q)"
    and k': "k' = set_endpoint k i (?e\<lparr>ep_queue := q\<rparr>)"
    using assms(3) by (auto simp: take_waiting_def split: option.splits prod.splits)
  then obtain rest x where Q: "Q i = x # rest" and w: "wq_are_senders (ep_queue ?e) = w"
    and dq: "dequeue (ep_queue ?e) (k_links k) = Some (t, q)"
    using take_if_rep[OF D(1)] by (cases "Q i") (auto split: if_splits)
  obtain q2 where "dequeue (ep_queue ?e) (k_links k) = Some (x, q2)" "wq_rep q2 (k_links k) rest"
    "wq_are_senders q2 = wq_are_senders (ep_queue ?e)"
    using dequeue_rep_Cons D(1) Q by metis
  then have q: "x = t" "wq_rep q (k_links k) rest" "wq_are_senders q = w" using dq w by simp_all
  have Q': "Q i = t # rest" using Q q(1) by simp
  have e': "k_endpoints k' ! j = (if j = i then ?e\<lparr>ep_queue := q\<rparr> else k_endpoints k ! j)" for j
    using assms(2) I(9) by (simp add: k' set_endpoint_def nth_list_update_cases)
  have b: "is_blocked k' = is_blocked k" by (simp add: k' set_endpoint_def is_blocked_def fun_eq_iff)
  have a: "all_caps k' = all_caps k" and lk: "k_links k' = k_links k" by (simp_all add: k' set_endpoint_def)
  have t: "is_blocked k t" "t < MAX_PROCESSES" using D(3)[of t] Q' by auto
  have dist: "t \<notin> set rest" using D(1) Q' by (simp add: wq_rep_def)
  have nw: "waits_nowhere (Q(i := rest)) t"
    unfolding waits_nowhere_def using dist D(5) Q' by auto
  have sub: "set ((Q(i := rest)) j) \<subseteq> set (Q j)" for j using Q' by auto
  have "served ?e" "ep_in_use ?e" using D(4) Q' by simp_all
  moreover have "served (?e\<lparr>ep_queue := q\<rparr>) = served ?e" using q(3) w by (simp add: served_def)
  ultimately have "queues_ok {} k' (Q(i := rest))"
    using q(2) D(2) by (intro queues_ok_shrink[OF I(5) sub])
      (auto simp: e' b lk queues_okD[OF I(5)] split: if_splits)
  moreover have "replies_ok {} k' (Q(i := rest))"
    using I(6) by (auto simp: replies_ok_def a b intro: waits_nowhere_mono[OF sub])
  moreover have "counts_ok (k_endpoints k') (all_caps k')"
    using I(3,9) e' by (auto simp: counts_ok_def a k' set_endpoint_def)
  moreover have "sched_wf k'" using I(1) sched_wf_cong[of k' k] by (simp add: k' set_endpoint_def)
  ultimately have "ipc_inv k' (Q(i := rest))"
    using I(2,4) by (simp add: ipc_inv_def ipc_inv_at_def a) (simp add: k' set_endpoint_def)
  moreover have "tally (reply_to t) k' = 0" using queued_no_reply[OF I(6) assms(2)] Q' a by simp
  moreover have "\<exists>es. k' = k\<lparr>k_endpoints := es\<rparr>" by (auto simp: k' set_endpoint_def)
  ultimately show ?thesis using that[of rest] Q' w t nw e'[of i] by simp
qed

lemma take_waiting_None:
  assumes "ipc_inv k Q" "i < MAX_ENDPOINTS"
  shows "take_waiting k i w = None \<longleftrightarrow> Q i = [] \<or> wq_are_senders (ep_queue (k_endpoints k ! i)) \<noteq> w"
proof -
  note D = queues_okD[OF ipc_inv_atD(5)[OF assms(1)[unfolded ipc_inv_def]] assms(2)]
  show ?thesis
  proof (cases "Q i")
    case Nil
    then show ?thesis using take_if_rep[OF D(1)] by (simp add: take_waiting_def)
  next
    case (Cons x rest)
    obtain q where "dequeue (ep_queue (k_endpoints k ! i)) (k_links k) = Some (x, q)"
      using dequeue_rep_Cons D(1) Cons by metis
    then show ?thesis using take_if_rep[OF D(1)] Cons by (simp add: take_waiting_def)
  qed
qed

text \<open>Waking a blocked process that waits in no queue and for no reply.\<close>

lemma wake_inv:
  assumes "ipc_inv_at X k Q" "t < MAX_PROCESSES" "is_blocked k t" "waits_nowhere Q t" "tally (reply_to t) k = 0"
  shows "ipc_inv_at X (wake_with k t s m l) Q"
proof -
  define k' where "k' = wake_with k t s m l"
  note I = ipc_inv_atD[OF assms(1)]
  have sl: "slot_of k' u = (if u = t then (slot_of k t)\<lparr>sl_state := Ready\<rparr> else slot_of k u)" for u
    using assms(2) I(7) by (simp add: k'_def wake_with_def set_slot_def Let_def nth_list_update_cases)
  have f: "k_current k' = k_current k" "k_endpoints k' = k_endpoints k" "k_links k' = k_links k"
    "length (k_table k') = length (k_table k)"
    by (simp_all add: k'_def wake_with_def set_slot_def Let_def)
  have m: "map sl_process (k_table k') = map sl_process (k_table k)"
    by (rule nth_equalityI) (simp_all add: f sl)
  have a: "all_caps k' = all_caps k"
    using arg_cong[OF m, of "\<lambda>xs. sum_list (map proc_caps xs)"] by (simp add: all_caps_def f)
  have "tables_ok j \<longleftrightarrow> list_all proc_ok (map sl_process (k_table j)) \<and> list_all proc_ok (k_current j)" for j
    by (simp add: tables_ok_def list_all_iff)
  then have t: "tables_ok k'" using I(2) by (simp only: m f)
  have b: "is_blocked k' u = (is_blocked k u \<and> u \<noteq> t)" for u by (simp add: is_blocked_def sl)
  have "queues_ok X k' Q"
    using assms(4) by (intro queues_ok_shrink[OF I(5)])
      (auto simp: b f waits_nowhere_def queues_okD[OF I(5)])
  moreover have "tally (reply_to u) k = 1 \<Longrightarrow> u \<noteq> t" for u using assms(5) by (metis zero_neq_one)
  then have "replies_ok X k' Q" using I(6) by (simp add: replies_ok_def b a)
  moreover have "sched_wf k'" using wake_wf(1)[OF I(1) assms(2,3)] by (simp add: k'_def)
  ultimately show ?thesis
    unfolding k'_def[symmetric] using I(3,4) t by (simp add: ipc_inv_at_def a f)
qed

lemma inv_at_mono: "ipc_inv_at X k Q \<Longrightarrow> X \<subseteq> Y \<Longrightarrow> ipc_inv_at Y k Q"
  unfolding ipc_inv_at_def queues_ok_def replies_ok_def by (intro conjI; blast)

text \<open>Minting a reply capability, into a running or a parked table.\<close>

lemma mint_reply_inv:
  assumes "ipc_inv_at X k Q" "exchanges k {#} {#reply_cap t#} k'" "k_endpoints k' = k_endpoints k"
    and "tally (reply_to t) k = 0" "t < MAX_PROCESSES" "is_blocked k t \<or> t \<in> X" "waits_nowhere Q t"
  shows "ipc_inv_at X k' Q"
proof -
  note I = ipc_inv_atD[OF assms(1)]
  note C = caps_onlyD[OF exchangesD(1)[OF assms(2)]]
  have a: "all_caps k' = add_mset (reply_cap t) (all_caps k)" using exchangesD(3)[OF assms(2)] by simp
  have b: "is_blocked k' = is_blocked k" by (simp add: fun_eq_iff C)
  have "counts_ok (k_endpoints k') (all_caps k')"
    using I(3) by (simp add: counts_ok_def a assms(3) reaches_def reply_cap_def)
  moreover have "ids_ok (all_caps k')" using I(4) by (simp add: ids_ok_def a reply_cap_def)
  moreover have "sched_wf k'" using I(1) caps_only_wf[OF exchangesD(1)[OF assms(2)]] by simp
  moreover have "queues_ok X k' Q" using I(5) by (simp add: queues_ok_def assms(3) b C)
  moreover have "tally (reply_to u) k' = (if u = t then 1 else tally (reply_to u) k)" for u
    using assms(4) by (auto simp: a reply_to_def reply_cap_def)
  then have "replies_ok X k' Q" using I(6) assms(5-7) by (auto simp: replies_ok_def b)
  ultimately show ?thesis using exchangesD(2)[OF assms(2)] by (simp add: ipc_inv_at_def)
qed

lemma unat_slot: "i < MAX_CAPS \<Longrightarrow> unat (of_nat i :: u64) = i"
  by (simp add: MAX_CAPS_def unat_of_nat)

definition holds_at :: "process option \<Rightarrow> u64 \<Rightarrow> capability \<Rightarrow> bool" where
  "holds_at po l c \<longleftrightarrow> (\<exists>p. po = Some p \<and> peek (p_caps p) (unat l) = Some c)"

lemma mint_current_cases:
  assumes "tables_ok k" "me < length (k_current k)" "mint_reply_cap_into_current k me t = (l, k')"
  shows "(l = NO_CAP \<and> k' = k) \<or> (exchanges k {#} {#reply_cap t#} k' \<and> k_endpoints k' = k_endpoints k \<and>
    holds_at (k_current k' ! me) l (reply_cap t))"
proof -
  consider "l = NO_CAP" "k' = k"
    | p i c where "k_current k ! me = Some p" "install (p_caps p) (reply_cap t) = Inr (i, c)"
      "k' = set_current k me (Some (p\<lparr>p_caps := c\<rparr>))" "l = of_nat i"
    using assms(3) by (auto simp: mint_reply_cap_into_current_def mint_def reply_cap_def split: option.splits sum.splits)
  then show ?thesis
  proof cases
    case (2 p i c)
    note wf = tables_okD(2)[OF assms(1,2) 2(1)]
    show ?thesis
      using current_install_exchange(1,3,4)[OF assms(1,2) 2(1) install_Inr(7)[OF wf 2(2)] install_mset[OF wf 2(2)] 2(3)]
        install_Inr(1,4)[OF wf 2(2)] 2(4)
      by (simp add: holds_at_def unat_slot)
  qed simp
qed

lemma mint_blocked_cases:
  assumes "tables_ok k" "s < length (k_table k)" "mint_reply_cap_into_blocked k s t = (l, k')"
  shows "(l = NO_CAP \<and> k' = k) \<or> (exchanges k {#} {#reply_cap t#} k' \<and> k_endpoints k' = k_endpoints k \<and>
    holds_at (sl_process (slot_of k' s)) l (reply_cap t))"
proof (cases "install_into_blocked k s (reply_cap t)")
  case None
  then show ?thesis using assms(3) by (simp add: mint_reply_cap_into_blocked_def)
next
  case (Some r)
  obtain i k3 where r: "install_into_blocked k s (reply_cap t) = Some (i, k3)" using Some by (cases r) simp
  have "exchanges k {#} {#reply_cap t#} k3 \<and> k_endpoints k3 = k_endpoints k \<and>
      holds_at (sl_process (slot_of k3 s)) (of_nat i) (reply_cap t)"
  proof (rule install_blocked_Some[OF assms(1,2) r], goal_cases)
    case (1 p p')
    then show ?case by (simp add: holds_at_def unat_slot)
  qed
  then show ?thesis using r assms(3) by (simp add: mint_reply_cap_into_blocked_def)
qed

text \<open>A transfer, however it ends.\<close>

lemma transfer_ends_inv:
  assumes "ipc_inv_at X k Q" "k_endpoints k' = k_endpoints k"
    and "l = NO_CAP \<and> k' = k \<or> (\<exists>c. transfer_ends k c (lent_to c (og c) d) k')"
  shows "ipc_inv_at X k' Q" and "caps_only k k'" and "tally (reply_to t) k' = tally (reply_to t) k"
proof -
  have C: "caps_only k k' \<and> tables_ok k' \<and> (\<forall>P. neutral P \<longrightarrow> tally P k' = tally P k)"
    using assms(3)
  proof (elim disjE conjE exE)
    assume "k' = k"
    then show ?thesis using ipc_inv_atD(2)[OF assms(1)] by simp
  next
    fix c
    assume t: "transfer_ends k c (lent_to c (og c) d) k'"
    then show ?thesis using transfer_tally[OF _ t] by (auto simp: transfer_ends_def exchanges_def)
  qed
  then show "ipc_inv_at X k' Q" using inv_neutral[OF assms(1) _ _ assms(2)] by blast
  show "caps_only k k'" using C by blast
  have "neutral (reply_to t)" unfolding reply_to_def by (rule neutral_reply)
  then show "tally (reply_to t) k' = tally (reply_to t) k" using C by blast
qed

text \<open>Queueing the running process, and parking it.\<close>

lemma enqueue_inv:
  assumes "ipc_inv_at X k Q" "i < MAX_ENDPOINTS" "cur < MAX_PROCESSES" "waits_nowhere Q cur"
    and "tally (reply_to cur) k = 0" "ep_in_use (k_endpoints k ! i)"
    and "Q i = [] \<or> wq_are_senders (ep_queue (k_endpoints k ! i)) = s"
    and "0 < (if s then ep_receivers (k_endpoints k ! i) else ep_senders (k_endpoints k ! i))"
    and "k' = enqueue_waiter k i cur s"
  shows "ipc_inv_at (insert cur X) k' (Q(i := Q i @ [cur]))"
    and "\<exists>es ls. k' = k\<lparr>k_endpoints := es, k_links := ls\<rparr>"
proof -
  note I = ipc_inv_atD[OF assms(1)]
  note D = queues_okD[OF I(5)]
  let ?e = "k_endpoints k ! i"
  obtain q ls where en: "enqueue (ep_queue ?e) cur s (k_links k) = (q, ls)" by fastforce
  have k': "k' = k\<lparr>k_endpoints := (k_endpoints k)[i := ?e\<lparr>ep_queue := q\<rparr>], k_links := ls\<rparr>"
    using assms(9) en by (simp add: enqueue_waiter_def set_endpoint_def)
  then show "\<exists>es ls. k' = k\<lparr>k_endpoints := es, k_links := ls\<rparr>" by blast
  have fresh: "cur \<notin> set (Q j)" if "j < MAX_ENDPOINTS" for j using assms(4) that by (simp add: waits_nowhere_def)
  have lt: "cur < length (k_links k)" using D(2)[OF assms(2)] assms(3) by simp
  note E = enqueue_rep[OF D(1)[OF assms(2)] fresh[OF assms(2)] lt en]
  have e': "k_endpoints k' ! j = (if j = i then ?e\<lparr>ep_queue := q\<rparr> else k_endpoints k ! j)" for j
    using assms(2) I(9) by (simp add: k' nth_list_update_cases)
  have b: "is_blocked k' = is_blocked k" by (simp add: k' is_blocked_def fun_eq_iff)
  have a: "all_caps k' = all_caps k" and lk: "k_links k' = ls" and len: "length (k_endpoints k') = length (k_endpoints k)"
    by (simp_all add: k' all_caps_def)
  let ?Q = "Q(i := Q i @ [cur])"
  have frame: "wq_rep (ep_queue (k_endpoints k ! j)) ls (Q j)" if "j < MAX_ENDPOINTS" "j \<noteq> i" for j
    using enqueue_frame[OF D(1)[OF assms(2)] fresh[OF assms(2)] lt en D(1)[OF that(1)] fresh[OF that(1)]]
      D(5)[OF assms(2) that] by blast
  have "queues_ok (insert cur X) k' ?Q"
    unfolding queues_ok_def
  proof (intro conjI allI impI ballI)
    show "length (k_links k') = MAX_PROCESSES" using E(3) D(2)[OF assms(2)] by (simp add: lk)
  next
    fix j
    assume j: "j < MAX_ENDPOINTS"
    show "wq_rep (ep_queue (k_endpoints k' ! j)) (k_links k') (?Q j)" using E(1) frame[OF j] by (simp add: e' lk)
    show "is_blocked k' t \<or> t \<in> insert cur X" if "t \<in> set (?Q j)" for t
      using that D(3)[OF j, of t] by (auto simp: b split: if_splits)
    show "ep_in_use (k_endpoints k' ! j)" if "?Q j \<noteq> []" using that D(4)[OF j] assms(6) by (auto simp: e' split: if_splits)
    show "served (k_endpoints k' ! j)" if "?Q j \<noteq> []"
      using that D(4)[OF j] assms(8) E(2) by (auto simp: e' served_def split: if_splits)
    show "ep_senders (k_endpoints k' ! j) = 0" "ep_receivers (k_endpoints k' ! j) = 0" if "\<not> ep_in_use (k_endpoints k' ! j)"
      using that D(6)[OF j] by (auto simp: e' split: if_splits)
    show "set (?Q j) \<inter> set (?Q m) = {}" if "m < MAX_ENDPOINTS" "m \<noteq> j" for m
      using D(5)[OF j that] fresh[OF j] fresh[OF that(1)] that(2) by auto
  qed
  moreover have "waits_nowhere ?Q t" if "tally (reply_to t) k = 1" for t
  proof -
    have "t \<noteq> cur" using assms(5) that by (metis zero_neq_one)
    moreover have "waits_nowhere Q t" using I(6) that by (simp add: replies_ok_def)
    ultimately show ?thesis by (auto simp: waits_nowhere_def)
  qed
  then have "replies_ok (insert cur X) k' ?Q" using I(6) by (auto simp: replies_ok_def a b)
  moreover have "counts_ok (k_endpoints k') (all_caps k')"
    using I(3,9) len by (simp add: counts_ok_def a e')
  moreover have "sched_wf k'" using I(1) sched_wf_cong[of k' k] by (simp add: k')
  moreover have "tables_ok k'" using I(2) by (simp add: k' tables_ok_def)
  ultimately show "ipc_inv_at (insert cur X) k' ?Q" using I(4) by (simp add: ipc_inv_at_def a)
qed

lemma running_slot:
  assumes "sched_wf k" "me < MAX_CORES" "k_current k ! me = Some p"
  shows "k_current_slot k ! me < MAX_PROCESSES" "state_of k (k_current_slot k ! me) = Running"
    "sl_process (slot_of k (k_current_slot k ! me)) = None" "\<not> is_blocked k (k_current_slot k ! me)"
proof -
  have "runs_on k me (k_current_slot k ! me)" using assms(3) by (simp add: runs_on_def)
  then have W: "k_current_slot k ! me < MAX_PROCESSES" "state_of k (k_current_slot k ! me) = Running"
    using sched_wfD(4)[OF assms(1,2)] by blast+
  then show "k_current_slot k ! me < MAX_PROCESSES" "state_of k (k_current_slot k ! me) = Running"
    "\<not> is_blocked k (k_current_slot k ! me)" by (simp_all add: is_blocked_def)
  show "sl_process (slot_of k (k_current_slot k ! me)) = None" using sched_wfD(3)[OF assms(1) W(1)] W(2) by auto
qed

lemma block_inv:
  assumes "ipc_inv_at {cur} k Q" "me < MAX_CORES" "k_current k ! me = Some p" "cur = k_current_slot k ! me"
  obtains pos k' where "block_current k me f = Some (pos, k')" "ipc_inv k' Q" "is_blocked k' cur"
    "sl_rsp (slot_of k' cur) = f" "k_current k' ! me = None"
    "\<And>u. u \<noteq> cur \<Longrightarrow> slot_of k' u = slot_of k u" "k_endpoints k' = k_endpoints k" "k_frames k' = k_frames k"
    "sl_msg (slot_of k' cur) = sl_msg (slot_of k cur)" "sl_cap (slot_of k' cur) = sl_cap (slot_of k cur)"
    "sl_call (slot_of k' cur) = sl_call (slot_of k cur)"
proof -
  note I = ipc_inv_atD[OF assms(1)]
  note R = running_slot[OF I(1) assms(2,3), folded assms(4)]
  obtain pos k' where B: "block_current k me f = Some (pos, k')" "sched_wf k'"
    "k_current k' ! me = None" "is_blocked k' cur" "sl_rsp (slot_of k' cur) = f"
    using block_current_wf[OF I(1) assms(2), of f] assms(3,4) by auto
  have k': "k' = k\<lparr>k_table := (k_table k)[cur := (slot_of k cur)\<lparr>sl_rsp := f, sl_process := Some p, sl_state := Blocked\<rparr>],
      k_current := (k_current k)[me := None]\<rparr>"
    using B(1) assms(3,4)
    by (auto simp: block_current_def park_def set_slot_def set_current_def Let_def bind_eq_Some_conv)
  let ?s = "(slot_of k cur)\<lparr>sl_rsp := f, sl_process := Some p, sl_state := Blocked\<rparr>"
  have sl: "slot_of k' u = (if u = cur then ?s else slot_of k u)" for u
    using R(1) I(7) by (simp add: k' nth_list_update_cases)
  have fr: "k_endpoints k' = k_endpoints k" "k_links k' = k_links k" "k_frames k' = k_frames k" by (simp_all add: k')
  have b: "is_blocked k' u = (is_blocked k u \<or> u = cur)" for u by (simp add: is_blocked_def sl)
  have a: "all_caps k' = all_caps k"
  proof -
    let ?k1 = "k\<lparr>k_table := (k_table k)[cur := ?s]\<rparr>"
    have "all_caps ?k1 = all_caps k + mset (ct_iter (p_caps p))"
      using all_caps_slot[of cur k ?s] R(1,3) I(7) by simp
    moreover have "all_caps k' + mset (ct_iter (p_caps p)) = all_caps ?k1"
      using all_caps_current[of me ?k1 None] I(8) assms(2,3) by (simp add: k')
    ultimately show ?thesis by simp
  qed
  have "tables_ok k'"
    using tables_ok_current[OF tables_ok_slot[OF I(2), of ?s cur], of None me]
      tables_okD(2)[OF I(2) _ assms(3)] assms(2) I(8) by (simp add: k')
  moreover have "queues_ok {} k' Q" using I(5) by (auto simp: queues_ok_def fr b)
  moreover have "replies_ok {} k' Q" using I(6) by (auto simp: replies_ok_def a b)
  ultimately have "ipc_inv k' Q" using B(2) I(3,4) by (simp add: ipc_inv_def ipc_inv_at_def a fr)
  then show ?thesis using that[of pos k'] B sl fr by simp
qed

lemma running_free:
  assumes "ipc_inv k Q" "me < MAX_CORES" "k_current k ! me = Some p"
  shows "waits_nowhere Q (k_current_slot k ! me)" "tally (reply_to (k_current_slot k ! me)) k = 0"
proof -
  note I = ipc_inv_atD[OF assms(1)[unfolded ipc_inv_def]]
  note R = running_slot[OF I(1) assms(2,3)]
  show "waits_nowhere Q (k_current_slot k ! me)"
    unfolding waits_nowhere_def using queues_okD(3)[OF I(5)] R(4) by blast
  show "tally (reply_to (k_current_slot k ! me)) k = 0" by (rule awake_no_reply[OF I(6) R(4)])
qed

lemma endpoint_id_Some:
  assumes "endpoint_id_for k me slot right = Some i"
  obtains p c where "k_current k ! me = Some p" "peek (p_caps p) (unat slot) = Some c"
    "cap_rights c AND right = right" "cap_obj c = Endpoint i" "i < MAX_ENDPOINTS" "ep_in_use (k_endpoints k ! i)"
  using assms
  by (auto simp: endpoint_id_for_def lookup_Inr_iff split: option.splits sum.splits cap_object.splits if_splits)

section \<open>Every operation preserves the invariant\<close>

fun out_state :: "outcome \<Rightarrow> kernel" where
  "out_state (Returns s k) = k"
| "out_state (Blocks pos k) = k"

definition keeps_inv :: "outcome option \<Rightarrow> bool" where
  "keeps_inv r \<longleftrightarrow> (\<exists>out Q. r = Some out \<and> ipc_inv (out_state out) Q)"

lemma endpoint_id_cong:
  "k_current k' = k_current k \<Longrightarrow> k_endpoints k' = k_endpoints k \<Longrightarrow>
   endpoint_id_for k' me slot right = endpoint_id_for k me slot right"
  by (auto simp: endpoint_id_for_def split: option.split sum.split cap_object.split)

lemma take_waiting_cong:
  "k_links k' = k_links k \<Longrightarrow> k_endpoints k' = k_endpoints k \<Longrightarrow>
   take_waiting k' i w = None \<longleftrightarrow> take_waiting k i w = None"
  by (simp add: take_waiting_def split: option.splits prod.splits)

lemma set_pending_views [simp]:
  "k_current (set_pending k t m c b) = k_current k" "k_endpoints (set_pending k t m c b) = k_endpoints k"
  "k_links (set_pending k t m c b) = k_links k" "current_slot (set_pending k t m c b) me = current_slot k me"
  by (simp_all add: set_pending_def set_slot_def current_slot_def)

lemma keeps_Returns: "ipc_inv k Q \<Longrightarrow> keeps_inv (Some (Returns s k))"
  by (auto simp: keeps_inv_def)

lemma keeps_Blocks:
  assumes "ipc_inv_at {cur} k Q" "me < MAX_CORES" "k_current k ! me = Some p" "cur = k_current_slot k ! me"
  shows "keeps_inv (blocks (block_current k me f))"
  using block_inv[OF assms, of f] by (metis blocks_def keeps_inv_def option.simps(9) out_state.simps(2) split_conv)

text \<open>Blocking on an endpoint with nobody to meet, but a counterpart that can still come.\<close>

definition waits_at :: "kernel \<Rightarrow> nat \<Rightarrow> u64 \<Rightarrow> u64 \<times> u64 \<times> bool \<Rightarrow> bool" where
  "waits_at k t f pending \<longleftrightarrow> is_blocked k t \<and> sl_rsp (slot_of k t) = f \<and>
     (sl_msg (slot_of k t), sl_cap (slot_of k t), sl_call (slot_of k t)) = pending"

abbreviation pending_of :: "kernel \<Rightarrow> nat \<Rightarrow> u64 \<times> u64 \<times> bool" where
  "pending_of k t \<equiv> (sl_msg (slot_of k t), sl_cap (slot_of k t), sl_call (slot_of k t))"

lemma wait_result:
  assumes "ipc_inv k Q" "me < MAX_CORES" "k_current k ! me = Some p" "i < MAX_ENDPOINTS" "ep_in_use (k_endpoints k ! i)"
    and "take_waiting k i (\<not> s) = None"
    and "0 < (if s then ep_receivers (k_endpoints k ! i) else ep_senders (k_endpoints k ! i))"
    and "cur = k_current_slot k ! me"
  shows "\<exists>pos k'. blocks (block_current (enqueue_waiter k i cur s) me f) = Some (Blocks pos k') \<and>
    ipc_inv k' (Q(i := Q i @ [cur])) \<and> waits_at k' cur f (pending_of k cur) \<and> k_current k' ! me = None"
proof -
  define k1 where "k1 = enqueue_waiter k i cur s"
  note I = ipc_inv_atD[OF assms(1)[unfolded ipc_inv_def]]
  have side: "Q i = [] \<or> wq_are_senders (ep_queue (k_endpoints k ! i)) = s"
    using take_waiting_None[OF assms(1,4)] assms(6) by auto
  note R = running_slot[OF I(1) assms(2,3), folded assms(8)]
  note F = running_free[OF assms(1-3), folded assms(8)]
  note E = enqueue_inv[OF assms(1)[unfolded ipc_inv_def] assms(4) R(1) F assms(5) side assms(7) k1_def]
  have v: "k_current k1 ! me = Some p" "cur = k_current_slot k1 ! me" "pending_of k1 cur = pending_of k cur"
    using E(2) assms(3,8) by auto
  show ?thesis
  proof (rule block_inv[OF E(1) assms(2) v(1,2), of f], goal_cases)
    case (1 pos k')
    then show ?case using v(3) by (simp add: blocks_def k1_def waits_at_def)
  qed
qed

lemma keeps_wait:
  assumes "ipc_inv k Q" "me < MAX_CORES" "k_current k ! me = Some p" "endpoint_id_for k me ep right = Some i"
    and "take_waiting k i (\<not> s) = None"
    and "0 < (if s then ep_receivers (k_endpoints k ! i) else ep_senders (k_endpoints k ! i))"
  shows "keeps_inv (blocks (block_current (enqueue_waiter k i (current_slot k me) s) me f))"
proof -
  obtain i: "i < MAX_ENDPOINTS" "ep_in_use (k_endpoints k ! i)" using endpoint_id_Some[OF assms(4)] by blast
  show ?thesis
    using wait_result[OF assms(1-3) i assms(5,6) refl, of f] by (auto simp: keeps_inv_def current_slot_def)
qed

text \<open>A process resumed with a status, a word and a capability slot in its registers.\<close>

definition frames_ok :: "kernel \<Rightarrow> bool" where
  "frames_ok k \<longleftrightarrow> (\<forall>a. length (tf_gp (k_frames k a)) = 15)"

definition delivered :: "kernel \<Rightarrow> nat \<Rightarrow> u64 \<Rightarrow> u64 \<Rightarrow> u64 \<Rightarrow> bool" where
  "delivered k t s m l \<longleftrightarrow> state_of k t = Ready \<and>
     (let g = tf_gp (k_frames k (sl_rsp (slot_of k t))) in g ! GP_RAX = s \<and> g ! GP_RSI = m \<and> g ! GP_RDX = l)"

lemma wake_delivers:
  assumes "t < length (k_table k)" "frames_ok k"
  shows "delivered (wake_with k t s m l) t s m l"
  using assms by (simp add: delivered_def wake_with_def set_slot_def frames_ok_def set_gp_def
      GP_RAX_def GP_RSI_def GP_RDX_def Let_def)

lemma ipc_send_meets:
  assumes "ipc_inv k Q" "me < MAX_CORES" "k_current k ! me = Some p"
    and "endpoint_id_for k me ep RIGHT_SEND = Some i" "take_waiting k i False = Some (r, k1)"
  shows "\<exists>l k' rest. Q i = r # rest \<and> ipc_send k me ep msg slot f = Some (Returns IPC_OK k') \<and>
    ipc_inv k' (Q(i := rest)) \<and> (frames_ok k \<longrightarrow> delivered k' r IPC_OK msg l) \<and> (slot = NO_CAP \<longrightarrow> l = NO_CAP)"
proof -
  obtain i: "i < MAX_ENDPOINTS" using endpoint_id_Some[OF assms(4)] by blast
  obtain rest where Q: "Q i = r # rest" and T: "ipc_inv k1 (Q(i := rest))" "is_blocked k r" "r < MAX_PROCESSES"
    "waits_nowhere (Q(i := rest)) r" "tally (reply_to r) k1 = 0" and fr: "\<exists>es. k1 = k\<lparr>k_endpoints := es\<rparr>"
    using take_waiting_Some[OF assms(1) i assms(5)] .
  note I1 = ipc_inv_atD[OF T(1)[unfolded ipc_inv_def]]
  obtain l k2 where tr: "(if slot \<noteq> NO_CAP then transfer_current_to_blocked k1 me r slot else (NO_CAP, k1)) = (l, k2)"
    by fastforce
  have c1: "k_current k1 ! me = Some p" "is_blocked k1 r" using fr assms(3) T(2) by (auto simp: is_blocked_def)
  have E: "k_endpoints k2 = k_endpoints k1" and D: "l = NO_CAP \<and> k2 = k1 \<or>
      (\<exists>c. transfer_ends k1 c (lent_to c (origin_new (k_current_slot k1 ! me) (unat slot)) r) k2)"
    using tr transfer_to_blocked_ends[OF I1(2) _ c1(1) _ I1(3,4)] I1(7,8) assms(2) T(3)
    by (auto split: if_splits)
  note X = transfer_ends_inv[where og = "\<lambda>_. origin_new (k_current_slot k1 ! me) (unat slot)",
      OF T(1)[unfolded ipc_inv_def] E D]
  note C = caps_onlyD[OF X(2)]
  have "is_blocked k2 r" "tally (reply_to r) k2 = 0" using C(15) c1(2) X(3)[of r] T(5) by simp_all
  then have "ipc_inv (wake_with k2 r IPC_OK msg l) (Q(i := rest))"
    unfolding ipc_inv_def by (intro wake_inv[OF X(1) T(3) _ T(4)])
  moreover have "delivered (wake_with k2 r IPC_OK msg l) r IPC_OK msg l" if "frames_ok k"
    using fr that C(1,14) I1(7) T(3) by (intro wake_delivers) (auto simp: frames_ok_def)
  ultimately show ?thesis using assms(4,5) tr Q by (auto simp: ipc_send_def)
qed

lemma ipc_send_waits:
  assumes "ipc_inv k Q" "me < MAX_CORES" "k_current k ! me = Some p"
    and "endpoint_id_for k me ep RIGHT_SEND = Some i" "take_waiting k i False = None"
    and "ep_receivers (k_endpoints k ! i) \<noteq> 0" "cur = k_current_slot k ! me"
  shows "\<exists>pos k'. ipc_send k me ep msg slot f = Some (Blocks pos k') \<and> ipc_inv k' (Q(i := Q i @ [cur])) \<and>
    waits_at k' cur f (msg, slot, False) \<and> k_current k' ! me = None"
proof -
  define k1 where "k1 = set_pending k cur msg slot False"
  note I = ipc_inv_atD[OF assms(1)[unfolded ipc_inv_def]]
  obtain i: "i < MAX_ENDPOINTS" "ep_in_use (k_endpoints k ! i)" using endpoint_id_Some[OF assms(4)] by blast
  note R = running_slot[OF I(1) assms(2,3), folded assms(7)]
  have inv: "ipc_inv k1 Q" using assms(1) by (simp add: k1_def ipc_inv_def set_pending_inv)
  have "pending_of k1 cur = (msg, slot, False)" using R(1) I(7) by (simp add: k1_def set_pending_def set_slot_def)
  moreover have "take_waiting k1 i False = None" using assms(5) take_waiting_cong[of k1 k] by (simp add: k1_def)
  moreover have "cur = k_current_slot k1 ! me" using assms(7) by (simp add: k1_def set_pending_def set_slot_def)
  moreover have "k_current k1 ! me = Some p" "ep_in_use (k_endpoints k1 ! i)" "0 < ep_receivers (k_endpoints k1 ! i)"
    using assms(3,6) i(2) by (simp_all add: k1_def)
  moreover have "ipc_send k me ep msg slot f = blocks (block_current (enqueue_waiter k1 i cur True) me f)"
    using assms(4-6) by (simp add: ipc_send_def k1_def Let_def current_slot_def assms(7))
  ultimately show ?thesis using wait_result[OF inv assms(2) _ i(1), of p True cur f] by simp
qed

lemma ipc_send_keeps:
  assumes "ipc_inv k Q" "me < MAX_CORES" "k_current k ! me = Some p"
  shows "keeps_inv (ipc_send k me ep msg slot f)"
proof (cases "endpoint_id_for k me ep RIGHT_SEND")
  case None
  then show ?thesis using keeps_Returns[OF assms(1)] by (simp add: ipc_send_def)
next
  case (Some i)
  show ?thesis
  proof (cases "take_waiting k i False")
    case None
    show ?thesis
    proof (cases "ep_receivers (k_endpoints k ! i) = 0")
      case True
      then show ?thesis using Some None keeps_Returns[OF assms(1)] by (simp add: ipc_send_def)
    next
      case False
      then show ?thesis
        using ipc_send_waits[OF assms Some None False refl, of msg slot f] by (auto simp: keeps_inv_def)
    qed
  next
    case tk: (Some tk)
    then obtain r k1 where "take_waiting k i False = Some (r, k1)" by (cases tk) simp
    then show ?thesis using ipc_send_meets[OF assms Some, of r k1 msg slot f] by (auto intro: keeps_Returns)
  qed
qed

lemma ipc_recv_meets:
  assumes "ipc_inv k Q" "me < MAX_CORES" "k_current k ! me = Some p"
    and "endpoint_id_for k me ep RIGHT_RECV = Some i" "take_waiting k i True = Some (s, k1)"
  shows "\<exists>l k' rest. Q i = s # rest \<and> ipc_recv k me ep f = Some (Returns IPC_OK k') \<and> ipc_inv k' (Q(i := rest)) \<and>
    (frames_ok k \<longrightarrow> tf_gp (k_frames k' f) ! GP_RSI = sl_msg (slot_of k s) \<and> tf_gp (k_frames k' f) ! GP_RDX = l) \<and>
    (if sl_call (slot_of k s)
     then is_blocked k' s \<and> (l = NO_CAP \<or> holds_at (k_current k' ! me) l (reply_cap s))
     else state_of k' s = Ready \<and> (sl_cap (slot_of k s) = NO_CAP \<longrightarrow> l = NO_CAP))"
proof -
  obtain i: "i < MAX_ENDPOINTS" using endpoint_id_Some[OF assms(4)] by blast
  obtain rest where Q: "Q i = s # rest" and T: "ipc_inv k1 (Q(i := rest))" "is_blocked k s" "s < MAX_PROCESSES"
    "waits_nowhere (Q(i := rest)) s" "tally (reply_to s) k1 = 0" and fr: "\<exists>es. k1 = k\<lparr>k_endpoints := es\<rparr>"
    using take_waiting_Some[OF assms(1) i assms(5)] .
  note I1 = ipc_inv_atD[OF T(1)[unfolded ipc_inv_def]]
  have c1: "k_current k1 ! me = Some p" "is_blocked k1 s" "pending_of k1 s = pending_of k s" "k_frames k1 = k_frames k"
    using fr assms(3) T(2) by (auto simp: is_blocked_def)
  have len: "me < length (k_current k1)" "s < length (k_table k1)" using I1(7,8) assms(2) T(3) by simp_all
  have regs: "tf_gp (k_frames (write_reg (write_reg j f GP_RSI m) f GP_RDX l) f) ! GP_RSI = m \<and>
      tf_gp (k_frames (write_reg (write_reg j f GP_RSI m) f GP_RDX l) f) ! GP_RDX = l" if "frames_ok j" for j m l
    using that by (simp add: write_reg_def set_gp_def frames_ok_def GP_RSI_def GP_RDX_def)
  have wf: "frames_ok (wake_with j s a b c)" if "frames_ok j" for j a b c
    using that by (simp add: frames_ok_def wake_with_def set_slot_def set_gp_def Let_def)
  have same: "k_current (write_reg j f a b) = k_current j" "k_table (write_reg j f a b) = k_table j" for j a b
    by (simp_all add: write_reg_def)
  show ?thesis
  proof (cases "sl_call (slot_of k1 s)")
    case True
    obtain l k2 where m: "mint_reply_cap_into_current k1 me s = (l, k2)" by fastforce
    have M: "ipc_inv k2 (Q(i := rest)) \<and> caps_only k1 k2 \<and> (l = NO_CAP \<or> holds_at (k_current k2 ! me) l (reply_cap s))"
      using mint_current_cases[OF I1(2) len(1) m]
    proof (elim disjE conjE)
      assume "k2 = k1" "l = NO_CAP"
      then show ?thesis using T(1) by simp
    next
      assume e: "exchanges k1 {#} {#reply_cap s#} k2" "k_endpoints k2 = k_endpoints k1" "holds_at (k_current k2 ! me) l (reply_cap s)"
      have "ipc_inv k2 (Q(i := rest))"
        unfolding ipc_inv_def
        by (rule mint_reply_inv[OF T(1)[unfolded ipc_inv_def] e(1,2) T(5,3) disjI1[OF c1(2)] T(4)])
      then show ?thesis using exchangesD(1)[OF e(1)] e(3) by simp
    qed
    define k3 where "k3 = write_reg (write_reg k2 f GP_RSI (sl_msg (slot_of k1 s))) f GP_RDX l"
    have "ipc_inv k3 (Q(i := rest))" using M by (simp add: ipc_inv_def write_reg_inv k3_def)
    moreover have "ipc_recv k me ep f = Some (Returns IPC_OK k3)"
      using assms(4,5) True m by (simp add: ipc_recv_def Let_def k3_def take_pending_def take_pending_call_def)
    moreover have "is_blocked k3 s" using M caps_onlyD(15)[of k1 k2 s] c1(2) by (simp add: k3_def is_blocked_def same)
    moreover have "frames_ok k \<Longrightarrow> frames_ok k2" using M caps_onlyD(14)[of k1 k2] c1(4) by (simp add: frames_ok_def)
    ultimately show ?thesis using Q True M regs[of k2] c1(3) by (auto simp: k3_def same)
  next
    case False
    let ?c = "sl_cap (slot_of k1 s)"
    obtain l k2 where tr: "(if ?c \<noteq> NO_CAP then transfer_blocked_to_current k1 me s ?c else (NO_CAP, k1)) = (l, k2)"
      by fastforce
    have E: "k_endpoints k2 = k_endpoints k1" and D: "l = NO_CAP \<and> k2 = k1 \<or>
        (\<exists>c. transfer_ends k1 c (lent_to c (origin_new s (unat ?c)) (k_current_slot k1 ! me)) k2)"
      using tr transfer_from_blocked_ends[OF I1(2) len I1(3,4)] by (auto split: if_splits)
    note X = transfer_ends_inv[where og = "\<lambda>_. origin_new s (unat ?c)", OF T(1)[unfolded ipc_inv_def] E D]
    note C = caps_onlyD[OF X(2)]
    have "is_blocked k2 s" "tally (reply_to s) k2 = 0" using C(15) c1(2) X(3)[of s] T(5) by simp_all
    then have W: "ipc_inv_at {} (wake_with k2 s IPC_OK 0 NO_CAP) (Q(i := rest))"
      by (intro wake_inv[OF X(1) T(3) _ T(4)])
    define k3 where "k3 = write_reg (write_reg (wake_with k2 s IPC_OK 0 NO_CAP) f GP_RSI (sl_msg (slot_of k1 s))) f GP_RDX l"
    have "ipc_inv k3 (Q(i := rest))" using W by (simp add: ipc_inv_def write_reg_inv k3_def)
    moreover have "ipc_recv k me ep f = Some (Returns IPC_OK k3)"
      using assms(4,5) False tr
      by (simp add: ipc_recv_def Let_def k3_def take_pending_def take_pending_call_def take_pending_cap_def)
    moreover have "state_of k3 s = Ready"
      using len(2) C(1) by (simp add: k3_def same wake_with_def set_slot_def Let_def)
    moreover have "frames_ok k \<Longrightarrow> frames_ok (wake_with k2 s IPC_OK 0 NO_CAP)"
      using C(14) c1(4) wf[of k2] by (simp add: frames_ok_def)
    moreover have "?c = NO_CAP \<longrightarrow> l = NO_CAP" using tr by auto
    ultimately show ?thesis using Q False regs[of "wake_with k2 s IPC_OK 0 NO_CAP"] c1(3) by (auto simp: k3_def)
  qed
qed

lemma ipc_recv_keeps:
  assumes "ipc_inv k Q" "me < MAX_CORES" "k_current k ! me = Some p"
  shows "keeps_inv (ipc_recv k me ep f)"
proof (cases "endpoint_id_for k me ep RIGHT_RECV")
  case None
  then show ?thesis
    using keeps_Returns[of "write_reg k f GP_RDX NO_CAP" Q IPC_ERR] assms(1)
    by (simp add: ipc_recv_def ipc_inv_def write_reg_inv)
next
  case (Some i)
  show ?thesis
  proof (cases "take_waiting k i True")
    case None
    show ?thesis
    proof (cases "ep_senders (k_endpoints k ! i) = 0")
      case True
      obtain l k1 where tl: "take_reclaim_landing k (current_slot k me) = (l, k1)" by fastforce
      have "ipc_inv (write_reg k1 f GP_RDX l) Q"
        using assms(1) take_landing_inv[OF tl] by (simp add: ipc_inv_def write_reg_inv)
      then show ?thesis using Some None True tl keeps_Returns by (simp add: ipc_recv_def)
    next
      case False
      then show ?thesis
        using keeps_wait[OF assms Some, of False f] Some None by (simp add: ipc_recv_def)
    qed
  next
    case tk: (Some tk)
    then obtain r k1 where "take_waiting k i True = Some (r, k1)" by (cases tk) simp
    then show ?thesis using ipc_recv_meets[OF assms Some, of r k1 f] by (auto intro: keeps_Returns)
  qed
qed

lemma wake_views [simp]:
  "k_current (wake_with k t s m l) = k_current k" "k_current_slot (wake_with k t s m l) = k_current_slot k"
  "k_endpoints (wake_with k t s m l) = k_endpoints k" "k_links (wake_with k t s m l) = k_links k"
  by (simp_all add: wake_with_def set_slot_def Let_def)

lemma wake_process: "sl_process (slot_of (wake_with k t s m l) u) = sl_process (slot_of k u)"
  by (simp add: wake_with_def set_slot_def Let_def nth_list_update_cases)

lemma ipc_call_meets:
  assumes "ipc_inv k Q" "me < MAX_CORES" "k_current k ! me = Some p"
    and "endpoint_id_for k me ep RIGHT_SEND = Some i" "take_waiting k i False = Some (r, k1)"
    and "cur = k_current_slot k ! me"
  shows "\<exists>l pos k' rest. Q i = r # rest \<and> ipc_call k me ep req f = Some (Blocks pos k') \<and>
    ipc_inv k' (Q(i := rest)) \<and> is_blocked k' cur \<and> waits_nowhere (Q(i := rest)) cur \<and> k_current k' ! me = None \<and>
    (frames_ok k \<longrightarrow> delivered k' r IPC_OK req l) \<and>
    (l = NO_CAP \<or> holds_at (sl_process (slot_of k' r)) l (reply_cap cur))"
proof -
  obtain i: "i < MAX_ENDPOINTS" using endpoint_id_Some[OF assms(4)] by blast
  obtain rest where Q: "Q i = r # rest" and T: "ipc_inv k1 (Q(i := rest))" "is_blocked k r" "r < MAX_PROCESSES"
    "waits_nowhere (Q(i := rest)) r" "tally (reply_to r) k1 = 0" and fr: "\<exists>es. k1 = k\<lparr>k_endpoints := es\<rparr>"
    using take_waiting_Some[OF assms(1) i assms(5)] .
  note I1 = ipc_inv_atD[OF T(1)[unfolded ipc_inv_def]]
  have c1: "k_current k1 ! me = Some p" "is_blocked k1 r" "k_current_slot k1 ! me = cur" "k_frames k1 = k_frames k"
    using fr assms(3,6) T(2) by (auto simp: is_blocked_def)
  have len: "r < length (k_table k1)" using I1(7) T(3) by simp
  note R = running_slot[OF I1(1) assms(2) c1(1), unfolded c1(3)]
  note F = running_free[OF T(1) assms(2) c1(1), unfolded c1(3)]
  have "r \<noteq> cur" using c1(2) R(4) by auto
  obtain l k2 where m: "mint_reply_cap_into_blocked k1 r cur = (l, k2)" by fastforce
  have at: "ipc_inv_at {cur} k1 (Q(i := rest))" using inv_at_mono[OF T(1)[unfolded ipc_inv_def]] by simp
  have M: "ipc_inv_at {cur} k2 (Q(i := rest)) \<and> caps_only k1 k2 \<and> tally (reply_to r) k2 = 0 \<and>
      (l = NO_CAP \<or> holds_at (sl_process (slot_of k2 r)) l (reply_cap cur))"
    using mint_blocked_cases[OF I1(2) len m]
  proof (elim disjE conjE)
    assume "k2 = k1" "l = NO_CAP"
    then show ?thesis using at T(5) by simp
  next
    assume e: "exchanges k1 {#} {#reply_cap cur#} k2" "k_endpoints k2 = k_endpoints k1"
      and h: "holds_at (sl_process (slot_of k2 r)) l (reply_cap cur)"
    have "ipc_inv_at {cur} k2 (Q(i := rest))" by (rule mint_reply_inv[OF at e F(2) R(1) _ F(1)]) simp
    moreover have "tally (reply_to r) k2 = 0"
      using exchanges_tally[OF e(1), of "reply_to r"] T(5) \<open>r \<noteq> cur\<close> by (simp add: reply_to_def reply_cap_def)
    ultimately show ?thesis using exchangesD(1)[OF e(1)] h by simp
  qed
  then have co: "caps_only k1 k2" by blast
  note C = caps_onlyD[OF co]
  define k3 where "k3 = wake_with k2 r IPC_OK req l"
  have W: "ipc_inv_at {cur} k3 (Q(i := rest))"
    unfolding k3_def using wake_inv[OF _ T(3) _ T(4)] M C(15)[of r] c1(2) by blast
  obtain p2 where p2: "k_current k3 ! me = Some p2" using C(10)[of me] c1(1) by (auto simp: k3_def)
  have cs: "cur = k_current_slot k3 ! me" using C(12) c1(3) by (simp add: k3_def)
  have d: "delivered k3 r IPC_OK req l" if "frames_ok k"
    unfolding k3_def using that C(1,14) c1(4) len by (intro wake_delivers) (auto simp: frames_ok_def)
  have e: "ipc_call k me ep req f = blocks (block_current k3 me f)"
    using assms(4,5) m c1(3) by (simp add: ipc_call_def current_slot_def k3_def)
  show ?thesis
  proof (rule block_inv[OF W assms(2) p2 cs, of f], goal_cases)
    case (1 pos k')
    have s: "slot_of k' r = slot_of k3 r" using 1(6) \<open>r \<noteq> cur\<close> by blast
    have "delivered k' r IPC_OK req l" if "frames_ok k" using d[OF that] by (simp add: delivered_def s 1(8))
    moreover have "l = NO_CAP \<or> holds_at (sl_process (slot_of k' r)) l (reply_cap cur)"
      using M by (simp add: s k3_def wake_process)
    ultimately show ?case using 1 Q e F(1) by (auto simp: blocks_def)
  qed
qed

lemma ipc_call_waits:
  assumes "ipc_inv k Q" "me < MAX_CORES" "k_current k ! me = Some p"
    and "endpoint_id_for k me ep RIGHT_SEND = Some i" "take_waiting k i False = None"
    and "ep_receivers (k_endpoints k ! i) \<noteq> 0" "cur = k_current_slot k ! me"
  shows "\<exists>pos k'. ipc_call k me ep req f = Some (Blocks pos k') \<and> ipc_inv k' (Q(i := Q i @ [cur])) \<and>
    waits_at k' cur f (req, NO_CAP, True) \<and> k_current k' ! me = None"
proof -
  define k1 where "k1 = set_pending k cur req NO_CAP True"
  note I = ipc_inv_atD[OF assms(1)[unfolded ipc_inv_def]]
  obtain i: "i < MAX_ENDPOINTS" "ep_in_use (k_endpoints k ! i)" using endpoint_id_Some[OF assms(4)] by blast
  note R = running_slot[OF I(1) assms(2,3), folded assms(7)]
  have inv: "ipc_inv k1 Q" using assms(1) by (simp add: k1_def ipc_inv_def set_pending_inv)
  have "pending_of k1 cur = (req, NO_CAP, True)" using R(1) I(7) by (simp add: k1_def set_pending_def set_slot_def)
  moreover have "take_waiting k1 i False = None" using assms(5) take_waiting_cong[of k1 k] by (simp add: k1_def)
  moreover have "cur = k_current_slot k1 ! me" using assms(7) by (simp add: k1_def set_pending_def set_slot_def)
  moreover have "k_current k1 ! me = Some p" "ep_in_use (k_endpoints k1 ! i)" "0 < ep_receivers (k_endpoints k1 ! i)"
    using assms(3,6) i(2) by (simp_all add: k1_def)
  moreover have "ipc_call k me ep req f = blocks (block_current (enqueue_waiter k1 i cur True) me f)"
    using assms(4-6) by (simp add: ipc_call_def k1_def Let_def current_slot_def assms(7))
  ultimately show ?thesis using wait_result[OF inv assms(2) _ i(1), of p True cur f] by simp
qed

lemma ipc_call_keeps:
  assumes "ipc_inv k Q" "me < MAX_CORES" "k_current k ! me = Some p"
  shows "keeps_inv (ipc_call k me ep req f)"
proof (cases "endpoint_id_for k me ep RIGHT_SEND")
  case None
  then show ?thesis using keeps_Returns[OF assms(1)] by (simp add: ipc_call_def)
next
  case (Some i)
  show ?thesis
  proof (cases "take_waiting k i False")
    case None
    show ?thesis
    proof (cases "ep_receivers (k_endpoints k ! i) = 0")
      case True
      then show ?thesis using Some None keeps_Returns[OF assms(1)] by (simp add: ipc_call_def)
    next
      case False
      then show ?thesis
        using ipc_call_waits[OF assms Some None False refl, of req f] by (auto simp: keeps_inv_def)
    qed
  next
    case tk: (Some tk)
    then obtain r k1 where "take_waiting k i False = Some (r, k1)" by (cases tk) simp
    then show ?thesis using ipc_call_meets[OF assms Some _ refl, of r k1 req f] by (auto simp: keeps_inv_def)
  qed
qed

text \<open>A held reply capability: its target waits for exactly this reply.\<close>

lemma reply_target_Some:
  assumes "reply_target k me slot = Some t"
  obtains p c where "k_current k ! me = Some p" "peek (p_caps p) (unat slot) = Some c" "cap_obj c = Reply t"
  using assms by (auto simp: reply_target_def lookup_Inr_iff split: option.splits sum.splits cap_object.splits)

lemma reply_held:
  assumes "ipc_inv k Q" "me < MAX_CORES" "reply_target k me slot = Some t"
  shows "t < MAX_PROCESSES" "is_blocked k t" "waits_nowhere Q t" "tally (reply_to t) k = 1"
proof -
  note I = ipc_inv_atD[OF assms(1)[unfolded ipc_inv_def]]
  obtain p c where c: "k_current k ! me = Some p" "peek (p_caps p) (unat slot) = Some c" "cap_obj c = Reply t"
    using reply_target_Some[OF assms(3)] .
  have "c \<in># all_caps k" using current_cap_held[OF _ c(1,2)] assms(2) I(8) by simp
  then have "c \<in># filter_mset (reply_to t) (all_caps k)" using c(3) by (simp add: reply_to_def)
  then have "filter_mset (reply_to t) (all_caps k) \<noteq> {#}" by (metis empty_iff set_mset_empty)
  then have "0 < tally (reply_to t) k" by (rule nonempty_has_size[THEN iffD1])
  moreover have "tally (reply_to t) k \<le> 1" using I(6) by (simp add: replies_ok_def)
  ultimately show one: "tally (reply_to t) k = 1" by linarith
  then show "t < MAX_PROCESSES" "is_blocked k t" "waits_nowhere Q t" using I(6) by (auto simp: replies_ok_def)
qed

lemma revoke_current_Some:
  assumes "tables_ok k" "me < length (k_current k)" "k_current k ! me = Some p" "peek (p_caps p) slot = Some c"
  obtains p' where "exchanges k {#c#} {#} (revoke_current k me slot)"
    "revoke_current k me slot = k\<lparr>k_current := (k_current k)[me := Some p']\<rparr>"
    "peek (p_caps p') = (peek (p_caps p))(slot := None)"
proof -
  note wf = tables_okD(2)[OF assms(1-3)]
  obtain t where t: "revoke (p_caps p) slot = Inr (c, t)" using revoke_Some[OF wf assms(4)] by blast
  note R = revoke_Inr[OF wf t]
  have e: "revoke_current k me slot = k\<lparr>k_current := (k_current k)[me := Some (p\<lparr>p_caps := t\<rparr>)], k_unmaps := k_unmaps k\<rparr>"
    using t assms(3) by (simp add: revoke_current_def set_current_def)
  have "exchanges k {#c#} {#} (revoke_current k me slot)"
    using current_exchange(1)[OF assms(1-3) _ e, of "{#c#}" "{#}"] R(4) revoke_mset[OF wf t] by simp
  then show ?thesis using that[of "p\<lparr>p_caps := t\<rparr>"] e R(2) by simp
qed

lemma consume_reply_inv:
  assumes "ipc_inv_at X k Q" "exchanges k {#c#} {#} k'" "k_endpoints k' = k_endpoints k" "cap_obj c = Reply t"
    and "tally (reply_to t) k = 1"
  shows "ipc_inv_at X k' Q" "tally (reply_to t) k' = 0"
proof -
  note I = ipc_inv_atD[OF assms(1)]
  note C = caps_onlyD[OF exchangesD(1)[OF assms(2)]]
  have a: "all_caps k = add_mset c (all_caps k')" using exchangesD(3)[OF assms(2)] by simp
  have b: "is_blocked k' = is_blocked k" by (simp add: fun_eq_iff C)
  have n: "tally (reply_to u) k = tally (reply_to u) k' + (if u = t then 1 else 0)" for u
    using assms(4) by (auto simp: a reply_to_def)
  then show z: "tally (reply_to t) k' = 0" using assms(5) by simp
  have "counts_ok (k_endpoints k') (all_caps k')"
    using I(3) assms(4) by (simp add: counts_ok_def a assms(3) reaches_def)
  moreover have "ids_ok (all_caps k')" using I(4) by (simp add: ids_ok_def a)
  moreover have "sched_wf k'" using I(1) caps_only_wf[OF exchangesD(1)[OF assms(2)]] by simp
  moreover have "queues_ok X k' Q" using I(5) by (simp add: queues_ok_def assms(3) b C)
  moreover have "replies_ok X k' Q"
    unfolding replies_ok_def
  proof (intro allI conjI impI)
    fix u
    have u: "tally (reply_to u) k \<le> 1"
      "tally (reply_to u) k = 1 \<longrightarrow> u < MAX_PROCESSES \<and> (is_blocked k u \<or> u \<in> X) \<and> waits_nowhere Q u"
      using I(6) by (simp_all add: replies_ok_def)
    show "tally (reply_to u) k' \<le> 1" using u(1) n[of u] by linarith
    assume "tally (reply_to u) k' = 1"
    then have "tally (reply_to u) k = 1" using u(1) n[of u] by linarith
    then show "u < MAX_PROCESSES" "is_blocked k' u \<or> u \<in> X" "waits_nowhere Q u" using u(2) b by simp_all
  qed
  ultimately show "ipc_inv_at X k' Q" using exchangesD(2)[OF assms(2)] by (simp add: ipc_inv_at_def)
qed

text \<open>Waking touches the slots and frames, revoking the running process: they commute.\<close>

lemma reply_order:
  "revoke_current (wake_with k t s m l) me slot = wake_with (revoke_current k me slot) t s m l"
  by (simp add: revoke_current_def wake_with_def set_slot_def set_current_def Let_def split: option.split sum.split)

lemma ipc_reply_ok:
  assumes "ipc_inv k Q" "me < MAX_CORES" "reply_target k me slot = Some t"
  shows "\<exists>k'. ipc_reply k me slot msg = Some (Returns IPC_OK k') \<and> ipc_inv k' Q \<and>
    k' = wake_with (revoke_current k me (unat slot)) t IPC_OK msg NO_CAP \<and> tally (reply_to t) k' = 0"
proof -
  note I = ipc_inv_atD[OF assms(1)[unfolded ipc_inv_def]]
  note H = reply_held[OF assms]
  obtain p c where c: "k_current k ! me = Some p" "peek (p_caps p) (unat slot) = Some c" "cap_obj c = Reply t"
    using reply_target_Some[OF assms(3)] .
  obtain p' where R: "exchanges k {#c#} {#} (revoke_current k me (unat slot))"
    "revoke_current k me (unat slot) = k\<lparr>k_current := (k_current k)[me := Some p']\<rparr>"
    using revoke_current_Some[OF I(2) _ c(1,2)] assms(2) I(8) by metis
  define k1 where "k1 = revoke_current k me (unat slot)"
  have K: "ipc_inv_at {} k1 Q" "tally (reply_to t) k1 = 0"
    using consume_reply_inv[OF assms(1)[unfolded ipc_inv_def] R(1) _ c(3) H(4)] R(2) by (simp_all add: k1_def)
  have "is_blocked k1 t" using H(2) R(2) by (simp add: k1_def is_blocked_def)
  then have W: "ipc_inv_at {} (wake_with k1 t IPC_OK msg NO_CAP) Q" by (rule wake_inv[OF K(1) H(1) _ H(3) K(2)])
  have "map sl_process (k_table (wake_with k1 t IPC_OK msg NO_CAP)) = map sl_process (k_table k1)"
    by (rule nth_equalityI) (simp_all add: wake_with_def set_slot_def Let_def nth_list_update_cases)
  then have "all_caps (wake_with k1 t IPC_OK msg NO_CAP) = all_caps k1"
    by (simp add: all_caps_def) (metis map_map)
  then show ?thesis
    using W K(2) H(2) assms(3) by (simp add: ipc_reply_def ipc_inv_def reply_order k1_def)
qed

section \<open>Scheduling keeps the invariant\<close>

text \<open>Moving processes between their slots and their cores changes nothing the invariant reads.\<close>

definition shifts :: "kernel \<Rightarrow> kernel \<Rightarrow> bool" where
  "shifts k k' \<longleftrightarrow> all_caps k' = all_caps k \<and> (tables_ok k \<longrightarrow> tables_ok k') \<and> k_endpoints k' = k_endpoints k \<and>
     k_links k' = k_links k \<and> is_blocked k' = is_blocked k"

lemma shifts_trans: "shifts k k1 \<Longrightarrow> shifts k1 k2 \<Longrightarrow> shifts k k2"
  by (simp add: shifts_def)

lemma shifts_inv: "ipc_inv k Q \<Longrightarrow> shifts k k' \<Longrightarrow> sched_wf k' \<Longrightarrow> ipc_inv k' Q"
  by (simp add: ipc_inv_def ipc_inv_at_def shifts_def queues_ok_def replies_ok_def)

lemma resume_shifts:
  assumes "sched_wf k" "me < MAX_CORES" "k_current k ! me = None" "homed k me t" "state_of k t = Ready"
    and "resume_process k me t = Some (r, k')"
  shows "shifts k k'"
proof -
  have t: "t < MAX_PROCESSES" using homed_live[OF assms(1,2,4)] by (simp add: live_def)
  have L: "length (k_table k) = MAX_PROCESSES" "length (k_current k) = MAX_CORES"
    using sched_wfD(1)[OF assms(1)] by (simp_all add: shape_def)
  obtain p where p: "sl_process (slot_of k t) = Some p" using assms(6) by (auto simp: resume_process_def split: option.splits)
  let ?s = "(slot_of k t)\<lparr>sl_process := None, sl_state := Running\<rparr>"
  let ?k1 = "k\<lparr>k_table := (k_table k)[t := ?s]\<rparr>"
  have k': "k' = ?k1\<lparr>k_current := (k_current k)[me := Some p], k_current_slot := (k_current_slot k)[me := t]\<rparr>"
    using assms(6) p by (simp add: resume_process_def set_slot_def set_current_def Let_def)
  have "all_caps ?k1 + mset (ct_iter (p_caps p)) = all_caps k" using all_caps_slot[of t k ?s] p t L by simp
  moreover have "all_caps k' = all_caps ?k1 + mset (ct_iter (p_caps p))"
    using all_caps_current[of me ?k1 "Some p"] assms(2,3) L by (simp add: k' all_caps_def)
  moreover have "tables_ok k'" if ok: "tables_ok k"
    using tables_ok_current[OF tables_ok_slot[OF ok, of ?s t], of "Some p" me] tables_okD(1)[OF ok _ p] t L
    by (simp add: k' tables_ok_def)
  moreover have "is_blocked k' = is_blocked k"
    using t L assms(5) by (auto simp: fun_eq_iff is_blocked_def k' nth_list_update_cases)
  ultimately show ?thesis by (simp add: shifts_def k')
qed

lemma park_shifts:
  assumes "sched_wf k" "me < MAX_CORES" "k_current k ! me = Some p" "park k me f Ready = Some k'"
  shows "shifts k k'"
proof -
  note R = running_slot[OF assms(1-3)]
  define cur where "cur = k_current_slot k ! me"
  have L: "length (k_table k) = MAX_PROCESSES" "length (k_current k) = MAX_CORES"
    using sched_wfD(1)[OF assms(1)] by (simp_all add: shape_def)
  let ?s = "(slot_of k cur)\<lparr>sl_rsp := f, sl_process := Some p, sl_state := Ready\<rparr>"
  let ?k1 = "k\<lparr>k_table := (k_table k)[cur := ?s]\<rparr>"
  have k': "k' = ?k1\<lparr>k_current := (k_current k)[me := None]\<rparr>"
    using assms(3,4) by (simp add: park_def set_slot_def set_current_def Let_def cur_def)
  have "all_caps ?k1 = all_caps k + mset (ct_iter (p_caps p))"
    using all_caps_slot[of cur k ?s] R L by (simp add: cur_def)
  moreover have "all_caps k' + mset (ct_iter (p_caps p)) = all_caps ?k1"
    using all_caps_current[of me ?k1 None] assms(2,3) L by (simp add: k')
  moreover have "tables_ok k'" if ok: "tables_ok k"
    using tables_ok_current[OF tables_ok_slot[OF ok, of ?s cur], of None me] tables_okD(2)[OF ok _ assms(3)] assms(2) L
    by (simp add: k')
  moreover have "is_blocked k' = is_blocked k"
    using R(1,2) L by (auto simp: fun_eq_iff is_blocked_def k' nth_list_update_cases cur_def)
  ultimately show ?thesis by (simp add: shifts_def k')
qed

lemma shifts_same:
  "k_table k' = k_table k \<Longrightarrow> k_current k' = k_current k \<Longrightarrow> k_endpoints k' = k_endpoints k \<Longrightarrow> k_links k' = k_links k \<Longrightarrow>
   shifts k k'"
  by (simp add: shifts_def all_caps_def tables_ok_def is_blocked_def fun_eq_iff)

lemma quantum_shifts: "quantum_expired k me = (b, k') \<Longrightarrow> shifts k k'"
  by (rule shifts_same) (auto simp: quantum_expired_def Let_def split: if_splits)

lemma moved_shifts: "moved k d me t k' \<Longrightarrow> shifts k k'"
  by (rule shifts_same) (unfold moved_def, (metis kernel.select_convs kernel.update_convs(4,8) kernel.surjective)+)

lemma switch_resume_shifts:
  assumes "sched_wf k" "me < MAX_CORES" "k_current k ! me = None" "homed k me t" "state_of k t = Ready"
    and "switch_resume k me t = Some (s, k')"
  shows "shifts k k'"
proof -
  obtain r where "resume_process k me t = Some (r, k')"
    using assms(6) by (auto simp: switch_resume_def split: prod.splits)
  then show ?thesis by (rule resume_shifts[OF assms(1-5)])
qed

lemma steal_resume_shifts:
  assumes "sched_wf k" "me < MAX_CORES" "k_current k ! me = None" "try_steal k me = Some (Some t, k1)"
    and "switch_resume k1 me t = Some (s, k')"
  shows "shifts k k'"
proof (cases rule: try_steal_cases[OF assms(1,2)])
  case 1
  then show ?thesis using assms(4) by simp
next
  case (2 d u k2)
  then have e: "u = t" "k2 = k1" using assms(4) by simp_all
  note M = moved_frame[OF 2(2)]
  have "homed k1 me t" "state_of k1 t = Ready" "k_current k1 ! me = None"
    using 2(2) e M assms(3) by (auto simp: moved_def)
  then have "shifts k1 k'" using switch_resume_shifts[OF _ assms(2)] 2(3) e assms(5) by blast
  then show ?thesis using shifts_trans[OF moved_shifts[OF 2(2)]] e by blast
qed

lemma shifts_refl: "shifts k k"
  by (simp add: shifts_def)

lemma switch_to_next_shifts:
  assumes "sched_wf k" "me < MAX_CORES" "k_current k ! me = None" "pos < MAX_PROCESSES"
    and "switch_to_next k me pos idle i d = Some (s, k')"
  shows "shifts k k'"
proof -
  have at: "shifts k k'" if n: "n < MAX_PROCESSES" "core_states k me ! n = Ready"
    "Option.bind (core_table_slot k me n) (switch_resume k me) = Some (s, k')" for n
  proof -
    obtain t where t: "core_table_slot k me n = Some t" "homed k me t" "state_of k t = Ready"
      using ready_position[OF sched_wfD(1)[OF assms(1)] assms(2) n(1,2)] by blast
    then show ?thesis using switch_resume_shifts[OF assms(1-3) t(2,3)] n(3) by simp
  qed
  show ?thesis
  proof (cases "pick_next (core_states k me) pos")
    case (Some n)
    then show ?thesis using at[of n] pick_next_Some[OF Some] assms(5) by (simp add: switch_to_next_def Let_def)
  next
    case None
    show ?thesis
    proof (cases "core_states k me ! pos = Ready")
      case True
      then show ?thesis using at[of pos] None assms(4,5) by (simp add: switch_to_next_def Let_def)
    next
      case quiet: False
      show ?thesis
      proof (cases "idle = ExitedReturnIfDone \<and> k_launcher k ! me")
        case False
        then show ?thesis using quiet None assms(5) shifts_refl
          by (auto simp: switch_to_next_def Let_def split: if_splits)
      next
        case True
        then have sn: "Option.bind (try_steal k me) (\<lambda>(stolen, k').
              case stolen of Some t \<Rightarrow> switch_resume k' me t
              | None \<Rightarrow> Some (switch_idle k' me i d, k')) = Some (s, k')"
          using quiet None assms(5) by (simp add: switch_to_next_def Let_def)
        show ?thesis
        proof (cases rule: try_steal_cases[OF assms(1,2)])
          case 1
          then show ?thesis using sn shifts_refl by simp
        next
          case (2 e t k1)
          then show ?thesis using sn steal_resume_shifts[OF assms(1-3) 2(1)] by simp
        qed
      qed
    qed
  qed
qed

lemma idle_pass_shifts:
  assumes "sched_wf k" "me < MAX_CORES" "k_current k ! me = None" "idle_pass k me = Some (s, k')"
  shows "shifts k k'"
proof (cases "position (\<lambda>s. s = Ready) (core_states k me)")
  case (Some i)
  have l: "length (core_states k me) = MAX_PROCESSES"
    using sched_wfD(1)[OF assms(1)] assms(2) by (simp add: core_states_def shape_def)
  have i: "i < MAX_PROCESSES" "core_states k me ! i = Ready" using position_SomeD(1,2)[OF Some] l by simp_all
  obtain t where t: "core_table_slot k me i = Some t" "homed k me t" "state_of k t = Ready"
    using ready_position[OF sched_wfD(1)[OF assms(1)] assms(2) i] by blast
  then show ?thesis
    using switch_resume_shifts[OF assms(1-3) t(2,3)] Some assms(4) by (simp add: idle_pass_def first_claimable_slot_def)
next
  case None
  then have fc: "first_claimable_slot k me = None" by (simp add: first_claimable_slot_def)
  show ?thesis
  proof (cases rule: try_steal_cases[OF assms(1,2)])
    case 1
    then show ?thesis using fc assms(4) shifts_refl by (simp add: idle_pass_def)
  next
    case (2 e t k1)
    then show ?thesis using fc assms(4) steal_resume_shifts[OF assms(1-3) 2(1)] by (simp add: idle_pass_def)
  qed
qed

lemma timer_tick_shifts:
  assumes "sched_wf k" "me < MAX_CORES" "k_current k ! me = Some p" "timer_tick k me f = Some (r, k')"
  shows "shifts k k'"
proof (cases "tf_cs (k_frames k f) AND 3 = 3")
  case False
  then show ?thesis using assms(4) shifts_refl by (simp add: timer_tick_def)
next
  case user: True
  obtain b k0 where q: "quantum_expired k me = (b, k0)" by fastforce
  note Q = quantum_wf[OF q]
  have wf0: "sched_wf k0" using Q(1) assms(1) by simp
  have p: "k_current k0 ! me = Some p" using assms(3) Q(3) by simp
  show ?thesis
  proof (cases "b \<and> k_active k0")
    case False
    then show ?thesis using user q assms(4) quantum_shifts[OF q] by (auto simp: timer_tick_def Let_def)
  next
    case True
    then have tt: "Option.bind (core_position k0 me (k_current_slot k0 ! me)) (\<lambda>cur_pos.
        case pick_next (core_states k0 me) cur_pos of
          None \<Rightarrow> Some (f, k0)
        | Some next_pos \<Rightarrow>
            Option.bind (core_table_slot k0 me next_pos) (\<lambda>next.
            Option.bind (park k0 me f Ready) (\<lambda>k1. resume_process k1 me next))) = Some (r, k')"
      using user q assms(4) by (simp add: timer_tick_def Let_def)
    then obtain pos where pos: "core_position k0 me (k_current_slot k0 ! me) = Some pos"
      by (auto simp: bind_eq_Some_conv)
    show ?thesis
    proof (cases "pick_next (core_states k0 me) pos")
      case None
      then show ?thesis using tt pos quantum_shifts[OF q] by simp
    next
      case (Some n)
      obtain nx where nx: "core_table_slot k0 me n = Some nx" "homed k0 me nx" "state_of k0 nx = Ready"
        using ready_position[OF sched_wfD(1)[OF wf0] assms(2) pick_next_Some[OF Some]] by blast
      define cur where "cur = k_current_slot k0 ! me"
      have "nx \<noteq> cur" using running_slot(2)[OF wf0 assms(2) p] nx(3) by (auto simp: cur_def)
      obtain k1 where k1: "park k0 me f Ready = Some k1" "sched_wf k1" "k_current k1 ! me = None"
        "\<And>c t. homed k1 c t = homed k0 c t" "\<And>t. t \<noteq> cur \<Longrightarrow> slot_of k1 t = slot_of k0 t"
        using park_wf[OF wf0 assms(2) p, of Ready f] unfolding cur_def by (metis insertI1)
      have "resume_process k1 me nx = Some (r, k')" using tt pos Some nx(1) k1(1) by simp
      then have "shifts k1 k'"
        using resume_shifts[OF k1(2) assms(2) k1(3), of nx] nx k1(4,5) \<open>nx \<noteq> cur\<close> by simp
      then show ?thesis
        using shifts_trans[OF quantum_shifts[OF q] shifts_trans[OF park_shifts[OF wf0 assms(2) p k1(1)]]] by blast
    qed
  qed
qed

section \<open>The kernel as a transition system\<close>

text \<open>
  One action on some core: an IPC operation of the process it runs, a timer interrupt over it, or
  the core (having none) looking for one.
\<close>

datatype ipc_op = OpSend u64 u64 u64 | OpRecv u64 | OpCall u64 u64 | OpReply u64 u64

fun run_op :: "kernel \<Rightarrow> nat \<Rightarrow> u64 \<Rightarrow> ipc_op \<Rightarrow> outcome option" where
  "run_op k me f (OpSend ep msg slot) = ipc_send k me ep msg slot f"
| "run_op k me f (OpRecv ep) = ipc_recv k me ep f"
| "run_op k me f (OpCall ep req) = ipc_call k me ep req f"
| "run_op k me f (OpReply slot msg) = ipc_reply k me slot msg"

inductive kernel_step :: "kernel \<Rightarrow> kernel \<Rightarrow> bool" where
  ipc: "me < MAX_CORES \<Longrightarrow> k_current k ! me \<noteq> None \<Longrightarrow> run_op k me f x = Some out \<Longrightarrow> kernel_step k (out_state out)"
| tick: "me < MAX_CORES \<Longrightarrow> k_current k ! me \<noteq> None \<Longrightarrow> timer_tick k me f = Some (r, k') \<Longrightarrow> kernel_step k k'"
| switch: "me < MAX_CORES \<Longrightarrow> k_current k ! me = None \<Longrightarrow> pos < MAX_PROCESSES \<Longrightarrow>
    switch_to_next k me pos on_idle i d = Some (s, k') \<Longrightarrow> kernel_step k k'"
| idle: "me < MAX_CORES \<Longrightarrow> k_current k ! me = None \<Longrightarrow> idle_pass k me = Some (s, k') \<Longrightarrow> kernel_step k k'"

lemma run_op_keeps:
  assumes "ipc_inv k Q" "me < MAX_CORES" "k_current k ! me = Some p"
  shows "keeps_inv (run_op k me f x)"
proof (cases x)
  case (OpReply slot msg)
  show ?thesis
  proof (cases "reply_target k me slot")
    case None
    then show ?thesis using OpReply keeps_Returns[OF assms(1)] by (simp add: ipc_reply_def)
  next
    case (Some t)
    then obtain k' where "ipc_reply k me slot msg = Some (Returns IPC_OK k')" "ipc_inv k' Q"
      using ipc_reply_ok[OF assms(1,2)] by blast
    then show ?thesis using OpReply keeps_Returns by simp
  qed
qed (simp_all add: ipc_send_keeps[OF assms] ipc_recv_keeps[OF assms] ipc_call_keeps[OF assms])

lemma kernel_step_inv:
  assumes "kernel_step k k'" "\<exists>Q. ipc_inv k Q"
  shows "\<exists>Q. ipc_inv k' Q"
  using assms
proof (induction rule: kernel_step.induct)
  case (ipc me k f x out)
  then obtain Q p where "ipc_inv k Q" "k_current k ! me = Some p" by auto
  then show ?case using run_op_keeps[of k Q me p f x] ipc by (auto simp: keeps_inv_def)
next
  case (tick me k f r k')
  then obtain Q p where Q: "ipc_inv k Q" "k_current k ! me = Some p" by auto
  have wf: "sched_wf k" using ipc_inv_atD(1) Q(1) by (simp add: ipc_inv_def)
  have "sched_wf k'" using timer_tick_wf[OF wf tick(1,2), of f] tick(3) by auto
  then show ?case using shifts_inv[OF Q(1) timer_tick_shifts[OF wf tick(1) Q(2) tick(3)]] by blast
next
  case (switch me k pos on_idle i d s k')
  then obtain Q where Q: "ipc_inv k Q" by auto
  have wf: "sched_wf k" using ipc_inv_atD(1) Q by (simp add: ipc_inv_def)
  have "sched_wf k'" using switch_to_next_wf[OF wf switch(1-3), of on_idle i d] switch(4) by auto
  then show ?case using shifts_inv[OF Q switch_to_next_shifts[OF wf switch(1-4)]] by blast
next
  case (idle me k s k')
  then obtain Q where Q: "ipc_inv k Q" by auto
  have wf: "sched_wf k" using ipc_inv_atD(1) Q by (simp add: ipc_inv_def)
  have "sched_wf k'" using idle_pass_wf[OF wf idle(1,2)] idle(3) by auto
  then show ?case using shifts_inv[OF Q idle_pass_shifts[OF wf idle(1-3)]] by blast
qed

lemma kernel_steps_inv:
  assumes "kernel_step\<^sup>*\<^sup>* k k'" "ipc_inv k Q"
  shows "\<exists>Q'. ipc_inv k' Q'"
  using assms(1)
proof (induction rule: rtranclp_induct)
  case base
  then show ?case using assms(2) by blast
next
  case (step k1 k2)
  then show ?case using kernel_step_inv by blast
qed

section \<open>A concrete configuration\<close>

text \<open>
  Slot 0 runs on core 0 holding a capability for endpoint 0, an event source, and a reply
  capability for slot 2; slot 1 waits on the other side of endpoint 0, in a call if it is the
  sender; slot 2 waits for its reply.
\<close>

definition cap_of :: "cap_object \<Rightarrow> u8 \<Rightarrow> capability" where
  "cap_of ob r = \<lparr>cap_obj = ob, cap_rights = r, cap_origin = None\<rparr>"

definition table_with :: "capability list \<Rightarrow> cap_table" where
  "table_with cs = \<lparr>ct_slots = map Some cs @ replicate (MAX_CAPS - length cs) None, ct_reserved = replicate MAX_CAPS False\<rparr>"

definition proc_with :: "capability list \<Rightarrow> process" where
  "proc_with cs = process_new\<lparr>p_caps := table_with cs\<rparr>"

definition side :: "bool \<Rightarrow> u8" where
  "side sending = (if sending then RIGHT_SEND else RIGHT_RECV)"

definition meeting_with :: "bool \<Rightarrow> kernel" where
  "meeting_with b = (kernel_init \<lparr>fa_bitmap = [], fa_frames = 0, fa_free = 0\<rparr>)
     \<lparr>k_table := [slot_empty\<lparr>sl_state := Running\<rparr>,
                  slot_empty\<lparr>sl_state := Blocked, sl_rsp := 0x5000, sl_msg := 7, sl_call := b,
                    sl_process := Some (proc_with [cap_of (Endpoint 0) (side b)])\<rparr>,
                  slot_empty\<lparr>sl_state := Blocked, sl_rsp := 0x6000, sl_process := Some (proc_with [])\<rparr>,
                  slot_empty],
      k_queues := [Some 0, Some 1, Some 2, None] # replicate 15 (replicate MAX_PROCESSES None),
      k_current := Some (proc_with [cap_of (Endpoint 0) (side (\<not> b)), cap_of (EventSource 1) RIGHT_READ, reply_cap 2])
        # replicate 15 None,
      k_endpoints := \<lparr>ep_in_use = True, ep_queue = \<lparr>wq_head = Some 1, wq_tail = Some 1, wq_are_senders = b\<rparr>,
                      ep_senders = 1, ep_receivers = 1\<rparr> # replicate 7 ep_empty\<rparr>"

abbreviation "meeting \<equiv> meeting_with False"
abbreviation "serving \<equiv> meeting_with True"

definition meeting_queues :: "nat \<Rightarrow> nat list" where
  "meeting_queues i = (if i = 0 then [1] else [])"

lemma sum_list_no_msets [simp]: "sum_list (replicate n {#}) = {#}"
  by (induction n) simp_all

lemma iter_table_with [simp]: "ct_iter (table_with cs) = cs"
proof -
  have "List.map_filter id (map Some cs @ replicate n None) = cs" for n :: nat
    by (induction cs) (simp_all add: map_filter_def)
  then show ?thesis by (simp add: ct_iter_def table_with_def)
qed

lemma peek_table_with: "i < length cs \<Longrightarrow> peek (table_with cs) i = Some (cs ! i)"
  by (simp add: peek_def table_with_def get_def nth_append)

lemma table_with_wf: "length cs \<le> MAX_CAPS \<Longrightarrow> ct_wf (table_with cs)"
  by (simp add: ct_wf_def table_with_def)

lemma meeting_caps: "all_caps (meeting_with b) =
    {#cap_of (Endpoint 0) (side b), cap_of (Endpoint 0) (side (\<not> b)), cap_of (EventSource 1) RIGHT_READ, reply_cap 2#}"
  by (simp add: all_caps_def meeting_with_def slot_empty_def proc_with_def sum_list_replicate)

lemma meeting_sched: "sched_wf (meeting_with b)"
proof -
  let ?k = "meeting_with b"
  have sh: "shape ?k"
    by (auto simp: shape_def meeting_with_def kernel_init_def MAX_CORES_def MAX_PROCESSES_def)
  have lv: "live ?k = {0, 1, 2}"
    by (auto simp: live_def meeting_with_def MAX_PROCESSES_def slot_empty_def less_Suc_eq numeral_eq_Suc)
  have "queue_mset (replicate MAX_PROCESSES None) = {#}"
    by (simp add: queue_mset_def sum_list_replicate)
  then have q: "queued ?k = mset_set (live ?k)"
    unfolding lv by (simp add: queued_def meeting_with_def sum_list_replicate queue_mset_def)
  have ro: "runs_on ?k c t \<longleftrightarrow> c = 0 \<and> t = 0" if "c < MAX_CORES" for c t
    using that by (cases c) (auto simp: runs_on_def meeting_with_def kernel_init_def MAX_CORES_def)
  have h: "homed ?k 0 0" by (simp add: homed_def meeting_with_def)
  have st: "\<forall>t < MAX_PROCESSES. sl_process (slot_of ?k t) \<noteq> None \<longleftrightarrow> state_of ?k t \<in> {Ready, Blocked}"
    "\<And>t. t < MAX_PROCESSES \<Longrightarrow> state_of ?k t = Running \<longleftrightarrow> t = 0"
    by (auto simp: meeting_with_def MAX_PROCESSES_def slot_empty_def less_Suc_eq numeral_eq_Suc)
  have m: "0 < MAX_CORES" "0 < MAX_PROCESSES" by (simp_all add: MAX_CORES_def MAX_PROCESSES_def)
  have "t < MAX_PROCESSES \<and> state_of ?k t = Running \<and> homed ?k c t" if C: "c < MAX_CORES" "runs_on ?k c t" for c t
    using ro[OF C(1)] C(2) h m(2) st(2) by simp
  moreover have "\<exists>c < MAX_CORES. runs_on ?k c t" if T: "t < MAX_PROCESSES" "state_of ?k t = Running" for t
    using ro[OF m(1)] st(2) T m(1) by auto
  ultimately show ?thesis unfolding sched_wf_def using sh q st(1) by simp
qed

lemma meeting_inv: "ipc_inv (meeting_with b) meeting_queues"
proof -
  have small: "i < MAX_ENDPOINTS \<Longrightarrow> i = 0 \<or> 0 < i \<and> k_endpoints (meeting_with b) ! i = ep_empty" for i
    by (cases i) (auto simp: meeting_with_def MAX_ENDPOINTS_def)
  have r: "reaches r i (cap_of (Endpoint 0) x) \<longleftrightarrow> i = 0 \<and> has_right x r" "\<not> reaches r i (cap_of (EventSource 1) x)"
    "\<not> reaches r i (reply_cap 2)" for r i x
    by (auto simp: reaches_def cap_of_def reply_cap_def)
  have h: "has_right (side c) RIGHT_RECV \<longleftrightarrow> \<not> c" "has_right (side c) RIGHT_SEND \<longleftrightarrow> c" for c
    by (simp_all add: has_right_def right_defs side_def)
  have co: "counts_ok (k_endpoints (meeting_with b)) (all_caps (meeting_with b))"
    unfolding counts_ok_def meeting_caps
  proof (intro conjI allI impI)
    show "length (k_endpoints (meeting_with b)) = MAX_ENDPOINTS" by (simp add: meeting_with_def MAX_ENDPOINTS_def)
    fix i
    assume "i < MAX_ENDPOINTS"
    then consider "i = 0" | "i \<noteq> 0" "k_endpoints (meeting_with b) ! i = ep_empty" using small by blast
    then show "ep_senders (k_endpoints (meeting_with b) ! i) = refs RIGHT_SEND i {#cap_of (Endpoint 0) (side b),
        cap_of (Endpoint 0) (side (\<not> b)), cap_of (EventSource 1) RIGHT_READ, reply_cap 2#}"
      "ep_receivers (k_endpoints (meeting_with b) ! i) = refs RIGHT_RECV i {#cap_of (Endpoint 0) (side b),
        cap_of (Endpoint 0) (side (\<not> b)), cap_of (EventSource 1) RIGHT_READ, reply_cap 2#}"
      by (cases; simp add: r h ep_empty_def; simp add: meeting_with_def)+
  qed
  have ids: "ids_ok (all_caps (meeting_with b))"
    by (simp add: ids_ok_def meeting_caps cap_of_def reply_cap_def MAX_ENDPOINTS_def)
  have tab: "tables_ok (meeting_with b)"
    by (simp add: tables_ok_def meeting_with_def slot_empty_def proc_with_def table_with_wf MAX_CAPS_def)
  have qs: "queues_ok {} (meeting_with b) meeting_queues"
    unfolding queues_ok_def
  proof (intro conjI allI impI ballI)
    show l: "length (k_links (meeting_with b)) = MAX_PROCESSES" by (simp add: meeting_with_def kernel_init_def)
    fix i
    assume i: "i < MAX_ENDPOINTS"
    have "wq_rep (ep_queue (k_endpoints (meeting_with b) ! 0)) (k_links (meeting_with b)) [1]"
      by (simp add: wq_rep_def meeting_with_def kernel_init_def MAX_PROCESSES_def first_of_def last_of_def)
    then show "wq_rep (ep_queue (k_endpoints (meeting_with b) ! i)) (k_links (meeting_with b)) (meeting_queues i)"
      using small[OF i] by (auto simp: meeting_queues_def ep_empty_def wq_rep_empty)
    show "is_blocked (meeting_with b) t \<or> t \<in> {}" if "t \<in> set (meeting_queues i)" for t
      using that by (auto simp: meeting_queues_def is_blocked_def meeting_with_def split: if_splits)
    show "ep_in_use (k_endpoints (meeting_with b) ! i)" "served (k_endpoints (meeting_with b) ! i)" if "meeting_queues i \<noteq> []"
      using that by (auto simp: meeting_queues_def meeting_with_def served_def split: if_splits)
    show "ep_senders (k_endpoints (meeting_with b) ! i) = 0" "ep_receivers (k_endpoints (meeting_with b) ! i) = 0"
      if "\<not> ep_in_use (k_endpoints (meeting_with b) ! i)"
      using that small[OF i] by (auto simp: meeting_with_def ep_empty_def)
    show "set (meeting_queues i) \<inter> set (meeting_queues j) = {}" if "j < MAX_ENDPOINTS" "j \<noteq> i" for j
      using that by (auto simp: meeting_queues_def)
  qed
  have "tally (reply_to t) (meeting_with b) = (if t = 2 then 1 else 0)" for t
    by (simp add: meeting_caps reply_to_def cap_of_def reply_cap_def)
  moreover have "is_blocked (meeting_with b) 2" by (simp add: is_blocked_def meeting_with_def)
  ultimately have "replies_ok {} (meeting_with b) meeting_queues"
    by (simp add: replies_ok_def MAX_PROCESSES_def waits_nowhere_def meeting_queues_def)
  then show ?thesis using co ids tab qs meeting_sched by (simp add: ipc_inv_def ipc_inv_at_def)
qed

section \<open>What IPC promises\<close>

lemma queued_at:
  assumes "ipc_inv k Q" "i < MAX_ENDPOINTS"
  shows "take_waiting k i w = None \<longleftrightarrow> \<not> (Q i \<noteq> [] \<and> wq_are_senders (ep_queue (k_endpoints k ! i)) = w)"
  using take_waiting_None[OF assms] by blast

text \<open>
  C1. The kernel's IPC state stays consistent along every run: after any sequence of send, receive,
  call and reply operations, timer interrupts, switches and idle passes on any cores, each
  endpoint's counters are the number of capabilities, over every table in the system, that can
  send and receive on it; every queued waiter is blocked, waits on one live endpoint only, and the
  side it waits for can still come; and a reply capability exists at most once and names a
  process that is blocked outside every queue.
\<close>
theorem ipc_safety:
  assumes "ipc_inv k Q" "kernel_step\<^sup>*\<^sup>* k k'"
  shows "\<exists>Q'. (\<forall>i < MAX_ENDPOINTS.
        ep_senders (k_endpoints k' ! i) = refs RIGHT_SEND i (all_caps k') \<and>
        ep_receivers (k_endpoints k' ! i) = refs RIGHT_RECV i (all_caps k') \<and>
        wq_rep (ep_queue (k_endpoints k' ! i)) (k_links k') (Q' i) \<and>
        (Q' i \<noteq> [] \<longrightarrow> ep_in_use (k_endpoints k' ! i) \<and>
           0 < refs (if wq_are_senders (ep_queue (k_endpoints k' ! i)) then RIGHT_RECV else RIGHT_SEND) i (all_caps k')) \<and>
        (\<forall>t \<in> set (Q' i). is_blocked k' t \<and> (\<forall>j < MAX_ENDPOINTS. t \<in> set (Q' j) \<longrightarrow> j = i))) \<and>
      (\<forall>t. tally (reply_to t) k' \<le> 1 \<and>
        (tally (reply_to t) k' = 1 \<longrightarrow> is_blocked k' t \<and> waits_nowhere Q' t))"
proof -
  obtain Q' where Q': "ipc_inv k' Q'" using kernel_steps_inv[OF assms(2,1)] by blast
  note I = ipc_inv_atD[OF Q'[unfolded ipc_inv_def]]
  note D = queues_okD[OF I(5)]
  show ?thesis
  proof (intro exI[of _ Q'] conjI allI impI ballI)
    fix i
    assume i: "i < MAX_ENDPOINTS"
    show c: "ep_senders (k_endpoints k' ! i) = refs RIGHT_SEND i (all_caps k')"
      "ep_receivers (k_endpoints k' ! i) = refs RIGHT_RECV i (all_caps k')"
      using I(3) i by (simp_all add: counts_ok_def)
    show "wq_rep (ep_queue (k_endpoints k' ! i)) (k_links k') (Q' i)" using D(1)[OF i] .
    show "ep_in_use (k_endpoints k' ! i)" if "Q' i \<noteq> []" using D(4)[OF i that] by simp
    show "0 < refs (if wq_are_senders (ep_queue (k_endpoints k' ! i)) then RIGHT_RECV else RIGHT_SEND) i (all_caps k')"
      if "Q' i \<noteq> []" using D(4)[OF i that] c by (simp add: served_def split: if_splits)
    show "is_blocked k' t" if "t \<in> set (Q' i)" for t using D(3)[OF i that] by simp
    show "j = i" if T: "t \<in> set (Q' i)" "j < MAX_ENDPOINTS" "t \<in> set (Q' j)" for t j
      using D(5)[OF i T(2)] T(1,3) by blast
  next
    fix t
    show "tally (reply_to t) k' \<le> 1" using I(6) by (simp add: replies_ok_def)
    assume "tally (reply_to t) k' = 1"
    then show "is_blocked k' t" "waits_nowhere Q' t" using I(6) by (simp_all add: replies_ok_def)
  qed
qed

lemma meeting_endpoint: "endpoint_id_for meeting 0 0 RIGHT_SEND = Some 0"
  "endpoint_id_for serving 0 0 RIGHT_RECV = Some 0"
  by (simp_all add: endpoint_id_for_def meeting_with_def proc_with_def lookup_def table_with_def get_def cap_of_def
      side_def MAX_ENDPOINTS_def)

lemma meeting_running: "0 < MAX_CORES" "k_current (meeting_with b) ! 0 \<noteq> None"
  by (simp_all add: MAX_CORES_def meeting_with_def)

lemma ipc_safety_witness:
  "\<exists>k'. kernel_step meeting k' \<and> (\<forall>t. tally (reply_to t) k' \<le> 1)"
proof -
  obtain p where p: "k_current meeting ! 0 = Some p" using meeting_running(2) by blast
  obtain out where "run_op meeting 0 0x4000 (OpSend 0 42 1) = Some out"
    using run_op_keeps[OF meeting_inv[of False] meeting_running(1) p] unfolding keeps_inv_def by blast
  then have "kernel_step meeting (out_state out)" using kernel_step.ipc[OF meeting_running] by blast
  then show ?thesis using ipc_safety[OF meeting_inv[of False] r_into_rtranclp] by blast
qed


lemma meeting_frames: "frames_ok (meeting_with b)"
  by (simp add: frames_ok_def meeting_with_def kernel_init_def)






lemma install_home_room:
  assumes "ct_wf t" "i < MAX_CAPS" "peek t i = None" "\<not> is_reserved t i"
  shows "\<exists>j t'. install_home t c prior d = Some (j, t')"
proof -
  obtain j t' where "install t c = Inr (j, t')" using install_total[OF assms] .
  then show ?thesis by (auto simp: install_home_def Let_def split: option.splits)
qed



end
