(* ===== verification/Address_Space.thy ===== *)
theory Address_Space
  imports Frame_Alloc
begin

text \<open>
  Address spaces, \<open>kernel/src/memory.rs\<close>: physical memory as bytes, the creation of a private L4
  that shares the kernel half, the walk that frees a process's page tables, and the bookkeeping of
  the device-MMIO window.  Physical memory is addressed directly; the constant offset at which the
  kernel sees it is dropped.  The page-table mapper itself is the \<open>x86_64\<close> crate's and is a
  parameter of the operations that use it.
\<close>

section \<open>Physical memory\<close>

type_synonym mem = "u64 \<Rightarrow> u8"

definition byte_of :: "u64 \<Rightarrow> nat \<Rightarrow> u8" where
  "byte_of v i = le_bytes 8 (unat v) ! i"

definition read64 :: "mem \<Rightarrow> u64 \<Rightarrow> u64" where
  "read64 m a = of_nat (le_nat (map (\<lambda>i. m (a + of_nat i)) [0..<8]))"

definition write64 :: "mem \<Rightarrow> u64 \<Rightarrow> u64 \<Rightarrow> mem" where
  "write64 m a v = (\<lambda>x. if x - a < 8 then byte_of v (unat (x - a)) else m x)"

lemma read_write_same: "read64 (write64 m a v) a = v"
proof -
  have "(of_nat i :: u64) < 8" if "i < 8" for i
    using that by (simp add: word_less_nat_alt unat_of_nat)
  then have "map (\<lambda>i. write64 m a v (a + of_nat i)) [0..<8] = le_bytes 8 (unat v)"
    by (intro nth_equalityI) (simp_all add: write64_def byte_of_def unat_of_nat)
  moreover have "le_nat (le_bytes 8 (unat v)) = unat v"
    by (rule le_nat_le_bytes) (use unat_u64_less[of v] in simp)
  ultimately show ?thesis by (simp add: read64_def)
qed

lemma read_write_other:
  assumes "8 \<le> b - a" "8 \<le> a - b"
  shows "read64 (write64 m a v) b = read64 m b"
proof -
  have "\<not> b + of_nat i - a < 8" if i: "i < 8" for i :: nat
  proof -
    have d: "8 \<le> unat (b - a)" "unat (b - a) \<le> 2 ^ 64 - 8"
      using assms by (simp_all add: word_le_nat_alt unat_sub_if_size word_size split: if_splits) (unat_arith)?
    have e: "b + of_nat i - a = (b - a) + of_nat i" by simp
    have "unat ((b - a) + of_nat i) = unat (b - a) + i"
      using d i by (simp add: unat_word_ariths unat_of_nat)
    then show ?thesis unfolding e word_less_nat_alt using d(1) by simp
  qed
  then have "map (\<lambda>i. write64 m a v (b + of_nat i)) [0..<8] = map (\<lambda>i. m (b + of_nat i)) [0..<8]"
    by (intro map_cong) (simp_all add: write64_def)
  then show ?thesis unfolding read64_def by (simp only:)
qed

section \<open>Creating and destroying an address space\<close>

definition PRESENT :: u64 where "PRESENT = 1"
definition WRITABLE :: u64 where "WRITABLE = 2"
definition ADDR_MASK :: u64 where "ADDR_MASK = 0x000ffffffffff000"

text \<open>Entry \<open>i\<close> of the page table at physical address \<open>t\<close>.\<close>

definition entry_addr :: "u64 \<Rightarrow> nat \<Rightarrow> u64" where
  "entry_addr t i = t + 8 * of_nat i"

definition table_entry :: "mem \<Rightarrow> u64 \<Rightarrow> nat \<Rightarrow> u64" where
  "table_entry m t i = read64 m (entry_addr t i)"

definition is_present :: "u64 \<Rightarrow> bool" where
  "is_present e \<longleftrightarrow> e AND PRESENT \<noteq> 0"

definition copy_entry :: "u64 \<Rightarrow> u64 \<Rightarrow> mem \<Rightarrow> nat \<Rightarrow> mem" where
  "copy_entry new kernel_l4 m i = write64 m (entry_addr new i) (table_entry m kernel_l4 i)"

definition create_address_space :: "u64 \<Rightarrow> mem \<Rightarrow> frame_alloc \<Rightarrow> string + (u64 \<times> mem \<times> frame_alloc)" where
  "create_address_space kernel_l4 m fa =
     (case alloc fa of
        Inl _ \<Rightarrow> Inl ''out of frames for address space''
      | Inr (l4, fa') \<Rightarrow>
          let m1 = write64 m (entry_addr l4 0) 0 in
          Inr (l4, foldl (copy_entry l4 kernel_l4) m1 [1..<512], fa'))"

text \<open>\<open>let _ = fa.dealloc(addr)\<close>.\<close>

definition drop_frame :: "frame_alloc \<Rightarrow> u64 \<Rightarrow> frame_alloc" where
  "drop_frame fa a = (case dealloc fa a of Inl _ \<Rightarrow> fa | Inr fa' \<Rightarrow> fa')"

text \<open>The walk of an L2 table frees the L1 tables it points at, the walk of the L3 the L2 tables.\<close>

definition free_l2 :: "mem \<Rightarrow> frame_alloc \<Rightarrow> u64 \<Rightarrow> frame_alloc" where
  "free_l2 m fa e3 =
     (if \<not> is_present e3 then fa
      else let l2 = e3 AND ADDR_MASK in
        drop_frame
          (foldl (\<lambda>fa e2. if is_present e2 then drop_frame fa (e2 AND ADDR_MASK) else fa) fa
             (map (table_entry m l2) [0..<512])) l2)"

definition destroy_address_space :: "mem \<Rightarrow> frame_alloc \<Rightarrow> u64 \<Rightarrow> frame_alloc" where
  "destroy_address_space m fa l4 =
     (let e0 = table_entry m l4 0;
          fa1 = (if is_present e0
                 then let l3 = e0 AND ADDR_MASK in
                      drop_frame (foldl (free_l2 m) fa (map (table_entry m l3) [0..<512])) l3
                 else fa)
      in drop_frame fa1 l4)"

section \<open>The device-MMIO window\<close>

definition PML4_SLOT_SPAN :: u64 where "PML4_SLOT_SPAN = 2 ^ 39"

definition reserve_mmio_window :: "mem \<Rightarrow> frame_alloc \<Rightarrow> u64 \<Rightarrow> u64 \<times> mem \<times> frame_alloc" where
  "reserve_mmio_window m fa l4 =
     (case find (\<lambda>i. \<not> is_present (table_entry m l4 i)) [1..<512] of
        None \<Rightarrow> (0, m, fa)
      | Some idx \<Rightarrow>
          (case alloc fa of
             Inl _ \<Rightarrow> (0, m, fa)
           | Inr (l3, fa') \<Rightarrow>
               let m1 = foldl (\<lambda>m i. write64 m (entry_addr l3 i) 0) m [0..<512];
                   m2 = write64 m1 (entry_addr l4 idx) (l3 OR PRESENT OR WRITABLE);
                   i = of_nat idx :: u64
               in (if i < 256 then push_bit 39 i else 0xFFFF000000000000 OR push_bit 39 i, m2, fa')))"

text \<open>
  The window: its base, the bump pointer and the count of mapped pages.  \<open>mapper va phys s\<close> is the
  crate's \<open>map_to_with_table_flags\<close> on the kernel tables, uncached and kernel-only, over a state
  \<open>s\<close> of page tables and frame allocator; it may fail.
\<close>

record mmio =
  mm_base :: u64
  mm_next :: u64
  mm_pages :: u64

fun map_mmio_pages ::
    "(u64 \<Rightarrow> u64 \<Rightarrow> 's \<Rightarrow> string + 's) \<Rightarrow> u64 \<Rightarrow> u64 \<Rightarrow> nat \<Rightarrow> mmio \<Rightarrow> 's \<Rightarrow> (string option) \<times> mmio \<times> 's" where
  "map_mmio_pages mapper va first 0 w s = (None, w, s)"
| "map_mmio_pages mapper va first (Suc n) w s =
     (case mapper va first s of
        Inl e \<Rightarrow> (Some e, w, s)
      | Inr s' \<Rightarrow>
          map_mmio_pages mapper (va + of_nat FRAME_SIZE) (first + of_nat FRAME_SIZE) n
            (w\<lparr>mm_pages := mm_pages w + 1\<rparr>) s')"

definition page_floor :: "u64 \<Rightarrow> u64" where
  "page_floor a = a AND NOT (of_nat FRAME_SIZE - 1)"

definition map_kernel_mmio ::
    "(u64 \<Rightarrow> u64 \<Rightarrow> 's \<Rightarrow> string + 's) \<Rightarrow> mmio \<Rightarrow> u64 \<Rightarrow> u64 \<Rightarrow> 's \<Rightarrow> (string + u64) \<times> mmio \<times> 's" where
  "map_kernel_mmio mapper w phys sz s =
     (if mm_base w = 0 then (Inl ''mmio map: no window reserved'', w, s)
      else
        let first = page_floor phys;
            last = page_floor (phys + sz + of_nat FRAME_SIZE - 1);
            span = last - first;
            va_base = mm_next w
        in if mm_base w + PML4_SLOT_SPAN < va_base + span then (Inl ''mmio map: window exhausted'', w, s)
           else (case map_mmio_pages mapper va_base first (unat span div FRAME_SIZE) w s of
                   (Some e, w', s') \<Rightarrow> (Inl e, w', s')
                 | (None, w', s') \<Rightarrow> (Inr (va_base + (phys - first)), w'\<lparr>mm_next := va_base + span\<rparr>, s')))"

section \<open>The frames of an address space\<close>

text \<open>The frames \<open>destroy_address_space\<close> releases, in its order: L1 tables, their L2, the L3, the L4.\<close>

definition l1_frames :: "mem \<Rightarrow> u64 \<Rightarrow> u64 list" where
  "l1_frames m l2 = map (\<lambda>e. e AND ADDR_MASK) (filter is_present (map (table_entry m l2) [0..<512]))"

definition l2_frames :: "mem \<Rightarrow> u64 \<Rightarrow> u64 list" where
  "l2_frames m e3 = (if is_present e3 then l1_frames m (e3 AND ADDR_MASK) @ [e3 AND ADDR_MASK] else [])"

definition table_frames :: "mem \<Rightarrow> u64 \<Rightarrow> u64 list" where
  "table_frames m l4 =
     (let e0 = table_entry m l4 0; l3 = e0 AND ADDR_MASK in
      (if is_present e0 then concat (map (l2_frames m) (map (table_entry m l3) [0..<512])) @ [l3] else []) @ [l4])"

lemma foldl_filter: "foldl (\<lambda>s x. if P x then f s (g x) else s) s xs = foldl f s (map g (filter P xs))"
  by (induction xs arbitrary: s) simp_all

lemma free_l2_frames: "free_l2 m fa e3 = foldl drop_frame fa (l2_frames m e3)"
  unfolding free_l2_def l2_frames_def l1_frames_def foldl_filter[of is_present drop_frame "\<lambda>e. e AND ADDR_MASK"]
  by (simp add: Let_def del: map_map)

lemma foldl_concat: "foldl f s (concat xss) = foldl (foldl f) s xss"
  by (induction xss arbitrary: s) simp_all

lemma destroy_frames: "destroy_address_space m fa l4 = foldl drop_frame fa (table_frames m l4)"
proof -
  have "foldl (free_l2 m) fa es = foldl drop_frame fa (concat (map (l2_frames m) es))" for es
    by (induction es arbitrary: fa) (simp_all add: free_l2_frames)
  then show ?thesis by (simp add: destroy_address_space_def table_frames_def Let_def)
qed

text \<open>Releasing a list of distinct frames in use makes exactly those available.\<close>

lemma drop_frames:
  assumes "fa_wf fa" and "map unat as = map (\<lambda>i. i * FRAME_SIZE) is" and "distinct is"
    and "\<forall>i \<in> set is. i < fa_frames fa \<and> i \<notin> avail fa"
  shows "fa_wf (foldl drop_frame fa as)" and "avail (foldl drop_frame fa as) = avail fa \<union> set is"
    and "free_frames (foldl drop_frame fa as) = free_frames fa + length is"
    and "fa_frames (foldl drop_frame fa as) = fa_frames fa"
proof -
  have "fa_wf (foldl drop_frame fa as) \<and> avail (foldl drop_frame fa as) = avail fa \<union> set is \<and>
      free_frames (foldl drop_frame fa as) = free_frames fa + length is \<and>
      fa_frames (foldl drop_frame fa as) = fa_frames fa"
    using assms
  proof (induction "is" arbitrary: as fa)
    case Nil
    then show ?case by simp
  next
    case (Cons i "is")
    obtain a as' where as: "as = a # as'" "unat a = i * FRAME_SIZE" "map unat as' = map (\<lambda>i. i * FRAME_SIZE) is"
      using Cons.prems(2) by (cases as) auto
    obtain fa1 where fa1: "dealloc fa a = Inr fa1"
      using dealloc_of_used[OF Cons.prems(1) as(2)] Cons.prems(4) by auto
    obtain j where j: "unat a = j * FRAME_SIZE" "avail fa1 = insert j (avail fa)" "fa_wf fa1"
      "fa_frames fa1 = fa_frames fa" "fa_free fa1 = fa_free fa + 1"
      using dealloc_Inr[OF Cons.prems(1) fa1] by metis
    have "j = i" using j(1) as(2) by (simp add: FRAME_SIZE_def)
    moreover have "\<forall>k \<in> set is. k < fa_frames fa1 \<and> k \<notin> avail fa1"
      using Cons.prems(3,4) j(2,4) \<open>j = i\<close> by auto
    ultimately show ?case
      using Cons.IH[OF j(3) as(3)] Cons.prems(3) j as(1) fa1 by (simp add: drop_frame_def free_frames_def)
  qed
  then show "fa_wf (foldl drop_frame fa as)" "avail (foldl drop_frame fa as) = avail fa \<union> set is"
    "free_frames (foldl drop_frame fa as) = free_frames fa + length is"
    "fa_frames (foldl drop_frame fa as) = fa_frames fa" by simp_all
qed

text \<open>Different entries of one table, and entries of different frames, do not overlap.\<close>

lemma entries_apart:
  assumes "unat t = i * FRAME_SIZE" "unat u = j * FRAME_SIZE" "a < 512" "b < 512" "(i, a) \<noteq> (j, b)"
  shows "8 \<le> entry_addr t a - entry_addr u b"
proof -
  have lt: "unat t + 4096 \<le> 2 ^ 64" "unat u + 4096 \<le> 2 ^ 64"
    using unat_u64_less[of t] unat_u64_less[of u] assms(1,2) by (simp_all add: FRAME_SIZE_def)
  define x y where "x = i * 512 + a" and "y = j * 512 + b"
  have u: "unat (entry_addr t a) = 8 * x" "unat (entry_addr u b) = 8 * y"
    using lt assms(1-4) by (simp_all add: entry_addr_def unat_word_ariths unat_of_nat FRAME_SIZE_def x_def y_def)
  have "x div 512 = i" "x mod 512 = a" "y div 512 = j" "y mod 512 = b"
    using assms(3,4) by (simp_all add: x_def y_def)
  then have "x \<noteq> y" using assms(5) by auto
  then have "8 \<le> unat (entry_addr t a) - unat (entry_addr u b) \<or>
      unat (entry_addr t a) + 8 \<le> unat (entry_addr u b)" unfolding u by arith
  moreover have "unat (entry_addr u b) + 8 \<le> 2 ^ 64" using u(2) lt(2) assms(2,4) by (simp add: FRAME_SIZE_def y_def)
  ultimately show ?thesis
    by (auto simp: word_le_nat_alt unat_sub_if_size word_size)
qed

lemma write_entry:
  assumes "unat t = i * FRAME_SIZE" "unat u = j * FRAME_SIZE" "a < 512" "b < 512"
  shows "table_entry (write64 m (entry_addr t a) v) u b = (if (i, a) = (j, b) then v else table_entry m u b)"
proof (cases "(i, a) = (j, b)")
  case True
  then have "t = u" using assms(1,2) by (simp add: word_unat_eq_iff)
  then show ?thesis using True by (simp add: table_entry_def read_write_same)
next
  case False
  then have "(j, b) \<noteq> (i, a)" by auto
  then have "read64 (write64 m (entry_addr t a) v) (entry_addr u b) = read64 m (entry_addr u b)"
    by (intro read_write_other entries_apart[OF assms False] entries_apart[OF assms(2,1,4,3)])
  then show ?thesis unfolding table_entry_def if_not_P[OF False] .
qed

lemma write_entry_outside:
  assumes "unat t = i * FRAME_SIZE" "a < 512" "4096 \<le> x - t"
  shows "write64 m (entry_addr t a) v x = m x"
proof -
  have "\<not> x - entry_addr t a < 8"
  proof
    assume lt: "x - entry_addr t a < 8"
    have e: "x - t = (x - entry_addr t a) + 8 * of_nat a" by (simp add: entry_addr_def)
    have "unat (x - t) = unat (x - entry_addr t a) + 8 * a"
      unfolding e using lt assms(2) by (simp add: unat_word_ariths unat_of_nat word_less_nat_alt)
    then show False using lt assms(2,3) by (simp add: word_less_nat_alt word_le_nat_alt)
  qed
  then show ?thesis by (simp add: write64_def)
qed

lemma copy_entries:
  assumes "unat new = i * FRAME_SIZE" "unat kl4 = j * FRAME_SIZE" "i \<noteq> j" "\<forall>n \<in> set ns. n < 512"
  shows "(\<forall>n < 512. table_entry (foldl (copy_entry new kl4) m ns) kl4 n = table_entry m kl4 n) \<and>
    (\<forall>n < 512. table_entry (foldl (copy_entry new kl4) m ns) new n =
       (if n \<in> set ns then table_entry m kl4 n else table_entry m new n)) \<and>
    (\<forall>x. 4096 \<le> x - new \<longrightarrow> foldl (copy_entry new kl4) m ns x = m x)"
  using assms(4)
proof (induction ns arbitrary: m)
  case Nil
  then show ?case by simp
next
  case (Cons k ns)
  define m1 where "m1 = copy_entry new kl4 m k"
  have k: "k < 512" using Cons.prems by simp
  have "table_entry m1 kl4 n = table_entry m kl4 n" if "n < 512" for n
    using write_entry[OF assms(1,2) k that] assms(3) by (simp add: m1_def copy_entry_def)
  moreover have "table_entry m1 new n = (if n = k then table_entry m kl4 k else table_entry m new n)" if "n < 512" for n
    using write_entry[OF assms(1,1) k that] by (auto simp: m1_def copy_entry_def)
  moreover have "m1 x = m x" if "4096 \<le> x - new" for x
    using write_entry_outside[OF assms(1) k that] by (simp add: m1_def copy_entry_def)
  ultimately show ?case using Cons.IH[of m1] Cons.prems by (simp add: m1_def[symmetric])
qed

text \<open>
  C15. An address space leaks nothing and shares only the kernel half.  A created L4 has an empty
  user entry and a copy of every kernel entry, and no byte outside its own frame has changed;
  destroying it right away restores the allocator's set of available frames and its count.  In
  general, destroying an address space whose tables are distinct frames in use makes available
  exactly the frames of those tables, the L4 included, and no data frame.
\<close>
theorem address_space_lifecycle:
  assumes "fa_wf fa" "unat kl4 = j * FRAME_SIZE" "j \<notin> avail fa"
  shows "(\<forall>l4 m' fa'. create_address_space kl4 m fa = Inr (l4, m', fa') \<longrightarrow>
      table_entry m' l4 0 = 0 \<and> (\<forall>n \<in> {1..511}. table_entry m' l4 n = table_entry m kl4 n) \<and>
      (\<forall>x. 4096 \<le> x - l4 \<longrightarrow> m' x = m x) \<and>
      avail (destroy_address_space m' fa' l4) = avail fa \<and>
      free_frames (destroy_address_space m' fa' l4) = free_frames fa) \<and>
    (\<forall>m l4 fs. map unat (table_frames m l4) = map (\<lambda>i. i * FRAME_SIZE) fs \<and> distinct fs \<and>
      (\<forall>i \<in> set fs. i < fa_frames fa \<and> i \<notin> avail fa) \<longrightarrow>
      avail (destroy_address_space m fa l4) = avail fa \<union> set fs \<and>
      free_frames (destroy_address_space m fa l4) = free_frames fa + length fs)"
proof (intro conjI allI impI)
  fix l4 m' fa'
  assume c: "create_address_space kl4 m fa = Inr (l4, m', fa')"
  then have al: "alloc fa = Inr (l4, fa')"
    and m': "m' = foldl (copy_entry l4 kl4) (write64 m (entry_addr l4 0) 0) [1..<512]"
    by (auto simp: create_address_space_def Let_def split: sum.splits)
  obtain i where i: "i \<in> avail fa" "i < fa_frames fa" "unat l4 = i * FRAME_SIZE" "avail fa' = avail fa - {i}"
    "fa_wf fa'" "fa_frames fa' = fa_frames fa" "fa_free fa' + 1 = fa_free fa"
    using alloc_Inr[OF assms(1) al] by metis
  have ij: "i \<noteq> j" using i(1) assms(3) by auto
  define m1 where "m1 = write64 m (entry_addr l4 0) 0"
  have z: "table_entry m1 l4 0 = 0" "\<And>n. n < 512 \<Longrightarrow> table_entry m1 kl4 n = table_entry m kl4 n"
    using write_entry[OF i(3,3), of 0 0] write_entry[OF i(3) assms(2), of 0] ij by (simp_all add: m1_def)
  have o: "m1 x = m x" if "4096 \<le> x - l4" for x
    using write_entry_outside[OF i(3) _ that, of 0] by (simp add: m1_def)
  note C = copy_entries[OF i(3) assms(2) ij, of "[1..<512]" m1, folded m'[folded m1_def]]
  show e0: "table_entry m' l4 0 = 0" using C z(1) by simp
  show "\<forall>n \<in> {1..511}. table_entry m' l4 n = table_entry m kl4 n" using C z(2) by simp
  show "m' x = m x" if "4096 \<le> x - l4" for x using C o[OF that] that by simp
  have t: "table_frames m' l4 = [l4]" using e0 by (simp add: table_frames_def is_present_def)
  have "avail (foldl drop_frame fa' [l4]) = avail fa' \<union> set [i]"
    "free_frames (foldl drop_frame fa' [l4]) = free_frames fa' + length [i]"
    using drop_frames[OF i(5), of "[l4]" "[i]"] i by simp_all
  then show "avail (destroy_address_space m' fa' l4) = avail fa"
    "free_frames (destroy_address_space m' fa' l4) = free_frames fa"
    using i(1,4,7) by (auto simp: destroy_frames t free_frames_def)
next
  fix m l4 fs
  assume A: "map unat (table_frames m l4) = map (\<lambda>i. i * FRAME_SIZE) fs \<and> distinct fs \<and>
      (\<forall>i \<in> set fs. i < fa_frames fa \<and> i \<notin> avail fa)"
  then show "avail (destroy_address_space m fa l4) = avail fa \<union> set fs"
    "free_frames (destroy_address_space m fa l4) = free_frames fa + length fs"
    using drop_frames(2,3)[OF assms(1), of "table_frames m l4" fs] by (simp_all add: destroy_frames)
qed

lemma address_space_lifecycle_witness:
  "\<exists>l4 m' fa'. create_address_space 0x9000 (\<lambda>_. 1) \<lparr>fa_bitmap = [0xFFFFFFFFFFFFFBFF], fa_frames = 12, fa_free = 1\<rparr> = Inr (l4, m', fa') \<and>
     table_entry m' l4 511 = table_entry (\<lambda>_. 1) 0x9000 511 \<and> free_frames (destroy_address_space m' fa' l4) = 1"
proof -
  let ?fa = "\<lparr>fa_bitmap = [0xFFFFFFFFFFFFFBFF], fa_frames = 12, fa_free = 1\<rparr> :: frame_alloc"
  note av = one_available
  then have wf: "fa_wf ?fa" by (simp add: fa_wf_def FRAME_SIZE_def)
  have k: "unat (0x9000 :: u64) = 9 * FRAME_SIZE" "9 \<notin> avail ?fa" unfolding av by (simp_all add: FRAME_SIZE_def)
  have "\<exists>a fa'. alloc ?fa = Inr (a, fa')"
    using alloc_Inl_iff[OF wf] av by (cases "alloc ?fa") auto
  then obtain l4 m' fa' where c: "create_address_space 0x9000 (\<lambda>_. 1) ?fa = Inr (l4, m', fa')"
    by (auto simp: create_address_space_def Let_def)
  then show ?thesis
    using conjunct1[OF address_space_lifecycle[OF wf k, of "\<lambda>_. 1"], rule_format, OF c] by (auto simp: free_frames_def)
qed

end
