(* ===== verification/Exit.thy ===== *)
theory Exit
  imports Rendezvous Address_Space
begin

text \<open>
  The death of a process, \<open>on_exit\<close> of \<open>kernel/src/scheduler.rs\<close>: what it borrowed goes home, the
  peers it would strand are woken, no capability keeps naming its slot as a lender, its
  resources are released and its slot becomes free.  The theorems state that the IPC invariant
  survives, who is woken and who is left alone, and that a borrowed capability lands in the slot
  it left from.
\<close>

section \<open>The operation\<close>

text \<open>The result is the queue position to switch from; \<open>None\<close> is a panic.\<close>

definition on_exit :: "kernel \<Rightarrow> nat \<Rightarrow> (nat \<times> kernel) option" where
  "on_exit k me =
     (let cur = k_current_slot k ! me in
      Option.bind (core_position k me cur) (\<lambda>cur_pos.
      case k_current k ! me of
        None \<Rightarrow> None
      | Some p \<Rightarrow>
          let k1 = set_current k me None;
              k2 = reclaim_lent_caps k1 (p_caps p) cur;
              k3 = reap_dying k2 (p_caps p);
              k4 = snd (clear_origins_naming k3 cur);
              k5 = teardown k4 p (sl_boot_frames (slot_of k4 cur));
              k6 = k5\<lparr>k_alloc := destroy_address_space (k_mem k5) (k_alloc k5) (p_l4 p)\<rparr>;
              k7 = (set_slot k6 cur slot_empty)\<lparr>k_links := (k_links k6)[cur := None]\<rparr>
          in Option.bind (remove_from_core_queue k7 me cur) (\<lambda>k8. Some (cur_pos, k8))))"

section \<open>What the steps leave alone\<close>

text \<open>
  \<open>settles k W k'\<close>: on the way from \<open>k\<close> to \<open>k'\<close> the processes of \<open>W\<close> became Ready with a dead-peer
  status, every other process kept its state, and no process moved between cores and queues.
\<close>

abbreviation status_at :: "kernel \<Rightarrow> u64 \<Rightarrow> u64" where
  "status_at k a \<equiv> tf_gp (k_frames k a) ! GP_RAX"

definition settles :: "kernel \<Rightarrow> nat set \<Rightarrow> kernel \<Rightarrow> bool" where
  "settles k W k' \<longleftrightarrow>
     length (k_table k') = length (k_table k) \<and> length (k_current k') = length (k_current k) \<and>
     (\<forall>c. k_current k' ! c = None \<longleftrightarrow> k_current k ! c = None) \<and>
     k_current_slot k' = k_current_slot k \<and> k_queues k' = k_queues k \<and>
     (\<forall>t. state_of k' t = (if t \<in> W then Ready else state_of k t)) \<and>
     (\<forall>t. sl_rsp (slot_of k' t) = sl_rsp (slot_of k t)) \<and>
     (\<forall>r i. refs r i (all_caps k') = refs r i (all_caps k)) \<and>
     (frames_ok k \<longrightarrow> frames_ok k' \<and>
        (\<forall>a. status_at k a = IPC_PEER_DIED \<longrightarrow> status_at k' a = IPC_PEER_DIED) \<and>
        (\<forall>t \<in> W. status_at k' (sl_rsp (slot_of k t)) = IPC_PEER_DIED))"

lemma settlesD:
  assumes "settles k W k'"
  shows "length (k_table k') = length (k_table k)" "length (k_current k') = length (k_current k)"
    "k_current k' ! c = None \<longleftrightarrow> k_current k ! c = None" "k_current_slot k' = k_current_slot k"
    "k_queues k' = k_queues k" "state_of k' t = (if t \<in> W then Ready else state_of k t)"
    "sl_rsp (slot_of k' t) = sl_rsp (slot_of k t)" "refs r i (all_caps k') = refs r i (all_caps k)"
    "frames_ok k \<Longrightarrow> frames_ok k'"
    "frames_ok k \<Longrightarrow> status_at k a = IPC_PEER_DIED \<Longrightarrow> status_at k' a = IPC_PEER_DIED"
    "frames_ok k \<Longrightarrow> t \<in> W \<Longrightarrow> status_at k' (sl_rsp (slot_of k t)) = IPC_PEER_DIED"
  using assms by (simp_all only: settles_def)

lemma settles_refl: "settles k {} k"
  by (simp add: settles_def)

lemma settles_trans:
  assumes "settles k W k1" "settles k1 V k2"
  shows "settles k (W \<union> V) k2"
proof -
  note A = settlesD[OF assms(1)] and B = settlesD[OF assms(2)]
  have "status_at k2 (sl_rsp (slot_of k t)) = IPC_PEER_DIED" if "frames_ok k" "t \<in> W \<union> V" for t
  proof (cases "t \<in> W")
    case True
    then show ?thesis using A(11)[OF that(1)] B(10)[OF A(9)[OF that(1)]] by blast
  next
    case False
    then show ?thesis using B(11)[OF A(9)[OF that(1)], of t] A(7) that(2) by simp
  qed
  then show ?thesis unfolding settles_def
    by (intro conjI allI impI ballI) (simp_all add: A B)
qed

lemma settles_caps_only:
  assumes "caps_only k k'" "\<And>r i. refs r i (all_caps k') = refs r i (all_caps k)"
  shows "settles k {} k'"
  using caps_onlyD[OF assms(1)] assms(2) by (simp add: settles_def frames_ok_def)

section \<open>The state while a process dies\<close>

text \<open>
  Core \<open>me\<close> has given up its process, whose capabilities not yet disposed of are \<open>D\<close>: the
  invariant holds of the state in which a process with just those still runs there.
\<close>

definition dying :: "nat \<Rightarrow> kernel \<Rightarrow> (nat \<Rightarrow> nat list) \<Rightarrow> capability multiset \<Rightarrow> bool" where
  "dying me k Q D \<longleftrightarrow> me < MAX_CORES \<and> k_current k ! me = None \<and>
     (\<exists>p. mset (ct_iter (p_caps p)) = D \<and> ipc_inv (set_current k me (Some p)) Q)"

lemma set_current_views [simp]:
  "k_table (set_current k me x) = k_table k" "k_links (set_current k me x) = k_links k"
  "k_endpoints (set_current k me x) = k_endpoints k" "k_queues (set_current k me x) = k_queues k"
  "k_current_slot (set_current k me x) = k_current_slot k" "k_frames (set_current k me x) = k_frames k"
  "k_current (set_current k me x) = (k_current k)[me := x]" "is_blocked (set_current k me x) t = is_blocked k t"
  by (simp_all add: set_current_def is_blocked_def)

lemma shadow_caps:
  assumes "me < length (k_current k)" "k_current k ! me = None"
  shows "all_caps (set_current k me (Some p)) = all_caps k + mset (ct_iter (p_caps p))"
  using all_caps_current[OF assms(1), of "Some p"] assms(2) by (simp add: set_current_def)

lemma dyingE:
  assumes "dying me k Q D"
  obtains p where "ipc_inv_at {} (set_current k me (Some p)) Q" "mset (ct_iter (p_caps p)) = D"
    "all_caps (set_current k me (Some p)) = all_caps k + D" "me < MAX_CORES" "k_current k ! me = None"
    "length (k_current k) = MAX_CORES" "length (k_table k) = MAX_PROCESSES" "tables_ok k" "ct_wf (p_caps p)"
proof -
  obtain p where p: "me < MAX_CORES" "k_current k ! me = None" "mset (ct_iter (p_caps p)) = D"
    and I: "ipc_inv_at {} (set_current k me (Some p)) Q"
    using assms by (auto simp: dying_def ipc_inv_def)
  note V = ipc_inv_atD[OF I]
  have len: "length (k_current k) = MAX_CORES" "length (k_table k) = MAX_PROCESSES" using V(7,8) by simp_all
  have wf: "ct_wf (p_caps p)" using tables_okD(2)[OF V(2), of me p] len p(1) by simp
  have "(set_current k me (Some p))\<lparr>k_current := (k_current (set_current k me (Some p)))[me := None]\<rparr> = k"
    using p(2) len(1) by (simp add: set_current_def) (metis kernel.surjective kernel.update_convs(10) list_update_id)
  then have "tables_ok k" using tables_ok_current[OF V(2), of None me] by simp
  then show ?thesis using that[of p] I p len wf shadow_caps[of me k p] by simp
qed

lemma dyingI:
  assumes "ipc_inv_at {} (set_current k me (Some p)) Q" "mset (ct_iter (p_caps p)) = D" "me < MAX_CORES"
    "k_current k ! me = None"
  shows "dying me k Q D"
  using assms by (auto simp: dying_def ipc_inv_def)

lemma dying_start:
  assumes "ipc_inv k Q" "me < MAX_CORES" "k_current k ! me = Some p"
  shows "dying me (set_current k me None) Q (mset (ct_iter (p_caps p)))"
proof -
  have len: "length (k_current k) = MAX_CORES" using ipc_inv_atD(8)[OF assms(1)[unfolded ipc_inv_def]] .
  have "set_current (set_current k me None) me (Some p) = k"
    using assms(3) by (simp add: set_current_def) (metis kernel.surjective kernel.update_convs(10) list_update_id)
  then show ?thesis using assms len unfolding ipc_inv_def by (intro dyingI[where p = p]) simp_all
qed

text \<open>The counters, in terms of the survivors and the dying.\<close>

lemma dying_counts:
  assumes "dying me k Q D" "i < MAX_ENDPOINTS"
  shows "ep_senders (k_endpoints k ! i) = refs RIGHT_SEND i (all_caps k) + refs RIGHT_SEND i D"
    and "ep_receivers (k_endpoints k ! i) = refs RIGHT_RECV i (all_caps k) + refs RIGHT_RECV i D"
proof -
  obtain p where "ipc_inv_at {} (set_current k me (Some p)) Q" "all_caps (set_current k me (Some p)) = all_caps k + D"
    using dyingE[OF assms(1)] .
  then show "ep_senders (k_endpoints k ! i) = refs RIGHT_SEND i (all_caps k) + refs RIGHT_SEND i D"
    "ep_receivers (k_endpoints k ! i) = refs RIGHT_RECV i (all_caps k) + refs RIGHT_RECV i D"
    using ipc_inv_atD(3) assms(2) by (fastforce simp: counts_ok_def)+
qed

text \<open>A change of capability tables that the invariant does not see.\<close>

definition unseen :: "capability multiset \<Rightarrow> bool" where
  "unseen C \<longleftrightarrow> (\<forall>c \<in># C. is_reclaimable_kind (cap_obj c))"

lemma unseen_neutral: "unseen C \<Longrightarrow> neutral P \<Longrightarrow> filter_mset P C = {#}"
proof -
  assume U: "unseen C" and N: "neutral P"
  have "\<not> P c" if "c \<in># C" for c
  proof -
    have "lend_reserves_home (c\<lparr>cap_origin := None\<rparr>)" using U that by (simp add: lend_reserves_home_def unseen_def)
    then show ?thesis using N unfolding neutral_def by blast
  qed
  then show "filter_mset P C = {#}" by simp
qed

lemma caps_only_shadow:
  assumes "caps_only k k'" "k_current k ! me = None"
  shows "caps_only (set_current k me (Some p)) (set_current k' me (Some p))"
proof -
  note C = caps_onlyD[OF assms(1)]
  obtain tb cu us es where "k' = k\<lparr>k_table := tb, k_current := cu, k_unmaps := us, k_endpoints := es\<rparr>"
    using assms(1) by (auto simp: caps_only_def)
  then have E: "\<exists>tb cu us es. set_current k' me (Some p) =
      (set_current k me (Some p))\<lparr>k_table := tb, k_current := cu, k_unmaps := us, k_endpoints := es\<rparr>"
    by (intro exI[of _ tb] exI[of _ "cu[me := Some p]"] exI[of _ us] exI[of _ es]) (simp add: set_current_def)
  moreover have "(k_current k')[me := Some p] ! c = None \<longleftrightarrow> (k_current k)[me := Some p] ! c = None" for c
    using C(2,10) by (auto simp: nth_list_update_cases)
  moreover have "(slot_of k' t)\<lparr>sl_process := None\<rparr> = (slot_of k t)\<lparr>sl_process := None\<rparr>" for t
    using assms(1) by (simp add: caps_only_def)
  ultimately show ?thesis unfolding caps_only_def
    by (intro conjI allI E) (simp_all add: C(1,2,9))
qed

lemma dying_neutral:
  assumes "dying me k Q D" "caps_only k k'" "tables_ok k'" "k_endpoints k' = k_endpoints k"
    and "\<And>P. neutral P \<Longrightarrow> tally P k' = tally P k"
  shows "dying me k' Q D" and "settles k {} k'"
proof -
  obtain p where p: "ipc_inv_at {} (set_current k me (Some p)) Q" "mset (ct_iter (p_caps p)) = D"
    "all_caps (set_current k me (Some p)) = all_caps k + D" "me < MAX_CORES" "k_current k ! me = None"
    "length (k_current k) = MAX_CORES" "ct_wf (p_caps p)" using dyingE[OF assms(1)] .
  have n: "k_current k' ! me = None" "length (k_current k') = MAX_CORES"
    using caps_onlyD[OF assms(2)] p by simp_all
  have a: "all_caps (set_current k' me (Some p)) = all_caps k' + D" using shadow_caps[of me k' p] n p(2,4) by simp
  have "tables_ok (set_current k' me (Some p))"
    using tables_ok_current[OF assms(3), of "Some p" me] p(7) by (simp add: set_current_def)
  then have "ipc_inv_at {} (set_current k' me (Some p)) Q"
    using inv_neutral[OF p(1) caps_only_shadow[OF assms(2) p(5)]] assms(4,5) by (simp add: a p(3))
  then show "dying me k' Q D" using p n by (intro dyingI[where p = p]) simp_all
  show "settles k {} k'"
    using settles_caps_only[OF assms(2)] assms(5)[OF neutral_reaches] by (simp add: refs_def)
qed

lemma dying_exchange:
  assumes "dying me k Q D" "exchanges k {#} C k'" "unseen C" "k_endpoints k' = k_endpoints k"
  shows "dying me k' Q D" and "settles k {} k'"
proof -
  have "tally P k' = tally P k" if "neutral P" for P
    using exchanges_tally[OF assms(2), of P] unseen_neutral[OF assms(3) that] by simp
  note N = dying_neutral[OF assms(1) exchangesD(1,2)[OF assms(2)] assms(4) this]
  show "dying me k' Q D" "settles k {} k'" using N by blast+
qed

text \<open>The dying process gives up a reply capability.\<close>

lemma dying_drop_reply:
  assumes "dying me k Q (add_mset c D)" "cap_obj c = Reply t"
  shows "dying me k Q D" "t < MAX_PROCESSES" "is_blocked k t" "waits_nowhere Q t"
    "size (filter_mset (reply_to t) (all_caps k + D)) = 0"
proof -
  obtain p where p: "ipc_inv_at {} (set_current k me (Some p)) Q" "mset (ct_iter (p_caps p)) = add_mset c D"
    "all_caps (set_current k me (Some p)) = all_caps k + add_mset c D" "me < MAX_CORES" "k_current k ! me = None"
    "length (k_current k) = MAX_CORES" "ct_wf (p_caps p)" "tables_ok k" using dyingE[OF assms(1)] .
  note V = ipc_inv_atD[OF p(1)]
  have r: "reply_to t c" using assms(2) by (simp add: reply_to_def)
  have "tally (reply_to t) (set_current k me (Some p)) \<le> 1" using V(6) by (simp add: replies_ok_def)
  then have z: "size (filter_mset (reply_to t) (all_caps k + D)) = 0" using r by (simp add: p(3))
  then have "tally (reply_to t) (set_current k me (Some p)) = 1" using r by (simp add: p(3))
  then show "t < MAX_PROCESSES" "is_blocked k t" "waits_nowhere Q t"
    using V(6) by (simp_all add: replies_ok_def)
  show "size (filter_mset (reply_to t) (all_caps k + D)) = 0" by (rule z)
  obtain i where "peek (p_caps p) i = Some c"
  proof -
    have "c \<in> set (ct_iter (p_caps p))" using p(2) by (metis set_mset_mset union_single_eq_member)
    then obtain j where "j < length (ct_slots (p_caps p))" "ct_slots (p_caps p) ! j = Some c"
      by (auto simp: ct_iter_def map_filter_id_set in_set_conv_nth)
    then show ?thesis using that[of j] by (simp add: peek_def get_def)
  qed
  then obtain t' where t': "revoke (p_caps p) i = Inr (c, t')" using revoke_Some[OF p(7)] by blast
  let ?p = "p\<lparr>p_caps := t'\<rparr>"
  let ?s = "set_current k me (Some p)" and ?s' = "set_current k me (Some ?p)"
  have m: "mset (ct_iter t') = D" using revoke_mset[OF p(7) t'] p(2) by simp
  have wf: "ct_wf t'" using revoke_Inr(4)[OF p(7) t'] .
  have a: "all_caps ?s' = all_caps k + D" using shadow_caps[of me k ?p] p m by simp
  have f: "(k_current k)[me := Some ?p] ! d = None \<longleftrightarrow> (k_current k)[me := Some p] ! d = None" for d
    using p(4,6) by (simp add: nth_list_update_cases)
  have "sched_wf ?s'" using V(1) sched_wf_cong[of ?s' ?s] by (simp add: f)
  moreover have "tables_ok ?s'"
    using tables_ok_current[OF p(8), of "Some ?p" me] wf by (simp add: set_current_def)
  moreover have nr: "\<not> reaches x j c" for x j using assms(2) by (simp add: reaches_def)
  then have "counts_ok (k_endpoints k) (all_caps ?s')" using V(3) by (simp add: counts_ok_def a p(3))
  moreover have "ids_ok (all_caps ?s')" using V(4) by (simp add: ids_ok_def a p(3))
  moreover have "replies_ok {} ?s' Q"
  proof -
    have "tally (reply_to u) ?s' \<le> tally (reply_to u) ?s \<and>
        (tally (reply_to u) ?s' = 1 \<longrightarrow> tally (reply_to u) ?s = 1)" for u
    proof -
      have "tally (reply_to u) ?s \<le> 1" using V(6) by (simp add: replies_ok_def)
      then show ?thesis by (simp only: a p(3) filter_union_mset filter_mset_add_mset size_union) auto
    qed
    then show ?thesis using V(6) unfolding replies_ok_def by (simp, meson le_trans)
  qed
  moreover have "queues_ok {} ?s' Q" using V(5) by (simp add: queues_ok_def)
  ultimately show "dying me k Q D" using p m by (intro dyingI[where p = ?p]) (simp_all add: ipc_inv_at_def)
qed

text \<open>Waking a peer.\<close>

lemma shadow_wake:
  "set_current (wake_with k t s m l) me x = wake_with (set_current k me x) t s m l"
  by (simp add: wake_with_def set_current_def set_slot_def Let_def)

lemma shadow_landing:
  "take_reclaim_landing k t = (l, k') \<Longrightarrow>
   take_reclaim_landing (set_current k me x) t = (l, set_current k' me x)"
  by (auto simp: take_reclaim_landing_def set_current_def set_slot_def)

lemma refs_of_processes:
  assumes "map sl_process (k_table k') = map sl_process (k_table k)" "k_current k' = k_current k"
  shows "all_caps k' = all_caps k"
  using arg_cong[OF assms(1), of "\<lambda>xs. sum_list (map proc_caps xs)"] assms(2) by (simp add: all_caps_def)

lemma landing_slots:
  assumes "take_reclaim_landing k t = (l, k1)"
  shows "sl_state (slot_of k1 u) = sl_state (slot_of k u)" "sl_rsp (slot_of k1 u) = sl_rsp (slot_of k u)"
    "sl_process (slot_of k1 u) = sl_process (slot_of k u)" "length (k_table k1) = length (k_table k)"
    "\<exists>tb. k1 = k\<lparr>k_table := tb\<rparr>"
  using assms by (auto simp: take_reclaim_landing_def set_slot_def nth_list_update_cases)

lemma settles_wake:
  assumes "t < length (k_table k)" "take_reclaim_landing k t = (l, k1)"
  shows "settles k {t} (wake_with k1 t IPC_PEER_DIED m n)"
proof -
  let ?k' = "wake_with k1 t IPC_PEER_DIED m n"
  note L = landing_slots[OF assms(2)]
  have sl: "slot_of ?k' u = (if u = t then (slot_of k1 t)\<lparr>sl_state := Ready\<rparr> else slot_of k1 u)" for u
    using assms(1) L(4) by (simp add: wake_with_def set_slot_def Let_def nth_list_update_cases)
  obtain tb where k1: "k1 = k\<lparr>k_table := tb\<rparr>" using L(5) by blast
  have f: "k_current ?k' = k_current k" "k_current_slot ?k' = k_current_slot k" "k_queues ?k' = k_queues k"
    "length (k_table ?k') = length (k_table k)" "k_frames k1 = k_frames k"
    using L(4) by (simp_all add: wake_with_def set_slot_def Let_def k1)
  have "map sl_process (k_table ?k') = map sl_process (k_table k)"
    by (rule nth_equalityI) (simp_all add: f sl L)
  then have a: "all_caps ?k' = all_caps k" by (rule refs_of_processes) (rule f(1))
  have g: "k_frames ?k' a = (if a = sl_rsp (slot_of k t)
      then set_gp (set_gp (set_gp (k_frames k a) GP_RAX IPC_PEER_DIED) GP_RSI m) GP_RDX n else k_frames k a)" for a
    using L(2)[of t] by (simp add: wake_with_def Let_def f(5))
  have s: "frames_ok k \<Longrightarrow> a = sl_rsp (slot_of k t) \<Longrightarrow> status_at ?k' a = IPC_PEER_DIED" for a
    by (simp add: g frames_ok_def set_gp_def GP_RAX_def GP_RSI_def GP_RDX_def)
  have "frames_ok k \<Longrightarrow> frames_ok ?k'" by (simp add: frames_ok_def g set_gp_def)
  moreover have "frames_ok k \<Longrightarrow> status_at k a = IPC_PEER_DIED \<Longrightarrow> status_at ?k' a = IPC_PEER_DIED" for a
    using s[of a] by (cases "a = sl_rsp (slot_of k t)") (simp_all add: g)
  ultimately show ?thesis unfolding settles_def
    by (intro conjI allI impI ballI) (simp_all add: f a sl L s, simp_all add: k1)
qed

lemma dying_wake:
  assumes "dying me k Q D" "t < MAX_PROCESSES" "is_blocked k t" "waits_nowhere Q t"
    "size (filter_mset (reply_to t) (all_caps k + D)) = 0" "take_reclaim_landing k t = (l, k1)"
  shows "dying me (wake_with k1 t s m n) Q D"
proof -
  obtain p where p: "ipc_inv_at {} (set_current k me (Some p)) Q" "mset (ct_iter (p_caps p)) = D"
    "all_caps (set_current k me (Some p)) = all_caps k + D" "me < MAX_CORES" "k_current k ! me = None"
    using dyingE[OF assms(1)] .
  let ?s1 = "set_current k1 me (Some p)"
  have i1: "ipc_inv_at {} ?s1 Q" using take_landing_inv[OF shadow_landing[OF assms(6)]] p(1) by blast
  note L = landing_slots[OF assms(6)]
  have b: "is_blocked ?s1 t" using assms(3) L(1)[of t] by (simp add: is_blocked_def)
  obtain tb where k1: "k1 = k\<lparr>k_table := tb\<rparr>" using L(5) by blast
  have "map sl_process (k_table k1) = map sl_process (k_table k)" by (rule nth_equalityI) (simp_all add: L)
  then have "all_caps ?s1 = all_caps (set_current k me (Some p))"
    by (rule refs_of_processes[of "set_current _ _ _" "set_current _ _ _", simplified]) (simp add: k1)
  then have "tally (reply_to t) ?s1 = 0" using assms(5) by (simp only: p(3))
  then have "ipc_inv_at {} (set_current (wake_with k1 t s m n) me (Some p)) Q"
    unfolding shadow_wake by (intro wake_inv[OF i1 assms(2) b assms(4)])
  moreover have "k_current (wake_with k1 t s m n) = k_current k"
    by (simp add: wake_with_def set_slot_def Let_def k1)
  ultimately show ?thesis using p by (intro dyingI[where p = p]) simp_all
qed

text \<open>Replies owed.\<close>

definition is_reply :: "capability \<Rightarrow> bool" where
  "is_reply c \<longleftrightarrow> (\<exists>t. cap_obj c = Reply t)"

definition owed :: "capability list \<Rightarrow> nat set" where
  "owed cs = {t. \<exists>c \<in> set cs. cap_obj c = Reply t}"

lemma reap_replies:
  assumes "dying me k Q (mset cs + D)"
  shows "dying me (foldl reap_reply k cs) Q (mset (filter (Not \<circ> is_reply) cs) + D) \<and>
    settles k (owed cs) (foldl reap_reply k cs)"
  using assms
proof (induction cs arbitrary: k D)
  case Nil
  then show ?case by (simp add: owed_def settles_refl)
next
  case (Cons c cs)
  show ?case
  proof (cases "is_reply c")
    case False
    then have "reap_reply k c = k" by (auto simp: reap_reply_def is_reply_def split: cap_object.split)
    moreover have "owed (c # cs) = owed cs" using False by (auto simp: owed_def is_reply_def)
    moreover have "dying me k Q (mset cs + add_mset c D)" using Cons.prems by simp
    ultimately show ?thesis using Cons.IH[of k "add_mset c D"] False by simp
  next
    case True
    then obtain t where t: "cap_obj c = Reply t" by (auto simp: is_reply_def)
    have "dying me k Q (add_mset c (mset cs + D))" using Cons.prems by simp
    note R = dying_drop_reply[OF this t]
    obtain l k1 where tk: "take_reclaim_landing k t = (l, k1)" by fastforce
    define k2 where "k2 = wake_with k1 t IPC_PEER_DIED 0 NO_CAP"
    have r: "reap_reply k c = k2" using R(3) tk by (simp add: reap_reply_def t k2_def)
    have "length (k_table k) = MAX_PROCESSES" using dyingE[OF R(1)] by metis
    then have s: "settles k {t} k2" unfolding k2_def using settles_wake[OF _ tk] R(2) by simp
    have "dying me k2 Q (mset cs + D)" unfolding k2_def by (rule dying_wake[OF R tk])
    note IH = Cons.IH[OF this]
    have "owed (c # cs) = {t} \<union> owed cs" using t by (auto simp: owed_def)
    then show ?thesis using IH settles_trans[OF s] True r by simp
  qed
qed

text \<open>Waiters left without a counterpart.\<close>

lemma set_endpoint_shadow: "set_endpoint (set_current k me x) i e = set_current (set_endpoint k i e) me x"
  by (simp add: set_endpoint_def set_current_def)

lemma settles_endpoints: "settles k {} (k\<lparr>k_endpoints := es\<rparr>)"
  by (simp add: settles_def frames_ok_def)

lemma dying_dequeue:
  assumes "dying me k Q D" "i < MAX_ENDPOINTS" "Q i = t # rest"
  obtains q where "dequeue (ep_queue (k_endpoints k ! i)) (k_links k) = Some (t, q)"
    "dying me (set_endpoint k i ((k_endpoints k ! i)\<lparr>ep_queue := q\<rparr>)) (Q(i := rest)) D"
    "t < MAX_PROCESSES" "is_blocked k t" "waits_nowhere (Q(i := rest)) t"
    "size (filter_mset (reply_to t) (all_caps k + D)) = 0"
proof -
  obtain p where p: "ipc_inv_at {} (set_current k me (Some p)) Q" "mset (ct_iter (p_caps p)) = D"
    "all_caps (set_current k me (Some p)) = all_caps k + D" "me < MAX_CORES" "k_current k ! me = None"
    using dyingE[OF assms(1)] .
  let ?s = "set_current k me (Some p)" and ?e = "k_endpoints k ! i"
  let ?w = "wq_are_senders (ep_queue ?e)"
  note D = queues_okD[OF ipc_inv_atD(5)[OF p(1)] assms(2), unfolded set_current_views]
  obtain q where q: "dequeue (ep_queue ?e) (k_links k) = Some (t, q)"
    using dequeue_rep_Cons D(1) assms(3) by metis
  let ?k' = "set_endpoint k i (?e\<lparr>ep_queue := q\<rparr>)"
  have "take_if (ep_queue ?e) ?w (k_links k) = Some (t, q)"
    using q take_if_rep[OF D(1), of ?w] assms(3) by simp
  then have T: "take_waiting ?s i ?w = Some (t, set_current ?k' me (Some p))"
    by (simp add: take_waiting_def set_endpoint_shadow)
  obtain rest' where "Q i = t # rest'" "ipc_inv (set_current ?k' me (Some p)) (Q(i := rest'))" "is_blocked ?s t"
    "t < MAX_PROCESSES" "waits_nowhere (Q(i := rest')) t"
    "tally (reply_to t) (set_current ?k' me (Some p)) = 0"
    using take_waiting_Some[OF p(1)[folded ipc_inv_def] assms(2) T] by metis
  then have R: "ipc_inv (set_current ?k' me (Some p)) (Q(i := rest))" "is_blocked k t" "t < MAX_PROCESSES"
    "waits_nowhere (Q(i := rest)) t" "tally (reply_to t) (set_current ?k' me (Some p)) = 0"
    using assms(3) by simp_all
  have "k_current ?k' = k_current k" by (simp add: set_endpoint_def)
  then have "dying me ?k' (Q(i := rest)) D"
    using R(1) p by (intro dyingI[where p = p]) (simp_all add: ipc_inv_def)
  moreover have "all_caps (set_current ?k' me (Some p)) = all_caps k + D"
    by (simp only: set_endpoint_shadow[symmetric] p(3)[symmetric]) (simp add: set_endpoint_def)
  ultimately show ?thesis using that[of q] q R(2-5) by simp
qed

lemma drain_queue:
  assumes "dying me k Q D" "i < MAX_ENDPOINTS" "length (Q i) \<le> n"
  shows "dying me (wake_all_stranded n k i) (Q(i := [])) D \<and> settles k (set (Q i)) (wake_all_stranded n k i)"
  using assms
proof (induction n arbitrary: k Q)
  case 0
  then have "Q(i := []) = Q" by (simp add: fun_upd_idem)
  then show ?case using 0 by (simp add: settles_refl)
next
  case (Suc n)
  show ?case
  proof (cases "Q i")
    case Nil
    obtain p where p: "ipc_inv_at {} (set_current k me (Some p)) Q" using dyingE[OF Suc.prems(1)] by metis
    have "wq_rep (ep_queue (k_endpoints k ! i)) (k_links k) (Q i)"
      using queues_okD(1)[OF ipc_inv_atD(5)[OF p] Suc.prems(2)] by simp
    then have "dequeue (ep_queue (k_endpoints k ! i)) (k_links k) = None" using Nil dequeue_rep_Nil by simp
    moreover have "Q(i := []) = Q" using Nil by (simp add: fun_upd_idem)
    ultimately show ?thesis using Suc.prems Nil by (simp add: settles_refl)
  next
    case (Cons t rest)
    let ?Q = "Q(i := rest)"
    obtain q where q: "dequeue (ep_queue (k_endpoints k ! i)) (k_links k) = Some (t, q)"
      "dying me (set_endpoint k i ((k_endpoints k ! i)\<lparr>ep_queue := q\<rparr>)) ?Q D"
      "t < MAX_PROCESSES" "is_blocked k t" "waits_nowhere ?Q t"
      "size (filter_mset (reply_to t) (all_caps k + D)) = 0"
      using dying_dequeue[OF Suc.prems(1,2) Cons] .
    define k1 where "k1 = set_endpoint k i ((k_endpoints k ! i)\<lparr>ep_queue := q\<rparr>)"
    obtain l k2 where tk: "take_reclaim_landing k1 t = (l, k2)" by fastforce
    define k3 where "k3 = wake_with k2 t IPC_PEER_DIED 0 l"
    have k1: "\<exists>es. k1 = k\<lparr>k_endpoints := es\<rparr>" by (auto simp: k1_def set_endpoint_def)
    then have b: "is_blocked k1 t" "all_caps k1 = all_caps k" using q(4) by (auto simp: is_blocked_def)
    have "size (filter_mset (reply_to t) (all_caps k1 + D)) = 0" using q(6) b(2) by simp
    then have d: "dying me k3 ?Q D" unfolding k3_def
      by (rule dying_wake[OF q(2)[folded k1_def] q(3) b(1) q(5) _ tk])
    have "length (k_table k1) = MAX_PROCESSES" using dyingE[OF q(2)[folded k1_def]] by metis
    then have "settles k1 {t} k3" unfolding k3_def using settles_wake[OF _ tk] q(3) by simp
    moreover have "settles k {} k1" using k1 settles_endpoints by auto
    ultimately have s: "settles k {t} k3" using settles_trans by fastforce
    have W: "wake_all_stranded (Suc n) k i = wake_all_stranded n k3 i"
      using tk by (simp add: q(1) k1_def k3_def)
    have "length (?Q i) \<le> n" using Suc.prems(3) Cons by simp
    note IH = Suc.IH[OF d Suc.prems(2) this]
    have "{t} \<union> set (?Q i) = set (Q i)" using Cons by simp
    then have "settles k (set (Q i)) (wake_all_stranded n k3 i)"
      using settles_trans[OF s conjunct2[OF IH]] by (simp only:)
    moreover have "?Q(i := []) = Q(i := [])" by (rule fun_upd_upd)
    ultimately show ?thesis using conjunct1[OF IH] unfolding W by (simp only:)
  qed
qed

text \<open>The dying process was the last able to send to, or to receive from, an endpoint.\<close>

definition last_holder :: "capability multiset \<Rightarrow> capability multiset \<Rightarrow> nat \<Rightarrow> bool" where
  "last_holder D C i \<longleftrightarrow> (\<exists>r \<in> {RIGHT_SEND, RIGHT_RECV}. 0 < refs r i D \<and> refs r i C = 0)"

lemma dying_refs_mset: "dying_refs r i cs = refs r i (mset cs)"
  by (simp add: dying_refs_def refs_def flip: mset_filter)

lemma strands_iff:
  assumes "dying me k Q D" "i < MAX_ENDPOINTS" "\<And>r. refs r i D = refs r i (mset cs)"
  shows "death_strands_peers (k_endpoints k ! i) (dying_refs RIGHT_SEND i cs) (dying_refs RIGHT_RECV i cs) \<longleftrightarrow>
    last_holder D (all_caps k) i"
  using dying_counts[OF assms(1,2)] by (auto simp: death_strands_peers_def last_holder_def dying_refs_mset assms(3))

lemma queue_length:
  assumes "dying me k Q D" "i < MAX_ENDPOINTS"
  shows "length (Q i) \<le> MAX_PROCESSES"
proof -
  obtain p where p: "ipc_inv_at {} (set_current k me (Some p)) Q" using dyingE[OF assms(1)] by metis
  note D = queues_okD[OF ipc_inv_atD(5)[OF p] assms(2)]
  have "distinct (Q i)" "set (Q i) \<subseteq> {..< MAX_PROCESSES}" using D(1,2) by (auto simp: wq_rep_def)
  then show ?thesis using card_mono[of "{..< MAX_PROCESSES}" "set (Q i)"] by (simp add: distinct_card)
qed

lemma reap_endpoint_dying:
  assumes "dying me k Q D" "i < MAX_ENDPOINTS" "\<And>r. refs r i D = refs r i (mset cs)"
  shows "dying me (reap_endpoint cs k i) (if last_holder D (all_caps k) i then Q(i := []) else Q) D \<and>
    settles k (if last_holder D (all_caps k) i then set (Q i) else {}) (reap_endpoint cs k i)"
proof (cases "ep_in_use (k_endpoints k ! i)")
  case True
  then show ?thesis
    using drain_queue[OF assms(1,2) queue_length[OF assms(1,2)]] assms(1) strands_iff[OF assms]
    by (simp add: reap_endpoint_def Let_def settles_refl)
next
  case False
  obtain p where p: "ipc_inv_at {} (set_current k me (Some p)) Q" using dyingE[OF assms(1)] by metis
  have "Q i = []" using queues_okD(4)[OF ipc_inv_atD(5)[OF p] assms(2)] False by auto
  then have "Q(i := []) = Q" by (simp add: fun_upd_idem)
  then show ?thesis using assms(1) False \<open>Q i = []\<close> by (simp add: reap_endpoint_def Let_def settles_refl)
qed

definition emptied :: "(nat \<Rightarrow> bool) \<Rightarrow> (nat \<Rightarrow> 'a list) \<Rightarrow> nat \<Rightarrow> 'a list" where
  "emptied S Q i = (if S i then [] else Q i)"

lemma reap_endpoints_dying:
  assumes "dying me k Q D" "\<And>r i. refs r i D = refs r i (mset cs)" "n \<le> MAX_ENDPOINTS"
  shows "dying me (foldl (reap_endpoint cs) k [0..<n]) (emptied (\<lambda>i. i < n \<and> last_holder D (all_caps k) i) Q) D \<and>
    settles k (\<Union>i \<in> {i. i < n \<and> last_holder D (all_caps k) i}. set (Q i)) (foldl (reap_endpoint cs) k [0..<n])"
  using assms(3)
proof (induction n)
  case 0
  have "emptied (\<lambda>i. False) Q = Q" by (simp add: emptied_def fun_eq_iff)
  then show ?case using assms(1) by (simp add: settles_refl)
next
  case (Suc n)
  define S where "S = (\<lambda>m i. i < m \<and> last_holder D (all_caps k) i)"
  define W where "W = (\<lambda>m. \<Union>i \<in> {i. S m i}. set (Q i))"
  let ?k = "foldl (reap_endpoint cs) k [0..<n]"
  have IH: "dying me ?k (emptied (S n) Q) D" "settles k (W n) ?k"
    using Suc unfolding S_def W_def by simp_all
  have n: "n < MAX_ENDPOINTS" using Suc.prems by simp
  have l: "last_holder D (all_caps ?k) n = last_holder D (all_caps k) n"
    using settlesD(8)[OF IH(2)] by (simp add: last_holder_def)
  have q: "emptied (S n) Q n = Q n" by (simp add: emptied_def S_def)
  note R = reap_endpoint_dying[OF IH(1) n, of cs, OF assms(2), unfolded l q]
  have "(if last_holder D (all_caps k) n then (emptied (S n) Q)(n := []) else emptied (S n) Q) = emptied (S (Suc n)) Q"
    by (auto simp: emptied_def S_def fun_eq_iff less_Suc_eq)
  moreover have "W n \<union> (if last_holder D (all_caps k) n then set (Q n) else {}) = W (Suc n)"
    by (auto simp: W_def S_def less_Suc_eq)
  ultimately have "dying me (foldl (reap_endpoint cs) k [0..<Suc n]) (emptied (S (Suc n)) Q) D"
    "settles k (W (Suc n)) (foldl (reap_endpoint cs) k [0..<Suc n])"
    using R settles_trans[OF IH(2) conjunct2[OF R]] by simp_all
  then show ?case unfolding S_def W_def by blast
qed

text \<open>All of \<open>reap_dying\<close>, over the table of the dying process.\<close>

definition stranded_by :: "process \<Rightarrow> kernel \<Rightarrow> nat \<Rightarrow> bool" where
  "stranded_by p k i \<longleftrightarrow> i < MAX_ENDPOINTS \<and> last_holder (mset (ct_iter (p_caps p))) (all_caps k) i"

definition woken_by :: "process \<Rightarrow> kernel \<Rightarrow> (nat \<Rightarrow> nat list) \<Rightarrow> nat set" where
  "woken_by p k Q = owed (ct_iter (p_caps p)) \<union> (\<Union>i \<in> {i. stranded_by p k i}. set (Q i))"

lemma reap_dying_settles:
  assumes "dying me k Q (mset (ct_iter (p_caps p)))"
  shows "dying me (reap_dying k (p_caps p)) (emptied (stranded_by p k) Q)
      (mset (filter (Not \<circ> is_reply) (ct_iter (p_caps p)))) \<and>
    settles k (woken_by p k Q) (reap_dying k (p_caps p))"
proof -
  let ?cs = "ct_iter (p_caps p)"
  let ?D = "mset (filter (Not \<circ> is_reply) ?cs)"
  let ?k1 = "foldl reap_reply k ?cs"
  have R: "dying me ?k1 Q ?D" "settles k (owed ?cs) ?k1" using reap_replies[of me k Q ?cs "{#}"] assms by simp_all
  have e: "refs r i ?D = refs r i (mset ?cs)" for r i
  proof -
    have "refs r i (mset (filter (Not \<circ> is_reply) cs)) = refs r i (mset cs)" for cs
      by (induction cs) (auto simp: is_reply_def reaches_def)
    then show ?thesis .
  qed
  have S: "(\<lambda>i. i < MAX_ENDPOINTS \<and> last_holder ?D (all_caps ?k1) i) = stranded_by p k"
    unfolding fun_eq_iff stranded_by_def last_holder_def e settlesD(8)[OF R(2)] by blast
  note E = reap_endpoints_dying[OF R(1), of ?cs MAX_ENDPOINTS, OF e order.refl, unfolded S]
  show ?thesis
    using E settles_trans[OF R(2) conjunct2[OF E]] unfolding reap_dying_def woken_by_def by blast
qed

section \<open>Borrowed capabilities go home\<close>

lemma reclaim_target_Some:
  assumes "reclaim_target c d = Some (og, r)"
  shows "cap_origin c = Some og" "is_reclaimable_kind (cap_obj c)" "cap_obj r = cap_obj c"
    "r = lent_to c (origin_new d (home og)) (lender og)" "cap_rights r = cap_rights c"
proof -
  have "release_action_of c = ReclaimTo og \<and> r = lent_to c (origin_new d (home og)) (lender og)"
    using assms by (auto simp: reclaim_target_def split: release_action.splits)
  moreover have "release_action_of c = ReclaimTo og \<longrightarrow> cap_origin c = Some og \<and> is_reclaimable_kind (cap_obj c)"
    by (cases "cap_obj c") (auto simp: release_action_of_def split: option.splits)
  ultimately show "cap_origin c = Some og" "is_reclaimable_kind (cap_obj c)" "cap_obj r = cap_obj c"
    "r = lent_to c (origin_new d (home og)) (lender og)" "cap_rights r = cap_rights c"
    by (simp_all add: lent_to_def)
qed

lemma reclaim_into_cases:
  assumes "ct_wf t" "reclaim_into h c t = (res, t')"
  shows "(res = None \<and> t' = t \<and> \<not> is_reserved t h \<and> (\<exists>e. install t c = Inl e)) \<or>
    (\<exists>i. res = Some i \<and> mset (ct_iter t') = add_mset c (mset (ct_iter t)) \<and> ct_wf t' \<and> i < MAX_CAPS \<and>
       peek t' = (peek t)(i := Some c) \<and> (is_reserved t h \<longrightarrow> i = h))"
proof (cases "reclaim_to t h c")
  case None
  then have n: "\<not> is_reserved t h" using reclaim_to_None[OF assms(1)] by simp
  show ?thesis
  proof (cases "install t c")
    case (Inl e)
    then show ?thesis using None assms(2) n by (simp add: reclaim_into_def reclaim_def)
  next
    case (Inr r)
    then obtain i u where u: "install t c = Inr (i, u)" by (cases r) simp
    then have "res = Some i" "t' = u" using None assms(2) by (auto simp: reclaim_into_def reclaim_def)
    then show ?thesis using n install_Inr[OF assms(1) u] install_mset[OF assms(1) u] by blast
  qed
next
  case (Some r)
  then obtain i u where u: "reclaim_to t h c = Some (i, u)" by (cases r) simp
  note F = reclaim_to_Some[OF assms(1) u]
  then show ?thesis using assms(2) u reclaim_to_mset[OF assms(1) u] by (simp add: reclaim_into_def)
qed

text \<open>Where a lender's table is found.\<close>

lemma lender_place_Some:
  assumes "lender_place k t = Some pl"
  obtains p where "process_at k t pl = Some p" "pl = InTable \<Longrightarrow> t < length (k_table k)"
    "\<And>c. pl = OnCore c \<Longrightarrow> c < MAX_CORES \<and> k_current_slot k ! c = t"
proof (cases pl)
  case InTable
  then have "t < length (k_table k)" "sl_process (slot_of k t) \<noteq> None"
    using assms by (auto simp: lender_place_def split: if_splits)
  then show ?thesis using that InTable by (auto simp: process_at_def)
next
  case (OnCore c)
  then have "find (\<lambda>c. k_current_slot k ! c = t \<and> k_current k ! c \<noteq> None) [0..<MAX_CORES] = Some c"
    using assms by (auto simp: lender_place_def split: if_splits)
  then have "c < MAX_CORES" "k_current_slot k ! c = t" "k_current k ! c \<noteq> None"
    by (auto simp: find_Some_iff)
  then show ?thesis using that OnCore by (auto simp: process_at_def)
qed

lemma set_process_exchange:
  assumes "tables_ok k" "length (k_current k) = MAX_CORES" "lender_place k t = Some pl" "process_at k t pl = Some p"
    and "ct_wf u" "mset (ct_iter u) = mset (ct_iter (p_caps p)) + C"
  shows "exchanges k {#} C (set_process_at k t pl (p\<lparr>p_caps := u\<rparr>))"
    and "k_endpoints (set_process_at k t pl (p\<lparr>p_caps := u\<rparr>)) = k_endpoints k"
    and "process_at (set_process_at k t pl (p\<lparr>p_caps := u\<rparr>)) t pl = Some (p\<lparr>p_caps := u\<rparr>)"
proof -
  let ?k' = "set_process_at k t pl (p\<lparr>p_caps := u\<rparr>)"
  obtain P where P: "pl = InTable \<Longrightarrow> t < length (k_table k)" "\<And>c. pl = OnCore c \<Longrightarrow> c < MAX_CORES"
    using lender_place_Some[OF assms(3)] by metis
  have "exchanges k {#} C ?k' \<and> k_endpoints ?k' = k_endpoints k \<and>
      process_at ?k' t pl = Some (p\<lparr>p_caps := u\<rparr>)"
  proof (cases pl)
    case InTable
    then have e: "?k' = k\<lparr>k_table := (k_table k)[t := (slot_of k t)\<lparr>sl_process := Some (p\<lparr>p_caps := u\<rparr>)\<rparr>],
        k_unmaps := k_unmaps k\<rparr>" by (simp add: set_process_at_def set_slot_def)
    have "sl_process (slot_of k t) = Some p" using assms(4) InTable by (simp add: process_at_def)
    note X = slot_exchange[OF assms(1) P(1)[OF InTable] this _ e, of "{#}" C]
    show ?thesis using X assms(5,6) InTable by (simp add: process_at_def)
  next
    case (OnCore c)
    then have e: "?k' = k\<lparr>k_current := (k_current k)[c := Some (p\<lparr>p_caps := u\<rparr>)], k_unmaps := k_unmaps k\<rparr>"
      by (simp add: set_process_at_def set_current_def)
    have "k_current k ! c = Some p" using assms(4) OnCore by (simp add: process_at_def)
    note X = current_exchange[OF assms(1) _ this _ e, of "{#}" C]
    show ?thesis using X assms(2,5,6) P(2)[OF OnCore] OnCore by (simp add: process_at_def)
  qed
  then show "exchanges k {#} C ?k'" "k_endpoints ?k' = k_endpoints k"
    "process_at ?k' t pl = Some (p\<lparr>p_caps := u\<rparr>)" by blast+
qed

lemma place_wf:
  assumes "tables_ok k" "length (k_current k) = MAX_CORES" "lender_place k t = Some pl" "process_at k t pl = Some p"
  shows "ct_wf (p_caps p)"
proof (cases pl)
  case InTable
  then have "t < length (k_table k)" using lender_place_Some[OF assms(3)] by metis
  then show ?thesis using assms InTable tables_okD(1)[OF assms(1), of t p] by (simp add: process_at_def)
next
  case (OnCore c)
  then have "c < MAX_CORES" using lender_place_Some[OF assms(3)] by metis
  then show ?thesis using assms OnCore tables_okD(2)[OF assms(1), of c p] by (simp add: process_at_def)
qed

text \<open>One capability of the dying process.\<close>

lemma note_reclaimable:
  "is_reclaimable_kind (cap_obj c) \<Longrightarrow> note_cap_added es c = es \<and> note_cap_removed es c b = es"
  by (cases "cap_obj c") (simp_all add: note_cap_added_def note_cap_removed_def)

lemma reclaim_home_cases:
  assumes "tables_ok k" "length (k_current k) = MAX_CORES" "reclaim_target c d = Some (og, r)"
  shows "(lender_place k (lender og) = None \<and> reclaim_cap_home k c og r = (NoLender, k)) \<or>
    (\<exists>pl p. lender_place k (lender og) = Some pl \<and> process_at k (lender og) pl = Some p \<and>
      ((\<not> is_reserved (p_caps p) (home og) \<and> (\<exists>e. install (p_caps p) r = Inl e) \<and>
          reclaim_cap_home k c og r = (LenderFull, k)) \<or>
       (\<exists>i k' q. reclaim_cap_home k c og r = (Landed i, k') \<and> exchanges k {#} {#r#} k' \<and>
          k_endpoints k' = k_endpoints k \<and> process_at k' (lender og) pl = Some q \<and>
          peek (p_caps q) = (peek (p_caps p))(i := Some r) \<and> i < MAX_CAPS \<and>
          (is_reserved (p_caps p) (home og) \<longrightarrow> i = home og))))"
proof (cases "lender_place k (lender og)")
  case None
  then show ?thesis by (simp add: reclaim_cap_home_def with_lender_caps_def)
next
  case (Some pl)
  obtain p where p: "process_at k (lender og) pl = Some p" using lender_place_Some[OF Some] by metis
  note wf = place_wf[OF assms(1,2) Some p]
  note T = reclaim_target_Some[OF assms(3)]
  obtain res u where ru: "reclaim_into (home og) r (p_caps p) = (res, u)" by fastforce
  let ?k' = "set_process_at k (lender og) pl (p\<lparr>p_caps := u\<rparr>)"
  have w: "with_lender_caps k (lender og) (reclaim_into (home og) r) = Some (res, ?k')"
    using Some p ru by (simp add: with_lender_caps_def)
  have same: "?k' = k" if "u = p_caps p"
  proof (cases pl)
    case InTable
    have "slot_of k (lender og) = (slot_of k (lender og))\<lparr>sl_process := Some p\<rparr>"
      using p InTable by (simp add: process_at_def)
    then show ?thesis using InTable that by (simp add: set_process_at_def set_slot_def)
  next
    case (OnCore c)
    then show ?thesis using that p by (simp add: set_process_at_def set_current_def process_at_def)
        (metis kernel.surjective kernel.update_convs(10) list_update_id)
  qed
  show ?thesis
    using reclaim_into_cases[OF wf ru]
  proof (elim disjE exE conjE)
    fix e
    assume n: "res = None" "u = p_caps p" "\<not> is_reserved (p_caps p) (home og)" and e: "install (p_caps p) r = Inl e"
    then have "reclaim_cap_home k c og r = (LenderFull, k)" using w same by (simp add: reclaim_cap_home_def)
    then show ?thesis using Some p n e by blast
  next
    fix i
    assume i: "res = Some i" "mset (ct_iter u) = add_mset r (mset (ct_iter (p_caps p)))" "ct_wf u" "i < MAX_CAPS"
      "peek u = (peek (p_caps p))(i := Some r)" "is_reserved (p_caps p) (home og) \<longrightarrow> i = home og"
    have X: "exchanges k {#} {#r#} ?k'" "k_endpoints ?k' = k_endpoints k"
      "process_at ?k' (lender og) pl = Some (p\<lparr>p_caps := u\<rparr>)"
      using set_process_exchange[OF assms(1,2) Some p i(3), of "{#r#}"] i(2) by simp_all
    have "reclaim_cap_home k c og r = (Landed i, ?k')"
      using w i(1) note_reclaimable T(2,3) by (simp add: reclaim_cap_home_def)
    then show ?thesis using X i(4-6) Some p
      by (intro disjI2 exI[of _ pl] exI[of _ p] conjI exI[of _ i] exI[of _ ?k'] exI[of _ "p\<lparr>p_caps := u\<rparr>"]) simp_all
  qed
qed

lemma landing_dying:
  assumes "dying me k Q D"
  shows "dying me (set_reclaim_landing k t l) Q D" "settles k {} (set_reclaim_landing k t l)"
proof -
  let ?k' = "set_reclaim_landing k t l"
  obtain p where p: "ipc_inv_at {} (set_current k me (Some p)) Q" "mset (ct_iter (p_caps p)) = D"
    "me < MAX_CORES" "k_current k ! me = None" using dyingE[OF assms] by metis
  have f: "k_current ?k' = k_current k" "k_current_slot ?k' = k_current_slot k" "k_queues ?k' = k_queues k"
    "k_links ?k' = k_links k" "k_endpoints ?k' = k_endpoints k" "k_frames ?k' = k_frames k"
    "length (k_table ?k') = length (k_table k)"
    "\<And>u. state_of ?k' u = state_of k u" "\<And>u. sl_process (slot_of ?k' u) = sl_process (slot_of k u)"
    "\<And>u. sl_rsp (slot_of ?k' u) = sl_rsp (slot_of k u)"
    by (simp_all add: set_reclaim_landing_def set_slot_def nth_list_update_cases)
  have "ipc_inv_at {} (set_current ?k' me (Some p)) Q = ipc_inv_at {} (set_current k me (Some p)) Q"
    by (rule inv_cong) (simp_all add: f)
  then show "dying me ?k' Q D" using p by (intro dyingI[where p = p]) (simp_all add: f)
  have "map sl_process (k_table ?k') = map sl_process (k_table k)" by (rule nth_equalityI) (simp_all add: f)
  then have "all_caps ?k' = all_caps k" using f(1) by (rule refs_of_processes)
  then show "settles k {} ?k'" by (simp add: settles_def f frames_ok_def)
qed

lemma reclaim_one_dying:
  assumes "dying me k Q D"
  shows "dying me (reclaim_one d k c) Q D \<and> settles k {} (reclaim_one d k c)"
proof (cases "reclaim_target c d")
  case None
  then show ?thesis using assms by (simp add: reclaim_one_def settles_refl)
next
  case (Some x)
  then obtain og r where x: "reclaim_target c d = Some (og, r)" by (cases x) simp
  have len: "length (k_current k) = MAX_CORES" and ok: "tables_ok k" using dyingE[OF assms] by metis+
  have u: "unseen {#r#}" using reclaim_target_Some[OF x] by (simp add: unseen_def)
  consider "\<exists>res. res \<in> {NoLender, LenderFull} \<and> reclaim_cap_home k c og r = (res, k)"
    | i k' where "reclaim_cap_home k c og r = (Landed i, k')" "exchanges k {#} {#r#} k'" "k_endpoints k' = k_endpoints k"
    using reclaim_home_cases[OF ok len x] by blast
  then show ?thesis
  proof cases
    case 1
    then have "reclaim_one d k c = k" using x by (auto simp: reclaim_one_def)
    then show ?thesis using assms by (simp add: settles_refl)
  next
    case (2 i k')
    then have e: "reclaim_one d k c = set_reclaim_landing k' (lender og) (of_nat i)" using x by (simp add: reclaim_one_def)
    note X = dying_exchange[OF assms 2(2) u 2(3)]
    show ?thesis unfolding e
      using landing_dying[OF X(1)] settles_trans[OF X(2) landing_dying(2)[OF X(1)]] by simp
  qed
qed

lemma reclaim_all_dying:
  assumes "dying me k Q D"
  shows "dying me (foldl (reclaim_one d) k cs) Q D \<and> settles k {} (foldl (reclaim_one d) k cs)"
  using assms
proof (induction cs arbitrary: k)
  case Nil
  then show ?case by (simp add: settles_refl)
next
  case (Cons c cs)
  note R = reclaim_one_dying[OF Cons.prems, of d c]
  show ?case using Cons.IH[OF conjunct1[OF R]] settles_trans[OF conjunct2[OF R]] by fastforce
qed

section \<open>The freed slot\<close>

lemma exit_wf:
  assumes "sched_wf (set_current k me (Some p))" "me < MAX_CORES" "k_current k ! me = None"
    and "cur = k_current_slot k ! me" "k_table k' = (k_table k)[cur := slot_empty]"
    and "k_current k' = k_current k" "k_current_slot k' = k_current_slot k" "k_queues k' = k_queues k"
  obtains k8 where "remove_from_core_queue k' me cur = Some k8" "sched_wf k8" "k8 = k'\<lparr>k_queues := k_queues k8\<rparr>"
    "cur < MAX_PROCESSES" "state_of k cur = Running" "sl_process (slot_of k cur) = None" "homed k me cur"
proof -
  let ?s = "set_current k me (Some p)"
  note W = sched_wfD[OF assms(1)]
  have len: "length (k_current k) = MAX_CORES" "length (k_table k) = MAX_PROCESSES" using W(1) by (simp_all add: shape_def)
  have run: "k_current ?s ! me = Some p" using assms(2) len by simp
  note R = running_slot[OF assms(1,2) run, simplified, folded assms(4)]
  have on: "runs_on ?s me cur" using run assms(4) by (simp add: runs_on_def)
  have h: "homed k me cur" using W(4)[OF assms(2) on] by (simp add: homed_def)
  have sl: "slot_of k' t = (if t = cur then slot_empty else slot_of k t)" for t
    using R(1) len assms(5) by (simp add: nth_list_update_cases)
  have sh: "shape k'" using W(1) assms(5-8) by (simp add: shape_def)
  have h': "homed k' me cur" using h assms(8) by (simp add: homed_def)
  obtain k8 where r: "remove_from_core_queue k' me cur = Some k8" "add_mset cur (queued k8) = queued k'" "shape k8"
    "k8 = k'\<lparr>k_queues := k_queues k8\<rparr>" "\<And>d. d \<noteq> me \<Longrightarrow> k_queues k8 ! d = k_queues k' ! d"
    "\<And>u. u \<noteq> cur \<Longrightarrow> homed k8 me u = homed k' me u"
    using remove_queue_Some[OF sh assms(2) h'] by metis
  have t8: "k_table k8 = k_table k'" "k_current k8 = k_current k" "k_current_slot k8 = k_current_slot k"
    by (subst r(4), simp add: assms(6,7))+
  have lv: "live k8 = live k - {cur}" by (auto simp: live_def t8 sl slot_empty_def)
  have lc: "cur \<in> live k" using R(1,2) by (simp add: live_def)
  have "queued k' = mset_set (live k)" using W(2) assms(8) by (simp add: queued_def live_def)
  moreover have "mset_set (live k) = add_mset cur (mset_set (live k - {cur}))"
    using lc by (simp add: mset_set.remove)
  ultimately have q: "queued k8 = mset_set (live k8)" using r(2) lv by simp
  have hm: "homed k8 c u = homed k c u" if "u \<noteq> cur" "c < MAX_CORES" for c u
    using r(5)[of c] r(6)[OF that(1)] assms(8) by (cases "c = me") (simp_all add: homed_def)
  have ro: "runs_on k8 c t \<longleftrightarrow> c \<noteq> me \<and> runs_on ?s c t" if "c < MAX_CORES" for c t
    using assms(3) by (auto simp: runs_on_def t8 nth_list_update_cases)
  have nc: "t \<noteq> cur" if "c < MAX_CORES" "c \<noteq> me" "runs_on ?s c t" for c t
    using runs_on_unique[OF assms(1) that(1) assms(2)] that(2,3) on by blast
  have "\<forall>t < MAX_PROCESSES. sl_process (slot_of k8 t) \<noteq> None \<longleftrightarrow> state_of k8 t \<in> {Ready, Blocked}"
    using W(3) by (simp add: t8 sl slot_empty_def)
  moreover have "\<forall>c < MAX_CORES. \<forall>t. runs_on k8 c t \<longrightarrow> t < MAX_PROCESSES \<and> state_of k8 t = Running \<and> homed k8 c t"
    using W(4) ro nc hm by (simp add: t8 sl homed_def)
  moreover have "\<exists>c < MAX_CORES. runs_on k8 c t" if T: "t < MAX_PROCESSES" "state_of k8 t = Running" for t
  proof -
    have "t \<noteq> cur" "state_of ?s t = Running" using T(2) by (auto simp: t8 sl slot_empty_def split: if_splits)
    then obtain c where c: "c < MAX_CORES" "runs_on ?s c t" using W(5)[OF T(1)] by blast
    then have "c \<noteq> me" using \<open>t \<noteq> cur\<close> by (auto simp: runs_on_def assms(4))
    then show ?thesis using ro c by blast
  qed
  ultimately have "sched_wf k8" using r(3) q by (simp add: sched_wf_def)
  then show ?thesis using that r(1,4) R h by simp
qed

text \<open>Clearing origins.\<close>

lemma clear_table_tally:
  assumes "neutral P"
  shows "size (filter_mset P (mset (ct_iter (snd (clear_origin u t))))) = size (filter_mset P (mset (ct_iter u)))"
proof -
  let ?f = "\<lambda>e. if names_lender t e then map_option (\<lambda>c. c\<lparr>cap_origin := None\<rparr>) e else e"
  have P: "P (c\<lparr>cap_origin := None\<rparr>) = P c" for c using assms by (simp add: neutral_def)
  have "size (filter_mset P (mset (List.map_filter id (map ?f es)))) = size (filter_mset P (mset (List.map_filter id es)))"
    for es by (induction es) (auto simp: map_filter_simps P split: option.splits)
  then show ?thesis by (simp add: ct_iter_def clear_origin_def)
qed

lemma tally_sum:
  "tally P k = sum_list (map (\<lambda>s. size (filter_mset P (proc_caps (sl_process s)))) (k_table k)) +
    sum_list (map (\<lambda>x. size (filter_mset P (proc_caps x))) (k_current k))"
proof -
  have "size (filter_mset P (sum_list xs)) = sum_list (map (\<lambda>x. size (filter_mset P x)) xs)" for xs
    by (induction xs) simp_all
  then show ?thesis by (simp add: all_caps_def comp_def)
qed

lemma nth_beyond: "length xs \<le> i \<Longrightarrow> xs ! i = [] ! (i - length xs)"
proof (induction xs arbitrary: i)
  case (Cons x xs)
  then show ?case by (cases i) simp_all
qed simp

lemma clear_origins_neutral:
  assumes "snd (clear_origins_naming k t) = k'" "tables_ok k"
  shows "caps_only k k'" "tables_ok k'" "k_endpoints k' = k_endpoints k"
    "\<And>P. neutral P \<Longrightarrow> tally P k' = tally P k"
proof -
  have k': "k' = k\<lparr>k_table := map (\<lambda>s. s\<lparr>sl_process := clear_origin_proc t (sl_process s)\<rparr>) (k_table k),
      k_current := map (clear_origin_proc t) (k_current k)\<rparr>"
    using assms(1) by (simp add: clear_origins_naming_def)
  have n: "clear_origin_proc t x = None \<longleftrightarrow> x = None" for x by (simp add: clear_origin_proc_def)
  have ok: "proc_ok (clear_origin_proc t x)" if "proc_ok x" for x
    using that by (cases x) (simp_all add: clear_origin_proc_def ct_wf_clear_origin)
  have tl: "size (filter_mset P (proc_caps (clear_origin_proc t x))) = size (filter_mset P (proc_caps x))"
    if "neutral P" for P x using clear_table_tally[OF that] by (cases x) (simp_all add: clear_origin_proc_def)

  show "tables_ok k'" using assms(2) ok by (auto simp: tables_ok_def k')
  show "k_endpoints k' = k_endpoints k" by (simp add: k')
  show "tally P k' = tally P k" if "neutral P" for P
    using tl[OF that] by (simp add: tally_sum k' comp_def)
  have "(slot_of k' u)\<lparr>sl_process := None\<rparr> = (slot_of k u)\<lparr>sl_process := None\<rparr> \<and>
      (sl_process (slot_of k' u) = None \<longleftrightarrow> sl_process (slot_of k u) = None)" for u
    by (cases "u < length (k_table k)")
      (simp_all add: k' n nth_beyond[of "k_table k"] nth_beyond[of "map _ (k_table k)"])
  moreover have "k_current k' ! c = None \<longleftrightarrow> k_current k ! c = None" for c
    by (cases "c < length (k_current k)")
      (simp_all add: k' n nth_beyond[of "k_current k"] nth_beyond[of "map _ (k_current k)"])
  moreover have "\<exists>tb cu us es. k' = k\<lparr>k_table := tb, k_current := cu, k_unmaps := us, k_endpoints := es\<rparr>"
    unfolding k' by (intro exI[of _ "k_unmaps k"] exI[of _ "k_endpoints k"] exI) simp
  ultimately show "caps_only k k'" by (simp add: caps_only_def) (simp add: k')
qed

section \<open>Releasing the resources\<close>

text \<open>Only page mappings, frames, rings, subscriptions and endpoints differ.\<close>

definition resources_only :: "kernel \<Rightarrow> kernel \<Rightarrow> bool" where
  "resources_only k k' \<longleftrightarrow> (\<exists>us al rg sb es.
     k' = k\<lparr>k_unmaps := us, k_alloc := al, k_rings := rg, k_subs := sb, k_endpoints := es\<rparr>)"

lemma resources_onlyD:
  assumes "resources_only k k'"
  shows "k_table k' = k_table k" "k_current k' = k_current k" "k_links k' = k_links k"
    "k_current_slot k' = k_current_slot k" "k_queues k' = k_queues k" "k_frames k' = k_frames k"
    "all_caps k' = all_caps k" "tables_ok k' = tables_ok k" "settles k {} k'"
  using assms by (auto simp: resources_only_def all_caps_def tables_ok_def settles_def frames_ok_def)

lemma resources_refl: "resources_only k k"
  unfolding resources_only_def
  by (intro exI[of _ "k_unmaps k"] exI[of _ "k_alloc k"] exI[of _ "k_rings k"] exI[of _ "k_subs k"]
      exI[of _ "k_endpoints k"]) simp

lemma resources_trans: "resources_only k k1 \<Longrightarrow> resources_only k1 k2 \<Longrightarrow> resources_only k k2"
  unfolding resources_only_def by (elim exE, hypsubst, intro exI) simp

lemma resources_parts:
  "resources_only k (k\<lparr>k_unmaps := us\<rparr>)" "resources_only k (k\<lparr>k_alloc := al\<rparr>)"
  "resources_only k (k\<lparr>k_rings := rg, k_subs := sb\<rparr>)" "resources_only k (k\<lparr>k_endpoints := es\<rparr>)"
proof -
  note R = exI[of _ "k_unmaps k"] exI[of _ "k_alloc k"] exI[of _ "k_rings k"] exI[of _ "k_subs k"] exI[of _ "k_endpoints k"]
  show "resources_only k (k\<lparr>k_unmaps := us\<rparr>)" unfolding resources_only_def by (intro exI[of _ us] R) simp
  show "resources_only k (k\<lparr>k_alloc := al\<rparr>)" unfolding resources_only_def
    by (rule exI[of _ "k_unmaps k"], intro exI[of _ al] R) simp
  show "resources_only k (k\<lparr>k_rings := rg, k_subs := sb\<rparr>)" unfolding resources_only_def
    by (rule exI[of _ "k_unmaps k"], rule exI[of _ "k_alloc k"], intro exI[of _ rg] exI[of _ sb] R) simp
  show "resources_only k (k\<lparr>k_endpoints := es\<rparr>)" unfolding resources_only_def
    by (rule exI[of _ "k_unmaps k"], rule exI[of _ "k_alloc k"], rule exI[of _ "k_rings k"],
        rule exI[of _ "k_subs k"], rule exI[of _ es]) simp
qed

lemma dealloc_frame_resources: "resources_only k (dealloc_frame k a)" "k_endpoints (dealloc_frame k a) = k_endpoints k"
  by (simp_all add: dealloc_frame_def resources_refl resources_parts split: sum.split)

lemma teardown_cap_resources:
  "resources_only k (teardown_cap k c)" "k_endpoints (teardown_cap k c) = note_cap_removed (k_endpoints k) c True"
proof -
  have "ring_release k i = k\<lparr>k_rings := (if i < MAX_RINGS then (k_rings k)[i := ring_empty] else k_rings k),
      k_subs := release_ring (k_subs k) i\<rparr>" for i
    by (simp add: ring_release_def Let_def)
  then have R: "resources_only k (ring_release k i)" "k_endpoints (ring_release k i) = k_endpoints k" for i
    using resources_parts(3) by simp_all
  note D = dealloc_frame_resources R resources_refl resources_parts
  show "resources_only k (teardown_cap k c)"
    by (simp add: teardown_cap_def D split: release_action.split)
  show "k_endpoints (teardown_cap k c) = note_cap_removed (k_endpoints k) c True"
  proof (cases "\<exists>j. cap_obj c = Endpoint j")
    case True
    then have "release_action_of c = DropEndpoint" by (auto simp: release_action_of_def split: option.split)
    then show ?thesis by (simp add: teardown_cap_def)
  next
    case False
    then have n: "note_cap_removed (k_endpoints k) c True = k_endpoints k"
      by (cases "cap_obj c") (simp_all add: note_cap_removed_def)
    have "release_action_of c \<noteq> DropEndpoint"
      using False by (cases "cap_obj c") (auto simp: release_action_of_def split: option.split)
    then show ?thesis
      by (cases "release_action_of c") (simp_all add: teardown_cap_def n R(2) dealloc_frame_resources(2))
  qed
qed

lemma foldl_resources:
  assumes "\<And>k x. resources_only k (f k x)"
  shows "resources_only k (foldl f k xs)"
  using assms by (induction xs arbitrary: k) (auto intro: resources_refl resources_trans)

lemma teardown_resources:
  "resources_only k (teardown k p bf)"
  "k_endpoints (teardown k p bf) = foldl (\<lambda>es c. note_cap_removed es c True) (k_endpoints k) (ct_iter (p_caps p))"
proof -
  have u: "resources_only k (unmap l4 k va)" "k_endpoints (unmap l4 k va) = k_endpoints k" for k l4 va
    by (simp_all add: unmap_def resources_parts)
  have b: "resources_only k (teardown_boot l4 k e)" "k_endpoints (teardown_boot l4 k e) = k_endpoints k" for k l4 e
    unfolding teardown_boot_def
    by (rule resources_trans[OF u(1) dealloc_frame_resources(1)], simp only: u(2) dealloc_frame_resources(2))
  have e: "k_endpoints (foldl (unmap l4) k xs) = k_endpoints k" for l4 k xs
    by (induction xs arbitrary: k) (simp_all add: u)
  have eb: "k_endpoints (foldl (teardown_boot l4) k xs) = k_endpoints k" for l4 k xs
    by (induction xs arbitrary: k) (simp_all add: b)
  have ec: "k_endpoints (foldl teardown_cap k xs) = foldl (\<lambda>es c. note_cap_removed es c True) (k_endpoints k) xs" for k xs
    by (induction xs arbitrary: k) (simp_all add: teardown_cap_resources)
  show "resources_only k (teardown k p bf)" unfolding teardown_def Let_def
    by (rule resources_trans[OF resources_trans[OF foldl_resources[OF u(1)]
          foldl_resources[OF teardown_cap_resources(1)]] foldl_resources[OF b(1)]])
  show "k_endpoints (teardown k p bf) = foldl (\<lambda>es c. note_cap_removed es c True) (k_endpoints k) (ct_iter (p_caps p))"
    unfolding teardown_def Let_def by (simp only: e eb ec) (simp add: drain_def ct_iter_def)
qed

text \<open>A queue somebody waits in is not freed.\<close>

lemma note_removed_waiters:
  assumes "wq_rep (ep_queue (es ! i)) ls xs"
  shows "wq_rep (ep_queue (foldl (\<lambda>es c. note_cap_removed es c True) es cs ! i)) ls xs \<and>
    (xs \<noteq> [] \<longrightarrow> ep_in_use (foldl (\<lambda>es c. note_cap_removed es c True) es cs ! i) = ep_in_use (es ! i) \<and>
       ep_queue (foldl (\<lambda>es c. note_cap_removed es c True) es cs ! i) = ep_queue (es ! i))"
  using assms
proof (induction cs arbitrary: es)
  case (Cons c cs)
  let ?es = "note_cap_removed es c True"
  have "wq_rep (ep_queue (?es ! i)) ls xs \<and>
      (xs \<noteq> [] \<longrightarrow> ep_in_use (?es ! i) = ep_in_use (es ! i) \<and> ep_queue (?es ! i) = ep_queue (es ! i))"
  proof (cases "\<exists>j. cap_obj c = Endpoint j")
    case True
    then obtain j where j: "cap_obj c = Endpoint j" by blast
    let ?e = "remove_cap (es ! j) (cap_rights c)"
    have q: "ep_queue ?e = ep_queue (es ! j)" "ep_in_use ?e = ep_in_use (es ! j)" by (simp_all add: remove_cap_def Let_def)
    have "is_unreferenced ?e \<longrightarrow> wq_is_empty (ep_queue (es ! j))" using q by (simp add: is_unreferenced_def)
    then show ?thesis
      using Cons.prems wq_rep_unique[OF Cons.prems] q
      by (auto simp: note_cap_removed_def j Let_def nth_list_update_cases ep_empty_def intro: wq_rep_empty)
  next
    case False
    then have "?es = es" by (cases "cap_obj c") (simp_all add: note_cap_removed_def)
    then show ?thesis using Cons.prems by simp
  qed
  then show ?case using Cons.IH[of ?es] by simp
qed simp

lemma note_removed_unused:
  assumes "\<not> ep_in_use (es ! i) \<longrightarrow> ep_senders (es ! i) = 0 \<and> ep_receivers (es ! i) = 0"
    and "\<not> ep_in_use (foldl (\<lambda>es c. note_cap_removed es c True) es cs ! i)"
  shows "ep_senders (foldl (\<lambda>es c. note_cap_removed es c True) es cs ! i) = 0 \<and>
    ep_receivers (foldl (\<lambda>es c. note_cap_removed es c True) es cs ! i) = 0"
  using assms
proof (induction cs arbitrary: es)
  case (Cons c cs)
  have "\<not> ep_in_use (note_cap_removed es c True ! i) \<longrightarrow>
      ep_senders (note_cap_removed es c True ! i) = 0 \<and> ep_receivers (note_cap_removed es c True ! i) = 0"
    using Cons.prems(1)
    by (cases "cap_obj c") (auto simp: note_cap_removed_def remove_cap_def ep_empty_def Let_def nth_list_update_cases)
  then show ?case using Cons.IH Cons.prems(2) by simp
qed simp

section \<open>The whole of \<open>on_exit\<close>\<close>

lemma refs_without_replies: "refs r i (mset (filter (Not \<circ> is_reply) cs)) = refs r i (mset cs)"
  by (induction cs) (auto simp: is_reply_def reaches_def)

lemma exit_finish:
  assumes "dying me k Q (mset (filter (Not \<circ> is_reply) cs))"
    and "\<And>i. i < MAX_ENDPOINTS \<Longrightarrow> Q i \<noteq> [] \<Longrightarrow>
      0 < refs (if wq_are_senders (ep_queue (k_endpoints k ! i)) then RIGHT_RECV else RIGHT_SEND) i (all_caps k)"
    and "cur = k_current_slot k ! me" "resources_only k k6"
    and "k_endpoints k6 = foldl (\<lambda>es c. note_cap_removed es c True) (k_endpoints k) cs"
    and "k7 = (set_slot k6 cur slot_empty)\<lparr>k_links := (k_links k6)[cur := None]\<rparr>"
  obtains k8 where "remove_from_core_queue k7 me cur = Some k8" "ipc_inv k8 Q" "homed k me cur"
    "k8 = k7\<lparr>k_queues := k_queues k8\<rparr>" "cur < MAX_PROCESSES" "state_of k cur = Running"
proof -
  obtain p where p: "ipc_inv_at {} (set_current k me (Some p)) Q"
    "all_caps (set_current k me (Some p)) = all_caps k + mset (filter (Not \<circ> is_reply) cs)"
    "me < MAX_CORES" "k_current k ! me = None" "length (k_table k) = MAX_PROCESSES" "tables_ok k"
    using dyingE[OF assms(1)] .
  let ?s = "set_current k me (Some p)"
  note V = ipc_inv_atD[OF p(1)]
  note R = resources_onlyD[OF assms(4)]
  have k7: "k_table k7 = (k_table k)[cur := slot_empty]" "k_current k7 = k_current k"
    "k_current_slot k7 = k_current_slot k" "k_queues k7 = k_queues k" "k_links k7 = (k_links k)[cur := None]"
    "k_endpoints k7 = k_endpoints k6"
    by (simp_all add: assms(6) set_slot_def R)
  obtain k8 where k8: "remove_from_core_queue k7 me cur = Some k8" "sched_wf k8" "k8 = k7\<lparr>k_queues := k_queues k8\<rparr>"
    "cur < MAX_PROCESSES" "state_of k cur = Running" "sl_process (slot_of k cur) = None" "homed k me cur"
    using exit_wf[OF V(1) p(3,4) assms(3) k7(1-4)] .
  have f: "k_table k8 = (k_table k)[cur := slot_empty]" "k_current k8 = k_current k" "k_links k8 = (k_links k)[cur := None]"
    "k_endpoints k8 = foldl (\<lambda>es c. note_cap_removed es c True) (k_endpoints k) cs"
    by (subst k8(3), simp add: k7 assms(5))+
  have sl: "slot_of k8 t = (if t = cur then slot_empty else slot_of k t)" for t
    using k8(4) p(5) by (simp add: f nth_list_update_cases)
  have a: "all_caps k8 = all_caps k"
    using all_caps_slot[of cur k slot_empty] k8(4,6) p(5) f(1,2) by (simp add: all_caps_def slot_empty_def)
  have b: "is_blocked k8 t = is_blocked k t" for t using k8(5) by (simp add: is_blocked_def sl slot_empty_def)
  have ids: "ids_ok (mset cs)" "ids_ok (all_caps k)"
    using V(4) by (auto simp: ids_ok_def p(2) is_reply_def)
  have "counts_ok (k_endpoints k) (mset cs + all_caps k)"
    using V(3) unfolding counts_ok_def p(2) refs_union refs_without_replies by (simp add: add.commute)
  then have counts: "counts_ok (k_endpoints k8) (all_caps k8)"
    unfolding f(4) a
    by (rule remove_all_caps[OF _ ids(1)])
  note D = queues_okD[OF V(5), simplified]
  have ncur: "cur \<notin> set (Q i)" if "i < MAX_ENDPOINTS" for i
    using D(3)[OF that, of cur] k8(5) by (auto simp: is_blocked_def)
  have rep: "wq_rep (ep_queue (k_endpoints k ! i)) (k_links k8) (Q i)" if "i < MAX_ENDPOINTS" for i
    using D(1)[OF that] ncur[OF that] linked_update_other[of cur "Q i" "k_links k" None]
    by (simp add: wq_rep_def f(3))
  note N = note_removed_waiters[OF rep, of _ cs, folded f(4)]
  have "queues_ok {} k8 Q"
    unfolding queues_ok_def
  proof (intro conjI allI impI ballI)
    show "length (k_links k8) = MAX_PROCESSES" using V(5) by (simp add: f(3) queues_ok_def)
  next
    fix i
    assume i: "i < MAX_ENDPOINTS"
    show "wq_rep (ep_queue (k_endpoints k8 ! i)) (k_links k8) (Q i)" using N[OF i] by blast
    show "is_blocked k8 t \<or> t \<in> {}" if "t \<in> set (Q i)" for t using D(3)[OF i that] b by simp
    show "ep_in_use (k_endpoints k8 ! i)" if "Q i \<noteq> []" using N[OF i] D(4)[OF i that] that by simp
    show "served (k_endpoints k8 ! i)" if q: "Q i \<noteq> []"
      using N[OF i] q assms(2)[OF i q] counts i a by (simp add: served_def counts_ok_def split: if_splits)
    show "ep_senders (k_endpoints k8 ! i) = 0" "ep_receivers (k_endpoints k8 ! i) = 0"
      if "\<not> ep_in_use (k_endpoints k8 ! i)"
      using note_removed_unused[of "k_endpoints k" i cs] D(6)[OF i] that unfolding f(4) by blast+
    show "set (Q i) \<inter> set (Q j) = {}" if "j < MAX_ENDPOINTS" "j \<noteq> i" for j using D(5)[OF i that] .
  qed
  moreover have "replies_ok {} k8 Q"
  proof -
    have "tally (reply_to u) k8 \<le> tally (reply_to u) ?s \<and> tally (reply_to u) ?s \<le> 1" for u
      using V(6) by (simp add: a p(2) replies_ok_def)
    then have "tally (reply_to u) k8 \<le> 1 \<and> (tally (reply_to u) k8 = 1 \<longrightarrow> tally (reply_to u) ?s = 1)" for u
      by (intro conjI impI) (use le_trans in blast, use le_antisym in metis)
    then show ?thesis using V(6) b unfolding replies_ok_def by simp
  qed
  moreover have "tables_ok k8"
  proof -
    have "tables_ok (k\<lparr>k_table := (k_table k)[cur := slot_empty]\<rparr>)"
      by (rule tables_ok_slot[OF p(6)]) (simp add: slot_empty_def)
    then show ?thesis by (simp add: tables_ok_def f)
  qed
  ultimately have "ipc_inv k8 Q" using k8(2) counts ids(2) by (simp add: ipc_inv_def ipc_inv_at_def a)
  then show ?thesis using that k8(1,3,4,5,7) by blast
qed

lemma on_exit_ends:
  assumes "ipc_inv k Q" "me < MAX_CORES" "k_current k ! me = Some p"
  obtains pos k' where "on_exit k me = Some (pos, k')"
    "ipc_inv k' (emptied (stranded_by p (set_current k me None)) Q)"
    "k_current k' ! me = None" "state_of k' (k_current_slot k ! me) = Empty"
    "\<And>t. t \<noteq> k_current_slot k ! me \<Longrightarrow>
       state_of k' t = (if t \<in> woken_by p (set_current k me None) Q then Ready else state_of k t)"
    "\<And>t. frames_ok k \<Longrightarrow> t \<in> woken_by p (set_current k me None) Q \<Longrightarrow>
       status_at k' (sl_rsp (slot_of k' t)) = IPC_PEER_DIED"
proof -
  define cur where "cur = k_current_slot k ! me"
  define k1 where "k1 = set_current k me None"
  define k2 where "k2 = reclaim_lent_caps k1 (p_caps p) cur"
  define k3 where "k3 = reap_dying k2 (p_caps p)"
  define k4 where "k4 = snd (clear_origins_naming k3 cur)"
  define k5 where "k5 = teardown k4 p (sl_boot_frames (slot_of k4 cur))"
  define k6 where "k6 = k5\<lparr>k_alloc := destroy_address_space (k_mem k5) (k_alloc k5) (p_l4 p)\<rparr>"
  define k7 where "k7 = (set_slot k6 cur slot_empty)\<lparr>k_links := (k_links k6)[cur := None]\<rparr>"
  let ?cs = "ct_iter (p_caps p)"
  note I = ipc_inv_atD[OF assms(1)[unfolded ipc_inv_def]]
  have S: "stranded_by p k2 = stranded_by p k1" "woken_by p k2 Q = woken_by p k1 Q" if "settles k1 {} k2"
  proof -
    show e: "stranded_by p k2 = stranded_by p k1"
      unfolding fun_eq_iff stranded_by_def last_holder_def settlesD(8)[OF that] by blast
    show "woken_by p k2 Q = woken_by p k1 Q" by (simp add: woken_by_def e)
  qed
  have d1: "dying me k1 Q (mset ?cs)" unfolding k1_def by (rule dying_start[OF assms])
  have d2: "dying me k2 Q (mset ?cs)" "settles k1 {} k2"
    using reclaim_all_dying[OF d1] by (simp_all add: k2_def reclaim_lent_caps_def)
  define Q' where "Q' = emptied (stranded_by p k1) Q"
  define W where "W = woken_by p k1 Q"
  let ?D = "mset (filter (Not \<circ> is_reply) ?cs)"
  have d3: "dying me k3 Q' ?D" "settles k2 W k3"
    using reap_dying_settles[OF d2(1), of] S[OF d2(2)] by (simp_all add: k3_def Q'_def W_def)
  have ok3: "tables_ok k3" using dyingE[OF d3(1)] by metis
  note C = clear_origins_neutral[OF k4_def[symmetric] ok3]
  have d4: "dying me k4 Q' ?D" "settles k3 {} k4" using dying_neutral[OF d3(1) C] by blast+
  have s24: "settles k1 W k4" using settles_trans[OF settles_trans[OF d2(2) d3(2)] d4(2)] by simp
  have cs: "k_current_slot k4 ! me = cur" using settlesD(4)[OF s24] by (simp add: k1_def cur_def)
  have r6: "resources_only k4 k6" unfolding k6_def k5_def
    by (rule resources_trans[OF teardown_resources(1) resources_parts(2)])
  have e6: "k_endpoints k6 = foldl (\<lambda>es c. note_cap_removed es c True) (k_endpoints k4) ?cs"
    by (simp add: k6_def k5_def teardown_resources(2))
  have served: "0 < refs (if wq_are_senders (ep_queue (k_endpoints k4 ! i)) then RIGHT_RECV else RIGHT_SEND) i (all_caps k4)"
    if i: "i < MAX_ENDPOINTS" and q: "Q' i \<noteq> []" for i
  proof -
    have "\<not> last_holder (mset ?cs) (all_caps k1) i" using i q by (auto simp: Q'_def emptied_def stranded_by_def)
    then have n: "\<not> last_holder ?D (all_caps k4) i"
      by (simp only: last_holder_def refs_without_replies settlesD(8)[OF s24]) simp
    obtain p4 where p4: "ipc_inv_at {} (set_current k4 me (Some p4)) Q'" using dyingE[OF d4(1)] by metis
    have "served (k_endpoints k4 ! i)" using queues_okD(4)[OF ipc_inv_atD(5)[OF p4] i q] by simp
    then show ?thesis using n dying_counts[OF d4(1) i] by (auto simp: served_def last_holder_def split: if_splits)
  qed
  obtain k8 where k8: "remove_from_core_queue k7 me cur = Some k8" "ipc_inv k8 Q'" "homed k4 me cur"
    "k8 = k7\<lparr>k_queues := k_queues k8\<rparr>" "cur < MAX_PROCESSES" "state_of k4 cur = Running"
    using exit_finish[OF d4(1) served cs[symmetric] r6 e6 k7_def] .
  have "homed k me cur" using k8(3) settlesD(5)[OF s24] by (simp add: homed_def k1_def)
  then obtain pos where pos: "core_position k me cur = Some pos" using core_position_iff[of k me cur] by blast
  have "on_exit k me = Some (pos, k8)"
    using pos assms(3) k8(1)
    by (simp add: on_exit_def Let_def k1_def k2_def k3_def k4_def k5_def k6_def k7_def cur_def)
  moreover have f: "k_table k8 = (k_table k4)[cur := slot_empty]" "k_current k8 = k_current k4" "k_frames k8 = k_frames k4"
    by (subst k8(4), simp add: k7_def set_slot_def resources_onlyD[OF r6])+
  have len: "length (k_table k4) = MAX_PROCESSES" using settlesD(1)[OF s24] I(7) by (simp add: k1_def)
  have sl: "slot_of k8 t = (if t = cur then slot_empty else slot_of k4 t)" for t
    using k8(5) len by (simp add: f nth_list_update_cases)
  have "k_current k8 ! me = None" using settlesD(3)[OF s24] assms(2) I(8) by (simp add: f k1_def)
  moreover have "state_of k8 cur = Empty" by (simp add: sl slot_empty_def)
  moreover have "state_of k8 t = (if t \<in> W then Ready else state_of k t)" if "t \<noteq> cur" for t
    using that settlesD(6)[OF s24, of t] by (simp add: sl k1_def)
  moreover have "status_at k8 (sl_rsp (slot_of k8 t)) = IPC_PEER_DIED" if "frames_ok k" "t \<in> W" for t
  proof -
    have "t \<noteq> cur" using k8(6) settlesD(6)[OF s24, of cur] that(2) by auto
    moreover have "frames_ok k1" using that(1) by (simp add: k1_def frames_ok_def)
    ultimately show ?thesis using settlesD(7,11)[OF s24] that(2) by (simp add: sl f)
  qed
  ultimately show ?thesis using that k8(2) by (simp add: Q'_def W_def k1_def cur_def)
qed

section \<open>What a death promises\<close>

text \<open>
  C19. A death strands nobody and disturbs nobody else.  When the process running on a core exits,
  the operation never panics; the IPC invariant still holds; the slot is free again and the core
  has nothing to run; exactly the peers that depended on the dead process are made runnable, with
  the dead-peer status in their result register: the callers it owed a reply, and the waiters of an
  endpoint for which it was the last able to send or the last able to receive.  Every other
  process keeps its state, and every other wait queue its waiters in order.
\<close>
theorem death_wakes_stranded:
  assumes "ipc_inv k Q" "frames_ok k" "me < MAX_CORES" "k_current k ! me = Some p"
    and "cur = k_current_slot k ! me" "survivors = all_caps (set_current k me None)"
  shows "\<exists>pos k'. on_exit k me = Some (pos, k') \<and>
    ipc_inv k' (\<lambda>i. if i < MAX_ENDPOINTS \<and> last_holder (mset (ct_iter (p_caps p))) survivors i then [] else Q i) \<and>
    state_of k' cur = Empty \<and> k_current k' ! me = None \<and>
    (\<forall>t. t \<noteq> cur \<longrightarrow>
      (if t \<in> owed (ct_iter (p_caps p)) \<or>
          (\<exists>i < MAX_ENDPOINTS. t \<in> set (Q i) \<and> last_holder (mset (ct_iter (p_caps p))) survivors i)
       then state_of k' t = Ready \<and> status_at k' (sl_rsp (slot_of k' t)) = IPC_PEER_DIED
       else state_of k' t = state_of k t))"
proof -
  let ?k1 = "set_current k me None"
  obtain pos k' where E: "on_exit k me = Some (pos, k')" "ipc_inv k' (emptied (stranded_by p ?k1) Q)"
    "k_current k' ! me = None" "state_of k' cur = Empty"
    "\<And>t. t \<noteq> cur \<Longrightarrow> state_of k' t = (if t \<in> woken_by p ?k1 Q then Ready else state_of k t)"
    "\<And>t. frames_ok k \<Longrightarrow> t \<in> woken_by p ?k1 Q \<Longrightarrow> status_at k' (sl_rsp (slot_of k' t)) = IPC_PEER_DIED"
    using on_exit_ends[OF assms(1,3,4), folded assms(5)] by blast
  have s: "stranded_by p ?k1 i \<longleftrightarrow> i < MAX_ENDPOINTS \<and> last_holder (mset (ct_iter (p_caps p))) survivors i" for i
    by (simp add: stranded_by_def assms(6))
  have w: "t \<in> woken_by p ?k1 Q \<longleftrightarrow> t \<in> owed (ct_iter (p_caps p)) \<or>
      (\<exists>i < MAX_ENDPOINTS. t \<in> set (Q i) \<and> last_holder (mset (ct_iter (p_caps p))) survivors i)" for t
    by (auto simp: woken_by_def s)
  have "emptied (stranded_by p ?k1) Q =
      (\<lambda>i. if i < MAX_ENDPOINTS \<and> last_holder (mset (ct_iter (p_caps p))) survivors i then [] else Q i)"
    by (simp add: emptied_def s fun_eq_iff)
  then show ?thesis using E(1-4) E(5,6)[unfolded w] assms(2)
    by (intro exI[of _ pos] exI[of _ k'] conjI allI impI) auto
qed

lemma death_wakes_stranded_witness:
  "\<exists>pos k'. on_exit meeting 0 = Some (pos, k') \<and> state_of k' 0 = Empty \<and> state_of k' 1 = Ready \<and>
     state_of k' 2 = Ready \<and> status_at k' (sl_rsp (slot_of k' 2)) = IPC_PEER_DIED \<and> state_of k' 3 = Empty"
proof -
  let ?cs = "[cap_of (Endpoint 0) (side True), cap_of (EventSource 1) RIGHT_READ, reply_cap 2]"
  have p: "k_current meeting ! 0 = Some (proc_with ?cs)" "k_current_slot meeting ! 0 = 0"
    by (simp_all add: meeting_with_def kernel_init_def MAX_CORES_def)
  have cs: "ct_iter (p_caps (proc_with ?cs)) = ?cs" by (simp add: proc_with_def)
  have "all_caps (set_current meeting 0 None) = {#cap_of (Endpoint 0) (side False)#}"
    by (simp add: all_caps_def meeting_with_def set_current_def slot_empty_def proc_with_def)
  then have l: "last_holder (mset ?cs) (all_caps (set_current meeting 0 None)) 0"
    by (simp add: last_holder_def reaches_def cap_of_def side_def has_right_def right_defs)
  have o: "2 \<in> owed ?cs" "3 \<notin> owed ?cs" by (simp_all add: owed_def reply_cap_def cap_of_def)
  have n: "3 \<notin> set (meeting_queues i)" "1 \<in> set (meeting_queues 0)" for i by (simp_all add: meeting_queues_def)
  have st: "state_of meeting 3 = Empty" by (simp add: meeting_with_def slot_empty_def)
  obtain pos k' where E: "on_exit meeting 0 = Some (pos, k')" "state_of k' 0 = Empty"
    and T: "\<forall>t. t \<noteq> 0 \<longrightarrow>
      (if t \<in> owed ?cs \<or>
          (\<exists>i < MAX_ENDPOINTS. t \<in> set (meeting_queues i) \<and> last_holder (mset ?cs) (all_caps (set_current meeting 0 None)) i)
       then state_of k' t = Ready \<and> status_at k' (sl_rsp (slot_of k' t)) = IPC_PEER_DIED
       else state_of k' t = state_of meeting t)"
    using death_wakes_stranded[OF meeting_inv meeting_frames meeting_running(1) p(1) p(2)[symmetric] refl]
    unfolding cs by blast
  have c: "1 \<in> owed ?cs \<or> (\<exists>i < MAX_ENDPOINTS. 1 \<in> set (meeting_queues i) \<and>
      last_holder (mset ?cs) (all_caps (set_current meeting 0 None)) i)"
    by (intro disjI2 exI[of _ 0] conjI l n(2)) (simp add: MAX_ENDPOINTS_def)
  have "state_of k' 1 = Ready" using spec[OF T, of 1, unfolded if_P[OF c]] by simp
  moreover have "state_of k' 2 = Ready" "status_at k' (sl_rsp (slot_of k' 2)) = IPC_PEER_DIED"
    using spec[OF T, of 2] o(1) by simp_all
  moreover have "state_of k' 3 = Empty" using spec[OF T, of 3] o(2) n(1) st by simp
  ultimately show ?thesis using E by blast
qed


text \<open>The holder dies on core 0 while its lender, slot 1, runs on core 1 with slot 5 held open.\<close>

definition lending :: kernel where
  "lending = (meeting_with False)\<lparr>k_current_slot := [0, 1] @ replicate 14 0,
     k_table := replicate 4 (slot_empty\<lparr>sl_state := Running\<rparr>),
     k_current := [None, Some (process_new\<lparr>p_caps := reserve ct_new 5\<rparr>)] @ replicate 14 None\<rparr>"


end
