(* ===== verification/Elf.thy ===== *)
theory Elf
  imports Prelude
begin

text \<open>
  The ELF64 validator, \<open>kernel/src/elf.rs\<close>: \<open>parse\<close> over a byte slice, segment by segment,
  with every rejection as an error value.  The lemmas show what an accepted image guarantees
  to the loader that maps it, and that acceptance describes exactly the loadable headers of
  the file.
\<close>

section \<open>Data\<close>

datatype elf_error = TooSmall | BadMagic | BadClass | BadData | BadVersion | NotExec | BadMachine
  | BadPhEntSize | TooManyPhdrs | PhdrsOutOfBounds | NoLoadable | DynamicInterp | SegmentFileRange
  | SegmentSizes | SegmentUnaligned | SegmentOverflow | SegmentOutOfWindow | SegmentOverlap
  | BadFlags | WxViolation | TooLarge | BadEntry

primrec as_str :: "elf_error \<Rightarrow> string" where
  "as_str TooSmall = ''elf: file too small''"
| "as_str BadMagic = ''elf: bad magic''"
| "as_str BadClass = ''elf: not 64-bit''"
| "as_str BadData = ''elf: not little-endian''"
| "as_str BadVersion = ''elf: bad version''"
| "as_str NotExec = ''elf: not ET_EXEC (link with -no-pie)''"
| "as_str BadMachine = ''elf: not x86-64''"
| "as_str BadPhEntSize = ''elf: bad phentsize''"
| "as_str TooManyPhdrs = ''elf: too many program headers''"
| "as_str PhdrsOutOfBounds = ''elf: phdr table out of bounds''"
| "as_str NoLoadable = ''elf: no loadable segment''"
| "as_str DynamicInterp = ''elf: dynamic linking unsupported''"
| "as_str SegmentFileRange = ''elf: segment file range out of bounds''"
| "as_str SegmentSizes = ''elf: p_filesz exceeds p_memsz''"
| "as_str SegmentUnaligned = ''elf: segment vaddr not page-aligned''"
| "as_str SegmentOverflow = ''elf: segment address overflow''"
| "as_str SegmentOutOfWindow = ''elf: segment outside image window''"
| "as_str SegmentOverlap = ''elf: segments overlap''"
| "as_str BadFlags = ''elf: bad segment flags''"
| "as_str WxViolation = ''elf: write+execute segment''"
| "as_str TooLarge = ''elf: image too large''"
| "as_str BadEntry = ''elf: entry not in an executable segment''"

record load_seg =
  ls_vaddr :: u64
  ls_offset :: u64
  ls_filesz :: u64
  ls_memsz :: u64
  ls_flags :: u32

text \<open>The segment array holds its entries as a prefix, in file order.\<close>

record image =
  im_entry :: u64
  im_segs :: "load_seg list"

text \<open>The page-table flags the loader can ask for.\<close>

record page_flags =
  pf_present :: bool
  pf_user :: bool
  pf_writable :: bool
  pf_no_execute :: bool

definition PAGE :: nat where "PAGE = 4096"
definition ELF_MAGIC :: "u8 list" where "ELF_MAGIC = [0x7f, 0x45, 0x4C, 0x46]"
definition PT_LOAD :: u32 where "PT_LOAD = 1"
definition PT_INTERP :: u32 where "PT_INTERP = 3"
definition EHDR_SIZE :: nat where "EHDR_SIZE = 64"
definition PHDR_SIZE :: nat where "PHDR_SIZE = 56"
definition PF_X :: u32 where "PF_X = 1"
definition PF_W :: u32 where "PF_W = 2"
definition PF_R :: u32 where "PF_R = 4"
definition MAX_PHDRS :: nat where "MAX_PHDRS = 16"
definition MAX_LOAD_SEGS :: nat where "MAX_LOAD_SEGS = 16"

definition seg_page_flags :: "load_seg \<Rightarrow> page_flags" where
  "seg_page_flags s = \<lparr>pf_present = True, pf_user = True,
     pf_writable = (ls_flags s AND PF_W \<noteq> 0), pf_no_execute = (ls_flags s AND PF_X = 0)\<rparr>"

definition pages :: "load_seg \<Rightarrow> nat" where
  "pages s = div_ceil (unat (ls_memsz s)) PAGE"

definition image_bytes :: "image \<Rightarrow> u64" where
  "image_bytes im = sum_list (map ls_memsz (im_segs im))"

section \<open>Parsing\<close>

text \<open>One accepted PT_LOAD header: every check of the loop body after the fields are read.\<close>

definition check_load ::
  "nat \<Rightarrow> u64 \<Rightarrow> u64 \<Rightarrow> u64 \<Rightarrow> load_seg \<Rightarrow> load_seg list \<times> u64 \<Rightarrow> elf_error + (load_seg list \<times> u64)" where
  "check_load len image_base image_end max_image_pages seg st =
     (let (segs, total_pages) = st; vaddr = ls_vaddr seg; memsz = ls_memsz seg; flags = ls_flags seg in
      if memsz = 0 then Inr st
      else if ls_filesz seg > memsz then Inl SegmentSizes
      else ok_or (checked_add (ls_offset seg) (ls_filesz seg)) SegmentFileRange (\<lambda>file_end.
        if unat file_end > len then Inl SegmentFileRange
        else if unat vaddr mod PAGE \<noteq> 0 then Inl SegmentUnaligned
        else ok_or (checked_add vaddr memsz) SegmentOverflow (\<lambda>seg_end.
          if vaddr < image_base \<or> seg_end > image_end then Inl SegmentOutOfWindow
          else if flags AND PF_R = 0 \<or> flags AND NOT (PF_R OR PF_W OR PF_X) \<noteq> 0 then Inl BadFlags
          else if flags AND PF_W \<noteq> 0 \<and> flags AND PF_X \<noteq> 0 then Inl WxViolation
          else if list_ex (\<lambda>prior. vaddr < ls_vaddr prior + ls_memsz prior \<and> ls_vaddr prior < seg_end) segs
            then Inl SegmentOverlap
          else ok_or (checked_add total_pages (of_nat (pages seg))) TooLarge (\<lambda>total.
            if total > max_image_pages then Inl TooLarge
            else Inr (segs @ [seg], total)))))"

definition phdr_step ::
  "u8 list \<Rightarrow> u64 \<Rightarrow> u64 \<Rightarrow> u64 \<Rightarrow> nat \<Rightarrow> nat \<Rightarrow> load_seg list \<times> u64 \<Rightarrow> elf_error + (load_seg list \<times> u64)" where
  "phdr_step bytes image_base image_end max_image_pages phoff i st =
     (let base = phoff + i * PHDR_SIZE in
      ok_or (rd_u32 bytes base) PhdrsOutOfBounds (\<lambda>p_type.
        if p_type = PT_INTERP then Inl DynamicInterp
        else if p_type \<noteq> PT_LOAD then Inr st
        else
          ok_or (rd_u32 bytes (base + 4)) PhdrsOutOfBounds (\<lambda>p_flags.
          ok_or (rd_u64 bytes (base + 8)) PhdrsOutOfBounds (\<lambda>p_offset.
          ok_or (rd_u64 bytes (base + 16)) PhdrsOutOfBounds (\<lambda>p_vaddr.
          ok_or (rd_u64 bytes (base + 32)) PhdrsOutOfBounds (\<lambda>p_filesz.
          ok_or (rd_u64 bytes (base + 40)) PhdrsOutOfBounds (\<lambda>p_memsz.
            check_load (length bytes) image_base image_end max_image_pages
              \<lparr>ls_vaddr = p_vaddr, ls_offset = p_offset, ls_filesz = p_filesz,
               ls_memsz = p_memsz, ls_flags = p_flags\<rparr> st)))))))"

definition entry_ok :: "u64 \<Rightarrow> load_seg list \<Rightarrow> bool" where
  "entry_ok entry segs =
     list_ex (\<lambda>s. ls_flags s AND PF_X \<noteq> 0 \<and> ls_vaddr s \<le> entry \<and> entry < ls_vaddr s + ls_memsz s) segs"

text \<open>The identification bytes and the header fields that must have one fixed value.\<close>

definition check_ident :: "u8 list \<Rightarrow> elf_error + unit" where
  "check_ident bytes =
     (if length bytes < EHDR_SIZE then Inl TooSmall
      else if take 4 bytes \<noteq> ELF_MAGIC then Inl BadMagic
      else if bytes ! 4 \<noteq> 2 then Inl BadClass
      else if bytes ! 5 \<noteq> 1 then Inl BadData
      else if bytes ! 6 \<noteq> 1 then Inl BadVersion
      else ok_or (rd_u16 bytes 16) TooSmall (\<lambda>e_type.
        if e_type \<noteq> 2 then Inl NotExec
        else ok_or (rd_u16 bytes 18) TooSmall (\<lambda>e_machine.
          if e_machine \<noteq> 62 then Inl BadMachine
          else ok_or (rd_u32 bytes 20) TooSmall (\<lambda>e_version.
            if e_version \<noteq> 1 then Inl BadVersion else Inr ()))))"

definition parse :: "u8 list \<Rightarrow> u64 \<Rightarrow> u64 \<Rightarrow> u64 \<Rightarrow> elf_error + image" where
  "parse bytes image_base image_end max_image_pages =
     try_in (check_ident bytes) (\<lambda>_.
     ok_or (rd_u64 bytes 24) TooSmall (\<lambda>entry.
     ok_or (rd_u64 bytes 32) TooSmall (\<lambda>phoff.
     ok_or (rd_u16 bytes 54) TooSmall (\<lambda>phentsize.
     ok_or (rd_u16 bytes 56) TooSmall (\<lambda>phnum.
       if unat phentsize \<noteq> PHDR_SIZE then Inl BadPhEntSize
       else if unat phnum > MAX_PHDRS then Inl TooManyPhdrs
       else ok_or (checked_mul (ucast phnum) (of_nat PHDR_SIZE :: u64)) PhdrsOutOfBounds (\<lambda>sz.
       ok_or (checked_add phoff sz) PhdrsOutOfBounds (\<lambda>ph_table.
       if unat ph_table > length bytes then Inl PhdrsOutOfBounds
       else try_in (try_fold (phdr_step bytes image_base image_end max_image_pages (unat phoff))
                     [0..<unat phnum] ([], 0)) (\<lambda>(segs, total_pages).
         if segs = [] then Inl NoLoadable
         else if \<not> entry_ok entry segs then Inl BadEntry
         else Inr \<lparr>im_entry = entry, im_segs = segs\<rparr>))))))))"


section \<open>What acceptance means\<close>

text \<open>
  The fields of the file as the ELF format lays them out, read independently of the parser.
\<close>

definition field :: "u8 list \<Rightarrow> nat \<Rightarrow> nat \<Rightarrow> nat" where
  "field b off n = le_nat (take n (drop off b))"

definition phdr_type :: "u8 list \<Rightarrow> nat \<Rightarrow> nat \<Rightarrow> u32" where
  "phdr_type b phoff i = of_nat (field b (phoff + i * PHDR_SIZE) 4)"

definition phdr_at :: "u8 list \<Rightarrow> nat \<Rightarrow> nat \<Rightarrow> load_seg" where
  "phdr_at b phoff i =
     (let base = phoff + i * PHDR_SIZE in
      \<lparr>ls_vaddr = of_nat (field b (base + 16) 8), ls_offset = of_nat (field b (base + 8) 8),
       ls_filesz = of_nat (field b (base + 32) 8), ls_memsz = of_nat (field b (base + 40) 8),
       ls_flags = of_nat (field b (base + 4) 4)\<rparr>)"

text \<open>The headers that describe memory: PT_LOAD with a nonzero size, in file order.\<close>

definition loadable :: "u8 list \<Rightarrow> nat \<Rightarrow> nat list \<Rightarrow> load_seg list" where
  "loadable b phoff is =
     map (phdr_at b phoff) (filter (\<lambda>i. phdr_type b phoff i = PT_LOAD \<and> ls_memsz (phdr_at b phoff i) \<noteq> 0) is)"

text \<open>What one segment must satisfy on its own.\<close>

definition seg_ok :: "nat \<Rightarrow> u64 \<Rightarrow> u64 \<Rightarrow> load_seg \<Rightarrow> bool" where
  "seg_ok len image_base image_end s \<longleftrightarrow>
     ls_memsz s \<noteq> 0 \<and> ls_filesz s \<le> ls_memsz s \<and>
     unat (ls_offset s) + unat (ls_filesz s) \<le> len \<and> unat (ls_vaddr s) mod PAGE = 0 \<and>
     image_base \<le> ls_vaddr s \<and> unat (ls_vaddr s) + unat (ls_memsz s) \<le> unat image_end \<and>
     bit (ls_flags s) 2 \<and> \<not> (bit (ls_flags s) 1 \<and> bit (ls_flags s) 0) \<and>
     (\<forall>k. bit (ls_flags s) k \<longrightarrow> k < 3)"

definition seg_bytes :: "load_seg \<Rightarrow> nat set" where
  "seg_bytes s = {unat (ls_vaddr s) ..< unat (ls_vaddr s) + unat (ls_memsz s)}"

definition seg_pages :: "load_seg \<Rightarrow> nat set" where
  "seg_pages s = {unat (ls_vaddr s) div PAGE ..< unat (ls_vaddr s) div PAGE + pages s}"

lemma flag_bits:
  "w AND PF_X = 0 \<longleftrightarrow> \<not> bit w 0" "w AND PF_W = 0 \<longleftrightarrow> \<not> bit w 1" "w AND PF_R = 0 \<longleftrightarrow> \<not> bit w 2"
  using and_shl1_eq_0[of 0 w] and_shl1_eq_0[of 1 w] and_shl1_eq_0[of 2 w]
  by (simp_all add: PF_X_def PF_W_def PF_R_def shl1_def)

lemma flag_mask: "w AND NOT (PF_R OR PF_W OR PF_X) = 0 \<longleftrightarrow> (\<forall>k. bit w k \<longrightarrow> k < 3)"
proof -
  have m: "PF_R OR PF_W OR PF_X = mask 3"
    by (simp add: PF_X_def PF_W_def PF_R_def mask_eq_decr_exp)
  have "bit (w AND NOT (mask 3)) k \<longleftrightarrow> bit w k \<and> \<not> k < 3" for k
    by (auto simp: bit_and_iff bit_not_iff bit_mask_iff dest: bit_imp_le_length)
  then show ?thesis unfolding m by (metis bit_0_eq bot_apply bit_eqI bot_bool_def)
qed

lemma pages_le: "pages s \<le> unat (ls_memsz s)"
  unfolding pages_def div_ceil_def PAGE_def by linarith

lemma pages_word: "unat (of_nat (pages s) :: u64) = pages s"
  using pages_le[of s] unat_u64_less[of "ls_memsz s"] by (intro unat_of_nat_id) simp

lemma seg_end_unat:
  assumes "seg_ok len b e p"
  shows "unat (ls_vaddr p + ls_memsz p) = unat (ls_vaddr p) + unat (ls_memsz p)"
    and "unat (ls_vaddr p) + unat (ls_memsz p) < 2 ^ 64"
proof -
  have "unat (ls_vaddr p) + unat (ls_memsz p) \<le> unat e" using assms by (simp add: seg_ok_def)
  then show b: "unat (ls_vaddr p) + unat (ls_memsz p) < 2 ^ 64" using unat_u64_less[of e] by simp
  show "unat (ls_vaddr p + ls_memsz p) = unat (ls_vaddr p) + unat (ls_memsz p)"
    by (rule unat_add_if_less) (use b in simp)
qed

lemma overlap_iff:
  assumes "seg_ok len b e p" and "seg_ok len' b' e' s"
  shows "(ls_vaddr s < ls_vaddr p + ls_memsz p \<and> ls_vaddr p < ls_vaddr s + ls_memsz s) \<longleftrightarrow>
    seg_bytes s \<inter> seg_bytes p \<noteq> {}"
proof -
  have "0 < unat (ls_memsz p)" "0 < unat (ls_memsz s)"
    using assms by (simp_all add: seg_ok_def unat_gt_0)
  then show ?thesis
    by (auto simp: word_less_nat_alt seg_end_unat(1)[OF assms(1)] seg_end_unat(1)[OF assms(2)] seg_bytes_def)
qed


lemma add_within:
  "(\<exists>c. checked_add a b = Some c \<and> P c) \<longleftrightarrow> unat a + unat b < 2 ^ LENGTH('a) \<and> P (a + b :: 'a::len word)"
  by (auto simp: checked_add_def)

lemma seg_ok_checks:
  "ls_memsz s \<noteq> 0 \<and> ls_filesz s \<le> ls_memsz s \<and>
   (\<exists>fe. checked_add (ls_offset s) (ls_filesz s) = Some fe \<and> unat fe \<le> len) \<and>
   unat (ls_vaddr s) mod PAGE = 0 \<and>
   (\<exists>se. checked_add (ls_vaddr s) (ls_memsz s) = Some se \<and> b \<le> ls_vaddr s \<and> se \<le> e) \<and>
   ls_flags s AND PF_R \<noteq> 0 \<and> ls_flags s AND NOT (PF_R OR PF_W OR PF_X) = 0 \<and>
   \<not> (ls_flags s AND PF_W \<noteq> 0 \<and> ls_flags s AND PF_X \<noteq> 0) \<and> len < 2 ^ 64
   \<longleftrightarrow> seg_ok len b e s \<and> len < 2 ^ 64"
proof -
  have f: "(\<exists>fe. checked_add (ls_offset s) (ls_filesz s) = Some fe \<and> unat fe \<le> len) \<and> len < 2 ^ 64 \<longleftrightarrow>
      unat (ls_offset s) + unat (ls_filesz s) \<le> len \<and> len < 2 ^ 64"
    by (auto simp: add_within unat_add_if_less)
  have v: "(\<exists>se. checked_add (ls_vaddr s) (ls_memsz s) = Some se \<and> b \<le> ls_vaddr s \<and> se \<le> e) \<longleftrightarrow>
      b \<le> ls_vaddr s \<and> unat (ls_vaddr s) + unat (ls_memsz s) \<le> unat e"
    using unat_u64_less[of e] by (auto simp: add_within unat_add_if_less word_le_nat_alt)
  show ?thesis
    unfolding flag_mask flag_bits seg_ok_def using f v by auto
qed

lemma check_load_iff:
  assumes "\<forall>p \<in> set segs. seg_ok len b e p" and "ls_memsz s \<noteq> 0" and "len < 2 ^ 64"
  shows "check_load len b e m s (segs, tot) = Inr st' \<longleftrightarrow>
    seg_ok len b e s \<and> (\<forall>p \<in> set segs. seg_bytes s \<inter> seg_bytes p = {}) \<and>
    unat tot + pages s \<le> unat m \<and> st' = (segs @ [s], tot + of_nat (pages s))"
proof -
  let ?ov = "list_ex (\<lambda>prior. ls_vaddr s < ls_vaddr prior + ls_memsz prior \<and>
      ls_vaddr prior < ls_vaddr s + ls_memsz s) segs"
  have ov: "?ov \<longleftrightarrow> \<not> (\<forall>p \<in> set segs. seg_bytes s \<inter> seg_bytes p = {})" if "seg_ok len b e s"
    unfolding list_ex_iff using overlap_iff[OF bspec[OF assms(1)] that] by blast
  have t: "(\<exists>t. checked_add tot (of_nat (pages s)) = Some t \<and> t \<le> m \<and> st' = (segs @ [s], t)) \<longleftrightarrow>
      unat tot + pages s \<le> unat m \<and> st' = (segs @ [s], tot + of_nat (pages s))"
    using unat_u64_less[of m]
    by (auto simp: add_within unat_add_if_less word_le_nat_alt pages_word)
  have "check_load len b e m s (segs, tot) = Inr st' \<longleftrightarrow>
     (seg_ok len b e s \<and> len < 2 ^ 64) \<and> \<not> ?ov \<and>
     (\<exists>t. checked_add tot (of_nat (pages s)) = Some t \<and> t \<le> m \<and> st' = (segs @ [s], t))"
    unfolding seg_ok_checks[symmetric] check_load_def Let_def prod.case if_not_P[OF assms(2)] ok_or_Inr if_Inl_Inr
    using assms(2,3) checked_add_SomeD[of "ls_vaddr s" "ls_memsz s"] by (auto simp: not_le not_less)
  then show ?thesis using ov t assms(3) by auto
qed


lemma phdr_step_eq:
  assumes "phoff + Suc i * PHDR_SIZE \<le> length b"
  shows "phdr_step b base e m phoff i st =
    (if phdr_type b phoff i = PT_INTERP then Inl DynamicInterp
     else if phdr_type b phoff i \<noteq> PT_LOAD then Inr st
     else check_load (length b) base e m (phdr_at b phoff i) st)"
  using assms
  by (simp add: phdr_step_def phdr_type_def phdr_at_def Let_def ok_or_def rd_u32_def rd_u64_def
      slice_def field_def PHDR_SIZE_def)

lemma check_load_empty: "ls_memsz s = 0 \<Longrightarrow> check_load len b e m s st = Inr st"
  by (simp add: check_load_def split: prod.split)

definition segs_ok :: "nat \<Rightarrow> u64 \<Rightarrow> u64 \<Rightarrow> u64 \<Rightarrow> load_seg list \<Rightarrow> bool" where
  "segs_ok len image_base image_end max_image_pages segs \<longleftrightarrow>
     (\<forall>s \<in> set segs. seg_ok len image_base image_end s) \<and> disjoint_list (map seg_bytes segs) \<and>
     sum_list (map pages segs) \<le> unat max_image_pages"

lemma segs_ok_snoc:
  "segs_ok len b e m (segs @ [s]) \<longleftrightarrow>
     segs_ok len b e m segs \<and> seg_ok len b e s \<and> (\<forall>p \<in> set segs. seg_bytes s \<inter> seg_bytes p = {}) \<and>
     sum_list (map pages segs) + pages s \<le> unat m"
  by (auto simp: segs_ok_def disjoint_list_append)

lemma segs_ok_prefix: "segs_ok len b e m (xs @ ys) \<Longrightarrow> segs_ok len b e m xs"
  by (auto simp: segs_ok_def disjoint_list_append)

lemma phdr_fold_iff:
  assumes "\<forall>i \<in> set is. phoff + Suc i * PHDR_SIZE \<le> length b" and "length b < 2 ^ 64"
    and "segs_ok (length b) base e m segs" and "unat tot = sum_list (map pages segs)"
  shows "(\<exists>tot'. try_fold (phdr_step b base e m phoff) is (segs, tot) = Inr (segs', tot')) \<longleftrightarrow>
    (\<forall>i \<in> set is. phdr_type b phoff i \<noteq> PT_INTERP) \<and>
    segs' = segs @ loadable b phoff is \<and> segs_ok (length b) base e m segs'"
  using assms
proof (induction "is" arbitrary: segs tot)
  case Nil
  then show ?case by (auto simp: loadable_def)
next
  case (Cons i "is")
  note eq = phdr_step_eq[of phoff i b]
  let ?s = "phdr_at b phoff i"
  have bnd: "phoff + Suc i * PHDR_SIZE \<le> length b" using Cons.prems(1) by simp
  consider (interp) "phdr_type b phoff i = PT_INTERP"
    | (skip) "phdr_type b phoff i \<noteq> PT_INTERP" "phdr_type b phoff i \<noteq> PT_LOAD \<or> ls_memsz ?s = 0"
    | (load) "phdr_type b phoff i = PT_LOAD" "phdr_type b phoff i \<noteq> PT_INTERP" "ls_memsz ?s \<noteq> 0"
    by blast
  then show ?case
  proof cases
    case interp
    then show ?thesis using eq[OF bnd] by simp
  next
    case skip
    then have "phdr_step b base e m phoff i (segs, tot) = Inr (segs, tot)"
      using eq[OF bnd] check_load_empty by auto
    moreover have "loadable b phoff (i # is) = loadable b phoff is" using skip by (auto simp: loadable_def)
    ultimately show ?thesis using Cons.IH[OF _ Cons.prems(2-4)] Cons.prems(1) skip(1) by simp
  next
    case load
    have ok: "\<forall>p \<in> set segs. seg_ok (length b) base e p" using Cons.prems(3) by (simp add: segs_ok_def)
    have st: "phdr_step b base e m phoff i (segs, tot) = Inr st' \<longleftrightarrow>
        segs_ok (length b) base e m (segs @ [?s]) \<and> st' = (segs @ [?s], tot + of_nat (pages ?s))" for st'
      using check_load_iff[OF ok load(3) Cons.prems(2)] eq[OF bnd] load(1,2) Cons.prems(3,4)
      by (auto simp: segs_ok_snoc)
    have ld: "loadable b phoff (i # is) = ?s # loadable b phoff is" using load by (simp add: loadable_def)
    show ?thesis
    proof (cases "segs_ok (length b) base e m (segs @ [?s])")
      case True
      then have step: "phdr_step b base e m phoff i (segs, tot) = Inr (segs @ [?s], tot + of_nat (pages ?s))"
        using st by blast
      have "sum_list (map pages (segs @ [?s])) \<le> unat m" using True by (simp add: segs_ok_def)
      then have "unat (tot + of_nat (pages ?s)) = sum_list (map pages (segs @ [?s]))"
        using Cons.prems(4) unat_u64_less[of m] by (subst unat_add_if_less) (simp_all add: pages_word)
      then show ?thesis
        using Cons.IH[OF _ Cons.prems(2) True] Cons.prems(1) step ld load(2) by simp
    next
      case False
      then have "\<not> segs_ok (length b) base e m (segs @ ?s # loadable b phoff is)"
        using segs_ok_prefix[of _ _ _ _ "segs @ [?s]" "loadable b phoff is"] by auto
      moreover have "phdr_step b base e m phoff i (segs, tot) \<noteq> Inr st'" for st'
        using st False by blast
      then obtain er where "phdr_step b base e m phoff i (segs, tot) = Inl er"
        by (cases "phdr_step b base e m phoff i (segs, tot)") auto
      ultimately show ?thesis using ld by auto
    qed
  qed
qed


text \<open>The identification and the fixed header fields of an acceptable file.\<close>

definition ident_ok :: "u8 list \<Rightarrow> bool" where
  "ident_ok b \<longleftrightarrow> EHDR_SIZE \<le> length b \<and> take 7 b = ELF_MAGIC @ [2, 1, 1] \<and>
     field b 16 2 = 2 \<and> field b 18 2 = 62 \<and> field b 20 4 = 1"

lemma field_less: "off + n \<le> length b \<Longrightarrow> field b off n < 256 ^ n"
  using le_nat_less[of "take n (drop off b)"] by (simp add: field_def)

lemma rd_field:
  "off + 2 \<le> length b \<Longrightarrow> rd_u16 b off = Some (of_nat (field b off 2)) \<and>
     unat (of_nat (field b off 2) :: u16) = field b off 2"
  "off + 4 \<le> length b \<Longrightarrow> rd_u32 b off = Some (of_nat (field b off 4)) \<and>
     unat (of_nat (field b off 4) :: u32) = field b off 4"
  "off + 8 \<le> length b \<Longrightarrow> rd_u64 b off = Some (of_nat (field b off 8)) \<and>
     unat (of_nat (field b off 8) :: u64) = field b off 8"
  using field_less[of off 2 b] field_less[of off 4 b] field_less[of off 8 b]
  by (auto simp: rd_u16_def rd_u32_def rd_u64_def slice_def field_def intro!: unat_of_nat_id)

lemma word_eq_via_unat: "unat (w :: 'a::len word) = n \<Longrightarrow> v < 2 ^ LENGTH('a) \<Longrightarrow> w = of_nat v \<longleftrightarrow> n = v"
  by (metis unat_of_nat_id word_unat_eq_iff)

lemma check_ident_iff: "check_ident b = Inr () \<longleftrightarrow> ident_ok b"
proof (cases "EHDR_SIZE \<le> length b")
  case False
  then show ?thesis by (simp add: check_ident_def ident_ok_def)
next
  case True
  then have len: "64 \<le> length b" by (simp add: EHDR_SIZE_def)
  have t7: "take 7 b = take 4 b @ [b ! 4, b ! 5, b ! 6]"
    using len take_Suc_conv_app_nth[of 4 b] take_Suc_conv_app_nth[of 5 b] take_Suc_conv_app_nth[of 6 b]
    by (simp add: numeral_eq_Suc)
  have f: "16 + 2 \<le> length b" "18 + 2 \<le> length b" "20 + 4 \<le> length b" using len by simp_all
  have "of_nat (field b 16 2) = (2 :: u16) \<longleftrightarrow> field b 16 2 = 2"
    "of_nat (field b 18 2) = (62 :: u16) \<longleftrightarrow> field b 18 2 = 62"
    "of_nat (field b 20 4) = (1 :: u32) \<longleftrightarrow> field b 20 4 = 1"
    using word_eq_via_unat[of "of_nat (field b 16 2) :: u16" _ 2] rd_field(1)[OF f(1)]
      word_eq_via_unat[of "of_nat (field b 18 2) :: u16" _ 62] rd_field(1)[OF f(2)]
      word_eq_via_unat[of "of_nat (field b 20 4) :: u32" _ 1] rd_field(2)[OF f(3)]
    by simp_all
  then show ?thesis
    using True rd_field(1)[OF f(1)] rd_field(1)[OF f(2)] rd_field(2)[OF f(3)] len
    by (auto simp: check_ident_def ident_ok_def ok_or_def t7 ELF_MAGIC_def)
qed

lemma entry_ok_iff:
  assumes "\<forall>s \<in> set segs. seg_ok len base e s"
  shows "entry_ok entry segs \<longleftrightarrow> (\<exists>s \<in> set segs. bit (ls_flags s) 0 \<and> unat entry \<in> seg_bytes s)"
proof -
  have "(ls_flags s AND PF_X \<noteq> 0 \<and> ls_vaddr s \<le> entry \<and> entry < ls_vaddr s + ls_memsz s) \<longleftrightarrow>
      (bit (ls_flags s) 0 \<and> unat entry \<in> seg_bytes s)" if "s \<in> set segs" for s
    using seg_end_unat(1)[of len base e s] assms that
    by (auto simp: flag_bits(1) word_le_nat_alt word_less_nat_alt seg_bytes_def)
  then show ?thesis unfolding entry_ok_def list_ex_iff by blast
qed

lemma parse_iff:
  assumes "length bytes < 2 ^ 64"
  shows "parse bytes image_base image_end max_image_pages = Inr im \<longleftrightarrow>
    (let phoff = field bytes 32 8; phnum = field bytes 56 2; segs = loadable bytes phoff [0..<phnum] in
     ident_ok bytes \<and> field bytes 54 2 = PHDR_SIZE \<and> phnum \<le> MAX_PHDRS \<and>
     phoff + phnum * PHDR_SIZE \<le> length bytes \<and> (\<forall>i < phnum. phdr_type bytes phoff i \<noteq> PT_INTERP) \<and>
     segs \<noteq> [] \<and> segs_ok (length bytes) image_base image_end max_image_pages segs \<and>
     im = \<lparr>im_entry = of_nat (field bytes 24 8), im_segs = segs\<rparr> \<and>
     (\<exists>s \<in> set segs. bit (ls_flags s) 0 \<and> field bytes 24 8 \<in> seg_bytes s))"
proof (cases "ident_ok bytes")
  case False
  then have "check_ident bytes \<noteq> Inr u" for u using check_ident_iff[of bytes] by (cases u) simp
  then show ?thesis using False by (auto simp: parse_def try_in_Inr Let_def)
next
  case True
  then have len: "24 + 8 \<le> length bytes" "32 + 8 \<le> length bytes" "54 + 2 \<le> length bytes" "56 + 2 \<le> length bytes"
    by (simp_all add: ident_ok_def EHDR_SIZE_def)
  note rd = rd_field(3)[OF len(1)] rd_field(3)[OF len(2)] rd_field(1)[OF len(3)] rd_field(1)[OF len(4)]
  let ?phoff = "field bytes 32 8" and ?phnum = "field bytes 56 2"
  let ?entry = "of_nat (field bytes 24 8) :: u64"
  let ?fold = "try_fold (phdr_step bytes image_base image_end max_image_pages ?phoff) [0..<?phnum] ([], 0)"
  have table: "(\<exists>sz. checked_mul (of_nat ?phnum) (of_nat PHDR_SIZE :: u64) = Some sz \<and>
      (\<exists>t. checked_add (of_nat ?phoff) sz = Some t \<and> unat t \<le> length bytes)) \<longleftrightarrow>
      ?phoff + ?phnum * PHDR_SIZE \<le> length bytes" if "?phnum \<le> MAX_PHDRS"
  proof -
    have n: "unat (of_nat ?phnum :: u64) = ?phnum"
      using that by (intro unat_of_nat_id) (simp add: MAX_PHDRS_def)
    have m: "checked_mul (of_nat ?phnum) (of_nat PHDR_SIZE :: u64) = Some (of_nat ?phnum * of_nat PHDR_SIZE)"
      using that n by (simp add: checked_mul_def PHDR_SIZE_def MAX_PHDRS_def)
    have "unat (of_nat ?phnum * of_nat PHDR_SIZE :: u64) = ?phnum * PHDR_SIZE"
      using checked_mul_SomeD[OF m] n by (simp add: PHDR_SIZE_def)
    then show ?thesis using m rd(2) assms
      by (auto simp: add_within unat_add_if_less)
  qed
  have uc: "ucast (of_nat ?phnum :: u16) = (of_nat ?phnum :: u64)"
    using rd(4) by (metis of_nat_unat)
  have "parse bytes image_base image_end max_image_pages = Inr im \<longleftrightarrow>
    ?phnum \<le> MAX_PHDRS \<and> field bytes 54 2 = PHDR_SIZE \<and>
    (\<exists>sz. checked_mul (of_nat ?phnum) (of_nat PHDR_SIZE :: u64) = Some sz \<and>
      (\<exists>t. checked_add (of_nat ?phoff) sz = Some t \<and> unat t \<le> length bytes)) \<and>
    (\<exists>segs tot. ?fold = Inr (segs, tot) \<and> segs \<noteq> [] \<and> entry_ok ?entry segs \<and>
       im = \<lparr>im_entry = ?entry, im_segs = segs\<rparr>)"
    using True rd uc check_ident_iff[of bytes]
    by (auto simp: parse_def try_in_Inr ok_or_Inr if_Inl_Inr not_less)
  also have "\<dots> \<longleftrightarrow> ?phnum \<le> MAX_PHDRS \<and> field bytes 54 2 = PHDR_SIZE \<and>
    ?phoff + ?phnum * PHDR_SIZE \<le> length bytes \<and>
    (\<exists>segs tot. ?fold = Inr (segs, tot) \<and> segs \<noteq> [] \<and> entry_ok ?entry segs \<and>
       im = \<lparr>im_entry = ?entry, im_segs = segs\<rparr>)"
    using table by blast
  finally have P: "parse bytes image_base image_end max_image_pages = Inr im \<longleftrightarrow> \<dots>" .
  show ?thesis
  proof (cases "?phoff + ?phnum * PHDR_SIZE \<le> length bytes")
    case False
    then show ?thesis unfolding P Let_def by blast
  next
    case fit: True
    have "\<forall>i \<in> set [0..<?phnum]. ?phoff + Suc i * PHDR_SIZE \<le> length bytes"
    proof
      fix i assume "i \<in> set [0..<?phnum]"
      then have "Suc i * PHDR_SIZE \<le> ?phnum * PHDR_SIZE" by (intro mult_le_mono1) simp
      then show "?phoff + Suc i * PHDR_SIZE \<le> length bytes" using fit by linarith
    qed
    then have F: "(\<exists>tot. ?fold = Inr (segs, tot)) \<longleftrightarrow> (\<forall>i < ?phnum. phdr_type bytes ?phoff i \<noteq> PT_INTERP) \<and>
        segs = loadable bytes ?phoff [0..<?phnum] \<and> segs_ok (length bytes) image_base image_end max_image_pages segs" for segs
      using phdr_fold_iff[of "[0..<?phnum]" ?phoff bytes image_base image_end max_image_pages "[]" 0 segs] assms
      by (simp add: segs_ok_def Ball_def)
    have E: "entry_ok ?entry segs \<longleftrightarrow> (\<exists>s \<in> set segs. bit (ls_flags s) 0 \<and> field bytes 24 8 \<in> seg_bytes s)"
      if "segs_ok (length bytes) image_base image_end max_image_pages segs" for segs
      using entry_ok_iff[of segs "length bytes" image_base image_end ?entry] that rd(1)
      by (simp add: segs_ok_def)
    let ?S = "loadable bytes ?phoff [0..<?phnum]"
    have R: "(\<exists>segs tot. ?fold = Inr (segs, tot) \<and> Q segs) \<longleftrightarrow>
        (\<forall>i < ?phnum. phdr_type bytes ?phoff i \<noteq> PT_INTERP) \<and>
        segs_ok (length bytes) image_base image_end max_image_pages ?S \<and> Q ?S" for Q
    proof -
      have "(\<exists>segs tot. ?fold = Inr (segs, tot) \<and> Q segs) \<longleftrightarrow> (\<exists>segs. (\<exists>tot. ?fold = Inr (segs, tot)) \<and> Q segs)"
        by blast
      then show ?thesis unfolding F by blast
    qed
    show ?thesis
      unfolding P Let_def R using E[of ?S] fit True by (auto simp del: split_paired_Ex)
  qed
qed


lemma page_count: "unat (ls_memsz s) \<le> pages s * PAGE \<and> pages s * PAGE < unat (ls_memsz s) + PAGE"
proof -
  have "(unat (ls_memsz s) + PAGE - 1) div PAGE * PAGE \<le> unat (ls_memsz s) + PAGE - 1"
    by (simp add: div_times_less_eq_dividend)
  then have "pages s * PAGE \<le> unat (ls_memsz s) + PAGE - 1" by (simp add: pages_def div_ceil_def)
  moreover have "0 < PAGE" by (simp add: PAGE_def)
  ultimately show ?thesis using div_ceil_mult_ge[of PAGE "unat (ls_memsz s)"] by (simp add: pages_def)
qed

lemma aligned_pages:
  assumes "unat (ls_vaddr s) mod PAGE = 0" and "k \<in> seg_pages s"
  shows "unat (ls_vaddr s) \<le> k * PAGE \<and> k * PAGE < unat (ls_vaddr s) + unat (ls_memsz s)"
proof -
  obtain q where q: "unat (ls_vaddr s) = q * PAGE"
    using assms(1) by (metis mod_0_imp_dvd dvd_def mult.commute)
  have "q \<le> k" "k + 1 \<le> q + pages s" using assms(2) q by (auto simp: seg_pages_def PAGE_def)
  then have "q * PAGE \<le> k * PAGE" "(k + 1) * PAGE \<le> (q + pages s) * PAGE" by (simp_all only: mult_le_mono1)
  then show ?thesis using q page_count[of s] by (simp add: algebra_simps)
qed

lemma pages_disjoint:
  assumes "unat (ls_vaddr s) mod PAGE = 0" "unat (ls_vaddr p) mod PAGE = 0"
    and "seg_bytes s \<inter> seg_bytes p = {}"
  shows "seg_pages s \<inter> seg_pages p = {}"
proof -
  have "k * PAGE \<in> seg_bytes s \<inter> seg_bytes p" if "k \<in> seg_pages s" "k \<in> seg_pages p" for k
    using aligned_pages[OF assms(1) that(1)] aligned_pages[OF assms(2) that(2)]
    by (simp add: seg_bytes_def)
  then show ?thesis using assms(3) by blast
qed

lemma seg_pages_disjoint:
  assumes "segs_ok len b e m segs"
  shows "disjoint_list (map seg_pages segs)"
proof -
  have d: "disjoint_list (map seg_bytes segs)" and al: "\<forall>s \<in> set segs. unat (ls_vaddr s) mod PAGE = 0"
    using assms by (auto simp: segs_ok_def seg_ok_def)
  show ?thesis
    unfolding disjoint_list_nth length_map
  proof (intro allI impI)
    fix i j assume ij: "i < length segs" "j < i"
    then have "seg_bytes (segs ! i) \<inter> seg_bytes (segs ! j) = {}"
      using d by (auto simp: disjoint_list_nth)
    then show "map seg_pages segs ! i \<inter> map seg_pages segs ! j = {}"
      using pages_disjoint al ij by simp
  qed
qed

lemma image_bytes_exact:
  assumes "segs_ok len b e m segs"
  shows "unat (sum_list (map ls_memsz segs)) = sum_list (map (unat \<circ> ls_memsz) segs)"
proof -
  have d: "disjoint_list (map seg_bytes segs)"
    and w: "\<forall>s \<in> set segs. unat (ls_vaddr s) + unat (ls_memsz s) \<le> unat e"
    using assms by (auto simp: segs_ok_def seg_ok_def)
  have "sum_list (map (unat \<circ> ls_memsz) segs) = card (\<Union> (set (map seg_bytes segs)))"
    using card_disjoint_list[OF d] by (simp add: seg_bytes_def comp_def)
  also have "\<dots> \<le> card {..< unat e}"
    using w by (intro card_mono) (fastforce simp: seg_bytes_def)+
  finally show ?thesis
    using unat_sum_list[of "map ls_memsz segs"] unat_u64_less[of e] by (simp add: comp_def)
qed

lemma loadable_length: "length (loadable b phoff [0..<n]) \<le> n"
  using length_filter_le[of _ "[0..<n]"] by (simp add: loadable_def)

text \<open>
  C9. The parser accepts exactly the well-formed static executables: identification and fixed
  fields right, at most 16 program headers of the standard size inside the file, no
  interpreter request, and the loadable headers, all of them and in file order, each correct on
  its own, disjoint, within the page budget and with the entry point in an executable one;
  and what it returns is exactly that entry point and those headers.
\<close>
theorem parse_exact:
  assumes "length bytes < 2 ^ 64"
  shows "parse bytes image_base image_end max_image_pages = Inr im \<longleftrightarrow>
    (let phoff = field bytes 32 8; phnum = field bytes 56 2; segs = loadable bytes phoff [0..<phnum] in
     ident_ok bytes \<and> field bytes 54 2 = PHDR_SIZE \<and> phnum \<le> MAX_PHDRS \<and>
     phoff + phnum * PHDR_SIZE \<le> length bytes \<and> (\<forall>i < phnum. phdr_type bytes phoff i \<noteq> PT_INTERP) \<and>
     segs \<noteq> [] \<and> segs_ok (length bytes) image_base image_end max_image_pages segs \<and>
     im = \<lparr>im_entry = of_nat (field bytes 24 8), im_segs = segs\<rparr> \<and>
     (\<exists>s \<in> set segs. bit (ls_flags s) 0 \<and> field bytes 24 8 \<in> seg_bytes s))"
  using assms by (rule parse_iff)

definition sample_elf :: "u8 list" where
  "sample_elf =
     [0x7f, 0x45, 0x4C, 0x46, 2, 1, 1] @ replicate 9 0 @ [2, 0, 62, 0, 1, 0, 0, 0] @
     [0, 0, 0x40, 0, 0, 0, 0, 0] @ [64, 0, 0, 0, 0, 0, 0, 0] @ replicate 14 0 @
     [56, 0, 1, 0] @ replicate 6 0 @
     [1, 0, 0, 0] @ [5, 0, 0, 0] @ replicate 8 0 @ [0, 0, 0x40, 0, 0, 0, 0, 0] @ replicate 8 0 @
     [120, 0, 0, 0, 0, 0, 0, 0] @ [0, 2, 0, 0, 0, 0, 0, 0] @ replicate 8 0"

definition sample_seg :: load_seg where
  "sample_seg = \<lparr>ls_vaddr = 0x400000, ls_offset = 0, ls_filesz = 120, ls_memsz = 512, ls_flags = 5\<rparr>"

lemma sample_parse:
  "parse sample_elf 0x400000 0x0F000000 16 = Inr \<lparr>im_entry = 0x400000, im_segs = [sample_seg]\<rparr>"
  by code_simp

text \<open>A larger page budget accepts the same image.\<close>

lemma parse_budget:
  assumes "parse bytes lo hi n = Inr im" "n \<le> n'" "length bytes < 2 ^ 64"
  shows "parse bytes lo hi n' = Inr im"
proof -
  have "segs_ok len lo hi n segs \<Longrightarrow> segs_ok len lo hi n' segs" for len segs
    using assms(2) by (auto simp: segs_ok_def word_le_nat_alt)
  then show ?thesis using assms(1) unfolding parse_iff[OF assms(3)] Let_def by blast
qed

lemma parse_exact_witness:
  "field sample_elf 56 2 \<le> MAX_PHDRS \<and> ident_ok sample_elf"
  using sample_parse parse_exact[of sample_elf "0x400000" "0x0F000000" 16
      "\<lparr>im_entry = 0x400000, im_segs = [sample_seg]\<rparr>"]
  by (simp add: Let_def sample_elf_def)

text \<open>
  C10. An accepted image is safe to map: at most 16 segments, every page of every segment inside
  the caller's window, no page in two segments, none both writable and executable, every
  copied byte range inside the file and no longer than the segment, the whole image within the
  page budget, its reported size exact, and the entry point inside an executable segment.
\<close>
theorem parse_sound:
  assumes "parse bytes image_base image_end max_image_pages = Inr im" and "length bytes < 2 ^ 64"
    and "unat image_end mod PAGE = 0"
  shows "length (im_segs im) \<le> MAX_LOAD_SEGS \<and>
    (\<forall>s \<in> set (im_segs im).
       (\<forall>k \<in> seg_pages s. unat image_base \<le> k * PAGE \<and> (k + 1) * PAGE \<le> unat image_end) \<and>
       unat (ls_offset s) + unat (ls_filesz s) \<le> length bytes \<and> ls_filesz s \<le> ls_memsz s \<and>
       pf_present (seg_page_flags s) \<and> pf_user (seg_page_flags s) \<and>
       (pf_writable (seg_page_flags s) \<longrightarrow> pf_no_execute (seg_page_flags s))) \<and>
    disjoint_list (map seg_pages (im_segs im)) \<and>
    sum_list (map pages (im_segs im)) \<le> unat max_image_pages \<and>
    unat (image_bytes im) = sum_list (map (unat \<circ> ls_memsz) (im_segs im)) \<and>
    (\<exists>s \<in> set (im_segs im). \<not> pf_no_execute (seg_page_flags s) \<and> unat (im_entry im) \<in> seg_bytes s)"
proof -
  note P = assms(1)[unfolded parse_iff[OF assms(2)] Let_def]
  have segs: "im_segs im = loadable bytes (field bytes 32 8) [0..<field bytes 56 2]"
    and entry: "im_entry im = of_nat (field bytes 24 8)" using P by simp_all
  have n: "field bytes 56 2 \<le> 16" using P by (simp add: MAX_PHDRS_def)
  have ok: "segs_ok (length bytes) image_base image_end max_image_pages (im_segs im)"
    using P segs by simp
  have len: "length (im_segs im) \<le> MAX_LOAD_SEGS"
    using loadable_length[of bytes "field bytes 32 8" "field bytes 56 2"] n segs
    by (simp add: MAX_LOAD_SEGS_def)
  have "24 + 8 \<le> length bytes" using P by (simp add: ident_ok_def EHDR_SIZE_def)
  then have e: "unat (im_entry im) = field bytes 24 8" using rd_field(3) entry by simp
  have each: "(\<forall>k \<in> seg_pages s. unat image_base \<le> k * PAGE \<and> (k + 1) * PAGE \<le> unat image_end) \<and>
       unat (ls_offset s) + unat (ls_filesz s) \<le> length bytes \<and> ls_filesz s \<le> ls_memsz s \<and>
       pf_present (seg_page_flags s) \<and> pf_user (seg_page_flags s) \<and>
       (pf_writable (seg_page_flags s) \<longrightarrow> pf_no_execute (seg_page_flags s))"
    if s: "s \<in> set (im_segs im)" for s
  proof -
    have so: "seg_ok (length bytes) image_base image_end s" using ok s by (simp add: segs_ok_def)
    have al: "unat (ls_vaddr s) mod PAGE = 0" and lo: "unat image_base \<le> unat (ls_vaddr s)"
      and hi: "unat (ls_vaddr s) + unat (ls_memsz s) \<le> unat image_end"
      using so by (simp_all add: seg_ok_def word_le_nat_alt)
    have "unat image_base \<le> k * PAGE \<and> (k + 1) * PAGE \<le> unat image_end" if "k \<in> seg_pages s" for k
    proof -
      have A: "unat (ls_vaddr s) \<le> k * PAGE" "k * PAGE < unat image_end"
        using aligned_pages[OF al that] hi by simp_all
      obtain q where q: "unat image_end = q * PAGE"
        using assms(3) by (metis mod_0_imp_dvd dvd_def mult.commute)
      have "k + 1 \<le> q" using A(2) q by (simp add: PAGE_def)
      then have "(k + 1) * PAGE \<le> q * PAGE" by (rule mult_le_mono1)
      then show ?thesis using A(1) lo q by simp
    qed
    then show ?thesis using so by (auto simp: seg_ok_def seg_page_flags_def flag_bits)
  qed
  have "\<exists>s \<in> set (im_segs im). bit (ls_flags s) 0 \<and> field bytes 24 8 \<in> seg_bytes s"
    using P segs by auto
  then have ent: "\<exists>s \<in> set (im_segs im). \<not> pf_no_execute (seg_page_flags s) \<and> unat (im_entry im) \<in> seg_bytes s"
    using e by (auto simp: seg_page_flags_def flag_bits)
  show ?thesis
    using len each seg_pages_disjoint[OF ok] ok image_bytes_exact[OF ok] ent
    by (simp add: segs_ok_def image_bytes_def comp_def)
qed


lemma parse_sound_witness:
  "disjoint_list (map seg_pages [sample_seg]) \<and> unat (ls_filesz sample_seg) \<le> 120"
proof -
  have "length sample_elf = 120" by (simp add: sample_elf_def)
  then show ?thesis using parse_sound[OF sample_parse] by (simp add: PAGE_def)
qed

end
