(* ===== verification/Loader.thy ===== *)
theory Loader
  imports Elf Address_Space Process
begin

text \<open>
  Loading a program, \<open>load_and_map\<close> of \<open>kernel/src/process.rs\<close>: the validated segments and a
  fresh stack are copied into frames of their own, each mapped into the new address space and
  recorded, with a roll-back on failure.  Walking and extending page tables is the \<open>x86_64\<close> crate's
  \<open>map_to_with_table_flags\<close>; it is the parameter \<open>mapper\<close>, and \<open>mapper_ok\<close> states what the
  loader relies on.
\<close>

section \<open>Definitions\<close>

definition USER_IMAGE_BASE :: u64 where "USER_IMAGE_BASE = 0x400000"
definition USER_IMAGE_END :: u64 where "USER_IMAGE_END = 0x0F000000"
definition USER_STACK_PAGES :: nat where "USER_STACK_PAGES = 4"

text \<open>
  \<open>map_user_page\<close>: the address space, the virtual address, the frame and the flags, over the memory
  and the frame allocator; whether it succeeded, and the state it left.
\<close>

type_synonym mapper =
  "u64 \<Rightarrow> u64 \<Rightarrow> u64 \<Rightarrow> page_flags \<Rightarrow> mem \<times> frame_alloc \<Rightarrow> bool \<times> mem \<times> frame_alloc"

text \<open>One page to set up: where, how, the bytes at its start (the rest is zero), and the message
  when no frame is left.\<close>

record load_job =
  lj_va :: u64
  lj_flags :: page_flags
  lj_data :: "u8 list"
  lj_error :: string

record loading =
  lo_mem :: mem
  lo_fa :: frame_alloc
  lo_boot :: "(u64 \<times> u64) option list"
  lo_next :: nat

text \<open>\<open>write_bytes(dst, 0, FRAME_SIZE)\<close> and the copy that follows it.\<close>

definition fill_frame :: "mem \<Rightarrow> u64 \<Rightarrow> u8 list \<Rightarrow> mem" where
  "fill_frame m phys data =
     (\<lambda>a. let off = unat (a - phys) in
          if off < FRAME_SIZE then (if off < length data then data ! off else 0) else m a)"

definition page_data :: "u8 list \<Rightarrow> load_seg \<Rightarrow> nat \<Rightarrow> u8 list" where
  "page_data binary seg i =
     (let page_lo = i * FRAME_SIZE in
      if page_lo < unat (ls_filesz seg)
      then take (min FRAME_SIZE (unat (ls_filesz seg) - page_lo)) (drop (unat (ls_offset seg) + page_lo) binary)
      else [])"

definition seg_jobs :: "u8 list \<Rightarrow> load_seg \<Rightarrow> load_job list" where
  "seg_jobs binary seg =
     map (\<lambda>i. \<lparr>lj_va = ls_vaddr seg + of_nat i * of_nat FRAME_SIZE, lj_flags = seg_page_flags seg,
              lj_data = page_data binary seg i, lj_error = ''out of frames for user image''\<rparr>) [0..<pages seg]"

definition stack_flags :: page_flags where
  "stack_flags = \<lparr>pf_present = True, pf_user = True, pf_writable = True, pf_no_execute = True\<rparr>"

definition stack_jobs :: "load_job list" where
  "stack_jobs =
     map (\<lambda>i. \<lparr>lj_va = USER_STACK_TOP - (of_nat i + 1) * of_nat FRAME_SIZE, lj_flags = stack_flags,
              lj_data = [], lj_error = ''out of frames for user stack''\<rparr>) [0..<USER_STACK_PAGES]"

text \<open>One iteration of the set-up loops; \<open>None\<close> is the panic of writing past \<open>boot_frames\<close>.\<close>

definition load_page :: "mapper \<Rightarrow> u64 \<Rightarrow> load_job \<Rightarrow> loading \<Rightarrow> ((string \<times> loading) + loading) option" where
  "load_page mapper l4 j s =
     (case alloc (lo_fa s) of
        Inl _ \<Rightarrow> Some (Inl (lj_error j, s))
      | Inr (phys, fa) \<Rightarrow>
          let (ok, m', fa') = mapper l4 (lj_va j) phys (lj_flags j) (fill_frame (lo_mem s) phys (lj_data j), fa);
              s' = s\<lparr>lo_mem := m', lo_fa := fa'\<rparr>
          in if \<not> ok then Some (Inl (''page already mapped or table allocation failed'', s'))
             else if lo_next s < length (lo_boot s)
             then Some (Inr (s'\<lparr>lo_boot := (lo_boot s)[lo_next s := Some (lj_va j, phys)], lo_next := lo_next s + 1\<rparr>))
             else None)"

fun load_pages :: "mapper \<Rightarrow> u64 \<Rightarrow> load_job list \<Rightarrow> loading \<Rightarrow> ((string \<times> loading) + loading) option" where
  "load_pages mapper l4 [] s = Some (Inr s)"
| "load_pages mapper l4 (j # js) s =
     (case load_page mapper l4 j s of
        None \<Rightarrow> None
      | Some (Inl e) \<Rightarrow> Some (Inl e)
      | Some (Inr s') \<Rightarrow> load_pages mapper l4 js s')"

text \<open>
  The outcome is the error with the pages it asked to unmap, or the entry point.  \<open>unmap_user_page\<close>
  clears leaf entries only, which nothing modelled here reads.
\<close>

definition load_and_map ::
    "mapper \<Rightarrow> u8 list \<Rightarrow> u64 \<Rightarrow> loading \<Rightarrow> ((string \<times> u64 list) + u64) option \<times> loading" where
  "load_and_map mapper binary l4 s =
     (let max_image_pages = saturating_sub (of_nat (length (lo_boot s))) (of_nat USER_STACK_PAGES) in
      case parse binary USER_IMAGE_BASE USER_IMAGE_END max_image_pages of
        Inl e \<Rightarrow> (Some (Inl (as_str e, [])), s)
      | Inr im \<Rightarrow>
          (case load_pages mapper l4 (concat (map (seg_jobs binary) (im_segs im)) @ stack_jobs) (s\<lparr>lo_next := 0\<rparr>) of
             None \<Rightarrow> (None, s)
           | Some (Inr s') \<Rightarrow> (Some (Inr (im_entry im)), s')
           | Some (Inl (e, s')) \<Rightarrow>
               let entries = List.map_filter id (lo_boot s') in
               (Some (Inl (e, map fst entries)), s'\<lparr>lo_fa := foldl drop_frame (lo_fa s') (map snd entries)\<rparr>)))"

text \<open>The footprint announced at boot.\<close>

definition image_size :: "u8 list \<Rightarrow> u64" where
  "image_size binary =
     (case parse binary USER_IMAGE_BASE USER_IMAGE_END
         (saturating_sub (of_nat MAX_BOOT_FRAMES) (of_nat USER_STACK_PAGES)) of
        Inl _ \<Rightarrow> 0 | Inr im \<Rightarrow> image_bytes im)"

section \<open>What the loader relies on\<close>

text \<open>The frame an address lies in.\<close>

definition frame_no :: "u64 \<Rightarrow> nat" where
  "frame_no a = unat a div FRAME_SIZE"

text \<open>
  \<open>owns m l4 T\<close> reads: \<open>T\<close> contains every frame that holds a page table of the address space
  \<open>l4\<close>.  Whether it holds depends on memory only through those frames; mapping a page adds the frames it
  takes from the allocator, writes to table frames only, and returns no frame.
\<close>

definition mapper_ok :: "mapper \<Rightarrow> (mem \<Rightarrow> u64 \<Rightarrow> nat set \<Rightarrow> bool) \<Rightarrow> bool" where
  "mapper_ok mapper owns \<longleftrightarrow>
     (\<forall>m m' l4 T. owns m l4 T \<longrightarrow> (\<forall>a. frame_no a \<in> T \<longrightarrow> m' a = m a) \<longrightarrow> owns m' l4 T) \<and>
     (\<forall>l4 va phys fl m fa ok m' fa' T. mapper l4 va phys fl (m, fa) = (ok, m', fa') \<longrightarrow>
        fa_wf fa \<longrightarrow> owns m l4 T \<longrightarrow> T \<inter> avail fa = {} \<longrightarrow>
        fa_wf fa' \<and> fa_frames fa' = fa_frames fa \<and> avail fa' \<subseteq> avail fa \<and>
        owns m' l4 (T \<union> (avail fa - avail fa')) \<and>
        (\<forall>a. frame_no a \<notin> T \<union> (avail fa - avail fa') \<longrightarrow> m' a = m a))"

text \<open>The frame at \<open>phys\<close> starts with the given bytes and is zero after them.\<close>

definition holds_data :: "mem \<Rightarrow> u64 \<Rightarrow> u8 list \<Rightarrow> bool" where
  "holds_data m phys data \<longleftrightarrow>
     (\<forall>off < FRAME_SIZE. m (phys + of_nat off) = (if off < length data then data ! off else 0))"

section \<open>The frames of an image\<close>

lemma frame_no_mult: "unat a = i * FRAME_SIZE \<Longrightarrow> frame_no a = i"
  by (simp add: frame_no_def FRAME_SIZE_def)

lemma frame_offset:
  assumes "unat p = i * FRAME_SIZE" "off < FRAME_SIZE"
  shows "unat (p + of_nat off) = i * FRAME_SIZE + off" "frame_no (p + of_nat off) = i"
    "unat (p + of_nat off - p) = off"
proof -
  have o: "unat (of_nat off :: u64) = off" using assms(2) by (simp add: unat_of_nat FRAME_SIZE_def)
  have "i * FRAME_SIZE + off < 2 ^ 64"
  proof -
    have "i * FRAME_SIZE < 2 ^ 64" using assms(1) unat_u64_less[of p] by simp
    then have "i * FRAME_SIZE < 2 ^ 52 * FRAME_SIZE" by (simp add: FRAME_SIZE_def)
    then have "i < 2 ^ 52" by (simp add: FRAME_SIZE_def)
    then have "i \<le> 2 ^ 52 - 1" by simp
    then have "i * FRAME_SIZE \<le> (2 ^ 52 - 1) * FRAME_SIZE" by (rule mult_le_mono1)
    then show ?thesis using assms(2) by (simp add: FRAME_SIZE_def)
  qed
  then show u: "unat (p + of_nat off) = i * FRAME_SIZE + off" using assms(1) o by (simp add: unat_add_if_less)
  then show "frame_no (p + of_nat off) = i" using assms(2) by (simp add: frame_no_def)
  show "unat (p + of_nat off - p) = off" using o by simp
qed

lemma fill_frame_holds:
  assumes "unat p = i * FRAME_SIZE"
  shows "holds_data (fill_frame m p data) p data"
  using frame_offset(3)[OF assms] by (simp add: holds_data_def fill_frame_def)

lemma fill_frame_other:
  assumes "unat p = i * FRAME_SIZE" "frame_no a \<noteq> i"
  shows "fill_frame m p data a = m a"
proof -
  have "\<not> unat (a - p) < FRAME_SIZE"
  proof
    assume o: "unat (a - p) < FRAME_SIZE"
    have "a = p + of_nat (unat (a - p))" by simp
    then show False using frame_offset(2)[OF assms(1) o] assms(2) by simp
  qed
  then show ?thesis by (simp add: fill_frame_def)
qed

lemma holds_data_frame:
  assumes "unat p = i * FRAME_SIZE" "\<And>a. frame_no a = i \<Longrightarrow> m' a = m a"
  shows "holds_data m' p data = holds_data m p data"
  using frame_offset(2)[OF assms(1)] assms(2) by (simp add: holds_data_def)

text \<open>
  The state after the pages \<open>J\<close>: \<open>frames\<close> are their frames, \<open>T\<close> the frames taken for page tables
  beyond the initial \<open>T0\<close>, and \<open>L\<close> any frame that is neither recorded nor returned.
\<close>

definition loaded ::
  "(mem \<Rightarrow> u64 \<Rightarrow> nat set \<Rightarrow> bool) \<Rightarrow> u64 \<Rightarrow> nat set \<Rightarrow> loading \<Rightarrow> load_job list \<Rightarrow> u64 list \<Rightarrow> nat set \<Rightarrow> nat set \<Rightarrow> loading \<Rightarrow> bool" where
  "loaded owns l4 T0 s0 J frames T L s \<longleftrightarrow>
     length frames = length J \<and> lo_next s = length J \<and> length J \<le> length (lo_boot s0) \<and>
     lo_boot s = map Some (zip (map lj_va J) frames) @ drop (length J) (lo_boot s0) \<and>
     fa_wf (lo_fa s) \<and> fa_frames (lo_fa s) = fa_frames (lo_fa s0) \<and> distinct frames \<and>
     (\<forall>p \<in> set frames. unat p = frame_no p * FRAME_SIZE \<and> frame_no p \<in> avail (lo_fa s0)) \<and>
     T \<union> L \<subseteq> avail (lo_fa s0) \<and> frame_no ` set frames \<inter> (T \<union> L) = {} \<and> T \<inter> L = {} \<and>
     avail (lo_fa s) = avail (lo_fa s0) - frame_no ` set frames - T - L \<and>
     owns (lo_mem s) l4 (T0 \<union> T) \<and>
     (\<forall>n < length J. holds_data (lo_mem s) (frames ! n) (lj_data (J ! n))) \<and>
     (\<forall>a. frame_no a \<notin> T0 \<union> T \<union> L \<union> frame_no ` set frames \<longrightarrow> lo_mem s a = lo_mem s0 a)"

lemma loadedD:
  assumes "loaded owns l4 T0 s0 J frames T L s"
  shows "length frames = length J" "lo_next s = length J" "length J \<le> length (lo_boot s0)"
    "lo_boot s = map Some (zip (map lj_va J) frames) @ drop (length J) (lo_boot s0)"
    "fa_wf (lo_fa s)" "fa_frames (lo_fa s) = fa_frames (lo_fa s0)" "distinct frames"
    "\<And>p. p \<in> set frames \<Longrightarrow> unat p = frame_no p * FRAME_SIZE \<and> frame_no p \<in> avail (lo_fa s0)"
    "T \<union> L \<subseteq> avail (lo_fa s0)" "frame_no ` set frames \<inter> (T \<union> L) = {}" "T \<inter> L = {}"
    "avail (lo_fa s) = avail (lo_fa s0) - frame_no ` set frames - T - L" "owns (lo_mem s) l4 (T0 \<union> T)"
    "\<And>n. n < length J \<Longrightarrow> holds_data (lo_mem s) (frames ! n) (lj_data (J ! n))"
    "\<And>a. frame_no a \<notin> T0 \<union> T \<union> L \<union> frame_no ` set frames \<Longrightarrow> lo_mem s a = lo_mem s0 a"
  using assms unfolding loaded_def by blast+

lemma loaded_start:
  assumes "fa_wf (lo_fa s0)" "owns (lo_mem s0) l4 T0" "lo_next s0 = 0"
  shows "loaded owns l4 T0 s0 [] [] {} {} s0"
  using assms by (simp add: loaded_def)

lemma load_page_step:
  assumes "loaded owns l4 T0 s0 J frames T {} s" "mapper_ok mapper owns" "T0 \<inter> avail (lo_fa s0) = {}"
    and "length J < length (lo_boot s0)"
  shows "case load_page mapper l4 j s of
      None \<Rightarrow> False
    | Some (Inl (e, s')) \<Rightarrow> (e = lj_error j \<and> s' = s \<and> avail (lo_fa s) = {}) \<or>
        (e = ''page already mapped or table allocation failed'' \<and>
          (\<exists>T' l. l \<in> avail (lo_fa s) \<and> loaded owns l4 T0 s0 J frames T' {l} s'))
    | Some (Inr s') \<Rightarrow> \<exists>p T'. loaded owns l4 T0 s0 (J @ [j]) (frames @ [p]) T' {} s'"
proof (cases "alloc (lo_fa s)")
  case (Inl e)
  have "fa_wf (lo_fa s)" using assms(1) by (simp add: loaded_def)
  then have "avail (lo_fa s) = {}" using alloc_Inl_iff Inl by blast
  then show ?thesis using Inl by (simp add: load_page_def)
next
  case (Inr r)
  obtain p fa where r: "alloc (lo_fa s) = Inr (p, fa)" using Inr by (cases r) simp
  note D = loadedD[OF assms(1)]
  note Ld = assms(1)[unfolded loaded_def]
  have wf: "fa_wf (lo_fa s)" using Ld by simp
  obtain i where i: "i \<in> avail (lo_fa s)" "unat p = i * FRAME_SIZE" "avail fa = avail (lo_fa s) - {i}" "fa_wf fa"
    "fa_frames fa = fa_frames (lo_fa s)" using alloc_Inr[OF wf r] by metis
  have ip: "frame_no p = i" by (rule frame_no_mult[OF i(2)])
  let ?m1 = "fill_frame (lo_mem s) p (lj_data j)"
  obtain ok m' fa' where mp: "mapper l4 (lj_va j) p (lj_flags j) (?m1, fa) = (ok, m', fa')"
    by (cases "mapper l4 (lj_va j) p (lj_flags j) (?m1, fa)") auto
  define N where "N = avail fa - avail fa'"
  have in0: "i \<in> avail (lo_fa s0)" "i \<notin> frame_no ` set frames" "i \<notin> T" using i(1) Ld by auto
  then have iT: "i \<notin> T0 \<union> T" using assms(3) by auto
  have "owns ?m1 l4 (T0 \<union> T)"
  proof -
    have "owns (lo_mem s) l4 (T0 \<union> T)" using Ld by simp
    moreover have "\<forall>a. frame_no a \<in> T0 \<union> T \<longrightarrow> ?m1 a = lo_mem s a"
      using fill_frame_other[OF i(2)] iT by metis
    ultimately show ?thesis using assms(2) unfolding mapper_ok_def by blast
  qed
  moreover have "(T0 \<union> T) \<inter> avail fa = {}" using assms(3) Ld i(3) by auto
  ultimately have M: "fa_wf fa'" "fa_frames fa' = fa_frames fa" "avail fa' \<subseteq> avail fa" "owns m' l4 (T0 \<union> T \<union> N)"
    "\<And>a. frame_no a \<notin> T0 \<union> T \<union> N \<Longrightarrow> m' a = ?m1 a"
    using assms(2) mp i(4) unfolding mapper_ok_def N_def by blast+
  have Ns: "N \<subseteq> avail (lo_fa s) - {i}" using i(3) by (auto simp: N_def)
  have av: "avail fa' = avail (lo_fa s) - {i} - N" using M(3) i(3) by (auto simp: N_def)
  have fr: "frame_no q \<noteq> i" "frame_no q \<notin> T0 \<union> T \<union> N" if "q \<in> set frames" for q
  proof -
    show "frame_no q \<noteq> i" using that in0(2) by blast
    have "frame_no q \<in> avail (lo_fa s0)" "frame_no q \<notin> T" using Ld that by auto
    moreover have "frame_no q \<notin> N" using Ns Ld that by auto
    ultimately show "frame_no q \<notin> T0 \<union> T \<union> N" using assms(3) by blast
  qed
  have keep: "holds_data m' (frames ! n) (lj_data (J ! n))" if n: "n < length J" for n
  proof -
    have q: "frames ! n \<in> set frames" using n Ld by simp
    have u: "unat (frames ! n) = frame_no (frames ! n) * FRAME_SIZE" using Ld q by blast
    have "holds_data (lo_mem s) (frames ! n) (lj_data (J ! n))" using Ld n by blast
    then show ?thesis
      using holds_data_frame[OF u, of m' "lo_mem s"] M(5) fr[OF q] fill_frame_other[OF i(2)] by metis
  qed
  have new: "holds_data m' p (lj_data j)"
  proof -
    have "i \<notin> T0 \<union> T \<union> N" using iT Ns by blast
    then have "holds_data m' p (lj_data j) = holds_data ?m1 p (lj_data j)"
      by (intro holds_data_frame[OF i(2)] M(5)) simp
    then show ?thesis using fill_frame_holds[OF i(2)] by simp
  qed
  have out: "m' a = lo_mem s0 a" if "frame_no a \<notin> T0 \<union> (T \<union> N) \<union> {i} \<union> frame_no ` set frames" for a
  proof -
    have "m' a = ?m1 a" using M(5) that by blast
    also have "\<dots> = lo_mem s a" using fill_frame_other[OF i(2)] that by blast
    also have "\<dots> = lo_mem s0 a" using Ld that by blast
    finally show ?thesis .
  qed
  show ?thesis
  proof (cases ok)
    case False
    let ?s' = "s\<lparr>lo_mem := m', lo_fa := fa'\<rparr>"
    have "loaded owns l4 T0 s0 J frames (T \<union> N) {i} ?s'"
      unfolding loaded_def
    proof (intro conjI ballI allI impI)
      show "lo_boot ?s' = map Some (zip (map lj_va J) frames) @ drop (length J) (lo_boot s0)"
        using D(4) by simp
      show "T \<union> N \<union> {i} \<subseteq> avail (lo_fa s0)" using D(9) Ns D(12) in0(1) by blast
      show "frame_no ` set frames \<inter> (T \<union> N \<union> {i}) = {}" using D(10) in0 Ns D(12) by blast
      show "(T \<union> N) \<inter> {i} = {}" using in0 Ns by blast
      show "avail (lo_fa ?s') = avail (lo_fa s0) - frame_no ` set frames - (T \<union> N) - {i}" using av D(12) by auto
      show "owns (lo_mem ?s') l4 (T0 \<union> (T \<union> N))" using M(4) by (simp add: Un_assoc)
      show "lo_mem ?s' a = lo_mem s0 a" if "frame_no a \<notin> T0 \<union> (T \<union> N) \<union> {i} \<union> frame_no ` set frames" for a
        using out[OF that] by simp
    qed (use D(1-3,6-8) M(1,2) i(5) keep in simp_all)
    moreover have "load_page mapper l4 j s = Some (Inl (''page already mapped or table allocation failed'', ?s'))"
      using r mp False by (simp add: load_page_def)
    ultimately show ?thesis using i(1) by auto
  next
    case True
    let ?s' = "s\<lparr>lo_mem := m', lo_fa := fa', lo_boot := (lo_boot s)[lo_next s := Some (lj_va j, p)], lo_next := lo_next s + 1\<rparr>"
    have b: "(lo_boot s)[length J := Some (lj_va j, p)] =
        map Some (zip (map lj_va (J @ [j])) (frames @ [p])) @ drop (length (J @ [j])) (lo_boot s0)"
    proof -
      have "drop (length J) (lo_boot s0) = lo_boot s0 ! length J # drop (length J + 1) (lo_boot s0)"
        using assms(4) by (simp add: Cons_nth_drop_Suc)
      then show ?thesis using Ld by (simp add: list_update_append)
    qed
    have h: "\<forall>n < length (J @ [j]). holds_data m' ((frames @ [p]) ! n) (lj_data ((J @ [j]) ! n))"
      using keep new Ld by (auto simp: nth_append less_Suc_eq)
    have np: "p \<notin> set frames" using fr(1) ip by blast
    have "loaded owns l4 T0 s0 (J @ [j]) (frames @ [p]) (T \<union> N) {} ?s'"
      unfolding loaded_def
    proof (intro conjI ballI allI impI)
      show "lo_boot ?s' = map Some (zip (map lj_va (J @ [j])) (frames @ [p])) @ drop (length (J @ [j])) (lo_boot s0)"
        using b D(2) by simp
      show "distinct (frames @ [p])" using D(7) np by simp
      show "unat q = frame_no q * FRAME_SIZE" "frame_no q \<in> avail (lo_fa s0)" if "q \<in> set (frames @ [p])" for q
        using that D(8)[of q] i(2) ip in0(1) by auto
      show "T \<union> N \<union> {} \<subseteq> avail (lo_fa s0)" using D(9) Ns D(12) by blast
      show "frame_no ` set (frames @ [p]) \<inter> (T \<union> N \<union> {}) = {}" using D(10) in0 Ns D(12) ip by auto
      show "avail (lo_fa ?s') = avail (lo_fa s0) - frame_no ` set (frames @ [p]) - (T \<union> N) - {}"
        using av D(12) ip by auto
      show "owns (lo_mem ?s') l4 (T0 \<union> (T \<union> N))" using M(4) by (simp add: Un_assoc)
      show "holds_data (lo_mem ?s') ((frames @ [p]) ! n) (lj_data ((J @ [j]) ! n))" if "n < length (J @ [j])" for n
        using h that by simp
      show "lo_mem ?s' a = lo_mem s0 a"
        if "frame_no a \<notin> T0 \<union> (T \<union> N) \<union> {} \<union> frame_no ` set (frames @ [p])" for a
        using out[of a] that ip by simp
    qed (use D(1-3,6) M(1,2) i(5) assms(4) in simp_all)
    moreover have "lo_next s < length (lo_boot s)" using Ld assms(4) by simp
    then have "load_page mapper l4 j s = Some (Inr ?s')"
      using r mp True by (simp add: load_page_def)
    ultimately show ?thesis by auto
  qed
qed

lemma load_pages_result:
  assumes "loaded owns l4 T0 s0 J frames T {} s" "mapper_ok mapper owns" "T0 \<inter> avail (lo_fa s0) = {}"
    and "length J + length js \<le> length (lo_boot s0)"
  shows "case load_pages mapper l4 js s of
      None \<Rightarrow> False
    | Some (Inl (e, s')) \<Rightarrow> \<exists>J' frames T L. length J' \<le> length (lo_boot s0) \<and> loaded owns l4 T0 s0 J' frames T L s' \<and>
        ((L = {} \<and> e \<in> lj_error ` set js) \<or>
         (e = ''page already mapped or table allocation failed'' \<and> (\<exists>l. L = {l})))
    | Some (Inr s') \<Rightarrow> \<exists>frames T. loaded owns l4 T0 s0 (J @ js) frames T {} s'"
  using assms(1,4)
proof (induction js arbitrary: J frames T s)
  case Nil
  then show ?case by auto
next
  case (Cons j js)
  have lt: "length J < length (lo_boot s0)" using Cons.prems(2) by simp
  note S = load_page_step[OF Cons.prems(1) assms(2,3) lt, of j]
  show ?case
  proof (cases "load_page mapper l4 j s")
    case None
    then show ?thesis using S by simp
  next
    case (Some r)
    show ?thesis
    proof (cases r)
      case (Inl es)
      obtain e s' where es: "es = (e, s')" by (cases es)
      have "(e = lj_error j \<and> s' = s \<and> avail (lo_fa s) = {}) \<or>
          (e = ''page already mapped or table allocation failed'' \<and>
           (\<exists>T' l. l \<in> avail (lo_fa s) \<and> loaded owns l4 T0 s0 J frames T' {l} s'))"
        using S Some Inl es by simp
      then have "\<exists>J' frames T L. length J' \<le> length (lo_boot s0) \<and> loaded owns l4 T0 s0 J' frames T L s' \<and>
        ((L = {} \<and> e \<in> lj_error ` set (j # js)) \<or>
         (e = ''page already mapped or table allocation failed'' \<and> (\<exists>l. L = {l})))"
      proof (elim disjE conjE exE)
        assume "s' = s" "e = lj_error j"
        then show ?thesis using Cons.prems(1) lt by (intro exI[of _ J] exI[of _ frames] exI[of _ T] exI[of _ "{}"]) simp
      next
        fix T' l
        assume "e = ''page already mapped or table allocation failed''" "loaded owns l4 T0 s0 J frames T' {l} s'"
        then show ?thesis using lt by (intro exI[of _ J] exI[of _ frames] exI[of _ T'] exI[of _ "{l}"]) simp
      qed
      then show ?thesis using Some Inl es by simp
    next
      case (Inr s')
      then obtain p T' where "loaded owns l4 T0 s0 (J @ [j]) (frames @ [p]) T' {} s'" using S Some by auto
      note IH = Cons.IH[OF this]
      have "load_pages mapper l4 (j # js) s = load_pages mapper l4 js s'" "J @ j # js = (J @ [j]) @ js"
        using Some Inr by simp_all
      moreover have "lj_error ` set js \<subseteq> lj_error ` set (j # js)" by auto
      ultimately show ?thesis using IH Cons.prems(2)
        by (simp only:) (simp split: option.splits sum.splits prod.splits; blast)
    qed
  qed
qed

lemma frames_numbers:
  assumes "distinct frames" "\<And>p. p \<in> set frames \<Longrightarrow> unat p = frame_no p * FRAME_SIZE"
  shows "distinct (map frame_no frames)" "map unat frames = map (\<lambda>i. i * FRAME_SIZE) (map frame_no frames)"
proof -
  have "inj_on frame_no (set frames)"
  proof (rule inj_onI)
    fix p q
    assume "p \<in> set frames" "q \<in> set frames" "frame_no p = frame_no q"
    then have "unat p = unat q" using assms(2)[of p] assms(2)[of q] by simp
    then show "p = q" by (simp add: word_unat_eq_iff)
  qed
  then show "distinct (map frame_no frames)" using assms(1) by (simp add: distinct_map)
  show "map unat frames = map (\<lambda>i. i * FRAME_SIZE) (map frame_no frames)" using assms(2) by simp
qed

text \<open>The roll-back returns what was recorded.\<close>

lemma rollback_frames:
  assumes "loaded owns l4 T0 s0 J frames T L s" "lo_boot s0 = replicate n None" "fa_wf (lo_fa s0)"
  shows "fa_wf (foldl drop_frame (lo_fa s) (map snd (List.map_filter id (lo_boot s))))"
    and "avail (foldl drop_frame (lo_fa s) (map snd (List.map_filter id (lo_boot s)))) = avail (lo_fa s0) - T - L"
    and "map fst (List.map_filter id (lo_boot s)) = map lj_va J"
proof -
  note D = loadedD[OF assms(1)]
  have mf: "List.map_filter id (map Some xs @ replicate m None) = xs" for xs :: "(u64 \<times> u64) list" and m
    by (induction xs) (simp_all add: map_filter_def)
  have b: "List.map_filter id (lo_boot s) = zip (map lj_va J) frames"
    unfolding D(4) assms(2) drop_replicate by (rule mf)
  then have sn: "map snd (List.map_filter id (lo_boot s)) = frames" using D(1) by simp
  show "map fst (List.map_filter id (lo_boot s)) = map lj_va J" using b D(1) by simp
  have u: "unat p = frame_no p * FRAME_SIZE" if "p \<in> set frames" for p using D(8)[OF that] by blast
  note F = frames_numbers[OF D(7) u]
  have "\<forall>i \<in> set (map frame_no frames). i < fa_frames (lo_fa s) \<and> i \<notin> avail (lo_fa s)"
  proof
    fix i
    assume "i \<in> set (map frame_no frames)"
    then obtain p where p: "p \<in> set frames" "i = frame_no p" by auto
    have "i \<in> avail (lo_fa s0)" using D(8)[OF p(1)] p(2) by simp
    then have "i < fa_frames (lo_fa s)" using assms(3) D(6) by (simp add: fa_wf_def)
    moreover have "i \<notin> avail (lo_fa s)" using D(12) p by auto
    ultimately show "i < fa_frames (lo_fa s) \<and> i \<notin> avail (lo_fa s)" by blast
  qed
  note R = drop_frames[OF D(5) F(2,1) this]
  show "fa_wf (foldl drop_frame (lo_fa s) (map snd (List.map_filter id (lo_boot s))))" using R(1) sn by simp
  show "avail (foldl drop_frame (lo_fa s) (map snd (List.map_filter id (lo_boot s)))) = avail (lo_fa s0) - T - L"
    using R(2) D(8,9,10,12) sn by auto
qed

section \<open>What loading promises\<close>

lemma page_budget: "unat (saturating_sub (of_nat MAX_BOOT_FRAMES) (of_nat USER_STACK_PAGES) :: u64) = 60"
  by (simp add: unat_saturating_sub MAX_BOOT_FRAMES_def USER_STACK_PAGES_def)

lemma length_jobs:
  "length (concat (map (seg_jobs binary) segs) @ stack_jobs) = sum_list (map pages segs) + USER_STACK_PAGES"
  by (induction segs) (simp_all add: seg_jobs_def stack_jobs_def)

text \<open>A byte of a segment is in the page the loader made for it.\<close>

lemma page_data_byte:
  assumes "unat (ls_offset seg) + unat (ls_filesz seg) \<le> length binary" "off < FRAME_SIZE"
  shows "(if off < length (page_data binary seg i) then page_data binary seg i ! off else 0) =
    (if i * FRAME_SIZE + off < unat (ls_filesz seg) then binary ! (unat (ls_offset seg) + (i * FRAME_SIZE + off)) else 0)"
proof (cases "i * FRAME_SIZE < unat (ls_filesz seg)")
  case True
  then have "length (page_data binary seg i) = min FRAME_SIZE (unat (ls_filesz seg) - i * FRAME_SIZE)"
    using assms(1) by (auto simp: page_data_def Let_def)
  moreover have "page_data binary seg i ! off = binary ! (unat (ls_offset seg) + (i * FRAME_SIZE + off))"
    if "off < min FRAME_SIZE (unat (ls_filesz seg) - i * FRAME_SIZE)"
    using that True assms(1) by (simp add: page_data_def Let_def add.assoc)
  ultimately show ?thesis using assms(2) True by (auto simp: less_diff_conv add.commute)
next
  case False
  then show ?thesis by (simp add: page_data_def)
qed

lemma job_recorded:
  assumes "loaded owns l4 T0 s0 J frames T {} s" "j \<in> set J"
  obtains p where "Some (lj_va j, p) \<in> set (lo_boot s)" "p \<in> set frames" "holds_data (lo_mem s) p (lj_data j)"
proof -
  note D = loadedD[OF assms(1)]
  obtain n where n: "n < length J" "J ! n = j" using assms(2) by (auto simp: in_set_conv_nth)
  have "zip (map lj_va J) frames ! n = (lj_va j, frames ! n)" using n D(1) by simp
  then have "(lj_va j, frames ! n) \<in> set (zip (map lj_va J) frames)"
    using n(1) D(1) by (metis length_map length_zip min.idem nth_mem)
  then have "Some (lj_va j, frames ! n) \<in> set (lo_boot s)" by (simp add: D(4))
  moreover have "frames ! n \<in> set frames" using n(1) D(1) by simp
  moreover have "holds_data (lo_mem s) (frames ! n) (lj_data j)" using D(14)[OF n(1)] n(2) by simp
  ultimately show ?thesis by (rule that)
qed


lemma mapping_message:
  "as_str e \<noteq> ''page already mapped or table allocation failed''"
  "j \<in> set (concat (map (seg_jobs binary) segs) @ stack_jobs) \<Longrightarrow>
     lj_error j \<noteq> ''page already mapped or table allocation failed''"
  by (cases e) (auto simp: seg_jobs_def stack_jobs_def)

text \<open>
  A failed load gives back what it recorded.  If the loader reports an error, the frames no longer
  available are those that became page tables of the new address space, which its destruction
  returns, and nothing else, except that after a failed mapping exactly one more frame is lost: the
  one taken for the page that could not be mapped, which is neither recorded nor returned.
\<close>
lemma load_failure:
  assumes "mapper_ok mapper owns" "fa_wf (lo_fa s)" "owns (lo_mem s) l4 T0" "T0 \<inter> avail (lo_fa s) = {}"
    and "lo_boot s = replicate MAX_BOOT_FRAMES None" "length binary < 2 ^ 64"
    and "load_and_map mapper binary l4 s = (Some (Inl (e, us)), s')"
  shows "fa_wf (lo_fa s') \<and> (\<exists>T L. T \<inter> L = {} \<and> T \<union> L \<subseteq> avail (lo_fa s) \<and>
    avail (lo_fa s') = avail (lo_fa s) - T - L \<and> owns (lo_mem s') l4 (T0 \<union> T) \<and>
    (if e = ''page already mapped or table allocation failed'' then \<exists>l. L = {l} else L = {}))"
proof -
  define mx where "mx = (saturating_sub (of_nat MAX_BOOT_FRAMES) (of_nat USER_STACK_PAGES) :: u64)"
  have mx: "mx = 60" using page_budget by (simp add: mx_def word_unat_eq_iff)
  show ?thesis
  proof (cases "parse binary USER_IMAGE_BASE USER_IMAGE_END mx")
    case (Inl pe)
    then have "s' = s" "e = as_str pe" using assms(5,7) by (auto simp: load_and_map_def mx_def[symmetric])
    then show ?thesis using assms(2,3) mapping_message(1) by (intro conjI exI[of _ "{}"]) simp_all
  next
    case (Inr im)
    define J where "J = concat (map (seg_jobs binary) (im_segs im)) @ stack_jobs"
    have ok: "segs_ok (length binary) USER_IMAGE_BASE USER_IMAGE_END mx (im_segs im)"
      using Inr[unfolded parse_iff[OF assms(6)] Let_def] by auto
    have "sum_list (map pages (im_segs im)) \<le> 60" using ok mx by (simp add: segs_ok_def)
    then have len: "length J \<le> MAX_BOOT_FRAMES"
      unfolding J_def length_jobs by (simp add: MAX_BOOT_FRAMES_def USER_STACK_PAGES_def)
    let ?s0 = "s\<lparr>lo_next := 0\<rparr>"
    have st: "loaded owns l4 T0 ?s0 [] [] {} {} ?s0" using assms(2,3) by (intro loaded_start) simp_all
    obtain s1 where s1: "load_pages mapper l4 J ?s0 = Some (Inl (e, s1))"
      and s': "s' = s1\<lparr>lo_fa := foldl drop_frame (lo_fa s1) (map snd (List.map_filter id (lo_boot s1)))\<rparr>"
      using assms(5,7) Inr
      by (auto simp: load_and_map_def mx_def[symmetric] J_def[symmetric] Let_def split: option.splits sum.splits)
    have a0: "T0 \<inter> avail (lo_fa ?s0) = {}" using assms(4) by simp
    have l2: "length [] + length J \<le> length (lo_boot ?s0)" using len assms(5) by simp
    have "\<exists>J' frames T L. loaded owns l4 T0 ?s0 J' frames T L s1 \<and>
        ((L = {} \<and> e \<in> lj_error ` set J) \<or>
         (e = ''page already mapped or table allocation failed'' \<and> (\<exists>l. L = {l})))"
      using load_pages_result[OF st assms(1) a0 l2, unfolded s1 option.case sum.case prod.case append_Nil] by blast
    then obtain J' frames T L where F: "loaded owns l4 T0 ?s0 J' frames T L s1"
      and L: "(L = {} \<and> e \<in> lj_error ` set J) \<or>
         (e = ''page already mapped or table allocation failed'' \<and> (\<exists>l. L = {l}))" by blast
    note D = loadedD[OF F, simplified]
    have b: "lo_boot ?s0 = replicate MAX_BOOT_FRAMES None" "fa_wf (lo_fa ?s0)" using assms(2,5) by simp_all
    note R = rollback_frames[OF F b]
    have "e \<noteq> ''page already mapped or table allocation failed''" if "e \<in> lj_error ` set J"
      using that mapping_message(2)[of _ binary "im_segs im"] by (auto simp: J_def)
    then have "if e = ''page already mapped or table allocation failed'' then \<exists>l. L = {l} else L = {}" using L by auto
    then show ?thesis using R(1,2) D(9,11,13) unfolding s' by (intro conjI exI[of _ T] exI[of _ L]) simp_all
  qed
qed

text \<open>A mapper that has all its tables already, and one that refuses.\<close>

definition plain_mapper :: mapper where "plain_mapper l4 va phys fl st = (True, st)"
definition refusing_mapper :: mapper where "refusing_mapper l4 va phys fl st = (False, st)"

lemma simple_mappers: "mapper_ok plain_mapper (\<lambda>m l4 T. True)" "mapper_ok refusing_mapper (\<lambda>m l4 T. True)"
  by (auto simp: mapper_ok_def plain_mapper_def refusing_mapper_def)

definition fresh_loading :: loading where
  "fresh_loading = \<lparr>lo_mem = (\<lambda>_. 0), lo_fa = \<lparr>fa_bitmap = [0], fa_frames = 64, fa_free = 64\<rparr>,
     lo_boot = replicate MAX_BOOT_FRAMES None, lo_next = 0\<rparr>"

lemma fresh_wf: "fa_wf (lo_fa fresh_loading)"
proof -
  have "avail (lo_fa fresh_loading) = {..<64}" by (auto simp: avail_def fresh_loading_def used_def)
  then show ?thesis by (simp add: fa_wf_def fresh_loading_def FRAME_SIZE_def)
qed

lemma sample_parse_user:
  "parse sample_elf USER_IMAGE_BASE USER_IMAGE_END 60 = Inr \<lparr>im_entry = 0x400000, im_segs = [sample_seg]\<rparr>"
  unfolding USER_IMAGE_BASE_def USER_IMAGE_END_def
  by (rule parse_budget[OF sample_parse]) (simp_all add: sample_elf_def)

lemma budget_word: "saturating_sub (of_nat MAX_BOOT_FRAMES) (of_nat USER_STACK_PAGES) = (60 :: u64)"
  using page_budget by (simp add: word_unat_eq_iff)


lemma refused_load:
  "load_and_map refusing_mapper sample_elf 0 fresh_loading =
    (Some (Inl (''page already mapped or table allocation failed'', [])),
     snd (load_and_map refusing_mapper sample_elf 0 fresh_loading))"
proof -
  obtain p fa where a: "alloc (lo_fa fresh_loading) = Inr (p, fa)"
  proof -
    have "0 \<in> avail (lo_fa fresh_loading)" by (simp add: fresh_loading_def avail_def used_def)
    then have "\<nexists>e. alloc (lo_fa fresh_loading) = Inl e" using alloc_Inl_iff[OF fresh_wf] by blast
    then show ?thesis using that by (cases "alloc (lo_fa fresh_loading)") auto
  qed
  have pg: "pages sample_seg = Suc 0" by (simp add: pages_def sample_seg_def div_ceil_def PAGE_def)
  have nx: "lo_next fresh_loading = 0" by (simp add: fresh_loading_def)
  have mf: "List.map_filter id (replicate n None) = []" for n :: nat by (induction n) (simp_all add: map_filter_def)
  show ?thesis
    by (simp add: load_and_map_def budget_word fresh_loading_def[THEN arg_cong, of lo_boot] sample_parse_user Let_def
        seg_jobs_def pg load_page_def a refusing_mapper_def mf)
qed

lemma load_failure_witness:
  "\<exists>l s'. load_and_map refusing_mapper sample_elf 0 fresh_loading =
      (Some (Inl (''page already mapped or table allocation failed'', [])), s') \<and>
    l \<in> avail (lo_fa fresh_loading) \<and> l \<notin> avail (lo_fa s')"
proof -
  have l: "length sample_elf < 2 ^ 64" by (simp add: sample_elf_def)
  have b: "lo_boot fresh_loading = replicate MAX_BOOT_FRAMES None" by (simp add: fresh_loading_def)
  show ?thesis
    using load_failure[OF simple_mappers(2) fresh_wf TrueI Int_empty_left b l refused_load] refused_load
    by (auto simp del: list.inject)
qed

end
