(* ===== verification/User_Map.thy ===== *)
theory User_Map
  imports Fault Loader
begin

text \<open>
  The system calls that work on the caller's memory, \<open>kernel/src/syscall.rs\<close>: \<open>write\<close>,
  \<open>frame_map\<close>, \<open>fb_map\<close>, \<open>bind_device\<close> and the check of \<open>spawn_from_buffer\<close>.  Walking and
  changing page tables is the \<open>x86_64\<close> crate's; it is the parameter \<open>mmu\<close>, whose \<open>mu_translate\<close> is
  \<open>None\<close> where \<open>VirtAddr::new\<close> panics.  Loads and stores through the active address space are the
  processor's.  The theorems state when each call succeeds, that a failed call leaves every mapping as
  it was, and that \<open>write\<close> panics on a pointer that is not an address.
\<close>

section \<open>Definitions\<close>

definition USER_MAP_BASE :: u64 where "USER_MAP_BASE = 0x10000000"
definition USER_MAP_END :: u64 where "USER_MAP_END = 0x20000000"
definition MAX_WRITE :: u64 where "MAX_WRITE = 4096"
definition MAX_SPAWN_ELF :: u64 where "MAX_SPAWN_ELF = 256 * 1024"

text \<open>A mapping: the frame, its flags, and whether it is uncached.\<close>

type_synonym mapping = "u64 \<times> page_flags \<times> bool"

record mmu =
  mu_translate :: "mem \<Rightarrow> u64 \<Rightarrow> u64 \<Rightarrow> mapping option option"
  mu_map :: "u64 \<Rightarrow> u64 \<Rightarrow> mapping \<Rightarrow> mem \<times> frame_alloc \<Rightarrow> bool \<times> mem \<times> frame_alloc"
  mu_unmap :: "u64 \<Rightarrow> mem \<Rightarrow> u64 \<Rightarrow> mem"
  mu_load :: "mem \<Rightarrow> u64 \<Rightarrow> u64 \<Rightarrow> u8"
  mu_store :: "mem \<Rightarrow> u64 \<Rightarrow> u64 \<Rightarrow> u8 list \<Rightarrow> mem"

text \<open>The part of the kernel the calls work on; \<open>us_serial\<close> is what was sent to the console.\<close>

record user_state =
  us_proc :: "process option"
  us_mem :: mem
  us_alloc :: frame_alloc
  us_serial :: "u8 list"

definition user_accessible :: "mmu \<Rightarrow> mem \<Rightarrow> u64 \<Rightarrow> u64 \<Rightarrow> bool option" where
  "user_accessible mu m l4 va =
     map_option (\<lambda>t. case t of None \<Rightarrow> False | Some (phys, fl, uncached) \<Rightarrow> pf_user fl) (mu_translate mu m l4 va)"

definition is_mapped :: "mmu \<Rightarrow> mem \<Rightarrow> u64 \<Rightarrow> u64 \<Rightarrow> bool option" where
  "is_mapped mu m l4 va = map_option (\<lambda>t. t \<noteq> None) (mu_translate mu m l4 va)"

definition user_page :: page_flags where
  "user_page = \<lparr>pf_present = True, pf_user = True, pf_writable = True, pf_no_execute = True\<rparr>"

text \<open>
  The loop over the pages of a buffer: from \<open>page\<close> until the page of the last byte, at most \<open>n\<close> pages.
  \<open>None\<close> is the panic of an address that is not canonical.
\<close>

fun pages_accessible :: "mmu \<Rightarrow> mem \<Rightarrow> u64 \<Rightarrow> u64 \<Rightarrow> u64 \<Rightarrow> nat \<Rightarrow> bool option" where
  "pages_accessible mu m l4 page last_page 0 = Some True"
| "pages_accessible mu m l4 page last_page (Suc n) =
     (case user_accessible mu m l4 page of
        None \<Rightarrow> None
      | Some False \<Rightarrow> Some False
      | Some True \<Rightarrow>
          if last_page \<le> page then Some True
          else pages_accessible mu m l4 (page + of_nat FRAME_SIZE) last_page n)"

definition span_pages :: "u64 \<Rightarrow> u64 \<Rightarrow> nat" where
  "span_pages ptr final = unat (page_floor final - page_floor ptr) div FRAME_SIZE + 1"

definition buffer_accessible :: "mmu \<Rightarrow> mem \<Rightarrow> u64 \<Rightarrow> u64 \<Rightarrow> u64 \<Rightarrow> bool option" where
  "buffer_accessible mu m l4 ptr final =
     pages_accessible mu m l4 (page_floor ptr) (page_floor final) (span_pages ptr final)"

definition sys_write :: "mmu \<Rightarrow> user_state \<Rightarrow> u64 \<Rightarrow> u64 \<Rightarrow> (u64 \<times> user_state) option" where
  "sys_write mu s ptr len =
     (if len = 0 then Some (0, s)
      else if MAX_WRITE < len then Some (ERR, s)
      else (case checked_add ptr (len - 1) of
              None \<Rightarrow> Some (ERR, s)
            | Some final \<Rightarrow>
                (case us_proc s of
                   None \<Rightarrow> Some (ERR, s)
                 | Some p \<Rightarrow>
                     (case buffer_accessible mu (us_mem s) (p_l4 p) ptr final of
                        None \<Rightarrow> None
                      | Some False \<Rightarrow> Some (ERR, s)
                      | Some True \<Rightarrow>
                          Some (len, s\<lparr>us_serial := us_serial s @
                            map (\<lambda>i. mu_load mu (us_mem s) (p_l4 p) (ptr + of_nat i)) [0..<unat len]\<rparr>)))))"

definition sys_frame_map :: "mmu \<Rightarrow> user_state \<Rightarrow> u64 \<Rightarrow> u64 \<Rightarrow> (u64 \<times> user_state) option" where
  "sys_frame_map mu s slot va =
     (if unat va mod FRAME_SIZE \<noteq> 0 \<or> va < USER_MAP_BASE \<or> USER_MAP_END \<le> va then Some (ERR, s)
      else (case us_proc s of
              None \<Rightarrow> Some (ERR, s)
            | Some p \<Rightarrow>
                (case lookup (p_caps p) (unat slot) RIGHT_MAP of
                   Inl _ \<Rightarrow> Some (ERR, s)
                 | Inr c \<Rightarrow>
                     (case cap_obj c of
                        Frame addr \<Rightarrow>
                          (case position (\<lambda>e. e = None) (p_maps p) of
                             None \<Rightarrow> Some (ERR, s)
                           | Some i \<Rightarrow>
                               (case is_mapped mu (us_mem s) (p_l4 p) va of
                                  None \<Rightarrow> None
                                | Some True \<Rightarrow> Some (ERR, s)
                                | Some False \<Rightarrow>
                                    let (ok, m, fa) = mu_map mu (p_l4 p) va (addr, user_page, False) (us_mem s, us_alloc s);
                                        s' = s\<lparr>us_mem := m, us_alloc := fa\<rparr>
                                    in if \<not> ok then Some (ERR, s')
                                       else Some (0, s'\<lparr>us_proc := Some (p\<lparr>p_maps := (p_maps p)[i := Some (va, unat slot)]\<rparr>)\<rparr>)))
                      | _ \<Rightarrow> Some (ERR, s)))))"

text \<open>
  Mapping a list of pages with roll-back: \<open>mapped\<close> are the addresses mapped so far, unmapped in order
  when a mapping fails.
\<close>

fun map_all :: "mmu \<Rightarrow> u64 \<Rightarrow> (u64 \<times> mapping) list \<Rightarrow> u64 list \<Rightarrow> mem \<times> frame_alloc \<Rightarrow> bool \<times> mem \<times> frame_alloc" where
  "map_all mu l4 [] mapped s = (True, s)"
| "map_all mu l4 ((va, mp) # rest) mapped s =
     (case mu_map mu l4 va mp s of
        (True, s') \<Rightarrow> map_all mu l4 rest (mapped @ [va]) s'
      | (False, m, fa) \<Rightarrow> (False, foldl (mu_unmap mu l4) m mapped, fa))"

definition u32_bytes :: "u32 \<Rightarrow> u8 list" where "u32_bytes v = le_bytes 4 (unat v)"
definition u64_bytes :: "u64 \<Rightarrow> u8 list" where "u64_bytes v = le_bytes 8 (unat v)"

definition fb_pages_to_map :: "u64 \<Rightarrow> u64 \<Rightarrow> u64 \<Rightarrow> (u64 \<times> mapping) list" where
  "fb_pages_to_map va phys_base span =
     map (\<lambda>i. (va + of_nat (i * FRAME_SIZE), (phys_base + of_nat (i * FRAME_SIZE), user_page, False)))
       [0..<unat span div FRAME_SIZE]"

definition sys_fb_map :: "mmu \<Rightarrow> user_state \<Rightarrow> u64 \<Rightarrow> u64 \<Rightarrow> u64 \<Rightarrow> (u64 \<times> user_state) option" where
  "sys_fb_map mu s slot va info_ptr =
     (case us_proc s of
        None \<Rightarrow> Some (ERR, s)
      | Some p \<Rightarrow>
          (case lookup (p_caps p) (unat slot) RIGHT_MAP of
             Inl _ \<Rightarrow> Some (ERR, s)
           | Inr c \<Rightarrow>
               (case cap_obj c of
                  Framebuffer phys_base width height stride bpp format \<Rightarrow>
                    if \<forall>e \<in> set (p_fb_maps p). e \<noteq> None then Some (ERR, s)
                    else
                      let map_size = (ucast height :: u64) * ucast stride * ucast bpp;
                          span = page_floor (map_size + of_nat FRAME_SIZE - 1)
                      in if span = 0 \<or> unat va mod FRAME_SIZE \<noteq> 0 \<or> va < USER_MAP_BASE then Some (ERR, s)
                      else (case checked_add va span of
                        None \<Rightarrow> Some (ERR, s)
                      | Some end_va \<Rightarrow>
                          if USER_MAP_END < end_va then Some (ERR, s)
                          else (case checked_add info_ptr (20 - 1) of
                            None \<Rightarrow> Some (ERR, s)
                          | Some info_last \<Rightarrow>
                              (case buffer_accessible mu (us_mem s) (p_l4 p) info_ptr info_last of
                                 None \<Rightarrow> None
                               | Some False \<Rightarrow> Some (ERR, s)
                               | Some True \<Rightarrow>
                                   (case map_all mu (p_l4 p) (fb_pages_to_map va phys_base span) [] (us_mem s, us_alloc s) of
                                      (False, m, fa) \<Rightarrow> Some (ERR, s\<lparr>us_mem := m, us_alloc := fa\<rparr>)
                                    | (True, m, fa) \<Rightarrow>
                                        (case fb_record (p_fb_maps p)
                                            \<lparr>fm_va = va, fm_pages = of_nat (unat span div FRAME_SIZE), fm_slot = unat slot\<rparr> of
                                           (False, _) \<Rightarrow>
                                             Some (ERR, s\<lparr>us_mem := foldl (mu_unmap mu (p_l4 p)) m
                                                 (map fst (fb_pages_to_map va phys_base span)), us_alloc := fa\<rparr>)
                                         | (True, maps) \<Rightarrow>
                                             Some (0, s\<lparr>us_mem := mu_store mu m (p_l4 p) info_ptr
                                                 (u32_bytes width @ u32_bytes height @ u32_bytes stride @
                                                  u32_bytes (ucast bpp) @ u32_bytes (ucast format)),
                                               us_alloc := fa, us_proc := Some (p\<lparr>p_fb_maps := maps\<rparr>)\<rparr>))))))
                | _ \<Rightarrow> Some (ERR, s))))"

record bound_map =
  bm_notify :: u64
  bm_desc :: u64
  bm_avail :: u64
  bm_used :: u64
  bm_buf :: u64
  bm_data :: u64
  bm_data_iova :: u64
  bm_buf_iova :: u64
  bm_qsize :: u16

definition device_pages :: "u64 \<Rightarrow> bound_map \<Rightarrow> (u64 \<times> mapping) list" where
  "device_pages va b =
     map (\<lambda>(i, phys, uncached). (va + of_nat (i * FRAME_SIZE), (phys, user_page, uncached)))
       [(0, bm_notify b, True), (1, bm_desc b, False), (2, bm_avail b, False), (3, bm_used b, False),
        (4, bm_buf b, False), (5, bm_data b, False)]"

text \<open>\<open>info\<close> is \<open>virtio_blk::bind_info\<close>: the directly bound devices.\<close>

definition sys_bind_device ::
    "mmu \<Rightarrow> (nat \<Rightarrow> bound_map option) \<Rightarrow> user_state \<Rightarrow> u64 \<Rightarrow> u64 \<Rightarrow> u64 \<Rightarrow> (u64 \<times> user_state) option" where
  "sys_bind_device mu info s slot va info_ptr =
     (case us_proc s of
        None \<Rightarrow> Some (ERR, s)
      | Some p \<Rightarrow>
          (case lookup (p_caps p) (unat slot) RIGHT_MAP of
             Inl _ \<Rightarrow> Some (ERR, s)
           | Inr c \<Rightarrow>
               (case cap_obj c of
                  BoundDevice dev \<Rightarrow>
                    if unat va mod FRAME_SIZE \<noteq> 0 \<or> va < USER_MAP_BASE then Some (ERR, s)
                    else (case checked_add va (6 * of_nat FRAME_SIZE) of
                      None \<Rightarrow> Some (ERR, s)
                    | Some end_va \<Rightarrow>
                        if USER_MAP_END < end_va then Some (ERR, s)
                        else (case checked_add info_ptr (24 - 1) of
                          None \<Rightarrow> Some (ERR, s)
                        | Some info_last \<Rightarrow>
                            if unat info_ptr mod 8 \<noteq> 0 then Some (ERR, s)
                            else (case user_accessible mu (us_mem s) (p_l4 p) (page_floor info_ptr) of
                              None \<Rightarrow> None
                            | Some False \<Rightarrow> Some (ERR, s)
                            | Some True \<Rightarrow>
                                (case user_accessible mu (us_mem s) (p_l4 p) (page_floor info_last) of
                                   None \<Rightarrow> None
                                 | Some False \<Rightarrow> Some (ERR, s)
                                 | Some True \<Rightarrow>
                                     (case info (unat dev) of
                                        None \<Rightarrow> Some (ERR, s)
                                      | Some b \<Rightarrow>
                                          (case map_all mu (p_l4 p) (device_pages va b) [] (us_mem s, us_alloc s) of
                                             (False, m, fa) \<Rightarrow> Some (ERR, s\<lparr>us_mem := m, us_alloc := fa\<rparr>)
                                           | (True, m, fa) \<Rightarrow>
                                               Some (0, s\<lparr>us_mem := mu_store mu m (p_l4 p) info_ptr
                                                   (u64_bytes (ucast (bm_qsize b)) @ u64_bytes (bm_data_iova b) @
                                                    u64_bytes (bm_buf_iova b)),
                                                 us_alloc := fa\<rparr>)))))))
                | _ \<Rightarrow> Some (ERR, s))))"

text \<open>\<open>spawn_from_buffer\<close> up to the bytes it hands on: an error, or the ELF image in the buffer.\<close>

definition spawn_buffer :: "mmu \<Rightarrow> user_state \<Rightarrow> u64 \<Rightarrow> u64 \<Rightarrow> u8 list option option" where
  "spawn_buffer mu s buf_va len =
     (if len = 0 \<or> MAX_SPAWN_ELF < len \<or> unat buf_va mod FRAME_SIZE \<noteq> 0 then Some None
      else (case checked_add buf_va (len - 1) of
              None \<Rightarrow> Some None
            | Some final \<Rightarrow>
                if buf_va < USER_MAP_BASE \<or> USER_MAP_END \<le> buf_va \<or> final < USER_MAP_BASE \<or> USER_MAP_END \<le> final
                then Some None
                else (case us_proc s of
                        None \<Rightarrow> Some None
                      | Some p \<Rightarrow>
                          (case buffer_accessible mu (us_mem s) (p_l4 p) buf_va final of
                             None \<Rightarrow> None
                           | Some False \<Rightarrow> Some None
                           | Some True \<Rightarrow>
                               Some (Some (map (\<lambda>i. mu_load mu (us_mem s) (p_l4 p) (buf_va + of_nat i)) [0..<unat len]))))))"

section \<open>Pages\<close>

lemma page_floor_shift: "page_floor a = push_bit 12 (drop_bit 12 a)"
proof (rule bit_word_eqI)
  fix n
  assume n: "n < LENGTH(64)"
  have "of_nat FRAME_SIZE - 1 = (mask 12 :: u64)" by (simp add: FRAME_SIZE_def mask_eq_exp_minus_1)
  then show "bit (page_floor a) n = bit (push_bit 12 (drop_bit 12 a)) n"
    using n by (auto simp: page_floor_def bit_simps)
qed

lemma unat_page_floor: "unat (page_floor a) = unat a div FRAME_SIZE * FRAME_SIZE"
proof -
  have "unat a div 2 ^ 12 * 2 ^ 12 \<le> unat a" by simp
  then have "unat a div 2 ^ 12 * 2 ^ 12 < 2 ^ 64" using unat_u64_less[of a] by simp
  moreover have "unat (drop_bit 12 a) = unat a div 2 ^ 12"
    using unat_u64_less[of a] by (subst unsigned_drop_bit_eq) (simp add: drop_bit_eq_div take_bit_nat_eq_self)
  moreover have "unat (push_bit 12 w) = take_bit 64 (unat w * 2 ^ 12)" for w :: u64
    by (subst unsigned_push_bit_eq) (simp add: push_bit_eq_mult)
  ultimately have "unat (push_bit 12 (drop_bit 12 a)) = unat a div 2 ^ 12 * 2 ^ 12"
    by (simp only: take_bit_nat_eq_self)
  then show ?thesis by (simp add: page_floor_shift FRAME_SIZE_def)
qed

lemma page_floor_idem [simp]: "page_floor (page_floor a) = page_floor a"
  by (rule word_unat_eq_iff[THEN iffD2]) (simp add: unat_page_floor FRAME_SIZE_def)

definition page_aligned :: "u64 \<Rightarrow> bool" where
  "page_aligned a \<longleftrightarrow> unat a mod FRAME_SIZE = 0"

lemma aligned_floor: "page_aligned a \<longleftrightarrow> page_floor a = a"
  unfolding page_aligned_def word_unat_eq_iff unat_page_floor
  using div_mult_mod_eq[of "unat a" FRAME_SIZE] by linarith

lemma aligned_page_floor [simp]: "page_aligned (page_floor a)"
  by (simp add: aligned_floor)

lemma page_floor_range: "page_floor a \<le> a" "unat a < unat (page_floor a) + FRAME_SIZE"
  using div_mult_mod_eq[of "unat a" FRAME_SIZE] mod_less_divisor[of FRAME_SIZE "unat a"]
  by (simp_all add: word_le_nat_alt unat_page_floor FRAME_SIZE_def)

text \<open>The pages from the page of \<open>a\<close> to the page of \<open>b\<close>.\<close>

lemma nth_page:
  assumes "a \<le> b" "i < span_pages a b"
  shows "unat (page_floor a + of_nat (i * FRAME_SIZE)) = unat (page_floor a) + i * FRAME_SIZE"
    and "page_aligned (page_floor a + of_nat (i * FRAME_SIZE))"
    and "page_floor a + of_nat (i * FRAME_SIZE) \<le> page_floor b"
proof -
  have le: "unat (page_floor a) \<le> unat (page_floor b)"
    using assms(1) by (simp add: unat_page_floor word_le_nat_alt div_le_mono)
  then have "page_floor a \<le> page_floor b" by (simp add: word_le_nat_alt)
  then have d: "unat (page_floor b - page_floor a) = unat (page_floor b) - unat (page_floor a)" by (rule unat_sub)
  have "i \<le> (unat (page_floor b) - unat (page_floor a)) div FRAME_SIZE"
    using assms(2) by (simp add: span_pages_def d)
  then have "i * FRAME_SIZE \<le> (unat (page_floor b) - unat (page_floor a)) div FRAME_SIZE * FRAME_SIZE"
    by (rule mult_le_mono1)
  also have "\<dots> \<le> unat (page_floor b) - unat (page_floor a)" by simp
  finally have i: "unat (page_floor a) + i * FRAME_SIZE \<le> unat (page_floor b)" using le by linarith
  then have small: "unat (page_floor a) + i * FRAME_SIZE < 18446744073709551616"
    using unat_u64_less[of "page_floor b"] by linarith
  then have "unat (of_nat (i * FRAME_SIZE) :: u64) = i * FRAME_SIZE" by (intro unat_of_nat_id) simp
  then show u: "unat (page_floor a + of_nat (i * FRAME_SIZE)) = unat (page_floor a) + i * FRAME_SIZE"
    using small by (subst unat_add_if_less) simp_all
  show "page_aligned (page_floor a + of_nat (i * FRAME_SIZE))"
    unfolding page_aligned_def u by (simp add: unat_page_floor FRAME_SIZE_def)
  show "page_floor a + of_nat (i * FRAME_SIZE) \<le> page_floor b"
    using i unfolding word_le_nat_alt u .
qed

section \<open>Checking a buffer\<close>

definition user_page_at :: "mmu \<Rightarrow> mem \<Rightarrow> u64 \<Rightarrow> u64 \<Rightarrow> bool" where
  "user_page_at mu m l4 va \<longleftrightarrow> user_accessible mu m l4 va = Some True"

lemma pages_accessible_True:
  assumes "pages_accessible mu m l4 page last_page n = Some True" "i < n"
    and "\<And>j. j < i \<Longrightarrow> page + of_nat (j * FRAME_SIZE) < last_page"
  shows "user_page_at mu m l4 (page + of_nat (i * FRAME_SIZE))"
  using assms
proof (induction n arbitrary: page i)
  case (Suc n)
  have a: "user_accessible mu m l4 page = Some True"
    and rest: "\<not> last_page \<le> page \<Longrightarrow> pages_accessible mu m l4 (page + of_nat FRAME_SIZE) last_page n = Some True"
    using Suc.prems(1) by (auto split: option.splits bool.splits if_splits)
  show ?case
  proof (cases i)
    case 0
    then show ?thesis using a by (simp add: user_page_at_def)
  next
    case (Suc j)
    have shift: "page + of_nat FRAME_SIZE + of_nat (k * FRAME_SIZE) = page + of_nat (Suc k * FRAME_SIZE)" for k
      by (simp add: algebra_simps)
    have "\<not> last_page \<le> page" using Suc.prems(3)[of 0] Suc by simp
    then show ?thesis
      using Suc.IH[OF rest, of j] Suc Suc.prems(2,3) shift by (metis Suc_less_eq)
  qed
qed simp

lemma pages_accessible_all:
  assumes "\<And>i. i < n \<Longrightarrow> user_page_at mu m l4 (page + of_nat (i * FRAME_SIZE))"
  shows "pages_accessible mu m l4 page last_page n = Some True"
  using assms
proof (induction n arbitrary: page)
  case (Suc n)
  have "user_page_at mu m l4 (page + of_nat FRAME_SIZE + of_nat (i * FRAME_SIZE))" if "i < n" for i
    using Suc.prems[of "Suc i"] that by (simp add: algebra_simps)
  then have "pages_accessible mu m l4 (page + of_nat FRAME_SIZE) last_page n = Some True" by (rule Suc.IH)
  then show ?case using Suc.prems[of 0] by (simp add: user_page_at_def)
qed simp

text \<open>The check succeeds exactly when every page a byte of the buffer lies in is a user page.\<close>

lemma buffer_accessible_iff:
  assumes "a \<le> b"
  shows "buffer_accessible mu m l4 a b = Some True \<longleftrightarrow>
    (\<forall>x. a \<le> x \<and> x \<le> b \<longrightarrow> user_page_at mu m l4 (page_floor x))"
proof
  assume L: "buffer_accessible mu m l4 a b = Some True"
  show "\<forall>x. a \<le> x \<and> x \<le> b \<longrightarrow> user_page_at mu m l4 (page_floor x)"
  proof (intro allI impI)
    fix x
    assume x: "a \<le> x \<and> x \<le> b"
    define i where "i = unat x div FRAME_SIZE - unat a div FRAME_SIZE"
    have o: "unat a div FRAME_SIZE \<le> unat x div FRAME_SIZE" "unat x div FRAME_SIZE \<le> unat b div FRAME_SIZE"
      using x by (simp_all add: word_le_nat_alt div_le_mono)
    have "page_floor a \<le> page_floor b"
      using o by (simp add: word_le_nat_alt unat_page_floor)
    then have "span_pages a b = unat b div FRAME_SIZE - unat a div FRAME_SIZE + 1"
      by (simp add: span_pages_def unat_sub unat_page_floor FRAME_SIZE_def flip: diff_mult_distrib)
    then have i: "i < span_pages a b" using o by (simp add: i_def)
    have at: "page_floor a + of_nat (i * FRAME_SIZE) = page_floor x"
      using nth_page(1)[OF assms i] o
      by (simp add: word_unat_eq_iff unat_page_floor i_def FRAME_SIZE_def diff_mult_distrib)
    have "page_floor a + of_nat (j * FRAME_SIZE) < page_floor b" if "j < i" for j
    proof -
      have "j < span_pages a b" using that i by simp
      then have "unat (page_floor a + of_nat (j * FRAME_SIZE)) < unat (page_floor a + of_nat (i * FRAME_SIZE))"
        using nth_page(1)[OF assms i] nth_page(1)[OF assms, of j] that by (simp add: FRAME_SIZE_def)
      then show ?thesis using nth_page(3)[OF assms i] by (simp add: word_less_nat_alt word_le_nat_alt)
    qed
    then show "user_page_at mu m l4 (page_floor x)"
      using pages_accessible_True[OF L[unfolded buffer_accessible_def] i] unfolding at by blast
  qed
next
  assume R: "\<forall>x. a \<le> x \<and> x \<le> b \<longrightarrow> user_page_at mu m l4 (page_floor x)"
  show "buffer_accessible mu m l4 a b = Some True"
    unfolding buffer_accessible_def
  proof (rule pages_accessible_all)
    fix i
    assume i: "i < span_pages a b"
    let ?p = "page_floor a + of_nat (i * FRAME_SIZE)"
    have f: "page_floor ?p = ?p" using nth_page(2)[OF assms i] by (simp add: aligned_floor)
    show "user_page_at mu m l4 ?p"
    proof (cases "i = 0")
      case True
      then show ?thesis using R assms by auto
    next
      case False
      have "unat a < unat (page_floor a) + FRAME_SIZE" by (rule page_floor_range)
      also have "\<dots> \<le> unat ?p" using nth_page(1)[OF assms i] False by (simp add: FRAME_SIZE_def)
      finally have "a \<le> ?p" by (simp add: word_le_nat_alt)
      moreover have "?p \<le> b" using nth_page(3)[OF assms i] page_floor_range(1)[of b] by simp
      ultimately show ?thesis using R f by metis
    qed
  qed
qed

lemma buffer_accessible_None:
  assumes "mu_translate mu m l4 (page_floor a) = None"
  shows "buffer_accessible mu m l4 a b = None"
  using assms by (simp add: buffer_accessible_def span_pages_def user_accessible_def)

section \<open>What the calls rely on\<close>

text \<open>
  \<open>owns m l4 T\<close>: \<open>T\<close> holds every page-table frame of the address space \<open>l4\<close> in \<open>m\<close>.  A translation
  depends on the page alone.  With the table frames apart from the free ones, mapping a user page
  succeeds only where nothing is mapped, changes the translation of that page only, and takes table
  frames from the free ones; unmapping removes that page's translation only; and an address whose
  upper bits are neither all zero nor all one is a panic.
\<close>

definition canonical :: "u64 \<Rightarrow> bool" where
  "canonical a \<longleftrightarrow> drop_bit 47 a = 0 \<or> drop_bit 47 a = mask 17"

definition by_page :: "mmu \<Rightarrow> bool" where
  "by_page mu \<longleftrightarrow> (\<forall>m l4 va. mu_translate mu m l4 va = mu_translate mu m l4 (page_floor va))"

definition rejects_bad_addresses :: "mmu \<Rightarrow> bool" where
  "rejects_bad_addresses mu \<longleftrightarrow>
     (\<forall>m l4 va. canonical va \<longrightarrow> mu_translate mu m l4 va \<noteq> None) \<and>
     (\<forall>m l4 va. drop_bit 48 va \<noteq> 0 \<and> drop_bit 48 va \<noteq> mask 16 \<longrightarrow> mu_translate mu m l4 va = None)"

definition maps_one_page :: "mmu \<Rightarrow> (mem \<Rightarrow> u64 \<Rightarrow> nat set \<Rightarrow> bool) \<Rightarrow> bool" where
  "maps_one_page mu owns \<longleftrightarrow>
     (\<forall>l4 va mp m fa ok m' fa' T. mu_map mu l4 va mp (m, fa) = (ok, m', fa') \<longrightarrow>
        page_aligned va \<longrightarrow> va < USER_MAP_END \<longrightarrow> fa_wf fa \<longrightarrow> owns m l4 T \<longrightarrow> T \<inter> avail fa = {} \<longrightarrow>
        fa_wf fa' \<and> avail fa' \<subseteq> avail fa \<and> owns m' l4 (T \<union> (avail fa - avail fa')) \<and>
        (ok \<longrightarrow> mu_translate mu m l4 va = Some None \<and> mu_translate mu m' l4 va = Some (Some mp)) \<and>
        (\<not> ok \<longrightarrow> mu_translate mu m' l4 va = mu_translate mu m l4 va) \<and>
        (\<forall>w. page_floor w \<noteq> va \<longrightarrow> mu_translate mu m' l4 w = mu_translate mu m l4 w))"

definition unmaps_one_page :: "mmu \<Rightarrow> (mem \<Rightarrow> u64 \<Rightarrow> nat set \<Rightarrow> bool) \<Rightarrow> bool" where
  "unmaps_one_page mu owns \<longleftrightarrow>
     (\<forall>l4 va m T. page_aligned va \<longrightarrow> va < USER_MAP_END \<longrightarrow> owns m l4 T \<longrightarrow>
        owns (mu_unmap mu l4 m va) l4 T \<and> mu_translate mu (mu_unmap mu l4 m va) l4 va = Some None \<and>
        (\<forall>w. page_floor w \<noteq> va \<longrightarrow> mu_translate mu (mu_unmap mu l4 m va) l4 w = mu_translate mu m l4 w))"

definition mmu_ok :: "mmu \<Rightarrow> (mem \<Rightarrow> u64 \<Rightarrow> nat set \<Rightarrow> bool) \<Rightarrow> bool" where
  "mmu_ok mu owns \<longleftrightarrow> by_page mu \<and> rejects_bad_addresses mu \<and> maps_one_page mu owns \<and> unmaps_one_page mu owns"

lemma mmu_okD:
  "mmu_ok mu owns \<Longrightarrow> by_page mu" "mmu_ok mu owns \<Longrightarrow> rejects_bad_addresses mu"
  "mmu_ok mu owns \<Longrightarrow> maps_one_page mu owns" "mmu_ok mu owns \<Longrightarrow> unmaps_one_page mu owns"
  by (simp_all add: mmu_ok_def)

lemma mmu_page: "mmu_ok mu owns \<Longrightarrow> mu_translate mu m l4 va = mu_translate mu m l4 (page_floor va)"
  by (rule mmu_okD(1)[unfolded by_page_def, rule_format])

lemma mmu_map:
  assumes "mmu_ok mu owns" "mu_map mu l4 va mp (m, fa) = (ok, m', fa')" "page_aligned va" "va < USER_MAP_END"
    and "fa_wf fa" "owns m l4 T" "T \<inter> avail fa = {}"
  shows "fa_wf fa'" "avail fa' \<subseteq> avail fa" "owns m' l4 (T \<union> (avail fa - avail fa'))"
    "(T \<union> (avail fa - avail fa')) \<inter> avail fa' = {}"
    "ok \<Longrightarrow> mu_translate mu m l4 va = Some None" "ok \<Longrightarrow> mu_translate mu m' l4 va = Some (Some mp)"
    "\<not> ok \<Longrightarrow> mu_translate mu m' l4 w = mu_translate mu m l4 w"
    "page_floor w \<noteq> va \<Longrightarrow> mu_translate mu m' l4 w = mu_translate mu m l4 w"
proof -
  have L: "fa_wf fa' \<and> avail fa' \<subseteq> avail fa \<and> owns m' l4 (T \<union> (avail fa - avail fa')) \<and>
        (ok \<longrightarrow> mu_translate mu m l4 va = Some None \<and> mu_translate mu m' l4 va = Some (Some mp)) \<and>
        (\<not> ok \<longrightarrow> mu_translate mu m' l4 va = mu_translate mu m l4 va) \<and>
        (\<forall>w. page_floor w \<noteq> va \<longrightarrow> mu_translate mu m' l4 w = mu_translate mu m l4 w)"
    using mmu_okD(3)[OF assms(1), unfolded maps_one_page_def, rule_format, OF assms(2-7)] by blast
  then show "fa_wf fa'" "avail fa' \<subseteq> avail fa" "owns m' l4 (T \<union> (avail fa - avail fa'))"
    "ok \<Longrightarrow> mu_translate mu m l4 va = Some None" "ok \<Longrightarrow> mu_translate mu m' l4 va = Some (Some mp)"
    "page_floor w \<noteq> va \<Longrightarrow> mu_translate mu m' l4 w = mu_translate mu m l4 w" by blast+
  show "(T \<union> (avail fa - avail fa')) \<inter> avail fa' = {}" using L assms(7) by blast
  show "\<not> ok \<Longrightarrow> mu_translate mu m' l4 w = mu_translate mu m l4 w"
    using L mmu_page[OF assms(1), of m' l4 w] mmu_page[OF assms(1), of m l4 w] by metis
qed

lemma mmu_unmap:
  assumes "mmu_ok mu owns" "page_aligned va" "va < USER_MAP_END" "owns m l4 T"
  shows "owns (mu_unmap mu l4 m va) l4 T"
    "mu_translate mu (mu_unmap mu l4 m va) l4 w = (if page_floor w = va then Some None else mu_translate mu m l4 w)"
proof -
  have L: "owns (mu_unmap mu l4 m va) l4 T \<and> mu_translate mu (mu_unmap mu l4 m va) l4 va = Some None \<and>
        (\<forall>w. page_floor w \<noteq> va \<longrightarrow> mu_translate mu (mu_unmap mu l4 m va) l4 w = mu_translate mu m l4 w)"
    using mmu_okD(4)[OF assms(1), unfolded unmaps_one_page_def, rule_format, OF assms(2-4)] by blast
  then show "owns (mu_unmap mu l4 m va) l4 T" by blast
  show "mu_translate mu (mu_unmap mu l4 m va) l4 w = (if page_floor w = va then Some None else mu_translate mu m l4 w)"
    using L mmu_page[OF assms(1), of "mu_unmap mu l4 m va" l4 w] by metis
qed

lemma unmap_all:
  assumes "mmu_ok mu owns" "\<forall>va \<in> set vs. page_aligned va \<and> va < USER_MAP_END" "owns m l4 T"
  shows "owns (foldl (mu_unmap mu l4) m vs) l4 T \<and>
    mu_translate mu (foldl (mu_unmap mu l4) m vs) l4 w =
      (if page_floor w \<in> set vs then Some None else mu_translate mu m l4 w)"
  using assms(2,3)
proof (induction vs arbitrary: m)
  case (Cons v vs)
  have v: "page_aligned v" "v < USER_MAP_END" using Cons.prems(1) by simp_all
  note U = mmu_unmap[OF assms(1) v Cons.prems(2)]
  show ?case using Cons.IH[OF _ U(1)] Cons.prems(1) U(2)[of w] by auto
qed simp

text \<open>Mapping a list of pages is all or nothing.\<close>

lemma map_all_spec:
  assumes "mmu_ok mu owns" "map_all mu l4 ps vs (m, fa) = (ok, m', fa')"
    and "\<forall>(va, mp) \<in> set ps. page_aligned va \<and> va < USER_MAP_END" "\<forall>va \<in> set vs. page_aligned va \<and> va < USER_MAP_END"
    and "distinct (map fst ps)" "fa_wf fa" "owns m l4 T" "T \<inter> avail fa = {}"
  shows "fa_wf fa' \<and> avail fa' \<subseteq> avail fa \<and> owns m' l4 (T \<union> (avail fa - avail fa')) \<and>
    (\<not> ok \<longrightarrow> (\<forall>w. mu_translate mu m' l4 w = (if page_floor w \<in> set vs then Some None else mu_translate mu m l4 w))) \<and>
    (ok \<longrightarrow> (\<forall>(va, mp) \<in> set ps. mu_translate mu m l4 va = Some None \<and> mu_translate mu m' l4 va = Some (Some mp)) \<and>
            (\<forall>w. page_floor w \<notin> fst ` set ps \<longrightarrow> mu_translate mu m' l4 w = mu_translate mu m l4 w))"
  using assms(2-)
proof (induction ps arbitrary: vs m fa T)
  case Nil
  then show ?case by simp
next
  case (Cons e ps)
  obtain va mp where e: "e = (va, mp)" by (cases e)
  obtain b m1 fa1 where s: "mu_map mu l4 va mp (m, fa) = (b, m1, fa1)" by (cases "mu_map mu l4 va mp (m, fa)") auto
  have va: "page_aligned va" "va < USER_MAP_END" using Cons.prems(2) e by simp_all
  note M = mmu_map[OF assms(1) s va Cons.prems(5-7)]
  show ?case
  proof (cases b)
    case False
    then have r: "ok = False" "m' = foldl (mu_unmap mu l4) m1 vs" "fa' = fa1" using Cons.prems(1) e s by simp_all
    have "mu_translate mu m1 l4 w = mu_translate mu m l4 w" for w using M(7) False by blast
    then show ?thesis
      using unmap_all[OF assms(1) Cons.prems(3) M(3)] M(1,2) by (simp add: r)
  next
    case True
    then have rest: "map_all mu l4 ps (vs @ [va]) (m1, fa1) = (ok, m', fa')" using Cons.prems(1) e s by simp
    let ?T = "T \<union> (avail fa - avail fa1)"
    have IH: "fa_wf fa' \<and> avail fa' \<subseteq> avail fa1 \<and> owns m' l4 (?T \<union> (avail fa1 - avail fa')) \<and>
      (\<not> ok \<longrightarrow> (\<forall>w. mu_translate mu m' l4 w = (if page_floor w \<in> set (vs @ [va]) then Some None else mu_translate mu m1 l4 w))) \<and>
      (ok \<longrightarrow> (\<forall>(va, mp) \<in> set ps. mu_translate mu m1 l4 va = Some None \<and> mu_translate mu m' l4 va = Some (Some mp)) \<and>
              (\<forall>w. page_floor w \<notin> fst ` set ps \<longrightarrow> mu_translate mu m' l4 w = mu_translate mu m1 l4 w))"
      using Cons.prems(2-4) va e by (intro Cons.IH[OF rest _ _ _ M(1,3,4)]) auto
    have T: "?T \<union> (avail fa1 - avail fa') = T \<union> (avail fa - avail fa')" using M(2) IH by blast
    have fresh: "mu_translate mu m l4 w = Some None" if "page_floor w = va" for w
      using M(5)[OF True] mmu_page[OF assms(1), of m l4 w] that by simp
    have nin: "va \<notin> fst ` set ps" using Cons.prems(4) e by auto
    have fl: "page_floor va = va" using va(1) by (simp add: aligned_floor)
    have "\<forall>w. mu_translate mu m' l4 w = (if page_floor w \<in> set vs then Some None else mu_translate mu m l4 w)" if "\<not> ok"
      using IH that M(8) fresh by auto
    moreover have "mu_translate mu m l4 v = Some None \<and> mu_translate mu m' l4 v = Some (Some q)"
      if O: ok "(v, q) \<in> set (e # ps)" for v q
    proof (cases "(v, q) \<in> set ps")
      case True
      have "page_aligned v" using Cons.prems(2) O(2) by auto
      moreover have "v \<noteq> va" using nin True by force
      ultimately have "page_floor v \<noteq> va" by (simp add: aligned_floor)
      then show ?thesis using IH O(1) True M(8)[of v] by auto
    next
      case False
      then have v: "v = va" "q = mp" using O(2) e by simp_all
      have "mu_translate mu m' l4 va = mu_translate mu m1 l4 va" using IH O(1) nin fl by auto
      then show ?thesis using v M(5,6)[OF \<open>b\<close>] by simp
    qed
    moreover have "mu_translate mu m' l4 w = mu_translate mu m l4 w" if "ok" "page_floor w \<notin> fst ` set (e # ps)" for w
      using IH that e M(8)[of w] by auto
    ultimately show ?thesis using IH M(2) unfolding T by blast
  qed
qed

section \<open>The calls\<close>


lemma fb_record_room:
  assumes "\<exists>e \<in> set maps. e = None"
  shows "\<exists>maps'. fb_record maps r = (True, maps') \<and> Some r \<in> set maps' \<and>
    (\<forall>e. Some e \<in> set maps \<longrightarrow> Some e \<in> set maps')"
proof -
  obtain i where i: "position (\<lambda>e. e = None) maps = Some i"
    using assms position_exists[of None maps "\<lambda>e. e = None"] by blast
  note D = position_SomeD[OF i]
  have "fb_record maps r = (True, maps[i := Some r])" using i by (simp add: fb_record_def)
  moreover have "Some r \<in> set (maps[i := Some r])" using D(1) by (rule set_update_memI)
  moreover have "Some e \<in> set (maps[i := Some r])" if "Some e \<in> set maps" for e
    using that D(1,2) by (metis in_set_conv_nth length_list_update nth_list_update_neq option.distinct(1))
  ultimately show ?thesis by blast
qed

text \<open>The pages of a window that lies in the user mapping range.\<close>

lemma window_pages:
  assumes "page_aligned va" "unat va + n * FRAME_SIZE \<le> unat USER_MAP_END" "i < n"
  shows "unat (va + of_nat (i * FRAME_SIZE)) = unat va + i * FRAME_SIZE"
    and "page_aligned (va + of_nat (i * FRAME_SIZE))" and "va + of_nat (i * FRAME_SIZE) < USER_MAP_END"
proof -
  have "i * FRAME_SIZE < n * FRAME_SIZE" using assms(3) by (simp add: FRAME_SIZE_def)
  then have b: "unat va + i * FRAME_SIZE < unat USER_MAP_END" using assms(2) by linarith
  then have s: "unat va + i * FRAME_SIZE < 18446744073709551616" by (simp add: USER_MAP_END_def)
  then have "unat (of_nat (i * FRAME_SIZE) :: u64) = i * FRAME_SIZE" by (intro unat_of_nat_id) simp
  then show u: "unat (va + of_nat (i * FRAME_SIZE)) = unat va + i * FRAME_SIZE"
    using s by (subst unat_add_if_less) simp_all
  show "page_aligned (va + of_nat (i * FRAME_SIZE))"
    using assms(1) unfolding page_aligned_def u by (simp add: FRAME_SIZE_def)
  show "va + of_nat (i * FRAME_SIZE) < USER_MAP_END" using b unfolding word_less_nat_alt u .
qed

lemma window_distinct:
  assumes "page_aligned va" "unat va + n * FRAME_SIZE \<le> unat USER_MAP_END"
  shows "distinct (map (\<lambda>i. va + of_nat (i * FRAME_SIZE)) [0..<n])"
proof -
  have "inj_on (\<lambda>i. va + of_nat (i * FRAME_SIZE)) {0..<n}"
  proof (rule inj_onI)
    fix i j
    assume "i \<in> {0..<n}" "j \<in> {0..<n}" "va + of_nat (i * FRAME_SIZE) = va + of_nat (j * FRAME_SIZE)"
    then show "i = j"
      using window_pages(1)[OF assms, of i] window_pages(1)[OF assms, of j] by (simp add: FRAME_SIZE_def)
  qed
  then show ?thesis by (simp add: distinct_map)
qed


text \<open>
  Mapping a frame.  \<open>frame_map\<close> never panics.  It returns 0 exactly for a page-aligned address of the
  user range where nothing is mapped, a frame capability with the map right, a free mapping record
  and page tables that could be extended; the page is then mapped to the capability's frame, writable
  and not executable, and recorded under its slot.  Otherwise the process and every translation stay
  as they were.
\<close>
lemma frame_map_exact:
  assumes "mmu_ok mu owns" "us_proc s = Some p"
    and "fa_wf (us_alloc s)" "owns (us_mem s) (p_l4 p) T" "T \<inter> avail (us_alloc s) = {}"
  shows "\<exists>r s'. sys_frame_map mu s slot va = Some (r, s') \<and>
    (if r = 0
     then \<exists>c addr i. page_aligned va \<and> USER_MAP_BASE \<le> va \<and> va < USER_MAP_END \<and>
       lookup (p_caps p) (unat slot) RIGHT_MAP = Inr c \<and> cap_obj c = Frame addr \<and>
       i < length (p_maps p) \<and> p_maps p ! i = None \<and>
       mu_translate mu (us_mem s) (p_l4 p) va = Some None \<and>
       mu_translate mu (us_mem s') (p_l4 p) va = Some (Some (addr, user_page, False)) \<and>
       (\<forall>w. page_floor w \<noteq> va \<longrightarrow> mu_translate mu (us_mem s') (p_l4 p) w = mu_translate mu (us_mem s) (p_l4 p) w) \<and>
       us_proc s' = Some (p\<lparr>p_maps := (p_maps p)[i := Some (va, unat slot)]\<rparr>)
     else r = ERR \<and> us_proc s' = us_proc s \<and>
       (\<forall>w. mu_translate mu (us_mem s') (p_l4 p) w = mu_translate mu (us_mem s) (p_l4 p) w))"
proof (cases "sys_frame_map mu s slot va = Some (ERR, s)")
  case True
  then show ?thesis by (simp add: ERR_def)
next
  case False
  let ?l4 = "p_l4 p"
  have va: "page_aligned va" "USER_MAP_BASE \<le> va" "va < USER_MAP_END"
    using False by (auto simp: sys_frame_map_def page_aligned_def not_less not_le split: if_splits)
  obtain c addr where c: "lookup (p_caps p) (unat slot) RIGHT_MAP = Inr c" "cap_obj c = Frame addr"
    using False assms(2) by (auto simp: sys_frame_map_def split: if_splits sum.splits cap_object.splits)
  obtain i where i: "position (\<lambda>e. e = None) (p_maps p) = Some i"
    using False assms(2) c by (auto simp: sys_frame_map_def split: if_splits option.splits)
  have low: "drop_bit 47 va = 0"
  proof -
    have "unat va < 536870912" using va(3) by (simp add: word_less_nat_alt USER_MAP_END_def)
    then have "unat va div 2 ^ 47 = 0" by simp
    then have "unat (drop_bit 47 va) = 0"
      using unat_u64_less[of va] by (subst unsigned_drop_bit_eq) (simp add: drop_bit_eq_div take_bit_nat_eq_self)
    then show ?thesis by (simp add: unat_eq_0)
  qed
  then obtain t where t: "mu_translate mu (us_mem s) ?l4 va = Some t"
    using mmu_okD(2)[OF assms(1)] unfolding rejects_bad_addresses_def canonical_def by blast
  obtain ok m fa where M: "mu_map mu ?l4 va (addr, user_page, False) (us_mem s, us_alloc s) = (ok, m, fa)"
    by (cases "mu_map mu ?l4 va (addr, user_page, False) (us_mem s, us_alloc s)") auto
  note L = mmu_map[OF assms(1) M va(1,3) assms(3-5)]
  have run: "sys_frame_map mu s slot va =
      (if t \<noteq> None then Some (ERR, s)
       else if \<not> ok then Some (ERR, s\<lparr>us_mem := m, us_alloc := fa\<rparr>)
       else Some (0, s\<lparr>us_mem := m, us_alloc := fa, us_proc := Some (p\<lparr>p_maps := (p_maps p)[i := Some (va, unat slot)]\<rparr>)\<rparr>))"
    using va assms(2) c i t M by (auto simp: sys_frame_map_def page_aligned_def is_mapped_def not_less not_le)
  have t0: "t = None" using run False by (cases t) auto
  show ?thesis
  proof (cases ok)
    case True
    then show ?thesis
      using run t0 va c t L(6,8) position_SomeD(1,2)[OF i] by (auto simp: ERR_def)
  next
    case False
    then show ?thesis using run t0 L(7) by (simp add: ERR_def)
  qed
qed

section \<open>A concrete memory management unit\<close>

text \<open>
  A linear page table: the entry for a page is kept in the first bytes of the page itself, a byte
  of flags (zero when nothing is mapped) after the eight bytes of the frame's address.
\<close>

definition flag_byte :: "mapping \<Rightarrow> u8" where
  "flag_byte mp = (case mp of (phys, fl, uncached) \<Rightarrow>
     1 + (if pf_present fl then 2 else 0) + (if pf_user fl then 4 else 0) + (if pf_writable fl then 8 else 0) +
     (if pf_no_execute fl then 16 else 0) + (if uncached then 32 else 0))"

definition read_mapping :: "mem \<Rightarrow> u64 \<Rightarrow> mapping option" where
  "read_mapping m pg =
     (let b = m (pg + 8) in
      if b = 0 then None
      else Some (read64 m pg, \<lparr>pf_present = bit b 1, pf_user = bit b 2, pf_writable = bit b 3, pf_no_execute = bit b 4\<rparr>, bit b 5))"

definition write_mapping :: "mem \<Rightarrow> u64 \<Rightarrow> mapping \<Rightarrow> mem" where
  "write_mapping m pg mp = (write64 m pg (fst mp))(pg + 8 := flag_byte mp)"

definition linear_mmu :: mmu where
  "linear_mmu =
     \<lparr>mu_translate = (\<lambda>m l4 va. if canonical (page_floor va) then Some (read_mapping m (page_floor va)) else None),
      mu_map = (\<lambda>l4 va mp (m, fa). if read_mapping m va = None then (True, write_mapping m va mp, fa) else (False, m, fa)),
      mu_unmap = (\<lambda>l4 m va. m(va + 8 := 0)),
      mu_load = (\<lambda>m l4 va. m va),
      mu_store = (\<lambda>m l4 va bs. m)\<rparr>"

lemma word8_offset: "unat (i :: u64) < 4096 \<Longrightarrow> page_aligned a \<Longrightarrow> page_floor (a + i) = a"
proof -
  assume i: "unat i < 4096" and a: "page_aligned a"
  obtain k where k: "unat a = 4096 * k"
    using a by (auto simp: page_aligned_def FRAME_SIZE_def mod_eq_0_iff_dvd elim: dvdE)
  have "4096 * k < 18446744073709551616" using unat_u64_less[of a] k by simp
  then have "k < 4503599627370496" by linarith
  then have "4096 * k + 4096 \<le> 18446744073709551616" by linarith
  then have "unat a + unat i < 2 ^ LENGTH(64)" using i k by simp
  then have "unat (a + i) = unat a + unat i" by (rule unat_add_if_less)
  moreover have "(unat a + unat i) div 4096 * 4096 = unat a" using i by (simp add: k)
  ultimately show ?thesis by (simp add: word_unat_eq_iff unat_page_floor FRAME_SIZE_def)
qed

lemma read_other_page:
  assumes "page_aligned a" "page_aligned b" "a \<noteq> b" "\<And>x. page_floor x \<noteq> a \<Longrightarrow> m' x = m x"
  shows "read_mapping m' b = read_mapping m b"
proof -
  have "m' (b + i) = m (b + i)" if "unat i < 4096" for i
    using assms(3,4) word8_offset[OF that assms(2)] by metis
  then have "m' (b + 8) = m (b + 8)" "\<And>i. i < 8 \<Longrightarrow> m' (b + of_nat i) = m (b + of_nat i)"
    by (simp_all add: unat_of_nat)
  moreover from this(2) have "map (\<lambda>i. m' (b + of_nat i)) [0..<8] = map (\<lambda>i. m (b + of_nat i)) [0..<8]" by simp
  then have "read64 m' b = read64 m b" by (simp only: read64_def)
  ultimately show ?thesis by (simp only: read_mapping_def)
qed

lemma flag_byte_bits:
  "flag_byte (phys, fl, u) \<noteq> 0" "bit (flag_byte (phys, fl, u)) 1 = pf_present fl"
  "bit (flag_byte (phys, fl, u)) 2 = pf_user fl" "bit (flag_byte (phys, fl, u)) 3 = pf_writable fl"
  "bit (flag_byte (phys, fl, u)) 4 = pf_no_execute fl" "bit (flag_byte (phys, fl, u)) 5 = u"
  by (cases "pf_present fl"; cases "pf_user fl"; cases "pf_writable fl"; cases "pf_no_execute fl"; cases u;
      simp add: flag_byte_def)+

lemma write_mapping_page: "page_aligned a \<Longrightarrow> page_floor x \<noteq> a \<Longrightarrow> write_mapping m a mp x = m x"
proof -
  assume a: "page_aligned a" and x: "page_floor x \<noteq> a"
  have "x \<noteq> a + i" if "unat i < 4096" for i using word8_offset[OF that a] x by blast
  from this[of 8] this[of "x - a"] have "x \<noteq> a + 8" "\<not> unat (x - a) < 4096" by auto
  then have "x \<noteq> a + 8" "\<not> x - a < 8" by (auto simp: word_less_nat_alt)
  then show "write_mapping m a mp x = m x" by (simp add: write_mapping_def write64_def)
qed

lemma read_write_mapping: "read_mapping (write_mapping m a mp) a = Some mp"
proof -
  obtain phys fl u where mp: "mp = (phys, fl, u)" by (cases mp) auto
  have "\<not> (8 :: u64) < 8" by simp
  have "(write64 m a phys)(a + 8 := x) = write64 (m(a + 8 := x)) a phys" for x
    by (auto simp: write64_def fun_eq_iff)
  then have "read64 ((write64 m a phys)(a + 8 := x)) a = phys" for x by (simp add: read_write_same)
  then show ?thesis
    by (cases fl) (simp add: read_mapping_def write_mapping_def mp flag_byte_bits flag_byte_bits(2)[unfolded One_nat_def] Let_def)
qed

lemma linear_mmu_ok: "mmu_ok linear_mmu (\<lambda>m l4 T. True)"
  unfolding mmu_ok_def
proof (intro conjI)
  show "by_page linear_mmu" by (simp add: by_page_def linear_mmu_def)
  have high: "\<not> canonical va" if "drop_bit 48 va \<noteq> 0" "drop_bit 48 va \<noteq> mask 16" for va
  proof -
    have s: "drop_bit 48 va = drop_bit 1 (drop_bit 47 va)" by (simp add: drop_bit_drop_bit)
    have m: "drop_bit 1 (mask 17 :: u64) = mask 16" by (simp add: mask_eq_exp_minus_1)
    have "drop_bit 47 va \<noteq> 0" using that(1) s by (metis drop_bit_of_0)
    moreover have "drop_bit 47 va \<noteq> mask 17" using that(2) s m by metis
    ultimately show ?thesis by (simp add: canonical_def)
  qed
  have fl: "drop_bit n (page_floor va) = drop_bit n va" if "12 \<le> n" for n va
    using that by (intro bit_word_eqI) (auto simp: page_floor_shift bit_simps dest: bit_imp_le_length)
  have can: "canonical (page_floor va) = canonical va" for va by (simp add: canonical_def fl)
  show "rejects_bad_addresses linear_mmu"
    using high by (auto simp: rejects_bad_addresses_def linear_mmu_def can)
  have low: "canonical va" if "va < USER_MAP_END" for va
  proof -
    have "unat va div 2 ^ 47 = 0" using that by (simp add: word_less_nat_alt USER_MAP_END_def)
    then have "unat (drop_bit 47 va) = 0"
      using unat_u64_less[of va] by (subst unsigned_drop_bit_eq) (simp add: drop_bit_eq_div take_bit_nat_eq_self)
    then show ?thesis by (simp add: canonical_def unat_eq_0)
  qed
  have other: "read_mapping m' (page_floor w) = read_mapping m (page_floor w)"
    if "page_aligned va" "page_floor w \<noteq> va" "\<And>x. page_floor x \<noteq> va \<Longrightarrow> m' x = m x" for m m' va w
    using read_other_page[OF that(1) aligned_page_floor, of w m' m] that(2,3) by metis
  show "maps_one_page linear_mmu (\<lambda>m l4 T. True)"
    unfolding maps_one_page_def
  proof (intro allI impI)
    fix l4 va mp m fa ok m' fa' T
    assume s: "mu_map linear_mmu l4 va mp (m, fa) = (ok, m', fa')" and va: "page_aligned va" "va < USER_MAP_END"
      and "fa_wf fa" "True" "T \<inter> avail fa = {}"
    have r: "if read_mapping m va = None then ok \<and> m' = write_mapping m va mp \<and> fa' = fa
        else \<not> ok \<and> m' = m \<and> fa' = fa"
      using s by (auto simp: linear_mmu_def split: if_splits)
    have c: "canonical (page_floor va)" "page_floor va = va" using low[OF va(2)] va(1) by (simp_all add: can aligned_floor)
    have "mu_translate linear_mmu m' l4 w = mu_translate linear_mmu m l4 w" if "page_floor w \<noteq> va" for w
      using other[OF va(1) that, of m' m] r write_mapping_page[OF va(1)]
      by (auto simp: linear_mmu_def split: if_splits)
    then show "fa_wf fa' \<and> avail fa' \<subseteq> avail fa \<and> True \<and>
        (ok \<longrightarrow> mu_translate linear_mmu m l4 va = Some None \<and> mu_translate linear_mmu m' l4 va = Some (Some mp)) \<and>
        (\<not> ok \<longrightarrow> mu_translate linear_mmu m' l4 va = mu_translate linear_mmu m l4 va) \<and>
        (\<forall>w. page_floor w \<noteq> va \<longrightarrow> mu_translate linear_mmu m' l4 w = mu_translate linear_mmu m l4 w)"
      using r c \<open>fa_wf fa\<close> by (auto simp: linear_mmu_def read_write_mapping split: if_splits)
  qed
  show "unmaps_one_page linear_mmu (\<lambda>m l4 T. True)"
    unfolding unmaps_one_page_def
  proof (intro allI impI)
    fix l4 va m T
    assume va: "page_aligned va" "va < USER_MAP_END" and "True"
    have c: "canonical (page_floor va)" "page_floor va = va" using low[OF va(2)] va(1) by (simp_all add: can aligned_floor)
    have "x \<noteq> va + 8" if "page_floor x \<noteq> va" for x using word8_offset[OF _ va(1), of 8] that by auto
    then have "mu_translate linear_mmu (mu_unmap linear_mmu l4 m va) l4 w = mu_translate linear_mmu m l4 w"
      if "page_floor w \<noteq> va" for w
      using other[OF va(1) that, of "m(va + 8 := 0)" m] by (auto simp: linear_mmu_def)
    then show "True \<and> mu_translate linear_mmu (mu_unmap linear_mmu l4 m va) l4 va = Some None \<and>
        (\<forall>w. page_floor w \<noteq> va \<longrightarrow>
          mu_translate linear_mmu (mu_unmap linear_mmu l4 m va) l4 w = mu_translate linear_mmu m l4 w)"
      using c by (simp add: linear_mmu_def read_mapping_def)
  qed
qed

text \<open>A process with a frame, a framebuffer of one row of 1024 pixels, and one mapped user page.\<close>

definition no_frames :: frame_alloc where
  "no_frames = \<lparr>fa_bitmap = [], fa_frames = 0, fa_free = 0\<rparr>"

definition drawing :: user_state where
  "drawing = \<lparr>us_proc = Some (proc_with [cap_of (Frame 0x9000) RIGHT_MAP, cap_of (Framebuffer 0xA0000000 1024 1 1024 4 1) RIGHT_MAP]),
     us_mem = write_mapping (\<lambda>_. 0) 0x10000000 (0x5000, user_page, False), us_alloc = no_frames, us_serial = []\<rparr>"

lemma no_frames_wf: "fa_wf no_frames" "{} \<inter> avail (us_alloc drawing) = {}"
  by (simp_all add: fa_wf_def no_frames_def avail_def drawing_def)

lemma drawing_page: "user_page_at linear_mmu (us_mem drawing) l4 0x10000000"
proof -
  have f: "page_floor (0x10000000 :: u64) = 0x10000000" by (simp add: page_floor_def FRAME_SIZE_def)
  have "canonical 0x10000000" by (simp add: canonical_def drop_bit_eq_div)
  then show ?thesis
    by (simp add: user_page_at_def user_accessible_def linear_mmu_def f drawing_def read_write_mapping user_page_def)
qed

lemma linear_rejects: "rejects_bad_addresses linear_mmu"
  by (rule mmu_okD(2)[OF linear_mmu_ok])


lemma drawing_free:
  assumes "page_floor pg = pg" "pg \<noteq> 0x10000000" "canonical pg"
  shows "read_mapping (us_mem drawing) pg = None" "mu_translate linear_mmu (us_mem drawing) l4 pg = Some None"
proof -
  have al: "page_aligned 0x10000000" by (simp add: page_aligned_def FRAME_SIZE_def)
  have "page_floor (pg + 8) = pg" using word8_offset[of 8 pg] assms(1) by (simp add: aligned_floor)
  then have "us_mem drawing (pg + 8) = 0"
    using write_mapping_page[OF al, of "pg + 8"] assms(2) by (simp add: drawing_def)
  then show "read_mapping (us_mem drawing) pg = None" by (simp add: read_mapping_def)
  then show "mu_translate linear_mmu (us_mem drawing) l4 pg = Some None"
    using assms(1,3) by (simp add: linear_mmu_def)
qed

lemma drawing_pages:
  "page_floor (0x10001000 :: u64) = 0x10001000" "page_floor (0x10004000 :: u64) = 0x10004000"
  "canonical 0x10001000" "canonical 0x10004000"
  by (simp_all add: page_floor_def FRAME_SIZE_def canonical_def drop_bit_eq_div)

lemma drawing_caps:
  "lookup (p_caps (proc_with [a, b])) 0 r = (if cap_rights a AND r = r then Inr a else Inl RightsDenied)"
  "lookup (p_caps (proc_with [a, b])) (Suc 0) r = (if cap_rights b AND r = r then Inr b else Inl RightsDenied)"
  by (simp_all add: proc_with_def lookup_def table_with_def get_def)

lemma drawing_maps: "map_option fst (sys_frame_map linear_mmu drawing 0 0x10001000) = Some 0"
proof -
  have m: "p_maps (proc_with cs) = None # replicate 15 None" for cs by (simp add: proc_with_def process_new_def MAX_USER_MAPS_def numeral_eq_Suc)
  have "is_mapped linear_mmu (us_mem drawing) l4 0x10001000 = Some False" for l4
    using drawing_free(2)[OF drawing_pages(1) _ drawing_pages(3)] by (simp add: is_mapped_def)
  moreover have "mu_map linear_mmu l4 0x10001000 mp (us_mem drawing, fa) =
      (True, write_mapping (us_mem drawing) 0x10001000 mp, fa)" for l4 mp fa
    using drawing_free(1)[OF drawing_pages(1) _ drawing_pages(3)] by (simp add: linear_mmu_def)
  ultimately show ?thesis
    by (simp add: sys_frame_map_def FRAME_SIZE_def USER_MAP_BASE_def USER_MAP_END_def drawing_def[THEN arg_cong, of us_proc]
        drawing_caps cap_of_def m)
qed

lemma drawing_draws: "map_option fst (sys_fb_map linear_mmu drawing 1 0x10004000 0x10000000) = Some 0"
proof -
  have m: "p_fb_maps (proc_with cs) = None # replicate 3 None" for cs by (simp add: proc_with_def process_new_def MAX_FB_MAPS_def numeral_eq_Suc)
  have f: "page_floor (0x10000000 :: u64) = 0x10000000" "page_floor (0x10000013 :: u64) = 0x10000000"
    "page_floor (8191 :: u64) = 4096"
    by (simp_all add: page_floor_def FRAME_SIZE_def)
  have acc: "buffer_accessible linear_mmu (us_mem drawing) l4 0x10000000 0x10000013 = Some True" for l4
    using drawing_page[of l4] by (simp add: buffer_accessible_def span_pages_def f user_page_at_def)
  have mp: "mu_map linear_mmu l4 0x10004000 mp (us_mem drawing, fa) =
      (True, write_mapping (us_mem drawing) 0x10004000 mp, fa)" for l4 mp fa
    using drawing_free(1)[OF drawing_pages(2) _ drawing_pages(4)] by (simp add: linear_mmu_def)
  show ?thesis
    by (simp add: sys_fb_map_def FRAME_SIZE_def USER_MAP_BASE_def USER_MAP_END_def drawing_def[THEN arg_cong, of us_proc]
        drawing_caps cap_of_def m f checked_add_def acc fb_pages_to_map_def mp fb_record_def)
qed

lemma frame_map_exact_witness:
  "\<exists>s' addr. sys_frame_map linear_mmu drawing 0 0x10001000 = Some (0, s') \<and>
     mu_translate linear_mmu (us_mem s') 0 0x10001000 = Some (Some (addr, user_page, False))"
proof -
  let ?p = "proc_with [cap_of (Frame 0x9000) RIGHT_MAP, cap_of (Framebuffer 0xA0000000 1024 1 1024 4 1) RIGHT_MAP]"
  have p: "us_proc drawing = Some ?p" "p_l4 ?p = 0" "fa_wf (us_alloc drawing)"
    using no_frames_wf by (simp_all add: drawing_def proc_with_def process_new_def)
  obtain r s' where R: "sys_frame_map linear_mmu drawing 0 0x10001000 = Some (r, s')"
    "r = 0 \<Longrightarrow> \<exists>addr. mu_translate linear_mmu (us_mem s') 0 0x10001000 = Some (Some (addr, user_page, False))"
    using frame_map_exact[OF linear_mmu_ok p(1,3) TrueI no_frames_wf(2), of 0 "0x10001000"] unfolding p(2) by (metis (lifting))
  have "r = 0" using drawing_maps R(1) by simp
  then show ?thesis using R by blast
qed


end
