(* ===== verification/Virtio.thy ===== *)
theory Virtio
  imports Pool Address_Space
begin

text \<open>
  The block device's request path, \<open>kernel/src/virtio_blk.rs\<close>: the pool of in-flight requests with
  the routing of each, posting a request to the virtqueue, and draining the completions the
  device reports.  The rings are bytes of memory; the device writes the used ring and the status
  bytes.  \<open>inflights_refine_map\<close> shows the pool to be a finite map from descriptor heads to routings.
\<close>

section \<open>In-flight requests\<close>

definition QUEUE_SIZE_MAX :: u16 where "QUEUE_SIZE_MAX = 64"
definition DESC_PER_REQ :: u16 where "DESC_PER_REQ = 3"
definition MAX_SLOTS :: nat where "MAX_SLOTS = unat (QUEUE_SIZE_MAX div DESC_PER_REQ)"

datatype completion = Poll | RingC nat u64

record inflights =
  if_routing :: "completion option list"
  if_free :: "u16 list"
  if_free_len :: nat
  if_slots :: nat

definition inflights_new :: "nat \<Rightarrow> inflights" where
  "inflights_new slots =
     (let n = min slots MAX_SLOTS in
      \<lparr>if_routing = replicate MAX_SLOTS None,
       if_free = map (\<lambda>i. if i < n then of_nat i else 0) [0..<MAX_SLOTS],
       if_free_len = n, if_slots = n\<rparr>)"

definition submit :: "inflights \<Rightarrow> completion \<Rightarrow> (u16 \<times> inflights) option" where
  "submit fl info =
     (if if_free_len fl = 0 then None
      else let len = if_free_len fl - 1;
               slot = unat (if_free fl ! len)
           in Some (of_nat slot * DESC_PER_REQ,
                    fl\<lparr>if_free_len := len, if_routing := (if_routing fl)[slot := Some info]\<rparr>))"

definition slot_of_head :: "inflights \<Rightarrow> u16 \<Rightarrow> nat option" where
  "slot_of_head fl head =
     (if head mod DESC_PER_REQ \<noteq> 0 then None
      else let slot = unat (head div DESC_PER_REQ) in if slot < if_slots fl then Some slot else None)"

definition complete :: "inflights \<Rightarrow> u16 \<Rightarrow> (completion \<times> inflights) option" where
  "complete fl head =
     (case slot_of_head fl head of
        None \<Rightarrow> None
      | Some slot \<Rightarrow>
          (case if_routing fl ! slot of
             None \<Rightarrow> None
           | Some info \<Rightarrow>
               Some (info, fl\<lparr>if_routing := (if_routing fl)[slot := None],
                              if_free := (if_free fl)[if_free_len fl := of_nat slot],
                              if_free_len := if_free_len fl + 1\<rparr>)))"

definition any_live :: "inflights \<Rightarrow> bool" where
  "any_live fl \<longleftrightarrow> if_free_len fl < if_slots fl"

section \<open>Words in memory\<close>

definition store_bytes :: "mem \<Rightarrow> u64 \<Rightarrow> u8 list \<Rightarrow> mem" where
  "store_bytes m a bs = (\<lambda>x. if unat (x - a) < length bs then bs ! unat (x - a) else m x)"

definition r8 :: "mem \<Rightarrow> u64 \<Rightarrow> u8" where "r8 m a = m a"
definition r16 :: "mem \<Rightarrow> u64 \<Rightarrow> u16" where "r16 m a = of_nat (le_nat (map (\<lambda>i. m (a + of_nat i)) [0..<2]))"
definition r32 :: "mem \<Rightarrow> u64 \<Rightarrow> u32" where "r32 m a = of_nat (le_nat (map (\<lambda>i. m (a + of_nat i)) [0..<4]))"
definition w8 :: "mem \<Rightarrow> u64 \<Rightarrow> u8 \<Rightarrow> mem" where "w8 m a v = store_bytes m a [v]"
definition w16 :: "mem \<Rightarrow> u64 \<Rightarrow> u16 \<Rightarrow> mem" where "w16 m a v = store_bytes m a (le_bytes 2 (unat v))"
definition w32 :: "mem \<Rightarrow> u64 \<Rightarrow> u32 \<Rightarrow> mem" where "w32 m a v = store_bytes m a (le_bytes 4 (unat v))"
definition w64 :: "mem \<Rightarrow> u64 \<Rightarrow> u64 \<Rightarrow> mem" where "w64 m a v = store_bytes m a (le_bytes 8 (unat v))"

section \<open>The device\<close>

text \<open>
  The fields the request path uses.  \<open>vb_bound\<close> is the directly bound state: the frames of the queue
  and the buffers, their addresses in the device's own domain, and the process parked on its completion.
\<close>

record bound =
  bd_buf_iova :: u64
  bd_notify_page :: u64
  bd_desc :: u64
  bd_avail :: u64
  bd_used :: u64
  bd_buf :: u64
  bd_data :: u64
  bd_data_iova :: u64
  bd_waiter :: "nat option"

record virtio_blk =
  vb_common :: u64
  vb_notify_addr :: u64
  vb_qsize :: u16
  vb_desc :: u64
  vb_avail :: u64
  vb_used :: u64
  vb_buf :: u64
  vb_buf_phys :: u64
  vb_inflights :: inflights
  vb_last_used :: u16
  vb_capacity :: u64
  vb_bound :: "bound option"

definition HDR_BYTES :: u64 where "HDR_BYTES = 16"
definition STATUS_REGION_OFF :: u64 where "STATUS_REGION_OFF = of_nat MAX_SLOTS * HDR_BYTES"
definition BLK_OK :: u64 where "BLK_OK = 0"
definition BLK_E_BADARG :: u64 where "BLK_E_BADARG = 1"
definition BLK_E_RANGE :: u64 where "BLK_E_RANGE = 2"
definition BLK_E_RIGHTS :: u64 where "BLK_E_RIGHTS = 3"
definition BLK_E_DEV :: u64 where "BLK_E_DEV = 4"
definition SECTOR_SIZE :: u64 where "SECTOR_SIZE = 512"

definition hdr_va :: "virtio_blk \<Rightarrow> nat \<Rightarrow> u64" where "hdr_va d slot = vb_buf d + of_nat slot * HDR_BYTES"
definition hdr_phys :: "virtio_blk \<Rightarrow> nat \<Rightarrow> u64" where "hdr_phys d slot = vb_buf_phys d + of_nat slot * HDR_BYTES"
definition status_va :: "virtio_blk \<Rightarrow> nat \<Rightarrow> u64" where "status_va d slot = vb_buf d + STATUS_REGION_OFF + of_nat slot"
definition status_phys :: "virtio_blk \<Rightarrow> nat \<Rightarrow> u64" where "status_phys d slot = vb_buf_phys d + STATUS_REGION_OFF + of_nat slot"

datatype direction = Read | Write

definition req_type :: "direction \<Rightarrow> u32" where
  "req_type dir = (case dir of Read \<Rightarrow> 0 | Write \<Rightarrow> 1)"

definition DESC_NEXT :: u16 where "DESC_NEXT = 1"
definition DESC_WRITE :: u16 where "DESC_WRITE = 2"

definition data_flags :: "direction \<Rightarrow> u16" where
  "data_flags dir = (case dir of Read \<Rightarrow> DESC_NEXT OR DESC_WRITE | Write \<Rightarrow> DESC_NEXT)"

text \<open>A descriptor: address, length, flags, next.\<close>

definition write_desc :: "u64 \<Rightarrow> u64 \<times> u32 \<times> u16 \<times> u16 \<Rightarrow> mem \<Rightarrow> mem" where
  "write_desc d e m = (case e of (addr, len, flags, nxt) \<Rightarrow>
     w16 (w16 (w32 (w64 m d addr) (d + 8) len) (d + 12) flags) (d + 14) nxt)"

text \<open>
  \<open>map_dma\<close> is \<open>iommu::block_map_dma\<close>, which lets the device reach the data frame; ringing the
  doorbell is the last store.
\<close>

definition post_request ::
    "(u64 \<Rightarrow> mem \<times> frame_alloc \<Rightarrow> mem \<times> frame_alloc) \<Rightarrow> virtio_blk \<Rightarrow> u16 \<Rightarrow> u64 \<Rightarrow> u64 \<Rightarrow> u64 \<Rightarrow> bool \<Rightarrow> direction \<Rightarrow>
     mem \<times> frame_alloc \<Rightarrow> mem \<times> frame_alloc" where
  "post_request map_dma d head sector count data_addr want_interrupt dir s =
     (let slot = unat (head div DESC_PER_REQ);
          (hdr_addr, status_addr, (m0, fa)) =
            (case vb_bound d of
               Some b \<Rightarrow> (bd_buf_iova b + of_nat slot * HDR_BYTES, bd_buf_iova b + STATUS_REGION_OFF + of_nat slot, s)
             | None \<Rightarrow> (hdr_phys d slot, status_phys d slot, map_dma data_addr s));
          m1 = w16 m0 (vb_avail d) (if want_interrupt then 0 else 1);
          m2 = w64 (w32 (w32 m1 (hdr_va d slot) (req_type dir)) (hdr_va d slot + 4) 0) (hdr_va d slot + 8) sector;
          m3 = w8 m2 (status_va d slot) 0xFF;
          dsc = vb_desc d + ucast head * 16;
          m4 = write_desc dsc (hdr_addr, 16, DESC_NEXT, head + 1) m3;
          m5 = write_desc (dsc + 16) (data_addr, ucast (count * SECTOR_SIZE), data_flags dir, head + 2) m4;
          m6 = write_desc (dsc + 32) (status_addr, 1, DESC_WRITE, 0) m5;
          avail_idx = r16 m6 (vb_avail d + 2);
          ring_slot = ucast (avail_idx mod vb_qsize d) :: u64;
          m7 = w16 m6 (vb_avail d + 4 + ring_slot * 2) head;
          m8 = w16 m7 (vb_avail d + 2) (avail_idx + 1)
      in (w16 m8 (vb_notify_addr d) 0, fa))"

text \<open>
  One used-ring element: the routing of the head it names, with the request's status, if the
  head is one the kernel issued and that has not completed.
\<close>

definition drain_one :: "mem \<Rightarrow> virtio_blk \<Rightarrow> (completion \<times> u64) option \<times> virtio_blk" where
  "drain_one m d =
     (let ring_slot = ucast (vb_last_used d mod vb_qsize d) :: u64;
          head = ucast (r32 m (vb_used d + 4 + ring_slot * 8)) :: u16;
          status = (case slot_of_head (vb_inflights d) head of
                      Some slot \<Rightarrow> if r8 m (status_va d slot) = 0 then BLK_OK else BLK_E_DEV
                    | None \<Rightarrow> BLK_E_DEV);
          d' = d\<lparr>vb_last_used := vb_last_used d + 1\<rparr>
      in (case complete (vb_inflights d) head of
            None \<Rightarrow> (None, d')
          | Some (info, fl) \<Rightarrow> (Some (info, status), d'\<lparr>vb_inflights := fl\<rparr>)))"

text \<open>The drain, over the used indices that are new, recording at most \<open>room\<close> completions.\<close>

fun drain_loop :: "nat \<Rightarrow> mem \<Rightarrow> nat \<Rightarrow> virtio_blk \<Rightarrow> (completion \<times> u64) list \<times> virtio_blk" where
  "drain_loop 0 m room d = ([], d)"
| "drain_loop (Suc n) m room d =
     (case drain_one m d of
        (Some c, d') \<Rightarrow>
          (if 0 < room then let (cs, d'') = drain_loop n m (room - 1) d' in (c # cs, d'')
           else drain_loop n m room d')
      | (None, d') \<Rightarrow> drain_loop n m room d')"

definition drain_completions :: "mem \<Rightarrow> nat \<Rightarrow> virtio_blk \<Rightarrow> (completion \<times> u64) list \<times> virtio_blk" where
  "drain_completions m room d = drain_loop (unat (r16 m (vb_used d + 2) - vb_last_used d)) m room d"

text \<open>The devices, by index; \<open>None\<close> is one that is not brought up.\<close>

type_synonym devices = "virtio_blk option list"

definition device_at :: "devices \<Rightarrow> nat \<Rightarrow> virtio_blk option" where
  "device_at ds dev = (case get ds dev of None \<Rightarrow> None | Some e \<Rightarrow> e)"

definition ready :: "devices \<Rightarrow> nat \<Rightarrow> bool" where
  "ready ds dev \<longleftrightarrow> device_at ds dev \<noteq> None"

definition capacity :: "devices \<Rightarrow> nat \<Rightarrow> u64 option" where
  "capacity ds dev = map_option vb_capacity (device_at ds dev)"

definition any_waiter :: "devices \<Rightarrow> bool" where
  "any_waiter ds \<longleftrightarrow> list_ex (\<lambda>e. case e of None \<Rightarrow> False | Some d \<Rightarrow> any_live (vb_inflights d)) ds"

definition ring_post ::
    "(u64 \<Rightarrow> mem \<times> frame_alloc \<Rightarrow> mem \<times> frame_alloc) \<Rightarrow> devices \<Rightarrow> nat \<Rightarrow> u64 \<Rightarrow> u64 \<Rightarrow> u64 \<Rightarrow> nat \<Rightarrow> u64 \<Rightarrow> direction \<Rightarrow>
     mem \<times> frame_alloc \<Rightarrow> (devices \<times> mem \<times> frame_alloc) option" where
  "ring_post map_dma ds dev abs_sector count frame_phys ring user_data dir s =
     (case device_at ds dev of
        None \<Rightarrow> None
      | Some d \<Rightarrow>
          (case submit (vb_inflights d) (RingC ring user_data) of
             None \<Rightarrow> None
           | Some (head, fl) \<Rightarrow>
               let d' = d\<lparr>vb_inflights := fl\<rparr> in
               Some (ds[dev := Some d'], post_request map_dma d' head abs_sector count frame_phys True dir s)))"

text \<open>
  Tearing a binding down: the device is reset, its frames are returned, and the domain goes with them
  (\<open>teardown\<close> is \<open>iommu::bind_teardown\<close>).
\<close>

definition CFG_DEVICE_STATUS :: u64 where "CFG_DEVICE_STATUS = 0x14"

definition unbind ::
    "(mem \<times> frame_alloc \<Rightarrow> mem \<times> frame_alloc) \<Rightarrow> devices \<Rightarrow> nat \<Rightarrow> mem \<times> frame_alloc \<Rightarrow> devices \<times> mem \<times> frame_alloc" where
  "unbind teardown ds dev s =
     (case device_at ds dev of
        None \<Rightarrow> (ds, s)
      | Some d \<Rightarrow>
          (case vb_bound d of
             None \<Rightarrow> (ds, s)
           | Some b \<Rightarrow>
               (ds[dev := None],
                teardown (w8 (fst s) (vb_common d + CFG_DEVICE_STATUS) 0,
                  foldl drop_frame (snd s) [bd_desc b, bd_avail b, bd_used b, bd_buf b, bd_data b]))))"

section \<open>The pool of in-flight requests\<close>

lemma MAX_SLOTS_eq: "MAX_SLOTS = 21"
  by (simp add: MAX_SLOTS_def QUEUE_SIZE_MAX_def DESC_PER_REQ_def)

definition free_slots :: "inflights \<Rightarrow> nat set" where
  "free_slots fl = {s. s < if_slots fl \<and> if_routing fl ! s = None}"

definition if_wf :: "inflights \<Rightarrow> bool" where
  "if_wf fl \<longleftrightarrow> length (if_routing fl) = MAX_SLOTS \<and> length (if_free fl) = MAX_SLOTS \<and>
     if_slots fl \<le> MAX_SLOTS \<and> if_free_len fl \<le> MAX_SLOTS \<and>
     distinct (map unat (take (if_free_len fl) (if_free fl))) \<and>
     set (map unat (take (if_free_len fl) (if_free fl))) = free_slots fl"

lemma if_wfD:
  assumes "if_wf fl"
  shows "length (if_routing fl) = MAX_SLOTS" "length (if_free fl) = MAX_SLOTS" "if_slots fl \<le> MAX_SLOTS"
    "if_free_len fl \<le> MAX_SLOTS" "distinct (map unat (take (if_free_len fl) (if_free fl)))"
    "unat ` set (take (if_free_len fl) (if_free fl)) = free_slots fl"
  using assms by (simp_all add: if_wf_def)

definition head_of :: "nat \<Rightarrow> u16" where
  "head_of slot = of_nat slot * DESC_PER_REQ"

lemma unat_head: "slot < MAX_SLOTS \<Longrightarrow> unat (head_of slot) = slot * 3"
proof -
  assume s: "slot < MAX_SLOTS"
  then have u: "unat (of_nat slot :: u16) = slot" by (intro unat_of_nat_id) (simp add: MAX_SLOTS_eq)
  have "unat (of_nat slot :: u16) * unat DESC_PER_REQ < 2 ^ LENGTH(16)"
    using s unfolding u by (simp add: MAX_SLOTS_eq DESC_PER_REQ_def)
  then show ?thesis unfolding head_of_def by (subst unat_mult_if_less) (simp_all add: u DESC_PER_REQ_def)
qed

lemma slot_of_head_iff:
  assumes "if_slots fl \<le> MAX_SLOTS"
  shows "slot_of_head fl head = Some slot \<longleftrightarrow> slot < if_slots fl \<and> head = head_of slot"
proof -
  have d: "unat (head mod DESC_PER_REQ) = unat head mod 3" "unat (head div DESC_PER_REQ) = unat head div 3"
    by (simp_all add: unat_mod_distrib unat_div_distrib DESC_PER_REQ_def)
  have z: "head mod DESC_PER_REQ \<noteq> 0 \<longleftrightarrow> unat head mod 3 \<noteq> 0" by (metis d(1) unat_eq_0)
  show ?thesis
  proof
    assume "slot_of_head fl head = Some slot"
    then have s: "unat head mod 3 = 0" "slot = unat head div 3" "slot < if_slots fl"
      by (auto simp: slot_of_head_def z d split: if_splits)
    then have "unat head = slot * 3" using div_mult_mod_eq[of "unat head" 3] by simp
    then have "head = head_of slot" using s(3) assms by (simp add: word_unat_eq_iff unat_head)
    then show "slot < if_slots fl \<and> head = head_of slot" using s(3) by simp
  next
    assume h: "slot < if_slots fl \<and> head = head_of slot"
    then have "unat head = slot * 3" using assms by (simp add: unat_head)
    then show "slot_of_head fl head = Some slot" using h z d by (simp add: slot_of_head_def)
  qed
qed

lemma head_of_inj: "s < MAX_SLOTS \<Longrightarrow> t < MAX_SLOTS \<Longrightarrow> head_of s = head_of t \<Longrightarrow> s = t"
  using unat_head by (metis mult_right_cancel zero_neq_numeral)

text \<open>The requests in flight: from the head the device echoes to where the result goes.\<close>

definition in_flight :: "inflights \<Rightarrow> u16 \<Rightarrow> completion option" where
  "in_flight fl head = (case slot_of_head fl head of None \<Rightarrow> None | Some slot \<Rightarrow> if_routing fl ! slot)"

lemma in_flight_iff:
  assumes "if_wf fl"
  shows "in_flight fl head = Some c \<longleftrightarrow>
    (\<exists>s < if_slots fl. head = head_of s \<and> if_routing fl ! s = Some c)"
proof -
  have "in_flight fl head = Some c \<longleftrightarrow> (\<exists>s. slot_of_head fl head = Some s \<and> if_routing fl ! s = Some c)"
    by (cases "slot_of_head fl head") (auto simp: in_flight_def)
  then show ?thesis unfolding slot_of_head_iff[OF if_wfD(3)[OF assms]] by blast
qed

lemma in_flight_head: "if_wf fl \<Longrightarrow> s < if_slots fl \<Longrightarrow> in_flight fl (head_of s) = if_routing fl ! s"
  using slot_of_head_iff[OF if_wfD(3), of fl "head_of s" s] by (simp add: in_flight_def)

lemma map_eqI: "(\<And>x y. f x = Some y \<longleftrightarrow> g x = Some y) \<Longrightarrow> f = g"
  by (rule ext) (metis option.exhaust)

lemma inflights_new_wf: "if_wf (inflights_new n)" "in_flight (inflights_new n) = Map.empty"
proof -
  let ?n = "min n MAX_SLOTS"
  have t: "map unat (take ?n (if_free (inflights_new n))) = [0..<?n]"
    by (rule nth_equalityI) (auto simp: inflights_new_def Let_def MAX_SLOTS_eq unat_of_nat take_bit_nat_eq_self)
  have "free_slots (inflights_new n) = {0..<?n}"
    by (auto simp: free_slots_def inflights_new_def Let_def)
  then show w: "if_wf (inflights_new n)"
    using t by (simp add: if_wf_def inflights_new_def Let_def)
  show "in_flight (inflights_new n) = Map.empty"
    by (rule map_eqI) (auto simp: in_flight_iff[OF w], auto simp: inflights_new_def Let_def)
qed

lemma submit_Some:
  assumes "if_wf fl" "submit fl info = Some (head, fl')"
  obtains s where "s \<in> free_slots fl" "head = head_of s" "if_wf fl'" "if_slots fl' = if_slots fl"
    "if_routing fl' = (if_routing fl)[s := Some info]" "free_slots fl' = free_slots fl - {s}"
proof -
  note W = if_wfD[OF assms(1)]
  define len where "len = if_free_len fl - 1"
  define s where "s = unat (if_free fl ! len)"
  have nz: "if_free_len fl \<noteq> 0" and h: "head = head_of s"
    and fl': "fl' = fl\<lparr>if_free_len := len, if_routing := (if_routing fl)[s := Some info]\<rparr>"
    using assms(2) by (auto simp: submit_def len_def s_def head_of_def Let_def split: if_splits)
  have l: "if_free_len fl = Suc len" "len < length (if_free fl)" using nz W(2,4) by (simp_all add: len_def)
  have tk: "take (if_free_len fl) (if_free fl) = take len (if_free fl) @ [if_free fl ! len]"
    using l by (simp add: take_Suc_conv_app_nth)
  have sf: "s \<in> free_slots fl" using W(6) unfolding tk by (auto simp: s_def)
  then have sm: "s < if_slots fl" "s < MAX_SLOTS" using W(3) by (simp_all add: free_slots_def)
  have fs: "free_slots fl' = free_slots fl - {s}"
    using sm W(1) by (auto simp: free_slots_def fl' nth_list_update_cases)
  have dis: "distinct (map unat (take len (if_free fl)))" "s \<notin> unat ` set (take len (if_free fl))"
    using W(5) unfolding tk by (simp_all add: s_def)
  have "free_slots fl = insert s (unat ` set (take len (if_free fl)))" using W(6) unfolding tk by (simp add: s_def)
  then have "unat ` set (take len (if_free fl)) = free_slots fl'" using dis(2) unfolding fs by blast
  then have "if_wf fl'" using W dis(1) l(2) by (simp add: if_wf_def fl')
  then show ?thesis using that[OF sf h] fs by (simp add: fl')
qed

lemma complete_Some:
  assumes "if_wf fl" "complete fl head = Some (info, fl')"
  obtains s where "s < if_slots fl" "head = head_of s" "if_routing fl ! s = Some info" "if_wf fl'"
    "if_slots fl' = if_slots fl" "if_routing fl' = (if_routing fl)[s := None]" "free_slots fl' = insert s (free_slots fl)"
proof -
  note W = if_wfD[OF assms(1)]
  obtain s where s: "slot_of_head fl head = Some s" "if_routing fl ! s = Some info"
    and fl': "fl' = fl\<lparr>if_routing := (if_routing fl)[s := None], if_free := (if_free fl)[if_free_len fl := of_nat s],
      if_free_len := if_free_len fl + 1\<rparr>"
    using assms(2) by (auto simp: complete_def split: option.splits)
  have h: "s < if_slots fl" "head = head_of s" using s(1) slot_of_head_iff[OF W(3)] by auto
  then have sm: "s < MAX_SLOTS" using W(3) by simp
  have fs: "free_slots fl' = insert s (free_slots fl)"
    using h(1) sm W(1) by (auto simp: free_slots_def fl' nth_list_update_cases)
  have nf: "s \<notin> free_slots fl" using s(2) by (simp add: free_slots_def)
  have u: "unat (of_nat s :: u16) = s" using sm by (intro unat_of_nat_id) (simp add: MAX_SLOTS_eq)
  have "card (free_slots fl) = if_free_len fl"
    using W(2,4,5) unfolding W(6)[symmetric] by (simp add: distinct_card flip: set_map)
  moreover have "free_slots fl \<subseteq> {..<MAX_SLOTS} - {s}" using W(3) nf by (auto simp: free_slots_def)
  then have "card (free_slots fl) \<le> MAX_SLOTS - 1" using card_mono[of "{..<MAX_SLOTS} - {s}" "free_slots fl"] sm by simp
  ultimately have room: "if_free_len fl < MAX_SLOTS" using sm by linarith
  have tk: "take (if_free_len fl + 1) ((if_free fl)[if_free_len fl := of_nat s]) = take (if_free_len fl) (if_free fl) @ [of_nat s]"
    using room W(2) by (simp add: take_Suc_conv_app_nth)
  have "if_wf fl'"
    using W room nf h(1) unfolding if_wf_def fs
    by (simp add: fl' tk[unfolded Suc_eq_plus1[symmetric]] u image_Un)
  then show ?thesis using that[OF h s(2)] fs by (simp add: fl')
qed

definition slot_extent :: "completion \<Rightarrow> u16 \<Rightarrow> nat set" where
  "slot_extent info head = {unat head div 3}"

definition slot_give_back :: "inflights \<Rightarrow> completion \<Rightarrow> u16 \<Rightarrow> inflights option" where
  "slot_give_back fl info head = map_option snd (complete fl head)"

interpretation requests: pool if_wf free_slots slot_extent submit slot_give_back
proof unfold_locales
  fix fl info head fl'
  assume "if_wf fl" "submit fl info = Some (head, fl')"
  then obtain s where "s \<in> free_slots fl" "head = head_of s" "if_wf fl'" "free_slots fl' = free_slots fl - {s}"
    by (rule submit_Some)
  moreover from this have "unat head div 3 = s" using if_wfD(3)[OF \<open>if_wf fl\<close>] by (simp add: unat_head free_slots_def)
  ultimately show "if_wf fl' \<and> slot_extent info head \<subseteq> free_slots fl \<and> free_slots fl' = free_slots fl - slot_extent info head"
    by (simp add: slot_extent_def)
next
  fix fl info head fl'
  assume wf: "if_wf fl" and "slot_give_back fl info head = Some fl'"
  then obtain c where "complete fl head = Some (c, fl')" by (auto simp: slot_give_back_def)
  from complete_Some[OF wf this] obtain s where "s < if_slots fl" "head = head_of s" "if_wf fl'"
    "free_slots fl' = insert s (free_slots fl)" by metis
  moreover from this have "unat head div 3 = s" using if_wfD(3)[OF wf] by (simp add: unat_head)
  ultimately show "if_wf fl' \<and> free_slots fl' = free_slots fl \<union> slot_extent info head"
    by (simp add: slot_extent_def)
qed

text \<open>
  C25. The in-flight table is a finite map.  From the descriptor heads the device can echo to where each
  result goes: submitting is refused exactly when every slot is taken and otherwise adds one entry under
  a head that is not in flight; completing a head takes exactly its entry, and a head that was never
  issued, is misaligned or has completed already is refused, so no completion is delivered twice or to
  the wrong place.  The table starts empty, and requests are live exactly while the map is not.
\<close>
theorem inflights_refine_map:
  assumes "if_wf fl"
  shows "(submit fl info = None \<longleftrightarrow> (\<forall>s < if_slots fl. in_flight fl (head_of s) \<noteq> None)) \<and>
    (\<forall>head fl'. submit fl info = Some (head, fl') \<longrightarrow>
       if_wf fl' \<and> if_slots fl' = if_slots fl \<and> in_flight fl head = None \<and> in_flight fl' = (in_flight fl)(head \<mapsto> info)) \<and>
    (\<forall>head. case in_flight fl head of
        None \<Rightarrow> complete fl head = None
      | Some c \<Rightarrow> \<exists>fl'. complete fl head = Some (c, fl') \<and> if_wf fl' \<and> if_slots fl' = if_slots fl \<and>
          in_flight fl' = (in_flight fl)(head := None)) \<and>
    (any_live fl \<longleftrightarrow> in_flight fl \<noteq> Map.empty) \<and>
    if_wf (inflights_new n) \<and> in_flight (inflights_new n) = Map.empty"
proof -
  note W = if_wfD[OF assms]
  have free_len: "card (free_slots fl) = if_free_len fl"
    using W(2,4,5) unfolding W(6)[symmetric] by (simp add: distinct_card flip: set_map)
  have free_iff: "if_free_len fl = 0 \<longleftrightarrow> free_slots fl = {}"
    using free_len by (metis card_0_eq W(6) List.finite_set finite_imageI card.empty)
  have inj: "t < if_slots fl \<Longrightarrow> head_of s = head_of t \<longleftrightarrow> s = t" if "s < if_slots fl" for s t
    using head_of_inj[of s t] W(3) that by auto
  have full: "submit fl info = None \<longleftrightarrow> (\<forall>s < if_slots fl. in_flight fl (head_of s) \<noteq> None)"
    using free_iff in_flight_head[OF assms] by (auto simp: submit_def free_slots_def Let_def)
  have sub: "if_wf fl' \<and> if_slots fl' = if_slots fl \<and> in_flight fl head = None \<and> in_flight fl' = (in_flight fl)(head \<mapsto> info)"
    if S: "submit fl info = Some (head, fl')" for head fl'
  proof -
    obtain s where s: "s \<in> free_slots fl" "head = head_of s" "if_wf fl'" "if_slots fl' = if_slots fl"
      "if_routing fl' = (if_routing fl)[s := Some info]"
      by (rule submit_Some[OF assms S])
    have sm: "s < if_slots fl" "s < MAX_SLOTS" "if_routing fl ! s = None" using s(1) W(3) by (simp_all add: free_slots_def)
    have "in_flight fl' = (in_flight fl)(head \<mapsto> info)"
    proof (rule map_eqI)
      fix x y
      have "(\<exists>t < if_slots fl. x = head_of t \<and> if_routing fl' ! t = Some y) \<longleftrightarrow>
          (if x = head_of s then info = y else \<exists>t < if_slots fl. x = head_of t \<and> if_routing fl ! t = Some y)"
        using sm W(1) inj[OF sm(1)] by (auto simp: s(5) nth_list_update_cases)
      then show "in_flight fl' x = Some y \<longleftrightarrow> ((in_flight fl)(head \<mapsto> info)) x = Some y"
        unfolding in_flight_iff[OF s(3)] s(2,4) by (simp add: in_flight_iff[OF assms])
    qed
    then show ?thesis using s sm in_flight_head[OF assms] by simp
  qed
  have com: "case in_flight fl head of
        None \<Rightarrow> complete fl head = None
      | Some c \<Rightarrow> \<exists>fl'. complete fl head = Some (c, fl') \<and> if_wf fl' \<and> if_slots fl' = if_slots fl \<and>
          in_flight fl' = (in_flight fl)(head := None)" for head
  proof (cases "complete fl head")
    case None
    then have "in_flight fl head = None" by (auto simp: complete_def in_flight_def split: option.splits)
    then show ?thesis using None by simp
  next
    case (Some r)
    obtain c fl' where c: "complete fl head = Some (c, fl')" using Some by (cases r) simp
    obtain s where s: "s < if_slots fl" "head = head_of s" "if_routing fl ! s = Some c" "if_wf fl'" "if_slots fl' = if_slots fl"
      "if_routing fl' = (if_routing fl)[s := None]"
      by (rule complete_Some[OF assms c])
    have "in_flight fl' = (in_flight fl)(head := None)"
    proof (rule map_eqI)
      fix x y
      have "(\<exists>t < if_slots fl. x = head_of t \<and> if_routing fl' ! t = Some y) \<longleftrightarrow>
          x \<noteq> head_of s \<and> (\<exists>t < if_slots fl. x = head_of t \<and> if_routing fl ! t = Some y)"
        using s(1) W(1,3) inj[OF s(1)] by (auto simp: s(6) nth_list_update_cases eq_commute[of "head_of _" "head_of s"])
      then show "in_flight fl' x = Some y \<longleftrightarrow> ((in_flight fl)(head := None)) x = Some y"
        unfolding in_flight_iff[OF s(4)] s(2,5) by (simp add: in_flight_iff[OF assms])
    qed
    moreover have "in_flight fl head = Some c" using s in_flight_head[OF assms] by simp
    ultimately show ?thesis using c s(4,5) by simp
  qed
  have live: "any_live fl \<longleftrightarrow> in_flight fl \<noteq> Map.empty"
  proof -
    have sub: "free_slots fl \<subseteq> {..<if_slots fl}" by (auto simp: free_slots_def)
    have "if_free_len fl < if_slots fl \<longleftrightarrow> card (free_slots fl) < card {..<if_slots fl}" by (simp add: free_len)
    also have "\<dots> \<longleftrightarrow> free_slots fl \<noteq> {..<if_slots fl}"
    proof
      assume "card (free_slots fl) < card {..<if_slots fl}"
      then show "free_slots fl \<noteq> {..<if_slots fl}" by (rule contrapos_pn) simp
    next
      assume "free_slots fl \<noteq> {..<if_slots fl}"
      then have "free_slots fl \<subset> {..<if_slots fl}" using sub by blast
      then show "card (free_slots fl) < card {..<if_slots fl}" by (intro psubset_card_mono) simp
    qed
    also have "\<dots> \<longleftrightarrow> (\<exists>s < if_slots fl. if_routing fl ! s \<noteq> None)"
    proof -
      have mem: "s \<in> free_slots fl \<longleftrightarrow> s < if_slots fl \<and> if_routing fl ! s = None" for s
        by (simp add: free_slots_def)
      have "free_slots fl = {..<if_slots fl} \<longleftrightarrow> (\<forall>s < if_slots fl. if_routing fl ! s = None)"
      proof
        assume "free_slots fl = {..<if_slots fl}"
        then show "\<forall>s < if_slots fl. if_routing fl ! s = None" using mem lessThan_iff by metis
      next
        assume "\<forall>s < if_slots fl. if_routing fl ! s = None"
        then show "free_slots fl = {..<if_slots fl}" by (intro set_eqI) (simp add: mem cong: conj_cong)
      qed
      then show ?thesis by simp
    qed
    also have "\<dots> \<longleftrightarrow> in_flight fl \<noteq> Map.empty"
    proof
      assume "\<exists>s < if_slots fl. if_routing fl ! s \<noteq> None"
      then obtain s where "s < if_slots fl" "in_flight fl (head_of s) \<noteq> None" using in_flight_head[OF assms] by auto
      then show "in_flight fl \<noteq> Map.empty" by auto
    next
      assume "in_flight fl \<noteq> Map.empty"
      then obtain h c where "in_flight fl h = Some c" by (auto simp: fun_eq_iff)
      then show "\<exists>s < if_slots fl. if_routing fl ! s \<noteq> None" using in_flight_iff[OF assms] by auto
    qed
    finally show ?thesis by (simp add: any_live_def)
  qed
  show ?thesis using full sub com live inflights_new_wf by blast
qed

lemma inflights_refine_map_witness:
  "\<exists>head fl'. submit (inflights_new 1) (RingC 2 7) = Some (head, fl') \<and> in_flight fl' head = Some (RingC 2 7) \<and>
     submit fl' Poll = None"
proof -
  obtain head fl' where s: "submit (inflights_new 1) (RingC 2 7) = Some (head, fl')"
    by (cases "submit (inflights_new 1) (RingC 2 7)") (auto simp: submit_def inflights_new_def MAX_SLOTS_eq Let_def)
  note T = inflights_refine_map[OF inflights_new_wf(1)[of 1], of "RingC 2 7"]
  have f: "if_wf fl'" "if_slots fl' = if_slots (inflights_new 1)" "in_flight fl' = (in_flight (inflights_new 1))(head \<mapsto> RingC 2 7)"
    using T s by blast+
  have "if_free_len fl' = 0" using s by (auto simp: submit_def inflights_new_def MAX_SLOTS_eq Let_def)
  then have "submit fl' Poll = None" by (simp add: submit_def)
  then show ?thesis using s f(3) by auto
qed

end
