(* ===== verification/Completion_Rings.thy ===== *)
theory Completion_Rings
  imports User_Map Virtio
begin

text \<open>
  Completion rings, \<open>kernel/src/rings.rs\<close>, with the device side of \<open>virtio_blk.rs\<close> that feeds them
  (\<open>complete_irq\<close>, \<open>bind_wait\<close>) and the event side of \<open>input.rs\<close> (\<open>record\<close>, \<open>source_for\<close>): a process
  shares two of its frames with the kernel, a submission queue it fills and a completion queue the
  kernel fills.  Ring frames are bytes of physical memory, read and written where the code reads
  and writes them.  The theorems state that a submission reaches a device only under the capabilities
  that allow it, where completions land, that waiting never misses one, and that a ring outlives the
  frames it was made from.
\<close>

section \<open>Layout\<close>

definition SQ_ENTRY_SIZE :: u64 where "SQ_ENTRY_SIZE = 32"
definition CQ_ENTRY_SIZE :: u64 where "CQ_ENTRY_SIZE = 16"
definition HDR_HEAD :: u64 where "HDR_HEAD = 0"
definition HDR_TAIL :: u64 where "HDR_TAIL = 4"
definition HDR_MASK :: u64 where "HDR_MASK = 8"
definition RING_HDR_SIZE :: u64 where "RING_HDR_SIZE = 16"
definition MAX_ENTRIES :: u64 where "MAX_ENTRIES = 64"
definition RING_OP_READ :: u32 where "RING_OP_READ = 0"
definition RING_OP_EVENT_SUB :: u32 where "RING_OP_EVENT_SUB = 1"
definition RING_OP_CANCEL :: u32 where "RING_OP_CANCEL = 2"
definition RING_OP_WRITE :: u32 where "RING_OP_WRITE = 3"
definition EVENT_SUB_ERR :: u64 where "EVENT_SUB_ERR = 0"

lemmas ring_layout = SQ_ENTRY_SIZE_def CQ_ENTRY_SIZE_def HDR_HEAD_def HDR_TAIL_def HDR_MASK_def RING_HDR_SIZE_def

definition is_power_of_two :: "u64 \<Rightarrow> bool" where
  "is_power_of_two n \<longleftrightarrow> n \<noteq> 0 \<and> n AND (n - 1) = 0"

section \<open>Registering a ring\<close>

definition init_header :: "u32 \<Rightarrow> mem \<Rightarrow> u64 \<Rightarrow> mem" where
  "init_header entries m base =
     w32 (w32 (w32 (w32 m (base + HDR_HEAD) 0) (base + HDR_TAIL) 0) (base + HDR_MASK) (entries - 1)) (base + 12) 0"

definition frame_cap :: "cap_table \<Rightarrow> u64 \<Rightarrow> u8 \<Rightarrow> u64 option" where
  "frame_cap t slot required =
     (case lookup t (unat slot) required of
        Inl _ \<Rightarrow> None
      | Inr c \<Rightarrow> (case cap_obj c of Frame addr \<Rightarrow> Some addr | _ \<Rightarrow> None))"

definition ring_register :: "kernel \<Rightarrow> nat \<Rightarrow> u64 \<Rightarrow> u64 \<Rightarrow> u64 \<Rightarrow> u64 \<times> kernel" where
  "ring_register k me sq_slot cq_slot entries =
     (if entries = 0 \<or> MAX_ENTRIES < entries \<or> \<not> is_power_of_two entries then (ERR, k)
      else
        let n = ucast entries :: u32 in
        case k_current k ! me of
          None \<Rightarrow> (ERR, k)
        | Some p \<Rightarrow>
            (case frame_cap (p_caps p) sq_slot (RIGHT_READ OR RIGHT_WRITE) of
               None \<Rightarrow> (ERR, k)
             | Some sq \<Rightarrow>
                 (case frame_cap (p_caps p) cq_slot (RIGHT_READ OR RIGHT_WRITE) of
                    None \<Rightarrow> (ERR, k)
                  | Some cq \<Rightarrow>
                      if sq = cq then (ERR, k)
                      else (case position (\<lambda>r. \<not> rg_in_use r) (k_rings k) of
                        None \<Rightarrow> (ERR, k)
                      | Some i \<Rightarrow>
                          let r = \<lparr>rg_in_use = True, rg_owner = current_slot k me, rg_sq_phys = sq, rg_cq_phys = cq,
                                   rg_mask = n - 1, rg_sq_head = 0, rg_cq_tail = 0, rg_waiting = False\<rparr>;
                              k1 = k\<lparr>k_rings := (k_rings k)[i := r],
                                     k_mem := foldl (init_header n) (k_mem k) [sq, cq]\<rparr>
                          in (case mint (p_caps p) (Ring i) (RIGHT_READ OR RIGHT_WRITE) of
                                Inr (slot, t) \<Rightarrow> (of_nat slot, set_current k1 me (Some (p\<lparr>p_caps := t\<rparr>)))
                              | Inl _ \<Rightarrow> (ERR, k1\<lparr>k_rings := (k_rings k)[i := r\<lparr>rg_in_use := False\<rparr>]\<rparr>))))))"

definition ring_id_for :: "kernel \<Rightarrow> nat \<Rightarrow> u64 \<Rightarrow> nat option" where
  "ring_id_for k me slot =
     (case k_current k ! me of
        None \<Rightarrow> None
      | Some p \<Rightarrow>
          (case lookup (p_caps p) (unat slot) (RIGHT_READ OR RIGHT_WRITE) of
             Inl _ \<Rightarrow> None
           | Inr c \<Rightarrow>
               (case cap_obj c of
                  Ring i \<Rightarrow>
                    if i < MAX_RINGS \<and> rg_in_use (k_rings k ! i) \<and> rg_owner (k_rings k ! i) = current_slot k me
                    then Some i else None
                | _ \<Rightarrow> None)))"

section \<open>Posting completions\<close>

definition cq_entry_addr :: "ring \<Rightarrow> u64" where
  "cq_entry_addr r = rg_cq_phys r + RING_HDR_SIZE + ucast (rg_cq_tail r AND rg_mask r) * CQ_ENTRY_SIZE"

definition cq_full :: "mem \<Rightarrow> ring \<Rightarrow> bool" where
  "cq_full m r \<longleftrightarrow> rg_mask r + 1 \<le> rg_cq_tail r - r32 m (rg_cq_phys r + HDR_HEAD)"

definition write_completion :: "ring \<Rightarrow> u64 \<Rightarrow> u64 \<Rightarrow> mem \<Rightarrow> mem" where
  "write_completion r user_data status m =
     (let e = cq_entry_addr r in
      w32 (w32 (w32 (w64 m e user_data) (e + 8) (ucast status)) (e + 12) 0)
          (rg_cq_phys r + HDR_TAIL) (rg_cq_tail r + 1))"

text \<open>Whether the completion was admitted, whom to wake, and the state.\<close>

definition cq_post :: "kernel \<Rightarrow> nat \<Rightarrow> u64 \<Rightarrow> u64 \<Rightarrow> bool \<Rightarrow> (bool \<times> nat option) \<times> kernel" where
  "cq_post k i user_data status drop_if_full =
     (if MAX_RINGS \<le> i \<or> \<not> rg_in_use (k_rings k ! i) then ((True, None), k)
      else
        let r = k_rings k ! i in
        if drop_if_full \<and> cq_full (k_mem k) r then ((False, None), k)
        else ((True, if rg_waiting r then Some (rg_owner r) else None),
              k\<lparr>k_mem := write_completion r user_data status (k_mem k),
                k_rings := (k_rings k)[i := r\<lparr>rg_cq_tail := rg_cq_tail r + 1, rg_waiting := False\<rparr>]\<rparr>))"

definition post_completion :: "kernel \<Rightarrow> nat \<Rightarrow> u64 \<Rightarrow> u64 \<Rightarrow> nat option \<times> kernel" where
  "post_completion k i user_data status =
     (let (r, k') = cq_post k i user_data status False in (snd r, k'))"

definition post_event :: "kernel \<Rightarrow> nat \<Rightarrow> u64 \<Rightarrow> u32 \<Rightarrow> (bool \<times> nat option) \<times> kernel" where
  "post_event k i user_data status = cq_post k i user_data (ucast status) True"

definition post_status :: "kernel \<Rightarrow> nat \<Rightarrow> u64 \<Rightarrow> u64 \<Rightarrow> kernel" where
  "post_status k i user_data status = snd (post_completion k i user_data status)"

section \<open>Draining the submission queue\<close>

record io =
  io_kernel :: kernel
  io_devs :: devices

datatype submit_outcome = Consumed | Full

definition finish :: "io \<Rightarrow> nat \<Rightarrow> u64 \<Rightarrow> u64 \<Rightarrow> submit_outcome \<times> io" where
  "finish s i user_data status =
     (Consumed, s\<lparr>io_kernel := post_status (io_kernel s) i user_data status\<rparr>)"

record sq_entry =
  sq_op :: u32
  sq_flags :: u32
  sq_range_slot :: u32
  sq_frame_slot :: u32
  sq_sector_off :: u64
  sq_user_data :: u64

definition read_entry :: "mem \<Rightarrow> u64 \<Rightarrow> sq_entry" where
  "read_entry m e = \<lparr>sq_op = r32 m e, sq_flags = r32 m (e + 4), sq_range_slot = r32 m (e + 8),
     sq_frame_slot = r32 m (e + 12), sq_sector_off = read64 m (e + 16), sq_user_data = read64 m (e + 24)\<rparr>"

definition entry_count :: "sq_entry \<Rightarrow> u64" where
  "entry_count e = ucast (sq_flags e AND 0xFFFF)"

text \<open>The two capability checks: the device, the sector on it, and the frame, or the error status.\<close>

definition resolve_io :: "process option \<Rightarrow> u8 \<Rightarrow> u8 \<Rightarrow> u64 \<Rightarrow> sq_entry \<Rightarrow> u64 + (nat \<times> u64 \<times> u64)" where
  "resolve_io po range_right frame_right sectors e =
     (case po of
        None \<Rightarrow> Inl BLK_E_RIGHTS
      | Some p \<Rightarrow>
          (case lookup (p_caps p) (unat (sq_range_slot e)) range_right of
             Inl _ \<Rightarrow> Inl BLK_E_RIGHTS
           | Inr c \<Rightarrow>
               (case cap_obj c of
                  BlockRange dev start range_count \<Rightarrow>
                    (case checked_add (sq_sector_off e) sectors of
                       None \<Rightarrow> Inl BLK_E_RANGE
                     | Some end_off \<Rightarrow>
                         if range_count < end_off then Inl BLK_E_RANGE
                         else (case lookup (p_caps p) (unat (sq_frame_slot e)) frame_right of
                                 Inl _ \<Rightarrow> Inl BLK_E_RIGHTS
                               | Inr f \<Rightarrow>
                                   (case cap_obj f of
                                      Frame addr \<Rightarrow> Inr (unat dev, start + sq_sector_off e, addr)
                                    | _ \<Rightarrow> Inl BLK_E_RIGHTS)))
                | _ \<Rightarrow> Inl BLK_E_RIGHTS)))"

definition saturating_mul :: "u64 \<Rightarrow> u64 \<Rightarrow> u64" where
  "saturating_mul a b = (case checked_mul a b of Some c \<Rightarrow> c | None \<Rightarrow> - 1)"

type_synonym dma_mapper = "u64 \<Rightarrow> mem \<times> frame_alloc \<Rightarrow> mem \<times> frame_alloc"

definition post_block ::
    "dma_mapper \<Rightarrow> direction \<Rightarrow> u8 \<Rightarrow> u8 \<Rightarrow> io \<Rightarrow> nat \<Rightarrow> nat \<Rightarrow> sq_entry \<Rightarrow> submit_outcome \<times> io" where
  "post_block map_dma dir range_right frame_right s me i e =
     (let sectors = entry_count e; user_data = sq_user_data e; k = io_kernel s in
      if sectors = 0 \<or> of_nat FRAME_SIZE < saturating_mul sectors SECTOR_SIZE then finish s i user_data BLK_E_BADARG
      else (case resolve_io (k_current k ! me) range_right frame_right sectors e of
              Inl status \<Rightarrow> finish s i user_data status
            | Inr (dev, abs_sector, frame_phys) \<Rightarrow>
                if \<not> ready (io_devs s) dev then finish s i user_data BLK_E_DEV
                else (case ring_post map_dma (io_devs s) dev abs_sector sectors frame_phys i user_data dir
                        (k_mem k, k_alloc k) of
                        None \<Rightarrow> (Full, s)
                      | Some (ds, m, fa) \<Rightarrow>
                          (Consumed, s\<lparr>io_devs := ds, io_kernel := k\<lparr>k_mem := m, k_alloc := fa\<rparr>\<rparr>))))"

definition post_read :: "dma_mapper \<Rightarrow> io \<Rightarrow> nat \<Rightarrow> nat \<Rightarrow> sq_entry \<Rightarrow> submit_outcome \<times> io" where
  "post_read map_dma = post_block map_dma Read RIGHT_READ RIGHT_WRITE"

definition post_write :: "dma_mapper \<Rightarrow> io \<Rightarrow> nat \<Rightarrow> nat \<Rightarrow> sq_entry \<Rightarrow> submit_outcome \<times> io" where
  "post_write map_dma = post_block map_dma Write RIGHT_WRITE RIGHT_READ"

definition N_SOURCES :: nat where "N_SOURCES = 2"

definition source_for :: "kernel \<Rightarrow> nat \<Rightarrow> u64 \<Rightarrow> nat option" where
  "source_for k me slot =
     (case k_current k ! me of
        None \<Rightarrow> None
      | Some p \<Rightarrow>
          (case lookup (p_caps p) (unat slot) RIGHT_READ of
             Inl _ \<Rightarrow> None
           | Inr c \<Rightarrow>
               (case cap_obj c of
                  EventSource i \<Rightarrow> if unat i < N_SOURCES then Some (unat i) else None
                | _ \<Rightarrow> None)))"

definition post_event_sub :: "io \<Rightarrow> nat \<Rightarrow> nat \<Rightarrow> u32 \<Rightarrow> u64 \<Rightarrow> submit_outcome \<times> io" where
  "post_event_sub s me i source_slot user_data =
     (case source_for (io_kernel s) me (ucast source_slot) of
        None \<Rightarrow> finish s i user_data EVENT_SUB_ERR
      | Some source \<Rightarrow>
          (case subscribe (k_subs (io_kernel s)) source i user_data of
             Some (_, subs) \<Rightarrow> (Consumed, s\<lparr>io_kernel := (io_kernel s)\<lparr>k_subs := subs\<rparr>\<rparr>)
           | None \<Rightarrow> finish s i user_data EVENT_SUB_ERR))"

definition post_cancel :: "io \<Rightarrow> nat \<Rightarrow> u64 \<Rightarrow> submit_outcome \<times> io" where
  "post_cancel s i user_data =
     (Consumed, s\<lparr>io_kernel := (io_kernel s)\<lparr>k_subs := snd (cancel (k_subs (io_kernel s)) i user_data)\<rparr>\<rparr>)"

definition post_entry :: "dma_mapper \<Rightarrow> io \<Rightarrow> nat \<Rightarrow> nat \<Rightarrow> sq_entry \<Rightarrow> submit_outcome \<times> io" where
  "post_entry map_dma s me i e =
     (if sq_op e = RING_OP_READ then post_read map_dma s me i e
      else if sq_op e = RING_OP_WRITE then post_write map_dma s me i e
      else if sq_op e = RING_OP_EVENT_SUB then post_event_sub s me i (sq_range_slot e) (sq_user_data e)
      else if sq_op e = RING_OP_CANCEL then post_cancel s i (sq_user_data e)
      else finish s i (sq_user_data e) BLK_E_BADARG)"

text \<open>The drain of \<open>n\<close> entries from the head: the number consumed, the new head, and the state.\<close>

fun submit_loop :: "nat \<Rightarrow> dma_mapper \<Rightarrow> io \<Rightarrow> nat \<Rightarrow> nat \<Rightarrow> u64 \<Rightarrow> u32 \<Rightarrow> u32 \<Rightarrow> nat \<times> u32 \<times> io" where
  "submit_loop 0 map_dma s me i sq_base msk head = (0, head, s)"
| "submit_loop (Suc n) map_dma s me i sq_base msk head =
     (let e = read_entry (k_mem (io_kernel s)) (sq_base + RING_HDR_SIZE + ucast (head AND msk) * SQ_ENTRY_SIZE) in
      case post_entry map_dma s me i e of
        (Consumed, s') \<Rightarrow>
          (let (c, head', s'') = submit_loop n map_dma s' me i sq_base msk (head + 1) in (c + 1, head', s''))
      | (Full, s') \<Rightarrow> (0, head, s'))"

definition ring_submit :: "dma_mapper \<Rightarrow> io \<Rightarrow> nat \<Rightarrow> u64 \<Rightarrow> u64 \<times> io" where
  "ring_submit map_dma s me ring_slot =
     (case ring_id_for (io_kernel s) me ring_slot of
        None \<Rightarrow> (ERR, s)
      | Some i \<Rightarrow>
          let r = k_rings (io_kernel s) ! i;
              sq_tail = r32 (k_mem (io_kernel s)) (rg_sq_phys r + HDR_TAIL);
              (consumed, head, s') =
                submit_loop (unat (sq_tail - rg_sq_head r)) map_dma s me i (rg_sq_phys r) (rg_mask r) (rg_sq_head r);
              k = io_kernel s'
          in (of_nat consumed,
              s'\<lparr>io_kernel := k\<lparr>k_rings := (k_rings k)[i := (k_rings k ! i)\<lparr>rg_sq_head := head\<rparr>],
                                k_mem := w32 (k_mem k) (rg_sq_phys r + HDR_HEAD) head\<rparr>\<rparr>))"

section \<open>Waiting and waking\<close>

definition ring_wait :: "kernel \<Rightarrow> nat \<Rightarrow> u64 \<Rightarrow> u64 \<Rightarrow> outcome option" where
  "ring_wait k me ring_slot frame_ptr =
     (case ring_id_for k me ring_slot of
        None \<Rightarrow> Some (Returns ERR k)
      | Some i \<Rightarrow>
          let r = k_rings k ! i in
          if rg_cq_tail r \<noteq> r32 (k_mem k) (rg_cq_phys r + HDR_HEAD) then Some (Returns 0 k)
          else blocks (block_current (k\<lparr>k_rings := (k_rings k)[i := r\<lparr>rg_waiting := True\<rparr>]\<rparr>) me frame_ptr))"

definition wake_owner :: "kernel \<Rightarrow> nat \<Rightarrow> kernel" where
  "wake_owner k w = wake_with k w 0 0 NO_CAP"

definition post_subscribed :: "nat \<Rightarrow> u64 \<Rightarrow> u32 \<Rightarrow> kernel \<times> nat list \<Rightarrow> bool \<times> kernel \<times> nat list" where
  "post_subscribed ring user_data status kw =
     (let (r, k) = post_event (fst kw) ring user_data status
      in (fst r, k, snd kw @ (case snd r of None \<Rightarrow> [] | Some w \<Rightarrow> [w])))"

definition deliver_event :: "kernel \<Rightarrow> nat \<Rightarrow> u32 \<Rightarrow> kernel" where
  "deliver_event k source event =
     (let (subs, k', wakes) = deliver post_subscribed source event (k_subs k) (k, [])
      in foldl wake_owner (k'\<lparr>k_subs := subs\<rparr>) wakes)"

definition record_event :: "kernel \<Rightarrow> nat \<Rightarrow> event \<Rightarrow> kernel" where
  "record_event k source ev = deliver_event k source (ucast (pack ev))"

definition dropped_for :: "kernel \<Rightarrow> nat \<Rightarrow> u64 \<Rightarrow> u64 \<Rightarrow> u64" where
  "dropped_for k me ring_slot user_data =
     (case ring_id_for k me ring_slot of
        None \<Rightarrow> ERR
      | Some i \<Rightarrow> (case subs_dropped (k_subs k) i user_data of Some n \<Rightarrow> ucast n | None \<Rightarrow> ERR))"

definition route_completion :: "kernel \<times> nat list \<Rightarrow> completion \<times> u64 \<Rightarrow> kernel \<times> nat list" where
  "route_completion kw c =
     (case fst c of
        Poll \<Rightarrow> kw
      | RingC ring user_data \<Rightarrow>
          let (w, k) = post_completion (fst kw) ring user_data (snd c)
          in (k, snd kw @ (case w of None \<Rightarrow> [] | Some owner \<Rightarrow> [owner])))"

definition complete_irq :: "io \<Rightarrow> nat \<Rightarrow> io" where
  "complete_irq s dev =
     (case device_at (io_devs s) dev of
        None \<Rightarrow> s
      | Some d \<Rightarrow>
          (case vb_bound d of
             Some b \<Rightarrow>
               s\<lparr>io_devs := (io_devs s)[dev := Some (d\<lparr>vb_bound := Some (b\<lparr>bd_waiter := None\<rparr>)\<rparr>)],
                 io_kernel := (case bd_waiter b of None \<Rightarrow> io_kernel s | Some w \<Rightarrow> wake_owner (io_kernel s) w)\<rparr>
           | None \<Rightarrow>
               let (cs, d') = drain_completions (k_mem (io_kernel s)) MAX_SLOTS d;
                   (k, wakes) = foldl route_completion (io_kernel s, []) cs
               in s\<lparr>io_devs := (io_devs s)[dev := Some d'], io_kernel := foldl wake_owner k wakes\<rparr>))"

definition bind_wait :: "io \<Rightarrow> nat \<Rightarrow> u64 \<Rightarrow> u64 \<Rightarrow> u64 \<Rightarrow> (outcome \<times> devices) option" where
  "bind_wait s me bind_slot used_seen frame_ptr =
     (let k = io_kernel s; err = Some (Returns ERR k, io_devs s) in
      case k_current k ! me of
        None \<Rightarrow> err
      | Some p \<Rightarrow>
          (case lookup (p_caps p) (unat bind_slot) RIGHT_MAP of
             Inl _ \<Rightarrow> err
           | Inr c \<Rightarrow>
               (case cap_obj c of
                  BoundDevice dev \<Rightarrow>
                    (case device_at (io_devs s) (unat dev) of
                       None \<Rightarrow> err
                     | Some d \<Rightarrow>
                         (case vb_bound d of
                            None \<Rightarrow> err
                          | Some b \<Rightarrow>
                              let used_idx = r16 (k_mem k) (vb_used d + 2) in
                              if ucast used_idx \<noteq> used_seen then Some (Returns 0 k, io_devs s)
                              else map_option (\<lambda>out. (out, (io_devs s)[unat dev :=
                                       Some (d\<lparr>vb_bound := Some (b\<lparr>bd_waiter := Some (current_slot k me)\<rparr>)\<rparr>)]))
                                     (blocks (block_current k me frame_ptr))))
                | _ \<Rightarrow> err)))"

definition bind_info :: "devices \<Rightarrow> nat \<Rightarrow> bound_map option" where
  "bind_info ds dev =
     (case device_at ds dev of
        None \<Rightarrow> None
      | Some d \<Rightarrow>
          map_option (\<lambda>b. \<lparr>bm_notify = bd_notify_page b, bm_desc = bd_desc b, bm_avail = bd_avail b, bm_used = bd_used b,
              bm_buf = bd_buf b, bm_data = bd_data b, bm_data_iova = bd_data_iova b, bm_buf_iova = bd_buf_iova b,
              bm_qsize = vb_qsize d\<rparr>) (vb_bound d))"

section \<open>Bytes in a frame\<close>

text \<open>The \<open>n\<close> bytes from offset \<open>f\<close> of the frame at \<open>p\<close>.\<close>

definition bytes_at :: "mem \<Rightarrow> u64 \<Rightarrow> nat \<Rightarrow> nat \<Rightarrow> u8 list" where
  "bytes_at m p f n = map (\<lambda>i. m (p + of_nat (f + i))) [0..<n]"

lemma offset_diff:
  assumes "f \<le> 4096" "g \<le> 4096"
  shows "unat ((p + of_nat g) - (p + of_nat f) :: u64) = (if f \<le> g then g - f else 2 ^ 64 - (f - g))"
proof (cases "f \<le> g")
  case True
  have "(p + of_nat g) - (p + of_nat f) = (of_nat (g - f) :: u64)" using True by (simp add: of_nat_diff)
  moreover have "unat (of_nat (g - f) :: u64) = g - f" using assms by (intro unat_of_nat_id) simp
  ultimately show ?thesis using True by simp
next
  case False
  let ?d = "18446744073709551616 - (f - g)"
  have "f - g \<le> 18446744073709551616" using assms by simp
  then have "(of_nat ?d :: u64) = of_nat 18446744073709551616 - of_nat (f - g)" by (rule of_nat_diff)
  moreover have "(of_nat 18446744073709551616 :: u64) = 0" by simp
  ultimately have "(p + of_nat g) - (p + of_nat f) = (of_nat ?d :: u64)"
    using False by (simp add: of_nat_diff)
  moreover have "unat (of_nat ?d :: u64) = ?d" using False by (intro unat_of_nat_id) simp
  ultimately show ?thesis using False by simp
qed

definition put :: "mem \<Rightarrow> u64 \<Rightarrow> nat \<Rightarrow> u8 list \<Rightarrow> mem" where
  "put m p f bs = store_bytes m (p + of_nat f) bs"

lemma put_same: "f + length bs \<le> 4096 \<Longrightarrow> n = length bs \<Longrightarrow> bytes_at (put m p f bs) p f n = bs"
proof (rule nth_equalityI)
  fix i
  assume b: "f + length bs \<le> 4096" "n = length bs" and "i < length (bytes_at (put m p f bs) p f n)"
  then have i: "i < length bs" by (simp add: bytes_at_def)
  have "unat ((p + of_nat (f + i)) - (p + of_nat f)) = i" using b i by (subst offset_diff) simp_all
  then show "bytes_at (put m p f bs) p f n ! i = bs ! i"
    using i b by (simp add: bytes_at_def put_def store_bytes_def)
qed (simp add: bytes_at_def)

lemma put_other:
  assumes "f + length bs \<le> 4096" "g + n \<le> 4096" "f + length bs \<le> g \<or> g + n \<le> f"
  shows "bytes_at (put m p f bs) p g n = bytes_at m p g n"
proof (rule nth_equalityI)
  fix i
  assume "i < length (bytes_at (put m p f bs) p g n)"
  then have i: "i < n" by (simp add: bytes_at_def)
  have "\<not> unat ((p + of_nat (g + i)) - (p + of_nat f)) < length bs"
    using assms i by (subst offset_diff) (auto split: if_splits)
  then show "bytes_at (put m p f bs) p g n ! i = bytes_at m p g n ! i"
    using i by (simp add: bytes_at_def put_def store_bytes_def)
qed (simp add: bytes_at_def)

lemma put_page:
  assumes "page_aligned p" "f + length bs \<le> 4096" "page_floor x \<noteq> p"
  shows "put m p f bs x = m x"
proof -
  have "\<not> unat (x - (p + of_nat f)) < length bs"
  proof
    assume l: "unat (x - (p + of_nat f)) < length bs"
    let ?d = "x - (p + of_nat f)"
    have f: "unat (of_nat f :: u64) = f" using assms(2) by (intro unat_of_nat_id) simp
    have "unat (of_nat f + ?d) = f + unat ?d"
      using l f assms(2) by (subst unat_add_if_less) simp_all
    then have "unat (of_nat f + ?d) < 4096" using l assms(2) by simp
    then have "page_floor (p + (of_nat f + ?d)) = p" using assms(1) by (rule word8_offset)
    then show False using assms(3) by simp
  qed
  then show ?thesis by (simp add: put_def store_bytes_def)
qed

lemma r32_bytes: "r32 m (p + of_nat f) = of_nat (le_nat (bytes_at m p f 4))"
  by (simp add: r32_def bytes_at_def add.assoc)

lemma read64_bytes: "read64 m (p + of_nat f) = of_nat (le_nat (bytes_at m p f 8))"
  by (simp add: read64_def bytes_at_def add.assoc)

lemma le_word32: "of_nat (le_nat (le_bytes 4 (unat v))) = (v :: u32)"
  using unat_u32_less[of v] by (subst le_nat_le_bytes) simp_all

lemma le_word64: "of_nat (le_nat (le_bytes 8 (unat v))) = (v :: u64)"
  using unat_u64_less[of v] by (subst le_nat_le_bytes) simp_all

section \<open>The completion queue\<close>

text \<open>A registered ring: at most 64 entries, a power of two, in page-aligned frames.\<close>

definition ring_ok :: "ring \<Rightarrow> bool" where
  "ring_ok r \<longleftrightarrow> (\<exists>n \<le> 6. rg_mask r = mask n) \<and> page_aligned (rg_cq_phys r) \<and> page_aligned (rg_sq_phys r)"

definition cq_slot :: "ring \<Rightarrow> u32 \<Rightarrow> nat" where
  "cq_slot r idx = unat (idx AND rg_mask r)"

definition cq_entry :: "mem \<Rightarrow> ring \<Rightarrow> nat \<Rightarrow> u64 \<times> u32" where
  "cq_entry m r s = (read64 m (rg_cq_phys r + of_nat (16 + 16 * s)), r32 m (rg_cq_phys r + of_nat (24 + 16 * s)))"

definition cq_head :: "mem \<Rightarrow> ring \<Rightarrow> u32" where
  "cq_head m r = r32 m (rg_cq_phys r + of_nat 0)"

lemma unat_and_mask: "unat (w AND mask n :: 'a::len word) = unat w mod 2 ^ n"
proof -
  have "w AND mask n = take_bit n w" by (simp add: take_bit_eq_mask)
  then have "unat (w AND mask n) = take_bit n (unat w)" by (simp only: unsigned_take_bit_eq)
  then show ?thesis by (simp add: take_bit_eq_mod)
qed

lemma cq_slot_small: "ring_ok r \<Longrightarrow> cq_slot r idx \<le> 63"
proof -
  assume "ring_ok r"
  then obtain n where n: "n \<le> 6" "rg_mask r = mask n" by (auto simp: ring_ok_def)
  have "unat idx mod 2 ^ n < 2 ^ n" by simp
  moreover have "(2 :: nat) ^ n \<le> 2 ^ 6" using n(1) by (intro power_increasing) simp_all
  ultimately have "unat idx mod 2 ^ n < 2 ^ 6" by (rule less_le_trans)
  then have "unat idx mod 2 ^ n \<le> 63" by simp
  then show ?thesis by (simp add: cq_slot_def n(2) unat_and_mask)
qed

lemma cq_entry_addr_offset: "cq_entry_addr r = rg_cq_phys r + of_nat (16 + 16 * cq_slot r (rg_cq_tail r))"
proof -
  have "ucast w = (of_nat (unat w) :: u64)" for w :: u32 by simp
  then show ?thesis by (simp add: cq_entry_addr_def cq_slot_def ring_layout algebra_simps)
qed

lemma write_completion_puts:
  fixes r :: ring
  defines "e \<equiv> 16 + 16 * cq_slot r (rg_cq_tail r)"
  shows "write_completion r ud st m =
    put (put (put (put m (rg_cq_phys r) e (le_bytes 8 (unat ud)))
      (rg_cq_phys r) (e + 8) (le_bytes 4 (unat (ucast st :: u32))))
      (rg_cq_phys r) (e + 12) (le_bytes 4 0))
      (rg_cq_phys r) 4 (le_bytes 4 (unat (rg_cq_tail r + 1)))"
proof -
  have a: "cq_entry_addr r = rg_cq_phys r + of_nat e" by (simp add: cq_entry_addr_offset e_def)
  have "rg_cq_phys r + of_nat e + 8 = rg_cq_phys r + of_nat (e + 8)"
    "rg_cq_phys r + of_nat e + 12 = rg_cq_phys r + of_nat (e + 12)"
    by (simp_all add: algebra_simps)
  then show ?thesis by (simp only: write_completion_def a Let_def w64_def w32_def HDR_TAIL_def put_def unat_0) simp
qed

lemma write_completion_spec:
  assumes "ring_ok r"
  shows "cq_entry (write_completion r ud st m) r (cq_slot r (rg_cq_tail r)) = (ud, ucast st)"
    and "t \<le> 63 \<Longrightarrow> t \<noteq> cq_slot r (rg_cq_tail r) \<Longrightarrow> cq_entry (write_completion r ud st m) r t = cq_entry m r t"
    and "cq_head (write_completion r ud st m) r = cq_head m r"
    and "r32 (write_completion r ud st m) (rg_cq_phys r + of_nat 4) = rg_cq_tail r + 1"
    and "page_floor x \<noteq> rg_cq_phys r \<Longrightarrow> write_completion r ud st m x = m x"
proof -
  have s: "cq_slot r (rg_cq_tail r) \<le> 63" using assms by (rule cq_slot_small)
  have p: "page_aligned (rg_cq_phys r)" using assms by (simp add: ring_ok_def)
  show "cq_entry (write_completion r ud st m) r (cq_slot r (rg_cq_tail r)) = (ud, ucast st)"
    using s unfolding cq_entry_def write_completion_puts read64_bytes r32_bytes
    by (simp only: prod.inject) (simp add: put_other put_same le_word32 le_word64)
  show "cq_entry (write_completion r ud st m) r t = cq_entry m r t" if "t \<le> 63" "t \<noteq> cq_slot r (rg_cq_tail r)"
  proof -
    have "t < cq_slot r (rg_cq_tail r) \<or> cq_slot r (rg_cq_tail r) < t" using that by linarith
    then show ?thesis
      using s that unfolding cq_entry_def write_completion_puts read64_bytes r32_bytes
      by (auto simp: put_other)
  qed
  show "cq_head (write_completion r ud st m) r = cq_head m r"
    using s unfolding cq_head_def write_completion_puts r32_bytes by (simp add: put_other)
  show "r32 (write_completion r ud st m) (rg_cq_phys r + of_nat 4) = rg_cq_tail r + 1"
    using s unfolding write_completion_puts r32_bytes by (simp add: put_same le_word32)
  show "write_completion r ud st m x = m x" if "page_floor x \<noteq> rg_cq_phys r"
    using s put_page[OF p _ that] unfolding write_completion_puts by simp
qed

text \<open>What the owner has not reaped: the entries from its head to the kernel's tail.\<close>

definition unreaped :: "mem \<Rightarrow> ring \<Rightarrow> nat" where
  "unreaped m r = unat (rg_cq_tail r - cq_head m r)"

definition pending :: "mem \<Rightarrow> ring \<Rightarrow> (u64 \<times> u32) list" where
  "pending m r = map (\<lambda>i. cq_entry m r (cq_slot r (cq_head m r + of_nat i))) [0..<unreaped m r]"

definition entries :: "ring \<Rightarrow> nat" where
  "entries r = unat (rg_mask r + 1)"

lemma ring_okE:
  assumes "ring_ok r"
  obtains b where "b \<le> 6" "rg_mask r = mask b" "entries r = 2 ^ b" "entries r \<le> 64" "\<And>idx. cq_slot r idx = unat idx mod 2 ^ b"
proof -
  obtain b where b: "b \<le> 6" "rg_mask r = mask b" using assms by (auto simp: ring_ok_def)
  have p: "(2 :: nat) ^ b \<le> 2 ^ 6" using b(1) by (intro power_increasing) simp_all
  have "(2 :: nat) ^ b < 2 ^ 32" using b(1) by (intro power_strict_increasing) simp_all
  then have "unat (of_nat (2 ^ b) :: u32) = 2 ^ b" by (intro unat_of_nat_id) simp
  moreover have "mask b + 1 = (of_nat (2 ^ b) :: u32)" by (simp add: mask_eq_exp_minus_1)
  ultimately have "entries r = 2 ^ b" by (simp only: entries_def b(2))
  then show ?thesis using that[OF b] p by (simp add: cq_slot_def b(2) unat_and_mask)
qed

text \<open>Positions less than a ring's length apart have different slots.\<close>

lemma cq_slots_distinct:
  assumes "ring_ok r" "i < n" "n - i < entries r" "n \<le> 64"
  shows "cq_slot r (h + of_nat i) \<noteq> cq_slot r (h + of_nat n)"
proof
  obtain b where b: "b \<le> 6" "entries r = 2 ^ b" "\<And>idx. cq_slot r idx = unat idx mod 2 ^ b"
    using ring_okE[OF assms(1)] by metis
  have d: "(2 :: nat) ^ b dvd 2 ^ 32" using b(1) by (intro le_imp_power_dvd) simp
  have s: "cq_slot r (h + of_nat j) = (unat h + j) mod 2 ^ b" if "j \<le> 64" for j
  proof -
    have j: "unat (of_nat j :: u32) = j" using that by (intro unat_of_nat_id) simp
    have "unat (h + of_nat j) = (unat h + j) mod 2 ^ 32" by (simp add: unat_word_ariths j)
    then show ?thesis using d by (simp only: b(3) mod_mod_cancel)
  qed
  assume "cq_slot r (h + of_nat i) = cq_slot r (h + of_nat n)"
  then have "(unat h + n) mod 2 ^ b = (unat h + i) mod 2 ^ b" using s[of i] s[of n] assms(2,4) by simp
  then have "2 ^ b dvd (unat h + n) - (unat h + i)" using assms(2) by (simp only: mod_eq_dvd_iff_nat add_le_cancel_left less_imp_le)
  then have "2 ^ b dvd n - i" by simp
  then have "2 ^ b \<le> n - i" using assms(2) by (intro dvd_imp_le) simp_all
  then show False using assms(3) b(2) by simp
qed

lemma pending_append:
  assumes "ring_ok r" "unreaped m r < entries r" and r': "r' = r\<lparr>rg_cq_tail := rg_cq_tail r + 1, rg_waiting := w\<rparr>"
  shows "pending (write_completion r ud st m) r' = pending m r @ [(ud, ucast st)]"
    and "unreaped (write_completion r ud st m) r' = unreaped m r + 1"
proof -
  let ?m = "write_completion r ud st m" and ?n = "unreaped m r" and ?h = "cq_head m r"
  note W = write_completion_spec[OF assms(1)]
  have e: "entries r \<le> 64" using ring_okE[OF assms(1)] by metis
  have h: "cq_head ?m r' = ?h" using W(3) by (simp add: r' cq_head_def)
  have t: "rg_cq_tail r = ?h + of_nat ?n" by (simp add: unreaped_def)
  have d: "rg_cq_tail r' - cq_head ?m r' = (rg_cq_tail r - ?h) + 1" unfolding h by (simp add: r')
  have "unat (rg_cq_tail r - ?h) + unat (1 :: u32) < 2 ^ LENGTH(32)"
    using assms(2) e by (simp add: unreaped_def)
  from unat_add_if_less[OF this] show n: "unreaped ?m r' = ?n + 1" unfolding unreaped_def d by simp
  have same: "cq_entry ?m r' s = cq_entry ?m r s" "cq_slot r' idx = cq_slot r idx" for s idx
    by (simp_all add: r' cq_entry_def cq_slot_def)
  have "cq_entry ?m r (cq_slot r (?h + of_nat i)) = cq_entry m r (cq_slot r (?h + of_nat i))" if "i < ?n" for i
    using cq_slots_distinct[OF assms(1) that, of ?h] assms(2) e W(2)[OF cq_slot_small[OF assms(1)]] t that by simp
  moreover have "cq_entry ?m r (cq_slot r (?h + of_nat ?n)) = (ud, ucast st)" using W(1) t by simp
  ultimately show "pending ?m r' = pending m r @ [(ud, ucast st)]"
    by (simp add: pending_def n h same)
qed

text \<open>
  C26. The completion queue is a FIFO of completions.  Posting to a ring in use with room puts the
  completion last among those its owner has not reaped, publishes the new tail in the frame, writes
  nothing outside the completion frame, names the owner to be woken exactly when it is waiting (and
  no longer waits), and leaves every other ring alone; an event finding the queue full is dropped with
  nothing changed, and one for a ring that was released is ignored.
\<close>
theorem completions_are_fifo:
  assumes "i < length (k_rings k)" "length (k_rings k) = MAX_RINGS" "ring_ok (k_rings k ! i)"
    and "cq_post k i ud st drop_if_full = ((admitted, wake), k')"
    and r_def: "r = k_rings k ! i" and r'_def: "r' = k_rings k' ! i"
  shows "if \<not> rg_in_use r then admitted \<and> wake = None \<and> k' = k
    else if entries r \<le> unreaped (k_mem k) r then
      (if drop_if_full then \<not> admitted \<and> wake = None \<and> k' = k else admitted)
    else admitted \<and>
      pending (k_mem k') r' = pending (k_mem k) r @ [(ud, ucast st)] \<and>
      r32 (k_mem k') (rg_cq_phys r + of_nat 4) = rg_cq_tail r' \<and> ring_ok r' \<and>
      wake = (if rg_waiting r then Some (rg_owner r) else None) \<and> \<not> rg_waiting r' \<and>
      (\<forall>x. page_floor x \<noteq> rg_cq_phys r \<longrightarrow> k_mem k' x = k_mem k x) \<and>
      (\<forall>j. j \<noteq> i \<longrightarrow> k_rings k' ! j = k_rings k ! j) \<and>
      k' = k\<lparr>k_mem := k_mem k', k_rings := k_rings k'\<rparr>"
proof -
  have ok: "ring_ok r" using assms(3) by (simp add: r_def)
  have full: "cq_full (k_mem k) r \<longleftrightarrow> entries r \<le> unreaped (k_mem k) r"
    by (simp add: cq_full_def entries_def unreaped_def cq_head_def HDR_HEAD_def word_le_nat_alt)
  show ?thesis
  proof (cases "rg_in_use r \<and> \<not> entries r \<le> unreaped (k_mem k) r")
    case True
    let ?r = "r\<lparr>rg_cq_tail := rg_cq_tail r + 1, rg_waiting := False\<rparr>"
    have P: "admitted" "wake = (if rg_waiting r then Some (rg_owner r) else None)"
      "k' = k\<lparr>k_mem := write_completion r ud st (k_mem k), k_rings := (k_rings k)[i := ?r]\<rparr>"
      using assms(1,2,4) True full by (auto simp: cq_post_def Let_def simp flip: r_def)
    have "r' = ?r" using P(3) assms(1) by (simp add: r'_def)
    moreover have "ring_ok ?r" using ok by (simp add: ring_ok_def)
    moreover have "pending (write_completion r ud st (k_mem k)) ?r = pending (k_mem k) r @ [(ud, ucast st)]"
      by (rule pending_append(1)[OF ok _ refl]) (use True in simp)
    ultimately show ?thesis
      using True P write_completion_spec(4)[OF ok, of ud st "k_mem k"]
        write_completion_spec(5)[OF ok, where ud = ud and st = st and m = "k_mem k"] by simp
  next
    case False
    then show ?thesis
      using assms(1,2,4) full by (auto simp: cq_post_def Let_def simp flip: r_def split: if_splits)
  qed
qed

text \<open>
  One process running with a ring of four entries, a range of eight sectors and a frame, and one
  read of a sector submitted.
\<close>

definition ringing :: kernel where
  "ringing = two_processes
     \<lparr>k_current := (replicate MAX_CORES None)[0 := Some (proc_with [cap_of (Ring 0) (RIGHT_READ OR RIGHT_WRITE),
        cap_of (BlockRange 0 100 8) RIGHT_READ, cap_of (Frame 0x9000) RIGHT_WRITE])],
      k_rings := \<lparr>rg_in_use = True, rg_owner = 0, rg_sq_phys = 0x7000, rg_cq_phys = 0x8000, rg_mask = 3,
        rg_sq_head = 0, rg_cq_tail = 0, rg_waiting = False\<rparr> # replicate 7 ring_empty,
      k_mem := (\<lambda>_. 0)(0x7004 := 1, 0x7014 := 1, 0x7018 := 1, 0x701C := 2)\<rparr>"

lemma r32_at: "r32 m a = of_nat (le_nat [m a, m (a + 1), m (a + 2), m (a + 3)])"
proof -
  have "[0..<4] = [0, 1, 2, 3 :: nat]" by (simp add: upt_rec)
  then show ?thesis by (simp add: r32_def)
qed

lemma ringing_rings:
  "length (k_rings ringing) = MAX_RINGS" "ring_ok (k_rings ringing ! 0)" "rg_in_use (k_rings ringing ! 0)"
  "cq_head (k_mem ringing) (k_rings ringing ! 0) = 0" "rg_cq_tail (k_rings ringing ! 0) = 0"
  "entries (k_rings ringing ! 0) = 4" "unreaped (k_mem ringing) (k_rings ringing ! 0) = 0"
proof -
  show "length (k_rings ringing) = MAX_RINGS" "rg_in_use (k_rings ringing ! 0)" "rg_cq_tail (k_rings ringing ! 0) = 0"
    by (simp_all add: ringing_def MAX_RINGS_def)
  have "(3 :: u32) = mask 2" by (simp add: mask_eq_exp_minus_1)
  then have "\<exists>n \<le> 6. (3 :: u32) = mask n" by (intro exI[of _ 2]) simp
  then show "ring_ok (k_rings ringing ! 0)" by (simp add: ring_ok_def ringing_def page_aligned_def FRAME_SIZE_def)
  show h: "cq_head (k_mem ringing) (k_rings ringing ! 0) = 0"
    by (simp add: cq_head_def r32_at ringing_def)
  show "entries (k_rings ringing ! 0) = 4" by (simp add: entries_def ringing_def)
  show "unreaped (k_mem ringing) (k_rings ringing ! 0) = 0" by (simp add: unreaped_def h) (simp add: ringing_def)
qed

lemma completions_are_fifo_witness:
  "\<exists>k'. cq_post ringing 0 7 5 True = ((True, None), k') \<and> pending (k_mem k') (k_rings k' ! 0) = [(7, 5)]"
proof -
  obtain a w k' where P: "cq_post ringing 0 7 5 True = ((a, w), k')" by (metis prod.exhaust)
  have "0 < length (k_rings ringing)" "\<not> rg_waiting (k_rings ringing ! 0)" by (simp_all add: ringing_def)
  then show ?thesis
    using completions_are_fifo[OF _ ringing_rings(1,2) P refl refl] ringing_rings(3,6,7) P
    by (simp add: pending_def)
qed

section \<open>Submission is confined\<close>

text \<open>
  What the capabilities of \<open>p\<close> let a device do on its behalf: transfer \<open>n\<close> sectors of a block range it
  holds, at most a frame's worth, to or from a frame it holds, each with the right of the direction.
\<close>

definition allowed :: "process \<Rightarrow> direction \<Rightarrow> nat \<Rightarrow> u64 \<Rightarrow> u64 \<Rightarrow> u64 \<Rightarrow> bool" where
  "allowed p dir dev sector n addr \<longleftrightarrow> (\<exists>rs fs c f d start sz off.
     lookup (p_caps p) rs (case dir of Read \<Rightarrow> RIGHT_READ | Write \<Rightarrow> RIGHT_WRITE) = Inr c \<and>
     cap_obj c = BlockRange d start sz \<and>
     lookup (p_caps p) fs (case dir of Read \<Rightarrow> RIGHT_WRITE | Write \<Rightarrow> RIGHT_READ) = Inr f \<and>
     cap_obj f = Frame addr \<and>
     dev = unat d \<and> sector = start + off \<and> unat off + unat n \<le> unat sz \<and>
     0 < n \<and> unat n * 512 \<le> FRAME_SIZE)"

text \<open>
  The steps of a drain: a request the running process's capabilities allow is posted to a device, or
  the devices and the memory outside the ring's two frames stay as they are.
\<close>

inductive drain_step :: "dma_mapper \<Rightarrow> nat \<Rightarrow> nat \<Rightarrow> u64 \<Rightarrow> u64 \<Rightarrow> io \<Rightarrow> io \<Rightarrow> bool"
  for map_dma me i sq cq where
  posted: "k_current (io_kernel s) ! me = Some p \<Longrightarrow> allowed p dir dev sector n addr \<Longrightarrow>
    ring_post map_dma (io_devs s) dev sector n addr i ud dir (k_mem (io_kernel s), k_alloc (io_kernel s)) = Some (ds, m, fa) \<Longrightarrow>
    drain_step map_dma me i sq cq s (s\<lparr>io_devs := ds, io_kernel := (io_kernel s)\<lparr>k_mem := m, k_alloc := fa\<rparr>\<rparr>)"
| quiet: "io_devs s' = io_devs s \<Longrightarrow>
    io_kernel s' = (io_kernel s)\<lparr>k_mem := m, k_rings := rs, k_subs := subs\<rparr> \<Longrightarrow>
    (\<forall>x. page_floor x \<noteq> sq \<and> page_floor x \<noteq> cq \<longrightarrow> m x = k_mem (io_kernel s) x) \<Longrightarrow>
    (\<forall>j. j \<noteq> i \<longrightarrow> rs ! j = k_rings (io_kernel s) ! j) \<Longrightarrow>
    drain_step map_dma me i sq cq s s'"

definition serves :: "nat \<Rightarrow> u64 \<Rightarrow> u64 \<Rightarrow> io \<Rightarrow> bool" where
  "serves i sq cq s \<longleftrightarrow> length (k_rings (io_kernel s)) = MAX_RINGS \<and> i < MAX_RINGS \<and>
     (let r = k_rings (io_kernel s) ! i in ring_ok r \<and> rg_sq_phys r = sq \<and> rg_cq_phys r = cq)"

lemma finish_drains:
  assumes "serves i sq cq s" "finish s i ud st = (out, s')"
  shows "drain_step map_dma me i sq cq s s'" "serves i sq cq s'" "out = Consumed"
proof -
  let ?k = "io_kernel s" and ?r = "k_rings (io_kernel s) ! i"
  have ok: "ring_ok ?r" "rg_cq_phys ?r = cq" "rg_sq_phys ?r = sq" "i < MAX_RINGS" "length (k_rings ?k) = MAX_RINGS"
    using assms(1) by (simp_all add: serves_def Let_def)
  define k' where "k' = snd (cq_post ?k i ud st False)"
  have s': "s' = s\<lparr>io_kernel := k'\<rparr>" "out = Consumed"
    using assms(2) by (auto simp: finish_def post_status_def post_completion_def k'_def split: prod.splits)
  then show "out = Consumed" by simp
  have "k' = ?k \<or> k' = ?k\<lparr>k_mem := write_completion ?r ud st (k_mem ?k),
      k_rings := (k_rings ?k)[i := ?r\<lparr>rg_cq_tail := rg_cq_tail ?r + 1, rg_waiting := False\<rparr>]\<rparr>"
    using ok(4) by (auto simp: k'_def cq_post_def Let_def)
  then obtain m rs where K: "k' = ?k\<lparr>k_mem := m, k_rings := rs, k_subs := k_subs ?k\<rparr>"
    "m = k_mem ?k \<or> m = write_completion ?r ud st (k_mem ?k)"
    "rs = k_rings ?k \<or> rs = (k_rings ?k)[i := ?r\<lparr>rg_cq_tail := rg_cq_tail ?r + 1, rg_waiting := False\<rparr>]"
  proof (elim disjE)
    assume "k' = ?k"
    then show thesis by (intro that[OF _ disjI1[OF refl] disjI1[OF refl]]) simp
  next
    assume e: "k' = ?k\<lparr>k_mem := write_completion ?r ud st (k_mem ?k),
      k_rings := (k_rings ?k)[i := ?r\<lparr>rg_cq_tail := rg_cq_tail ?r + 1, rg_waiting := False\<rparr>]\<rparr>"
    show thesis by (rule that[OF _ disjI2[OF refl] disjI2[OF refl]]) (simp add: e)
  qed
  have "\<forall>x. page_floor x \<noteq> sq \<and> page_floor x \<noteq> cq \<longrightarrow> m x = k_mem ?k x"
    using K(2) write_completion_spec(5)[OF ok(1), where ud = ud and st = st and m = "k_mem ?k"] ok(2) by auto
  moreover have "\<forall>j. j \<noteq> i \<longrightarrow> rs ! j = k_rings ?k ! j" using K(3) by auto
  ultimately show "drain_step map_dma me i sq cq s s'"
    using K(1) s'(1) by (intro drain_step.quiet[where m = m and rs = rs and subs = "k_subs ?k"]) simp_all
  show "serves i sq cq s'"
    using K(3) ok assms(1) by (auto simp: s'(1) K(1) serves_def Let_def ring_ok_def)
qed

lemma resolve_io_allowed:
  assumes "resolve_io (Some p) rr fr n e = Inr (dev, sector, addr)" "0 < n" "unat n * 512 \<le> FRAME_SIZE"
    and "rr = (case dir of Read \<Rightarrow> RIGHT_READ | Write \<Rightarrow> RIGHT_WRITE)"
    and "fr = (case dir of Read \<Rightarrow> RIGHT_WRITE | Write \<Rightarrow> RIGHT_READ)"
  shows "allowed p dir dev sector n addr"
proof -
  obtain c d start sz where c: "lookup (p_caps p) (unat (sq_range_slot e)) rr = Inr c" "cap_obj c = BlockRange d start sz"
    using assms(1) by (auto simp: resolve_io_def split: sum.splits cap_object.splits)
  obtain end_off where o: "checked_add (sq_sector_off e) n = Some end_off" "\<not> sz < end_off"
    using assms(1) c by (auto simp: resolve_io_def split: option.splits if_splits)
  obtain f where f: "lookup (p_caps p) (unat (sq_frame_slot e)) fr = Inr f" "cap_obj f = Frame addr"
    "dev = unat d" "sector = start + sq_sector_off e"
    using assms(1) c o by (auto simp: resolve_io_def split: sum.splits cap_object.splits)
  have "unat (sq_sector_off e) + unat n \<le> unat sz"
    using checked_add_SomeD[OF o(1)] o(2) by (metis word_le_nat_alt not_less)
  then show ?thesis
    unfolding allowed_def assms(4,5)[symmetric] using c f assms(2,3) by blast
qed

lemma saturating_mul_le: "unat (saturating_mul a b) \<le> x \<Longrightarrow> x < 2 ^ 64 - 1 \<Longrightarrow> unat a * unat b \<le> x"
  by (auto simp: saturating_mul_def checked_mul_def unat_mult_if_less unsigned_minus_1_eq_mask mask_eq_exp_minus_1
      split: if_splits)

lemma post_block_drains:
  assumes "serves i sq cq s" "post_block map_dma dir rr fr s me i e = (out, s')" "k_current (io_kernel s) ! me = Some p"
    and "rr = (case dir of Read \<Rightarrow> RIGHT_READ | Write \<Rightarrow> RIGHT_WRITE)"
    and "fr = (case dir of Read \<Rightarrow> RIGHT_WRITE | Write \<Rightarrow> RIGHT_READ)"
  shows "(out = Full \<and> s' = s) \<or> (drain_step map_dma me i sq cq s s' \<and> serves i sq cq s')"
proof -
  let ?n = "entry_count e" and ?ud = "sq_user_data e" and ?k = "io_kernel s"
  have fin: "?thesis" if "finish s i ?ud st = (out, s')" for st
    using finish_drains[OF assms(1) that] by blast
  note P = assms(2)[unfolded post_block_def Let_def assms(3)]
  show ?thesis
  proof (cases "?n = 0 \<or> of_nat FRAME_SIZE < saturating_mul ?n SECTOR_SIZE")
    case True
    then show ?thesis using P fin[of BLK_E_BADARG] by simp
  next
    case small: False
    show ?thesis
    proof (cases "resolve_io (Some p) rr fr ?n e")
      case (Inl st)
      then show ?thesis using P small fin[of st] by simp
    next
      case (Inr a)
      obtain dev sector addr where a: "a = (dev, sector, addr)" by (cases a) auto
      show ?thesis
      proof (cases "ready (io_devs s) dev")
        case False
        then show ?thesis using P small Inr a fin[of BLK_E_DEV] by simp
      next
        case True
        show ?thesis
        proof (cases "ring_post map_dma (io_devs s) dev sector ?n addr i ?ud dir (k_mem ?k, k_alloc ?k)")
          case None
          then show ?thesis using P small Inr a True by simp
        next
          case (Some b)
          obtain ds m fa where b: "b = (ds, m, fa)" by (cases b) auto
          have s': "s' = s\<lparr>io_devs := ds, io_kernel := ?k\<lparr>k_mem := m, k_alloc := fa\<rparr>\<rparr>"
            using P small Inr a True Some b by simp
          have "unat (saturating_mul ?n SECTOR_SIZE) \<le> FRAME_SIZE"
            using small by (simp add: word_less_nat_alt FRAME_SIZE_def not_less)
          then have "unat ?n * unat SECTOR_SIZE \<le> FRAME_SIZE"
            by (rule saturating_mul_le) (simp add: FRAME_SIZE_def)
          then have "allowed p dir dev sector ?n addr"
            using small by (intro resolve_io_allowed[OF Inr[unfolded a] _ _ assms(4,5)])
              (simp_all add: SECTOR_SIZE_def word_gt_0)
          then have "drain_step map_dma me i sq cq s s'"
            using drain_step.posted[OF assms(3) _ Some[unfolded b]] s' by blast
          moreover have "serves i sq cq s'" using assms(1) by (simp add: serves_def s')
          ultimately show ?thesis by blast
        qed
      qed
    qed
  qed
qed

lemma post_entry_drains:
  assumes "serves i sq cq s" "post_entry map_dma s me i e = (out, s')" "k_current (io_kernel s) ! me = Some p"
  shows "(out = Full \<and> s' = s) \<or> (drain_step map_dma me i sq cq s s' \<and> serves i sq cq s')"
proof -
  have subs: "drain_step map_dma me i sq cq s (s\<lparr>io_kernel := (io_kernel s)\<lparr>k_subs := t\<rparr>\<rparr>)" for t
    by (rule drain_step.quiet[where m = "k_mem (io_kernel s)" and rs = "k_rings (io_kernel s)" and subs = t]) simp_all
  have sv: "serves i sq cq (s\<lparr>io_kernel := (io_kernel s)\<lparr>k_subs := t\<rparr>\<rparr>)" for t
    using assms(1) by (simp add: serves_def)
  consider "post_block map_dma Read RIGHT_READ RIGHT_WRITE s me i e = (out, s')"
    | "post_block map_dma Write RIGHT_WRITE RIGHT_READ s me i e = (out, s')"
    | st where "finish s i (sq_user_data e) st = (out, s')"
    | t where "s' = s\<lparr>io_kernel := (io_kernel s)\<lparr>k_subs := t\<rparr>\<rparr>"
    using assms(2)
    by (auto simp: post_entry_def post_read_def post_write_def post_event_sub_def post_cancel_def
        split: if_splits option.splits)
  then show ?thesis
  proof cases
    case 1
    then show ?thesis by (rule post_block_drains[OF assms(1) _ assms(3)]) simp_all
  next
    case 2
    then show ?thesis by (rule post_block_drains[OF assms(1) _ assms(3)]) simp_all
  next
    case 3
    then show ?thesis using finish_drains[OF assms(1) 3] by blast
  next
    case 4
    then show ?thesis using subs sv by blast
  qed
qed

lemma drain_step_current:
  "drain_step map_dma me i sq cq s s' \<Longrightarrow> k_current (io_kernel s') = k_current (io_kernel s)"
  by (erule drain_step.cases) simp_all

lemma drain_step_others:
  "drain_step map_dma me i sq cq s s' \<Longrightarrow> j \<noteq> i \<Longrightarrow> k_rings (io_kernel s') ! j = k_rings (io_kernel s) ! j"
  by (erule drain_step.cases) simp_all

lemma submit_loop_drains:
  assumes "serves i sq cq s" "submit_loop n map_dma s me i sq_base msk head = (c, head', s')"
    and "k_current (io_kernel s) ! me = Some p"
  shows "(drain_step map_dma me i sq cq)\<^sup>*\<^sup>* s s' \<and> serves i sq cq s' \<and> c \<le> n \<and> head' = head + of_nat c"
  using assms
proof (induction n arbitrary: s head c head' s')
  case 0
  then show ?case by simp
next
  case (Suc n)
  let ?e = "read_entry (k_mem (io_kernel s)) (sq_base + RING_HDR_SIZE + ucast (head AND msk) * SQ_ENTRY_SIZE)"
  obtain out s1 where e: "post_entry map_dma s me i ?e = (out, s1)" by (cases "post_entry map_dma s me i ?e")
  note S = post_entry_drains[OF Suc.prems(1) e Suc.prems(3)]
  show ?case
  proof (cases out)
    case Full
    then show ?thesis using S Suc.prems e by (auto intro: r_into_rtranclp simp: Let_def)
  next
    case Consumed
    obtain c1 h1 s2 where l: "submit_loop n map_dma s1 me i sq_base msk (head + 1) = (c1, h1, s2)"
      by (cases "submit_loop n map_dma s1 me i sq_base msk (head + 1)") auto
    have S1: "drain_step map_dma me i sq cq s s1" "serves i sq cq s1" using S Consumed by simp_all
    then have cur: "k_current (io_kernel s1) ! me = Some p" using drain_step_current Suc.prems(3) by metis
    have r: "c = c1 + 1" "head' = h1" "s' = s2" using Suc.prems(2) e Consumed l by (simp_all add: Let_def)
    show ?thesis using Suc.IH[OF S1(2) l cur] S1(1) r by (auto intro: converse_rtranclp_into_rtranclp)
  qed
qed

text \<open>
  C29. Submission is confined to the submitter's capabilities.  A drain of a ring is a sequence of steps,
  each of which posts a device request that the running process's own capabilities allow (a block range
  covering the sectors and a frame, both with the right of the direction, at most a frame's worth), or
  leaves every device as it was and writes memory only in the ring's own two frames.  It consumes no
  more entries than were submitted, advances the head by that number and publishes it, and touches no
  other ring; without a ring capability of its own the caller gets an error and nothing happens.
\<close>
theorem submission_confined:
  assumes "ring_submit map_dma s me slot = (n, s')" "length (k_rings (io_kernel s)) = MAX_RINGS"
    and "\<forall>r \<in> set (k_rings (io_kernel s)). rg_in_use r \<longrightarrow> ring_ok r"
  shows "case ring_id_for (io_kernel s) me slot of
      None \<Rightarrow> n = ERR \<and> s' = s
    | Some i \<Rightarrow>
        let r = k_rings (io_kernel s) ! i; r' = k_rings (io_kernel s') ! i;
            avail = unat (r32 (k_mem (io_kernel s)) (rg_sq_phys r + of_nat 4) - rg_sq_head r)
        in rg_owner r = k_current_slot (io_kernel s) ! me \<and>
           (drain_step map_dma me i (rg_sq_phys r) (rg_cq_phys r))\<^sup>*\<^sup>* s s' \<and>
           (\<exists>c \<le> avail. n = of_nat c \<and> rg_sq_head r' = rg_sq_head r + of_nat c) \<and>
           r32 (k_mem (io_kernel s')) (rg_sq_phys r) = rg_sq_head r' \<and>
           (\<forall>j. j \<noteq> i \<longrightarrow> k_rings (io_kernel s') ! j = k_rings (io_kernel s) ! j)"
proof (cases "ring_id_for (io_kernel s) me slot")
  case None
  then show ?thesis using assms(1) by (simp add: ring_submit_def)
next
  case (Some i)
  let ?k = "io_kernel s" and ?r = "k_rings (io_kernel s) ! i"
  obtain p where p: "k_current ?k ! me = Some p" and i: "i < MAX_RINGS" "rg_in_use ?r"
    "rg_owner ?r = current_slot ?k me"
    using Some by (auto simp: ring_id_for_def split: option.splits sum.splits cap_object.splits if_splits)
  have ok: "ring_ok ?r" using assms(2,3) i(1,2) by simp
  let ?sq = "rg_sq_phys ?r" and ?cq = "rg_cq_phys ?r"
  have sv: "serves i ?sq ?cq s" using ok i(1) assms(2) by (simp add: serves_def)
  let ?n = "unat (r32 (k_mem ?k) (?sq + HDR_TAIL) - rg_sq_head ?r)"
  obtain c h s1 where l: "submit_loop ?n map_dma s me i ?sq (rg_mask ?r) (rg_sq_head ?r) = (c, h, s1)"
    by (cases "submit_loop ?n map_dma s me i ?sq (rg_mask ?r) (rg_sq_head ?r)") auto
  note L = submit_loop_drains[OF sv l p]
  let ?k1 = "io_kernel s1" and ?r1 = "k_rings (io_kernel s1) ! i"
  have r: "n = of_nat c" "s' = s1\<lparr>io_kernel := ?k1\<lparr>k_rings := (k_rings ?k1)[i := ?r1\<lparr>rg_sq_head := h\<rparr>],
      k_mem := w32 (k_mem ?k1) (?sq + HDR_HEAD) h\<rparr>\<rparr>"
    using assms(1) Some l by (simp_all add: ring_submit_def Let_def)
  have w: "w32 (k_mem ?k1) (?sq + HDR_HEAD) h = put (k_mem ?k1) ?sq 0 (le_bytes 4 (unat h))"
    by (simp add: w32_def put_def HDR_HEAD_def)
  have al: "page_aligned ?sq" using ok by (simp add: ring_ok_def)
  have "drain_step map_dma me i ?sq ?cq s1 s'"
  proof (rule drain_step.quiet[where subs = "k_subs ?k1"])
    show "io_kernel s' = ?k1\<lparr>k_mem := put (k_mem ?k1) ?sq 0 (le_bytes 4 (unat h)),
        k_rings := (k_rings ?k1)[i := ?r1\<lparr>rg_sq_head := h\<rparr>], k_subs := k_subs ?k1\<rparr>"
      by (simp add: r(2) w)
  qed (auto simp: r(2) put_page[OF al])
  then have D: "(drain_step map_dma me i ?sq ?cq)\<^sup>*\<^sup>* s s'" using L by (auto intro: rtranclp.rtrancl_into_rtrancl)
  have oth: "k_rings (io_kernel s') ! j = k_rings ?k ! j" if "j \<noteq> i" for j
    using D
  proof (induction rule: rtranclp_induct)
    case base
    then show ?case by simp
  next
    case (step y z)
    then show ?case using drain_step_others[OF step(2) that] by simp
  qed
  have len: "i < length (k_rings ?k1)" using L by (simp add: serves_def)
  have "r32 (k_mem (io_kernel s')) (?sq + of_nat 0) = h"
    by (simp only: r(2) r32_bytes) (simp add: w put_same le_word32)
  then show ?thesis
    using Some i(3) D L r(1) oth len by (auto simp: Let_def r(2) current_slot_def HDR_TAIL_def intro: exI[of _ c])
qed

lemma ringing_handle: "ring_id_for ringing 0 0 = Some 0"
  by (simp add: ring_id_for_def ringing_def MAX_CORES_def lookup_def proc_with_def table_with_def get_def cap_of_def
      right_defs MAX_RINGS_def current_slot_def two_processes_def kernel_init_def)

lemma submission_confined_witness:
  "\<exists>c s'. ring_submit (\<lambda>_ st. st) \<lparr>io_kernel = ringing, io_devs = []\<rparr> 0 0 = (of_nat c, s') \<and> c \<le> 1 \<and>
     (drain_step (\<lambda>_ st. st) 0 0 0x7000 0x8000)\<^sup>*\<^sup>* \<lparr>io_kernel = ringing, io_devs = []\<rparr> s'"
proof -
  let ?s = "\<lparr>io_kernel = ringing, io_devs = []\<rparr>"
  have "\<forall>r \<in> set (k_rings ringing). rg_in_use r \<longrightarrow> ring_ok r"
    using ringing_rings(2) by (simp add: ringing_def ring_empty_def)
  moreover obtain n s' where r: "ring_submit (\<lambda>_ st. st) ?s 0 0 = (n, s')" by fastforce
  moreover have "r32 (k_mem ringing) (0x7000 + of_nat 4) = 1" by (simp add: r32_at ringing_def)
  moreover have "rg_sq_head (k_rings ringing ! 0) = 0" "rg_sq_phys (k_rings ringing ! 0) = 0x7000"
    "rg_cq_phys (k_rings ringing ! 0) = 0x8000" by (simp_all add: ringing_def)
  ultimately show ?thesis
    using submission_confined[OF r] ringing_rings(1) ringing_handle by (auto simp: Let_def)
qed

section \<open>Registering and waiting\<close>

lemma power_of_two_cases:
  assumes "is_power_of_two n" "n \<le> 64"
  shows "n \<in> {1, 2, 4, 8, 16, 32, 64}"
proof -
  have "\<forall>m \<in> set [0..<65]. is_power_of_two (of_nat m) \<longrightarrow> m \<in> {1, 2, 4, 8, 16, 32, 64}"
    by (simp add: upt_rec is_power_of_two_def)
  moreover have "unat n \<in> set [0..<65]" using assms(2) by (simp add: word_le_nat_alt)
  moreover have "is_power_of_two (of_nat (unat n))" using assms(1) by simp
  ultimately have "unat n \<in> {1, 2, 4, 8, 16, 32, 64}" by blast
  then have "of_nat (unat n) \<in> {1, 2, 4, 8, 16, 32, 64 :: u64}" by (elim insertE emptyE) simp_all
  then show ?thesis by simp
qed

lemma power_of_two_mask:
  assumes "is_power_of_two n" "n \<le> 64"
  shows "\<exists>b \<le> 6. ucast n - 1 = (mask b :: u32)" "unat ((ucast n - 1 :: u32) + 1) = unat n"
proof -
  have "ucast n - 1 \<in> mask ` {0, 1, 2, 3, 4, 5, 6 :: nat} \<and> True"
    using power_of_two_cases[OF assms] unfolding image_insert by (elim insertE emptyE) (simp_all add: mask_eq_exp_minus_1)
  then obtain b where "b \<in> {0, 1, 2, 3, 4, 5, 6 :: nat}" "ucast n - 1 = (mask b :: u32)" by blast
  then show "\<exists>b \<le> 6. ucast n - 1 = (mask b :: u32)" by (intro exI[of _ b]) auto
  show "unat ((ucast n - 1 :: u32) + 1) = unat n"
    using power_of_two_cases[OF assms] by (elim insertE emptyE) simp_all
qed

lemma init_header_puts:
  "init_header n m p = put (put (put (put m p 0 (le_bytes 4 (unat (0 :: u32)))) p 4 (le_bytes 4 (unat (0 :: u32))))
     p 8 (le_bytes 4 (unat (n - 1)))) p 12 (le_bytes 4 (unat (0 :: u32)))"
  by (simp add: init_header_def put_def w32_def ring_layout)

lemma init_header_spec:
  "r32 (init_header n m p) (p + of_nat 0) = 0" "r32 (init_header n m p) (p + of_nat 4) = 0"
  by (simp_all only: init_header_puts r32_bytes) (simp_all add: put_other put_same le_word32[of 0, simplified])

lemma init_header_page: "page_aligned p \<Longrightarrow> page_floor x \<noteq> p \<Longrightarrow> init_header n m p x = m x"
  by (simp add: init_header_puts put_page)

lemma bytes_at_page:
  assumes "page_aligned p" "f + n \<le> 4096" "\<And>x. page_floor x = p \<Longrightarrow> m' x = m x"
  shows "bytes_at m' p f n = bytes_at m p f n"
proof -
  have "page_floor (p + of_nat (f + i)) = p" if "i < n" for i
  proof -
    have "unat (of_nat (f + i) :: u64) = f + i" using assms(2) that by (intro unat_of_nat_id) simp
    then show ?thesis using assms(1,2) that by (intro word8_offset) simp_all
  qed
  then show ?thesis using assms(3) by (simp add: bytes_at_def)
qed

lemma other_header:
  assumes "page_aligned p" "page_aligned q" "p \<noteq> q" "f \<le> 4092"
  shows "r32 (init_header n m p) (q + of_nat f) = r32 m (q + of_nat f)"
  unfolding r32_bytes
  using bytes_at_page[OF assms(2), of f 4 "init_header n m p" m] assms init_header_page[OF assms(1)] by simp

text \<open>
  Registering a ring.  \<open>ring_register\<close> fails, or binds a ring that was free to the caller: the
  returned handle names it for the caller, its size is the one asked for, it satisfies the ring
  invariant, both queues are empty in the frames as in the kernel, and nobody waits on it.  In both
  cases no other ring is touched, memory changes only in two frames the caller holds with read and
  write rights, and a failure leaves no further ring in use and the caller's table as it was.
\<close>
lemma ring_register_exact:
  assumes "ring_register k me sq_cap cq_cap n = (ret, k')" "k_current k ! me = Some p" "me < length (k_current k)"
    and "ct_wf (p_caps p)" "length (k_rings k) = MAX_RINGS"
    and "\<forall>c addr. c \<in> set (ct_iter (p_caps p)) \<and> cap_obj c = Frame addr \<longrightarrow> page_aligned addr"
  shows "(\<forall>x. (\<forall>s c. lookup (p_caps p) s (RIGHT_READ OR RIGHT_WRITE) = Inr c \<longrightarrow> cap_obj c \<noteq> Frame (page_floor x)) \<longrightarrow>
      k_mem k' x = k_mem k x) \<and>
    (if ret = ERR
     then k_current k' = k_current k \<and> (\<forall>i. rg_in_use (k_rings k' ! i) \<longrightarrow> k_rings k' ! i = k_rings k ! i)
     else \<exists>i < MAX_RINGS. let r = k_rings k' ! i in
       \<not> rg_in_use (k_rings k ! i) \<and> ring_id_for k' me ret = Some i \<and> ring_ok r \<and> entries r = unat n \<and>
       rg_owner r = k_current_slot k ! me \<and> \<not> rg_waiting r \<and> pending (k_mem k') r = [] \<and>
       r32 (k_mem k') (rg_sq_phys r + of_nat 4) = rg_sq_head r \<and> rg_sq_phys r \<noteq> rg_cq_phys r \<and>
       (\<forall>j. j \<noteq> i \<longrightarrow> k_rings k' ! j = k_rings k ! j))"
proof (cases "(ret, k') = (ERR, k)")
  case True
  then show ?thesis by simp
next
  case False
  note R = assms(1)[unfolded ring_register_def Let_def assms(2)]
  have sz: "n \<le> 64" "is_power_of_two n" using R False by (auto simp: MAX_ENTRIES_def not_less split: if_splits)
  obtain sq cq where f: "frame_cap (p_caps p) sq_cap (RIGHT_READ OR RIGHT_WRITE) = Some sq"
    "frame_cap (p_caps p) cq_cap (RIGHT_READ OR RIGHT_WRITE) = Some cq" "sq \<noteq> cq"
    using R False by (auto split: if_splits option.splits)
  obtain i where i: "position (\<lambda>r. \<not> rg_in_use r) (k_rings k) = Some i"
    using R False f by (auto split: if_splits option.splits)
  let ?n = "ucast n :: u32"
  let ?r = "\<lparr>rg_in_use = True, rg_owner = current_slot k me, rg_sq_phys = sq, rg_cq_phys = cq,
              rg_mask = ?n - 1, rg_sq_head = 0, rg_cq_tail = 0, rg_waiting = False\<rparr>"
  let ?m = "foldl (init_header ?n) (k_mem k) [sq, cq]"
  let ?k1 = "k\<lparr>k_rings := (k_rings k)[i := ?r], k_mem := ?m\<rparr>"
  have C: "(case mint (p_caps p) (Ring i) (RIGHT_READ OR RIGHT_WRITE) of
        Inr (slot, t) \<Rightarrow> (of_nat slot, set_current ?k1 me (Some (p\<lparr>p_caps := t\<rparr>)))
      | Inl _ \<Rightarrow> (ERR, ?k1\<lparr>k_rings := (k_rings k)[i := ?r\<lparr>rg_in_use := False\<rparr>]\<rparr>)) = (ret, k')"
    using R sz f i False by (auto simp: MAX_ENTRIES_def is_power_of_two_def split: if_splits)
  have held: "\<exists>c. lookup (p_caps p) (unat s) (RIGHT_READ OR RIGHT_WRITE) = Inr c \<and> cap_obj c = Frame a \<and> page_aligned a"
    if h: "frame_cap (p_caps p) s (RIGHT_READ OR RIGHT_WRITE) = Some a" for s a
  proof -
    obtain c where c: "lookup (p_caps p) (unat s) (RIGHT_READ OR RIGHT_WRITE) = Inr c" "cap_obj c = Frame a"
      using h by (auto simp: frame_cap_def split: sum.splits cap_object.splits)
    have "c \<in> set (ct_iter (p_caps p))"
      using c(1) by (auto simp: lookup_def get_def ct_iter_def map_filter_id_set split: option.splits if_splits) (metis nth_mem)
    then show ?thesis using c assms(6) by blast
  qed
  have al: "page_aligned sq" "page_aligned cq" using held f by blast+
  have mem: "?m x = k_mem k x"
    if "\<forall>s c. lookup (p_caps p) s (RIGHT_READ OR RIGHT_WRITE) = Inr c \<longrightarrow> cap_obj c \<noteq> Frame (page_floor x)" for x
  proof -
    have "page_floor x \<noteq> sq" "page_floor x \<noteq> cq" using held f(1,2) that by metis+
    then show ?thesis using init_header_page al by simp
  qed
  have il: "i < MAX_RINGS" "\<not> rg_in_use (k_rings k ! i)" using position_SomeD(1,2)[OF i] assms(5) by simp_all
  show ?thesis
  proof (cases "mint (p_caps p) (Ring i) (RIGHT_READ OR RIGHT_WRITE)")
    case (Inl e)
    then have e: "ret = ERR" "k' = ?k1\<lparr>k_rings := (k_rings k)[i := ?r\<lparr>rg_in_use := False\<rparr>]\<rparr>" using C by simp_all
    show ?thesis using mem il(1) assms(5) by (auto simp: e nth_list_update_cases)
  next
    case (Inr a)
    obtain s t where a: "a = (s, t)" by (cases a) auto
    have e: "ret = of_nat s" "k' = set_current ?k1 me (Some (p\<lparr>p_caps := t\<rparr>))" using C Inr a by simp_all
    note M = mint_Inr[OF assms(4) Inr[unfolded a]]
    have s: "unat ret = s" using M(6) unfolding e(1) by (intro unat_of_nat_id) (simp add: MAX_CAPS_def)
    then have ne: "ret \<noteq> ERR" using M(6) by (auto simp: ERR_def MAX_CAPS_def unsigned_minus_1_eq_mask mask_eq_exp_minus_1)
    have "ct_slots t ! s = Some \<lparr>cap_obj = Ring i, cap_rights = RIGHT_READ OR RIGHT_WRITE, cap_origin = None\<rparr>"
      "s < length (ct_slots t)"
      using M(1,5,6) peek_nth[of s t] by (simp_all add: ct_wf_def)
    then have "lookup t (unat ret) (RIGHT_READ OR RIGHT_WRITE) =
        Inr \<lparr>cap_obj = Ring i, cap_rights = RIGHT_READ OR RIGHT_WRITE, cap_origin = None\<rparr>"
      by (simp add: lookup_def get_def s)
    then have "ring_id_for k' me ret = Some i"
      using il assms(3,5) by (simp add: ring_id_for_def e(2) set_current_def current_slot_def)
    moreover have "ring_ok ?r" "entries ?r = unat n"
      using power_of_two_mask[OF sz(2,1)] al by (simp_all add: ring_ok_def entries_def)
    moreover have "pending ?m ?r = []"
      using init_header_spec(1)[of ?n "init_header ?n (k_mem k) sq" cq] by (simp add: pending_def unreaped_def cq_head_def)
    moreover have "r32 ?m (sq + of_nat 4) = 0"
      using other_header[OF al(2,1) f(3)[symmetric], of 4] init_header_spec(2) by simp
    ultimately show ?thesis
      using ne mem il assms(5) f(3) unfolding if_not_P[OF ne]
      by (auto simp: e(2) set_current_def current_slot_def intro!: exI[of _ i])
  qed
qed

text \<open>
  C30. Waiting never misses a completion.  The owner of a ring that asks to wait returns at once while a
  completion is pending, and otherwise blocks with its ring marked.  From then on, whatever the rest of
  the kernel does short of touching that ring, the next completion posted to it names the blocked owner,
  and waking it makes it ready with a zero return value.
\<close>
theorem wait_never_misses:
  assumes "sched_wf k" "me < MAX_CORES" "length (k_rings k) = MAX_RINGS" "ring_id_for k me slot = Some i"
  shows "if rg_cq_tail (k_rings k ! i) \<noteq> cq_head (k_mem k) (k_rings k ! i) then ring_wait k me slot f = Some (Returns 0 k)
    else \<exists>pos k'. ring_wait k me slot f = Some (Blocks pos k') \<and> sched_wf k' \<and>
      is_blocked k' (k_current_slot k ! me) \<and>
      (\<forall>k1 ud st. k_rings k1 ! i = k_rings k' ! i \<and> length (k_table k1) = MAX_PROCESSES \<and> frames_ok k1 \<longrightarrow>
         (\<exists>k2. post_completion k1 i ud st = (Some (k_current_slot k ! me), k2) \<and>
            (let k3 = wake_owner k2 (k_current_slot k ! me) in
             state_of k3 (k_current_slot k ! me) = Ready \<and>
             status_at k3 (sl_rsp (slot_of k1 (k_current_slot k ! me))) = 0)))"
proof -
  let ?r = "k_rings k ! i" and ?cur = "k_current_slot k ! me"
  obtain p where p: "k_current k ! me = Some p" and i: "i < MAX_RINGS" "rg_in_use ?r" "rg_owner ?r = ?cur"
    using assms(4) by (auto simp: ring_id_for_def current_slot_def split: option.splits sum.splits cap_object.splits if_splits)
  let ?k1 = "k\<lparr>k_rings := (k_rings k)[i := ?r\<lparr>rg_waiting := True\<rparr>]\<rparr>"
  have head: "r32 (k_mem k) (rg_cq_phys ?r + HDR_HEAD) = cq_head (k_mem k) ?r" by (simp add: cq_head_def HDR_HEAD_def)
  show ?thesis
  proof (cases "rg_cq_tail ?r = cq_head (k_mem k) ?r")
    case False
    then show ?thesis using assms(4) by (simp add: ring_wait_def Let_def head)
  next
    case True
    have "sched_wf ?k1" using assms(1) by (subst sched_wf_cong[of _ k]) simp_all
    then obtain pos k' where B: "block_current ?k1 me f = Some (pos, k')" "sched_wf k'" "is_blocked k' ?cur"
      using block_current_wf[of ?k1 me f] assms(2) p by auto
    have r: "k_rings k' = k_rings ?k1"
      using B(1) p by (auto simp: block_current_def park_def set_slot_def set_current_def Let_def bind_eq_Some_conv)
    have cur: "?cur < MAX_PROCESSES" using running_slot(1)[OF assms(1,2) p] .
    have "\<exists>k2. post_completion k1 i ud st = (Some ?cur, k2) \<and>
        (let k3 = wake_owner k2 ?cur in state_of k3 ?cur = Ready \<and>
           status_at k3 (sl_rsp (slot_of k1 ?cur)) = 0)"
      if k1: "k_rings k1 ! i = k_rings k' ! i" "length (k_table k1) = MAX_PROCESSES" "frames_ok k1" for k1 ud st
    proof -
      have "k_rings k1 ! i = ?r\<lparr>rg_waiting := True\<rparr>" using k1(1) r i(1) assms(3) by simp
      then show ?thesis
        using i k1(2,3) cur
        by (simp add: post_completion_def cq_post_def Let_def wake_owner_def wake_with_def set_slot_def set_gp_def
            GP_RAX_def GP_RSI_def GP_RDX_def frames_ok_def)
    qed
    then show ?thesis using True B assms(4) by (simp add: ring_wait_def Let_def head blocks_def)
  qed
qed

lemma ringing_wf: "sched_wf ringing"
proof -
  have "k_current ringing ! c = None \<longleftrightarrow> k_current two_processes ! c = None" for c
    by (simp add: ringing_def two_processes_def nth_list_update_cases)
  then have "sched_wf ringing = sched_wf two_processes"
    by (intro sched_wf_cong) (simp_all add: ringing_def two_processes_def)
  then show ?thesis using two_processes_wf by simp
qed

lemma wait_never_misses_witness:
  "\<exists>pos k'. ring_wait ringing 0 0 0x4000 = Some (Blocks pos k') \<and> is_blocked k' 0"
proof -
  have "k_current_slot ringing ! 0 = 0"
    by (simp add: ringing_def two_processes_def kernel_init_def MAX_CORES_def)
  moreover have "0 < MAX_CORES" by (simp add: MAX_CORES_def)
  ultimately show ?thesis
    using wait_never_misses[OF ringing_wf _ ringing_rings(1) ringing_handle, where f = "0x4000"] ringing_rings(4,5) by auto
qed

text \<open>A process with two frames and no ring.\<close>

definition unringed :: kernel where
  "unringed = two_processes
     \<lparr>k_current := (replicate MAX_CORES None)[0 := Some (proc_with [cap_of (Frame 0x9000) (RIGHT_READ OR RIGHT_WRITE),
        cap_of (Frame 0xA000) (RIGHT_READ OR RIGHT_WRITE)])], k_rings := replicate 8 ring_empty, k_mem := (\<lambda>_. 0)\<rparr>"

lemma unringed_registers: "fst (ring_register unringed 0 0 1 8) = 2"
proof -
  have "(8 :: u64) AND 7 = 0" by simp
  moreover have "position (\<lambda>r. \<not> rg_in_use r) (replicate 8 ring_empty) = Some 0"
    by (simp add: numeral_eq_Suc ring_empty_def)
  moreover have "position (\<lambda>(s, r). s = None \<and> \<not> r) (zip (Some a # Some b # replicate 14 None) (replicate 16 False)) = Some 2"
    for a b :: capability by (simp add: numeral_eq_Suc)
  ultimately show ?thesis
    by (simp add: ring_register_def unringed_def MAX_ENTRIES_def is_power_of_two_def MAX_CORES_def frame_cap_def lookup_def
        proc_with_def table_with_def get_def cap_of_def right_defs mint_def install_def MAX_CAPS_def Let_def
        del: replicate_Suc)
qed

lemma ring_register_exact_witness:
  "\<exists>k'. ring_register unringed 0 0 1 8 = (2, k') \<and>
     (\<exists>i. ring_id_for k' 0 2 = Some i \<and> ring_ok (k_rings k' ! i) \<and> pending (k_mem k') (k_rings k' ! i) = [])"
proof -
  obtain k' where r: "ring_register unringed 0 0 1 8 = (2, k')" using unringed_registers by (metis prod.collapse)
  let ?p = "proc_with [cap_of (Frame 0x9000) (RIGHT_READ OR RIGHT_WRITE), cap_of (Frame 0xA000) (RIGHT_READ OR RIGHT_WRITE)]"
  have p: "k_current unringed ! 0 = Some ?p" "0 < length (k_current unringed)" "length (k_rings unringed) = MAX_RINGS"
    by (simp_all add: unringed_def MAX_CORES_def MAX_RINGS_def)
  have w: "ct_wf (p_caps ?p)" by (simp add: proc_with_def table_with_wf MAX_CAPS_def)
  have f: "\<forall>c addr. c \<in> set (ct_iter (p_caps ?p)) \<and> cap_obj c = Frame addr \<longrightarrow> page_aligned addr"
    by (auto simp: proc_with_def cap_of_def page_aligned_def FRAME_SIZE_def)
  have "(2 :: u64) \<noteq> ERR" by (simp add: ERR_def)
  then show ?thesis using ring_register_exact[OF r p(1,2) w p(3) f] r by (auto simp: Let_def)
qed

end
