(* ===== verification/Spawn.thy ===== *)
theory Spawn
  imports Completion_Rings
begin

text \<open>
  Making processes: \<open>setup_process\<close>, \<open>spawn\<close> and \<open>teardown_all\<close> of \<open>kernel/src/scheduler.rs\<close>, and the
  system calls that create and give up resources, \<open>kernel/src/syscall.rs\<close>.  The theorems state
  that a spawn is panic-free and keeps the IPC invariant, what the parent and the child hold
  afterwards, and that a failed spawn gives the caller back what it was lending.
\<close>

section \<open>Definitions\<close>

text \<open>
  What the boot path fixes: the L4 whose kernel half every address space copies, the address of
  the kernel stacks, and the page-table mapper.
\<close>

record machine =
  mc_kernel_l4 :: u64
  mc_kstacks :: u64
  mc_mapper :: mapper

definition KSTACK_SIZE :: nat where "KSTACK_SIZE = 16 * 4096"
definition TRAP_FRAME_BYTES :: u64 where "TRAP_FRAME_BYTES = 160"

definition kstack_top :: "machine \<Rightarrow> nat \<Rightarrow> u64" where
  "kstack_top mc slot = mc_kstacks mc + of_nat ((slot + 1) * KSTACK_SIZE)"

definition fabricate_initial_frame :: "machine \<Rightarrow> kernel \<Rightarrow> nat \<Rightarrow> u64 \<Rightarrow> u64 \<times> kernel" where
  "fabricate_initial_frame mc k pid entry =
     (let base = kstack_top mc pid - TRAP_FRAME_BYTES;
          frame = \<lparr>tf_gp = (replicate 15 0)[GP_RDI := of_nat pid], tf_rip = entry, tf_cs = 0x23,
                   tf_rflags = 0x202, tf_rsp = USER_STACK_TOP, tf_ss = 0x1b\<rparr>
      in (base, k\<lparr>k_frames := (k_frames k)(base := frame)\<rparr>))"

text \<open>The grants, in order; a full table stops with the references of the earlier ones noted.\<close>

fun grant_all :: "cap_table \<Rightarrow> endpoint list \<Rightarrow> capability list \<Rightarrow> cap_table option \<times> endpoint list" where
  "grant_all t es [] = (Some t, es)"
| "grant_all t es (c # cs) =
     (case install t c of
        Inl _ \<Rightarrow> (None, es)
      | Inr (_, t') \<Rightarrow> grant_all t' (note_cap_added es c) cs)"

text \<open>\<open>None\<close> is a panic; the result is the error message, if any, and the state.\<close>

definition setup_process ::
    "machine \<Rightarrow> kernel \<Rightarrow> nat \<Rightarrow> u8 list \<Rightarrow> capability option list \<Rightarrow> nat \<Rightarrow> (string option \<times> kernel) option" where
  "setup_process mc k pid binary caps home_core =
     (case create_address_space (mc_kernel_l4 mc) (k_mem k) (k_alloc k) of
        Inl e \<Rightarrow> Some (Some e, k)
      | Inr (l4, m, fa) \<Rightarrow>
          (case load_and_map (mc_mapper mc) binary l4
              \<lparr>lo_mem = m, lo_fa = fa, lo_boot = replicate MAX_BOOT_FRAMES None, lo_next = 0\<rparr> of
             (None, _) \<Rightarrow> None
           | (Some (Inl (e, us)), s) \<Rightarrow>
               Some (Some e, k\<lparr>k_mem := lo_mem s, k_alloc := destroy_address_space (lo_mem s) (lo_fa s) l4,
                               k_unmaps := k_unmaps k @ map (Pair l4) us\<rparr>)
           | (Some (Inr entry), s) \<Rightarrow>
               (case spawn_process None of
                  None \<Rightarrow> None
                | Some p \<Rightarrow>
                    (case grant_all (p_caps p) (k_endpoints k) (List.map_filter id caps) of
                       (None, es) \<Rightarrow>
                         Some (Some ''capability table full'',
                               k\<lparr>k_mem := lo_mem s, k_alloc := destroy_address_space (lo_mem s) (lo_fa s) l4,
                                 k_endpoints := es\<rparr>)
                     | (Some t, es) \<Rightarrow>
                         let p' = p\<lparr>p_caps := t, p_l4 := l4\<rparr>;
                             (rsp, k1) = fabricate_initial_frame mc
                                (k\<lparr>k_mem := lo_mem s, k_alloc := lo_fa s, k_endpoints := es\<rparr>) pid entry;
                             k2 = set_slot k1 pid ((slot_of k1 pid)\<lparr>sl_process := Some p', sl_boot_frames := lo_boot s,
                                                                  sl_rsp := rsp, sl_state := Ready\<rparr>)
                         in map_option (Pair None) (push_to_core_queue k2 home_core pid)))))"

definition spawn ::
    "machine \<Rightarrow> kernel \<Rightarrow> nat \<Rightarrow> u8 list \<Rightarrow> capability option list \<Rightarrow> (nat option \<times> kernel) option" where
  "spawn mc k me binary caps =
     (case find_free_slot k of
        None \<Rightarrow> Some (None, k)
      | Some pid \<Rightarrow>
          (case setup_process mc k pid binary caps me of
             None \<Rightarrow> None
           | Some (Some _, k') \<Rightarrow> Some (None, k')
           | Some (None, k') \<Rightarrow> Some (Some pid, k')))"

text \<open>Clearing a slot on the launch-failure path, and the whole table with it.\<close>

definition teardown_slot :: "kernel \<Rightarrow> nat \<Rightarrow> kernel" where
  "teardown_slot k t =
     (let k1 = (case sl_process (slot_of k t) of
          None \<Rightarrow> k
        | Some p \<Rightarrow>
            let k2 = teardown k p (sl_boot_frames (slot_of k t)) in
            k2\<lparr>k_alloc := destroy_address_space (k_mem k2) (k_alloc k2) (p_l4 p)\<rparr>)
      in set_slot k1 t slot_empty)"

definition teardown_all :: "kernel \<Rightarrow> kernel" where
  "teardown_all k =
     (foldl teardown_slot k [0..<MAX_PROCESSES])
       \<lparr>k_links := replicate MAX_PROCESSES None,
        k_queues := replicate MAX_CORES (replicate MAX_PROCESSES None)\<rparr>"

section \<open>System calls\<close>

definition with_caps :: "kernel \<Rightarrow> nat \<Rightarrow> process \<Rightarrow> cap_table \<Rightarrow> kernel" where
  "with_caps k me p t = set_current k me (Some (p\<lparr>p_caps := t\<rparr>))"

definition sys_frame_alloc :: "kernel \<Rightarrow> nat \<Rightarrow> u64 \<times> kernel" where
  "sys_frame_alloc k me =
     (case k_current k ! me of
        None \<Rightarrow> (ERR, k)
      | Some p \<Rightarrow>
          (case alloc (k_alloc k) of
             Inl _ \<Rightarrow> (ERR, k)
           | Inr (addr, fa) \<Rightarrow>
               (case mint (p_caps p) (Frame addr) (RIGHT_READ OR RIGHT_WRITE OR RIGHT_MAP) of
                  Inr (slot, t) \<Rightarrow> (of_nat slot, (with_caps k me p t)\<lparr>k_alloc := fa\<rparr>)
                | Inl _ \<Rightarrow> (ERR, k\<lparr>k_alloc := drop_frame fa addr\<rparr>))))"

text \<open>
  \<open>cpu_charge\<close>: the remaining budget, an error, or the death of the process on an overdraft (the
  outcome \<open>None\<close> with the state after \<open>on_exit\<close>; panicking is the outer \<open>None\<close>).
\<close>

definition sys_cpu_charge :: "kernel \<Rightarrow> nat \<Rightarrow> u64 \<Rightarrow> u64 \<Rightarrow> (u64 option \<times> kernel) option" where
  "sys_cpu_charge k me slot amount =
     (case k_current k ! me of
        None \<Rightarrow> Some (Some ERR, k)
      | Some p \<Rightarrow>
          (case charge (p_caps p) (unat slot) amount RIGHT_CONSUME of
             Inr (remaining, t) \<Rightarrow> Some (Some remaining, with_caps k me p t)
           | Inl Insufficient \<Rightarrow> map_option (\<lambda>(pos, k'). (None, k')) (on_exit k me)
           | Inl _ \<Rightarrow> Some (Some ERR, k)))"

text \<open>
  The per-kind action of \<open>cap_release\<close>, the capability already revoked; \<open>unbind_dma\<close> is
  \<open>iommu::bind_teardown\<close>.
\<close>

definition release_resource ::
    "(mem \<times> frame_alloc \<Rightarrow> mem \<times> frame_alloc) \<Rightarrow> io \<Rightarrow> nat \<Rightarrow> process \<Rightarrow> nat \<Rightarrow> capability \<Rightarrow> io" where
  "release_resource unbind_dma s me p slot c =
     (let k = io_kernel s; ret = (\<lambda>k'. s\<lparr>io_kernel := k'\<rparr>) in
      case release_action_of c of
        FreeFrame addr \<Rightarrow>
          let (p', us) = unmap_frame_for_slot p slot in
          ret (dealloc_frame ((set_current k me (Some p'))\<lparr>k_unmaps := k_unmaps k @ map (Pair (p_l4 p)) us\<rparr>) addr)
      | ReleaseRing i \<Rightarrow> ret (ring_release k i)
      | DropEndpoint \<Rightarrow> ret (k\<lparr>k_endpoints := note_cap_removed (k_endpoints k) c True\<rparr>)
      | UnmapFramebuffer \<Rightarrow>
          let (p', us) = unmap_fb_for_slot p slot in
          ret ((set_current k me (Some p'))\<lparr>k_unmaps := k_unmaps k @ map (Pair (p_l4 p)) us\<rparr>)
      | ReclaimTo og \<Rightarrow>
          let (p', us) = unmap_fb_for_slot p slot;
              k1 = (set_current k me (Some p'))\<lparr>k_unmaps := k_unmaps k @ map (Pair (p_l4 p)) us\<rparr>;
              returning = (case reclaim_target c (current_slot k1 me) of Some (_, h) \<Rightarrow> h | None \<Rightarrow> c)
          in ret (snd (reclaim_cap_home k1 c og returning))
      | UnbindDevice dev \<Rightarrow>
          let (ds, m, fa) = unbind unbind_dma (io_devs s) (unat dev) (k_mem k, k_alloc k) in
          s\<lparr>io_devs := ds, io_kernel := k\<lparr>k_mem := m, k_alloc := fa\<rparr>\<rparr>
      | DropSlot \<Rightarrow> s
      | Refuse \<Rightarrow> s)"

definition sys_cap_release ::
    "(mem \<times> frame_alloc \<Rightarrow> mem \<times> frame_alloc) \<Rightarrow> io \<Rightarrow> nat \<Rightarrow> u64 \<Rightarrow> u64 \<times> io" where
  "sys_cap_release unbind_dma s me slot =
     (case k_current (io_kernel s) ! me of
        None \<Rightarrow> (ERR, s)
      | Some p \<Rightarrow>
          (case lookup (p_caps p) (unat slot) 0 of
             Inl _ \<Rightarrow> (ERR, s)
           | Inr c \<Rightarrow>
               if release_action_of c = Refuse then (ERR, s)
               else (case revoke (p_caps p) (unat slot) of
                       Inl _ \<Rightarrow> (ERR, s)
                     | Inr (_, t) \<Rightarrow>
                         let p' = p\<lparr>p_caps := t\<rparr> in
                         (0, release_resource unbind_dma (s\<lparr>io_kernel := set_current (io_kernel s) me (Some p')\<rparr>)
                               me p' (unat slot) c))))"

text \<open>
  \<open>spawn_scheduled\<close>: a result channel, the optional lend, the child, and the caller's handle.  Undoing
  the lend restores the capability to its own slot, or to the lowest free one when that was not reserved.
\<close>

definition undo_lend :: "kernel \<Rightarrow> nat \<Rightarrow> nat \<Rightarrow> capability \<Rightarrow> kernel" where
  "undo_lend k me slot c =
     (let k' = (case k_current k ! me of
          None \<Rightarrow> k
        | Some p \<Rightarrow>
            (case reclaim_to (p_caps p) slot c of
               Some (_, t) \<Rightarrow> with_caps k me p t
             | None \<Rightarrow>
                 (let t = clear_reservation (p_caps p) slot in
                  case install t c of Inr (_, t') \<Rightarrow> with_caps k me p t' | Inl _ \<Rightarrow> with_caps k me p t)))
      in note_added k' c)"

definition spawn_scheduled :: "machine \<Rightarrow> kernel \<Rightarrow> nat \<Rightarrow> u8 list \<Rightarrow> u64 \<Rightarrow> (u64 \<times> kernel) option" where
  "spawn_scheduled mc k me binary transfer_slot =
     (case create_endpoint (k_endpoints k) of
        None \<Rightarrow> Some (ERR, k)
      | Some (ep, es) \<Rightarrow>
          let k0 = k\<lparr>k_endpoints := es\<rparr>;
              slot = unat transfer_slot;
              (transferred, k1) =
                (case if transfer_slot \<noteq> ERR then revoke_from_current k0 me slot else None of
                   None \<Rightarrow> (None, k0)
                 | Some (c, k') \<Rightarrow> (Some c, note_removed k' c False));
              send_cap = \<lparr>cap_obj = Endpoint ep, cap_rights = RIGHT_SEND, cap_origin = None\<rparr>;
              lent = map_option (\<lambda>c. c\<lparr>cap_origin :=
                  (case cap_origin c of Some og \<Rightarrow> Some og | None \<Rightarrow> Some (origin_new (current_slot k1 me) slot))\<rparr>)
                transferred
          in (case spawn mc k1 me binary [Some send_cap, lent] of
                None \<Rightarrow> None
              | Some (None, k2) \<Rightarrow>
                  let k3 = k2\<lparr>k_endpoints := release_endpoint (k_endpoints k2) ep\<rparr> in
                  Some (ERR, case transferred of None \<Rightarrow> k3 | Some c \<Rightarrow> undo_lend k3 me slot c)
              | Some (Some _, k2) \<Rightarrow>
                  (case k_current k2 ! me of
                     None \<Rightarrow> Some (ERR, k2)
                   | Some p \<Rightarrow>
                       (case mint (p_caps p) (Endpoint ep) RIGHT_RECV of
                          Inl _ \<Rightarrow> Some (ERR, k2)
                        | Inr (h, t) \<Rightarrow>
                            Some (of_nat h, note_added (with_caps k2 me p t)
                              \<lparr>cap_obj = Endpoint ep, cap_rights = RIGHT_RECV, cap_origin = None\<rparr>)))))"

text \<open>The two spawning calls; \<open>spawnable\<close> is the table of embedded programs.\<close>

definition sys_spawn ::
    "machine \<Rightarrow> (nat \<Rightarrow> u8 list option) \<Rightarrow> kernel \<Rightarrow> nat \<Rightarrow> u64 \<Rightarrow> u64 \<Rightarrow> (u64 \<times> kernel) option" where
  "sys_spawn mc spawnable k me child_id transfer_slot =
     (case spawnable (unat child_id) of
        None \<Rightarrow> Some (ERR, k)
      | Some binary \<Rightarrow> spawn_scheduled mc k me binary transfer_slot)"

definition sys_spawn_from_buffer ::
    "machine \<Rightarrow> mmu \<Rightarrow> kernel \<Rightarrow> nat \<Rightarrow> u64 \<Rightarrow> u64 \<Rightarrow> u64 \<Rightarrow> (u64 \<times> kernel) option" where
  "sys_spawn_from_buffer mc mu k me buf_va len transfer_slot =
     (case spawn_buffer mu \<lparr>us_proc = k_current k ! me, us_mem = k_mem k, us_alloc = k_alloc k, us_serial = []\<rparr> buf_va len of
        None \<Rightarrow> None
      | Some None \<Rightarrow> Some (ERR, k)
      | Some (Some binary) \<Rightarrow> spawn_scheduled mc k me binary transfer_slot)"

section \<open>Loading never panics\<close>

lemma load_pages_total:
  "lo_next s + length js \<le> length (lo_boot s) \<Longrightarrow> load_pages mapper l4 js s \<noteq> None"
proof (induction js arbitrary: s)
  case Nil
  then show ?case by simp
next
  case (Cons j js)
  then have n: "lo_next s < length (lo_boot s)" by simp
  show ?case
  proof (cases "load_page mapper l4 j s")
    case None
    then show ?thesis using n by (simp add: load_page_def Let_def split: sum.splits prod.splits if_splits)
  next
    case (Some r)
    show ?thesis
    proof (cases r)
      case (Inl e)
      then show ?thesis using Some by simp
    next
      case (Inr s1)
      have "lo_next s1 = lo_next s + 1" "length (lo_boot s1) = length (lo_boot s)"
        using Some Inr by (auto simp: load_page_def Let_def split: sum.splits prod.splits if_splits)
      then have "load_pages mapper l4 js s1 \<noteq> None" using Cons by simp
      then show ?thesis using Some Inr by simp
    qed
  qed
qed

lemma load_total:
  assumes "length binary < 2 ^ 64"
  shows "fst (load_and_map mapper binary l4
    \<lparr>lo_mem = m, lo_fa = fa, lo_boot = replicate MAX_BOOT_FRAMES None, lo_next = 0\<rparr>) \<noteq> None"
proof -
  let ?s = "\<lparr>lo_mem = m, lo_fa = fa, lo_boot = replicate MAX_BOOT_FRAMES None, lo_next = 0\<rparr>"
  let ?mx = "saturating_sub (of_nat MAX_BOOT_FRAMES) (of_nat USER_STACK_PAGES) :: u64"
  have mx: "?mx = 60" using page_budget by (simp add: word_unat_eq_iff)
  show ?thesis
  proof (cases "parse binary USER_IMAGE_BASE USER_IMAGE_END ?mx")
    case (Inl e)
    then show ?thesis by (simp add: load_and_map_def)
  next
    case (Inr im)
    let ?J = "concat (map (seg_jobs binary) (im_segs im)) @ stack_jobs"
    have "segs_ok (length binary) USER_IMAGE_BASE USER_IMAGE_END ?mx (im_segs im)"
      using Inr[unfolded parse_iff[OF assms] Let_def] by auto
    then have "sum_list (map pages (im_segs im)) \<le> 60" using mx by (simp add: segs_ok_def)
    then have "length ?J \<le> MAX_BOOT_FRAMES"
      unfolding length_jobs by (simp add: MAX_BOOT_FRAMES_def USER_STACK_PAGES_def)
    then have "load_pages mapper l4 ?J (?s\<lparr>lo_next := 0\<rparr>) \<noteq> None" by (intro load_pages_total) simp
    then show ?thesis using Inr by (auto simp: load_and_map_def Let_def split: option.splits sum.splits)
  qed
qed

section \<open>The child's table\<close>

definition filled :: "nat \<Rightarrow> cap_table \<Rightarrow> bool" where
  "filled n t \<longleftrightarrow> ct_wf t \<and> (\<forall>i. peek t i \<noteq> None \<longleftrightarrow> i < n) \<and> (\<forall>i. \<not> is_reserved t i)"

lemma install_filled:
  assumes "filled n t" "n < MAX_CAPS"
  obtains t' where "install t c = Inr (n, t')" "filled (Suc n) t'" "mset (ct_iter t') = add_mset c (mset (ct_iter t))"
    "peek t' = (peek t)(n := Some c)"
proof -
  have wf: "ct_wf t" and pk: "\<And>i. peek t i \<noteq> None \<longleftrightarrow> i < n" and rs: "\<And>i. \<not> is_reserved t i"
    using assms(1) by (simp_all add: filled_def)
  have "peek t n = None" using pk[of n] by blast
  then obtain j t' where j: "install t c = Inr (j, t')" "j \<le> n" using install_total[OF wf assms(2) _ rs] by metis
  note I = install_Inr[OF wf j(1)]
  have jn: "j = n" using I(2) pk[of j] j(2) by (metis le_neq_implies_less)
  have "filled (Suc n) t'" using I(4,5,7) pk rs by (auto simp: filled_def jn)
  then show ?thesis using that[of t'] j I(4) install_mset[OF wf j(1)] by (simp add: jn)
qed

lemma new_process_table:
  "\<exists>p. spawn_process None = Some p \<and> filled 1 (p_caps p) \<and>
     mset (ct_iter (p_caps p)) = {#\<lparr>cap_obj = CpuTime INITIAL_CPU_BUDGET, cap_rights = RIGHT_CONSUME, cap_origin = None\<rparr>#}"
proof -
  have "filled 0 (p_caps process_new)"
    by (auto simp: filled_def process_new_def ct_new_def ct_wf_def peek_def get_def is_reserved_def)
  moreover have "mset (ct_iter (p_caps process_new)) = {#}"
    by (simp add: process_new_def ct_new_def ct_iter_def map_filter_def)
  moreover have "0 < MAX_CAPS" by (simp add: MAX_CAPS_def)
  ultimately obtain t' where "install (p_caps process_new)
      \<lparr>cap_obj = CpuTime INITIAL_CPU_BUDGET, cap_rights = RIGHT_CONSUME, cap_origin = None\<rparr> = Inr (0, t')"
    "filled 1 t'"
    "mset (ct_iter t') = {#\<lparr>cap_obj = CpuTime INITIAL_CPU_BUDGET, cap_rights = RIGHT_CONSUME, cap_origin = None\<rparr>#}"
    using install_filled[of 0 "p_caps process_new"] by (metis One_nat_def)
  then show ?thesis by (simp add: spawn_process_def mint_def)
qed

lemma grant_all_room:
  assumes "filled n t" "n + length cs \<le> MAX_CAPS"
  shows "\<exists>t'. grant_all t es cs = (Some t', foldl note_cap_added es cs) \<and> ct_wf t' \<and>
    mset (ct_iter t') = mset (ct_iter t) + mset cs \<and> (\<forall>j < length cs. peek t' (n + j) = Some (cs ! j)) \<and>
    (\<forall>j < n. peek t' j = peek t j)"
  using assms
proof (induction cs arbitrary: n t es)
  case Nil
  then show ?case by (simp add: filled_def)
next
  case (Cons c cs)
  have "n < MAX_CAPS" using Cons.prems(2) by simp
  then obtain t1 where t1: "install t c = Inr (n, t1)" "filled (Suc n) t1"
    "mset (ct_iter t1) = add_mset c (mset (ct_iter t))" "peek t1 = (peek t)(n := Some c)"
    using install_filled[OF Cons.prems(1)] by metis
  have "Suc n + length cs \<le> MAX_CAPS" using Cons.prems(2) by simp
  from Cons.IH[OF t1(2) this, of "note_cap_added es c"]
  obtain t' where t': "grant_all t1 (note_cap_added es c) cs = (Some t', foldl note_cap_added (note_cap_added es c) cs)"
    "ct_wf t'" "mset (ct_iter t') = mset (ct_iter t1) + mset cs"
    "\<forall>j < length cs. peek t' (Suc n + j) = Some (cs ! j)" "\<forall>j < Suc n. peek t' j = peek t1 j" by blast
  have "peek t' (n + j) = Some ((c # cs) ! j)" if "j < length (c # cs)" for j
  proof (cases j)
    case 0
    then show ?thesis using t'(5) t1(4) by simp
  next
    case (Suc i)
    then show ?thesis using t'(4)[rule_format, of i] that by simp
  qed
  moreover have "peek t' j = peek t j" if "j < n" for j using t'(5)[rule_format, of j] t1(4) that by simp
  ultimately show ?case using t1 t' by simp
qed

section \<open>A new process in the table\<close>

lemma admit_wf:
  assumes "sched_wf k" "me < MAX_CORES" "pid < MAX_PROCESSES" "state_of k pid = Empty"
    and "k_table k1 = (k_table k)[pid := s]" "sl_state s = Ready" "sl_process s \<noteq> None"
    and "k_current k1 = k_current k" "k_current_slot k1 = k_current_slot k" "k_queues k1 = k_queues k"
  obtains k2 where "push_to_core_queue k1 me pid = Some k2" "sched_wf k2" "k2 = k1\<lparr>k_queues := k_queues k2\<rparr>"
    "homed k2 me pid"
proof -
  note W = sched_wfD[OF assms(1)]
  have len: "length (k_table k) = MAX_PROCESSES" using W(1) by (simp add: shape_def)
  have sl: "slot_of k1 t = (if t = pid then s else slot_of k t)" for t
    using assms(3,5) len by (simp add: nth_list_update_cases)
  have nl: "pid \<notin> live k" using assms(4) by (simp add: live_def)
  then have "live k \<subseteq> {..<MAX_PROCESSES} - {pid}" by (auto simp: live_def)
  then have "card (live k) \<le> card ({..<MAX_PROCESSES} - {pid})" by (intro card_mono) simp_all
  then have "size (queued k) < MAX_PROCESSES" using assms(3) W(2) by (simp add: MAX_PROCESSES_def)
  moreover have q1: "queued k1 = queued k" using assms(10) by (simp add: queued_def)
  moreover have sh: "shape k1" using W(1) assms(5,8-10) by (simp add: shape_def)
  ultimately obtain k2 where P: "push_to_core_queue k1 me pid = Some k2" "queued k2 = add_mset pid (queued k1)"
    "shape k2" "k2 = k1\<lparr>k_queues := k_queues k2\<rparr>" "\<And>d. d \<noteq> me \<Longrightarrow> k_queues k2 ! d = k_queues k1 ! d"
    "\<And>u. homed k2 me u \<longleftrightarrow> u = pid \<or> homed k1 me u"
    using push_queue_Some[OF _ assms(2)] by metis
  have v: "k_table k2 = k_table k1" "k_current k2 = k_current k" "k_current_slot k2 = k_current_slot k"
    by (subst P(4), simp add: assms(8,9))+
  have "live k2 = insert pid (live k)" using assms(3,6) by (auto simp: live_def v sl)
  then have q: "queued k2 = mset_set (live k2)" using P(2) q1 W(2) nl by simp
  have hm: "homed k c u \<Longrightarrow> homed k2 c u" for c u
    using P(5)[of c] P(6) assms(10) by (cases "c = me") (auto simp: homed_def)
  have ro: "runs_on k2 c t = runs_on k c t" for c t by (simp add: runs_on_def v)
  have "\<forall>t < MAX_PROCESSES. sl_process (slot_of k2 t) \<noteq> None \<longleftrightarrow> state_of k2 t \<in> {Ready, Blocked}"
    using W(3) assms(6,7) by (simp add: v sl)
  moreover have "\<forall>c < MAX_CORES. \<forall>t. runs_on k2 c t \<longrightarrow> t < MAX_PROCESSES \<and> state_of k2 t = Running \<and> homed k2 c t"
    using W(4) ro hm assms(4) by (fastforce simp: v sl)
  moreover have "\<forall>t < MAX_PROCESSES. state_of k2 t = Running \<longrightarrow> (\<exists>c < MAX_CORES. runs_on k2 c t)"
    using W(5) ro assms(6) by (simp add: v sl)
  ultimately have "sched_wf k2" using P(3) q by (simp add: sched_wf_def)
  then show ?thesis using that P(1,4,6) by blast
qed

text \<open>
  What a launch leaves: a failed one only spent memory; a successful one put a ready process with a
  CPU budget and the grants in the slot, homed on the launching core.
\<close>

definition only_memory :: "kernel \<Rightarrow> kernel \<Rightarrow> bool" where
  "only_memory k k' \<longleftrightarrow> (\<exists>m fa us. k' = k\<lparr>k_mem := m, k_alloc := fa, k_unmaps := us\<rparr>)"

definition cpu_budget :: capability where
  "cpu_budget = \<lparr>cap_obj = CpuTime INITIAL_CPU_BUDGET, cap_rights = RIGHT_CONSUME, cap_origin = None\<rparr>"

definition launched :: "machine \<Rightarrow> kernel \<Rightarrow> nat \<Rightarrow> nat \<Rightarrow> capability list \<Rightarrow> kernel \<Rightarrow> bool" where
  "launched mc k me pid grants k' \<longleftrightarrow> (\<exists>m fa fr s qs p.
     k' = k\<lparr>k_mem := m, k_alloc := fa, k_frames := fr, k_endpoints := foldl note_cap_added (k_endpoints k) grants,
            k_table := (k_table k)[pid := s], k_queues := qs\<rparr> \<and>
     sl_state s = Ready \<and> sl_process s = Some p \<and> ct_wf (p_caps p) \<and>
     mset (ct_iter (p_caps p)) = add_mset cpu_budget (mset grants) \<and>
     (\<forall>j < length grants. peek (p_caps p) (1 + j) = Some (grants ! j)) \<and>
     tf_gp (fr (sl_rsp s)) ! GP_RDI = of_nat pid \<and>
     sched_wf k' \<and> homed k' me pid)"

lemma setup_cases:
  assumes "sched_wf k" "me < MAX_CORES" "pid < MAX_PROCESSES" "state_of k pid = Empty" "length binary < 2 ^ 64"
    and "1 + length (List.map_filter id caps) \<le> MAX_CAPS"
  obtains (failed) e k' where "setup_process mc k pid binary caps me = Some (Some e, k')" "only_memory k k'"
  | (ok) k' where "setup_process mc k pid binary caps me = Some (None, k')"
      "launched mc k me pid (List.map_filter id caps) k'"
proof (cases "create_address_space (mc_kernel_l4 mc) (k_mem k) (k_alloc k)")
  case (Inl e)
  have "only_memory k k" unfolding only_memory_def by (intro exI[of _ "k_mem k"] exI[of _ "k_alloc k"] exI[of _ "k_unmaps k"]) simp
  then show ?thesis using failed[of e k] Inl by (simp add: setup_process_def)
next
  case (Inr a)
  obtain l4 m fa where a: "a = (l4, m, fa)" by (cases a) auto
  let ?s = "\<lparr>lo_mem = m, lo_fa = fa, lo_boot = replicate MAX_BOOT_FRAMES None, lo_next = 0\<rparr>"
  obtain r s where rs: "load_and_map (mc_mapper mc) binary l4 ?s = (r, s)" by fastforce
  then have "r \<noteq> None" using load_total[OF assms(5), of "mc_mapper mc" l4 m fa] by simp
  then obtain r' where r': "r = Some r'" by blast
  show ?thesis
  proof (cases r')
    case (Inl b)
    obtain e us where b: "b = (e, us)" by (cases b) auto
    show ?thesis
      by (rule failed[of e]) (simp_all add: setup_process_def Inr a rs r' Inl b only_memory_def, blast)
  next
    case ent: (Inr entry)
    obtain p where p: "spawn_process None = Some p" "filled 1 (p_caps p)" "mset (ct_iter (p_caps p)) = {#cpu_budget#}"
      using new_process_table by (auto simp: cpu_budget_def)
    let ?g = "List.map_filter id caps"
    obtain t where t: "grant_all (p_caps p) (k_endpoints k) ?g = (Some t, foldl note_cap_added (k_endpoints k) ?g)"
      "ct_wf t" "mset (ct_iter t) = add_mset cpu_budget (mset ?g)" "\<forall>j < length ?g. peek t (1 + j) = Some (?g ! j)"
      using grant_all_room[OF p(2) assms(6), of "k_endpoints k"] p(3) by auto
    let ?k = "k\<lparr>k_mem := lo_mem s, k_alloc := lo_fa s, k_endpoints := foldl note_cap_added (k_endpoints k) ?g\<rparr>"
    let ?p = "p\<lparr>p_caps := t, p_l4 := l4\<rparr>"
    obtain base k1 where f: "fabricate_initial_frame mc ?k pid entry = (base, k1)" by fastforce
    then have k1: "k1 = ?k\<lparr>k_frames := k_frames k1\<rparr>" "tf_gp (k_frames k1 base) ! GP_RDI = of_nat pid"
      by (auto simp: fabricate_initial_frame_def Let_def GP_RDI_def)
    let ?sl = "(slot_of k1 pid)\<lparr>sl_process := Some ?p, sl_boot_frames := lo_boot s, sl_rsp := base, sl_state := Ready\<rparr>"
    have tb: "k_table (set_slot k1 pid ?sl) = (k_table k)[pid := ?sl]" by (subst k1(1), simp add: set_slot_def)
    have sc: "k_current (set_slot k1 pid ?sl) = k_current k" "k_current_slot (set_slot k1 pid ?sl) = k_current_slot k"
      "k_queues (set_slot k1 pid ?sl) = k_queues k" by (subst k1(1), simp add: set_slot_def)+
    obtain k2 where k2: "push_to_core_queue (set_slot k1 pid ?sl) me pid = Some k2" "sched_wf k2"
      "k2 = (set_slot k1 pid ?sl)\<lparr>k_queues := k_queues k2\<rparr>" "homed k2 me pid"
      by (rule admit_wf[OF assms(1-4) tb _ _ sc]) simp_all
    have "setup_process mc k pid binary caps me = Some (None, k2)"
      using k2(1) by (simp add: setup_process_def Inr a rs r' ent p(1) t(1) f Let_def)
    moreover have "launched mc k me pid ?g k2"
      unfolding launched_def
    proof (intro exI conjI)
      show "k2 = k\<lparr>k_mem := lo_mem s, k_alloc := lo_fa s, k_frames := k_frames k1,
          k_endpoints := foldl note_cap_added (k_endpoints k) ?g, k_table := (k_table k)[pid := ?sl], k_queues := k_queues k2\<rparr>"
        by (subst k2(3), subst k1(1)) (simp add: set_slot_def)
      show "sl_process ?sl = Some ?p" by simp
    qed (use t k1(2) k2(2,4) in simp_all)
    ultimately show ?thesis by (rule ok)
  qed
qed

lemma spawn_cases:
  assumes "sched_wf k" "me < MAX_CORES" "length binary < 2 ^ 64" "1 + length (List.map_filter id caps) \<le> MAX_CAPS"
  obtains (failed) k' where "spawn mc k me binary caps = Some (None, k')" "only_memory k k'"
  | (ok) pid k' where "spawn mc k me binary caps = Some (Some pid, k')" "pid < MAX_PROCESSES" "state_of k pid = Empty"
      "launched mc k me pid (List.map_filter id caps) k'"
proof (cases "find_free_slot k")
  case None
  have "only_memory k k" unfolding only_memory_def by (intro exI[of _ "k_mem k"] exI[of _ "k_alloc k"] exI[of _ "k_unmaps k"]) simp
  then show ?thesis using failed[of k] None by (simp add: spawn_def)
next
  case (Some pid)
  have "pid < MAX_PROCESSES" "state_of k pid = Empty"
    using position_SomeD(1,2)[OF Some[unfolded find_free_slot_def]] sched_wfD(1)[OF assms(1)] by (simp_all add: shape_def)
  then show ?thesis
    by (cases rule: setup_cases[OF assms(1,2) _ _ assms(3,4), of pid mc]) (use Some failed ok in \<open>auto simp: spawn_def\<close>)
qed

lemma launchedE:
  assumes "launched mc k me pid gs k'" "tables_ok k" "length (k_table k) = MAX_PROCESSES" "pid < MAX_PROCESSES"
    and "sl_process (slot_of k pid) = None"
  obtains p where "sched_wf k'" "tables_ok k'" "all_caps k' = all_caps k + add_mset cpu_budget (mset gs)"
    "state_of k' pid = Ready" "sl_process (slot_of k' pid) = Some p" "\<forall>u. u \<noteq> pid \<longrightarrow> slot_of k' u = slot_of k u"
    "\<forall>j < length gs. peek (p_caps p) (1 + j) = Some (gs ! j)" "homed k' me pid"
    "k_current k' = k_current k" "k_current_slot k' = k_current_slot k" "k_links k' = k_links k"
    "k_endpoints k' = foldl note_cap_added (k_endpoints k) gs"
    "tf_gp (k_frames k' (sl_rsp (slot_of k' pid))) ! GP_RDI = of_nat pid"
proof -
  obtain m fa fr s qs p where k': "k' = k\<lparr>k_mem := m, k_alloc := fa, k_frames := fr,
      k_endpoints := foldl note_cap_added (k_endpoints k) gs, k_table := (k_table k)[pid := s], k_queues := qs\<rparr>"
    and s: "sl_state s = Ready" "sl_process s = Some p" "ct_wf (p_caps p)"
      "mset (ct_iter (p_caps p)) = add_mset cpu_budget (mset gs)"
      "\<forall>j < length gs. peek (p_caps p) (1 + j) = Some (gs ! j)" "tf_gp (fr (sl_rsp s)) ! GP_RDI = of_nat pid"
      "sched_wf k'" "homed k' me pid"
    using assms(1) unfolding launched_def by blast
  have len: "pid < length (k_table k)" using assms(3,4) by simp
  let ?k = "k\<lparr>k_table := (k_table k)[pid := s]\<rparr>"
  have a: "all_caps k' = all_caps ?k" by (simp add: k' all_caps_def)
  have t: "tables_ok k'" using tables_ok_slot[OF assms(2), of s pid] s(2,3) by (simp add: k' tables_ok_def)
  have "all_caps ?k = all_caps k + add_mset cpu_budget (mset gs)"
    using all_caps_slot[OF len, of s] assms(5) s(2,4) by simp
  note a' = a[unfolded this]
  have sl: "slot_of k' pid = s" "\<And>u. u \<noteq> pid \<Longrightarrow> slot_of k' u = slot_of k u" using len by (simp_all add: k')
  show ?thesis
    by (rule that[OF s(7) t a' _ _ _ s(5,8)]) (use sl s(1,2,6) in \<open>simp_all add: k'\<close>)
qed

lemma inv_grow:
  assumes "ipc_inv k Q" "sched_wf k'" "tables_ok k'" "k_links k' = k_links k" "\<And>t. is_blocked k' t = is_blocked k t"
    and "counts_ok (k_endpoints k') (all_caps k')" "ids_ok (all_caps k')"
    and "\<And>j. j < MAX_ENDPOINTS \<Longrightarrow> ep_queue (k_endpoints k' ! j) = ep_queue (k_endpoints k ! j) \<or>
      ep_queue (k_endpoints k' ! j) = wq_empty \<and> \<not> ep_in_use (k_endpoints k ! j)"
    and "\<And>j. ep_in_use (k_endpoints k ! j) \<Longrightarrow> ep_in_use (k_endpoints k' ! j)"
    and "\<And>r j. refs r j (all_caps k) \<le> refs r j (all_caps k')"
    and "\<And>r j. j < MAX_ENDPOINTS \<Longrightarrow> \<not> ep_in_use (k_endpoints k' ! j) \<Longrightarrow> r \<in> {RIGHT_SEND, RIGHT_RECV} \<Longrightarrow>
      refs r j (all_caps k') = 0"
    and "\<And>t. tally (reply_to t) k' = tally (reply_to t) k"
  shows "ipc_inv k' Q"
proof -
  note I = ipc_inv_atD[OF assms(1)[unfolded ipc_inv_def]]
  have c: "ep_senders (k_endpoints k' ! j) = refs RIGHT_SEND j (all_caps k')"
    "ep_receivers (k_endpoints k' ! j) = refs RIGHT_RECV j (all_caps k')" if "j < MAX_ENDPOINTS" for j
    using assms(6) that by (simp_all add: counts_ok_def)
  have c0: "ep_senders (k_endpoints k ! j) \<le> ep_senders (k_endpoints k' ! j)"
    "ep_receivers (k_endpoints k ! j) \<le> ep_receivers (k_endpoints k' ! j)" if "j < MAX_ENDPOINTS" for j
    using I(3) that c assms(10) by (simp_all add: counts_ok_def)
  have "queues_ok {} k' Q"
    unfolding queues_ok_def
  proof (intro conjI allI impI ballI)
    show "length (k_links k') = MAX_PROCESSES" using I(5) assms(4) by (simp add: queues_ok_def)
    fix j
    assume j: "j < MAX_ENDPOINTS"
    note D = queues_okD[OF I(5) j]
    have old: "ep_queue (k_endpoints k' ! j) = ep_queue (k_endpoints k ! j)" if "Q j \<noteq> []"
      using assms(8)[OF j] D(4)[OF that] by blast
    show "wq_rep (ep_queue (k_endpoints k' ! j)) (k_links k') (Q j)"
      using assms(8)[OF j]
    proof (elim disjE conjE)
      assume "ep_queue (k_endpoints k' ! j) = ep_queue (k_endpoints k ! j)"
      then show ?thesis using D(1) assms(4) by simp
    next
      assume e: "ep_queue (k_endpoints k' ! j) = wq_empty" and "\<not> ep_in_use (k_endpoints k ! j)"
      then have "Q j = []" using D(4) by blast
      then show ?thesis by (simp add: e wq_rep_def wq_empty_def first_of_def last_of_def)
    qed
    show "is_blocked k' t \<or> t \<in> {}" if "t \<in> set (Q j)" for t using D(3)[OF that] assms(5) by simp
    show "ep_in_use (k_endpoints k' ! j)" if "Q j \<noteq> []" using D(4)[OF that] assms(9) by blast
    show "served (k_endpoints k' ! j)" if "Q j \<noteq> []"
      using D(4)[OF that] c0[OF j] old[OF that] by (auto simp: served_def split: if_splits)
    show "ep_senders (k_endpoints k' ! j) = 0" "ep_receivers (k_endpoints k' ! j) = 0" if "\<not> ep_in_use (k_endpoints k' ! j)"
      using assms(11)[OF j that] c[OF j] by simp_all
    show "set (Q j) \<inter> set (Q i) = {}" if "i < MAX_ENDPOINTS" "i \<noteq> j" for i using D(5)[OF that] .
  qed
  moreover have "replies_ok {} k' Q" using I(6) by (simp add: replies_ok_def assms(5,12))
  ultimately show ?thesis using assms(2,3,6,7) by (simp add: ipc_inv_def ipc_inv_at_def)
qed

section \<open>The lend\<close>

lemma created:
  assumes "ipc_inv k Q" "create_endpoint (k_endpoints k) = Some (ep, es)"
  shows "ep < MAX_ENDPOINTS" "\<not> ep_in_use (k_endpoints k ! ep)" "counts_ok es (all_caps k)"
    "\<And>j. j \<noteq> ep \<Longrightarrow> es ! j = k_endpoints k ! j" "es ! ep = ep_empty\<lparr>ep_in_use := True\<rparr>"
    "\<And>r. r \<in> {RIGHT_SEND, RIGHT_RECV} \<Longrightarrow> refs r ep (all_caps k) = 0"
proof -
  note I = ipc_inv_atD[OF assms(1)[unfolded ipc_inv_def]]
  have p: "position (\<lambda>e. \<not> ep_in_use e) (k_endpoints k) = Some ep" "es = (k_endpoints k)[ep := ep_empty\<lparr>ep_in_use := True\<rparr>]"
    using assms(2) by (auto simp: create_endpoint_def split: option.splits)
  show ep: "ep < MAX_ENDPOINTS" and u: "\<not> ep_in_use (k_endpoints k ! ep)" using position_SomeD(1,2)[OF p(1)] I(9) by simp_all
  show es: "\<And>j. j \<noteq> ep \<Longrightarrow> es ! j = k_endpoints k ! j" "es ! ep = ep_empty\<lparr>ep_in_use := True\<rparr>" using ep I(9) by (simp_all add: p(2))
  show z: "\<And>r. r \<in> {RIGHT_SEND, RIGHT_RECV} \<Longrightarrow> refs r ep (all_caps k) = 0"
    using queues_okD(6)[OF I(5) ep u] I(3) ep by (auto simp: counts_ok_def)
  show "counts_ok es (all_caps k)"
    unfolding counts_ok_def
  proof (intro conjI allI impI)
    show "length es = MAX_ENDPOINTS" using I(9) by (simp add: p(2))
    show "ep_senders (es ! j) = refs RIGHT_SEND j (all_caps k)" "ep_receivers (es ! j) = refs RIGHT_RECV j (all_caps k)"
      if "j < MAX_ENDPOINTS" for j
      using I(3) that z es by (cases "j = ep"; simp add: counts_ok_def ep_empty_def)+
  qed
qed

text \<open>
  The caller's side of a spawn before the child is launched: \<open>k1\<close> is \<open>k\<close> with the endpoint created
  and, when a capability \<open>c\<close> is lent, with it taken out of the caller's table.
\<close>

definition lent_out :: "kernel \<Rightarrow> nat \<Rightarrow> nat \<Rightarrow> endpoint list \<Rightarrow> capability option \<Rightarrow> kernel \<Rightarrow> bool" where
  "lent_out k me slot es taken k1 \<longleftrightarrow>
     (case taken of
        None \<Rightarrow> k1 = k\<lparr>k_endpoints := es\<rparr>
      | Some c \<Rightarrow> \<exists>k'. revoke_from_current (k\<lparr>k_endpoints := es\<rparr>) me slot = Some (c, k') \<and> k1 = note_removed k' c False)"

lemma lent_outE:
  assumes "ipc_inv k Q" "create_endpoint (k_endpoints k) = Some (ep, es)" "me < MAX_CORES" "k_current k ! me = Some p"
    and "lent_out k me slot es taken k1"
  obtains p1 where "exchanges k ((case taken of None \<Rightarrow> {#} | Some c \<Rightarrow> {#c#})) {#} k1" "k_table k1 = k_table k"
    "sched_wf k1" "tables_ok k1" "counts_ok (k_endpoints k1) (all_caps k1)"
    "\<forall>j. ep_queue (k_endpoints k1 ! j) = ep_queue (es ! j) \<and> ep_in_use (k_endpoints k1 ! j) = ep_in_use (es ! j)"
    "k_current k1 ! me = Some p1" "k_links k1 = k_links k" "k_current_slot k1 = k_current_slot k" "ct_wf (p_caps p1)"
    "case taken of None \<Rightarrow> p_caps p1 = p_caps p | Some c \<Rightarrow> slot < MAX_CAPS \<and> peek (p_caps p) slot = Some c \<and>
       peek (p_caps p1) = (peek (p_caps p))(slot := None) \<and>
       is_reserved (p_caps p1) = (if lend_reserves_home c then (is_reserved (p_caps p))(slot := True) else is_reserved (p_caps p))"
    "\<forall>c. taken = Some c \<longrightarrow> note_cap_added (k_endpoints k1) c = es"
proof -
  note I = ipc_inv_atD[OF assms(1)[unfolded ipc_inv_def]]
  note C = created[OF assms(1,2)]
  let ?k0 = "k\<lparr>k_endpoints := es\<rparr>"
  have T: "tables_ok ?k0" "me < length (k_current ?k0)" "k_current ?k0 ! me = Some p" using I(2,8) assms(3,4) by simp_all
  have wf: "ct_wf (p_caps p)" using tables_okD(2)[OF T(1-3)] .
  show ?thesis
  proof (cases taken)
    case None
    then have k1: "k1 = ?k0" using assms(5) by (simp add: lent_out_def)
    show ?thesis
      by (rule that[of p]) (use None I(1,2) C(3) assms(4) wf in \<open>simp_all add: k1 exchanges_def caps_only_wf[OF caps_only_endpoints]\<close>)
  next
    case (Some c)
    obtain k' where r: "revoke_from_current ?k0 me slot = Some (c, k')" and k1: "k1 = note_removed k' c False"
      using assms(5) Some by (auto simp: lent_out_def)
    obtain p' where R: "exchanges ?k0 {#c#} {#} k'" "k_table k' = k_table ?k0" "k_endpoints k' = k_endpoints ?k0"
      "k_current k' ! me = Some p'" "peek (p_caps p) slot = Some c" "peek (p_caps p') = (peek (p_caps p))(slot := None)"
      "is_reserved (p_caps p') = (if lend_reserves_home c then (is_reserved (p_caps p))(slot := True) else is_reserved (p_caps p))"
      "ct_wf (p_caps p')" "slot < MAX_CAPS"
      using revoke_from_current_Some[OF T r] by metis
    have x: "exchanges k {#c#} {#} k1"
      using exchanges_endpoints[OF exchanges_from_endpoints[OF R(1)]] by (simp add: k1 note_endpoints)
    have a: "add_mset c (all_caps k1) = all_caps k" using exchangesD(3)[OF x] by simp
    then have cin: "c \<in># all_caps k" by (metis union_single_eq_member add_mset_add_single)
    have ids: "ids_ok {#c#}" using I(4) cin by (auto simp: ids_ok_def)
    have "counts_ok (note_cap_removed es c False) (all_caps k1)" using counts_ok_remove[OF C(3)[folded a] ids] .
    then have co: "counts_ok (k_endpoints k1) (all_caps k1)" by (simp add: k1 note_endpoints R(3))
    have v: "k_links k1 = k_links k" "k_current_slot k1 = k_current_slot k" "sched_wf k1"
      using caps_onlyD(11,12)[OF exchangesD(1)[OF x]] caps_only_wf[OF exchangesD(1)[OF x]] I(1) by simp_all
    have n: "note_cap_added (k_endpoints k1) c = es"
      using note_move[OF C(3) cin I(4)] by (simp add: k1 note_endpoints R(3))
    have q: "ep_queue (k_endpoints k1 ! j) = ep_queue (es ! j) \<and> ep_in_use (k_endpoints k1 ! j) = ep_in_use (es ! j)" for j
      using note_cap_removed_queue[of es c j] by (simp add: k1 note_endpoints R(3))
    show ?thesis
      by (rule that[of p']) (use Some x R v co n q exchangesD(2)[OF x] in \<open>simp_all add: k1\<close>)
  qed
qed

text \<open>A lent capability has the object and the rights of the original.\<close>

abbreviation recorded :: "kernel \<Rightarrow> nat \<Rightarrow> nat \<Rightarrow> capability \<Rightarrow> capability" where
  "recorded k me slot c \<equiv> c\<lparr>cap_origin :=
     (case cap_origin c of Some og \<Rightarrow> Some og | None \<Rightarrow> Some (origin_new (current_slot k me) slot))\<rparr>"

lemma recorded_same:
  "reaches r i (c\<lparr>cap_origin := og\<rparr>) = reaches r i c" "reply_to t (c\<lparr>cap_origin := og\<rparr>) = reply_to t c"
  "note_cap_added es (c\<lparr>cap_origin := og\<rparr>) = note_cap_added es c"
  "ids_ok {#c\<lparr>cap_origin := og\<rparr>#} = ids_ok {#c#}"
  by (simp_all add: reaches_def reply_to_def note_cap_added_def ids_ok_def cong: cap_object.case_cong)

lemma grants_endpoints:
  "length (foldl note_cap_added es gs) = length es"
  "ep_queue (foldl note_cap_added es gs ! j) = ep_queue (es ! j)"
  "ep_in_use (foldl note_cap_added es gs ! j) = ep_in_use (es ! j)"
proof -
  have l: "length (note_cap_added es c) = length es" for es c by (simp add: note_cap_added_def split: cap_object.splits)
  have "length (foldl note_cap_added es gs) = length es \<and> ep_queue (foldl note_cap_added es gs ! j) = ep_queue (es ! j) \<and>
      ep_in_use (foldl note_cap_added es gs ! j) = ep_in_use (es ! j)"
    by (induction gs arbitrary: es) (simp_all add: note_cap_added_queue l)
  then show "length (foldl note_cap_added es gs) = length es" "ep_queue (foldl note_cap_added es gs ! j) = ep_queue (es ! j)"
    "ep_in_use (foldl note_cap_added es gs ! j) = ep_in_use (es ! j)" by blast+
qed

lemma grants_counts:
  "counts_ok es C \<Longrightarrow> ids_ok (mset gs) \<Longrightarrow> counts_ok (foldl note_cap_added es gs) (C + mset gs)"
proof (induction gs arbitrary: es C)
  case (Cons c gs)
  have "counts_ok (note_cap_added es c) (add_mset c C)"
    using Cons.prems by (intro counts_ok_add) (auto simp: ids_ok_def)
  then have "counts_ok (foldl note_cap_added (note_cap_added es c) gs) (add_mset c C + mset gs)"
    using Cons.prems(2) by (intro Cons.IH) (auto simp: ids_ok_def)
  then show ?case by simp
qed simp

lemma grant_current_inv:
  assumes "ipc_inv k Q" "exchanges k {#} {#c#} k'" "cap_obj c = Endpoint i" "i < MAX_ENDPOINTS" "ep_in_use (k_endpoints k ! i)"
    and "k_endpoints k' = k_endpoints k"
  shows "ipc_inv (note_added k' c) Q"
proof (rule inv_grow[OF assms(1)])
  note I = ipc_inv_atD[OF assms(1)[unfolded ipc_inv_def]]
  note X = exchangesD[OF assms(2)]
  have a: "all_caps (note_added k' c) = add_mset c (all_caps k)" using X(3) by (simp add: note_endpoints)
  have ids: "ids_ok {#c#}" using assms(3,4) by (simp add: ids_ok_def)
  have co: "caps_only k (note_added k' c)"
    using caps_only_trans[OF X(1) caps_only_endpoints] by (simp add: note_endpoints)
  show "sched_wf (note_added k' c)" using caps_only_wf[OF co] I(1) by simp
  show "tables_ok (note_added k' c)" using X(2) by (simp add: note_endpoints)
  show "k_links (note_added k' c) = k_links k" "\<And>t. is_blocked (note_added k' c) t = is_blocked k t"
    using caps_onlyD(11,15)[OF co] by simp_all
  show "counts_ok (k_endpoints (note_added k' c)) (all_caps (note_added k' c))"
    using counts_ok_add[OF I(3) ids] a by (simp add: note_endpoints assms(6))
  show "ids_ok (all_caps (note_added k' c))" using I(4) ids by (auto simp: a ids_ok_def)
  note q = note_cap_added_queue[of "k_endpoints k" c]
  show "ep_queue (k_endpoints (note_added k' c) ! j) = ep_queue (k_endpoints k ! j) \<or>
      ep_queue (k_endpoints (note_added k' c) ! j) = wq_empty \<and> \<not> ep_in_use (k_endpoints k ! j)" for j
    using q by (simp add: note_endpoints assms(6))
  show "ep_in_use (k_endpoints (note_added k' c) ! j)" if "ep_in_use (k_endpoints k ! j)" for j
    using q that by (simp add: note_endpoints assms(6))
  show "refs r j (all_caps k) \<le> refs r j (all_caps (note_added k' c))" for r j by (simp add: a)
  show "refs r j (all_caps (note_added k' c)) = 0"
    if "j < MAX_ENDPOINTS" "\<not> ep_in_use (k_endpoints (note_added k' c) ! j)" "r \<in> {RIGHT_SEND, RIGHT_RECV}" for r j
  proof -
    have u: "\<not> ep_in_use (k_endpoints k ! j)" using that(2) q by (simp add: note_endpoints assms(6))
    then have "j \<noteq> i" using assms(5) by blast
    then show ?thesis
      using queues_okD(6)[OF I(5) that(1) u] I(3) that(1,3) assms(3) by (auto simp: a counts_ok_def reaches_def)
  qed
  show "tally (reply_to t) (note_added k' c) = tally (reply_to t) k" for t
    using assms(3) by (simp add: a reply_to_def)
qed

lemma child_inv:
  assumes "ipc_inv k Q" "create_endpoint (k_endpoints k) = Some (ep, es)" "me < MAX_CORES" "k_current k ! me = Some p"
    and "lent_out k me slot es taken k1" "launched mc k1 me pid gs k2" "pid < MAX_PROCESSES" "state_of k1 pid = Empty"
    and gs: "gs = \<lparr>cap_obj = Endpoint ep, cap_rights = RIGHT_SEND, cap_origin = None\<rparr> #
      (case taken of None \<Rightarrow> [] | Some c \<Rightarrow> [recorded k1 me slot c])"
  shows "ipc_inv k2 Q"
proof (rule inv_grow[OF assms(1)])
  note I = ipc_inv_atD[OF assms(1)[unfolded ipc_inv_def]]
  note C = created[OF assms(1,2)]
  obtain p1 where L: "exchanges k (case taken of None \<Rightarrow> {#} | Some c \<Rightarrow> {#c#}) {#} k1" "k_table k1 = k_table k"
    "sched_wf k1" "tables_ok k1" "counts_ok (k_endpoints k1) (all_caps k1)"
    "\<forall>j. ep_queue (k_endpoints k1 ! j) = ep_queue (es ! j) \<and> ep_in_use (k_endpoints k1 ! j) = ep_in_use (es ! j)"
    "k_links k1 = k_links k"
    by (rule lent_outE[OF assms(1-5)], rule that; assumption)
  have np: "sl_process (slot_of k1 pid) = None" using sched_wfD(3)[OF L(3) assms(7)] assms(8) by auto
  have len: "length (k_table k1) = MAX_PROCESSES" using L(2) I(7) by simp
  obtain q where K: "sched_wf k2" "tables_ok k2" "all_caps k2 = all_caps k1 + add_mset cpu_budget (mset gs)"
    "state_of k2 pid = Ready" "\<forall>u. u \<noteq> pid \<longrightarrow> slot_of k2 u = slot_of k1 u" "k_links k2 = k_links k1"
    "k_endpoints k2 = foldl note_cap_added (k_endpoints k1) gs"
    by (rule launchedE[OF assms(6) L(4) len assms(7) np], rule that; assumption)
  let ?out = "case taken of None \<Rightarrow> {#} | Some c \<Rightarrow> {#c#}"
  let ?send = "\<lparr>cap_obj = Endpoint ep, cap_rights = RIGHT_SEND, cap_origin = None\<rparr>"
  have a: "all_caps k1 + ?out = all_caps k" using exchangesD(3)[OF L(1)] by simp
  have cpu: "reaches r j cpu_budget = False" "reply_to t cpu_budget = False" for r j t
    by (simp_all add: reaches_def reply_to_def cpu_budget_def)
  have rf: "refs r j (all_caps k2) = refs r j (all_caps k) + (if reaches r j ?send then 1 else 0)" for r j
    unfolding K(3) a[symmetric] gs by (cases taken) (simp_all add: cpu recorded_same)
  show "sched_wf k2" "tables_ok k2" "k_links k2 = k_links k" using K(1,2,6) L(7) by simp_all
  show "is_blocked k2 t = is_blocked k t" for t
    using K(4,5) assms(8) L(2) by (cases "t = pid") (simp_all add: is_blocked_def)
  have cids: "ids_ok (mset gs)"
  proof (cases taken)
    case (Some c)
    have "c \<in># all_caps k" using a Some by (metis option.simps(5) union_iff union_single_eq_member add_mset_add_single)
    then show ?thesis using I(4) C(1) by (auto simp: gs Some ids_ok_def)
  qed (simp add: gs ids_ok_def C(1))
  have "counts_ok (k_endpoints k2) (all_caps k1 + mset gs)"
    unfolding K(7) by (rule grants_counts[OF L(5) cids])
  then show "counts_ok (k_endpoints k2) (all_caps k2)" by (simp add: counts_ok_def K(3) cpu)
  have "set_mset (all_caps k1) \<subseteq> set_mset (all_caps k)" unfolding a[symmetric] by simp
  then show "ids_ok (all_caps k2)" using I(4) cids by (auto simp: K(3) ids_ok_def cpu_budget_def)
  have e: "ep_queue (k_endpoints k2 ! j) = ep_queue (es ! j)" "ep_in_use (k_endpoints k2 ! j) = ep_in_use (es ! j)" for j
    using L(6) by (simp_all add: K(7) grants_endpoints)
  show "ep_queue (k_endpoints k2 ! j) = ep_queue (k_endpoints k ! j) \<or>
      ep_queue (k_endpoints k2 ! j) = wq_empty \<and> \<not> ep_in_use (k_endpoints k ! j)" for j
    using C(2,4,5) by (cases "j = ep") (simp_all add: e ep_empty_def)
  show "ep_in_use (k_endpoints k2 ! j)" if "ep_in_use (k_endpoints k ! j)" for j
    using that C(4,5) by (cases "j = ep") (simp_all add: e)
  show "refs r j (all_caps k) \<le> refs r j (all_caps k2)" for r j by (simp add: rf)
  show "refs r j (all_caps k2) = 0"
    if "j < MAX_ENDPOINTS" "\<not> ep_in_use (k_endpoints k2 ! j)" "r \<in> {RIGHT_SEND, RIGHT_RECV}" for r j
  proof -
    have j: "j \<noteq> ep" using that(2) C(5) by (auto simp: e)
    then have "\<not> ep_in_use (k_endpoints k ! j)" using that(2) C(4) by (simp add: e)
    then have "refs r j (all_caps k) = 0"
      using queues_okD(6)[OF I(5) that(1)] I(3) that(1,3) by (auto simp: counts_ok_def)
    then show ?thesis using j by (simp add: rf reaches_def)
  qed
  show "tally (reply_to t) k2 = tally (reply_to t) k" for t
    unfolding K(3) a[symmetric] gs by (cases taken) (simp_all add: cpu recorded_same, simp_all add: reply_to_def)
qed

text \<open>Where the caller's table ends up when a lend is undone.\<close>

definition put_back :: "cap_table \<Rightarrow> nat \<Rightarrow> capability \<Rightarrow> cap_table \<Rightarrow> bool" where
  "put_back t slot c t' \<longleftrightarrow> is_reserved t' = is_reserved t \<and>
     (if lend_reserves_home c then peek t' = peek t
      else \<exists>j \<le> slot. (j = slot \<or> peek t j = None) \<and> peek t' = (peek t)(slot := None, j := Some c))"

lemma undo_lend_table:
  assumes "ct_wf t" "peek t slot = Some c" "slot < MAX_CAPS" "ct_wf t1" "peek t1 = (peek t)(slot := None)"
    and "is_reserved t1 = (if lend_reserves_home c then (is_reserved t)(slot := True) else is_reserved t)"
  shows "\<exists>t'. (case reclaim_to t1 slot c of Some (_, u) \<Rightarrow> u = t'
      | None \<Rightarrow> (case install (clear_reservation t1 slot) c of Inr (_, u) \<Rightarrow> u = t' | Inl _ \<Rightarrow> False)) \<and>
    ct_wf t' \<and> mset (ct_iter t') = add_mset c (mset (ct_iter t1)) \<and> put_back t slot c t'"
proof -
  have nr: "\<not> is_reserved t slot" using reserved_empty[OF assms(1), of slot] assms(2) by auto
  show ?thesis
  proof (cases "lend_reserves_home c")
    case True
    then have "is_reserved t1 slot" using assms(6) by simp
    then obtain t' where t': "reclaim_to t1 slot c = Some (slot, t')" using reclaim_to_reserved[OF assms(4)] by blast
    note R = reclaim_to_Some[OF assms(4) t']
    have "peek t' = peek t" using R(4) assms(2,5) by (auto simp: fun_eq_iff)
    moreover have "is_reserved t' = is_reserved t" using R(5) assms(6) True nr by (auto simp: fun_eq_iff)
    ultimately show ?thesis using t' R(6) True reclaim_to_mset[OF assms(4) t'] by (auto simp: put_back_def)
  next
    case False
    let ?t = "clear_reservation t1 slot"
    have r1: "reclaim_to t1 slot c = None" using assms(6) False nr by (simp add: reclaim_to_None[OF assms(4)])
    have wf: "ct_wf ?t" using ct_wf_clear_reservation[OF assms(4)] .
    have v: "peek ?t = (peek t)(slot := None)" "is_reserved ?t = is_reserved t"
      using clear_reservation_views[OF assms(4), of slot] assms(5,6) False nr by (auto simp: fun_eq_iff)
    obtain j t' where j: "install ?t c = Inr (j, t')" "j \<le> slot"
      by (rule install_total[OF wf assms(3), of c]) (use v nr in auto)
    note N = install_Inr[OF wf j(1)]
    have "mset (ct_iter t') = add_mset c (mset (ct_iter t1))"
      using install_mset[OF wf j(1)] by (simp add: ct_iter_def clear_reservation_def)
    moreover have "put_back t slot c t'"
      using False N(2,4,5) v j(2) by (auto simp: put_back_def split: if_splits)
    ultimately show ?thesis using r1 j(1) N(7) by (intro exI[of _ t']) simp
  qed
qed

lemma release_inv:
  assumes "ipc_inv k Q" "create_endpoint (k_endpoints k) = Some (ep, es)" "me < MAX_CORES" "k_current k ! me = Some p"
    and "lent_out k me slot es taken k1" "only_memory k1 k2"
    and "k3 = k2\<lparr>k_endpoints := release_endpoint (k_endpoints k2) ep\<rparr>"
    and "k' = (case taken of None \<Rightarrow> k3 | Some c \<Rightarrow> undo_lend k3 me slot c)"
  shows "ipc_inv k' Q" "all_caps k' = all_caps k" "k_table k' = k_table k"
    "\<exists>p'. k_current k' ! me = Some p' \<and>
      (case taken of None \<Rightarrow> p_caps p' = p_caps p | Some c \<Rightarrow> put_back (p_caps p) slot c (p_caps p'))"
proof -
  note I = ipc_inv_atD[OF assms(1)[unfolded ipc_inv_def]]
  note C = created[OF assms(1,2)]
  have wf: "ct_wf (p_caps p)" using tables_okD(2)[OF I(2) _ assms(4)] I(8) assms(3) by simp
  let ?out = "case taken of None \<Rightarrow> {#} | Some c \<Rightarrow> {#c#}"
  obtain p1 where L: "exchanges k ?out {#} k1" "k_table k1 = k_table k"
    "sched_wf k1" "tables_ok k1" "counts_ok (k_endpoints k1) (all_caps k1)"
    "\<forall>j. ep_queue (k_endpoints k1 ! j) = ep_queue (es ! j) \<and> ep_in_use (k_endpoints k1 ! j) = ep_in_use (es ! j)"
    "k_current k1 ! me = Some p1" "k_links k1 = k_links k" "k_current_slot k1 = k_current_slot k" "ct_wf (p_caps p1)"
    "case taken of None \<Rightarrow> p_caps p1 = p_caps p | Some c \<Rightarrow> slot < MAX_CAPS \<and> peek (p_caps p) slot = Some c \<and>
       peek (p_caps p1) = (peek (p_caps p))(slot := None) \<and>
       is_reserved (p_caps p1) = (if lend_reserves_home c then (is_reserved (p_caps p))(slot := True) else is_reserved (p_caps p))"
    by (rule lent_outE[OF assms(1-5)], rule that; assumption)
  have a1: "all_caps k1 + ?out = all_caps k" using exchangesD(3)[OF L(1)] by simp
  obtain m fa us where k2: "k2 = k1\<lparr>k_mem := m, k_alloc := fa, k_unmaps := us\<rparr>"
    using assms(6) by (auto simp: only_memory_def)
  let ?e3 = "(k_endpoints k1)[ep := ep_empty]"
  have sub: "refs r j (all_caps k1) \<le> refs r j (all_caps k)" for r j unfolding a1[symmetric] by simp
  have z: "refs r ep (all_caps k1) = 0" if "r \<in> {RIGHT_SEND, RIGHT_RECV}" for r using sub[of r ep] C(6)[OF that] by simp
  have len: "length (k_endpoints k1) = MAX_ENDPOINTS" using L(5) by (simp add: counts_ok_def)
  have "is_unreferenced (k_endpoints k1 ! ep)"
    using z L(5,6) C(1,5) by (simp add: counts_ok_def is_unreferenced_def ep_empty_def wq_is_empty_def wq_empty_def)
  then have e3: "k_endpoints k3 = ?e3" using C(1) by (simp add: assms(7) k2 release_endpoint_def)
  have co3: "counts_ok ?e3 (all_caps k1)"
    using L(5) z C(1) by (auto simp: counts_ok_def nth_list_update ep_empty_def)
  have k3: "k_table k3 = k_table k" "k_current k3 = k_current k1" "k_links k3 = k_links k" "k_queues k3 = k_queues k1"
    "k_current_slot k3 = k_current_slot k" "all_caps k3 = all_caps k1" "tables_ok k3"
    using L(2,4,8,9) by (simp_all add: assms(7) k2 all_caps_def tables_ok_def)
  let ?ks = "k\<lparr>k_mem := m, k_alloc := fa\<rparr>"
  have x3: "caps_only ?ks k3"
  proof -
    note A = exchangesD(1)[OF L(1), unfolded caps_only_def]
    obtain tb cu u e where "k1 = k\<lparr>k_table := tb, k_current := cu, k_unmaps := u, k_endpoints := e\<rparr>"
      using A by blast
    then have "k3 = ?ks\<lparr>k_table := tb, k_current := cu, k_unmaps := us, k_endpoints := release_endpoint e ep\<rparr>"
      by (simp add: assms(7) k2)
    moreover have v: "k_table k3 = k_table k1" "k_current k3 = k_current k1" by (simp_all add: assms(7) k2)
    ultimately show ?thesis using A unfolding caps_only_def v by simp blast
  qed
  let ?e' = "case taken of None \<Rightarrow> ?e3 | Some c \<Rightarrow> note_cap_added ?e3 c"
  have F: "caps_only ?ks k' \<and> tables_ok k' \<and> all_caps k' = all_caps k \<and> k_table k' = k_table k \<and> k_endpoints k' = ?e' \<and>
      counts_ok ?e' (all_caps k) \<and> (\<exists>p'. k_current k' ! me = Some p' \<and>
        (case taken of None \<Rightarrow> p_caps p' = p_caps p | Some c \<Rightarrow> put_back (p_caps p) slot c (p_caps p')))"
  proof (cases taken)
    case None
    then show ?thesis using x3 k3 a1 e3 co3 L(7,11) assms(8) by simp
  next
    case (Some c)
    have T: "slot < MAX_CAPS" "peek (p_caps p) slot = Some c" "peek (p_caps p1) = (peek (p_caps p))(slot := None)"
      "is_reserved (p_caps p1) = (if lend_reserves_home c then (is_reserved (p_caps p))(slot := True) else is_reserved (p_caps p))"
      using L(11) Some by simp_all
    obtain t' where t': "case reclaim_to (p_caps p1) slot c of Some (_, u) \<Rightarrow> u = t'
        | None \<Rightarrow> (case install (clear_reservation (p_caps p1) slot) c of Inr (_, u) \<Rightarrow> u = t' | Inl _ \<Rightarrow> False)"
      "ct_wf t'" "mset (ct_iter t') = add_mset c (mset (ct_iter (p_caps p1)))" "put_back (p_caps p) slot c t'"
      using undo_lend_table[OF wf T(2,1) L(10) T(3,4)] by blast
    have cur: "k_current k3 ! me = Some p1" using k3(2) L(7) by simp
    have k': "k' = note_added (with_caps k3 me p1 t') c"
      using t'(1) Some assms(8) cur
      by (auto simp: undo_lend_def Let_def split: option.splits sum.splits)
    have me: "me < length (k_current k3)" using caps_onlyD(2)[OF x3] I(8) assms(3) by simp
    have "with_caps k3 me p1 t' = k3\<lparr>k_current := (k_current k3)[me := Some (p1\<lparr>p_caps := t'\<rparr>)], k_unmaps := k_unmaps k3\<rparr>"
      by (simp add: with_caps_def set_current_def)
    note X = current_exchange[OF k3(7) me cur _ this, of "{#}" "{#c#}"]
    have E: "exchanges k3 {#} {#c#} (with_caps k3 me p1 t')" "k_table (with_caps k3 me p1 t') = k_table k3"
      "k_endpoints (with_caps k3 me p1 t') = k_endpoints k3" "k_current (with_caps k3 me p1 t') ! me = Some (p1\<lparr>p_caps := t'\<rparr>)"
      using X t'(2,3) by simp_all
    have ac: "add_mset c (all_caps k1) = all_caps k" using a1 Some by simp
    have "c \<in># all_caps k" by (subst ac[symmetric]) simp
    then have ids: "ids_ok {#c#}" using I(4) by (auto simp: ids_ok_def)
    have "counts_ok (note_cap_added ?e3 c) (all_caps k)" using counts_ok_add[OF co3 ids] ac by simp
    moreover have "caps_only ?ks k'"
      using caps_only_trans[OF caps_only_trans[OF x3 exchangesD(1)[OF E(1)]] caps_only_endpoints] by (simp add: k' note_endpoints)
    moreover have "tables_ok k'" "all_caps k' = all_caps k"
      using exchangesD(2,3)[OF E(1)] ac k3(6) by (simp_all add: k' note_endpoints)
    ultimately show ?thesis
      using Some E(2-4) e3 k3(1) t'(4) by (simp add: k' note_endpoints)
  qed
  then have F': "caps_only ?ks k'" "tables_ok k'" "all_caps k' = all_caps k" "k_endpoints k' = ?e'" "counts_ok ?e' (all_caps k)"
    by blast+
  show "all_caps k' = all_caps k" "k_table k' = k_table k"
    "\<exists>p'. k_current k' ! me = Some p' \<and>
      (case taken of None \<Rightarrow> p_caps p' = p_caps p | Some c \<Rightarrow> put_back (p_caps p) slot c (p_caps p'))"
    using F by blast+
  have q: "ep_queue (?e' ! j) = ep_queue (?e3 ! j)" "ep_in_use (?e' ! j) = ep_in_use (?e3 ! j)" for j
    by (cases taken; simp add: note_cap_added_queue)+
  have q3: "?e3 ! j = (if j = ep then ep_empty else k_endpoints k1 ! j)" for j
    using len C(1) by (simp add: nth_list_update_cases)
  show "ipc_inv k' Q"
  proof (rule inv_grow[OF assms(1)])
    have "sched_wf ?ks" using I(1) by (subst sched_wf_cong[of _ k]) simp_all
    then show "sched_wf k'" using caps_only_wf[OF F'(1)] by simp
    show "tables_ok k'" "counts_ok (k_endpoints k') (all_caps k')" "ids_ok (all_caps k')" using F' I(4) by simp_all
    show "k_links k' = k_links k" "\<And>t. is_blocked k' t = is_blocked k t"
      using caps_onlyD(11,15)[OF F'(1)] by (simp_all add: is_blocked_def)
    show "ep_queue (k_endpoints k' ! j) = ep_queue (k_endpoints k ! j) \<or>
        ep_queue (k_endpoints k' ! j) = wq_empty \<and> \<not> ep_in_use (k_endpoints k ! j)" for j
      unfolding F'(4) q q3 using C(2,4) L(6) by (simp add: ep_empty_def)
    show "ep_in_use (k_endpoints k' ! j)" if "ep_in_use (k_endpoints k ! j)" for j
      using that C(2,4) L(6) by (auto simp: F'(4) q q3)
    show "refs r j (all_caps k) \<le> refs r j (all_caps k')" for r j by (simp add: F'(3))
    show "refs r j (all_caps k') = 0"
      if "j < MAX_ENDPOINTS" "\<not> ep_in_use (k_endpoints k' ! j)" "r \<in> {RIGHT_SEND, RIGHT_RECV}" for r j
    proof (cases "j = ep")
      case True
      then show ?thesis using C(6)[OF that(3)] by (simp add: F'(3))
    next
      case False
      then have "\<not> ep_in_use (k_endpoints k ! j)" using that(2) C(4) L(6) by (simp add: F'(4) q q3)
      then show ?thesis using queues_okD(6)[OF I(5) that(1)] I(3) that(1,3) by (auto simp: F'(3) counts_ok_def)
    qed
    show "tally (reply_to t) k' = tally (reply_to t) k" for t by (simp add: F'(3))
  qed
qed

lemma spawn_scheduled_steps:
  assumes "ipc_inv k Q" "me < MAX_CORES" "k_current k ! me = Some p"
    and "create_endpoint (k_endpoints k) = Some (ep, es)"
    and taken: "taken = (if ts = ERR then None else peek (p_caps p) (unat ts))"
  obtains k1 where "lent_out k me (unat ts) es taken k1"
    "spawn_scheduled mc k me binary ts =
       (case spawn mc k1 me binary [Some \<lparr>cap_obj = Endpoint ep, cap_rights = RIGHT_SEND, cap_origin = None\<rparr>,
            map_option (recorded k1 me (unat ts)) taken] of
          None \<Rightarrow> None
        | Some (None, k2) \<Rightarrow>
            let k3 = k2\<lparr>k_endpoints := release_endpoint (k_endpoints k2) ep\<rparr> in
            Some (ERR, case taken of None \<Rightarrow> k3 | Some c \<Rightarrow> undo_lend k3 me (unat ts) c)
        | Some (Some _, k2) \<Rightarrow>
            (case k_current k2 ! me of
               None \<Rightarrow> Some (ERR, k2)
             | Some p \<Rightarrow>
                 (case mint (p_caps p) (Endpoint ep) RIGHT_RECV of
                    Inl _ \<Rightarrow> Some (ERR, k2)
                  | Inr (h, t) \<Rightarrow>
                      Some (of_nat h, note_added (with_caps k2 me p t)
                        \<lparr>cap_obj = Endpoint ep, cap_rights = RIGHT_RECV, cap_origin = None\<rparr>))))"
proof -
  note I = ipc_inv_atD[OF assms(1)[unfolded ipc_inv_def]]
  have wf: "ct_wf (p_caps p)" using tables_okD(2)[OF I(2) _ assms(3)] I(8) assms(2) by simp
  let ?k0 = "k\<lparr>k_endpoints := es\<rparr>" and ?slot = "unat ts"
  show ?thesis
  proof (cases "if ts \<noteq> ERR then revoke_from_current ?k0 me ?slot else None")
    case None
    have t: "taken = None"
    proof (cases "peek (p_caps p) ?slot")
      case (Some c)
      then obtain t where "revoke (p_caps p) ?slot = Inr (c, t)" using revoke_Some[OF wf] by blast
      then have "revoke_from_current ?k0 me ?slot \<noteq> None"
        using assms(3) by (auto simp: revoke_from_current_def revoke_and_unmap_for_lend_def revoke_and_unmap_def Let_def
            split: prod.splits if_splits)
      then show ?thesis using None taken by (auto split: if_splits)
    qed (simp add: taken)
    show ?thesis
      by (intro that[of ?k0, unfolded t])
        (use None assms(4) in \<open>simp_all add: lent_out_def spawn_scheduled_def Let_def\<close>)
  next
    case (Some a)
    obtain c k' where a: "a = (c, k')" by (cases a) auto
    have ts: "ts \<noteq> ERR" and r: "revoke_from_current ?k0 me ?slot = Some (c, k')" using Some a by (auto split: if_splits)
    have "tables_ok ?k0" "me < length (k_current ?k0)" "k_current ?k0 ! me = Some p" using I(2,8) assms(2,3) by simp_all
    from revoke_from_current_Some[OF this r] have "peek (p_caps p) ?slot = Some c" by metis
    then have t: "taken = Some c" using taken ts by simp
    show ?thesis
      by (intro that[of "note_removed k' c False", unfolded t])
        (use Some a ts r assms(4) in \<open>simp_all add: lent_out_def spawn_scheduled_def Let_def\<close>)
  qed
qed

text \<open>What a successful spawn leaves the parent and the child.\<close>

definition spawned :: "kernel \<Rightarrow> nat \<Rightarrow> capability option \<Rightarrow> nat \<Rightarrow> u64 \<Rightarrow> kernel \<Rightarrow> bool" where
  "spawned k me taken slot ret k' \<longleftrightarrow> (\<exists>pid child ep.
     pid < MAX_PROCESSES \<and> state_of k pid = Empty \<and> state_of k' pid = Ready \<and> homed k' me pid \<and>
     tf_gp (k_frames k' (sl_rsp (slot_of k' pid))) ! GP_RDI = of_nat pid \<and>
     (\<forall>u. u \<noteq> pid \<longrightarrow> slot_of k' u = slot_of k u) \<and>
     ep < MAX_ENDPOINTS \<and> \<not> ep_in_use (k_endpoints k ! ep) \<and> ep_in_use (k_endpoints k' ! ep) \<and>
     sl_process (slot_of k' pid) = Some child \<and>
     peek (p_caps child) 1 = Some \<lparr>cap_obj = Endpoint ep, cap_rights = RIGHT_SEND, cap_origin = None\<rparr> \<and>
     (\<forall>c. taken = Some c \<longrightarrow> peek (p_caps child) 2 = Some (recorded k me slot c)) \<and>
     (ret = ERR \<or> (\<exists>p'. k_current k' ! me = Some p' \<and>
        peek (p_caps p') (unat ret) = Some \<lparr>cap_obj = Endpoint ep, cap_rights = RIGHT_RECV, cap_origin = None\<rparr>)))"

lemma spawn_ends:
  assumes "ipc_inv k Q" "me < MAX_CORES" "k_current k ! me = Some p" "length binary < 2 ^ 64"
    and taken_def: "taken = (if ts = ERR then None else peek (p_caps p) (unat ts))"
  obtains (failed) k' where "spawn_scheduled mc k me binary ts = Some (ERR, k')" "ipc_inv k' Q"
      "all_caps k' = all_caps k" "k_table k' = k_table k"
      "\<exists>p'. k_current k' ! me = Some p' \<and> (case taken of None \<Rightarrow> p_caps p' = p_caps p
         | Some c \<Rightarrow> put_back (p_caps p) (unat ts) c (p_caps p'))"
  | (ok) ret k' where "spawn_scheduled mc k me binary ts = Some (ret, k')" "ipc_inv k' Q"
      "spawned k me taken (unat ts) ret k'"
proof (cases "create_endpoint (k_endpoints k)")
  case None
  have "case taken of None \<Rightarrow> p_caps p = p_caps p | Some c \<Rightarrow> put_back (p_caps p) (unat ts) c (p_caps p)"
  proof (cases taken)
    case (Some c)
    then have "peek (p_caps p) (unat ts) = Some c" by (simp add: taken_def split: if_splits)
    then have "peek (p_caps p) = (peek (p_caps p))(unat ts := Some c)" by (simp add: fun_upd_idem)
    then show ?thesis using Some by (auto simp: put_back_def intro!: exI[of _ "unat ts"])
  qed simp
  then show ?thesis using failed[of k] None assms(1,3) by (simp add: spawn_scheduled_def)
next
  case (Some a)
  obtain ep es where a: "a = (ep, es)" by (cases a) auto
  note ce = Some[unfolded a]
  note I = ipc_inv_atD[OF assms(1)[unfolded ipc_inv_def]]
  note C = created[OF assms(1) ce]
  obtain k1 where lo: "lent_out k me (unat ts) es taken k1"
    and S: "spawn_scheduled mc k me binary ts =
       (case spawn mc k1 me binary [Some \<lparr>cap_obj = Endpoint ep, cap_rights = RIGHT_SEND, cap_origin = None\<rparr>,
            map_option (recorded k1 me (unat ts)) taken] of
          None \<Rightarrow> None
        | Some (None, k2) \<Rightarrow>
            let k3 = k2\<lparr>k_endpoints := release_endpoint (k_endpoints k2) ep\<rparr> in
            Some (ERR, case taken of None \<Rightarrow> k3 | Some c \<Rightarrow> undo_lend k3 me (unat ts) c)
        | Some (Some _, k2) \<Rightarrow>
            (case k_current k2 ! me of
               None \<Rightarrow> Some (ERR, k2)
             | Some p \<Rightarrow>
                 (case mint (p_caps p) (Endpoint ep) RIGHT_RECV of
                    Inl _ \<Rightarrow> Some (ERR, k2)
                  | Inr (h, t) \<Rightarrow>
                      Some (of_nat h, note_added (with_caps k2 me p t)
                        \<lparr>cap_obj = Endpoint ep, cap_rights = RIGHT_RECV, cap_origin = None\<rparr>))))"
    by (rule spawn_scheduled_steps[OF assms(1-3) ce taken_def], rule that; assumption)
  let ?send = "\<lparr>cap_obj = Endpoint ep, cap_rights = RIGHT_SEND, cap_origin = None\<rparr>"
  let ?gs = "?send # (case taken of None \<Rightarrow> [] | Some c \<Rightarrow> [recorded k1 me (unat ts) c])"
  let ?caps = "[Some ?send, map_option (recorded k1 me (unat ts)) taken]"
  have gs: "List.map_filter id ?caps = ?gs" by (cases taken) (simp_all add: map_filter_simps)
  obtain p1 where L: "k_table k1 = k_table k" "sched_wf k1" "tables_ok k1"
    "\<forall>j. ep_queue (k_endpoints k1 ! j) = ep_queue (es ! j) \<and> ep_in_use (k_endpoints k1 ! j) = ep_in_use (es ! j)"
    "k_current k1 ! me = Some p1" "k_current_slot k1 = k_current_slot k" "ct_wf (p_caps p1)"
    by (rule lent_outE[OF assms(1) ce assms(2,3) lo], rule that; assumption)
  have room: "1 + length (List.map_filter id ?caps) \<le> MAX_CAPS" by (cases taken) (simp_all add: gs MAX_CAPS_def)
  show ?thesis
  proof (cases rule: spawn_cases[OF L(2) assms(2,4) room, where mc = mc])
    case (1 k2)
    note R = release_inv[OF assms(1) ce assms(2,3) lo 1(2) refl refl]
    show ?thesis by (rule failed[OF _ R]) (simp add: S 1(1) Let_def)
  next
    case (2 pid k2)
    have e: "state_of k1 pid = Empty" using 2(3) .
    have inv2: "ipc_inv k2 Q"
      using child_inv[OF assms(1) ce assms(2,3) lo _ 2(2) e refl] 2(4)[unfolded gs] by blast
    have np: "sl_process (slot_of k1 pid) = None" using sched_wfD(3)[OF L(2) 2(2)] e by auto
    have len: "length (k_table k1) = MAX_PROCESSES" using L(1) I(7) by simp
    obtain q where K: "state_of k2 pid = Ready" "sl_process (slot_of k2 pid) = Some q"
      "\<forall>u. u \<noteq> pid \<longrightarrow> slot_of k2 u = slot_of k1 u" "\<forall>j < length ?gs. peek (p_caps q) (1 + j) = Some (?gs ! j)"
      "homed k2 me pid" "k_current k2 = k_current k1" "k_endpoints k2 = foldl note_cap_added (k_endpoints k1) ?gs"
      "tf_gp (k_frames k2 (sl_rsp (slot_of k2 pid))) ! GP_RDI = of_nat pid"
      by (rule launchedE[OF 2(4)[unfolded gs] L(3) len 2(2) np], rule that; assumption)
    have cs: "current_slot k1 me = current_slot k me" by (simp add: current_slot_def L(6))
    have q1: "peek (p_caps q) 1 = Some ?send" using K(4)[rule_format, of 0] by simp
    have q2: "peek (p_caps q) 2 = Some (recorded k me (unat ts) c)" if "taken = Some c" for c
      using K(4)[rule_format, of 1] that by (simp add: cs numeral_2_eq_2 cong: option.case_cong)
    have use: "ep_in_use (k_endpoints k2 ! ep)" using L(4) C(5) by (simp add: K(7) grants_endpoints del: foldl_Cons)
    have sp: "spawned k me taken (unat ts) ret k3"
      if "k_table k3 = k_table k2" "k_frames k3 = k_frames k2" "k_queues k3 = k_queues k2" "ep_in_use (k_endpoints k3 ! ep)"
        "ret = ERR \<or> (\<exists>p'. k_current k3 ! me = Some p' \<and>
          peek (p_caps p') (unat ret) = Some \<lparr>cap_obj = Endpoint ep, cap_rights = RIGHT_RECV, cap_origin = None\<rparr>)" for ret k3
      unfolding spawned_def
      by (intro exI[of _ pid] exI[of _ q] exI[of _ ep])
        (use that 2(2) e K(1-3,5,8) L(1) C(1,2) q1 q2 in \<open>simp add: homed_def\<close>)
    have cur: "k_current k2 ! me = Some p1" using K(6) L(5) by simp
    show ?thesis
    proof (cases "mint (p_caps p1) (Endpoint ep) RIGHT_RECV")
      case (Inl er)
      show ?thesis
        by (rule ok[OF _ inv2 sp[of k2 ERR]]) (use use in \<open>simp_all add: S 2(1) cur Inl\<close>)
    next
      case (Inr b)
      obtain h t where b: "b = (h, t)" by (cases b) auto
      note M = mint_Inr[OF L(7) Inr[unfolded b]]
      let ?recv = "\<lparr>cap_obj = Endpoint ep, cap_rights = RIGHT_RECV, cap_origin = None\<rparr>"
      let ?k3 = "with_caps k2 me p1 t"
      note I2 = ipc_inv_atD[OF inv2[unfolded ipc_inv_def]]
      have me: "me < length (k_current k2)" using I2(8) assms(2) by simp
      have eq: "?k3 = k2\<lparr>k_current := (k_current k2)[me := Some (p1\<lparr>p_caps := t\<rparr>)], k_unmaps := k_unmaps k2\<rparr>"
        by (simp add: with_caps_def set_current_def)
      have ms: "mset (ct_iter t) = add_mset ?recv (mset (ct_iter (p_caps p1)))"
        using install_mset[OF L(7) Inr[unfolded b mint_def]] .
      note X = current_exchange[OF I2(2) me cur _ eq, of "{#}" "{#?recv#}"]
      have E: "exchanges k2 {#} {#?recv#} ?k3" "k_endpoints ?k3 = k_endpoints k2" "k_table ?k3 = k_table k2"
        "k_current ?k3 ! me = Some (p1\<lparr>p_caps := t\<rparr>)"
        using X M(5) ms by simp_all
      have inv3: "ipc_inv (note_added ?k3 ?recv) Q"
        by (rule grant_current_inv[OF inv2 E(1) _ C(1) use E(2)]) simp
      have h: "unat (of_nat h :: u64) = h" using unat_slot[OF M(6)] .
      show ?thesis
      proof (rule ok[OF _ inv3 sp])
        show "spawn_scheduled mc k me binary ts = Some (of_nat h, note_added ?k3 ?recv)" by (simp add: S 2(1) cur Inr b)
        show "ep_in_use (k_endpoints (note_added ?k3 ?recv) ! ep)"
          using use by (simp add: note_endpoints note_cap_added_queue E(2))
        show "of_nat h = ERR \<or> (\<exists>p'. k_current (note_added ?k3 ?recv) ! me = Some p' \<and>
            peek (p_caps p') (unat (of_nat h :: u64)) = Some ?recv)"
          using E(4) M(1) h by simp
      qed (simp_all add: note_endpoints E(3), simp_all add: eq)
    qed
  qed
qed

text \<open>A system with no frame left cannot make an address space, so every spawn there fails.\<close>

lemma lend_keeps_frames:
  assumes "lent_out k me slot es taken k1"
  shows "k_alloc k1 = k_alloc k"
  using assms
  by (auto simp: lent_out_def revoke_from_current_def set_current_def note_removed_def note_cap_removed_def Let_def
      split: option.splits prod.splits)

lemma frameless_spawn:
  assumes "ipc_inv k Q" "me < MAX_CORES" "k_current k ! me = Some p" "length binary < 2 ^ 64" "\<exists>e. alloc (k_alloc k) = Inl e"
  shows "\<exists>k'. spawn_scheduled mc k me binary ts = Some (ERR, k') \<and> k_table k' = k_table k"
proof (cases "create_endpoint (k_endpoints k)")
  case None
  then show ?thesis by (simp add: spawn_scheduled_def)
next
  case (Some a)
  obtain ep es where a: "a = (ep, es)" by (cases a) auto
  obtain taken where t: "taken = (if ts = ERR then None else peek (p_caps p) (unat ts))" by simp
  note ce = Some[unfolded a]
  obtain k1 where lo: "lent_out k me (unat ts) es taken k1"
    and S: "spawn_scheduled mc k me binary ts =
       (case spawn mc k1 me binary [Some \<lparr>cap_obj = Endpoint ep, cap_rights = RIGHT_SEND, cap_origin = None\<rparr>,
            map_option (recorded k1 me (unat ts)) taken] of
          None \<Rightarrow> None
        | Some (None, k2) \<Rightarrow>
            let k3 = k2\<lparr>k_endpoints := release_endpoint (k_endpoints k2) ep\<rparr> in
            Some (ERR, case taken of None \<Rightarrow> k3 | Some c \<Rightarrow> undo_lend k3 me (unat ts) c)
        | Some (Some _, k2) \<Rightarrow>
            (case k_current k2 ! me of
               None \<Rightarrow> Some (ERR, k2)
             | Some p \<Rightarrow>
                 (case mint (p_caps p) (Endpoint ep) RIGHT_RECV of
                    Inl _ \<Rightarrow> Some (ERR, k2)
                  | Inr (h, t) \<Rightarrow>
                      Some (of_nat h, note_added (with_caps k2 me p t)
                        \<lparr>cap_obj = Endpoint ep, cap_rights = RIGHT_RECV, cap_origin = None\<rparr>))))"
    by (rule spawn_scheduled_steps[OF assms(1-3) ce t], rule that; assumption)
  have fail: "spawn mc k1 me binary cs = Some (None, k1)" for cs
    using assms(5) lend_keeps_frames[OF lo]
    by (auto simp: spawn_def setup_process_def create_address_space_def split: option.splits)
  have om: "only_memory k1 k1"
    unfolding only_memory_def by (intro exI[of _ "k_mem k1"] exI[of _ "k_alloc k1"] exI[of _ "k_unmaps k1"]) simp
  show ?thesis
    using release_inv(3)[OF assms(1) ce assms(2,3) lo om refl refl] by (simp add: S fail Let_def)
qed

lemma meeting_p: "k_current meeting ! 0 = Some (proc_with [cap_of (Endpoint 0) (side True), cap_of (EventSource 1) RIGHT_READ, reply_cap 2])"
  by (simp add: meeting_with_def)

definition bare_machine :: machine where
  "bare_machine = \<lparr>mc_kernel_l4 = 0x1000, mc_kstacks = 0x800000, mc_mapper = plain_mapper\<rparr>"



text \<open>
  C28. A failed spawn gives the capability back.  If no process was made, the caller holds what it held:
  its table is as before, with no reservation left over, except that a capability of a kind that is
  not reclaimed on a lend may have moved to a lower slot that was free.
\<close>
theorem failed_spawn_restores:
  assumes "ipc_inv k Q" "me < MAX_CORES" "k_current k ! me = Some p" "length binary < 2 ^ 64"
    and "spawn_scheduled mc k me binary ts = Some (ret, k')" "k_table k' = k_table k"
  shows "ret = ERR \<and> (\<exists>p'. k_current k' ! me = Some p' \<and>
    (case if ts = ERR then None else peek (p_caps p) (unat ts) of
       None \<Rightarrow> p_caps p' = p_caps p
     | Some c \<Rightarrow> is_reserved (p_caps p') = is_reserved (p_caps p) \<and>
         (if lend_reserves_home c then peek (p_caps p') = peek (p_caps p)
          else \<exists>j \<le> unat ts. (j = unat ts \<or> peek (p_caps p) j = None) \<and>
                 peek (p_caps p') = (peek (p_caps p))(unat ts := None, j := Some c))))"
proof (rule spawn_ends[where ts = ts and mc = mc, OF assms(1-4) refl])
  fix k1
  assume "spawn_scheduled mc k me binary ts = Some (ERR, k1)" and P: "\<exists>p'. k_current k1 ! me = Some p' \<and>
    (case if ts = ERR then None else peek (p_caps p) (unat ts) of None \<Rightarrow> p_caps p' = p_caps p
       | Some c \<Rightarrow> put_back (p_caps p) (unat ts) c (p_caps p'))"
  then have "ret = ERR" "k' = k1" using assms(5) by simp_all
  then show ?thesis using P unfolding put_back_def by simp
next
  fix r k1
  assume "spawn_scheduled mc k me binary ts = Some (r, k1)"
    and "spawned k me (if ts = ERR then None else peek (p_caps p) (unat ts)) (unat ts) r k1"
  then obtain pid where "state_of k pid = Empty" "state_of k' pid = Ready" using assms(5) by (auto simp: spawned_def)
  then show ?thesis using assms(6) by simp
qed

lemma failed_spawn_restores_witness:
  "\<exists>k' p'. spawn_scheduled bare_machine meeting 0 [0x7F, 0x45] 1 = Some (ERR, k') \<and> k_current k' ! 0 = Some p' \<and>
     peek (p_caps p') 1 = Some (cap_of (EventSource 1) RIGHT_READ) \<and> \<not> is_reserved (p_caps p') 1"
proof -
  let ?p = "proc_with [cap_of (Endpoint 0) (side True), cap_of (EventSource 1) RIGHT_READ, reply_cap 2]"
  let ?c = "cap_of (EventSource 1) RIGHT_READ"
  have e: "\<exists>e. alloc (k_alloc meeting) = Inl e" by (simp add: meeting_with_def kernel_init_def alloc_def)
  obtain k' where k': "spawn_scheduled bare_machine meeting 0 [0x7F, 0x45] 1 = Some (ERR, k')" "k_table k' = k_table meeting"
    using frameless_spawn[OF meeting_inv _ meeting_p _ e, of "[0x7F, 0x45]" bare_machine 1] by (auto simp: MAX_CORES_def)
  have c: "(if (1 :: u64) = ERR then None else peek (p_caps ?p) (unat (1 :: u64))) = Some ?c" "lend_reserves_home ?c"
    by (simp_all add: ERR_def proc_with_def peek_table_with lend_reserves_home_def cap_of_def)
  have "\<exists>p'. k_current k' ! 0 = Some p' \<and> is_reserved (p_caps p') = is_reserved (p_caps ?p) \<and>
      peek (p_caps p') = peek (p_caps ?p)"
    using failed_spawn_restores[OF meeting_inv _ meeting_p _ k', unfolded c(1) option.case] c(2) by (simp add: MAX_CORES_def)
  moreover have "peek (p_caps ?p) 1 = Some ?c" "\<not> is_reserved (p_caps ?p) 1"
    by (simp_all add: proc_with_def peek_table_with, simp add: table_with_def is_reserved_nth MAX_CAPS_def)
  ultimately show ?thesis using k'(1) by auto
qed

end
