(* ===== verification/Rwfs_Bitmap.thy ===== *)
theory Rwfs_Bitmap
  imports Pool "HOL-Library.Multiset"
begin

text \<open>
  The free-space bitmap of the read-write file system (\<open>librwfs/src/bitmap.rs\<close>): one bit per
  data sector, packed LSB-first into bytes, with the number of meaningful bits passed by the
  caller.  An index past the slice would panic in the code; the range checks of \<open>alloc\<close> and
  \<open>free\<close> come first, and the lemmas below use the bits only within them.
\<close>

unbundle bit_operations_syntax

datatype bitmap_error = OutOfSpace | OutOfRange

definition bm_capacity :: "nat \<Rightarrow> nat" where "bm_capacity bytes = bytes * 8"

definition bm_bit :: "u8 list \<Rightarrow> nat \<Rightarrow> bool" where
  "bm_bit bm i \<longleftrightarrow> bm ! (i div 8) AND shl1 (i mod 8) \<noteq> 0"

definition bm_set_bit :: "u8 list \<Rightarrow> nat \<Rightarrow> bool \<Rightarrow> u8 list" where
  "bm_set_bit bm i used =
     bm[i div 8 := (if used then bm ! (i div 8) OR shl1 (i mod 8) else bm ! (i div 8) AND NOT (shl1 (i mod 8)))]"

text \<open>The scan of \<open>alloc\<close>: the start and the length of the clear run the loop is in.\<close>

fun bm_scan :: "u8 list \<Rightarrow> nat \<Rightarrow> nat list \<Rightarrow> nat \<Rightarrow> nat \<Rightarrow> nat option" where
  "bm_scan bm n [] run_start run_len = None"
| "bm_scan bm n (i # is) run_start run_len =
     (if bm_bit bm i then bm_scan bm n is (i + 1) 0
      else if run_len + 1 = n then Some run_start
      else bm_scan bm n is run_start (run_len + 1))"

definition bm_alloc :: "u8 list \<Rightarrow> nat \<Rightarrow> nat \<Rightarrow> bitmap_error + (nat \<times> u8 list)" where
  "bm_alloc bm nbits n =
     (if n = 0 \<or> n > nbits \<or> nbits > bm_capacity (length bm) then Inl OutOfRange
      else (case bm_scan bm n [0..<nbits] 0 0 of
              None \<Rightarrow> Inl OutOfSpace
            | Some s \<Rightarrow> Inr (s, foldl (\<lambda>b j. bm_set_bit b j True) bm [s..<s + n])))"

text \<open>\<open>start.checked_add(n)\<close> is on 64-bit values.\<close>

definition bm_free :: "u8 list \<Rightarrow> nat \<Rightarrow> nat \<Rightarrow> nat \<Rightarrow> bitmap_error + u8 list" where
  "bm_free bm nbits start n =
     (if nbits > bm_capacity (length bm) then Inl OutOfRange
      else if start + n \<ge> 2 ^ 64 then Inl OutOfRange
      else if start + n > nbits then Inl OutOfRange
      else Inr (foldl (\<lambda>b j. bm_set_bit b j False) bm [start..<start + n]))"

section \<open>The order of the grants does not matter\<close>

lemma disjoint_list_perm:
  assumes "mset xs = mset ys"
  shows "disjoint_list xs = disjoint_list ys"
  using assms
proof (induction xs arbitrary: ys)
  case (Cons E xs)
  have "E \<in> set ys" using mset_eq_setD[OF Cons.prems] by auto
  then obtain us vs where ys: "ys = us @ E # vs" by (meson split_list)
  then have m: "mset xs = mset (us @ vs)" using Cons.prems by simp
  have "disjoint_list ys = disjoint_list (E # us @ vs)" by (auto simp: ys disjoint_list_append)
  moreover have "set xs = set us \<union> set vs" using mset_eq_setD[OF m] by simp
  ultimately show ?case using Cons.IH[OF m] by simp
qed simp

context pool
begin

lemma accounted_perm:
  assumes "mset H = mset H'"
  shows "accounted U s H = accounted U s H'"
proof -
  have m: "mset (grants H) = mset (grants H')" using assms by (simp add: grants_def)
  show ?thesis unfolding accounted_def disjoint_list_perm[OF m] mset_eq_setD[OF m] ..
qed

end

section \<open>Bits and runs\<close>

lemma bm_bit_iff: "bm_bit bm i \<longleftrightarrow> bit (bm ! (i div 8)) (i mod 8)"
  unfolding bm_bit_def by (subst and_shl1_eq_0) simp_all

lemma bm_set_bit_length [simp]: "length (bm_set_bit bm i b) = length bm"
  by (simp add: bm_set_bit_def)

lemma div_mod_eq_iff: "i div 8 = j div 8 \<and> i mod 8 = j mod 8 \<longleftrightarrow> i = (j :: nat)"
  by (metis div_mult_mod_eq)

lemma bm_bit_set:
  assumes "i < 8 * length bm"
  shows "bm_bit (bm_set_bit bm i b) j = (if j = i then b else bm_bit bm j)"
proof -
  have "i div 8 < length bm" using assms by (simp add: div_less_iff_less_mult mult.commute)
  then have b: "bit (bm_set_bit bm i b ! (j div 8)) (j mod 8) =
      (if i div 8 = j div 8 \<and> i mod 8 = j mod 8 then b else bit (bm ! (j div 8)) (j mod 8))"
    by (cases "i div 8 = j div 8") (auto simp: bm_set_bit_def nth_list_update bit_or_shl1 bit_and_not_shl1)
  show ?thesis unfolding bm_bit_iff b div_mod_eq_iff by auto
qed

lemma bm_set_range:
  assumes "s + n \<le> 8 * length bm"
  shows "length (foldl (\<lambda>x j. bm_set_bit x j b) bm [s..<s + n]) = length bm"
    "bm_bit (foldl (\<lambda>x j. bm_set_bit x j b) bm [s..<s + n]) j = (if s \<le> j \<and> j < s + n then b else bm_bit bm j)"
proof -
  have "length (foldl (\<lambda>x j. bm_set_bit x j b) bm [s..<s + n]) = length bm \<and>
    bm_bit (foldl (\<lambda>x j. bm_set_bit x j b) bm [s..<s + n]) j = (if s \<le> j \<and> j < s + n then b else bm_bit bm j)"
    using assms
  proof (induction n)
    case (Suc n)
    then show ?case by (auto simp: bm_bit_set)
  qed auto
  then show "length (foldl (\<lambda>x j. bm_set_bit x j b) bm [s..<s + n]) = length bm"
    "bm_bit (foldl (\<lambda>x j. bm_set_bit x j b) bm [s..<s + n]) j = (if s \<le> j \<and> j < s + n then b else bm_bit bm j)"
    by blast+
qed

text \<open>The free sectors, and a run of \<open>n\<close> of them.\<close>

definition bm_avail :: "nat \<Rightarrow> u8 list \<Rightarrow> nat set" where
  "bm_avail nbits bm = {i. i < nbits \<and> \<not> bm_bit bm i}"

definition free_run :: "nat \<Rightarrow> u8 list \<Rightarrow> nat \<Rightarrow> nat \<Rightarrow> bool" where
  "free_run nbits bm n s \<longleftrightarrow> {s..<s + n} \<subseteq> bm_avail nbits bm"

text \<open>At index \<open>i\<close> the loop is in the clear run \<open>[run_start, i)\<close>, and no run ends before.\<close>

lemma bm_scan_spec:
  assumes "run_start + run_len = i" "run_len < n" "i \<le> nbits" "\<forall>j. run_start \<le> j \<and> j < i \<longrightarrow> \<not> bm_bit bm j"
    and "\<forall>s < run_start. \<not> free_run nbits bm n s"
  shows "case bm_scan bm n [i..<nbits] run_start run_len of
      None \<Rightarrow> \<forall>s. \<not> free_run nbits bm n s
    | Some s \<Rightarrow> free_run nbits bm n s \<and> (\<forall>s' < s. \<not> free_run nbits bm n s')"
  using assms
proof (induction "nbits - i" arbitrary: i run_start run_len)
  case 0
  then have "i = nbits" by simp
  have "\<not> free_run nbits bm n s" for s
  proof
    assume f: "free_run nbits bm n s"
    then have "\<not> s < run_start" using 0(6) by blast
    moreover have "s + n - 1 \<in> {s..<s + n}" using 0(3) by simp
    ultimately show False using f 0(1-4) \<open>i = nbits\<close> by (force simp: free_run_def bm_avail_def)
  qed
  then show ?case using \<open>i = nbits\<close> by simp
next
  case (Suc d)
  then have i: "[i..<nbits] = i # [Suc i..<nbits]" "i < nbits" by (simp_all add: upt_conv_Cons)
  show ?case
  proof (cases "bm_bit bm i")
    case True
    have "\<not> free_run nbits bm n s" if "s < Suc i" for s
    proof (cases "s < run_start")
      case False
      have "i \<in> {s..<s + n}" using False that Suc.prems(1,2) by auto
      then show ?thesis using True by (auto simp: free_run_def bm_avail_def)
    qed (use Suc.prems(5) in blast)
    then show ?thesis using Suc.hyps(1)[of "Suc i" "Suc i" 0] Suc.hyps(2) Suc.prems i True by (simp add: le_Suc_eq)
  next
    case False
    then have clear: "\<forall>j. run_start \<le> j \<and> j < Suc i \<longrightarrow> \<not> bm_bit bm j" using Suc.prems(4) less_Suc_eq by auto
    show ?thesis
    proof (cases "run_len + 1 = n")
      case True
      then have "free_run nbits bm n run_start" using clear Suc.prems(1) i(2) by (auto simp: free_run_def bm_avail_def)
      then show ?thesis using True False i(1) Suc.prems(5) by simp
    next
      case more: False
      then show ?thesis
        using Suc.hyps(1)[of "Suc i" run_start "run_len + 1"] Suc.hyps(2) Suc.prems clear i False by simp
    qed
  qed
qed

lemma bm_alloc_cases:
  assumes "bm_alloc bm nbits n = r"
  shows "case r of
      Inr (s, bm') \<Rightarrow> 0 < n \<and> nbits \<le> 8 * length bm \<and> free_run nbits bm n s \<and> (\<forall>s' < s. \<not> free_run nbits bm n s') \<and>
        length bm' = length bm \<and> (\<forall>j. bm_bit bm' j \<longleftrightarrow> bm_bit bm j \<or> j \<in> {s..<s + n})
    | Inl OutOfSpace \<Rightarrow> 0 < n \<and> n \<le> nbits \<and> nbits \<le> 8 * length bm \<and> (\<forall>s. \<not> free_run nbits bm n s)
    | Inl OutOfRange \<Rightarrow> n = 0 \<or> n > nbits \<or> nbits > 8 * length bm"
proof (cases "n = 0 \<or> n > nbits \<or> nbits > bm_capacity (length bm)")
  case True
  then show ?thesis using assms by (auto simp: bm_alloc_def bm_capacity_def)
next
  case False
  then have g: "0 < n" "n \<le> nbits" "nbits \<le> 8 * length bm" by (simp_all add: bm_capacity_def)
  note S = bm_scan_spec[of 0 0 0 n nbits bm]
  show ?thesis
  proof (cases "bm_scan bm n [0..<nbits] 0 0")
    case None
    then show ?thesis using assms False g S by (auto simp: bm_alloc_def)
  next
    case (Some s)
    then have f: "free_run nbits bm n s" "\<forall>s' < s. \<not> free_run nbits bm n s'" using S g by simp_all
    have "s + n - 1 \<in> {s..<s + n}" using g(1) by simp
    then have "s + n \<le> nbits" using f(1) by (force simp: free_run_def bm_avail_def)
    then have "s + n \<le> 8 * length bm" using g(3) by simp
    note M = bm_set_range[OF this, of True]
    have "r = Inr (s, foldl (\<lambda>b j. bm_set_bit b j True) bm [s..<s + n])" using assms False Some by (simp add: bm_alloc_def)
    then show ?thesis using M f g by (auto split: if_splits)
  qed
qed

lemma bm_free_cases:
  assumes "bm_free bm nbits s n = r" "8 * length bm < 2 ^ 64"
  shows "case r of
      Inr bm' \<Rightarrow> nbits \<le> 8 * length bm \<and> s + n \<le> nbits \<and> length bm' = length bm \<and>
        (\<forall>j. bm_bit bm' j \<longleftrightarrow> bm_bit bm j \<and> j \<notin> {s..<s + n})
    | Inl e \<Rightarrow> e = OutOfRange \<and> (nbits > 8 * length bm \<or> s + n > nbits)"
proof (cases "nbits \<le> 8 * length bm \<and> s + n \<le> nbits")
  case True
  note M = bm_set_range[of s n bm False]
  have "r = Inr (foldl (\<lambda>b j. bm_set_bit b j False) bm [s..<s + n])"
    using True assms by (auto simp: bm_free_def bm_capacity_def)
  then show ?thesis using True M by auto
qed (use assms in \<open>auto simp: bm_free_def bm_capacity_def\<close>)

text \<open>
  First fit.  Allocation returns the lowest start of a run of \<open>n\<close> clear bits below the bit count
  and sets exactly that run; it reports no space exactly when there is no such run, and rejects an
  empty request, one beyond the bit count and a bit count beyond the slice.  Padding bits past the
  bit count are never touched.
\<close>
lemma bitmap_first_fit:
  "case bm_alloc bm nbits n of
      Inr (s, bm') \<Rightarrow> free_run nbits bm n s \<and> (\<forall>s' < s. \<not> free_run nbits bm n s') \<and> length bm' = length bm \<and>
        (\<forall>j. bm_bit bm' j \<longleftrightarrow> bm_bit bm j \<or> s \<le> j \<and> j < s + n) \<and> (\<forall>j \<ge> nbits. bm_bit bm' j = bm_bit bm j)
    | Inl OutOfSpace \<Rightarrow> 0 < n \<and> n \<le> nbits \<and> nbits \<le> 8 * length bm \<and> (\<forall>s. \<not> free_run nbits bm n s)
    | Inl OutOfRange \<Rightarrow> n = 0 \<or> n > nbits \<or> nbits > 8 * length bm"
proof (cases "bm_alloc bm nbits n")
  case (Inl e)
  then show ?thesis using bm_alloc_cases[OF Inl] by (cases e) simp_all
next
  case (Inr a)
  obtain s bm' where a: "a = (s, bm')" by (cases a) auto
  note C = bm_alloc_cases[OF Inr[unfolded a]]
  then have "s \<le> j \<and> j < s + n \<Longrightarrow> j < nbits" for j by (auto simp: free_run_def bm_avail_def)
  then show ?thesis using C by (fastforce simp: Inr a)
qed

lemma bitmap_first_fit_witness:
  "bm_alloc [0x03, 0x00] 10 3 = Inr (2, [0x1F, 0x00]) \<and> \<not> free_run 10 [0x03, 0x00] 3 1"
proof -
  have a: "bm_alloc [0x03, 0x00] 10 3 = Inr (2, [0x1F, 0x00])"
    by (simp add: bm_alloc_def bm_capacity_def bm_bit_def bm_set_bit_def shl1_def upt_rec)
  then show ?thesis using bitmap_first_fit[of 3 10 "[0x03, 0x00]"] by simp
qed

section \<open>The bitmap as a pool of sectors\<close>

definition bm_extent :: "nat \<Rightarrow> nat \<Rightarrow> nat set" where "bm_extent n s = {s..<s + n}"

definition bm_acquire :: "nat \<Rightarrow> u8 list \<Rightarrow> nat \<Rightarrow> (nat \<times> u8 list) option" where
  "bm_acquire nbits bm n = (case bm_alloc bm nbits n of Inl _ \<Rightarrow> None | Inr r \<Rightarrow> Some r)"

definition bm_give_back :: "nat \<Rightarrow> u8 list \<Rightarrow> nat \<Rightarrow> nat \<Rightarrow> u8 list option" where
  "bm_give_back nbits bm n s = (case bm_free bm nbits s n of Inl _ \<Rightarrow> None | Inr bm' \<Rightarrow> Some bm')"

definition bm_wf :: "nat \<Rightarrow> u8 list \<Rightarrow> bool" where
  "bm_wf nbits bm \<longleftrightarrow> nbits \<le> 8 * length bm \<and> 8 * length bm < 2 ^ 64"

interpretation sectors: pool "bm_wf nbits" "bm_avail nbits" bm_extent "bm_acquire nbits" "bm_give_back nbits" for nbits
proof unfold_locales
  fix bm :: "u8 list" and n s bm'
  assume ok: "bm_wf nbits bm" and "bm_acquire nbits bm n = Some (s, bm')"
  then have "bm_alloc bm nbits n = Inr (s, bm')" by (auto simp: bm_acquire_def split: sum.splits)
  from bm_alloc_cases[OF this] show "bm_wf nbits bm' \<and> bm_extent n s \<subseteq> bm_avail nbits bm \<and>
      bm_avail nbits bm' = bm_avail nbits bm - bm_extent n s"
    using ok by (auto simp: bm_wf_def bm_extent_def bm_avail_def free_run_def)
next
  fix bm :: "u8 list" and n s bm'
  assume ok: "bm_wf nbits bm" and "bm_give_back nbits bm n s = Some bm'"
  then have "bm_free bm nbits s n = Inr bm'" by (auto simp: bm_give_back_def split: sum.splits)
  from bm_free_cases[OF this] ok have F: "nbits \<le> 8 * length bm" "s + n \<le> nbits" "length bm' = length bm"
    "\<forall>j. bm_bit bm' j \<longleftrightarrow> bm_bit bm j \<and> j \<notin> {s..<s + n}" by (simp_all add: bm_wf_def)
  have "bm_avail nbits bm' = bm_avail nbits bm \<union> bm_extent n s"
    by (rule set_eqI) (use F(2) in \<open>auto simp: F(4) bm_extent_def bm_avail_def\<close>)
  then show "bm_wf nbits bm' \<and> bm_avail nbits bm' = bm_avail nbits bm \<union> bm_extent n s"
    using ok by (simp add: F(3) bm_wf_def)
qed

text \<open>What is held can be given back, and giving back restores the bits exactly.\<close>

lemma bm_free_held:
  assumes "sectors.accounted nbits {..<nbits} bm H" "(n, s) \<in> set H" "0 < n"
  obtains bm' where "bm_free bm nbits s n = Inr bm'" "sectors.accounted nbits {..<nbits} bm' (remove1 (n, s) H)"
    "length bm' = length bm" "\<forall>j. bm_bit bm' j \<longleftrightarrow> bm_bit bm j \<and> j \<notin> {s..<s + n}"
proof -
  note I = sectors.accountedD[OF assms(1)]
  have "{s..<s + n} \<in> set (sectors.grants H)" using assms(2) by (force simp: sectors.grants_def bm_extent_def)
  then have "{s..<s + n} \<subseteq> {..<nbits}" using I(4) by blast
  then have "s + n \<le> nbits" using assms(3) by (auto simp: subset_iff dest!: spec[of _ "s + n - 1"])
  then obtain bm' where f: "bm_free bm nbits s n = Inr bm'"
    using I(1) by (auto simp: bm_wf_def bm_free_def bm_capacity_def)
  show ?thesis
    using that[OF f] sectors.give_back_accounted[OF assms(1,2), of bm'] bm_free_cases[OF f] I(1) f
    by (auto simp: bm_give_back_def bm_wf_def)
qed

text \<open>Bitmaps with the same bits are the same bytes.\<close>

lemma bitmap_eqI:
  assumes "length bm = length bm'" "\<And>j. j < 8 * length bm \<Longrightarrow> bm_bit bm j = bm_bit bm' j"
  shows "bm = bm'"
proof (rule nth_equalityI[OF assms(1)])
  fix i assume i: "i < length bm"
  show "bm ! i = bm' ! i"
  proof (rule bit_word_eqI)
    fix k assume "k < LENGTH(8)"
    then have "i * 8 + k < 8 * length bm" "(i * 8 + k) div 8 = i" "(i * 8 + k) mod 8 = k" using i by auto
    then show "bit (bm ! i) k = bit (bm' ! i) k" using assms(2)[of "i * 8 + k"] by (simp add: bm_bit_iff)
  qed
qed

end
