(* ===== verification/Rwfs_Directory.thy ===== *)
theory Rwfs_Directory
  imports Prelude "HOL-Library.Multiset"
begin

text \<open>
  The directory of the read-write file system (\<open>librwfs/src/directory.rs\<close>): packed 40-byte
  records over a byte slice, a NUL-padded name of 32 bytes, the first sector and the length.  A
  record whose name starts with NUL is free.  The abstract view is a map from names to entries.
\<close>

definition ENTRY_SIZE :: nat where "ENTRY_SIZE = 40"
definition NAME_LEN :: nat where "NAME_LEN = 32"
definition E_FIRST_SECTOR :: nat where "E_FIRST_SECTOR = 32"
definition E_BYTE_LEN :: nat where "E_BYTE_LEN = 36"

lemmas dir_layout = ENTRY_SIZE_def NAME_LEN_def E_FIRST_SECTOR_def E_BYTE_LEN_def

datatype dir_error = Full | NotFound | Duplicate | InvalidName

record dir_entry =
  first_sector :: u32
  byte_len :: u32

definition sector_count :: "dir_entry \<Rightarrow> nat" where
  "sector_count e = div_ceil (unat (byte_len e)) 512"

definition dir_capacity :: "nat \<Rightarrow> nat" where "dir_capacity bytes = bytes div ENTRY_SIZE"

definition name_field :: "u8 list \<Rightarrow> u8 list" where "name_field rec = take NAME_LEN rec"

definition name_eq :: "u8 list \<Rightarrow> u8 list \<Rightarrow> bool" where
  "name_eq field name \<longleftrightarrow>
     take (case position (\<lambda>b. b = 0) field of None \<Rightarrow> length field | Some i \<Rightarrow> i) field = name"

definition is_free_rec :: "u8 list \<Rightarrow> bool" where "is_free_rec field \<longleftrightarrow> field ! 0 = 0"

definition dir_slot :: "u8 list \<Rightarrow> nat \<Rightarrow> u8 list" where
  "dir_slot dir i = take ENTRY_SIZE (drop (i * ENTRY_SIZE) dir)"

text \<open>\<open>copy_from_slice\<close> at an offset; the target range is inside the buffer at every use.\<close>

definition copy_at :: "'a list \<Rightarrow> nat \<Rightarrow> 'a list \<Rightarrow> 'a list" where
  "copy_at b off xs = take off b @ xs @ drop (off + length xs) b"

text \<open>The little-endian read of a field, total on a 40-byte record.\<close>

definition rec_u32 :: "u8 list \<Rightarrow> nat \<Rightarrow> u32" where
  "rec_u32 rec off = of_nat (le_nat (take 4 (drop off rec)))"

definition entry_of :: "u8 list \<Rightarrow> dir_entry" where
  "entry_of rec = \<lparr>first_sector = rec_u32 rec E_FIRST_SECTOR, byte_len = rec_u32 rec E_BYTE_LEN\<rparr>"

text \<open>The records, and the search of \<open>find\<close> and \<open>remove\<close>.\<close>

definition dir_recs :: "u8 list \<Rightarrow> u8 list list" where
  "dir_recs dir = map (dir_slot dir) [0..<dir_capacity (length dir)]"

definition dir_matches :: "u8 list \<Rightarrow> u8 list \<Rightarrow> bool" where
  "dir_matches name rec \<longleftrightarrow> \<not> is_free_rec rec \<and> name_eq (name_field rec) name"

definition dir_find :: "u8 list \<Rightarrow> u8 list \<Rightarrow> dir_error + dir_entry" where
  "dir_find dir name =
     (case position (dir_matches name) (dir_recs dir) of
        None \<Rightarrow> Inl NotFound
      | Some i \<Rightarrow> Inr (entry_of (dir_slot dir i)))"

definition new_record :: "u8 list \<Rightarrow> u32 \<Rightarrow> u32 \<Rightarrow> u8 list" where
  "new_record name sector len =
     copy_at (copy_at (copy_at (replicate ENTRY_SIZE 0) 0 name)
       E_FIRST_SECTOR (le_bytes 4 (unat sector))) E_BYTE_LEN (le_bytes 4 (unat len))"

definition dir_create :: "u8 list \<Rightarrow> u8 list \<Rightarrow> u32 \<Rightarrow> u32 \<Rightarrow> dir_error + u8 list" where
  "dir_create dir name sector len =
     (if name = [] \<or> length name > NAME_LEN then Inl InvalidName
      else (case dir_find dir name of
              Inr _ \<Rightarrow> Inl Duplicate
            | Inl _ \<Rightarrow>
                (case position is_free_rec (dir_recs dir) of
                   None \<Rightarrow> Inl Full
                 | Some i \<Rightarrow> Inr (copy_at dir (i * ENTRY_SIZE) (new_record name sector len)))))"

definition dir_remove :: "u8 list \<Rightarrow> u8 list \<Rightarrow> dir_error + (dir_entry \<times> u8 list)" where
  "dir_remove dir name =
     (case position (dir_matches name) (dir_recs dir) of
        None \<Rightarrow> Inl NotFound
      | Some i \<Rightarrow> Inr (entry_of (dir_slot dir i), copy_at dir (i * ENTRY_SIZE) (replicate ENTRY_SIZE 0)))"

section \<open>Copying\<close>

lemma copy_at_length [simp]: "off + length xs \<le> length b \<Longrightarrow> length (copy_at b off xs) = length b"
  by (simp add: copy_at_def)

lemma copy_at_nth:
  assumes "off + length xs \<le> length b" "i < length b"
  shows "copy_at b off xs ! i = (if off \<le> i \<and> i < off + length xs then xs ! (i - off) else b ! i)"
  using assms by (auto simp: copy_at_def nth_append min_def)

lemma copy_at_slice:
  assumes "off + length xs \<le> length b"
  shows "take (length xs) (drop off (copy_at b off xs)) = xs"
    "o' + n \<le> off \<or> off + length xs \<le> o' \<Longrightarrow> take n (drop o' (copy_at b off xs)) = take n (drop o' b)"
proof -
  show "take (length xs) (drop off (copy_at b off xs)) = xs" using assms by (simp add: copy_at_def)
  assume "o' + n \<le> off \<or> off + length xs \<le> o'"
  then show "take n (drop o' (copy_at b off xs)) = take n (drop o' b)"
    using assms by (intro nth_equalityI) (auto simp: copy_at_nth)
qed

lemma copy_at_same: "off + length xs \<le> length b \<Longrightarrow> take (length xs) (drop off b) = xs \<Longrightarrow> copy_at b off xs = b"
  by (metis append_take_drop_id copy_at_def drop_drop add.commute)

lemma copy_at_twice:
  "off + length xs \<le> length b \<Longrightarrow> length ys = length xs \<Longrightarrow> copy_at (copy_at b off xs) off ys = copy_at b off ys"
  by (rule nth_equalityI) (simp_all add: copy_at_nth)

text \<open>Replacing one record of the directory.\<close>

lemma dir_recs_length [simp]: "length (dir_recs dir) = dir_capacity (length dir)"
  by (simp add: dir_recs_def)

lemma dir_recs_nth: "i < dir_capacity (length dir) \<Longrightarrow> dir_recs dir ! i = dir_slot dir i"
  by (simp add: dir_recs_def)

lemma slot_in: "i < dir_capacity n \<Longrightarrow> i * ENTRY_SIZE + ENTRY_SIZE \<le> n"
  by (auto simp: dir_capacity_def ENTRY_SIZE_def)

lemma dir_slot_length: "i < dir_capacity (length dir) \<Longrightarrow> length (dir_slot dir i) = ENTRY_SIZE"
  using slot_in[of i "length dir"] by (simp add: dir_slot_def)

lemma dir_recs_copy:
  assumes "i < dir_capacity (length dir)" "length r = ENTRY_SIZE"
  shows "dir_recs (copy_at dir (i * ENTRY_SIZE) r) = (dir_recs dir)[i := r]"
    "length (copy_at dir (i * ENTRY_SIZE) r) = length dir"
proof -
  have fit: "i * ENTRY_SIZE + length r \<le> length dir" using slot_in[OF assms(1)] assms(2) by simp
  show len: "length (copy_at dir (i * ENTRY_SIZE) r) = length dir" using fit by simp
  show "dir_recs (copy_at dir (i * ENTRY_SIZE) r) = (dir_recs dir)[i := r]"
  proof (rule nth_equalityI)
    fix j assume "j < length (dir_recs (copy_at dir (i * ENTRY_SIZE) r))"
    then have j: "j < dir_capacity (length dir)" by (simp add: len)
    show "dir_recs (copy_at dir (i * ENTRY_SIZE) r) ! j = (dir_recs dir)[i := r] ! j"
    proof (cases "j = i")
      case True
      then show ?thesis
        using j copy_at_slice(1)[OF fit] assms(2) by (simp add: dir_recs_nth len dir_slot_def)
    next
      case False
      then have "Suc j \<le> i \<or> Suc i \<le> j" by auto
      then have "Suc j * ENTRY_SIZE \<le> i * ENTRY_SIZE \<or> Suc i * ENTRY_SIZE \<le> j * ENTRY_SIZE"
        using mult_le_mono1 by blast
      then show ?thesis
        using j False copy_at_slice(2)[OF fit, of "j * ENTRY_SIZE" ENTRY_SIZE] assms(2)
        by (simp add: dir_recs_nth len dir_slot_def add.commute)
    qed
  qed (simp add: len)
qed

section \<open>The directory as a map\<close>

definition rec_name :: "u8 list \<Rightarrow> u8 list" where
  "rec_name rec = takeWhile (\<lambda>b. b \<noteq> 0) (name_field rec)"

definition dir_list :: "u8 list \<Rightarrow> (u8 list \<times> dir_entry) list" where
  "dir_list dir = map (\<lambda>r. (rec_name r, entry_of r)) (filter (\<lambda>r. \<not> is_free_rec r) (dir_recs dir))"

definition dir_map :: "u8 list \<Rightarrow> u8 list \<rightharpoonup> dir_entry" where
  "dir_map dir = map_of (dir_list dir)"

text \<open>Names are distinct, and the free records are zero.\<close>

definition dir_wf :: "u8 list \<Rightarrow> bool" where
  "dir_wf dir \<longleftrightarrow> distinct (map fst (dir_list dir)) \<and>
     (\<forall>r \<in> set (dir_recs dir). is_free_rec r \<longrightarrow> r = replicate ENTRY_SIZE 0)"

lemma take_position: "take (case position P xs of None \<Rightarrow> length xs | Some i \<Rightarrow> i) xs = takeWhile (\<lambda>x. \<not> P x) xs"
  by (induction xs) (auto split: option.splits)

lemma dir_matches_iff: "dir_matches name r \<longleftrightarrow> \<not> is_free_rec r \<and> rec_name r = name"
  using take_position[where P = "\<lambda>b. b = 0" and xs = "name_field r"] by (simp add: dir_matches_def name_eq_def rec_name_def)

lemma map_of_filter_position:
  "map_of (map (\<lambda>r. (f r, g r)) (filter P rs)) n =
     (case position (\<lambda>r. P r \<and> f r = n) rs of None \<Rightarrow> None | Some i \<Rightarrow> Some (g (rs ! i)))"
  by (induction rs) (auto split: option.splits)

lemma dir_matches_fun: "dir_matches name = (\<lambda>r. \<not> is_free_rec r \<and> rec_name r = name)"
  by (rule ext) (simp add: dir_matches_iff)

lemma dir_map_position:
  "dir_map dir name = (case position (dir_matches name) (dir_recs dir) of
     None \<Rightarrow> None | Some i \<Rightarrow> Some (entry_of (dir_slot dir i)))"
proof (cases "position (dir_matches name) (dir_recs dir)")
  case (Some i)
  then show ?thesis
    using position_SomeD(1)[OF Some]
    by (simp add: dir_map_def dir_list_def map_of_filter_position dir_matches_fun dir_recs_nth)
qed (simp add: dir_map_def dir_list_def map_of_filter_position dir_matches_fun)

lemma dir_find_map: "dir_find dir name = (case dir_map dir name of None \<Rightarrow> Inl NotFound | Some e \<Rightarrow> Inr e)"
  by (simp add: dir_find_def dir_map_position split: option.splits)

text \<open>Replacing a record changes the list of entries by one.\<close>

lemma mset_filter_update:
  assumes "i < length rs"
  shows "mset (filter P (rs[i := r])) + (if P (rs ! i) then {#rs ! i#} else {#}) =
     mset (filter P rs) + (if P r then {#r#} else {#})"
proof -
  have "add_mset (rs ! i) (mset (rs[i := r])) = add_mset r (mset rs)"
    using assms by (simp add: mset_update)
  then have "filter_mset P (add_mset (rs ! i) (mset (rs[i := r]))) = filter_mset P (add_mset r (mset rs))" by simp
  then show ?thesis by (simp split: if_splits)
qed

lemma dir_list_update:
  assumes "i < dir_capacity (length dir)" "length r = ENTRY_SIZE"
  shows "mset (dir_list (copy_at dir (i * ENTRY_SIZE) r)) +
      (if is_free_rec (dir_slot dir i) then {#} else {#(rec_name (dir_slot dir i), entry_of (dir_slot dir i))#}) =
    mset (dir_list dir) + (if is_free_rec r then {#} else {#(rec_name r, entry_of r)#})"
proof -
  have i: "i < length (dir_recs dir)" using assms(1) by simp
  let ?e = "\<lambda>r. (rec_name r, entry_of r)"
  have "image_mset ?e (mset (filter (\<lambda>r. \<not> is_free_rec r) ((dir_recs dir)[i := r])) +
        (if \<not> is_free_rec (dir_recs dir ! i) then {#dir_recs dir ! i#} else {#})) =
      image_mset ?e (mset (filter (\<lambda>r. \<not> is_free_rec r) (dir_recs dir)) + (if \<not> is_free_rec r then {#r#} else {#}))"
    by (rule arg_cong[OF mset_filter_update[OF i]])
  then show ?thesis
    using assms(1) by (simp add: dir_list_def dir_recs_copy(1)[OF assms] dir_recs_nth split: if_splits)
qed

text \<open>A name the directory stores faithfully.\<close>

definition plain_name :: "u8 list \<Rightarrow> bool" where
  "plain_name name \<longleftrightarrow> name \<noteq> [] \<and> length name \<le> NAME_LEN \<and> 0 \<notin> set name"

lemma new_record_length [simp]: "length name \<le> NAME_LEN \<Longrightarrow> length (new_record name s l) = ENTRY_SIZE"
  by (simp add: new_record_def dir_layout)

lemma le_nat_u32: "of_nat (le_nat (le_bytes 4 (unat (w :: u32)))) = w"
  using unat_u32_less[of w] by (simp add: le_nat_le_bytes)

lemma new_record_entry:
  assumes "length name \<le> NAME_LEN"
  shows "entry_of (new_record name s l) = \<lparr>first_sector = s, byte_len = l\<rparr>"
    "name_field (new_record name s l) = name @ replicate (NAME_LEN - length name) 0"
proof -
  let ?r1 = "copy_at (replicate ENTRY_SIZE 0) 0 name :: u8 list"
  let ?r2 = "copy_at ?r1 E_FIRST_SECTOR (le_bytes 4 (unat s))"
  have l: "length ?r1 = ENTRY_SIZE" "length ?r2 = ENTRY_SIZE" using assms by (simp_all add: dir_layout)
  have r: "new_record name s l = copy_at ?r2 E_BYTE_LEN (le_bytes 4 (unat l))" by (simp add: new_record_def)
  have "rec_u32 (new_record name s l) E_BYTE_LEN = l"
    unfolding r rec_u32_def
    using copy_at_slice(1)[of E_BYTE_LEN "le_bytes 4 (unat l)" ?r2] l by (simp add: dir_layout le_nat_u32)
  moreover have "rec_u32 (new_record name s l) E_FIRST_SECTOR = s"
    unfolding r rec_u32_def
    using copy_at_slice(2)[of E_BYTE_LEN "le_bytes 4 (unat l)" ?r2 E_FIRST_SECTOR 4]
      copy_at_slice(1)[of E_FIRST_SECTOR "le_bytes 4 (unat s)" ?r1] l by (simp add: dir_layout le_nat_u32)
  ultimately show "entry_of (new_record name s l) = \<lparr>first_sector = s, byte_len = l\<rparr>" by (simp add: entry_of_def)
  have "take NAME_LEN (new_record name s l) = take NAME_LEN ?r1"
    unfolding r
    using copy_at_slice(2)[of E_BYTE_LEN "le_bytes 4 (unat l)" ?r2 0 NAME_LEN]
      copy_at_slice(2)[of E_FIRST_SECTOR "le_bytes 4 (unat s)" ?r1 0 NAME_LEN] l by (simp add: dir_layout)
  then show "name_field (new_record name s l) = name @ replicate (NAME_LEN - length name) 0"
    using assms by (simp add: name_field_def copy_at_def dir_layout)
qed

lemma takeWhile_stop: "\<not> P x \<Longrightarrow> \<forall>y \<in> set xs. P y \<Longrightarrow> takeWhile P (xs @ replicate n x) = xs"
  by (cases n) simp_all

lemma new_record_name:
  assumes "plain_name name"
  shows "rec_name (new_record name s l) = name" "\<not> is_free_rec (new_record name s l)"
proof -
  have n: "length name \<le> NAME_LEN" "name \<noteq> []" "0 \<notin> set name" using assms by (simp_all add: plain_name_def)
  show "rec_name (new_record name s l) = name"
    unfolding rec_name_def new_record_entry(2)[OF n(1)] by (rule takeWhile_stop) (use n(3) in auto)
  have "new_record name s l ! 0 = name_field (new_record name s l) ! 0" by (simp add: name_field_def NAME_LEN_def)
  also have "\<dots> = hd name" using n(2) by (simp add: new_record_entry(2)[OF n(1)] nth_append hd_conv_nth)
  moreover have "hd name \<noteq> 0" using n(3) hd_in_set[OF n(2)] by metis
  ultimately show "\<not> is_free_rec (new_record name s l)" by (simp add: is_free_rec_def)
qed

section \<open>The operations on the map\<close>

lemma dir_create_Inr:
  assumes "dir_create dir name s l = Inr dir'"
  obtains i where "name \<noteq> []" "length name \<le> NAME_LEN" "dir_map dir name = None" "i < dir_capacity (length dir)"
    "is_free_rec (dir_slot dir i)" "dir' = copy_at dir (i * ENTRY_SIZE) (new_record name s l)"
proof -
  have g: "name \<noteq> []" "length name \<le> NAME_LEN" using assms by (auto simp: dir_create_def split: if_splits)
  have n: "dir_map dir name = None"
    using assms g by (cases "dir_map dir name") (auto simp: dir_create_def dir_find_map)
  then obtain i where i: "position is_free_rec (dir_recs dir) = Some i"
    "dir' = copy_at dir (i * ENTRY_SIZE) (new_record name s l)"
    using assms g by (auto simp: dir_create_def dir_find_map split: option.splits if_splits)
  show ?thesis
    using that[OF g n _ _ i(2)] position_SomeD(1,2)[OF i(1)] by (simp add: dir_recs_nth)
qed

lemma dir_remove_Inr:
  assumes "dir_remove dir name = Inr (e, dir')"
  obtains i where "i < dir_capacity (length dir)" "\<not> is_free_rec (dir_slot dir i)" "rec_name (dir_slot dir i) = name"
    "e = entry_of (dir_slot dir i)" "dir_map dir name = Some e"
    "dir' = copy_at dir (i * ENTRY_SIZE) (replicate ENTRY_SIZE 0)"
proof -
  obtain i where i: "position (dir_matches name) (dir_recs dir) = Some i"
    using assms by (auto simp: dir_remove_def split: option.splits)
  note P = position_SomeD(1,2)[OF i]
  show ?thesis
    by (rule that[of i]) (use P assms i in \<open>auto simp: dir_remove_def dir_recs_nth dir_matches_iff dir_map_position\<close>)
qed

lemma dir_created:
  assumes "dir_wf dir" "dir_create dir name s l = Inr dir'" "plain_name name"
  shows "dir_wf dir'" "length dir' = length dir" "mset (dir_list dir') = add_mset (name, \<lparr>first_sector = s, byte_len = l\<rparr>) (mset (dir_list dir))"
    "dir_map dir' = (dir_map dir)(name \<mapsto> \<lparr>first_sector = s, byte_len = l\<rparr>)"
proof -
  let ?e = "\<lparr>first_sector = s, byte_len = l\<rparr>" and ?r = "new_record name s l"
  obtain i where D: "name \<noteq> []" "length name \<le> NAME_LEN" "dir_map dir name = None" "i < dir_capacity (length dir)"
    "is_free_rec (dir_slot dir i)" "dir' = copy_at dir (i * ENTRY_SIZE) ?r"
    using dir_create_Inr[OF assms(2)] by metis
  have rl: "length ?r = ENTRY_SIZE" using D(2) by simp
  note U = dir_list_update[OF D(4) rl] and C = dir_recs_copy[OF D(4) rl] and N = new_record_name[OF assms(3)]
  show len: "length dir' = length dir" using C(2) by (simp add: D(6))
  show m: "mset (dir_list dir') = add_mset (name, ?e) (mset (dir_list dir))"
    using U D(5) N new_record_entry(1)[OF D(2)] by (simp add: D(6))
  then have m': "mset (map fst (dir_list dir')) = mset (map fst ((name, ?e) # dir_list dir))" by simp
  have d: "distinct (map fst ((name, ?e) # dir_list dir))"
    using assms(1) D(3) by (simp add: dir_wf_def dir_map_def map_of_eq_None_iff)
  then have d': "distinct (map fst (dir_list dir'))" using m' mset_eq_imp_distinct_iff by blast
  have "r = replicate ENTRY_SIZE 0" if "r \<in> set (dir_recs dir')" "is_free_rec r" for r
  proof -
    have "r \<in> insert ?r (set (dir_recs dir))" using that(1) C(1) D(6) set_update_subset_insert by fastforce
    then show ?thesis using that(2) N(2) assms(1) by (auto simp: dir_wf_def)
  qed
  then show "dir_wf dir'" using d' by (simp add: dir_wf_def)
  have "set (dir_list dir') = set ((name, ?e) # dir_list dir)" using arg_cong[OF m, of set_mset] by simp
  then have "map_of (dir_list dir') = map_of ((name, ?e) # dir_list dir)" using map_of_inject_set[OF d' d] by blast
  then show "dir_map dir' = (dir_map dir)(name \<mapsto> ?e)" by (simp add: dir_map_def)
qed

lemma dir_removed:
  assumes "dir_wf dir" "dir_remove dir name = Inr (e, dir')"
  shows "dir_wf dir'" "length dir' = length dir" "mset (dir_list dir) = add_mset (name, e) (mset (dir_list dir'))"
    "dir_map dir name = Some e" "dir_map dir' = (dir_map dir)(name := None)"
proof -
  let ?r = "replicate ENTRY_SIZE 0 :: u8 list"
  obtain i where D: "i < dir_capacity (length dir)" "\<not> is_free_rec (dir_slot dir i)" "rec_name (dir_slot dir i) = name"
    "e = entry_of (dir_slot dir i)" "dir_map dir name = Some e" "dir' = copy_at dir (i * ENTRY_SIZE) ?r"
    using dir_remove_Inr[OF assms(2)] by metis
  have z: "is_free_rec ?r" by (simp add: is_free_rec_def ENTRY_SIZE_def)
  note U = dir_list_update[OF D(1), of ?r] and C = dir_recs_copy[OF D(1), of ?r]
  show "length dir' = length dir" using C(2) by (simp add: D(6))
  show m: "mset (dir_list dir) = add_mset (name, e) (mset (dir_list dir'))"
    using U D(2,3) z by (simp add: D(6) D(4))
  then have m': "mset (map fst (dir_list dir)) = mset (map fst ((name, e) # dir_list dir'))" by simp
  have d: "distinct (map fst (dir_list dir))" using assms(1) by (simp add: dir_wf_def)
  then have d': "distinct (map fst ((name, e) # dir_list dir'))" using m' mset_eq_imp_distinct_iff by blast
  have "r = ?r" if "r \<in> set (dir_recs dir')" "is_free_rec r" for r
  proof -
    have "r \<in> insert ?r (set (dir_recs dir))" using that(1) C(1) D(6) set_update_subset_insert by fastforce
    then show ?thesis using that(2) assms(1) by (auto simp: dir_wf_def)
  qed
  then show "dir_wf dir'" using d' by (simp add: dir_wf_def)
  show "dir_map dir name = Some e" by (rule D(5))
  have "set (dir_list dir) = set ((name, e) # dir_list dir')" using arg_cong[OF m, of set_mset] by simp
  then have e: "map_of (dir_list dir) = (map_of (dir_list dir'))(name \<mapsto> e)" using map_of_inject_set[OF d d'] by simp
  have "map_of (dir_list dir') name = None" using d' by (simp add: map_of_eq_None_iff)
  then show "dir_map dir' = (dir_map dir)(name := None)" by (simp add: dir_map_def e fun_upd_idem)
qed

text \<open>Undoing a creation gives the same bytes back.\<close>

lemma dir_create_undo:
  assumes "dir_wf dir" "dir_create dir name s l = Inr dir'" "plain_name name"
  shows "dir_remove dir' name = Inr (\<lparr>first_sector = s, byte_len = l\<rparr>, dir)"
proof -
  let ?e = "\<lparr>first_sector = s, byte_len = l\<rparr>" and ?r = "new_record name s l" and ?z = "replicate ENTRY_SIZE 0 :: u8 list"
  obtain i where D: "name \<noteq> []" "length name \<le> NAME_LEN" "dir_map dir name = None" "i < dir_capacity (length dir)"
    "is_free_rec (dir_slot dir i)" "dir' = copy_at dir (i * ENTRY_SIZE) ?r"
    using dir_create_Inr[OF assms(2)] by metis
  have rl: "length ?r = ENTRY_SIZE" using D(2) by simp
  note C = dir_recs_copy[OF D(4) rl] and N = new_record_name[OF assms(3)]
  have recs: "dir_recs dir' = (dir_recs dir)[i := ?r]" "i < length (dir_recs dir)" using C(1) D(4,6) by simp_all
  have none: "\<not> dir_matches name r" if "r \<in> set (dir_recs dir)" for r
  proof -
    have "position (dir_matches name) (dir_recs dir) = None" using D(3) by (simp add: dir_map_position split: option.splits)
    then show ?thesis using that by (simp add: position_None_iff)
  qed
  have p: "position (dir_matches name) (dir_recs dir') = Some i"
    unfolding position_Some_iff recs(1)
    using N recs(2) none by (auto simp: dir_matches_iff nth_list_update)
  have z: "dir_slot dir i = ?z"
    using assms(1) D(5) nth_mem[OF recs(2)] D(4) by (simp add: dir_wf_def dir_recs_nth)
  have fit: "i * ENTRY_SIZE + ENTRY_SIZE \<le> length dir" by (rule slot_in[OF D(4)])
  have "copy_at dir' (i * ENTRY_SIZE) ?z = copy_at dir (i * ENTRY_SIZE) ?z"
    unfolding D(6) by (rule copy_at_twice) (use fit rl in simp_all)
  also have "\<dots> = dir" by (rule copy_at_same) (use fit z in \<open>simp_all add: dir_slot_def\<close>)
  finally have "copy_at dir' (i * ENTRY_SIZE) ?z = dir" .
  moreover have "dir_slot dir' i = ?r"
    using recs D(4) C(2) by (metis D(6) dir_recs_nth nth_list_update_eq)
  ultimately show ?thesis using p new_record_entry(1)[OF D(2)] by (simp add: dir_remove_def)
qed

lemma dir_create_Inl:
  "dir_create dir name s l = Inl e \<longleftrightarrow>
     (if name = [] \<or> length name > NAME_LEN then e = InvalidName
      else if dir_map dir name \<noteq> None then e = Duplicate
      else e = Full \<and> (\<forall>r \<in> set (dir_recs dir). \<not> is_free_rec r))"
  using position_None_iff[of is_free_rec "dir_recs dir"] by (auto simp: dir_create_def dir_find_map split: option.splits)

lemma dir_full:
  assumes "dir_wf dir" "\<forall>r \<in> set (dir_recs dir). \<not> is_free_rec r"
  shows "card (dom (dir_map dir)) = dir_capacity (length dir)"
proof -
  have l: "length (dir_list dir) = dir_capacity (length dir)" using assms(2) by (simp add: dir_list_def filter_True)
  have "dom (dir_map dir) = set (map fst (dir_list dir))" by (simp add: dir_map_def dom_map_of_conv_image_fst)
  then show ?thesis
    using assms(1) distinct_card[of "map fst (dir_list dir)"] l by (simp add: dir_wf_def)
qed

text \<open>
  The directory refines a bounded map.  On a directory with distinct names, and for a name of 1 to
  32 bytes without NUL: a lookup reads the map; a creation extends the map with the new entry and
  touches no other, and is refused exactly for a name already present or when the number of
  files is the capacity; a removal deletes that one name and returns its entry.  The records stay
  well formed and the directory keeps its size.
\<close>
lemma directory_refines_map:
  assumes "dir_wf dir" "plain_name name"
  shows "dir_find dir name = (case dir_map dir name of None \<Rightarrow> Inl NotFound | Some e \<Rightarrow> Inr e) \<and>
    (case dir_create dir name s l of
        Inr dir' \<Rightarrow> dir_map dir name = None \<and> dir_wf dir' \<and> length dir' = length dir \<and>
          dir_map dir' = (dir_map dir)(name \<mapsto> \<lparr>first_sector = s, byte_len = l\<rparr>)
      | Inl Duplicate \<Rightarrow> dir_map dir name \<noteq> None
      | Inl Full \<Rightarrow> dir_map dir name = None \<and> card (dom (dir_map dir)) = dir_capacity (length dir)
      | Inl _ \<Rightarrow> False) \<and>
    (case dir_remove dir name of
        Inr (e, dir') \<Rightarrow> dir_map dir name = Some e \<and> dir_wf dir' \<and> length dir' = length dir \<and>
          dir_map dir' = (dir_map dir)(name := None)
      | Inl e \<Rightarrow> e = NotFound \<and> dir_map dir name = None)"
proof (intro conjI)
  show "dir_find dir name = (case dir_map dir name of None \<Rightarrow> Inl NotFound | Some e \<Rightarrow> Inr e)" by (rule dir_find_map)
next
  show "case dir_create dir name s l of
        Inr dir' \<Rightarrow> dir_map dir name = None \<and> dir_wf dir' \<and> length dir' = length dir \<and>
          dir_map dir' = (dir_map dir)(name \<mapsto> \<lparr>first_sector = s, byte_len = l\<rparr>)
      | Inl Duplicate \<Rightarrow> dir_map dir name \<noteq> None
      | Inl Full \<Rightarrow> dir_map dir name = None \<and> card (dom (dir_map dir)) = dir_capacity (length dir)
      | Inl _ \<Rightarrow> False"
  proof (cases "dir_create dir name s l")
    case (Inl e)
    then show ?thesis
      using dir_create_Inl[of dir name s l e] assms(2) dir_full[OF assms(1)]
      by (cases e) (auto simp: plain_name_def split: if_splits)
  next
    case (Inr dir')
    have "dir_map dir name = None" using dir_create_Inr[OF Inr] by metis
    then show ?thesis using dir_created[OF assms(1) Inr assms(2)] by (simp add: Inr)
  qed
next
  show "case dir_remove dir name of
        Inr (e, dir') \<Rightarrow> dir_map dir name = Some e \<and> dir_wf dir' \<and> length dir' = length dir \<and>
          dir_map dir' = (dir_map dir)(name := None)
      | Inl e \<Rightarrow> e = NotFound \<and> dir_map dir name = None"
  proof (cases "dir_remove dir name")
    case (Inl e)
    then show ?thesis by (auto simp: dir_remove_def dir_map_position split: option.splits)
  next
    case (Inr a)
    then show ?thesis using dir_removed[OF assms(1)] by (cases a) auto
  qed
qed

lemma empty_dir_wf: "dir_wf (replicate n 0)"
proof -
  have r: "dir_slot (replicate n 0) i = replicate ENTRY_SIZE 0" if "i < dir_capacity n" for i
    using slot_in[OF that] by (simp add: dir_slot_def)
  then have "r = replicate ENTRY_SIZE 0" if "r \<in> set (dir_recs (replicate n 0))" for r
    using that by (auto simp: dir_recs_def)
  moreover have "is_free_rec (replicate ENTRY_SIZE 0)" by (simp add: is_free_rec_def ENTRY_SIZE_def)
  ultimately have f: "\<forall>r \<in> set (dir_recs (replicate n 0)). r = replicate ENTRY_SIZE 0 \<and> is_free_rec r" by blast
  then have "dir_list (replicate n 0) = []" by (simp add: dir_list_def)
  then show ?thesis using f by (simp add: dir_wf_def)
qed

lemma empty_dir_map: "dir_map (replicate n 0) = Map.empty"
proof -
  have r: "dir_slot (replicate n 0) i = replicate ENTRY_SIZE 0" if "i < dir_capacity n" for i
    using slot_in[OF that] by (simp add: dir_slot_def)
  moreover have "is_free_rec (replicate ENTRY_SIZE 0)" by (simp add: is_free_rec_def ENTRY_SIZE_def)
  ultimately have "dir_list (replicate n 0) = []" by (simp add: dir_list_def dir_recs_def filter_empty_conv)
  then show ?thesis by (simp add: dir_map_def)
qed

lemma directory_refines_map_witness:
  "\<exists>dir'. dir_create (replicate 80 0) [0x61] 4 100 = Inr dir' \<and>
     dir_map dir' [0x61] = Some \<lparr>first_sector = 4, byte_len = 100\<rparr> \<and> dir_find (replicate 80 0) [0x61] = Inl NotFound"
proof -
  have p: "plain_name [0x61]" by (simp add: plain_name_def NAME_LEN_def)
  have c: "dir_capacity (length (replicate 80 (0 :: u8))) = 2" by (simp add: dir_capacity_def ENTRY_SIZE_def)
  note T = directory_refines_map[OF empty_dir_wf p, of 80 4 100, unfolded empty_dir_map c]
  show ?thesis
  proof (cases "dir_create (replicate 80 0) [0x61] 4 100")
    case (Inl e)
    then show ?thesis using T by (cases e) simp_all
  next
    case (Inr dir')
    then show ?thesis using T by simp
  qed
qed

text \<open>A name that starts with NUL is accepted and stored in a record that still counts as free.\<close>

lemma nul_name_lost:
  assumes "dir_create dir (0 # name) s l = Inr dir'"
  shows "mset (dir_list dir') = mset (dir_list dir)"
proof -
  let ?n = "0 # name" and ?r = "new_record (0 # name) s l"
  obtain i where D: "length ?n \<le> NAME_LEN" "i < dir_capacity (length dir)"
    "is_free_rec (dir_slot dir i)" "dir' = copy_at dir (i * ENTRY_SIZE) ?r"
    using dir_create_Inr[OF assms] by metis
  have "?r ! 0 = name_field ?r ! 0" by (simp add: name_field_def NAME_LEN_def)
  then have "is_free_rec ?r" by (simp only: is_free_rec_def new_record_entry(2)[OF D(1)]) simp
  then show ?thesis using dir_list_update[OF D(2), of ?r] D(1,3) by (simp add: D(4))
qed

end
