(* ===== verification/Rwfs.thy ===== *)
theory Rwfs
  imports Rwfs_Bitmap Rwfs_Directory
begin

text \<open>
  The read-write file system over one block range (\<open>librwfs/src/format.rs\<close>): the mount with its
  in-memory metadata, formatting, and the create, read and delete operations.  The block ring is a
  parameter: a read and a write of whole sectors between the staging frame and the range, each with
  a completion status.  The disk is addressed in bytes from the start of the range.
\<close>

definition SECTOR :: nat where "SECTOR = 512"
definition RW_MAGIC :: "u8 list" where "RW_MAGIC = [0x50, 0x4C, 0x4E, 0x54, 0x48, 0x52, 0x57, 0x31]"
definition MAX_ENTRIES :: nat where "MAX_ENTRIES = 16"
definition DIR_BYTES :: nat where "DIR_BYTES = MAX_ENTRIES * ENTRY_SIZE"
definition DIR_SECTORS :: nat where "DIR_SECTORS = div_ceil DIR_BYTES SECTOR"
definition BITMAP_SECTORS :: nat where "BITMAP_SECTORS = 1"
definition BITMAP_BYTES :: nat where "BITMAP_BYTES = BITMAP_SECTORS * SECTOR"
definition DATA_START :: nat where "DATA_START = 1 + BITMAP_SECTORS + DIR_SECTORS"
definition SB_DATA_SECTORS :: nat where "SB_DATA_SECTORS = 8"
definition BITMAP_OFF :: nat where "BITMAP_OFF = SECTOR"
definition DIR_OFF :: nat where "DIR_OFF = BITMAP_OFF + BITMAP_BYTES"
definition META_BYTES :: nat where "META_BYTES = DATA_START * SECTOR"
definition MAX_FILE_BYTES :: nat where "MAX_FILE_BYTES = 4096"
definition RING_OK :: u64 where "RING_OK = 0"

lemma rw_layout:
  "SECTOR = 512" "DIR_BYTES = 640" "DIR_SECTORS = 2" "BITMAP_BYTES = 512" "DATA_START = 4" "BITMAP_OFF = 512"
  "DIR_OFF = 1024" "META_BYTES = 2048" "MAX_FILE_BYTES = 4096" "SB_DATA_SECTORS = 8"
  by (simp_all add: SECTOR_def DIR_BYTES_def MAX_ENTRIES_def ENTRY_SIZE_def DIR_SECTORS_def div_ceil_def BITMAP_BYTES_def
      BITMAP_SECTORS_def DATA_START_def BITMAP_OFF_def DIR_OFF_def META_BYTES_def MAX_FILE_BYTES_def SB_DATA_SECTORS_def)

datatype rwfs_error = Io | BadMagic | Truncated | InvalidLen | BitmapErr bitmap_error | DirErr dir_error

record mount =
  mt_range :: u64
  mt_frame :: u64
  mt_frame_va :: u64
  mt_data_sectors :: u64
  mt_meta :: "u8 list"

text \<open>The staging frame, as mapped at \<open>frame_va\<close>, and the range.\<close>

record world =
  wd_frame :: "u8 list"
  wd_disk :: "nat \<Rightarrow> u8"

text \<open>\<open>ring::block_on(ring::read(range, frame, sector, count))\<close> and the same for \<open>write\<close>.\<close>

record device =
  dev_read :: "u64 \<Rightarrow> u64 \<Rightarrow> u64 \<Rightarrow> u64 \<Rightarrow> world \<Rightarrow> u64 \<times> world"
  dev_write :: "u64 \<Rightarrow> u64 \<Rightarrow> u64 \<Rightarrow> u64 \<Rightarrow> world \<Rightarrow> u64 \<times> world"

definition bitmap_slice :: "u8 list \<Rightarrow> u8 list" where
  "bitmap_slice meta = take BITMAP_BYTES (drop BITMAP_OFF meta)"

definition dir_slice :: "u8 list \<Rightarrow> u8 list" where
  "dir_slice meta = take DIR_BYTES (drop DIR_OFF meta)"

text \<open>The update of the metadata through each of the two mutable slices.\<close>

abbreviation put_bitmap :: "mount \<Rightarrow> u8 list \<Rightarrow> mount" where
  "put_bitmap mt bm \<equiv> mt\<lparr>mt_meta := copy_at (mt_meta mt) BITMAP_OFF bm\<rparr>"

abbreviation put_dir :: "mount \<Rightarrow> u8 list \<Rightarrow> mount" where
  "put_dir mt d \<equiv> mt\<lparr>mt_meta := copy_at (mt_meta mt) DIR_OFF d\<rparr>"

definition persist_meta :: "device \<Rightarrow> mount \<Rightarrow> world \<Rightarrow> rwfs_error option \<times> world" where
  "persist_meta dev mt w =
     (let w1 = w\<lparr>wd_frame := copy_at (wd_frame w) 0 (mt_meta mt)\<rparr>;
          (status, w2) = dev_write dev (mt_range mt) (mt_frame mt) 0 (of_nat DATA_START) w1
      in (if status \<noteq> RING_OK then Some Io else None, w2))"

definition rwfs_format :: "device \<Rightarrow> u64 \<Rightarrow> u64 \<Rightarrow> u64 \<Rightarrow> u64 \<Rightarrow> world \<Rightarrow> (rwfs_error + mount) \<times> world" where
  "rwfs_format dev range_slot frame_slot frame_va total_sectors w =
     (if total_sectors \<le> of_nat DATA_START then (Inl Truncated, w)
      else
        let data_sectors = total_sectors - of_nat DATA_START;
            meta = copy_at (copy_at (replicate META_BYTES 0) 0 RW_MAGIC)
                     SB_DATA_SECTORS (le_bytes 4 (unat (ucast data_sectors :: u32)));
            mt = \<lparr>mt_range = range_slot, mt_frame = frame_slot, mt_frame_va = frame_va,
                  mt_data_sectors = data_sectors, mt_meta = meta\<rparr>
        in (case persist_meta dev mt w of
              (Some e, w1) \<Rightarrow> (Inl e, w1)
            | (None, w1) \<Rightarrow>
                let (status, w2) = dev_read dev range_slot frame_slot 0 (of_nat DATA_START) w1 in
                if status \<noteq> RING_OK then (Inl Io, w2)
                else
                  let bytes = take META_BYTES (wd_frame w2) in
                  if take (length RW_MAGIC) bytes \<noteq> RW_MAGIC then (Inl BadMagic, w2)
                  else if bytes \<noteq> meta then (Inl Io, w2)
                  else (Inr mt, w2)))"

text \<open>Ignored results of the roll-back are dropped as \<open>let _ =\<close> does.\<close>

definition undo_alloc :: "mount \<Rightarrow> nat \<Rightarrow> nat \<Rightarrow> mount" where
  "undo_alloc mt rel n =
     (case bm_free (bitmap_slice (mt_meta mt)) (unat (mt_data_sectors mt)) rel n of
        Inl _ \<Rightarrow> mt | Inr bm \<Rightarrow> put_bitmap mt bm)"

definition undo_dir :: "mount \<Rightarrow> u8 list \<Rightarrow> mount" where
  "undo_dir mt name =
     (case dir_remove (dir_slice (mt_meta mt)) name of Inl _ \<Rightarrow> mt | Inr (_, d) \<Rightarrow> put_dir mt d)"

definition rwfs_create :: "device \<Rightarrow> mount \<Rightarrow> u8 list \<Rightarrow> u8 list \<Rightarrow> world \<Rightarrow> rwfs_error option \<times> mount \<times> world" where
  "rwfs_create dev mt name data w =
     (if data = [] \<or> length data > MAX_FILE_BYTES then (Some InvalidLen, mt, w)
      else
        let n = div_ceil (length data) SECTOR in
        (case bm_alloc (bitmap_slice (mt_meta mt)) (unat (mt_data_sectors mt)) n of
           Inl e \<Rightarrow> (Some (BitmapErr e), mt, w)
         | Inr (rel, bm) \<Rightarrow>
             let mt1 = put_bitmap mt bm;
                 abs_sector = of_nat DATA_START + of_nat rel :: u32
             in (case dir_create (dir_slice (mt_meta mt1)) name abs_sector (of_nat (length data)) of
                   Inl e \<Rightarrow> (Some (DirErr e), undo_alloc mt1 rel n, w)
                 | Inr d \<Rightarrow>
                     let mt2 = put_dir mt1 d;
                         w1 = w\<lparr>wd_frame := copy_at (copy_at (wd_frame w) 0 (replicate (n * SECTOR) 0)) 0 data\<rparr>;
                         (status, w2) = dev_write dev (mt_range mt) (mt_frame mt) (ucast abs_sector) (of_nat n) w1
                     in if status \<noteq> RING_OK then (Some Io, undo_alloc (undo_dir mt2 name) rel n, w2)
                        else (let (r, w3) = persist_meta dev mt2 w2 in (r, mt2, w3)))))"

definition rwfs_stat :: "mount \<Rightarrow> u8 list \<Rightarrow> rwfs_error + (u32 \<times> u32)" where
  "rwfs_stat mt name =
     (case dir_find (dir_slice (mt_meta mt)) name of
        Inl e \<Rightarrow> Inl (DirErr e) | Inr e \<Rightarrow> Inr (first_sector e, byte_len e))"

text \<open>The bytes written to \<open>out\<close>, whose length is the argument, are the result.\<close>

definition rwfs_read :: "device \<Rightarrow> mount \<Rightarrow> u8 list \<Rightarrow> nat \<Rightarrow> world \<Rightarrow> (rwfs_error + u8 list) \<times> world" where
  "rwfs_read dev mt name out_len w =
     (case dir_find (dir_slice (mt_meta mt)) name of
        Inl e \<Rightarrow> (Inl (DirErr e), w)
      | Inr e \<Rightarrow>
          let len = unat (byte_len e) in
          if out_len < len then (Inl InvalidLen, w)
          else
            let (status, w1) = dev_read dev (mt_range mt) (mt_frame mt) (ucast (first_sector e)) (of_nat (sector_count e)) w in
            if status \<noteq> RING_OK then (Inl Io, w1) else (Inr (take len (wd_frame w1)), w1))"

definition rwfs_delete :: "device \<Rightarrow> mount \<Rightarrow> u8 list \<Rightarrow> world \<Rightarrow> rwfs_error option \<times> mount \<times> world" where
  "rwfs_delete dev mt name w =
     (case dir_remove (dir_slice (mt_meta mt)) name of
        Inl e \<Rightarrow> (Some (DirErr e), mt, w)
      | Inr (e, d) \<Rightarrow>
          let mt1 = put_dir mt d;
              rel = first_sector e - of_nat DATA_START
          in (case bm_free (bitmap_slice (mt_meta mt1)) (unat (mt_data_sectors mt)) (unat rel) (sector_count e) of
                Inl er \<Rightarrow> (Some (BitmapErr er), mt1, w)
              | Inr bm \<Rightarrow> let mt2 = put_bitmap mt1 bm; (r, w1) = persist_meta dev mt2 w in (r, mt2, w1)))"

section \<open>The abstract store\<close>

text \<open>A file is the bytes its entry points at.\<close>

definition files :: "mount \<Rightarrow> world \<Rightarrow> u8 list \<rightharpoonup> u8 list" where
  "files mt w name = map_option
     (\<lambda>e. map (wd_disk w) [unat (first_sector e) * SECTOR..<unat (first_sector e) * SECTOR + unat (byte_len e)])
     (dir_map (dir_slice (mt_meta mt)) name)"

text \<open>What the operations rely on of a completed transfer of \<open>n\<close> sectors that fit the frame.\<close>

definition device_ok :: "device \<Rightarrow> bool" where
  "device_ok dev \<longleftrightarrow>
     (\<forall>r f s n w st w'. length (wd_frame w) = 4096 \<longrightarrow> unat n * SECTOR \<le> 4096 \<longrightarrow> dev_read dev r f s n w = (st, w') \<longrightarrow>
        wd_disk w' = wd_disk w \<and> length (wd_frame w') = 4096 \<and>
        (st = RING_OK \<longrightarrow> (\<forall>i < unat n * SECTOR. wd_frame w' ! i = wd_disk w (unat s * SECTOR + i)))) \<and>
     (\<forall>r f s n w st w'. length (wd_frame w) = 4096 \<longrightarrow> unat n * SECTOR \<le> 4096 \<longrightarrow> dev_write dev r f s n w = (st, w') \<longrightarrow>
        wd_frame w' = wd_frame w \<and>
        (\<forall>a. a < unat s * SECTOR \<or> (unat s + unat n) * SECTOR \<le> a \<longrightarrow> wd_disk w' a = wd_disk w a) \<and>
        (st = RING_OK \<longrightarrow> (\<forall>i < unat n * SECTOR. wd_disk w' (unat s * SECTOR + i) = wd_frame w ! i)))"

definition never_fails :: "device \<Rightarrow> bool" where
  "never_fails dev \<longleftrightarrow> (\<forall>r f s n w. fst (dev_read dev r f s n w) = RING_OK \<and> fst (dev_write dev r f s n w) = RING_OK)"

lemma never_failsD:
  assumes "never_fails dev"
  shows "dev_read dev r f s n w = (st, w') \<Longrightarrow> st = RING_OK" "dev_write dev r f s n w = (st, w') \<Longrightarrow> st = RING_OK"
  using assms unfolding never_fails_def by (metis fst_conv)+

text \<open>
  The invariant of a mount: the metadata has its size, the directory is well formed, every file has
  1 to 4096 bytes past the metadata, and the data sectors are, each once, free in the bitmap or in the
  run of one file.
\<close>

definition run_of :: "u8 list \<times> dir_entry \<Rightarrow> nat \<times> nat" where
  "run_of = (\<lambda>(_, e). (sector_count e, unat (first_sector e) - DATA_START))"

definition entry_ok :: "dir_entry \<Rightarrow> bool" where
  "entry_ok e \<longleftrightarrow> DATA_START \<le> unat (first_sector e) \<and> 0 < unat (byte_len e) \<and> unat (byte_len e) \<le> MAX_FILE_BYTES"

definition mount_inv :: "mount \<Rightarrow> bool" where
  "mount_inv mt \<longleftrightarrow> length (mt_meta mt) = META_BYTES \<and> dir_wf (dir_slice (mt_meta mt)) \<and>
     (\<forall>(nm, e) \<in> set (dir_list (dir_slice (mt_meta mt))). entry_ok e) \<and>
     sectors.accounted (unat (mt_data_sectors mt)) {..<unat (mt_data_sectors mt)} (bitmap_slice (mt_meta mt))
       (map run_of (dir_list (dir_slice (mt_meta mt))))"

text \<open>The metadata on the disk is the metadata in memory.\<close>

definition synced :: "mount \<Rightarrow> world \<Rightarrow> bool" where
  "synced mt w \<longleftrightarrow> (\<forall>i < META_BYTES. wd_disk w i = mt_meta mt ! i)"

section \<open>The slices of the metadata\<close>

lemma slices_length:
  assumes "length meta = META_BYTES"
  shows "length (bitmap_slice meta) = 512" "length (dir_slice meta) = 640"
  using assms by (simp_all add: bitmap_slice_def dir_slice_def rw_layout)

lemma put_bitmap_slices:
  assumes "length meta = META_BYTES" "length bm = 512"
  shows "length (copy_at meta BITMAP_OFF bm) = META_BYTES" "bitmap_slice (copy_at meta BITMAP_OFF bm) = bm"
    "dir_slice (copy_at meta BITMAP_OFF bm) = dir_slice meta"
  using assms copy_at_slice(1)[of BITMAP_OFF bm meta] copy_at_slice(2)[of BITMAP_OFF bm meta DIR_OFF DIR_BYTES]
  by (simp_all add: bitmap_slice_def dir_slice_def rw_layout)

lemma put_dir_slices:
  assumes "length meta = META_BYTES" "length d = 640"
  shows "length (copy_at meta DIR_OFF d) = META_BYTES" "dir_slice (copy_at meta DIR_OFF d) = d"
    "bitmap_slice (copy_at meta DIR_OFF d) = bitmap_slice meta"
  using assms copy_at_slice(1)[of DIR_OFF d meta] copy_at_slice(2)[of DIR_OFF d meta BITMAP_OFF BITMAP_BYTES]
  by (simp_all add: bitmap_slice_def dir_slice_def rw_layout)

lemma put_back_slices:
  assumes "length meta = META_BYTES"
  shows "length d = 640 \<Longrightarrow> copy_at (copy_at meta DIR_OFF d) DIR_OFF (dir_slice meta) = meta"
    "length bm = 512 \<Longrightarrow> copy_at (copy_at meta BITMAP_OFF bm) BITMAP_OFF (bitmap_slice meta) = meta"
proof -
  note L = slices_length[OF assms]
  assume "length d = 640"
  then have "copy_at (copy_at meta DIR_OFF d) DIR_OFF (dir_slice meta) = copy_at meta DIR_OFF (dir_slice meta)"
    using assms L by (intro copy_at_twice) (simp_all add: rw_layout)
  also have "\<dots> = meta" using assms L by (intro copy_at_same) (simp_all add: rw_layout dir_slice_def)
  finally show "copy_at (copy_at meta DIR_OFF d) DIR_OFF (dir_slice meta) = meta" .
next
  note L = slices_length[OF assms]
  assume "length bm = 512"
  then have "copy_at (copy_at meta BITMAP_OFF bm) BITMAP_OFF (bitmap_slice meta) = copy_at meta BITMAP_OFF (bitmap_slice meta)"
    using assms L by (intro copy_at_twice) (simp_all add: rw_layout)
  also have "\<dots> = meta" using assms L by (intro copy_at_same) (simp_all add: rw_layout bitmap_slice_def)
  finally show "copy_at (copy_at meta BITMAP_OFF bm) BITMAP_OFF (bitmap_slice meta) = meta" .
qed

lemma mount_invD:
  assumes "mount_inv mt"
  shows "length (mt_meta mt) = META_BYTES" "dir_wf (dir_slice (mt_meta mt))"
    "(nm, e) \<in> set (dir_list (dir_slice (mt_meta mt))) \<Longrightarrow> entry_ok e"
    "sectors.accounted (unat (mt_data_sectors mt)) {..<unat (mt_data_sectors mt)} (bitmap_slice (mt_meta mt))
       (map run_of (dir_list (dir_slice (mt_meta mt))))"
    "unat (mt_data_sectors mt) \<le> 4096"
proof -
  show I: "length (mt_meta mt) = META_BYTES" "dir_wf (dir_slice (mt_meta mt))"
    "(nm, e) \<in> set (dir_list (dir_slice (mt_meta mt))) \<Longrightarrow> entry_ok e"
    "sectors.accounted (unat (mt_data_sectors mt)) {..<unat (mt_data_sectors mt)} (bitmap_slice (mt_meta mt))
       (map run_of (dir_list (dir_slice (mt_meta mt))))"
    using assms by (auto simp: mount_inv_def)
  show "unat (mt_data_sectors mt) \<le> 4096"
    using sectors.accountedD(1)[OF I(4)] slices_length(1)[OF I(1)] by (simp add: bm_wf_def)
qed

lemma dir_map_in: "dir_map d nm = Some e \<Longrightarrow> (nm, e) \<in> set (dir_list d)"
  unfolding dir_map_def by (rule map_of_SomeD)

lemma sector_count_fit:
  assumes "0 < unat (byte_len e)"
  shows "unat (byte_len e) \<le> sector_count e * SECTOR" "0 < sector_count e" "(sector_count e - 1) * SECTOR < unat (byte_len e)"
  using assms by (simp_all add: sector_count_def rw_layout div_ceil_def)

lemma sector_count_max: "entry_ok e \<Longrightarrow> sector_count e \<le> 8"
  using div_le_mono[of "511 + unat (byte_len e)" 4607 512] by (simp add: entry_ok_def sector_count_def div_ceil_def rw_layout)

text \<open>The bytes of a file lie in the sectors of its run.\<close>

definition sector_bytes :: "nat \<times> nat \<Rightarrow> nat set" where
  "sector_bytes = (\<lambda>(n, s). {(DATA_START + s) * SECTOR..<(DATA_START + s + n) * SECTOR})"

lemma file_bytes:
  assumes "entry_ok e"
  shows "{unat (first_sector e) * SECTOR..<unat (first_sector e) * SECTOR + unat (byte_len e)} \<subseteq> sector_bytes (run_of (nm, e))"
proof -
  have s: "DATA_START + (unat (first_sector e) - DATA_START) = unat (first_sector e)" using assms by (simp add: entry_ok_def)
  have b: "sector_bytes (run_of (nm, e)) = {unat (first_sector e) * SECTOR..<(unat (first_sector e) + sector_count e) * SECTOR}"
    by (simp add: sector_bytes_def run_of_def s)
  show ?thesis using assms sector_count_fit(1)[of e] by (auto simp: b entry_ok_def add_mult_distrib)
qed

lemma sector_bytes_disjoint:
  assumes "bm_extent n s \<inter> bm_extent n' s' = {}"
  shows "sector_bytes (n, s) \<inter> sector_bytes (n', s') = {}"
proof (rule equals0I)
  fix a assume "a \<in> sector_bytes (n, s) \<inter> sector_bytes (n', s')"
  then have "a div SECTOR - DATA_START \<in> bm_extent n s \<inter> bm_extent n' s'"
    by (auto simp: sector_bytes_def bm_extent_def rw_layout)
  then show False using assms by blast
qed

lemma files_frame:
  assumes "mount_inv mt" "mt_meta mt' = mt_meta mt"
    and "\<And>nm e a. dir_map (dir_slice (mt_meta mt)) nm = Some e \<Longrightarrow> a \<in> sector_bytes (run_of (nm, e)) \<Longrightarrow> wd_disk w' a = wd_disk w a"
  shows "files mt' w' = files mt w"
proof
  fix nm
  show "files mt' w' nm = files mt w nm"
  proof (cases "dir_map (dir_slice (mt_meta mt)) nm")
    case (Some e)
    have "entry_ok e" using mount_invD(3)[OF assms(1) dir_map_in[OF Some]] .
    note F = file_bytes[OF this, of nm]
    show ?thesis using assms(3)[OF Some] F by (auto simp: files_def assms(2) Some)
  qed (simp add: files_def assms(2))
qed

lemma unat_u32_u64: "unat (ucast (x :: u32) :: u64) = unat x"
proof -
  have "unat x < 2 ^ 64" using unat_u32_less[of x] by simp
  then show ?thesis by (simp add: unsigned_ucast_eq take_bit_nat_eq_self)
qed

section \<open>The operations\<close>

lemma device_readD:
  assumes "device_ok dev" "dev_read dev r f s n w = (st, w')" "length (wd_frame w) = 4096" "unat n * SECTOR \<le> 4096"
  shows "wd_disk w' = wd_disk w" "length (wd_frame w') = 4096"
    "st = RING_OK \<Longrightarrow> i < unat n * SECTOR \<Longrightarrow> wd_frame w' ! i = wd_disk w (unat s * SECTOR + i)"
  using assms(1)[unfolded device_ok_def, THEN conjunct1, rule_format, OF assms(3,4,2)] by simp_all

lemma device_writeD:
  assumes "device_ok dev" "dev_write dev r f s n w = (st, w')" "length (wd_frame w) = 4096" "unat n * SECTOR \<le> 4096"
  shows "wd_frame w' = wd_frame w"
    "a < unat s * SECTOR \<or> (unat s + unat n) * SECTOR \<le> a \<Longrightarrow> wd_disk w' a = wd_disk w a"
    "st = RING_OK \<Longrightarrow> i < unat n * SECTOR \<Longrightarrow> wd_disk w' (unat s * SECTOR + i) = wd_frame w ! i"
proof -
  have W: "wd_frame w' = wd_frame w \<and> (\<forall>a. a < unat s * SECTOR \<or> (unat s + unat n) * SECTOR \<le> a \<longrightarrow> wd_disk w' a = wd_disk w a) \<and>
      (st = RING_OK \<longrightarrow> (\<forall>i < unat n * SECTOR. wd_disk w' (unat s * SECTOR + i) = wd_frame w ! i))"
    using assms unfolding device_ok_def by metis
  then show "wd_frame w' = wd_frame w" by (rule conjunct1)
  show "a < unat s * SECTOR \<or> (unat s + unat n) * SECTOR \<le> a \<Longrightarrow> wd_disk w' a = wd_disk w a"
    using W by blast
  show "st = RING_OK \<Longrightarrow> i < unat n * SECTOR \<Longrightarrow> wd_disk w' (unat s * SECTOR + i) = wd_frame w ! i"
    using W by blast
qed

lemma persisted:
  assumes "device_ok dev" "length (mt_meta mt) = META_BYTES" "length (wd_frame w) = 4096" "persist_meta dev mt w = (r, w')"
  shows "length (wd_frame w') = 4096" "META_BYTES \<le> a \<Longrightarrow> wd_disk w' a = wd_disk w a"
    "r = None \<or> r = Some Io" "r = None \<Longrightarrow> synced mt w'" "r = Some Io \<Longrightarrow> \<not> never_fails dev"
proof -
  let ?w = "w\<lparr>wd_frame := copy_at (wd_frame w) 0 (mt_meta mt)\<rparr>"
  obtain st v where wv: "dev_write dev (mt_range mt) (mt_frame mt) 0 (of_nat DATA_START) ?w = (st, v)" by (rule prod.exhaust)
  then have "v = w'" and r: "r = (if st \<noteq> RING_OK then Some Io else None)"
    using assms(4) by (simp_all add: persist_meta_def)
  note wr = wv[unfolded \<open>v = w'\<close>]
  have n: "unat (of_nat DATA_START :: u64) = 4" by (simp add: rw_layout)
  have l: "length (wd_frame ?w) = 4096" using assms(2,3) by (simp add: rw_layout)
  note W = device_writeD[OF assms(1) wr l, unfolded n]
  have f: "4 * SECTOR \<le> 4096" by (simp add: rw_layout)
  show "length (wd_frame w') = 4096" using W(1)[OF f] l by simp
  show "META_BYTES \<le> a \<Longrightarrow> wd_disk w' a = wd_disk w a" using W(2)[OF f, of a] by (simp add: rw_layout)
  show "r = None \<or> r = Some Io" by (simp add: r)
  show "r = Some Io \<Longrightarrow> \<not> never_fails dev" using never_failsD(2)[OF _ wr] by (auto simp: r split: if_splits)
  assume "r = None"
  then have ok: "st = RING_OK" by (simp add: r split: if_splits)
  show "synced mt w'" unfolding synced_def
  proof (intro allI impI)
    fix i assume i: "i < META_BYTES"
    then have "wd_disk w' i = copy_at (wd_frame w) 0 (mt_meta mt) ! i" using W(3)[OF f ok, of i] by (simp add: rw_layout)
    then show "wd_disk w' i = mt_meta mt ! i" using i assms(2,3) by (simp add: copy_at_nth rw_layout)
  qed
qed

text \<open>The bytes of files lie past the metadata.\<close>

lemma file_past_meta: "a \<in> sector_bytes p \<Longrightarrow> META_BYTES \<le> a"
  by (cases p) (simp add: sector_bytes_def rw_layout)

lemma alloc_undo:
  assumes "mount_inv mt" "bm_alloc (bitmap_slice (mt_meta mt)) (unat (mt_data_sectors mt)) n = Inr (rel, bm)"
  shows "undo_alloc (put_bitmap mt bm) rel n = mt" "length bm = 512" "0 < n" "rel + n \<le> unat (mt_data_sectors mt)"
    "sectors.accounted (unat (mt_data_sectors mt)) {..<unat (mt_data_sectors mt)} bm
       ((n, rel) # map run_of (dir_list (dir_slice (mt_meta mt))))"
proof -
  let ?N = "unat (mt_data_sectors mt)" and ?b = "bitmap_slice (mt_meta mt)"
  note I = mount_invD[OF assms(1)]
  note L = slices_length[OF I(1)]
  note A = bm_alloc_cases[OF assms(2)]
  show l: "length bm = 512" and n: "0 < n" using A L by simp_all
  show acc: "sectors.accounted ?N {..<?N} bm ((n, rel) # map run_of (dir_list (dir_slice (mt_meta mt))))"
    by (rule sectors.acquire_accounted[OF I(4)]) (simp add: bm_acquire_def assms(2))
  have "rel + n - 1 \<in> {rel..<rel + n}" using n by simp
  then show "rel + n \<le> ?N" using A by (force simp: free_run_def bm_avail_def)
  obtain bm' where F: "bm_free bm ?N rel n = Inr bm'" "length bm' = length bm"
    "\<forall>j. bm_bit bm' j \<longleftrightarrow> bm_bit bm j \<and> j \<notin> {rel..<rel + n}"
    by (rule bm_free_held[OF acc _ n, of rel]) (auto intro: that)
  have "bm' = ?b"
  proof (rule bitmap_eqI)
    fix j
    have "j \<in> {rel..<rel + n} \<Longrightarrow> \<not> bm_bit ?b j" using A by (auto simp: free_run_def bm_avail_def)
    then show "bm_bit bm' j = bm_bit ?b j" using F(3) A by auto
  qed (use F(2) l L in simp)
  then show "undo_alloc (put_bitmap mt bm) rel n = mt"
    using F(1) put_bitmap_slices[OF I(1) l] put_back_slices(2)[OF I(1) l] by (simp add: undo_alloc_def)
qed

text \<open>The mount after the allocation and the directory insert of a creation.\<close>

lemma placed:
  assumes inv: "mount_inv mt" and nm: "plain_name name" and len: "data \<noteq> []" "length data \<le> MAX_FILE_BYTES"
    and n: "n = div_ceil (length data) SECTOR"
    and al: "bm_alloc (bitmap_slice (mt_meta mt)) (unat (mt_data_sectors mt)) n = Inr (rel, bm)"
    and cr: "dir_create (dir_slice (mt_meta mt)) name (of_nat DATA_START + of_nat rel) (of_nat (length data)) = Inr d"
  defines "mt2 \<equiv> put_dir (put_bitmap mt bm) d"
  shows "mount_inv mt2" "undo_alloc (undo_dir mt2 name) rel n = mt"
    "unat (of_nat DATA_START + of_nat rel :: u32) = DATA_START + rel" "n \<le> 8" "length data \<le> n * SECTOR"
    "dir_map (dir_slice (mt_meta mt2)) = (dir_map (dir_slice (mt_meta mt)))
       (name \<mapsto> \<lparr>first_sector = of_nat DATA_START + of_nat rel, byte_len = of_nat (length data)\<rparr>)"
    "dir_map (dir_slice (mt_meta mt)) name = None"
    "dir_map (dir_slice (mt_meta mt)) nm' = Some e \<Longrightarrow> sector_bytes (run_of (nm', e)) \<inter> sector_bytes (n, rel) = {}"
proof -
  let ?N = "unat (mt_data_sectors mt)" and ?d = "dir_slice (mt_meta mt)" and ?s = "of_nat DATA_START + of_nat rel :: u32"
  let ?e = "\<lparr>first_sector = ?s, byte_len = of_nat (length data)\<rparr>"
  note I = mount_invD[OF inv]
  note A = alloc_undo[OF inv al]
  note P = put_bitmap_slices[OF I(1) A(2)]
  note C = dir_created[OF I(2) cr nm]
  have dl: "length d = 640" using C(2) slices_length(2)[OF I(1)] by simp
  note Q = put_dir_slices[OF P(1) dl]
  have rel: "rel < 4096" using A(3,4) I(5) by simp
  show us: "unat ?s = DATA_START + rel"
    using rel by (simp add: rw_layout unat_word_ariths unat_of_nat)
  have ul: "unat (of_nat (length data) :: u32) = length data" using len(2) by (simp add: rw_layout unat_of_nat_id)
  have sc: "sector_count ?e = n" by (simp add: sector_count_def ul n rw_layout)
  have eo: "entry_ok ?e" using len by (simp add: entry_ok_def us ul)
  have ru: "run_of (name, ?e) = (n, rel)" by (simp add: run_of_def sc us)
  show "n \<le> 8" using sector_count_max[OF eo] sc by simp
  show "length data \<le> n * SECTOR" using sector_count_fit(1)[of ?e] len(1) sc ul by simp
  have slices: "dir_slice (mt_meta mt2) = d" "bitmap_slice (mt_meta mt2) = bm" "length (mt_meta mt2) = META_BYTES"
    "mt_data_sectors mt2 = mt_data_sectors mt"
    using P Q by (simp_all add: mt2_def)
  show "dir_map (dir_slice (mt_meta mt2)) = (dir_map ?d)(name \<mapsto> ?e)" using C(4) by (simp add: slices)
  show none: "dir_map ?d name = None" using dir_create_Inr[OF cr] by metis
  have m: "mset (map run_of (dir_list d)) = mset ((n, rel) # map run_of (dir_list ?d))" using C(3) ru by simp
  have acc: "sectors.accounted ?N {..<?N} bm (map run_of (dir_list d))"
    using A(5) sectors.accounted_perm[OF m] by blast
  have "entry_ok e" if "(nm', e) \<in> set (dir_list d)" for nm' e
  proof -
    have "set (dir_list d) = insert (name, ?e) (set (dir_list ?d))" using arg_cong[OF C(3), of set_mset] by simp
    then show ?thesis using that eo I(3) by auto
  qed
  then show "mount_inv mt2" using acc C(1) by (auto simp: mount_inv_def slices)
  have "undo_dir mt2 name = put_bitmap mt bm"
    using dir_create_undo[OF I(2) cr nm] put_back_slices(1)[OF P(1) dl] P(3) by (simp add: undo_dir_def slices(1)) (simp add: mt2_def)
  then show "undo_alloc (undo_dir mt2 name) rel n = mt" using A(1) by simp
  show "sector_bytes (run_of (nm', e)) \<inter> sector_bytes (n, rel) = {}" if some: "dir_map ?d nm' = Some e"
  proof -
    obtain n' s' where r: "run_of (nm', e) = (n', s')" by (cases "run_of (nm', e)")
    have "(n', s') \<in> set (map run_of (dir_list ?d))" using dir_map_in[OF some] r by force
    then have "bm_extent n rel \<inter> bm_extent n' s' = {}"
      using sectors.accountedD(2)[OF A(5)] by (force simp: sectors.grants_def)
    then have "sector_bytes (n, rel) \<inter> sector_bytes (n', s') = {}" by (rule sector_bytes_disjoint)
    then show ?thesis unfolding r by blast
  qed
qed

lemma placed_files:
  assumes inv: "mount_inv mt" and nm: "plain_name name" and len: "data \<noteq> []" "length data \<le> MAX_FILE_BYTES"
    and n: "n = div_ceil (length data) SECTOR"
    and al: "bm_alloc (bitmap_slice (mt_meta mt)) (unat (mt_data_sectors mt)) n = Inr (rel, bm)"
    and cr: "dir_create (dir_slice (mt_meta mt)) name (of_nat DATA_START + of_nat rel) (of_nat (length data)) = Inr d"
    and same: "\<And>a. META_BYTES \<le> a \<Longrightarrow> a \<notin> sector_bytes (n, rel) \<Longrightarrow> wd_disk w' a = wd_disk w a"
    and new: "\<And>i. i < length data \<Longrightarrow> wd_disk w' ((DATA_START + rel) * SECTOR + i) = data ! i"
  shows "files (put_dir (put_bitmap mt bm) d) w' = (files mt w)(name \<mapsto> data)"
proof
  fix nm'
  note P = placed[OF inv nm len n al cr]
  let ?mt2 = "put_dir (put_bitmap mt bm) d"
  show "files ?mt2 w' nm' = ((files mt w)(name \<mapsto> data)) nm'"
  proof (cases "nm' = name")
    case True
    have ul: "unat (of_nat (length data) :: u32) = length data" using len(2) by (simp add: rw_layout unat_of_nat_id)
    have "map (wd_disk w') [(DATA_START + rel) * SECTOR..<(DATA_START + rel) * SECTOR + length data] = data"
      by (rule nth_equalityI) (simp_all add: new)
    then show ?thesis using P(6) P(3) by (simp add: files_def True ul)
  next
    case False
    then have m: "dir_map (dir_slice (mt_meta ?mt2)) nm' = dir_map (dir_slice (mt_meta mt)) nm'" using P(6) by simp
    show ?thesis
    proof (cases "dir_map (dir_slice (mt_meta mt)) nm'")
      case (Some e)
      have "entry_ok e" using mount_invD(3)[OF inv dir_map_in[OF Some]] .
      note F = file_bytes[OF this, of nm']
      have "wd_disk w' a = wd_disk w a" if "a \<in> sector_bytes (run_of (nm', e))" for a
        using same[OF file_past_meta[OF that]] P(8)[OF Some] that by blast
      then show ?thesis using False F m by (auto simp: files_def Some)
    qed (use m in \<open>simp add: files_def False\<close>)
  qed
qed

text \<open>
  Creating a file.  On a mount of the invariant a creation with a plain name either succeeds, and
  then the store is the old one with exactly that file added, the invariant holds and the metadata on
  the disk is the one in memory; or it is refused or its data write fails, and then the mount is what
  it was, byte for byte, and no file changed; or only the final metadata write fails, and then
  the file exists in memory although an error is reported.
\<close>
lemma rwfs_created:
  assumes "device_ok dev" "mount_inv mt" "length (wd_frame w) = 4096" "plain_name name"
    and "rwfs_create dev mt name data w = (r, mt', w')"
  shows "mount_inv mt' \<and> length (wd_frame w') = 4096 \<and>
    (case r of
       None \<Rightarrow> files mt w name = None \<and> files mt' w' = (files mt w)(name \<mapsto> data) \<and> synced mt' w'
     | Some Io \<Rightarrow> \<not> never_fails dev \<and> (mt' = mt \<and> files mt' w' = files mt w \<or>
         files mt w name = None \<and> files mt' w' = (files mt w)(name \<mapsto> data) \<and> (\<exists>v. persist_meta dev mt' v = (Some Io, w')))
     | Some InvalidLen \<Rightarrow> mt' = mt \<and> w' = w \<and> (data = [] \<or> MAX_FILE_BYTES < length data)
     | Some (BitmapErr e) \<Rightarrow> mt' = mt \<and> w' = w \<and>
         (\<forall>s. \<not> free_run (unat (mt_data_sectors mt)) (bitmap_slice (mt_meta mt)) (div_ceil (length data) SECTOR) s)
     | Some (DirErr e) \<Rightarrow> mt' = mt \<and> w' = w \<and>
         (e = Duplicate \<and> files mt w name \<noteq> None \<or>
          e = Full \<and> files mt w name = None \<and> card (dom (files mt w)) = MAX_ENTRIES)
     | Some _ \<Rightarrow> False)"
proof (cases "data = [] \<or> length data > MAX_FILE_BYTES")
  case True
  then have "r = Some InvalidLen" "mt' = mt" "w' = w" using assms(5) by (auto simp: rwfs_create_def)
  then show ?thesis using assms(2,3) True by auto
next
  case len: False
  let ?n = "div_ceil (length data) SECTOR" and ?d = "dir_slice (mt_meta mt)"
  have dm: "dom (files mt w) = dom (dir_map ?d)" "files mt w name = None \<longleftrightarrow> dir_map ?d name = None"
    by (auto simp: files_def dom_def)
  note I = mount_invD[OF assms(2)]
  note L = slices_length[OF I(1)]
  show ?thesis
  proof (cases "bm_alloc (bitmap_slice (mt_meta mt)) (unat (mt_data_sectors mt)) ?n")
    case (Inl e)
    then have r: "r = Some (BitmapErr e)" "mt' = mt" "w' = w" using assms(5) len by (auto simp: rwfs_create_def Let_def)
    have "\<not> free_run (unat (mt_data_sectors mt)) (bitmap_slice (mt_meta mt)) ?n s" for s
    proof
      assume f: "free_run (unat (mt_data_sectors mt)) (bitmap_slice (mt_meta mt)) ?n s"
      have n0: "0 < ?n" using len by (cases data) (simp_all add: div_ceil_def rw_layout)
      then have "s + ?n - 1 \<in> {s..<s + ?n}" by simp
      then have "s + ?n - 1 < unat (mt_data_sectors mt)" using f by (auto simp: free_run_def bm_avail_def)
      then have "?n \<le> unat (mt_data_sectors mt)" by simp
      then show False using bm_alloc_cases[OF Inl] f n0 I(5) L(1) by (cases e) auto
    qed
    then show ?thesis using r assms(2,3) by simp
  next
    case (Inr a)
    obtain rel bm where a: "a = (rel, bm)" by (cases a) auto
    note al = Inr[unfolded a]
    note A = alloc_undo[OF assms(2) al]
    note P = put_bitmap_slices[OF I(1) A(2)]
    let ?s = "of_nat DATA_START + of_nat rel :: u32"
    have E: "rwfs_create dev mt name data w =
      (case dir_create ?d name ?s (of_nat (length data)) of
         Inl e \<Rightarrow> (Some (DirErr e), undo_alloc (put_bitmap mt bm) rel ?n, w)
       | Inr d \<Rightarrow>
           let mt2 = put_dir (put_bitmap mt bm) d;
               w1 = w\<lparr>wd_frame := copy_at (copy_at (wd_frame w) 0 (replicate (?n * SECTOR) 0)) 0 data\<rparr>;
               (status, w2) = dev_write dev (mt_range mt) (mt_frame mt) (ucast ?s) (of_nat ?n) w1
           in if status \<noteq> RING_OK then (Some Io, undo_alloc (undo_dir mt2 name) rel ?n, w2)
              else (let (r, w3) = persist_meta dev mt2 w2 in (r, mt2, w3)))"
      using len al P(3) by (simp add: rwfs_create_def Let_def)
    show ?thesis
    proof (cases "dir_create ?d name ?s (of_nat (length data))")
      case (Inl e)
      then have r: "r = Some (DirErr e)" "mt' = mt" "w' = w" using assms(5) A(1) unfolding E by simp_all
      have "dir_capacity (length ?d) = MAX_ENTRIES" using L(2) by (simp add: dir_capacity_def ENTRY_SIZE_def MAX_ENTRIES_def)
      then show ?thesis
        using r dir_create_Inl[of ?d name ?s "of_nat (length data)" e] Inl assms(2-4) dir_full[OF I(2)] dm
        by (auto simp: plain_name_def split: if_splits)
    next
      case (Inr d)
      have len': "data \<noteq> []" "length data \<le> MAX_FILE_BYTES" using len by simp_all
      note Q = placed[OF assms(2,4) len' refl al Inr]
      let ?mt2 = "put_dir (put_bitmap mt bm) d"
      let ?w1 = "w\<lparr>wd_frame := copy_at (copy_at (wd_frame w) 0 (replicate (?n * SECTOR) 0)) 0 data\<rparr>"
      have fit: "?n * SECTOR \<le> 4096" using Q(4) by (simp add: rw_layout)
      have l1: "length (wd_frame ?w1) = 4096" using assms(3) fit Q(5) by simp
      obtain st w2 where wr: "dev_write dev (mt_range mt) (mt_frame mt) (ucast ?s) (of_nat ?n) ?w1 = (st, w2)"
        by (rule prod.exhaust)
      have un: "unat (of_nat ?n :: u64) = ?n" using Q(4) by (simp add: unat_of_nat_id)
      have us: "unat (ucast ?s :: u64) = DATA_START + rel" using Q(3) by (simp only: unat_u32_u64)
      note W = device_writeD[OF assms(1) wr l1, unfolded un us, OF fit]
      have outside: "a \<notin> sector_bytes (?n, rel) \<Longrightarrow> wd_disk w2 a = wd_disk w a" for a
        using W(2)[of a] by (auto simp: sector_bytes_def not_le not_less)
      have l2: "length (wd_frame w2) = 4096" using W(1) l1 by simp
      show ?thesis
      proof (cases "st = RING_OK")
        case False
        then have r: "r = Some Io" "mt' = mt" "w' = w2"
          using assms(5) Q(2) wr unfolding E Inr by (simp_all add: Let_def)
        have "files mt w2 = files mt w"
          by (rule files_frame[OF assms(2) refl]) (use outside Q(8) in blast)
        then show ?thesis using r assms(2) l2 never_failsD(2)[OF _ wr] False by auto
      next
        case True
        obtain rr w3 where p: "persist_meta dev ?mt2 w2 = (rr, w3)" by (rule prod.exhaust)
        have r: "r = rr" "mt' = ?mt2" "w' = w3"
          using assms(5) True wr p unfolding E Inr by (simp_all add: Let_def)
        note S = persisted[OF assms(1) mount_invD(1)[OF Q(1)] l2 p]
        have d: "wd_disk w3 ((DATA_START + rel) * SECTOR + i) = data ! i" if "i < length data" for i
        proof -
          have "wd_disk w3 ((DATA_START + rel) * SECTOR + i) = wd_disk w2 ((DATA_START + rel) * SECTOR + i)"
            by (rule S(2)) (simp add: rw_layout)
          also have "\<dots> = wd_frame ?w1 ! i" using W(3)[OF True, of i] that Q(5) by simp
          also have "\<dots> = data ! i" using that assms(3) fit Q(5) by (simp add: copy_at_nth)
          finally show ?thesis .
        qed
        have "files ?mt2 w3 = (files mt w)(name \<mapsto> data)"
          by (rule placed_files[OF assms(2,4) len' refl al Inr]) (use S(2) outside d in auto)
        moreover have "rr = Some Io \<Longrightarrow> \<exists>v. persist_meta dev ?mt2 v = (Some Io, w3)" using p by blast
        ultimately show ?thesis using r S Q(1,7) dm(2) by (auto split: option.splits)
      qed
    qed
  qed
qed

text \<open>
  Reading a file.  A read of an existing file into a large enough buffer yields exactly the file's
  bytes or an I/O error, never other bytes; a missing name and a short buffer are reported without a
  transfer; no file changes.
\<close>
lemma rwfs_read_file:
  assumes "device_ok dev" "mount_inv mt" "length (wd_frame w) = 4096" "rwfs_read dev mt name n w = (r, w')"
  shows "files mt w' = files mt w \<and> length (wd_frame w') = 4096 \<and>
    (case files mt w name of
       None \<Rightarrow> r = Inl (DirErr NotFound)
     | Some data \<Rightarrow> if n < length data then r = Inl InvalidLen else r = Inr data \<or> r = Inl Io \<and> \<not> never_fails dev)"
proof (cases "dir_map (dir_slice (mt_meta mt)) name")
  case None
  then show ?thesis using assms(3,4) by (simp add: rwfs_read_def dir_find_map files_def)
next
  case (Some e)
  let ?len = "unat (byte_len e)" and ?f = "unat (first_sector e)"
  have eo: "entry_ok e" using mount_invD(3)[OF assms(2) dir_map_in[OF Some]] .
  have fl: "files mt w name = Some (map (wd_disk w) [?f * SECTOR..<?f * SECTOR + ?len])" by (simp add: files_def Some)
  show ?thesis
  proof (cases "n < ?len")
    case True
    then have "r = Inl InvalidLen" "w' = w" using assms(4) by (simp_all add: rwfs_read_def dir_find_map Some Let_def)
    then show ?thesis using assms(3) True by (simp add: fl)
  next
    case False
    obtain st v where rd: "dev_read dev (mt_range mt) (mt_frame mt) (ucast (first_sector e)) (of_nat (sector_count e)) w = (st, v)"
      by (rule prod.exhaust)
    have r: "w' = v" "r = (if st \<noteq> RING_OK then Inl Io else Inr (take ?len (wd_frame v)))"
      using assms(4) False by (auto simp: rwfs_read_def dir_find_map Some Let_def rd split: if_splits)
    have c: "unat (of_nat (sector_count e) :: u64) = sector_count e"
      using sector_count_max[OF eo] by (simp add: unat_of_nat_id)
    have fit: "sector_count e * SECTOR \<le> 4096" using sector_count_max[OF eo] by (simp add: rw_layout)
    note D = device_readD[OF assms(1) rd assms(3), unfolded c unat_u32_u64, OF fit]
    have le: "?len \<le> sector_count e * SECTOR" using sector_count_fit(1)[of e] eo by (simp add: entry_ok_def)
    have "take ?len (wd_frame v) = map (wd_disk w) [?f * SECTOR..<?f * SECTOR + ?len]" if "st = RING_OK"
      by (rule nth_equalityI) (use D(2) D(3)[OF that] le fit in auto)
    moreover have "files mt v = files mt w" using D(1) by (auto simp: files_def)
    ultimately show ?thesis using r D(2) fl False never_failsD(1)[OF _ rd] by auto
  qed
qed

text \<open>
  Deleting a file.  Deleting an existing file removes exactly it from the store, keeps the
  invariant (so its sectors are free again) and rewrites the metadata; a missing name changes
  nothing.
\<close>
lemma rwfs_deleted:
  assumes "device_ok dev" "mount_inv mt" "length (wd_frame w) = 4096" "rwfs_delete dev mt name w = (r, mt', w')"
  shows "mount_inv mt' \<and> length (wd_frame w') = 4096 \<and> files mt' w' = (files mt w)(name := None) \<and>
    (if files mt w name = None then r = Some (DirErr NotFound) \<and> mt' = mt \<and> w' = w
     else r = None \<and> synced mt' w' \<or> r = Some Io \<and> \<not> never_fails dev) \<and>
    (\<forall>e. dir_map (dir_slice (mt_meta mt)) name = Some e \<longrightarrow>
       bm_avail (unat (mt_data_sectors mt)) (bitmap_slice (mt_meta mt')) =
       bm_avail (unat (mt_data_sectors mt)) (bitmap_slice (mt_meta mt)) \<union>
         bm_extent (sector_count e) (unat (first_sector e) - DATA_START))"
proof (cases "dir_remove (dir_slice (mt_meta mt)) name")
  case (Inl e)
  then have "e = NotFound" "dir_map (dir_slice (mt_meta mt)) name = None"
    by (auto simp: dir_remove_def dir_map_position split: option.splits)
  then show ?thesis using assms Inl by (simp add: rwfs_delete_def files_def fun_upd_idem)
next
  case (Inr a)
  obtain e d where a: "a = (e, d)" by (cases a) auto
  let ?d = "dir_slice (mt_meta mt)" and ?N = "unat (mt_data_sectors mt)" and ?b = "bitmap_slice (mt_meta mt)"
  note rm = Inr[unfolded a]
  note I = mount_invD[OF assms(2)]
  note L = slices_length[OF I(1)]
  note R = dir_removed[OF I(2) rm]
  have dl: "length d = 640" using R(2) L by simp
  note P = put_dir_slices[OF I(1) dl]
  have eo: "entry_ok e" using I(3)[OF dir_map_in[OF R(4)]] .
  have c: "0 < sector_count e" using eo sector_count_fit(2)[of e] by (simp add: entry_ok_def)
  have rel: "unat (first_sector e - of_nat DATA_START) = unat (first_sector e) - DATA_START"
    using eo by (simp add: entry_ok_def unat_sub word_le_nat_alt rw_layout)
  let ?run = "(sector_count e, unat (first_sector e) - DATA_START)"
  have ru: "run_of (name, e) = ?run" by (simp add: run_of_def)
  have mem: "?run \<in> set (map run_of (dir_list ?d))" using dir_map_in[OF R(4)] ru by force
  obtain bm where F: "bm_free ?b ?N (snd ?run) (fst ?run) = Inr bm"
    "sectors.accounted ?N {..<?N} bm (remove1 ?run (map run_of (dir_list ?d)))" "length bm = length ?b"
    "\<forall>j. bm_bit bm j \<longleftrightarrow> bm_bit ?b j \<and> j \<notin> {snd ?run..<snd ?run + fst ?run}"
    by (rule bm_free_held[OF I(4) mem c]) (auto intro: that)
  have bl: "length bm = 512" using F(3) L by simp
  note Q = put_bitmap_slices[OF P(1) bl]
  let ?mt2 = "put_bitmap (put_dir mt d) bm"
  obtain rr v where p: "persist_meta dev ?mt2 w = (rr, v)" by (rule prod.exhaust)
  have r: "r = rr" "mt' = ?mt2" "w' = v"
    using assms(4) rm F(1) P(3) rel p by (simp_all add: rwfs_delete_def Let_def)
  have m: "mset (map run_of (dir_list d)) = mset (remove1 ?run (map run_of (dir_list ?d)))"
    using R(3) ru by simp
  have acc: "sectors.accounted ?N {..<?N} bm (map run_of (dir_list d))" using F(2) sectors.accounted_perm[OF m] by blast
  have sub: "set (dir_list d) \<subseteq> set (dir_list ?d)" using arg_cong[OF R(3), of set_mset] by auto
  have inv: "mount_inv mt'"
    using acc R(1) sub I(3) Q P by (auto simp: mount_inv_def r(2))
  note S = persisted[OF assms(1) mount_invD(1)[OF inv[unfolded r(2)]] assms(3) p]
  have dm: "dir_map (dir_slice (mt_meta mt')) = (dir_map ?d)(name := None)" using R(5) P Q by (simp add: r(2))
  have "files mt' w' = (files mt w)(name := None)"
  proof
    fix nm
    show "files mt' w' nm = ((files mt w)(name := None)) nm"
    proof (cases "nm = name \<or> dir_map ?d nm = None")
      case False
      then obtain e' where e': "dir_map ?d nm = Some e'" "nm \<noteq> name" by auto
      have "entry_ok e'" using I(3)[OF dir_map_in[OF e'(1)]] .
      note F = file_bytes[OF this, of nm]
      have "wd_disk w' a = wd_disk w a" if "a \<in> sector_bytes (run_of (nm, e'))" for a
        using S(2)[OF file_past_meta[OF that]] by (simp add: r)
      then show ?thesis using F e' by (auto simp: files_def dm)
    qed (auto simp: files_def dm)
  qed
  moreover have "bm_avail ?N bm = bm_avail ?N ?b \<union> bm_extent (sector_count e) (unat (first_sector e) - DATA_START)"
  proof (rule set_eqI)
    have G: "bm_extent (fst ?run) (snd ?run) \<in> set (sectors.grants (map run_of (dir_list ?d)))"
      using mem by (force simp: sectors.grants_def)
    then have lt: "bm_extent (fst ?run) (snd ?run) \<subseteq> {..<?N}" using sectors.accountedD(4)[OF I(4)] by blast
    show "j \<in> bm_avail ?N bm \<longleftrightarrow> j \<in> bm_avail ?N ?b \<union> bm_extent (sector_count e) (unat (first_sector e) - DATA_START)" for j
      using lt by (auto simp: bm_avail_def bm_extent_def F(4))
  qed
  ultimately show ?thesis
    using inv S(1,3,4,5) R(4) Q P by (auto simp: r files_def)
qed

section \<open>Formatting, and whole sessions\<close>

lemma fresh_slices:
  fixes sb :: "u8 list"
  assumes "length sb \<le> 512"
  defines "meta \<equiv> copy_at (replicate META_BYTES 0) 0 sb"
  shows "length meta = META_BYTES" "bitmap_slice meta = replicate 512 0" "dir_slice meta = replicate 640 0"
  using assms by (simp_all add: meta_def copy_at_def bitmap_slice_def dir_slice_def rw_layout)

lemma fresh_bitmap:
  assumes "n \<le> 4096"
  shows "sectors.accounted n {..<n} (replicate 512 0) []"
proof -
  have "bm_avail n (replicate 512 0) = {..<n}"
    using assms by (auto simp: bm_avail_def bm_bit_def)
  then show ?thesis using assms by (simp add: sectors.accounted_def sectors.grants_def bm_wf_def)
qed

lemma fresh_dir_list: "dir_list (replicate n 0) = []"
  using empty_dir_map[of n] by (simp add: dir_map_def)

lemma formatted:
  assumes "device_ok dev" "length (wd_frame w) = 4096" "rwfs_format dev rs fs va nsec w = (res, w')"
  shows "length (wd_frame w') = 4096 \<and>
    (case res of
       Inr mt \<Rightarrow> synced mt w' \<and> unat (mt_data_sectors mt) + DATA_START = unat nsec \<and> files mt w' = Map.empty \<and>
         (unat nsec \<le> 4100 \<longrightarrow> mount_inv mt)
     | Inl Truncated \<Rightarrow> unat nsec \<le> DATA_START \<and> w' = w
     | Inl Io \<Rightarrow> \<not> never_fails dev
     | Inl _ \<Rightarrow> False)"
proof (cases "nsec \<le> of_nat DATA_START")
  case True
  then have "res = Inl Truncated" "w' = w" using assms(3) by (simp_all add: rwfs_format_def)
  then show ?thesis using True assms(2) by (simp add: word_le_nat_alt rw_layout)
next
  case False
  let ?ds = "nsec - of_nat DATA_START"
  let ?sb = "copy_at RW_MAGIC 8 (le_bytes 4 (unat (ucast ?ds :: u32)))"
  let ?meta = "copy_at (copy_at (replicate META_BYTES 0) 0 RW_MAGIC) SB_DATA_SECTORS (le_bytes 4 (unat (ucast ?ds :: u32)))"
  let ?mt = "\<lparr>mt_range = rs, mt_frame = fs, mt_frame_va = va, mt_data_sectors = ?ds, mt_meta = ?meta\<rparr>"
  have sb: "?meta = copy_at (replicate META_BYTES 0) 0 ?sb"
    by (simp add: copy_at_def RW_MAGIC_def rw_layout)
  note S = fresh_slices[of ?sb, folded sb]
  have sl: "length ?sb \<le> 512" by (simp add: copy_at_def RW_MAGIC_def)
  have ds: "unat ?ds + DATA_START = unat nsec"
    using False by (simp add: unat_sub word_le_nat_alt rw_layout)
  have empty: "files ?mt v = Map.empty" for v
    by (rule ext) (simp add: files_def S(3)[OF sl] empty_dir_map)
  have inv: "mount_inv ?mt" if "unat nsec \<le> 4100"
    using that ds fresh_bitmap[of "unat ?ds"] S[OF sl] by (simp add: mount_inv_def empty_dir_wf fresh_dir_list rw_layout)
  obtain r w1 where p: "persist_meta dev ?mt w = (r, w1)" by (rule prod.exhaust)
  note P = persisted[OF assms(1) _ assms(2) p, unfolded mount.simps, OF S(1)[OF sl]]
  show ?thesis
  proof (cases r)
    case (Some e)
    then have "res = Inl e" "w' = w1" using assms(3) False p by (simp_all add: rwfs_format_def Let_def)
    then show ?thesis using P(1,3,5) Some by auto
  next
    case None
    obtain st w2 where rd: "dev_read dev rs fs 0 (of_nat DATA_START) w1 = (st, w2)" by (rule prod.exhaust)
    have n: "unat (of_nat DATA_START :: u64) = 4" by (simp add: rw_layout)
    have fit: "4 * SECTOR \<le> 4096" by (simp add: rw_layout)
    note D = device_readD[OF assms(1) rd P(1), unfolded n, OF fit]
    show ?thesis
    proof (cases "st = RING_OK")
      case False': False
      then have "res = Inl Io" "w' = w2" using assms(3) False p None rd by (simp_all add: rwfs_format_def Let_def)
      then show ?thesis using D(2) never_failsD(1)[OF _ rd] False' by auto
    next
      case True
      have bk: "take META_BYTES (wd_frame w2) = ?meta"
      proof (rule nth_equalityI)
        show "length (take META_BYTES (wd_frame w2)) = length ?meta" using D(2) S(1)[OF sl] by (simp add: rw_layout)
        fix i assume "i < length (take META_BYTES (wd_frame w2))"
        then have i: "i < META_BYTES" by simp
        have "wd_frame w2 ! i = wd_disk w1 i" using D(3)[OF True, of i] i by (simp add: rw_layout)
        also have "\<dots> = ?meta ! i" using P(4)[OF None] i by (simp add: synced_def)
        finally show "take META_BYTES (wd_frame w2) ! i = ?meta ! i" using i by simp
      qed
      have magic: "take (length RW_MAGIC) ?meta = RW_MAGIC" by (simp add: copy_at_def RW_MAGIC_def rw_layout)
      have m2: "take (length RW_MAGIC) (take META_BYTES (wd_frame w2)) = RW_MAGIC" unfolding bk by (rule magic)
      then have m3: "take (min (length RW_MAGIC) META_BYTES) (wd_frame w2) = RW_MAGIC" by (simp only: take_take)
      have "res = Inr ?mt" "w' = w2"
        using assms(3) False p None rd True bk m3 by (simp_all add: rwfs_format_def Let_def)
      moreover have "synced ?mt w2" using P(4)[OF None] D(1) by (simp add: synced_def)
      ultimately show ?thesis using D(2) ds empty inv by simp
    qed
  qed
qed

datatype rw_op = Create "u8 list" "u8 list" | Read "u8 list" nat | Delete "u8 list"
datatype rw_result = Done | Bytes "u8 list" | Failed rwfs_error

fun rw_exec :: "device \<Rightarrow> rw_op \<Rightarrow> mount \<times> world \<Rightarrow> rw_result \<times> mount \<times> world" where
  "rw_exec dev (Create name data) (mt, w) =
     (let (r, mt', w') = rwfs_create dev mt name data w in (case r of None \<Rightarrow> Done | Some e \<Rightarrow> Failed e, mt', w'))"
| "rw_exec dev (Read name n) (mt, w) =
     (let (r, w') = rwfs_read dev mt name n w in (case r of Inl e \<Rightarrow> Failed e | Inr d \<Rightarrow> Bytes d, mt, w'))"
| "rw_exec dev (Delete name) (mt, w) =
     (let (r, mt', w') = rwfs_delete dev mt name w in (case r of None \<Rightarrow> Done | Some e \<Rightarrow> Failed e, mt', w'))"

fun rw_run :: "device \<Rightarrow> rw_op list \<Rightarrow> mount \<times> world \<Rightarrow> (rw_op \<times> rw_result) list \<times> mount \<times> world" where
  "rw_run dev [] s = ([], s)"
| "rw_run dev (x # xs) s =
     (let (r, s1) = rw_exec dev x s; (rs, s2) = rw_run dev xs s1 in ((x, r) # rs, s2))"

text \<open>The abstract store: what a client may conclude from the results alone.\<close>

inductive store_step :: "(u8 list \<rightharpoonup> u8 list) \<Rightarrow> rw_op \<times> rw_result \<Rightarrow> (u8 list \<rightharpoonup> u8 list) \<Rightarrow> bool" where
  created: "m name = None \<Longrightarrow> store_step m (Create name data, Done) (m(name \<mapsto> data))"
| refused: "e = Io \<or> e = InvalidLen \<and> (data = [] \<or> MAX_FILE_BYTES < length data) \<or> e = DirErr Duplicate \<and> m name \<noteq> None \<or>
    e = DirErr Full \<and> card (dom m) = MAX_ENTRIES \<or> e \<in> range BitmapErr \<Longrightarrow> store_step m (Create name data, Failed e) m"
| half: "m name = None \<Longrightarrow> store_step m (Create name data, Failed Io) (m(name \<mapsto> data))"
| got: "m name = Some d \<Longrightarrow> length d \<le> n \<Longrightarrow> store_step m (Read name n, Bytes d) m"
| unread: "m name = None \<or> e = Io \<or> (\<exists>d. m name = Some d \<and> n < length d) \<Longrightarrow> store_step m (Read name n, Failed e) m"
| deleted: "m name = Some d \<Longrightarrow> store_step m (Delete name, Done) (m(name := None))"
| absent: "m name = None \<Longrightarrow> store_step m (Delete name, Failed e) m"
| undeleted: "m name = Some d \<Longrightarrow> store_step m (Delete name, Failed Io) (m(name := None))"

fun store_run :: "(u8 list \<rightharpoonup> u8 list) \<Rightarrow> (rw_op \<times> rw_result) list \<Rightarrow> (u8 list \<rightharpoonup> u8 list) \<Rightarrow> bool" where
  "store_run m [] m' \<longleftrightarrow> m' = m"
| "store_run m (x # xs) m' \<longleftrightarrow> (\<exists>m1. store_step m x m1 \<and> store_run m1 xs m')"

fun plain_op :: "rw_op \<Rightarrow> bool" where
  "plain_op (Create name _) = plain_name name"
| "plain_op _ = True"

lemma rw_exec_step:
  assumes "device_ok dev" "mount_inv mt" "length (wd_frame w) = 4096" "plain_op x" "rw_exec dev x (mt, w) = (r, mt', w')"
  shows "mount_inv mt' \<and> length (wd_frame w') = 4096 \<and> store_step (files mt w) (x, r) (files mt' w') \<and>
    (r = Failed Io \<longrightarrow> \<not> never_fails dev)"
proof (cases x)
  case (Create name data)
  obtain e mt1 w1 where c: "rwfs_create dev mt name data w = (e, mt1, w1)" by (rule prod_cases3)
  have r: "r = (case e of None \<Rightarrow> Done | Some e \<Rightarrow> Failed e)" "mt' = mt1" "w' = w1" using assms(5) c by (simp_all add: Create)
  have "plain_name name" using assms(4) by (simp add: Create)
  note T = rwfs_created[OF assms(1-3) this c]
  show ?thesis
  proof (cases e)
    case None
    then show ?thesis using T by (auto simp: r Create intro: store_step.created)
  next
    case (Some er)
    then show ?thesis
      using T by (cases er) (auto simp: r Create intro: store_step.half intro!: store_step.refused)
  qed
next
  case (Read name n)
  obtain e w1 where c: "rwfs_read dev mt name n w = (e, w1)" by (rule prod.exhaust)
  have r: "r = (case e of Inl e \<Rightarrow> Failed e | Inr d \<Rightarrow> Bytes d)" "mt' = mt" "w' = w1" using assms(5) c by (simp_all add: Read)
  note T = rwfs_read_file[OF assms(1-3) c]
  then show ?thesis
    using assms(2) by (auto simp: r Read not_less intro: store_step.intros split: option.splits if_splits)
next
  case (Delete name)
  obtain e mt1 w1 where c: "rwfs_delete dev mt name w = (e, mt1, w1)" by (rule prod_cases3)
  have r: "r = (case e of None \<Rightarrow> Done | Some e \<Rightarrow> Failed e)" "mt' = mt1" "w' = w1" using assms(5) c by (simp_all add: Delete)
  note T = rwfs_deleted[OF assms(1-3) c]
  have "files mt w name = None \<Longrightarrow> (files mt w)(name := None) = files mt w" by (simp add: fun_upd_idem)
  then show ?thesis
    using T by (auto simp: r Delete intro: store_step.intros split: if_splits)
qed

lemma rw_run_steps:
  assumes "device_ok dev" "mount_inv mt" "length (wd_frame w) = 4096" "\<forall>x \<in> set xs. plain_op x" "rw_run dev xs (mt, w) = (h, mt', w')"
  shows "mount_inv mt' \<and> map fst h = xs \<and> store_run (files mt w) h (files mt' w') \<and>
    (never_fails dev \<longrightarrow> Failed Io \<notin> snd ` set h)"
  using assms(2-)
proof (induction xs arbitrary: mt w h)
  case (Cons x xs)
  obtain r mt1 w1 where x: "rw_exec dev x (mt, w) = (r, mt1, w1)" by (rule prod_cases3)
  obtain h1 mt2 w2 where xs: "rw_run dev xs (mt1, w1) = (h1, mt2, w2)" by (rule prod_cases3)
  have e: "h = (x, r) # h1" "mt' = mt2" "w' = w2" using Cons.prems(4) x xs by simp_all
  have p: "plain_op x" "\<forall>x \<in> set xs. plain_op x" using Cons.prems(3) by simp_all
  note S = rw_exec_step[OF assms(1) Cons.prems(1,2) p(1) x]
  have "mount_inv mt' \<and> map fst h1 = xs \<and> store_run (files mt1 w1) h1 (files mt' w') \<and>
      (never_fails dev \<longrightarrow> Failed Io \<notin> snd ` set h1)"
    using Cons.IH[of mt1 w1 h1] S p(2) xs e by simp
  then show ?case using S by (auto simp: e(1))
qed simp

text \<open>
  C31. The file system is a store.  On a freshly formatted range of at most 4100 sectors, after any sequence
  of creations under plain names, reads and deletions, on a device that may fail any transfer: the
  results are those of a finite map from names to contents, read data is exactly what was created and
  not deleted since, a refused operation leaves the map alone, a failed transfer has all or
  none of its effect and a reliable device fails none, and the sectors are again each free or in exactly one file.
\<close>
theorem rwfs_refines_store:
  assumes "device_ok dev" "length (wd_frame w0) = 4096" "unat nsec \<le> 4100"
    and "rwfs_format dev rs fs va nsec w0 = (Inr mt, w)"
    and "\<forall>x \<in> set xs. plain_op x" "rw_run dev xs (mt, w) = (h, mt', w')"
  shows "map fst h = xs \<and> store_run Map.empty h (files mt' w') \<and> mount_inv mt' \<and>
    (never_fails dev \<longrightarrow> Failed Io \<notin> snd ` set h)"
proof -
  note F = formatted[OF assms(1,2,4)]
  then have "mount_inv mt" "length (wd_frame w) = 4096" "files mt w = Map.empty" using assms(3) by simp_all
  then show ?thesis using rw_run_steps[OF assms(1) _ _ assms(5,6)] by metis
qed

text \<open>A device that never fails.\<close>

definition ram_read :: "u64 \<Rightarrow> u64 \<Rightarrow> u64 \<Rightarrow> u64 \<Rightarrow> world \<Rightarrow> u64 \<times> world" where
  "ram_read r f s n w = (RING_OK, w\<lparr>wd_frame := map (\<lambda>i. if i < unat n * SECTOR then wd_disk w (unat s * SECTOR + i) else wd_frame w ! i)
     [0..<length (wd_frame w)]\<rparr>)"

definition ram_write :: "u64 \<Rightarrow> u64 \<Rightarrow> u64 \<Rightarrow> u64 \<Rightarrow> world \<Rightarrow> u64 \<times> world" where
  "ram_write r f s n w = (RING_OK, w\<lparr>wd_disk := \<lambda>a. if unat s * SECTOR \<le> a \<and> a < (unat s + unat n) * SECTOR
     then wd_frame w ! (a - unat s * SECTOR) else wd_disk w a\<rparr>)"

definition ram_device :: device where "ram_device = \<lparr>dev_read = ram_read, dev_write = ram_write\<rparr>"

lemma ram_device_ok: "device_ok ram_device"
  by (auto simp: device_ok_def ram_device_def ram_read_def ram_write_def add_mult_distrib)

definition blank :: world where "blank = \<lparr>wd_frame = replicate 4096 0, wd_disk = (\<lambda>_. 7)\<rparr>"

lemma ram_never_fails: "never_fails ram_device"
  by (simp add: never_fails_def ram_device_def ram_read_def ram_write_def)

lemma ram_format: "\<exists>mt w. rwfs_format ram_device 1 2 0x400000 36 blank = (Inr mt, w)"
proof -
  obtain r w where f: "rwfs_format ram_device 1 2 0x400000 36 blank = (r, w)" by (rule prod.exhaust)
  have "length (wd_frame blank) = 4096" by (simp add: blank_def)
  note F = formatted[OF ram_device_ok this f]
  show ?thesis
  proof (cases r)
    case (Inl e)
    then show ?thesis using F ram_never_fails by (cases e) (auto simp: rw_layout)
  next
    case (Inr mt)
    then show ?thesis using f by blast
  qed
qed

lemma ram_session:
  obtains h mt w mt' w' where "rwfs_format ram_device 1 2 0x400000 36 blank = (Inr mt, w)"
    "rw_run ram_device xs (mt, w) = (h, mt', w')"
proof -
  obtain mt w where f: "rwfs_format ram_device 1 2 0x400000 36 blank = (Inr mt, w)" using ram_format by blast
  obtain h mt' w' where "rw_run ram_device xs (mt, w) = (h, mt', w')" by (rule prod_cases3)
  then show ?thesis using that f by blast
qed

inductive_simps store_step_create: "store_step m (Create name data, r) m'"
inductive_simps store_step_read: "store_step m (Read name n, r) m'"

lemma rwfs_refines_store_witness:
  "\<exists>mt w h mt' w' r q. rwfs_format ram_device 1 2 0x400000 36 blank = (Inr mt, w) \<and>
     rw_run ram_device [Create [0x61] [1, 2, 3], Read [0x61] 64] (mt, w) = (h, mt', w') \<and>
     h = [(Create [0x61] [1, 2, 3], r), (Read [0x61] 64, q)] \<and> (r = Done \<longrightarrow> q = Bytes [1, 2, 3])"
proof -
  let ?xs = "[Create [0x61] [1, 2, 3], Read [0x61] 64]"
  obtain h mt w mt' w' where S: "rwfs_format ram_device 1 2 0x400000 36 blank = (Inr mt, w)"
    "rw_run ram_device ?xs (mt, w) = (h, mt', w')" by (rule ram_session)
  have "length (wd_frame blank) = 4096" "unat (36 :: u64) \<le> 4100" "\<forall>x \<in> set ?xs. plain_op x"
    by (simp_all add: blank_def plain_name_def NAME_LEN_def)
  from rwfs_refines_store[OF ram_device_ok this(1,2) S(1) this(3) S(2)] ram_never_fails
  have T: "map fst h = ?xs" "store_run Map.empty h (files mt' w')" "Failed Io \<notin> snd ` set h" by simp_all
  from T(1) obtain r q where h: "h = [(Create [0x61] [1, 2, 3], r), (Read [0x61] 64, q)]" by (auto simp: map_eq_Cons_conv)
  have "q = Bytes [1, 2, 3]" if "r = Done"
    using T(2,3) that by (auto simp: h store_step_create store_step_read)
  then show ?thesis using S h by blast
qed

text \<open>
  What was created is what is read.  After a creation that reported success, a read into a buffer at
  least as long returns exactly the bytes given, on every device that keeps its contract, unless the
  transfer itself fails.
\<close>
lemma create_read_roundtrip:
  assumes "device_ok dev" "mount_inv mt" "length (wd_frame w) = 4096" "plain_name name"
    and "rwfs_create dev mt name data w = (None, mt', w')"
    and "rwfs_read dev mt' name n w' = (r, w2)" "length data \<le> n"
  shows "r = Inr data \<or> r = Inl Io \<and> \<not> never_fails dev"
  using rwfs_created[OF assms(1-5)] rwfs_read_file[OF assms(1) _ _ assms(6)] assms(7) by auto

text \<open>An empty formatted mount, and room in it.\<close>

lemma ram_create:
  assumes "rwfs_format ram_device 1 2 0x400000 36 blank = (Inr mt, w)" "plain_name name" "data \<noteq> []" "length data \<le> 512"
  shows "\<exists>mt' w'. rwfs_create ram_device mt name data w = (None, mt', w')" "mount_inv mt" "length (wd_frame w) = 4096"
proof -
  have l: "length (wd_frame blank) = 4096" by (simp add: blank_def)
  note F = formatted[OF ram_device_ok l assms(1)]
  then show inv: "mount_inv mt" and w: "length (wd_frame w) = 4096" by simp_all
  have e: "files mt w = Map.empty" and ds: "unat (mt_data_sectors mt) = 32" using F by (simp_all add: rw_layout)
  have none: "dir_map (dir_slice (mt_meta mt)) = Map.empty"
  proof (rule ext)
    show "dir_map (dir_slice (mt_meta mt)) nm = Map.empty nm" for nm using fun_cong[OF e, of nm] by (simp add: files_def)
  qed
  note I = mount_invD[OF inv]
  have "dir_list (dir_slice (mt_meta mt)) = []"
    using none by (cases "dir_list (dir_slice (mt_meta mt))") (auto simp: dir_map_def)
  then have av: "bm_avail 32 (bitmap_slice (mt_meta mt)) = {..<32}"
    using I(4) by (simp add: ds sectors.accounted_def sectors.grants_def)
  have dc: "div_ceil (length data) SECTOR = 1" using assms(3,4) by (cases data) (simp_all add: div_ceil_def rw_layout)
  have fr: "free_run 32 (bitmap_slice (mt_meta mt)) 1 0" by (simp add: free_run_def av)
  obtain r mt' w' where c: "rwfs_create ram_device mt name data w = (r, mt', w')" by (rule prod_cases3)
  note T = rwfs_created[OF ram_device_ok inv w assms(2) c]
  have "r = None"
  proof (cases r)
    case (Some er)
    then show ?thesis
      using T[unfolded dc ds] ram_never_fails e assms(3,4) fr by (cases er) (auto simp: rw_layout MAX_ENTRIES_def)
  qed
  then show "\<exists>mt' w'. rwfs_create ram_device mt name data w = (None, mt', w')" using c by blast
qed

lemma create_read_roundtrip_witness:
  "\<exists>mt w mt' w' w2. rwfs_format ram_device 1 2 0x400000 36 blank = (Inr mt, w) \<and>
     rwfs_create ram_device mt [0x61] [1, 2, 3] w = (None, mt', w') \<and> rwfs_read ram_device mt' [0x61] 64 w' = (Inr [1, 2, 3], w2)"
proof -
  obtain mt w where f: "rwfs_format ram_device 1 2 0x400000 36 blank = (Inr mt, w)" using ram_format by blast
  have p: "plain_name [0x61]" by (simp add: plain_name_def NAME_LEN_def)
  note C = ram_create[OF f p, of "[1, 2, 3]"]
  obtain mt' w' where c: "rwfs_create ram_device mt [0x61] [1, 2, 3] w = (None, mt', w')" using C(1) by auto
  obtain r w2 where r: "rwfs_read ram_device mt' [0x61] 64 w' = (r, w2)" by (rule prod.exhaust)
  have "mount_inv mt" "length (wd_frame w) = 4096" using C(2,3) by simp_all
  from create_read_roundtrip[OF ram_device_ok this p c r] ram_never_fails have "r = Inr [1, 2, 3]" by simp
  then show ?thesis using f c r by blast
qed

text \<open>
  C32. A failed creation rolls back.  When a creation reports an error the mount's metadata is
  byte for byte what it was and no file changed; the one exception is a failure of the last step, the
  rewrite of the metadata, after which the new file stays in the mount.
\<close>
theorem failed_create_rolls_back:
  assumes "device_ok dev" "mount_inv mt" "length (wd_frame w) = 4096" "plain_name name"
    and "rwfs_create dev mt name data w = (Some e, mt', w')"
  shows "mt' = mt \<and> files mt' w' = files mt w \<or>
    e = Io \<and> (\<exists>v. persist_meta dev mt' v = (Some Io, w')) \<and> files mt' w' = (files mt w)(name \<mapsto> data)"
  using rwfs_created[OF assms] by (cases e) auto

lemma failed_create_rolls_back_witness:
  "\<exists>mt w. rwfs_format ram_device 1 2 0x400000 36 blank = (Inr mt, w) \<and>
     rwfs_create ram_device mt [0x61] [] w = (Some InvalidLen, mt, w)"
proof -
  obtain mt w where f: "rwfs_format ram_device 1 2 0x400000 36 blank = (Inr mt, w)" using ram_format by blast
  have p: "plain_name [0x61]" by (simp add: plain_name_def NAME_LEN_def)
  note C = ram_create[OF f p, of "[1]"]
  have inv: "mount_inv mt" "length (wd_frame w) = 4096" using C(2,3) by simp_all
  obtain mt' w' where c: "rwfs_create ram_device mt [0x61] [] w = (Some InvalidLen, mt', w')" "w' = w" by (auto simp: rwfs_create_def)
  then show ?thesis using failed_create_rolls_back[OF ram_device_ok inv p c(1)] f by auto
qed

end
