(* ===== verification/Archive.thy ===== *)
theory Archive
  imports Rwfs_Directory
begin

text \<open>
  The read-only boot archive: the parser of the file-system library (\<open>libfs/src/archive.rs\<close>) and the
  builder of the build tool (\<open>archive_image\<close> of \<open>xtask/src/main.rs\<close>).  The two share no code; the
  theorem at the end is that the reader finds what the writer stored.  The reader's field read is
  \<open>rd_u32\<close> of the prelude, the same function as the ELF loader's.
\<close>

definition ARC_SECTOR :: nat where "ARC_SECTOR = 512"
definition ARC_MAGIC :: "u8 list" where "ARC_MAGIC = [0x50, 0x4C, 0x4E, 0x54, 0x48, 0x41, 0x52, 0x31]"
definition ARC_ENTRY_SIZE :: nat where "ARC_ENTRY_SIZE = 40"
definition ARC_NAME_LEN :: nat where "ARC_NAME_LEN = 32"
definition SB_USED :: nat where "SB_USED = 20"

datatype fs_error = SbTruncated | SbBadMagic | DirTruncated | DirOverflow | ProgNotFound

record superblock =
  entry_count :: u32
  dir_sectors :: u32
  total_sectors :: u32

record blob =
  blob_sector :: u32
  blob_len :: u32

section \<open>The reader\<close>

definition dir_bytes_len :: "superblock \<Rightarrow> fs_error + nat" where
  "dir_bytes_len sb =
     (if unat (entry_count sb) * ARC_ENTRY_SIZE < 2 ^ 64 then Inr (unat (entry_count sb) * ARC_ENTRY_SIZE) else Inl DirOverflow)"

definition blob_sector_count :: "blob \<Rightarrow> nat" where
  "blob_sector_count b = div_ceil (unat (blob_len b)) ARC_SECTOR"

definition parse_superblock :: "u8 list \<Rightarrow> fs_error + superblock" where
  "parse_superblock sector0 =
     (if length sector0 < SB_USED then Inl SbTruncated
      else if take (length ARC_MAGIC) sector0 \<noteq> ARC_MAGIC then Inl SbBadMagic
      else ok_or (rd_u32 sector0 8) SbTruncated (\<lambda>n.
           ok_or (rd_u32 sector0 12) SbTruncated (\<lambda>d.
           ok_or (rd_u32 sector0 16) SbTruncated (\<lambda>t.
             Inr \<lparr>entry_count = n, dir_sectors = d, total_sectors = t\<rparr>))))"

definition arc_name_eq :: "u8 list \<Rightarrow> u8 list \<Rightarrow> bool" where
  "arc_name_eq field name \<longleftrightarrow>
     take (case position (\<lambda>b. b = 0) field of None \<Rightarrow> length field | Some i \<Rightarrow> i) field = name"

text \<open>One step of the iterator: \<open>None\<close> is an entry that \<open>filter_map\<close> leaves out.\<close>

definition arc_entry :: "u8 list \<Rightarrow> nat \<Rightarrow> (u8 list \<times> blob) option" where
  "arc_entry dir i =
     (if i * ARC_ENTRY_SIZE \<ge> 2 ^ 64 then None
      else (case slice dir (i * ARC_ENTRY_SIZE) ARC_ENTRY_SIZE of
              None \<Rightarrow> None
            | Some rec \<Rightarrow>
                (case rd_u32 rec 32 of
                   None \<Rightarrow> None
                 | Some s \<Rightarrow>
                     (case rd_u32 rec 36 of
                        None \<Rightarrow> None
                      | Some l \<Rightarrow> Some (take ARC_NAME_LEN rec, \<lparr>blob_sector = s, blob_len = l\<rparr>)))))"

definition arc_entries :: "u8 list \<Rightarrow> superblock \<Rightarrow> (u8 list \<times> blob) list" where
  "arc_entries dir sb = List.map_filter (arc_entry dir) [0..<unat (entry_count sb)]"

definition arc_find :: "u8 list \<Rightarrow> superblock \<Rightarrow> u8 list \<Rightarrow> fs_error + blob" where
  "arc_find dir sb name =
     try_in (dir_bytes_len sb) (\<lambda>need.
       if length dir < need then Inl DirTruncated
       else (case find (\<lambda>(field, e). arc_name_eq field name) (arc_entries dir sb) of
               None \<Rightarrow> Inl ProgNotFound
             | Some (_, e) \<Rightarrow> Inr e))"

section \<open>The writer\<close>

text \<open>One iteration of the loop over the programs: the directory, the blobs and the sector cursor.\<close>

definition arc_add :: "nat \<Rightarrow> u8 list \<Rightarrow> u8 list \<Rightarrow> u8 list \<times> u8 list \<times> nat \<Rightarrow> u8 list \<times> u8 list \<times> nat" where
  "arc_add i name bytes = (\<lambda>(dir, blobs, cursor).
     (copy_at (copy_at (copy_at dir (i * ARC_ENTRY_SIZE) name)
        (i * ARC_ENTRY_SIZE + 32) (le_bytes 4 (unat (of_nat cursor :: u32))))
        (i * ARC_ENTRY_SIZE + 36) (le_bytes 4 (unat (of_nat (length bytes) :: u32))),
      blobs @ bytes @ replicate (div_ceil (length bytes) ARC_SECTOR * ARC_SECTOR - length bytes) 0,
      cursor + div_ceil (length bytes) ARC_SECTOR))"

fun arc_fill :: "nat \<Rightarrow> (u8 list \<times> u8 list) list \<Rightarrow> u8 list \<times> u8 list \<times> nat \<Rightarrow> u8 list \<times> u8 list \<times> nat" where
  "arc_fill i [] s = s"
| "arc_fill i ((name, bytes) # ps) s = arc_fill (Suc i) ps (arc_add i name bytes s)"

text \<open>The structural self-check of one program.\<close>

definition arc_check :: "u8 list \<Rightarrow> u8 list \<Rightarrow> nat \<Rightarrow> u8 list \<Rightarrow> bool" where
  "arc_check img dir i bytes \<longleftrightarrow>
     (let rec = take ARC_ENTRY_SIZE (drop (i * ARC_ENTRY_SIZE) dir);
          first = unat (rec_u32 rec 32);
          len = unat (rec_u32 rec 36);
          off = first * ARC_SECTOR
      in len = length bytes \<and> take len (drop off img) = bytes)"

text \<open>\<open>None\<close> is a failed assertion of the build.\<close>

definition archive_image :: "(u8 list \<times> u8 list) list \<Rightarrow> u8 list option" where
  "archive_image progs =
     (if \<exists>(name, _) \<in> set progs. length name > ARC_NAME_LEN then None
      else
        let dir_secs = div_ceil (length progs * ARC_ENTRY_SIZE) ARC_SECTOR;
            (dir, blobs, cursor) = arc_fill 0 progs (replicate (dir_secs * ARC_SECTOR) 0, [], 1 + dir_secs);
            total_secs = of_nat cursor :: u32;
            sb = copy_at (copy_at (copy_at (copy_at (replicate ARC_SECTOR 0) 0 ARC_MAGIC)
                   8 (le_bytes 4 (unat (of_nat (length progs) :: u32))))
                   12 (le_bytes 4 (unat (of_nat dir_secs :: u32))))
                   16 (le_bytes 4 (unat total_secs));
            img = sb @ dir @ blobs
        in if length img \<noteq> unat total_secs * ARC_SECTOR then None
           else if \<exists>i < length progs. \<not> arc_check img dir i (snd (progs ! i)) then None
           else Some img)"

section \<open>The layout the writer produces\<close>

lemma arc_layout: "ARC_SECTOR = 512" "ARC_ENTRY_SIZE = 40" "ARC_NAME_LEN = 32"
  by (simp_all add: ARC_SECTOR_def ARC_ENTRY_SIZE_def ARC_NAME_LEN_def)

definition arc_secs :: "(u8 list \<times> u8 list) list \<Rightarrow> nat" where
  "arc_secs ps = sum_list (map (\<lambda>(_, b). div_ceil (length b) ARC_SECTOR) ps)"

definition arc_blobs :: "(u8 list \<times> u8 list) list \<Rightarrow> u8 list" where
  "arc_blobs ps = concat (map (\<lambda>(_, b). b @ replicate (div_ceil (length b) ARC_SECTOR * ARC_SECTOR - length b) 0) ps)"

lemma arc_blobs_length: "length (arc_blobs ps) = arc_secs ps * ARC_SECTOR"
proof (induction ps)
  case (Cons p ps)
  have "length (snd p) \<le> div_ceil (length (snd p)) ARC_SECTOR * ARC_SECTOR"
    by (rule div_ceil_mult_ge) (simp add: ARC_SECTOR_def)
  then show ?case using Cons by (simp add: arc_blobs_def arc_secs_def case_prod_beta add_mult_distrib)
qed (simp add: arc_blobs_def arc_secs_def)

lemma copy_at_nested:
  assumes "o' + length xs \<le> n" "off + n \<le> length b"
  shows "copy_at b (off + o') xs = copy_at b off (copy_at (take n (drop off b)) o' xs)"
  by (rule nth_equalityI) (use assms in \<open>auto simp: copy_at_nth\<close>)

lemma copy_at_mono_slice:
  assumes "off + length xs \<le> length b"
  shows "take (length xs) (drop off (copy_at b off xs)) = xs"
  using copy_at_slice(1)[OF assms] .

text \<open>Filling a record that was zero.\<close>

lemma arc_record:
  assumes "length name \<le> ARC_NAME_LEN" "i * 40 + 40 \<le> length dir" "take 40 (drop (i * 40) dir) = replicate 40 0"
  shows "copy_at (copy_at (copy_at dir (i * 40) name) (i * 40 + 32) (le_bytes 4 (unat s))) (i * 40 + 36) (le_bytes 4 (unat l)) =
    copy_at dir (i * 40) (new_record name s l)"
proof -
  let ?o = "i * 40"
  let ?r0 = "replicate 40 0 :: u8 list"
  let ?r1 = "copy_at ?r0 0 name"
  let ?r2 = "copy_at ?r1 32 (le_bytes 4 (unat s))"
  have n: "length name \<le> 32" using assms(1) by (simp add: arc_layout)
  have l: "length ?r1 = 40" "length ?r2 = 40" using n by simp_all
  have sl: "length r = 40 \<Longrightarrow> take 40 (drop ?o (copy_at dir ?o r)) = r" for r
    using copy_at_slice(1)[of ?o r dir] assms(2) by simp
  have tw: "length r = 40 \<Longrightarrow> length r' = 40 \<Longrightarrow> copy_at (copy_at dir ?o r) ?o r' = copy_at dir ?o r'" for r r'
    using copy_at_twice[of ?o r dir r'] assms(2) by simp
  have ln: "length r = 40 \<Longrightarrow> length (copy_at dir ?o r) = length dir" for r :: "u8 list" using assms(2) by simp
  have "copy_at dir ?o name = copy_at dir ?o ?r1"
    using copy_at_nested[of 0 name 40 ?o dir] assms(2,3) n by simp
  moreover have "copy_at (copy_at dir ?o ?r1) (?o + 32) (le_bytes 4 (unat s)) = copy_at dir ?o ?r2"
    using copy_at_nested[of 32 "le_bytes 4 (unat s)" 40 ?o "copy_at dir ?o ?r1"] sl[OF l(1)] tw[OF l(1) l(2)] ln[OF l(1)] assms(2)
    by simp
  moreover have "copy_at (copy_at dir ?o ?r2) (?o + 36) (le_bytes 4 (unat l)) = copy_at dir ?o (new_record name s l)"
    using copy_at_nested[of 36 "le_bytes 4 (unat l)" 40 ?o "copy_at dir ?o ?r2"] sl[OF l(2)] tw[OF l(2)] ln[OF l(2)] assms(2) l
    by (simp add: new_record_def dir_layout)
  ultimately show ?thesis by simp
qed

lemma arc_add_record:
  assumes "length name \<le> ARC_NAME_LEN" "i * 40 + 40 \<le> length dir" "take 40 (drop (i * 40) dir) = replicate 40 0"
  shows "arc_add i name bytes (dir, blobs, cursor) =
    (copy_at dir (i * 40) (new_record name (of_nat cursor) (of_nat (length bytes))),
     blobs @ arc_blobs [(name, bytes)], cursor + arc_secs [(name, bytes)])"
  using arc_record[OF assms] by (simp add: arc_add_def arc_layout arc_blobs_def arc_secs_def)

lemma slot_apart:
  assumes "i * 40 + 40 \<le> length dir" "length r = 40" "j \<noteq> i"
  shows "take 40 (drop (j * 40) (copy_at dir (i * 40) r)) = take 40 (drop (j * 40) dir)"
proof -
  have "Suc j \<le> i \<or> Suc i \<le> j" using assms(3) by auto
  then have "j * 40 + 40 \<le> i * 40 \<or> i * 40 + 40 \<le> j * 40" by auto
  then show ?thesis using copy_at_slice(2)[of "i * 40" r dir "j * 40" 40] assms(1,2) by simp
qed

lemma arc_fill_layout:
  assumes "\<forall>(name, _) \<in> set ps. length name \<le> ARC_NAME_LEN" "(i + length ps) * 40 \<le> length dir"
    and "\<forall>k. i \<le> k \<and> k < i + length ps \<longrightarrow> take 40 (drop (k * 40) dir) = replicate 40 0"
  shows "\<exists>dir'. arc_fill i ps (dir, blobs, cursor) = (dir', blobs @ arc_blobs ps, cursor + arc_secs ps) \<and>
    length dir' = length dir \<and> (\<forall>k < i. take 40 (drop (k * 40) dir') = take 40 (drop (k * 40) dir)) \<and>
    (\<forall>j < length ps. take 40 (drop ((i + j) * 40) dir') =
       new_record (fst (ps ! j)) (of_nat (cursor + arc_secs (take j ps))) (of_nat (length (snd (ps ! j)))))"
  using assms
proof (induction ps arbitrary: i dir blobs cursor)
  case Nil
  then show ?case by (simp add: arc_blobs_def arc_secs_def)
next
  case (Cons p ps)
  obtain name bytes where p: "p = (name, bytes)" by (cases p)
  let ?r = "new_record name (of_nat cursor) (of_nat (length bytes))"
  let ?d = "copy_at dir (i * 40) ?r"
  have n: "length name \<le> ARC_NAME_LEN" using Cons.prems(1) by (simp add: p)
  have fit: "i * 40 + 40 \<le> length dir" using Cons.prems(2) by simp
  have z: "take 40 (drop (i * 40) dir) = replicate 40 0" using Cons.prems(3) by simp
  have rl: "length ?r = 40" using new_record_length[of name] n by (simp add: arc_layout dir_layout)
  have dl: "length ?d = length dir" using fit rl by simp
  note A = arc_add_record[OF n fit z, of bytes blobs cursor]
  have "(Suc i + length ps) * 40 \<le> length ?d" using Cons.prems(2) dl by simp
  moreover have "\<forall>k. Suc i \<le> k \<and> k < Suc i + length ps \<longrightarrow> take 40 (drop (k * 40) ?d) = replicate 40 0"
    using Cons.prems(3) slot_apart[OF fit rl] by auto
  ultimately obtain dir' where IH:
    "arc_fill (Suc i) ps (?d, blobs @ arc_blobs [p], cursor + arc_secs [p]) =
      (dir', (blobs @ arc_blobs [p]) @ arc_blobs ps, (cursor + arc_secs [p]) + arc_secs ps)"
    "length dir' = length ?d" "\<forall>k < Suc i. take 40 (drop (k * 40) dir') = take 40 (drop (k * 40) ?d)"
    "\<forall>j < length ps. take 40 (drop ((Suc i + j) * 40) dir') =
      new_record (fst (ps ! j)) (of_nat ((cursor + arc_secs [p]) + arc_secs (take j ps))) (of_nat (length (snd (ps ! j))))"
    using Cons.IH[of "Suc i" ?d "blobs @ arc_blobs [p]" "cursor + arc_secs [p]"] Cons.prems(1) by auto
  have "arc_fill i (p # ps) (dir, blobs, cursor) = (dir', blobs @ arc_blobs (p # ps), cursor + arc_secs (p # ps))"
    using IH(1) A by (simp add: p arc_blobs_def arc_secs_def)
  moreover have "take 40 (drop (k * 40) dir') = take 40 (drop (k * 40) dir)" if "k < i" for k
    using IH(3) that slot_apart[OF fit rl, of k] by simp
  moreover have "take 40 (drop ((i + j) * 40) dir') =
      new_record (fst ((p # ps) ! j)) (of_nat (cursor + arc_secs (take j (p # ps)))) (of_nat (length (snd ((p # ps) ! j))))"
    if "j < length (p # ps)" for j
  proof (cases j)
    case 0
    have "take 40 (drop (i * 40) ?d) = ?r" using copy_at_slice(1)[of "i * 40" ?r dir] fit rl by simp
    then show ?thesis using IH(3) by (simp add: 0 p arc_secs_def)
  next
    case (Suc j')
    have s: "(cursor + arc_secs [p]) + arc_secs (take j' ps) = cursor + arc_secs (take j (p # ps))" by (simp add: Suc arc_secs_def)
    have "Suc i + j' = i + j" by (simp add: Suc)
    then show ?thesis using IH(4)[rule_format, of j', unfolded s] that Suc by (simp del: of_nat_add)
  qed
  ultimately show ?case using IH(2) dl by auto
qed

lemma arc_filled:
  assumes "\<forall>(name, _) \<in> set progs. length name \<le> 32"
  obtains dir where "arc_fill 0 progs (replicate (div_ceil (length progs * 40) 512 * 512) 0, [], 1 + div_ceil (length progs * 40) 512) =
      (dir, arc_blobs progs, 1 + div_ceil (length progs * 40) 512 + arc_secs progs)"
    "length dir = div_ceil (length progs * 40) 512 * 512"
    "\<forall>j < length progs. take 40 (drop (j * 40) dir) =
       new_record (fst (progs ! j)) (of_nat (1 + div_ceil (length progs * 40) 512 + arc_secs (take j progs)))
         (of_nat (length (snd (progs ! j))))"
proof -
  let ?ds = "div_ceil (length progs * 40) 512"
  let ?z = "replicate (?ds * 512) (0 :: u8)"
  have fits: "length progs * 40 \<le> ?ds * 512" by (rule div_ceil_mult_ge) simp
  have zero: "take 40 (drop (k * 40) ?z) = replicate 40 0" if "k < length progs" for k
  proof -
    have "k * 40 + 40 \<le> ?ds * 512" using fits that by simp
    then show ?thesis by simp
  qed
  show ?thesis
    using arc_fill_layout[of progs 0 ?z "[]" "1 + ?ds"] assms fits zero that by (auto simp: arc_layout)
qed

text \<open>What an image that passed the assertions consists of.\<close>

lemma archive_image_Some:
  assumes "archive_image progs = Some img" "length progs < 2 ^ 32"
  obtains sb dir where "img = sb @ dir @ arc_blobs progs" "length sb = 512"
    "parse_superblock sb = Inr \<lparr>entry_count = of_nat (length progs), dir_sectors = of_nat (div_ceil (length progs * 40) 512),
       total_sectors = of_nat (1 + div_ceil (length progs * 40) 512 + arc_secs progs)\<rparr>"
    "length dir = div_ceil (length progs * 40) 512 * 512" "length progs * 40 \<le> length dir"
    "\<forall>(name, _) \<in> set progs. length name \<le> 32"
    "\<forall>j < length progs. take 40 (drop (j * 40) dir) =
       new_record (fst (progs ! j)) (of_nat (1 + div_ceil (length progs * 40) 512 + arc_secs (take j progs)))
         (of_nat (length (snd (progs ! j))))"
    "1 + div_ceil (length progs * 40) 512 + arc_secs progs < 2 ^ 32"
    "\<forall>j < length progs. arc_check img dir j (snd (progs ! j))"
proof -
  let ?ds = "div_ceil (length progs * 40) 512"
  let ?cur = "1 + ?ds + arc_secs progs"
  let ?z = "replicate (?ds * 512) (0 :: u8)"
  have names: "\<forall>(name, _) \<in> set progs. length name \<le> 32"
    using assms(1) by (force simp: archive_image_def arc_layout split: if_splits)
  have fits: "length progs * 40 \<le> ?ds * 512" by (rule div_ceil_mult_ge) simp
  obtain dir where F: "arc_fill 0 progs (?z, [], 1 + ?ds) = (dir, arc_blobs progs, ?cur)" "length dir = ?ds * 512"
    "\<forall>j < length progs. take 40 (drop (j * 40) dir) =
       new_record (fst (progs ! j)) (of_nat (1 + ?ds + arc_secs (take j progs))) (of_nat (length (snd (progs ! j))))"
    by (rule arc_filled[OF names], rule that; assumption)
  let ?sb = "copy_at (copy_at (copy_at (copy_at (replicate 512 0) 0 ARC_MAGIC)
                   8 (le_bytes 4 (unat (of_nat (length progs) :: u32))))
                   12 (le_bytes 4 (unat (of_nat ?ds :: u32))))
                   16 (le_bytes 4 (unat (of_nat ?cur :: u32)))"
  have E: "length (?sb @ dir @ arc_blobs progs) = unat (of_nat ?cur :: u32) * 512"
    "\<forall>i < length progs. arc_check (?sb @ dir @ arc_blobs progs) dir i (snd (progs ! i))"
    "img = ?sb @ dir @ arc_blobs progs"
    using assms(1) F(1) by (auto simp: archive_image_def Let_def arc_layout split: if_splits)
  have sl: "length ?sb = 512" by (simp add: ARC_MAGIC_def)
  have c: "unat (of_nat ?cur :: u32) = ?cur" using E(1) sl F(2) by (simp add: arc_blobs_length arc_layout)
  have "unat (of_nat ?cur :: u32) < 2 ^ 32" using unat_u32_less[of "of_nat ?cur"] by simp
  then have lt: "?cur < 2 ^ 32" using c by simp
  have "parse_superblock ?sb = Inr \<lparr>entry_count = of_nat (length progs), dir_sectors = of_nat ?ds, total_sectors = of_nat ?cur\<rparr>"
    by (simp add: parse_superblock_def SB_USED_def ok_or_def rd_u32_def slice_def copy_at_def ARC_MAGIC_def le_nat_u32)
  then show ?thesis using that[OF E(3) sl _ F(2) _ names F(3) lt] E(2,3) fits F(2) by simp
qed

section \<open>The reader finds what the writer stored\<close>

lemma arc_name_eq_iff: "arc_name_eq field name \<longleftrightarrow> takeWhile (\<lambda>b. b \<noteq> 0) field = name"
  using take_position[where P = "\<lambda>b. b = 0" and xs = field] by (simp add: arc_name_eq_def)

lemma rd_u32_rec:
  assumes "length rec = 40" "off + 4 \<le> 40"
  shows "rd_u32 rec off = Some (rec_u32 rec off)"
  using assms by (simp add: rd_u32_def slice_def rec_u32_def)

lemma arc_entry_record:
  assumes "i * 40 < 2 ^ 64" "i * 40 + 40 \<le> length dir" "take 40 (drop (i * 40) dir) = new_record name s l" "length name \<le> 32"
  shows "arc_entry dir i = Some (name @ replicate (32 - length name) 0, \<lparr>blob_sector = s, blob_len = l\<rparr>)"
proof -
  have n: "length name \<le> NAME_LEN" using assms(4) by (simp add: NAME_LEN_def)
  let ?r = "new_record name s l"
  have rl: "length ?r = 40" using new_record_length[OF n] by (simp add: ENTRY_SIZE_def)
  have "rec_u32 ?r 32 = s" "rec_u32 ?r 36 = l" "take 32 ?r = name @ replicate (32 - length name) 0"
    using new_record_entry[OF n] by (simp_all add: entry_of_def name_field_def dir_layout)
  then show ?thesis
    using assms(1-3) rl by (simp add: arc_entry_def arc_layout slice_def rd_u32_rec)
qed

lemma map_filter_all:
  assumes "\<forall>i < n. f i = Some (g i)"
  shows "List.map_filter f [0..<n] = map g [0..<n]"
  using assms by (induction n) (simp_all add: map_filter_def)

lemma find_distinct:
  assumes "j < n" "P (g j)" "\<forall>i < n. P (g i) \<longrightarrow> i = j"
  shows "find P (map g [0..<n]) = Some (g j)"
proof -
  have "find P (map g [0..<n]) \<noteq> None" using assms(1,2) by (auto simp: find_None_iff)
  then obtain x where x: "find P (map g [0..<n]) = Some x" by blast
  then obtain i where "i < n" "x = g i" "P (g i)" by (auto simp: find_Some_iff)
  then show ?thesis using x assms(3) by metis
qed

text \<open>The blob of a program, inside the image.\<close>

lemma arc_append:
  "arc_blobs (xs @ ys) = arc_blobs xs @ arc_blobs ys" "arc_secs (xs @ ys) = arc_secs xs + arc_secs ys"
  by (simp_all add: arc_blobs_def arc_secs_def)

lemma arc_blobs_nth:
  assumes "j < length ps"
  shows "take (length (snd (ps ! j))) (drop (arc_secs (take j ps) * ARC_SECTOR) (arc_blobs ps)) = snd (ps ! j)"
proof -
  have "arc_blobs ps = arc_blobs (take j ps) @ arc_blobs [ps ! j] @ arc_blobs (drop (Suc j) ps)"
    unfolding arc_append[symmetric] append_Cons append_Nil by (rule arg_cong[OF id_take_nth_drop[OF assms]])
  then have "drop (arc_secs (take j ps) * ARC_SECTOR) (arc_blobs ps) = arc_blobs [ps ! j] @ arc_blobs (drop (Suc j) ps)"
    by (simp add: arc_blobs_length[symmetric])
  then show ?thesis by (simp add: arc_blobs_def case_prod_beta)
qed

lemma arc_prefix:
  assumes "j < length ps"
  shows "arc_secs (take j ps) + div_ceil (length (snd (ps ! j))) 512 \<le> arc_secs ps"
proof -
  have "arc_secs ps = arc_secs (take j ps) + (arc_secs [ps ! j] + arc_secs (drop (Suc j) ps))"
    unfolding arc_append[symmetric] append_Cons append_Nil by (rule arg_cong[OF id_take_nth_drop[OF assms]])
  then show ?thesis by (simp add: arc_secs_def case_prod_beta arc_layout)
qed

lemma arc_drop:
  assumes "length sb = 512" "length dir = ds * 512"
  shows "drop ((1 + ds + k) * 512) (sb @ dir @ bs) = drop (k * 512) bs"
proof -
  have p: "(1 + ds + k) * 512 = length (sb @ dir) + k * 512" using assms by simp
  have "drop (length xs + n) (xs @ ys) = drop n ys" for xs ys :: "'a list" and n by simp
  then show ?thesis unfolding p append_assoc[symmetric] by blast
qed

text \<open>The assertions hold whenever the names fit and the image has fewer than \<open>2 ^ 32\<close> sectors.\<close>

lemma archive_builds:
  assumes "\<forall>(name, _) \<in> set progs. length name \<le> 32" "1 + div_ceil (length progs * 40) 512 + arc_secs progs < 2 ^ 32"
    and "\<forall>(_, bytes) \<in> set progs. length bytes < 2 ^ 32"
  shows "\<exists>img. archive_image progs = Some img"
proof -
  let ?ds = "div_ceil (length progs * 40) 512"
  obtain dir where F: "arc_fill 0 progs (replicate (?ds * 512) 0, [], 1 + ?ds) = (dir, arc_blobs progs, 1 + ?ds + arc_secs progs)"
    "length dir = ?ds * 512"
    "\<forall>j < length progs. take 40 (drop (j * 40) dir) =
       new_record (fst (progs ! j)) (of_nat (1 + ?ds + arc_secs (take j progs))) (of_nat (length (snd (progs ! j))))"
    by (rule arc_filled[OF assms(1)], rule that; assumption)
  let ?sb = "copy_at (copy_at (copy_at (copy_at (replicate 512 0) 0 ARC_MAGIC)
                   8 (le_bytes 4 (unat (of_nat (length progs) :: u32))))
                   12 (le_bytes 4 (unat (of_nat ?ds :: u32))))
                   16 (le_bytes 4 (unat (of_nat (1 + ?ds + arc_secs progs) :: u32)))"
  have sl: "length ?sb = 512" by (simp add: ARC_MAGIC_def)
  have c: "unat (of_nat (1 + ?ds + arc_secs progs) :: u32) = 1 + ?ds + arc_secs progs"
    by (rule unat_of_nat_id) (use assms(2) in simp)
  have "length (?sb @ dir @ arc_blobs progs) = (1 + ?ds + arc_secs progs) * 512"
    unfolding length_append sl F(2) arc_blobs_length by (simp add: arc_layout)
  then have l: "length (?sb @ dir @ arc_blobs progs) = unat (of_nat (1 + ?ds + arc_secs progs) :: u32) * 512"
    by (rule trans[OF _ arg_cong[OF c[symmetric], of "\<lambda>x. x * 512"]])
  have k: "arc_check (?sb @ dir @ arc_blobs progs) dir j (snd (progs ! j))" if "j < length progs" for j
  proof -
    have n: "length (fst (progs ! j)) \<le> NAME_LEN" using assms(1) nth_mem[OF that] by (auto simp: NAME_LEN_def case_prod_beta)
    have "length (snd (progs ! j)) < 2 ^ 32" using assms(3) nth_mem[OF that] by (auto simp: case_prod_beta)
    then have ul: "unat (of_nat (length (snd (progs ! j))) :: u32) = length (snd (progs ! j))" by (intro unat_of_nat_id) simp
    have "1 + ?ds + arc_secs (take j progs) < 2 ^ 32" using arc_prefix[OF that] assms(2) by simp
    then have us: "unat (of_nat (1 + ?ds + arc_secs (take j progs)) :: u32) = 1 + ?ds + arc_secs (take j progs)"
      by (intro unat_of_nat_id) simp
    have r: "rec_u32 (take 40 (drop (j * 40) dir)) 32 = of_nat (1 + ?ds + arc_secs (take j progs))"
      "rec_u32 (take 40 (drop (j * 40) dir)) 36 = of_nat (length (snd (progs ! j)))"
      using F(3)[rule_format, OF that] new_record_entry(1)[OF n] by (simp_all add: entry_of_def dir_layout del: of_nat_add of_nat_Suc)
    show ?thesis
      unfolding arc_check_def Let_def arc_layout r us ul arc_drop[OF sl F(2)]
      using arc_blobs_nth[OF that] by (simp add: arc_layout)
  qed
  show ?thesis
    using assms(1) F(1) l k by (auto simp: archive_image_def Let_def arc_layout)
qed

lemma archive_entries:
  assumes "archive_image progs = Some img" "length progs < 2 ^ 32"
  obtains sb where "parse_superblock (take 512 img) = Inr sb" "dir_bytes_len sb = Inr (length progs * 40)"
    "unat (dir_sectors sb) = div_ceil (length progs * 40) 512" "length img = unat (total_sectors sb) * 512"
    "\<forall>(name, _) \<in> set progs. length name \<le> 32" "1 + unat (dir_sectors sb) \<le> unat (total_sectors sb)"
    "arc_entries (take (length progs * 40) (drop 512 img)) sb = map (\<lambda>j. (fst (progs ! j) @ replicate (32 - length (fst (progs ! j))) 0,
       \<lparr>blob_sector = of_nat (1 + unat (dir_sectors sb) + arc_secs (take j progs)), blob_len = of_nat (length (snd (progs ! j)))\<rparr>)) [0..<length progs]"
    "\<forall>j < length progs. length (snd (progs ! j)) < 2 ^ 32 \<and>
       take (length (snd (progs ! j))) (drop ((1 + unat (dir_sectors sb) + arc_secs (take j progs)) * 512) img) = snd (progs ! j) \<and>
       1 + unat (dir_sectors sb) + arc_secs (take j progs) + div_ceil (length (snd (progs ! j))) 512 \<le> unat (total_sectors sb)"
proof -
  let ?n = "length progs" and ?ds = "div_ceil (length progs * 40) 512"
  obtain sb dir where A: "img = sb @ dir @ arc_blobs progs" "length sb = 512"
    "parse_superblock sb = Inr \<lparr>entry_count = of_nat ?n, dir_sectors = of_nat ?ds, total_sectors = of_nat (1 + ?ds + arc_secs progs)\<rparr>"
    "length dir = ?ds * 512" "?n * 40 \<le> length dir" "\<forall>(name, _) \<in> set progs. length name \<le> 32"
    "\<forall>j < ?n. take 40 (drop (j * 40) dir) =
       new_record (fst (progs ! j)) (of_nat (1 + ?ds + arc_secs (take j progs))) (of_nat (length (snd (progs ! j))))"
    "1 + ?ds + arc_secs progs < 2 ^ 32" "\<forall>j < ?n. arc_check img dir j (snd (progs ! j))"
    by (rule archive_image_Some[OF assms], rule that; assumption)
  let ?sb = "\<lparr>entry_count = of_nat ?n, dir_sectors = of_nat ?ds, total_sectors = of_nat (1 + ?ds + arc_secs progs)\<rparr>"
  let ?d = "take (?n * 40) (drop 512 img)"
  have u: "unat (entry_count ?sb) = ?n" "unat (dir_sectors ?sb) = ?ds" "unat (total_sectors ?sb) = 1 + ?ds + arc_secs progs"
    using A(8) assms(2) by (simp_all add: unat_of_nat_id del: of_nat_add of_nat_Suc)
  have d: "?d = take (?n * 40) dir" using A(1,2,5) by simp
  have rec: "take 40 (drop (j * 40) ?d) = take 40 (drop (j * 40) dir)" "j * 40 + 40 \<le> length ?d" if "j < ?n" for j
    using that A(5) by (simp_all add: d drop_take min_def)
  have nm: "length (fst (progs ! j)) \<le> 32" if "j < ?n" for j using A(6) nth_mem[OF that] by (auto simp: case_prod_beta)
  have e: "arc_entry ?d j = Some (fst (progs ! j) @ replicate (32 - length (fst (progs ! j))) 0,
      \<lparr>blob_sector = of_nat (1 + ?ds + arc_secs (take j progs)), blob_len = of_nat (length (snd (progs ! j)))\<rparr>)" if "j < ?n" for j
    by (rule arc_entry_record[OF _ rec(2)[OF that] _ nm[OF that]])
      (use that assms(2) A(7) rec(1)[OF that] in simp_all)
  note sec = arc_prefix[where ps = progs]
  have len: "length (snd (progs ! j)) < 2 ^ 32" if "j < ?n" for j
  proof -
    have "unat (rec_u32 (take 40 (drop (j * 40) dir)) 36) = length (snd (progs ! j))"
      using A(9) that by (simp add: arc_check_def Let_def arc_layout)
    then show ?thesis using unat_u32_less[of "rec_u32 (take 40 (drop (j * 40) dir)) 36"] by simp
  qed
  have blob: "take (length (snd (progs ! j))) (drop ((1 + ?ds + arc_secs (take j progs)) * 512) img) = snd (progs ! j)" if "j < ?n" for j
  proof -
    have "drop ((1 + ?ds + arc_secs (take j progs)) * 512) img = drop (arc_secs (take j progs) * 512) (arc_blobs progs)"
      unfolding A(1) by (rule arc_drop[OF A(2,4)])
    then show ?thesis using arc_blobs_nth[OF that] by (simp add: arc_layout)
  qed
  show ?thesis
  proof (rule that[of ?sb])
    show "parse_superblock (take 512 img) = Inr ?sb" using A(1-3) by simp
    show "dir_bytes_len ?sb = Inr (?n * 40)" using assms(2) u(1) by (simp add: dir_bytes_len_def arc_layout)
    show "unat (dir_sectors ?sb) = ?ds" by (rule u(2))
    show "length img = unat (total_sectors ?sb) * 512" using A(1,2,4) u(3) by (simp add: arc_blobs_length arc_layout del: superblock.simps)
    show "\<forall>(name, _) \<in> set progs. length name \<le> 32" by (rule A(6))
    show "1 + unat (dir_sectors ?sb) \<le> unat (total_sectors ?sb)" unfolding u by simp
    show "arc_entries ?d ?sb = map (\<lambda>j. (fst (progs ! j) @ replicate (32 - length (fst (progs ! j))) 0,
       \<lparr>blob_sector = of_nat (1 + unat (dir_sectors ?sb) + arc_secs (take j progs)), blob_len = of_nat (length (snd (progs ! j)))\<rparr>)) [0..<?n]"
      unfolding arc_entries_def u by (rule map_filter_all) (use e in simp)
    show "\<forall>j < ?n. length (snd (progs ! j)) < 2 ^ 32 \<and>
       take (length (snd (progs ! j))) (drop ((1 + unat (dir_sectors ?sb) + arc_secs (take j progs)) * 512) img) = snd (progs ! j) \<and>
       1 + unat (dir_sectors ?sb) + arc_secs (take j progs) + div_ceil (length (snd (progs ! j))) 512 \<le> unat (total_sectors ?sb)"
      unfolding u using len blob sec by force
  qed
qed

lemma archive_lookup:
  assumes "archive_image progs = Some img" "length progs < 2 ^ 32" "distinct (map fst progs)"
    and "\<forall>(name, _) \<in> set progs. 0 \<notin> set name"
  obtains sb where "parse_superblock (take 512 img) = Inr sb" "dir_bytes_len sb = Inr (length progs * 40)"
    "length img = unat (total_sectors sb) * 512" "unat (dir_sectors sb) = div_ceil (length progs * 40) 512"
    "\<forall>(name, bytes) \<in> set progs. \<exists>b. arc_find (take (length progs * 40) (drop 512 img)) sb name = Inr b \<and>
       unat (blob_len b) = length bytes \<and> unat (blob_sector b) + blob_sector_count b \<le> unat (total_sectors sb) \<and>
       take (length bytes) (drop (unat (blob_sector b) * 512) img) = bytes"
    "\<forall>name. name \<notin> fst ` set progs \<longrightarrow> arc_find (take (length progs * 40) (drop 512 img)) sb name = Inl ProgNotFound"
    "(1 + unat (dir_sectors sb)) * 512 \<le> length img"
proof -
  let ?n = "length progs" and ?d = "take (length progs * 40) (drop 512 img)"
  obtain sb where A: "parse_superblock (take 512 img) = Inr sb" "dir_bytes_len sb = Inr (?n * 40)"
    "unat (dir_sectors sb) = div_ceil (?n * 40) 512" "length img = unat (total_sectors sb) * 512"
    "\<forall>(name, _) \<in> set progs. length name \<le> 32" "1 + unat (dir_sectors sb) \<le> unat (total_sectors sb)"
    "arc_entries ?d sb = map (\<lambda>j. (fst (progs ! j) @ replicate (32 - length (fst (progs ! j))) 0,
       \<lparr>blob_sector = of_nat (1 + unat (dir_sectors sb) + arc_secs (take j progs)), blob_len = of_nat (length (snd (progs ! j)))\<rparr>)) [0..<?n]"
    "\<forall>j < ?n. length (snd (progs ! j)) < 2 ^ 32 \<and>
       take (length (snd (progs ! j))) (drop ((1 + unat (dir_sectors sb) + arc_secs (take j progs)) * 512) img) = snd (progs ! j) \<and>
       1 + unat (dir_sectors sb) + arc_secs (take j progs) + div_ceil (length (snd (progs ! j))) 512 \<le> unat (total_sectors sb)"
    by (rule archive_entries[OF assms(1,2)], rule that; assumption)
  let ?g = "\<lambda>j. (fst (progs ! j) @ replicate (32 - length (fst (progs ! j))) 0,
       \<lparr>blob_sector = of_nat (1 + unat (dir_sectors sb) + arc_secs (take j progs)), blob_len = of_nat (length (snd (progs ! j)))\<rparr>)"
  have dirs: "(1 + unat (dir_sectors sb)) * 512 \<le> length img" unfolding A(4) using A(6) by (rule mult_le_mono1)
  have len: "?n * 40 \<le> length ?d"
  proof -
    have "?n * 40 \<le> unat (dir_sectors sb) * 512" unfolding A(3) by (rule div_ceil_mult_ge) simp
    then show ?thesis using dirs by simp
  qed
  have F: "arc_find ?d sb name = (case find (\<lambda>(field, e). arc_name_eq field name) (map ?g [0..<?n]) of
      None \<Rightarrow> Inl ProgNotFound | Some (_, e) \<Rightarrow> Inr e)" for name
    using len by (simp add: arc_find_def try_in_def A(2,7))
  have m: "(\<lambda>(field, e). arc_name_eq field name) (?g j) \<longleftrightarrow> fst (progs ! j) = name" if "j < ?n" for j name
  proof -
    have "0 \<notin> set (fst (progs ! j))" using assms(4) nth_mem[OF that] by (auto simp: case_prod_beta)
    then have "takeWhile (\<lambda>b. b \<noteq> 0) (fst (progs ! j) @ replicate (32 - length (fst (progs ! j))) 0) = fst (progs ! j)"
      by (intro takeWhile_stop) auto
    then show ?thesis by (simp add: arc_name_eq_iff)
  qed
  show ?thesis
  proof (rule that[OF A(1,2,4,3) _ _ dirs])
    show "\<forall>(name, bytes) \<in> set progs. \<exists>b. arc_find ?d sb name = Inr b \<and>
       unat (blob_len b) = length bytes \<and> unat (blob_sector b) + blob_sector_count b \<le> unat (total_sectors sb) \<and>
       take (length bytes) (drop (unat (blob_sector b) * 512) img) = bytes"
    proof (rule ballI, simp only: split_beta)
      fix p assume "p \<in> set progs"
      then obtain j where j: "j < ?n" "p = progs ! j" by (auto simp: in_set_conv_nth)
      have "find (\<lambda>(field, e). arc_name_eq field (fst p)) (map ?g [0..<?n]) = Some (?g j)"
      proof (rule find_distinct[OF j(1)])
        show "(\<lambda>(field, e). arc_name_eq field (fst p)) (?g j)" using m[OF j(1)] j(2) by simp
        show "\<forall>i < ?n. (\<lambda>(field, e). arc_name_eq field (fst p)) (?g i) \<longrightarrow> i = j"
        proof (intro allI impI)
          fix i assume i: "i < ?n" "(\<lambda>(field, e). arc_name_eq field (fst p)) (?g i)"
          then have "map fst progs ! i = map fst progs ! j" using m[OF i(1)] j by simp
          then show "i = j" using assms(3) i(1) j(1) nth_eq_iff_index_eq[of "map fst progs" i j] by simp
        qed
      qed
      then have f: "arc_find ?d sb (fst p) = Inr (snd (?g j))" unfolding F by simp
      note B = A(8)[rule_format, OF j(1)]
      have "1 + unat (dir_sectors sb) + arc_secs (take j progs) < 2 ^ 32"
        using B unat_u32_less[of "total_sectors sb"] by simp
      then have us: "unat (of_nat (1 + unat (dir_sectors sb) + arc_secs (take j progs)) :: u32) = 1 + unat (dir_sectors sb) + arc_secs (take j progs)"
        by (intro unat_of_nat_id) simp
      then have us': "unat (of_nat (Suc (unat (dir_sectors sb) + arc_secs (take j progs))) :: u32) = Suc (unat (dir_sectors sb) + arc_secs (take j progs))"
        by (simp del: of_nat_add of_nat_Suc)
      have ul: "unat (of_nat (length (snd (progs ! j))) :: u32) = length (snd (progs ! j))" using B by (intro unat_of_nat_id) simp
      show "\<exists>b. arc_find ?d sb (fst p) = Inr b \<and> unat (blob_len b) = length (snd p) \<and>
          unat (blob_sector b) + blob_sector_count b \<le> unat (total_sectors sb) \<and>
          take (length (snd p)) (drop (unat (blob_sector b) * 512) img) = snd p"
        by (intro exI[of _ "snd (?g j)"] conjI f)
          (use B j(2) in \<open>simp_all add: blob_sector_count_def us' ul arc_layout del: of_nat_add of_nat_Suc\<close>)
    qed
    show "\<forall>name. name \<notin> fst ` set progs \<longrightarrow> arc_find ?d sb name = Inl ProgNotFound"
    proof (intro allI impI)
      fix name assume n: "name \<notin> fst ` set progs"
      have "find (\<lambda>(field, e). arc_name_eq field name) (map ?g [0..<?n]) = None"
        unfolding find_None_iff using m n nth_mem by (fastforce simp: image_iff)
      then show "arc_find ?d sb name = Inl ProgNotFound" unfolding F by simp
    qed
  qed
qed

text \<open>
  C33. The archive round trip.  When the build tool's assertions pass, the reader accepts the image, finds
  every program under its name at the recorded sectors inside the image, with its exact length and bytes,
  and reports every other name as absent; names are NUL-free and distinct.
\<close>
theorem archive_roundtrip:
  assumes "archive_image progs = Some img" "length progs < 2 ^ 32" "distinct (map fst progs)"
    and "\<forall>(name, _) \<in> set progs. 0 \<notin> set name"
  shows "\<exists>sb. parse_superblock (take 512 img) = Inr sb \<and> length img = unat (total_sectors sb) * 512 \<and>
    (\<forall>(name, bytes) \<in> set progs. \<exists>b. arc_find (take (length progs * 40) (drop 512 img)) sb name = Inr b \<and>
       unat (blob_len b) = length bytes \<and> unat (blob_sector b) + blob_sector_count b \<le> unat (total_sectors sb) \<and>
       take (length bytes) (drop (unat (blob_sector b) * 512) img) = bytes) \<and>
    (\<forall>name. name \<notin> fst ` set progs \<longrightarrow> arc_find (take (length progs * 40) (drop 512 img)) sb name = Inl ProgNotFound)"
  by (rule archive_lookup[OF assms]) blast

lemma archive_roundtrip_witness:
  "\<exists>img sb b. archive_image [([0x61], [1, 2, 3]), ([0x62], [])] = Some img \<and> parse_superblock (take 512 img) = Inr sb \<and>
     arc_find (take 80 (drop 512 img)) sb [0x61] = Inr b \<and> take 3 (drop (unat (blob_sector b) * 512) img) = [1, 2, 3] \<and>
     arc_find (take 80 (drop 512 img)) sb [0x63] = Inl ProgNotFound"
proof -
  let ?ps = "[([0x61], [1, 2, 3]), ([0x62], [])] :: (u8 list \<times> u8 list) list"
  obtain img where i: "archive_image ?ps = Some img"
    using archive_builds[of ?ps] by (auto simp: arc_secs_def arc_layout div_ceil_def)
  have "\<forall>(name, _) \<in> set ?ps. 0 \<notin> set name" "distinct (map fst ?ps)" "length ?ps < 2 ^ 32" by simp_all
  from archive_roundtrip[OF i this(3,2,1)] show ?thesis using i by (auto simp: numeral_3_eq_3)
qed

end
