(* ===== verification/Archive_Load.thy ===== *)
theory Archive_Load
  imports Archive
begin

text \<open>
  The loader of the file-system library (\<open>libfs/src/load.rs\<close>): it reads the superblock and the
  directory of the archive into a scratch page, the program into a run of pages, and hands the bytes
  to the kernel.  The system calls and the process's memory are a parameter, the record \<open>sys\<close>; what
  the loader relies on of them is \<open>loader_env\<close>.
\<close>

definition PAGE_SIZE :: u64 where "PAGE_SIZE = 4096"
definition MAP_BASE :: u64 where "MAP_BASE = 0x10000000"
definition SYS_ERR :: u64 where "SYS_ERR = - 1"
definition ARC_OK :: u64 where "ARC_OK = 0"
definition SECTORS_PER_FRAME :: u64 where "SECTORS_PER_FRAME = 8"
definition MAX_PROG_PAGES :: nat where "MAX_PROG_PAGES = 64"
definition SCRATCH_VA :: u64 where "SCRATCH_VA = MAP_BASE"
definition PROG_VA :: u64 where "PROG_VA = MAP_BASE + PAGE_SIZE"

lemmas load_consts = PAGE_SIZE_def MAP_BASE_def SCRATCH_VA_def PROG_VA_def

text \<open>
  \<open>sys_frame_alloc\<close>, \<open>sys_frame_map\<close>, \<open>sys_block_read\<close>, \<open>sys_spawn_from_buffer\<close>, and the bytes of the
  process's memory.
\<close>

record 's sys =
  sc_alloc :: "'s \<Rightarrow> u64 \<times> 's"
  sc_map :: "u64 \<Rightarrow> u64 \<Rightarrow> 's \<Rightarrow> u64 \<times> 's"
  sc_read :: "u64 \<Rightarrow> u64 \<Rightarrow> u64 \<Rightarrow> u64 \<Rightarrow> 's \<Rightarrow> u64 \<times> 's"
  sc_spawn :: "u8 list \<Rightarrow> u64 \<Rightarrow> 's \<Rightarrow> u64 \<times> 's"
  sc_mem :: "'s \<Rightarrow> nat \<Rightarrow> u8"

definition mem_bytes :: "'s sys \<Rightarrow> u64 \<Rightarrow> nat \<Rightarrow> 's \<Rightarrow> u8 list" where
  "mem_bytes sc va n s = map (sc_mem sc s) [unat va..<unat va + n]"

fun fs_error_str :: "fs_error \<Rightarrow> string" where
  "fs_error_str SbTruncated = ''archive: superblock truncated''"
| "fs_error_str SbBadMagic = ''archive: bad magic''"
| "fs_error_str DirTruncated = ''archive: directory truncated''"
| "fs_error_str DirOverflow = ''archive: directory size overflow''"
| "fs_error_str ProgNotFound = ''archive: program not found''"

definition alloc_mapped :: "'s sys \<Rightarrow> u64 \<Rightarrow> 's \<Rightarrow> (string + u64) \<times> 's" where
  "alloc_mapped sc va s =
     (let (slot, s1) = sc_alloc sc s in
      if slot = SYS_ERR then (Inl ''archive: frame_alloc failed'', s1)
      else let (r, s2) = sc_map sc slot va s1 in
        if r \<noteq> 0 then (Inl ''archive: frame_map failed'', s2) else (Inr slot, s2))"

text \<open>The loop over the program's pages; the fourth argument counts the pages left.\<close>

fun read_run :: "'s sys \<Rightarrow> u64 \<Rightarrow> u32 \<Rightarrow> nat \<Rightarrow> nat \<Rightarrow> u64 \<Rightarrow> 's \<Rightarrow> string option \<times> 's" where
  "read_run sc rslot first i 0 remaining s = (None, s)"
| "read_run sc rslot first i (Suc k) remaining s =
     (case alloc_mapped sc (PROG_VA + of_nat i * PAGE_SIZE) s of
        (Inl e, s1) \<Rightarrow> (Some e, s1)
      | (Inr frame, s1) \<Rightarrow>
          let n = min remaining SECTORS_PER_FRAME;
              sector = ucast first + of_nat i * SECTORS_PER_FRAME;
              (st, s2) = sc_read sc rslot frame sector n s1
          in if st \<noteq> ARC_OK then (Some ''archive: program read failed'', s2)
             else read_run sc rslot first (Suc i) k (remaining - n) s2)"

text \<open>The second half of \<open>spawn_from_archive\<close>: the program's pages and the spawn.\<close>

definition load_program :: "'s sys \<Rightarrow> u64 \<Rightarrow> blob \<Rightarrow> u64 \<Rightarrow> 's \<Rightarrow> (string + u64) \<times> 's" where
  "load_program sc rslot entry transfer s =
     (let pages = div_ceil (unat (blob_len entry)) (unat PAGE_SIZE) in
      if pages = 0 \<or> pages > MAX_PROG_PAGES then (Inl ''archive: program size out of range'', s)
      else (case read_run sc rslot (blob_sector entry) 0 pages (of_nat (blob_sector_count entry)) s of
              (Some e, s1) \<Rightarrow> (Inl e, s1)
            | (None, s1) \<Rightarrow>
                let (h, s2) = sc_spawn sc (mem_bytes sc PROG_VA (unat (blob_len entry)) s1) transfer s1 in
                if h = SYS_ERR then (Inl ''archive: spawn_from_buffer failed'', s2) else (Inr h, s2)))"

definition spawn_from_archive :: "'s sys \<Rightarrow> u64 \<Rightarrow> u8 list \<Rightarrow> u64 \<Rightarrow> 's \<Rightarrow> (string + u64) \<times> 's" where
  "spawn_from_archive sc rslot name transfer s =
     (case alloc_mapped sc SCRATCH_VA s of
        (Inl e, s1) \<Rightarrow> (Inl e, s1)
      | (Inr scratch, s1) \<Rightarrow>
          let (st, s2) = sc_read sc rslot scratch 0 1 s1 in
          if st \<noteq> ARC_OK then (Inl ''archive: superblock read failed'', s2)
          else case parse_superblock (mem_bytes sc SCRATCH_VA ARC_SECTOR s2) of
            Inl e \<Rightarrow> (Inl (fs_error_str e), s2)
          | Inr sb \<Rightarrow>
              if ucast (dir_sectors sb) > SECTORS_PER_FRAME
              then (Inl ''archive: directory too large for the boot loader'', s2)
              else let (st, s3) = sc_read sc rslot scratch 1 (ucast (dir_sectors sb)) s2 in
                if st \<noteq> ARC_OK then (Inl ''archive: directory read failed'', s3)
                else case dir_bytes_len sb of
                  Inl e \<Rightarrow> (Inl (fs_error_str e), s3)
                | Inr dir_bytes \<Rightarrow>
                    (case arc_find (mem_bytes sc SCRATCH_VA dir_bytes s3) sb name of
                       Inl e \<Rightarrow> (Inl (fs_error_str e), s3)
                     | Inr entry \<Rightarrow> load_program sc rslot entry transfer s3))"

section \<open>What reaches the kernel\<close>

text \<open>
  The system calls, for a range over \<open>disk\<close>: an allocation changes no mapped byte; a successful map puts
  the frame at its page; a successful read puts whole sectors at the start of the frame's page.
  Other pages keep their bytes.
\<close>

definition page_at :: "nat \<Rightarrow> nat set" where "page_at va = {va..<va + 4096}"

definition loader_env :: "'s sys \<Rightarrow> u64 \<Rightarrow> (nat \<Rightarrow> u8) \<Rightarrow> ('s \<Rightarrow> u64 \<rightharpoonup> nat) \<Rightarrow> bool" where
  "loader_env sc rslot disk mapped \<longleftrightarrow>
     (\<forall>s slot s'. sc_alloc sc s = (slot, s') \<longrightarrow> sc_mem sc s' = sc_mem sc s \<and> mapped s' = mapped s) \<and>
     (\<forall>s slot va s'. sc_map sc slot va s = (0, s') \<longrightarrow> mapped s' = (mapped s)(slot \<mapsto> unat va) \<and>
        (\<forall>a. a \<notin> page_at (unat va) \<longrightarrow> sc_mem sc s' a = sc_mem sc s a)) \<and>
     (\<forall>s slot sector n s' va. sc_read sc rslot slot sector n s = (ARC_OK, s') \<longrightarrow> mapped s slot = Some va \<longrightarrow> unat n \<le> 8 \<longrightarrow>
        mapped s' = mapped s \<and> (\<forall>a. a \<notin> page_at va \<longrightarrow> sc_mem sc s' a = sc_mem sc s a) \<and>
        (\<forall>i < unat n * 512. sc_mem sc s' (va + i) = disk (unat sector * 512 + i)))"

lemma loader_envD:
  assumes "loader_env sc rslot disk mapped"
  shows "sc_alloc sc s = (slot, s') \<Longrightarrow> sc_mem sc s' = sc_mem sc s \<and> mapped s' = mapped s"
    "sc_map sc slot va s = (0, s') \<Longrightarrow> mapped s' = (mapped s)(slot \<mapsto> unat va) \<and>
        (\<forall>a. a \<notin> page_at (unat va) \<longrightarrow> sc_mem sc s' a = sc_mem sc s a)"
    "sc_read sc rslot slot sector n s = (ARC_OK, s') \<Longrightarrow> mapped s slot = Some p \<Longrightarrow> unat n \<le> 8 \<Longrightarrow>
        mapped s' = mapped s \<and> (\<forall>a. a \<notin> page_at p \<longrightarrow> sc_mem sc s' a = sc_mem sc s a) \<and>
        (\<forall>i < unat n * 512. sc_mem sc s' (p + i) = disk (unat sector * 512 + i))"
  using assms unfolding loader_env_def by blast+

lemma alloc_mapped_Inr:
  assumes "loader_env sc rslot disk mapped" "alloc_mapped sc va s = (Inr slot, s')"
  shows "mapped s' = (mapped s)(slot \<mapsto> unat va)" "a \<notin> page_at (unat va) \<Longrightarrow> sc_mem sc s' a = sc_mem sc s a"
proof -
  obtain sl s1 where a: "sc_alloc sc s = (sl, s1)" by (rule prod.exhaust)
  obtain r s2 where m: "sc_map sc sl va s1 = (r, s2)" by (rule prod.exhaust)
  have e: "r = 0" "sl = slot" "s2 = s'" using assms(2) a m by (auto simp: alloc_mapped_def split: if_splits)
  note A = loader_envD(1)[OF assms(1) a] and M = loader_envD(2)[OF assms(1) m[unfolded e(1)]]
  show "mapped s' = (mapped s)(slot \<mapsto> unat va)" using A M e by simp
  show "a \<notin> page_at (unat va) \<Longrightarrow> sc_mem sc s' a = sc_mem sc s a" using A M e by simp
qed

lemma prog_va:
  assumes "i < 64"
  shows "unat (PROG_VA + of_nat i * PAGE_SIZE) = unat PROG_VA + i * 4096"
proof -
  have i: "unat (of_nat i :: u64) = i" using assms by (intro unat_of_nat_id) simp
  have m: "unat (of_nat i * PAGE_SIZE) = i * 4096"
    using assms by (subst unat_mult_if_less) (simp_all add: i PAGE_SIZE_def)
  have "unat PROG_VA = 0x10001000" by (simp add: load_consts)
  then show ?thesis using assms by (subst unat_add_if_less) (simp_all add: m)
qed

text \<open>Before page \<open>i\<close> the first \<open>8 * i\<close> sectors of the program are in place.\<close>

lemma read_run_bytes:
  assumes env: "loader_env sc rslot disk mapped" and "i + k \<le> 64" "unat remaining = m - 8 * i"
    and "read_run sc rslot first i k remaining s = (None, s')"
    and "\<forall>a < min m (8 * i) * 512. sc_mem sc s (unat PROG_VA + a) = disk (unat first * 512 + a)"
  shows "\<forall>a < min m (8 * (i + k)) * 512. sc_mem sc s' (unat PROG_VA + a) = disk (unat first * 512 + a)"
  using assms(2-)
proof (induction k arbitrary: i remaining s)
  case (Suc k)
  let ?va = "PROG_VA + of_nat i * PAGE_SIZE" and ?n = "min remaining SECTORS_PER_FRAME"
  let ?sec = "ucast first + of_nat i * SECTORS_PER_FRAME :: u64"
  obtain r s1 where al: "alloc_mapped sc ?va s = (r, s1)" by (rule prod.exhaust)
  obtain frame where r: "r = Inr frame" using Suc.prems(3) al by (cases r) auto
  obtain st s2 where rd: "sc_read sc rslot frame ?sec ?n s1 = (st, s2)" by (rule prod.exhaust)
  have ok: "st = ARC_OK" and rest: "read_run sc rslot first (Suc i) k (remaining - ?n) s2 = (None, s')"
    using Suc.prems(3) al rd by (auto simp: r Let_def split: if_splits)
  note A = alloc_mapped_Inr[OF env al[unfolded r]]
  have i: "i < 64" using Suc.prems(1) by simp
  have mp: "mapped s1 frame = Some (unat PROG_VA + i * 4096)" using A(1) prog_va[OF i] by simp
  have un: "unat ?n = min (m - 8 * i) 8"
    using Suc.prems(2) by (simp add: min_def word_le_nat_alt SECTORS_PER_FRAME_def)
  have us: "unat ?sec = unat first + 8 * i"
  proof -
    have "unat (of_nat i :: u64) = i" using i by (intro unat_of_nat_id) simp
    then have "unat (of_nat i * SECTORS_PER_FRAME) = i * 8"
      using i by (subst unat_mult_if_less) (simp_all add: SECTORS_PER_FRAME_def)
    moreover have "unat (ucast first :: u64) = unat first"
      using unat_u32_less[of first] by (simp add: unsigned_ucast_eq take_bit_nat_eq_self)
    ultimately show ?thesis using unat_u32_less[of first] i by (subst unat_add_if_less) simp_all
  qed
  have "unat ?n \<le> 8" by (simp add: un)
  note D = loader_envD(3)[OF env rd[unfolded ok] mp this]
  have rem: "unat (remaining - ?n) = m - 8 * Suc i"
    using Suc.prems(2) un by (subst unat_sub) (auto simp: word_le_nat_alt min_def)
  have "sc_mem sc s2 (unat PROG_VA + a) = disk (unat first * 512 + a)" if a: "a < min m (8 * Suc i) * 512" for a
  proof (cases "a < i * 4096")
    case True
    have "sc_mem sc s2 (unat PROG_VA + a) = sc_mem sc s (unat PROG_VA + a)"
      using D A(2) True prog_va[OF i] by (simp add: page_at_def)
    also have "\<dots> = disk (unat first * 512 + a)" using Suc.prems(4) a True by simp
    finally show ?thesis .
  next
    case False
    then obtain b where b: "a = i * 4096 + b" using le_Suc_ex not_less by metis
    then have "b < unat ?n * 512" using a un by (auto simp: min_def split: if_splits)
    then have "sc_mem sc s2 (unat PROG_VA + i * 4096 + b) = disk ((unat first + 8 * i) * 512 + b)" using D us by simp
    then show ?thesis by (simp add: b algebra_simps)
  qed
  then show ?case using Suc.IH[of "Suc i" "remaining - ?n" s2] Suc.prems(1) rem rest by simp
qed simp

text \<open>A run of reads of a region of the disk, as bytes.\<close>

lemma disk_bytes:
  assumes "\<forall>a < length img. disk a = img ! a" "off + n \<le> length img"
    and "\<forall>i < n. mem (va + i) = disk (off + i)"
  shows "map mem [va..<va + n] = take n (drop off img)"
  by (rule nth_equalityI) (use assms in auto)

definition reliable :: "'s sys \<Rightarrow> bool" where
  "reliable sc \<longleftrightarrow> (\<forall>s. fst (sc_alloc sc s) \<noteq> SYS_ERR) \<and> (\<forall>slot va s. fst (sc_map sc slot va s) = 0) \<and>
     (\<forall>r slot sector n s. fst (sc_read sc r slot sector n s) = ARC_OK) \<and> (\<forall>b t s. fst (sc_spawn sc b t s) \<noteq> SYS_ERR)"

lemma reliableD:
  assumes "reliable sc"
  shows "sc_alloc sc s = (slot, s') \<Longrightarrow> slot \<noteq> SYS_ERR" "sc_map sc slot va s = (r, s') \<Longrightarrow> r = 0"
    "sc_read sc q slot sector n s = (st, s') \<Longrightarrow> st = ARC_OK" "sc_spawn sc b t s = (h, s') \<Longrightarrow> h \<noteq> SYS_ERR"
  using assms unfolding reliable_def by (metis fst_conv)+

lemma alloc_mapped_reliable:
  assumes "reliable sc" "alloc_mapped sc va s = (r, s')"
  shows "\<exists>slot. r = Inr slot"
proof -
  obtain sl s1 where a: "sc_alloc sc s = (sl, s1)" by (rule prod.exhaust)
  obtain q s2 where m: "sc_map sc sl va s1 = (q, s2)" by (rule prod.exhaust)
  show ?thesis using assms(2) reliableD(1)[OF assms(1) a] reliableD(2)[OF assms(1) m] a m by (auto simp: alloc_mapped_def)
qed

lemma read_run_reliable:
  assumes "reliable sc" "read_run sc rslot first i k remaining s = (r, s')"
  shows "r = None"
  using assms(2)
proof (induction k arbitrary: i remaining s)
  case (Suc k)
  let ?n = "min remaining SECTORS_PER_FRAME" and ?sec = "ucast first + of_nat i * SECTORS_PER_FRAME :: u64"
  obtain q s1 where al: "alloc_mapped sc (PROG_VA + of_nat i * PAGE_SIZE) s = (q, s1)" by (rule prod.exhaust)
  obtain frame where q: "q = Inr frame" using alloc_mapped_reliable[OF assms(1) al] by blast
  obtain st s2 where rd: "sc_read sc rslot frame ?sec ?n s1 = (st, s2)" by (rule prod.exhaust)
  have "read_run sc rslot first (Suc i) k (remaining - ?n) s2 = (r, s')"
    using Suc.prems al rd reliableD(3)[OF assms(1) rd] by (simp add: q Let_def)
  then show ?case by (rule Suc.IH)
qed simp

lemma load_program_cases:
  assumes env: "loader_env sc rslot disk mapped" and disk: "\<forall>a < length img. disk a = img ! a" "length img < 2 ^ 41"
    and b: "take (unat (blob_len b)) (drop (unat (blob_sector b) * 512) img) = bytes" "unat (blob_len b) = length bytes"
    "(unat (blob_sector b) + blob_sector_count b) * 512 \<le> length img"
    and run: "load_program sc rslot b transfer s = (r, s')"
  shows "case r of
      Inr h \<Rightarrow> \<exists>s1. sc_spawn sc bytes transfer s1 = (h, s') \<and> 0 < length bytes \<and> length bytes \<le> 64 * 4096
    | Inl e \<Rightarrow> \<not> reliable sc \<or> bytes = [] \<or> 64 * 4096 < length bytes"
proof -
  let ?pages = "div_ceil (length bytes) 4096" and ?m = "blob_sector_count b"
  have pages: "?pages = 0 \<longleftrightarrow> bytes = []" "?pages > 64 \<longleftrightarrow> 64 * 4096 < length bytes"
    using less_eq_div_iff_mult_less_eq[of 4096 65 "length bytes + 4095"]
    by (auto simp: div_ceil_def div_eq_0_iff Suc_le_eq[symmetric])
  show ?thesis
  proof (cases "?pages = 0 \<or> ?pages > 64")
    case True
    then have "r = Inl ''archive: program size out of range''"
      using run b(2) by (auto simp: load_program_def PAGE_SIZE_def MAX_PROG_PAGES_def)
    then show ?thesis using True pages by auto
  next
    case False
    have m: "unat (of_nat ?m :: u64) = ?m - 8 * 0"
      using b(3) disk(2) by (intro trans[OF unat_of_nat_id]) simp_all
    obtain q s1 where rr: "read_run sc rslot (blob_sector b) 0 ?pages (of_nat ?m) s = (q, s1)" by (rule prod.exhaust)
    show ?thesis
    proof (cases q)
      case (Some e)
      then have "\<not> reliable sc" using read_run_reliable[OF _ rr] by auto
      moreover have "r = Inl e" using run rr False Some b(2) by (simp add: load_program_def PAGE_SIZE_def MAX_PROG_PAGES_def)
      ultimately show ?thesis by simp
    next
      case None
      have mem: "\<forall>a < min ?m (8 * (0 + ?pages)) * 512. sc_mem sc s1 (unat PROG_VA + a) = disk (unat (blob_sector b) * 512 + a)"
        by (rule read_run_bytes[OF env _ m rr[unfolded None]]) (use False in simp_all)
      have l1: "length bytes \<le> ?m * 512"
        unfolding blob_sector_count_def b(2) arc_layout by (rule div_ceil_mult_ge) simp
      have l2: "length bytes \<le> ?pages * 4096" by (rule div_ceil_mult_ge) simp
      have "mem_bytes sc PROG_VA (length bytes) s1 = bytes"
        unfolding mem_bytes_def
        by (subst disk_bytes[OF disk(1), of "unat (blob_sector b) * 512"]) (use b l1 l2 mem in \<open>auto simp: add_mult_distrib\<close>)
      moreover obtain h s2 where sp: "sc_spawn sc bytes transfer s1 = (h, s2)" by (rule prod.exhaust)
      ultimately have e: "(r, s') = (if h = SYS_ERR then (Inl ''archive: spawn_from_buffer failed'', s2) else (Inr h, s2))"
        using run rr None False b(2) by (simp add: load_program_def PAGE_SIZE_def MAX_PROG_PAGES_def)
      show ?thesis
      proof (cases "h = SYS_ERR")
        case True
        then have "\<not> reliable sc" using reliableD(4)[OF _ sp] by auto
        then show ?thesis using e True by simp
      next
        case h: False
        then have "r = Inr h" "s' = s2" using e by simp_all
        then show ?thesis using sp False pages by (auto simp: not_less)
      qed
    qed
  qed
qed

lemma archive_load_cases:
  assumes env: "loader_env sc rslot disk mapped" and img: "archive_image progs = Some img" "length progs < 2 ^ 32"
    "distinct (map fst progs)" "\<forall>(name, _) \<in> set progs. 0 \<notin> set name" and disk: "\<forall>a < length img. disk a = img ! a"
    and run: "spawn_from_archive sc rslot name transfer s = (r, s')"
  shows "case r of
      Inr h \<Rightarrow> \<exists>bytes s1. (name, bytes) \<in> set progs \<and> sc_spawn sc bytes transfer s1 = (h, s') \<and> 0 < length bytes \<and> length bytes \<le> 64 * 4096
    | Inl e \<Rightarrow> \<not> reliable sc \<or> 8 < div_ceil (length progs * 40) 512 \<or> name \<notin> fst ` set progs \<or>
        (\<exists>bytes. (name, bytes) \<in> set progs \<and> (bytes = [] \<or> 64 * 4096 < length bytes))"
proof -
  let ?n = "length progs"
  obtain sb where A: "parse_superblock (take 512 img) = Inr sb" "dir_bytes_len sb = Inr (?n * 40)"
    "length img = unat (total_sectors sb) * 512" "unat (dir_sectors sb) = div_ceil (?n * 40) 512"
    "\<forall>(name, bytes) \<in> set progs. \<exists>b. arc_find (take (?n * 40) (drop 512 img)) sb name = Inr b \<and>
       unat (blob_len b) = length bytes \<and> unat (blob_sector b) + blob_sector_count b \<le> unat (total_sectors sb) \<and>
       take (length bytes) (drop (unat (blob_sector b) * 512) img) = bytes"
    "\<forall>name. name \<notin> fst ` set progs \<longrightarrow> arc_find (take (?n * 40) (drop 512 img)) sb name = Inl ProgNotFound"
    "(1 + unat (dir_sectors sb)) * 512 \<le> length img"
    by (rule archive_lookup[OF img], rule that; assumption)
  obtain q s1 where al: "alloc_mapped sc SCRATCH_VA s = (q, s1)" by (rule prod.exhaust)
  show ?thesis
  proof (cases q)
    case (Inl e)
    then have "\<not> reliable sc" using alloc_mapped_reliable[OF _ al] by auto
    then show ?thesis using run al Inl by (auto simp: spawn_from_archive_def)
  next
    case (Inr scratch)
    note M = alloc_mapped_Inr[OF env al[unfolded Inr]]
    have mp: "mapped s1 scratch = Some (unat SCRATCH_VA)" using M(1) by simp
    obtain st s2 where rd: "sc_read sc rslot scratch 0 1 s1 = (st, s2)" by (rule prod.exhaust)
    show ?thesis
    proof (cases "st = ARC_OK")
      case False
      then have "\<not> reliable sc" using reliableD(3)[OF _ rd] by auto
      then show ?thesis using run al Inr rd False by (auto simp: spawn_from_archive_def)
    next
      case True
      note D = loader_envD(3)[OF env rd[unfolded True] mp]
      have sec0: "mem_bytes sc SCRATCH_VA ARC_SECTOR s2 = take 512 img"
        unfolding mem_bytes_def arc_layout using disk_bytes[OF disk, of 0 512 "sc_mem sc s2" "unat SCRATCH_VA"] D A(7) by simp
      show ?thesis
      proof (cases "ucast (dir_sectors sb) > SECTORS_PER_FRAME")
        case big: True
        then have "8 < unat (dir_sectors sb)"
          by (simp add: word_less_nat_alt SECTORS_PER_FRAME_def unsigned_ucast_eq take_bit_nat_eq_self unat_u32_less[THEN less_trans])
        then show ?thesis using run al Inr rd True sec0 A(1,4) big by (auto simp: spawn_from_archive_def)
      next
        case small: False
        obtain st' s3 where rd': "sc_read sc rslot scratch 1 (ucast (dir_sectors sb)) s2 = (st', s3)" by (rule prod.exhaust)
        show ?thesis
        proof (cases "st' = ARC_OK")
          case False
          then have "\<not> reliable sc" using reliableD(3)[OF _ rd'] by auto
          then show ?thesis using run al Inr rd rd' True sec0 A(1) small False by (auto simp: spawn_from_archive_def)
        next
          case ok: True
          have ud: "unat (ucast (dir_sectors sb) :: u64) = unat (dir_sectors sb)"
            using unat_u32_less[of "dir_sectors sb"] by (simp add: unsigned_ucast_eq take_bit_nat_eq_self)
          then have u8: "unat (ucast (dir_sectors sb) :: u64) \<le> 8"
            using small by (simp add: word_less_nat_alt SECTORS_PER_FRAME_def)
          have "mapped s2 scratch = Some (unat SCRATCH_VA)" using D mp by simp
          note D2 = loader_envD(3)[OF env rd'[unfolded ok] this u8]
          have "?n * 40 \<le> unat (dir_sectors sb) * 512" unfolding A(4) by (rule div_ceil_mult_ge) simp
          then have dirb: "mem_bytes sc SCRATCH_VA (?n * 40) s3 = take (?n * 40) (drop 512 img)"
            unfolding mem_bytes_def
            using disk_bytes[OF disk, of 512 "?n * 40" "sc_mem sc s3" "unat SCRATCH_VA"] D2 ud A(7) by simp
          have tail: "(r, s') = (case arc_find (take (?n * 40) (drop 512 img)) sb name of
              Inl e \<Rightarrow> (Inl (fs_error_str e), s3) | Inr entry \<Rightarrow> load_program sc rslot entry transfer s3)"
            using run al Inr rd rd' True ok sec0 A(1,2) small dirb by (simp add: spawn_from_archive_def)
          show ?thesis
          proof (cases "name \<in> fst ` set progs")
            case False
            then show ?thesis using tail A(6) by simp
          next
            case True
            then obtain bytes where p: "(name, bytes) \<in> set progs" by auto
            then obtain b where b: "arc_find (take (?n * 40) (drop 512 img)) sb name = Inr b" "unat (blob_len b) = length bytes"
              "unat (blob_sector b) + blob_sector_count b \<le> unat (total_sectors sb)"
              "take (length bytes) (drop (unat (blob_sector b) * 512) img) = bytes"
              using A(5) by blast
            have "length img < 2 ^ 41" using A(3) unat_u32_less[of "total_sectors sb"] by simp
            moreover have "(unat (blob_sector b) + blob_sector_count b) * 512 \<le> length img"
              unfolding A(3) using b(3) by (rule mult_le_mono1)
            moreover have "take (unat (blob_len b)) (drop (unat (blob_sector b) * 512) img) = bytes" using b(2,4) by simp
            moreover have "load_program sc rslot b transfer s3 = (r, s')" using tail b(1) by simp
            ultimately have "case r of
                Inr h \<Rightarrow> \<exists>s1. sc_spawn sc bytes transfer s1 = (h, s') \<and> 0 < length bytes \<and> length bytes \<le> 64 * 4096
              | Inl e \<Rightarrow> \<not> reliable sc \<or> bytes = [] \<or> 64 * 4096 < length bytes"
              using load_program_cases[OF env disk] b(2) by blast
            then show ?thesis using p by (cases r) auto
          qed
        qed
      qed
    qed
  qed
qed

text \<open>
  C34. The kernel gets the archived bytes.  On a disk that holds an archive the build tool made: whenever
  the loader reports a handle, the spawn it made was of exactly the named program's bytes, however many
  pages they span; and when no system call fails it does so for every program of 1 byte to 256 KiB,
  provided the directory fits one page.
\<close>
theorem archived_program_is_spawned:
  assumes "loader_env sc rslot disk mapped" "archive_image progs = Some img" "length progs < 2 ^ 32"
    "distinct (map fst progs)" "\<forall>(name, _) \<in> set progs. 0 \<notin> set name" "\<forall>a < length img. disk a = img ! a"
    and "spawn_from_archive sc rslot name transfer s = (r, s')"
  shows "(\<forall>h. r = Inr h \<longrightarrow> (\<exists>bytes s1. (name, bytes) \<in> set progs \<and> sc_spawn sc bytes transfer s1 = (h, s'))) \<and>
    (\<forall>bytes. (name, bytes) \<in> set progs \<and> bytes \<noteq> [] \<and> length bytes \<le> 64 * 4096 \<and> length progs * 40 \<le> 4096 \<and> reliable sc \<longrightarrow>
       (\<exists>h. r = Inr h))"
proof -
  note C = archive_load_cases[OF assms]
  have u: "b = b'" if "(name, b) \<in> set progs" "(name, b') \<in> set progs" for b b'
    using assms(4) that by (meson eq_key_imp_eq_value)
  have d: "div_ceil (length progs * 40) 512 \<le> 8" if "length progs * 40 \<le> 4096"
    using that by (simp add: div_ceil_def less_Suc_eq_le[symmetric] div_less_iff_less_mult)
  show ?thesis
  proof (cases r)
    case (Inl e)
    then have C': "\<not> reliable sc \<or> 8 < div_ceil (length progs * 40) 512 \<or> name \<notin> fst ` set progs \<or>
        (\<exists>bytes. (name, bytes) \<in> set progs \<and> (bytes = [] \<or> 64 * 4096 < length bytes))" using C by simp
    have False if p: "(name, bytes) \<in> set progs" "bytes \<noteq> []" "length bytes \<le> 64 * 4096" "length progs * 40 \<le> 4096" "reliable sc" for bytes
    proof -
      have "name \<in> fst ` set progs" using p(1) by force
      then obtain b' where "(name, b') \<in> set progs" "b' = [] \<or> 64 * 4096 < length b'" using C' p(5) d[OF p(4)] by auto
      then show False using u[OF p(1)] p(2,3) by auto
    qed
    then show ?thesis using Inl by blast
  next
    case (Inr h)
    then show ?thesis using C by auto
  qed
qed

text \<open>A process on a disk with one archive: the spawned images are logged, the handle is their count.\<close>

record lenv =
  le_mem :: "nat \<Rightarrow> u8"
  le_map :: "u64 \<rightharpoonup> nat"
  le_next :: nat
  le_spawned :: "u8 list list"

definition demo_disk :: "u8 list \<Rightarrow> nat \<Rightarrow> u8" where
  "demo_disk img a = (if a < length img then img ! a else 0)"

definition demo_sys :: "u8 list \<Rightarrow> lenv sys" where
  "demo_sys img = \<lparr>
     sc_alloc = (\<lambda>s. (of_nat (le_next s mod 32), s\<lparr>le_next := le_next s + 1\<rparr>)),
     sc_map = (\<lambda>slot va s. (0, s\<lparr>le_map := (le_map s)(slot \<mapsto> unat va)\<rparr>)),
     sc_read = (\<lambda>_ slot sector n s. (ARC_OK, case le_map s slot of
        None \<Rightarrow> s
      | Some va \<Rightarrow> s\<lparr>le_mem := \<lambda>a. if va \<le> a \<and> a < va + unat n * 512 then demo_disk img (unat sector * 512 + (a - va)) else le_mem s a\<rparr>)),
     sc_spawn = (\<lambda>b _ s. (1, s\<lparr>le_spawned := b # le_spawned s\<rparr>)),
     sc_mem = le_mem\<rparr>"

lemma demo_env: "loader_env (demo_sys img) 7 (demo_disk img) le_map"
  unfolding loader_env_def by (auto simp: demo_sys_def page_at_def)

lemma demo_reliable: "reliable (demo_sys img)"
proof -
  have "of_nat (n mod 32) \<noteq> SYS_ERR" for n
  proof -
    have "n mod 32 < 32" by simp
    then have "unat (of_nat (n mod 32) :: u64) < 32" by (subst unat_of_nat_id) simp_all
    moreover have "unat SYS_ERR = 2 ^ 64 - 1" by (simp add: SYS_ERR_def unsigned_minus_1_eq_mask mask_eq_exp_minus_1)
    ultimately show ?thesis by auto
  qed
  then show ?thesis by (simp add: reliable_def demo_sys_def SYS_ERR_def)
qed

lemma archived_program_is_spawned_witness:
  "\<exists>img h s'. archive_image [([0x61], [1, 2, 3])] = Some img \<and>
     spawn_from_archive (demo_sys img) 7 [0x61] 0 \<lparr>le_mem = (\<lambda>_. 9), le_map = Map.empty, le_next = 0, le_spawned = []\<rparr> = (Inr h, s') \<and>
     hd (le_spawned s') = [1, 2, 3]"
proof -
  let ?ps = "[([0x61], [1, 2, 3])] :: (u8 list \<times> u8 list) list"
  let ?s = "\<lparr>le_mem = (\<lambda>_. 9), le_map = Map.empty, le_next = 0, le_spawned = []\<rparr>"
  obtain img where i: "archive_image ?ps = Some img"
    using archive_builds[of ?ps] by (auto simp: arc_secs_def arc_layout div_ceil_def)
  obtain r s' where run: "spawn_from_archive (demo_sys img) 7 [0x61] 0 ?s = (r, s')" by (rule prod.exhaust)
  have h: "length ?ps < 2 ^ 32" "distinct (map fst ?ps)" "\<forall>(name, _) \<in> set ?ps. 0 \<notin> set name"
    "\<forall>a < length img. demo_disk img a = img ! a" by (simp_all add: demo_disk_def)
  note T = archived_program_is_spawned[OF demo_env i h run]
  obtain q where q: "r = Inr q" using conjunct2[OF T, rule_format, of "[1, 2, 3]"] demo_reliable by auto
  then obtain s1 where "sc_spawn (demo_sys img) [1, 2, 3] 0 s1 = (q, s')" using conjunct1[OF T] by auto
  then have "hd (le_spawned s') = [1, 2, 3]" by (auto simp: demo_sys_def)
  then show ?thesis using i run q by blast
qed

text \<open>
  The directory slice is built with \<open>dir_bytes_len\<close> bytes although only \<open>dir_sectors\<close> sectors were read:
  nothing compares the two, so a superblock with many entries and one directory sector makes the
  loader look past its scratch page.
\<close>

lemma directory_slice_unchecked:
  "\<exists>sb. parse_superblock (ARC_MAGIC @ [232, 3, 0, 0, 1, 0, 0, 0, 2, 0, 0, 0]) = Inr sb \<and>
     \<not> ucast (dir_sectors sb) > SECTORS_PER_FRAME \<and> dir_bytes_len sb = Inr 40000"
  by (simp add: parse_superblock_def SB_USED_def ARC_MAGIC_def ok_or_def rd_u32_def slice_def dir_bytes_len_def
      SECTORS_PER_FRAME_def arc_layout)

end
