(* ===== verification/Iommu_Domain.thy ===== *)
theory Iommu_Domain
  imports Address_Space "HOL-Library.Multiset"
begin

text \<open>
  Device DMA domains, \<open>kernel/src/iommu.rs\<close>: the two page-table entry formats, the domain's
  table tree in physical memory with \<open>map\<close>, \<open>unmap\<close>, \<open>translate\<close> and \<open>teardown\<close>.  The theorems refine
  the tree to a partial map from device pages to frames and account for every frame it takes.
\<close>

section \<open>Entry formats\<close>

definition IOMMU_READ :: u64 where "IOMMU_READ = 1"
definition IOMMU_WRITE :: u64 where "IOMMU_WRITE = 2"
definition SL_ADDR_MASK :: u64 where "SL_ADDR_MASK = 0x000ffffffffff000"
definition SL_PRESENT :: u64 where "SL_PRESENT = IOMMU_READ OR IOMMU_WRITE"
definition AMD_PR :: u64 where "AMD_PR = 1"
definition AMD_NL_SHIFT :: nat where "AMD_NL_SHIFT = 9"
definition AMD_IR :: u64 where "AMD_IR = push_bit 61 1"
definition AMD_IW :: u64 where "AMD_IW = push_bit 62 1"
definition PAGE_SHIFT :: nat where "PAGE_SHIFT = 12"
definition INDEX_BITS :: nat where "INDEX_BITS = 9"

datatype pte_fmt = Vtd | AmdVi

definition pte_decode :: "pte_fmt \<Rightarrow> u64 \<Rightarrow> bool \<times> u64" where
  "pte_decode f e =
     (case f of
        Vtd \<Rightarrow> (e AND SL_PRESENT \<noteq> 0, e AND SL_ADDR_MASK)
      | AmdVi \<Rightarrow> (e AND AMD_PR \<noteq> 0, e AND SL_ADDR_MASK))"

definition encode_leaf :: "pte_fmt \<Rightarrow> u64 \<Rightarrow> u64 \<Rightarrow> u64" where
  "encode_leaf f phys perms =
     (case f of
        Vtd \<Rightarrow> (phys AND SL_ADDR_MASK) OR (perms AND SL_PRESENT)
      | AmdVi \<Rightarrow>
          let e0 = AMD_PR OR (phys AND SL_ADDR_MASK);
              e1 = (if perms AND IOMMU_READ \<noteq> 0 then e0 OR AMD_IR else e0)
          in if perms AND IOMMU_WRITE \<noteq> 0 then e1 OR AMD_IW else e1)"

definition encode_link :: "pte_fmt \<Rightarrow> u64 \<Rightarrow> nat \<Rightarrow> u64" where
  "encode_link f child next_level =
     (case f of
        Vtd \<Rightarrow> (child AND SL_ADDR_MASK) OR SL_PRESENT
      | AmdVi \<Rightarrow>
          AMD_PR OR AMD_IR OR AMD_IW OR (child AND SL_ADDR_MASK) OR
          push_bit AMD_NL_SHIFT (of_nat next_level AND 0x7))"

section \<open>The domain\<close>

datatype domain_error =
    DomainExhausted | Misaligned | AlreadyMapped | NotMapped | UnsupportedWidth | IovaExhausted

record domain =
  dm_root :: u64
  dm_levels :: nat
  dm_fmt :: pte_fmt

definition zero_table :: "u64 \<Rightarrow> mem \<Rightarrow> mem" where
  "zero_table t m = foldl (\<lambda>m i. write64 m (entry_addr t i) 0) m [0..<512]"

definition alloc_table :: "mem \<Rightarrow> frame_alloc \<Rightarrow> domain_error + (u64 \<times> mem \<times> frame_alloc)" where
  "alloc_table m fa =
     (case alloc fa of
        Inl _ \<Rightarrow> Inl DomainExhausted
      | Inr (phys, fa') \<Rightarrow> Inr (phys, zero_table phys m, fa'))"

definition domain_levels :: "u8 \<Rightarrow> nat option" where
  "domain_levels width =
     (if unat width < PAGE_SHIFT then None
      else let span = unat width - PAGE_SHIFT in
        if span = 0 \<or> span mod INDEX_BITS \<noteq> 0 then None
        else let levels = span div INDEX_BITS in
          if levels < 3 \<or> 5 < levels then None else Some levels)"

definition domain_new ::
    "mem \<Rightarrow> frame_alloc \<Rightarrow> u8 \<Rightarrow> pte_fmt \<Rightarrow> domain_error + (domain \<times> mem \<times> frame_alloc)" where
  "domain_new m fa width fmt =
     (case domain_levels width of
        None \<Rightarrow> Inl UnsupportedWidth
      | Some levels \<Rightarrow>
          (case alloc_table m fa of
             Inl e \<Rightarrow> Inl e
           | Inr (root, m', fa') \<Rightarrow> Inr (\<lparr>dm_root = root, dm_levels = levels, dm_fmt = fmt\<rparr>, m', fa')))"

definition domain_index :: "nat \<Rightarrow> u64 \<Rightarrow> nat \<Rightarrow> nat" where
  "domain_index levels iova depth =
     (let shift = PAGE_SHIFT + (levels - 1 - depth) * INDEX_BITS in
      unat (drop_bit shift iova AND 511))"

definition misaligned :: "u64 \<Rightarrow> bool" where
  "misaligned a \<longleftrightarrow> unat a mod 2 ^ PAGE_SHIFT \<noteq> 0"

text \<open>
  The loops of the walks: \<open>n\<close> levels remain, the current table is \<open>t\<close>.  \<open>None\<close> is the
  \<open>unreachable!\<close> behind the loop.
\<close>

fun map_walk ::
    "pte_fmt \<Rightarrow> nat \<Rightarrow> u64 \<Rightarrow> u64 \<Rightarrow> u64 \<Rightarrow> nat \<Rightarrow> u64 \<Rightarrow> mem \<Rightarrow> frame_alloc
      \<Rightarrow> ((domain_error + unit) \<times> mem \<times> frame_alloc) option" where
  "map_walk fmt levels iova phys perms 0 t m fa = None"
| "map_walk fmt levels iova phys perms (Suc n) t m fa =
     (let depth = levels - Suc n; idx = domain_index levels iova depth;
          (present, nxt) = pte_decode fmt (table_entry m t idx)
      in if n = 0 then
           (if present then Some (Inl AlreadyMapped, m, fa)
            else Some (Inr (), write64 m (entry_addr t idx) (encode_leaf fmt phys perms), fa))
         else if \<not> present then
           (case alloc_table m fa of
              Inl e \<Rightarrow> Some (Inl e, m, fa)
            | Inr (child, m', fa') \<Rightarrow>
                map_walk fmt levels iova phys perms n child
                  (write64 m' (entry_addr t idx) (encode_link fmt child (levels - 1 - depth))) fa')
         else map_walk fmt levels iova phys perms n nxt m fa)"

definition domain_map ::
    "domain \<Rightarrow> u64 \<Rightarrow> u64 \<Rightarrow> u64 \<Rightarrow> mem \<Rightarrow> frame_alloc \<Rightarrow> ((domain_error + unit) \<times> mem \<times> frame_alloc) option" where
  "domain_map d iova phys perms m fa =
     (if misaligned iova \<or> misaligned phys then Some (Inl Misaligned, m, fa)
      else map_walk (dm_fmt d) (dm_levels d) iova phys perms (dm_levels d) (dm_root d) m fa)"

fun unmap_walk :: "pte_fmt \<Rightarrow> nat \<Rightarrow> u64 \<Rightarrow> nat \<Rightarrow> u64 \<Rightarrow> mem \<Rightarrow> ((domain_error + unit) \<times> mem) option" where
  "unmap_walk fmt levels iova 0 t m = None"
| "unmap_walk fmt levels iova (Suc n) t m =
     (let idx = domain_index levels iova (levels - Suc n);
          (present, nxt) = pte_decode fmt (table_entry m t idx)
      in if \<not> present then Some (Inl NotMapped, m)
         else if n = 0 then Some (Inr (), write64 m (entry_addr t idx) 0)
         else unmap_walk fmt levels iova n nxt m)"

definition domain_unmap :: "domain \<Rightarrow> u64 \<Rightarrow> mem \<Rightarrow> ((domain_error + unit) \<times> mem) option" where
  "domain_unmap d iova m =
     (if misaligned iova then Some (Inl Misaligned, m)
      else unmap_walk (dm_fmt d) (dm_levels d) iova (dm_levels d) (dm_root d) m)"

fun translate_walk :: "pte_fmt \<Rightarrow> nat \<Rightarrow> u64 \<Rightarrow> nat \<Rightarrow> u64 \<Rightarrow> mem \<Rightarrow> u64 option" where
  "translate_walk fmt levels iova 0 t m = None"
| "translate_walk fmt levels iova (Suc n) t m =
     (let idx = domain_index levels iova (levels - Suc n);
          (present, nxt) = pte_decode fmt (table_entry m t idx)
      in if \<not> present then None
         else if n = 0 then Some (nxt OR (iova AND (push_bit PAGE_SHIFT 1 - 1)))
         else translate_walk fmt levels iova n nxt m)"

definition domain_translate :: "domain \<Rightarrow> u64 \<Rightarrow> mem \<Rightarrow> u64 option" where
  "domain_translate d iova m = translate_walk (dm_fmt d) (dm_levels d) iova (dm_levels d) (dm_root d) m"

text \<open>The level counts down to the leaf tables, at level 1; those are freed without a scan.\<close>

fun free_subtree :: "pte_fmt \<Rightarrow> mem \<Rightarrow> nat \<Rightarrow> u64 \<Rightarrow> frame_alloc \<Rightarrow> frame_alloc" where
  "free_subtree fmt m 0 t fa = drop_frame fa t"
| "free_subtree fmt m (Suc n) t fa =
     drop_frame
       (if n = 0 then fa
        else foldl (\<lambda>fa i. let (present, child) = pte_decode fmt (table_entry m t i) in
                     if present then free_subtree fmt m n child fa else fa) fa [0..<512]) t"

definition domain_teardown :: "domain \<Rightarrow> mem \<Rightarrow> frame_alloc \<Rightarrow> domain \<times> frame_alloc" where
  "domain_teardown d m fa =
     (if dm_root d \<noteq> 0
      then (d\<lparr>dm_root := 0\<rparr>, free_subtree (dm_fmt d) m (dm_levels d) (dm_root d) fa)
      else (d, fa))"

section \<open>Reading back the entries\<close>

definition addressable :: "u64 \<Rightarrow> bool" where
  "addressable a \<longleftrightarrow> \<not> misaligned a \<and> unat a < 2 ^ 52"

lemma bit_addr_mask: "bit SL_ADDR_MASK k \<longleftrightarrow> 12 \<le> k \<and> k < 52"
proof -
  have e: "SL_ADDR_MASK = push_bit 12 (mask 40)" by (simp add: SL_ADDR_MASK_def mask_eq_exp_minus_1)
  show ?thesis unfolding e bit_push_bit_iff bit_mask_iff by auto
qed

lemma addressable_frame: "addressable a \<longleftrightarrow> (\<exists>i < 2 ^ 40. unat a = i * FRAME_SIZE)"
proof
  assume "addressable a"
  then have "unat a = unat a div 4096 * 4096" "unat a div 4096 < 2 ^ 40"
    by (auto simp: addressable_def misaligned_def PAGE_SHIFT_def)
  then show "\<exists>i < 2 ^ 40. unat a = i * FRAME_SIZE" unfolding FRAME_SIZE_def by blast
qed (auto simp: addressable_def misaligned_def PAGE_SHIFT_def FRAME_SIZE_def)

lemma addr_bits:
  assumes "addressable a" "bit a k"
  shows "12 \<le> k \<and> k < 52"
proof -
  obtain i where i: "i < 2 ^ 40" "unat a = i * 4096"
    using assms(1) unfolding addressable_frame FRAME_SIZE_def by blast
  have "a = word_of_nat (i * 4096)" using i(2) by (metis word_unat_eq_iff unat_of_nat_id unsigned_less)
  then have "a = push_bit 12 (word_of_nat i)" by (simp add: push_bit_eq_mult)
  then have b: "12 \<le> k" "bit (word_of_nat i :: u64) (k - 12)" using assms(2) by (auto simp: bit_push_bit_iff)
  have "bit i (k - 12)" using b(2) by (simp add: bit_of_nat_iff)
  moreover have "take_bit 40 i = i" using i(1) by (simp add: take_bit_nat_eq_self)
  ultimately have "k - 12 < 40" by (metis bit_take_bit_iff)
  then show ?thesis using b(1) by simp
qed

lemma masked_addr: "addressable a \<Longrightarrow> a AND SL_ADDR_MASK = a"
  by (rule bit_word_eqI) (auto simp: bit_and_iff bit_addr_mask dest: addr_bits)

lemmas format_consts =
  IOMMU_READ_def IOMMU_WRITE_def SL_PRESENT_def AMD_PR_def AMD_IR_def AMD_IW_def AMD_NL_SHIFT_def

text \<open>The bits beside the address field leave it alone.\<close>

lemma masked_or: "(a OR b) AND SL_ADDR_MASK = (a AND SL_ADDR_MASK) OR (b AND SL_ADDR_MASK)"
  by (simp add: bit.conj_disj_distrib2)

lemma masked_flags:
  "SL_PRESENT AND SL_ADDR_MASK = 0" "AMD_PR AND SL_ADDR_MASK = 0" "AMD_IR AND SL_ADDR_MASK = 0"
  "AMD_IW AND SL_ADDR_MASK = 0" "(perms AND SL_PRESENT) AND SL_ADDR_MASK = 0"
  "push_bit AMD_NL_SHIFT (w AND 0x7) AND SL_ADDR_MASK = 0"
proof -
  show "SL_PRESENT AND SL_ADDR_MASK = 0" "AMD_PR AND SL_ADDR_MASK = 0" "AMD_IR AND SL_ADDR_MASK = 0"
    "AMD_IW AND SL_ADDR_MASK = 0" by (simp_all add: format_consts SL_ADDR_MASK_def)
  then show "(perms AND SL_PRESENT) AND SL_ADDR_MASK = 0" by (simp add: and.assoc)
  have "(0x7 :: u64) = mask 3" by (simp add: mask_eq_exp_minus_1)
  then show "push_bit AMD_NL_SHIFT (w AND 0x7) AND SL_ADDR_MASK = 0"
    by (intro bit_word_eqI, simp only: bit_and_iff bit_push_bit_iff bit_mask_iff bit_addr_mask AMD_NL_SHIFT_def) auto
qed

lemma present_bits:
  "e AND SL_PRESENT \<noteq> 0 \<longleftrightarrow> bit e 0 \<or> bit e 1" "e AND AMD_PR \<noteq> 0 \<longleftrightarrow> bit e 0"
  "p AND IOMMU_READ \<noteq> 0 \<longleftrightarrow> bit p 0" "p AND IOMMU_WRITE \<noteq> 0 \<longleftrightarrow> bit p 1"
proof -
  have s: "SL_PRESENT = mask 2" by (simp add: format_consts mask_eq_exp_minus_1)
  have w: "AMD_PR = shl1 0" "IOMMU_READ = shl1 0" "IOMMU_WRITE = shl1 1" by (simp_all add: format_consts shl1_def)
  show "e AND SL_PRESENT \<noteq> 0 \<longleftrightarrow> bit e 0 \<or> bit e 1"
    unfolding s by (auto simp: word_bits_eq_iff bit_and_iff bit_mask_iff less_2_cases_iff intro: exI[of _ "0 :: nat"] exI[of _ "1 :: nat"])
  show "e AND AMD_PR \<noteq> 0 \<longleftrightarrow> bit e 0" "p AND IOMMU_READ \<noteq> 0 \<longleftrightarrow> bit p 0" "p AND IOMMU_WRITE \<noteq> 0 \<longleftrightarrow> bit p 1"
    unfolding w by (simp_all add: and_shl1_eq_0)
qed

text \<open>Under VT-d a leaf without permissions is not present; every other leaf and every link is.\<close>

definition mappable :: "pte_fmt \<Rightarrow> u64 \<Rightarrow> bool" where
  "mappable f perms \<longleftrightarrow> f = Vtd \<longrightarrow> perms AND SL_PRESENT \<noteq> 0"

lemma decode_leaf:
  assumes "addressable phys" "mappable f perms"
  shows "pte_decode f (encode_leaf f phys perms) = (True, phys)"
proof (cases f)
  case Vtd
  have "bit perms 0 \<or> bit perms 1" using assms(2) Vtd unfolding mappable_def present_bits by blast
  then have "((phys AND SL_ADDR_MASK) OR (perms AND SL_PRESENT)) AND SL_PRESENT \<noteq> 0"
    unfolding present_bits(1) by (auto simp: bit_or_iff bit_and_iff format_consts bit_1_iff)
  then show ?thesis using Vtd assms(1)
    by (simp add: pte_decode_def encode_leaf_def masked_or masked_flags masked_addr and.assoc)
next
  case AmdVi
  have "bit (encode_leaf AmdVi phys perms) 0"
    by (simp add: encode_leaf_def Let_def bit_or_iff AMD_PR_def)
  then show ?thesis using AmdVi assms(1)
    by (simp add: pte_decode_def present_bits) (simp add: encode_leaf_def Let_def masked_or masked_flags masked_addr)
qed

lemma decode_link:
  assumes "addressable child"
  shows "pte_decode f (encode_link f child n) = (True, child)"
proof (cases f)
  case Vtd
  have "bit (encode_link Vtd child n) 0" by (simp add: encode_link_def bit_or_iff format_consts)
  then show ?thesis using Vtd assms
    by (simp add: pte_decode_def present_bits) (simp add: encode_link_def masked_or masked_flags masked_addr)
next
  case AmdVi
  have "bit (encode_link AmdVi child n) 0" by (simp add: encode_link_def bit_or_iff AMD_PR_def)
  moreover have "encode_link AmdVi child n AND SL_ADDR_MASK = child"
    using assms by (simp add: encode_link_def masked_or masked_flags masked_addr del: push_bit_and)
  ultimately show ?thesis using AmdVi by (simp add: pte_decode_def present_bits)
qed

lemma decode_zero [simp]: "pte_decode f 0 = (False, 0)"
  by (cases f) (simp_all add: pte_decode_def)

section \<open>The table tree\<close>

text \<open>
  The present leaf entry for a page number, the list of the tree's table frames in the order
  \<open>free_subtree\<close> visits them, and the tables a step may change.
\<close>

fun leaf_at :: "pte_fmt \<Rightarrow> mem \<Rightarrow> nat \<Rightarrow> u64 \<Rightarrow> nat \<Rightarrow> u64 option" where
  "leaf_at f m 0 t p = None"
| "leaf_at f m (Suc n) t p =
     (let e = table_entry m t (p div 512 ^ n mod 512) in
      if \<not> fst (pte_decode f e) then None
      else if n = 0 then Some e else leaf_at f m n (snd (pte_decode f e)) p)"

fun tables :: "pte_fmt \<Rightarrow> mem \<Rightarrow> nat \<Rightarrow> u64 \<Rightarrow> u64 list" where
  "tables f m 0 t = [t]"
| "tables f m (Suc n) t =
     (if n = 0 then []
      else concat (map (\<lambda>i. let (present, child) = pte_decode f (table_entry m t i) in
                       if present then tables f m n child else []) [0..<512])) @ [t]"

definition differs_in :: "u64 set \<Rightarrow> mem \<Rightarrow> mem \<Rightarrow> bool" where
  "differs_in S m m' \<longleftrightarrow> (\<forall>u i. \<not> misaligned u \<and> i < 512 \<and> u \<notin> S \<longrightarrow> table_entry m' u i = table_entry m u i)"

lemma differs_in_trans:
  "differs_in S m m' \<Longrightarrow> differs_in T m' m'' \<Longrightarrow> differs_in (S \<union> T) m m''"
  by (simp add: differs_in_def)

lemma differs_in_mono: "differs_in S m m' \<Longrightarrow> S \<subseteq> T \<Longrightarrow> differs_in T m m'"
  unfolding differs_in_def by blast

lemma differs_inD:
  "differs_in S m m' \<Longrightarrow> \<not> misaligned u \<Longrightarrow> i < 512 \<Longrightarrow> u \<notin> S \<Longrightarrow> table_entry m' u i = table_entry m u i"
  by (simp add: differs_in_def)

text \<open>The children of a table, by index.\<close>

definition kids :: "pte_fmt \<Rightarrow> mem \<Rightarrow> nat \<Rightarrow> u64 \<Rightarrow> nat \<Rightarrow> u64 list" where
  "kids f m n t i = (if fst (pte_decode f (table_entry m t i))
                     then tables f m n (snd (pte_decode f (table_entry m t i))) else [])"

lemma tables_Suc:
  "0 < n \<Longrightarrow> tables f m (Suc n) t = concat (map (kids f m n t) [0..<512]) @ [t]"
  by (simp add: kids_def[abs_def] case_prod_beta Let_def)

lemma root_in_tables [simp]: "t \<in> set (tables f m n t)"
  by (cases n) simp_all

lemma kids_in_tables: "0 < n \<Longrightarrow> i < 512 \<Longrightarrow> set (kids f m n t i) \<subseteq> set (tables f m (Suc n) t)"
  by (subst tables_Suc) auto

declare tables.simps(2) [simp del]

lemma tables_leaf [simp]: "tables f m (Suc 0) t = [t]"
  by (simp add: tables.simps(2))

lemma tables_unchanged:
  assumes "differs_in S m m'" "S \<inter> set (tables f m n t) = {}" "\<forall>u \<in> set (tables f m n t). \<not> misaligned u"
  shows "tables f m' n t = tables f m n t" and "leaf_at f m' n t p = leaf_at f m n t p"
proof -
  have "tables f m' n t = tables f m n t \<and> leaf_at f m' n t p = leaf_at f m n t p"
    using assms(2,3)
  proof (induction n arbitrary: t)
    case 0
    then show ?case by simp
  next
    case (Suc n)
    have e: "table_entry m' t i = table_entry m t i" if "i < 512" for i
      using differs_inD[OF assms(1) _ that] Suc.prems root_in_tables[of t f m "Suc n"] by blast
    have k: "kids f m' n t i = kids f m n t i" and l: "fst (pte_decode f (table_entry m t i)) \<Longrightarrow>
        leaf_at f m' n (snd (pte_decode f (table_entry m t i))) p = leaf_at f m n (snd (pte_decode f (table_entry m t i))) p"
      if "i < 512" "0 < n" for i
      using Suc.IH[of "snd (pte_decode f (table_entry m t i))"] kids_in_tables[OF that(2,1), of f m t] Suc.prems
      by (auto simp: kids_def e[OF that(1)])
    show ?case
    proof (cases "n = 0")
      case True
      then show ?thesis using e[of "p mod 512"] by (simp add: Let_def)
    next
      case False
      have "map (kids f m' n t) [0..<512] = map (kids f m n t) [0..<512]" using k False by simp
      then have "concat (map (kids f m' n t) [0..<512]) = concat (map (kids f m n t) [0..<512])" by (simp only:)
      then show ?thesis
        using False e[of "p div 512 ^ n mod 512"] l[of "p div 512 ^ n mod 512"] by (simp add: tables_Suc Let_def)
    qed
  qed
  then show "tables f m' n t = tables f m n t" "leaf_at f m' n t p = leaf_at f m n t p" by simp_all
qed

lemma mset_concat_change:
  assumes "distinct xs" "i \<in> set xs" "\<And>j. j \<in> set xs \<Longrightarrow> j \<noteq> i \<Longrightarrow> g' j = g j" "mset (g' i) = mset (g i) + D"
  shows "mset (concat (map g' xs)) = mset (concat (map g xs)) + D"
  using assms
proof (induction xs)
  case (Cons x xs)
  show ?case
  proof (cases "x = i")
    case True
    then have "map g' xs = map g xs" using Cons.prems(1,3) by (intro map_cong) auto
    then have "concat (map g' xs) = concat (map g xs)" by (simp only:)
    then show ?thesis using True Cons.prems(4) by simp
  next
    case False
    then show ?thesis using Cons.IH Cons.prems by auto
  qed
qed simp

lemma distinct_concat_disjoint:
  assumes "distinct (concat (map g xs))" "distinct xs" "i \<in> set xs" "j \<in> set xs" "i \<noteq> j"
  shows "set (g i) \<inter> set (g j) = {}"
  using assms by (induction xs) auto

text \<open>A change inside the subtree of one entry, or in frames outside the tree.\<close>

lemma subtree_change:
  assumes n: "0 < n" and idx: "idx < 512" and nxt: "pte_decode f (table_entry m t idx) = (True, nxt)"
    and d: "distinct (tables f m (Suc n) t)" and al: "\<forall>u \<in> set (tables f m (Suc n) t). \<not> misaligned u"
    and m': "differs_in (set (tables f m n nxt) \<union> N) m m'" and N: "N \<inter> set (tables f m (Suc n) t) = {}"
    and D: "mset (tables f m' n nxt) = mset (tables f m n nxt) + D"
  shows "mset (tables f m' (Suc n) t) = mset (tables f m (Suc n) t) + D"
    and "leaf_at f m' (Suc n) t q =
      (if q div 512 ^ n mod 512 = idx then leaf_at f m' n nxt q else leaf_at f m (Suc n) t q)"
proof -
  have ki: "kids f m n t idx = tables f m n nxt" by (simp add: kids_def nxt)
  have d': "distinct (concat (map (kids f m n t) [0..<512]))" "t \<notin> set (concat (map (kids f m n t) [0..<512]))"
    using d unfolding tables_Suc[OF n] by simp_all
  have "set (kids f m n t idx) \<subseteq> set (concat (map (kids f m n t) [0..<512]))" using idx by auto
  then have tn: "t \<notin> set (tables f m n nxt)" using d'(2) ki by auto
  then have e: "table_entry m' t i = table_entry m t i" if "i < 512" for i
    using differs_inD[OF m' _ that, of t] N al root_in_tables[of t f m "Suc n"] by blast
  have other: "(set (tables f m n nxt) \<union> N) \<inter> set (kids f m n t j) = {}" if j: "j < 512" "j \<noteq> idx" for j
    using distinct_concat_disjoint[OF d'(1), of idx j] ki N kids_in_tables[OF n j(1), of f m t] idx j by auto
  have k: "kids f m' n t j = kids f m n t j" and l: "fst (pte_decode f (table_entry m t j)) \<Longrightarrow>
      leaf_at f m' n (snd (pte_decode f (table_entry m t j))) q = leaf_at f m n (snd (pte_decode f (table_entry m t j))) q"
    if j: "j < 512" "j \<noteq> idx" for j
    using tables_unchanged[OF m', of f n "snd (pte_decode f (table_entry m t j))"] other[OF j]
      kids_in_tables[OF n j(1), of f m t] al by (auto simp: kids_def e[OF j(1)])
  have "mset (kids f m' n t idx) = mset (kids f m n t idx) + D" using D e[OF idx] nxt by (simp add: kids_def)
  then have "mset (concat (map (kids f m' n t) [0..<512])) = mset (concat (map (kids f m n t) [0..<512])) + D"
    using k idx by (intro mset_concat_change[of _ idx]) auto
  then show "mset (tables f m' (Suc n) t) = mset (tables f m (Suc n) t) + D" by (simp add: tables_Suc[OF n])
  show "leaf_at f m' (Suc n) t q =
      (if q div 512 ^ n mod 512 = idx then leaf_at f m' n nxt q else leaf_at f m (Suc n) t q)"
    using n nxt e[of "q div 512 ^ n mod 512"] l[of "q div 512 ^ n mod 512"] by (auto simp: Let_def)
qed

section \<open>Allocating tables\<close>

lemma aligned_frame: "\<not> misaligned a \<longleftrightarrow> unat a = unat a div FRAME_SIZE * FRAME_SIZE"
  using div_mult_mod_eq[of "unat a" 4096] unfolding misaligned_def PAGE_SHIFT_def FRAME_SIZE_def
  by (simp, linarith)

lemma write_differs:
  assumes "\<not> misaligned t" "i < 512"
  shows "differs_in {t} m (write64 m (entry_addr t i) v)"
    and "table_entry (write64 m (entry_addr t i) v) t i = v"
    and "j < 512 \<Longrightarrow> j \<noteq> i \<Longrightarrow> table_entry (write64 m (entry_addr t i) v) t j = table_entry m t j"
proof -
  note W = write_entry[OF iffD1[OF aligned_frame assms(1)] iffD1[OF aligned_frame] assms(2)]
  show "table_entry (write64 m (entry_addr t i) v) t i = v" using W[OF assms(1,2)] by simp
  show "table_entry (write64 m (entry_addr t i) v) t j = table_entry m t j" if "j < 512" "j \<noteq> i"
    using W[OF assms(1) that(1)] that(2) by simp
  have "unat t div FRAME_SIZE \<noteq> unat u div FRAME_SIZE" if "\<not> misaligned u" "u \<noteq> t" for u
    using that assms(1) by (metis aligned_frame word_unat_eq_iff)
  then show "differs_in {t} m (write64 m (entry_addr t i) v)"
    unfolding differs_in_def using W by simp
qed

lemma zero_table_differs:
  assumes "\<not> misaligned t"
  shows "differs_in {t} m (zero_table t m)" and "i < 512 \<Longrightarrow> table_entry (zero_table t m) t i = 0"
proof -
  have "differs_in {t} m (foldl (\<lambda>m i. write64 m (entry_addr t i) 0) m ns) \<and>
      (\<forall>i < 512. (i \<in> set ns \<or> table_entry m t i = 0) \<longrightarrow>
        table_entry (foldl (\<lambda>m i. write64 m (entry_addr t i) 0) m ns) t i = 0)"
    if "\<forall>i \<in> set ns. i < 512" for ns
    using that
  proof (induction ns arbitrary: m)
    case Nil
    then show ?case by (simp add: differs_in_def)
  next
    case (Cons i ns)
    let ?m = "write64 m (entry_addr t i) 0"
    have i: "i < 512" using Cons.prems by simp
    note W = write_differs[OF assms i, where m = m and v = 0]
    have IH: "differs_in {t} ?m (foldl (\<lambda>m i. write64 m (entry_addr t i) 0) ?m ns) \<and>
      (\<forall>i < 512. (i \<in> set ns \<or> table_entry ?m t i = 0) \<longrightarrow>
        table_entry (foldl (\<lambda>m i. write64 m (entry_addr t i) 0) ?m ns) t i = 0)"
      using Cons.IH[of ?m] Cons.prems by simp
    have "table_entry ?m t j = 0" if "j < 512" "j = i \<or> table_entry m t j = 0" for j
      using W(2,3) that by (cases "j = i") auto
    moreover have "differs_in {t} m (foldl (\<lambda>m i. write64 m (entry_addr t i) 0) ?m ns)"
      using differs_in_trans[OF W(1) conjunct1[OF IH]] by simp
    ultimately show ?case using IH by auto
  qed
  from this[of "[0..<512]"] show "differs_in {t} m (zero_table t m)"
    "i < 512 \<Longrightarrow> table_entry (zero_table t m) t i = 0" by (simp_all add: zero_table_def)
qed

text \<open>The frames of a tree: in use, and within the address field.\<close>

definition frame_no :: "u64 \<Rightarrow> nat" where
  "frame_no a = unat a div FRAME_SIZE"

definition taken :: "frame_alloc \<Rightarrow> u64 \<Rightarrow> bool" where
  "taken fa u \<longleftrightarrow> addressable u \<and> frame_no u < fa_frames fa \<and> frame_no u \<notin> avail fa"

definition fa_ok :: "frame_alloc \<Rightarrow> bool" where
  "fa_ok fa \<longleftrightarrow> fa_wf fa \<and> fa_frames fa \<le> 2 ^ 40"

definition tree_ok :: "pte_fmt \<Rightarrow> nat \<Rightarrow> u64 \<Rightarrow> mem \<Rightarrow> frame_alloc \<Rightarrow> bool" where
  "tree_ok f n t m fa \<longleftrightarrow> distinct (tables f m n t) \<and> (\<forall>u \<in> set (tables f m n t). taken fa u)"

lemma addressable_aligned: "addressable u \<Longrightarrow> \<not> misaligned u"
  by (simp add: addressable_def)

lemma frame_no_inj: "addressable u \<Longrightarrow> addressable v \<Longrightarrow> frame_no u = frame_no v \<longleftrightarrow> u = v"
  by (metis addressable_aligned aligned_frame frame_no_def word_unat_eq_iff)

lemma tree_aligned: "tree_ok f n t m fa \<Longrightarrow> \<forall>u \<in> set (tables f m n t). \<not> misaligned u"
  by (auto simp: tree_ok_def taken_def addressable_def)

lemma alloc_table_Inr:
  assumes "fa_ok fa" "alloc_table m fa = Inr (c, m', fa')"
  shows "addressable c" "frame_no c \<in> avail fa" "avail fa' = avail fa - {frame_no c}" "fa_ok fa'"
    "fa_frames fa' = fa_frames fa" "fa_free fa' + 1 = fa_free fa" "m' = zero_table c m" "taken fa' c"
    "frame_no c < fa_frames fa"
proof -
  have al: "alloc fa = Inr (c, fa')" and m': "m' = zero_table c m"
    using assms(2) by (auto simp: alloc_table_def split: sum.splits)
  obtain i where i: "i \<in> avail fa" "i < fa_frames fa" "unat c = i * FRAME_SIZE" "avail fa' = avail fa - {i}"
    "fa_wf fa'" "fa_frames fa' = fa_frames fa" "fa_free fa' + 1 = fa_free fa"
    using alloc_Inr[OF _ al] assms(1) unfolding fa_ok_def by metis
  have ci: "frame_no c = i" using i(3) by (simp add: frame_no_def FRAME_SIZE_def)
  show "addressable c" using i(2,3) assms(1) unfolding addressable_frame fa_ok_def by (metis order.strict_trans2)
  then show "taken fa' c" using i ci by (simp add: taken_def)
  show "frame_no c \<in> avail fa" "avail fa' = avail fa - {frame_no c}" "fa_ok fa'"
    "fa_frames fa' = fa_frames fa" "fa_free fa' + 1 = fa_free fa" "m' = zero_table c m" "frame_no c < fa_frames fa"
    using i ci m' assms(1) by (simp_all add: fa_ok_def)
qed

lemma alloc_table_Inl:
  assumes "fa_ok fa" "alloc_table m fa = Inl e"
  shows "e = DomainExhausted" "avail fa = {}"
  using assms alloc_Inl_iff[of fa] by (auto simp: alloc_table_def fa_ok_def split: sum.splits)

text \<open>A step that adds exactly the tables \<open>new\<close>, taken from the allocator, to the tree.\<close>

definition grows ::
    "pte_fmt \<Rightarrow> nat \<Rightarrow> u64 \<Rightarrow> u64 list \<Rightarrow> mem \<Rightarrow> frame_alloc \<Rightarrow> mem \<Rightarrow> frame_alloc \<Rightarrow> bool" where
  "grows f n t new m fa m' fa' \<longleftrightarrow>
     fa_ok fa' \<and> fa_frames fa' = fa_frames fa \<and> distinct new \<and>
     (\<forall>u \<in> set new. addressable u \<and> frame_no u \<in> avail fa) \<and>
     avail fa' = avail fa - frame_no ` set new \<and> fa_free fa' + length new = fa_free fa \<and>
     mset (tables f m' n t) = mset (tables f m n t) + mset new \<and>
     differs_in (set (tables f m n t) \<union> set new) m m'"

lemma grows_same: "fa_ok fa \<Longrightarrow> grows f n t [] m fa m fa"
  by (simp add: grows_def differs_in_def)

lemma grows_set: "grows f n t new m fa m' fa' \<Longrightarrow> set (tables f m' n t) = set (tables f m n t) \<union> set new"
  unfolding grows_def by (metis set_mset_mset set_mset_union)

lemma new_not_taken: "grows f n t new m fa m' fa' \<Longrightarrow> u \<in> set new \<Longrightarrow> \<not> taken fa u"
  by (simp add: grows_def taken_def)

lemma grows_tree_ok:
  assumes "fa_ok fa" "tree_ok f n t m fa" "grows f n t new m fa m' fa'"
  shows "tree_ok f n t m' fa'"
proof -
  have "set (tables f m n t) \<inter> set new = {}"
    using assms(2) new_not_taken[OF assms(3)] by (auto simp: tree_ok_def)
  then have "distinct (tables f m n t @ new)" using assms(2,3) by (simp add: tree_ok_def grows_def)
  then have "distinct (tables f m' n t)"
    using assms(3) mset_eq_imp_distinct_iff[of "tables f m' n t" "tables f m n t @ new"] by (simp add: grows_def)
  moreover have "taken fa' u" if "u \<in> set (tables f m' n t)" for u
    using that assms unfolding grows_set[OF assms(3)]
    by (auto simp: tree_ok_def taken_def grows_def fa_ok_def fa_wf_def)
  ultimately show ?thesis by (simp add: tree_ok_def)
qed

lemma grows_trans:
  assumes "grows f n t new m fa m1 fa1" "grows f n t new' m1 fa1 m' fa'"
  shows "grows f n t (new @ new') m fa m' fa'"
proof -
  have "set new \<inter> set new' = {}" using assms by (auto simp: grows_def)
  moreover have "differs_in (set (tables f m n t) \<union> set new \<union> (set (tables f m1 n t) \<union> set new')) m m'"
    using assms by (auto simp: grows_def intro: differs_in_trans)
  ultimately show ?thesis
    using assms grows_set[OF assms(1)] by (auto simp: grows_def Un_ac intro: differs_in_mono)
qed

text \<open>Growth inside the subtree of an entry is growth of the whole tree.\<close>

lemma grows_parent:
  assumes n: "0 < n" and idx: "idx < 512" and nxt: "pte_decode f (table_entry m t idx) = (True, nxt)"
    and ok: "tree_ok f (Suc n) t m fa" and g: "grows f n nxt new m fa m' fa'"
  shows "grows f (Suc n) t new m fa m' fa'"
    and "leaf_at f m' (Suc n) t q =
      (if q div 512 ^ n mod 512 = idx then leaf_at f m' n nxt q else leaf_at f m (Suc n) t q)"
proof -
  have N: "set new \<inter> set (tables f m (Suc n) t) = {}"
    using ok new_not_taken[OF g] by (auto simp: tree_ok_def)
  have d: "distinct (tables f m (Suc n) t)" using ok by (simp add: tree_ok_def)
  have dif: "differs_in (set (tables f m n nxt) \<union> set new) m m'"
    and D: "mset (tables f m' n nxt) = mset (tables f m n nxt) + mset new" using g by (simp_all add: grows_def)
  note C = subtree_change[OF n idx nxt d tree_aligned[OF ok] dif N D]
  have "set (tables f m n nxt) \<subseteq> set (tables f m (Suc n) t)"
    using kids_in_tables[OF n idx, of f m t] nxt by (simp add: kids_def)
  then show "grows f (Suc n) t new m fa m' fa'"
    using g C(1) by (auto simp: grows_def intro: differs_in_mono)
  show "leaf_at f m' (Suc n) t q =
      (if q div 512 ^ n mod 512 = idx then leaf_at f m' n nxt q else leaf_at f m (Suc n) t q)" by (rule C(2))
qed

lemma empty_tree:
  assumes "\<forall>i < 512. table_entry m c i = 0" "0 < n"
  shows "tables f m n c = [c]" and "leaf_at f m n c q = None"
proof -
  obtain k where n: "n = Suc k" using assms(2) by (cases n) auto
  have "map (kids f m k c) [0..<512] = map (\<lambda>_. []) [0..<512]" using assms(1) by (simp add: kids_def)
  then have "concat (map (kids f m k c) [0..<512]) = concat (map (\<lambda>_. []) [0..<512])" by (simp only:)
  then show "tables f m n c = [c]" unfolding n by (cases "k = 0") (simp_all add: tables_Suc)
  show "leaf_at f m n c q = None" using assms(1) by (simp add: n)
qed

text \<open>Linking a fresh table under an empty entry adds that table and no mapping.\<close>

lemma link_step:
  assumes fa: "fa_ok fa" and ok: "tree_ok f (Suc n) t m fa" and n: "0 < n" and idx: "idx < 512"
    and absent: "\<not> fst (pte_decode f (table_entry m t idx))"
    and al: "alloc_table m fa = Inr (c, m1, fa1)"
    and m2: "m2 = write64 m1 (entry_addr t idx) (encode_link f c k)"
  shows "grows f (Suc n) t [c] m fa m2 fa1" and "pte_decode f (table_entry m2 t idx) = (True, c)"
    and "leaf_at f m2 (Suc n) t q = leaf_at f m (Suc n) t q"
proof -
  note A = alloc_table_Inr[OF fa al]
  have cal: "\<not> misaligned c" by (rule addressable_aligned[OF A(1)])
  have fresh: "c \<notin> set (tables f m (Suc n) t)" using ok A(2) by (auto simp: tree_ok_def taken_def)
  have tal: "\<not> misaligned t" using tree_aligned[OF ok] root_in_tables by blast
  note Z = zero_table_differs[OF cal, where m = m, folded A(7)]
  note W = write_differs[OF tal idx, where m = m1 and v = "encode_link f c k", folded m2]
  have dif: "differs_in {c, t} m m2" using differs_in_trans[OF Z(1) W(1)] by (simp add: insert_commute)
  show link: "pte_decode f (table_entry m2 t idx) = (True, c)" by (simp add: W(2) decode_link[OF A(1)])
  have ct: "c \<noteq> t" using fresh root_in_tables by metis
  have z: "\<forall>i < 512. table_entry m2 c i = 0" using Z(2) differs_inD[OF W(1) cal] ct by auto
  have e: "table_entry m2 t j = table_entry m t j" if "j < 512" "j \<noteq> idx" for j
    using W(3)[OF that] differs_inD[OF Z(1) tal that(1)] ct by simp
  have d: "distinct (concat (map (kids f m n t) [0..<512]))" "t \<notin> set (concat (map (kids f m n t) [0..<512]))"
    using ok by (simp_all add: tree_ok_def tables_Suc[OF n])
  have disj: "{c, t} \<inter> set (kids f m n t j) = {}" if "j < 512" for j
    using kids_in_tables[OF n that, of f m t] fresh d(2) that by auto
  have k: "kids f m2 n t j = kids f m n t j" and l: "fst (pte_decode f (table_entry m t j)) \<Longrightarrow>
      leaf_at f m2 n (snd (pte_decode f (table_entry m t j))) q = leaf_at f m n (snd (pte_decode f (table_entry m t j))) q"
    if j: "j < 512" "j \<noteq> idx" for j
    using tables_unchanged[OF dif, of f n "snd (pte_decode f (table_entry m t j))"] disj[OF j(1)]
      kids_in_tables[OF n j(1), of f m t] tree_aligned[OF ok] by (auto simp: kids_def e[OF j])
  have "mset (kids f m2 n t idx) = mset (kids f m n t idx) + {#c#}"
    using link absent empty_tree(1)[OF z n] by (simp add: kids_def)
  then have "mset (concat (map (kids f m2 n t) [0..<512])) = mset (concat (map (kids f m n t) [0..<512])) + {#c#}"
    using k idx by (intro mset_concat_change[of _ idx]) auto
  then have "mset (tables f m2 (Suc n) t) = mset (tables f m (Suc n) t) + {#c#}" by (simp add: tables_Suc[OF n])
  moreover have "differs_in (set (tables f m (Suc n) t) \<union> {c}) m m2"
    using differs_in_mono[OF dif] root_in_tables[of t f m "Suc n"] by simp
  ultimately show "grows f (Suc n) t [c] m fa m2 fa1" using A by (simp add: grows_def)
  show "leaf_at f m2 (Suc n) t q = leaf_at f m (Suc n) t q"
  proof (cases "q div 512 ^ n mod 512 = idx")
    case True
    then show ?thesis using link absent empty_tree(2)[OF z n] n by (simp add: Let_def)
  next
    case False
    then show ?thesis using e[OF _ False] l[OF _ False] n by (simp add: Let_def)
  qed
qed

section \<open>The walks\<close>

definition iova_page :: "u64 \<Rightarrow> nat" where
  "iova_page iova = unat iova div 4096"

lemma domain_index_page:
  assumes "n < levels"
  shows "domain_index levels iova (levels - Suc n) = iova_page iova div 512 ^ n mod 512"
proof -
  have s: "levels - 1 - (levels - Suc n) = n" using assms by simp
  have m: "(511 :: u64) = mask 9" by (simp add: mask_eq_exp_minus_1)
  have "(2 :: nat) ^ (12 + n * 9) = 4096 * 512 ^ n" 
    using power_mult[of "2 :: nat" 9 n] by (simp add: power_add mult.commute)
  moreover have "unat (drop_bit (12 + n * 9) iova AND mask 9) = take_bit 9 (drop_bit (12 + n * 9) (unat iova))"
    by (simp add: take_bit_eq_mask[symmetric] unsigned_take_bit_eq unat_drop_bit_eq)
  ultimately show ?thesis
    unfolding domain_index_def Let_def s PAGE_SHIFT_def INDEX_BITS_def m iova_page_def
    by (simp add: take_bit_eq_mod drop_bit_eq_div div_mult2_eq)
qed

lemma index_less [simp]: "p div 512 ^ n mod 512 < (512 :: nat)"
  by simp

lemma page_mod_Suc:
  "q mod 512 ^ Suc n = p mod 512 ^ Suc n \<longleftrightarrow>
   q div 512 ^ n mod 512 = p div 512 ^ n mod 512 \<and> q mod 512 ^ n = p mod (512 :: nat) ^ n"
proof -
  have e: "r mod 512 ^ Suc n = r div 512 ^ n mod 512 * 512 ^ n + r mod 512 ^ n" for r :: nat
    using mod_mult2_eq[of r "512 ^ n" 512] by (simp add: mult.commute add.commute)
  have c: "(r div 512 ^ n mod 512 * 512 ^ n + r mod 512 ^ n) mod 512 ^ n = r mod (512 :: nat) ^ n" for r :: nat by simp
  show ?thesis
  proof
    assume eq: "q mod 512 ^ Suc n = p mod 512 ^ Suc n"
    then have "q mod 512 ^ n = p mod 512 ^ n" unfolding e using c by metis
    then show "q div 512 ^ n mod 512 = p div 512 ^ n mod 512 \<and> q mod 512 ^ n = p mod 512 ^ n"
      using eq unfolding e by simp
  next
    assume "q div 512 ^ n mod 512 = p div 512 ^ n mod 512 \<and> q mod 512 ^ n = p mod 512 ^ n"
    then show "q mod 512 ^ Suc n = p mod 512 ^ Suc n" unfolding e by simp
  qed
qed

lemma leaf_at_parent:
  assumes "0 < n" "pte_decode f (table_entry m t (p div 512 ^ n mod 512)) = (True, nxt)"
  shows "leaf_at f m (Suc n) t p = leaf_at f m n nxt p"
  using assms by simp

lemma tree_ok_child:
  assumes ok: "tree_ok f (Suc n) t m fa" and n: "0 < n" and idx: "idx < 512"
    and nxt: "pte_decode f (table_entry m t idx) = (True, nxt)"
  shows "tree_ok f n nxt m fa"
proof -
  have k: "kids f m n t idx = tables f m n nxt" unfolding kids_def nxt by simp
  have "\<forall>ys \<in> set (map (kids f m n t) [0..<512]). distinct ys"
    using ok distinct_concat_iff[of "map (kids f m n t) [0..<512]"] unfolding tree_ok_def tables_Suc[OF n] by simp
  then have "distinct (kids f m n t idx)" using idx by simp
  then show ?thesis using ok kids_in_tables[OF n idx, of f m t] unfolding tree_ok_def k by blast
qed

text \<open>What a walk of \<open>map\<close> did to the mappings: one page added, or none, and why.\<close>

definition map_outcome ::
    "pte_fmt \<Rightarrow> u64 \<Rightarrow> nat \<Rightarrow> u64 \<Rightarrow> nat \<Rightarrow> mem \<Rightarrow> frame_alloc \<Rightarrow> domain_error + unit \<Rightarrow> mem \<Rightarrow> frame_alloc \<Rightarrow> bool" where
  "map_outcome f e n t p m fa r m' fa' \<longleftrightarrow>
     r = Inr () \<and> leaf_at f m n t p = None \<and>
       (\<forall>q. leaf_at f m' n t q = (if q mod 512 ^ n = p mod 512 ^ n then Some e else leaf_at f m n t q)) \<or>
     r = Inl AlreadyMapped \<and> leaf_at f m n t p \<noteq> None \<and> m' = m \<and> fa' = fa \<or>
     r = Inl DomainExhausted \<and> leaf_at f m n t p = None \<and> avail fa' = {} \<and>
       (\<forall>q. leaf_at f m' n t q = leaf_at f m n t q)"

lemma map_walk_present:
  assumes fa: "fa_ok fa" and ok: "tree_ok f (Suc n) t m fa" and n: "0 < n" "Suc n \<le> levels"
    and nxt: "pte_decode f (table_entry m t (iova_page iova div 512 ^ n mod 512)) = (True, nxt)"
    and IH: "map_walk f levels iova phys perms n nxt m fa = Some (r, m', fa')"
      "grows f n nxt new m fa m' fa'" "Q \<longrightarrow> map_outcome f e n nxt (iova_page iova) m fa r m' fa'"
  shows "map_walk f levels iova phys perms (Suc n) t m fa = Some (r, m', fa')"
    and "grows f (Suc n) t new m fa m' fa'" and "Q \<longrightarrow> map_outcome f e (Suc n) t (iova_page iova) m fa r m' fa'"
proof -
  show "map_walk f levels iova phys perms (Suc n) t m fa = Some (r, m', fa')"
    using n nxt IH(1) by (simp add: domain_index_page)
  note G = grows_parent[OF n(1) index_less nxt ok IH(2)]
  show "grows f (Suc n) t new m fa m' fa'" by (rule G(1))
  have l: "leaf_at f m (Suc n) t q = leaf_at f m n nxt q"
    if "q div 512 ^ n mod 512 = iova_page iova div 512 ^ n mod 512" for q
    by (rule leaf_at_parent[OF n(1)]) (simp add: that nxt)
  show "Q \<longrightarrow> map_outcome f e (Suc n) t (iova_page iova) m fa r m' fa'"
    using IH(3) l G(2) unfolding map_outcome_def page_mod_Suc by auto
qed

lemma map_walk_spec:
  assumes "fa_ok fa" "tree_ok f (Suc n) t m fa" "Suc n \<le> levels"
  shows "\<exists>r m' fa' new. map_walk f levels iova phys perms (Suc n) t m fa = Some (r, m', fa') \<and>
      grows f (Suc n) t new m fa m' fa' \<and>
      (mappable f perms \<and> addressable phys \<longrightarrow>
        map_outcome f (encode_leaf f phys perms) (Suc n) t (iova_page iova) m fa r m' fa')"
  using assms
proof (induction n arbitrary: t m fa)
  case 0
  let ?p = "iova_page iova" let ?i = "iova_page iova mod 512"
  have i: "domain_index levels iova (levels - Suc 0) = ?i" using domain_index_page[of 0] 0 by simp
  have tal: "\<not> misaligned t" using tree_aligned[OF 0(2)] root_in_tables by blast
  show ?case
  proof (cases "fst (pte_decode f (table_entry m t ?i))")
    case True
    then have "map_walk f levels iova phys perms (Suc 0) t m fa = Some (Inl AlreadyMapped, m, fa)"
      using i by (simp add: case_prod_beta)
    moreover have "leaf_at f m (Suc 0) t ?p \<noteq> None" using True by (simp add: Let_def)
    ultimately show ?thesis using grows_same[OF 0(1)] by (fastforce simp: map_outcome_def)
  next
    case False
    let ?e = "encode_leaf f phys perms" let ?m = "write64 m (entry_addr t ?i) (encode_leaf f phys perms)"
    have w: "map_walk f levels iova phys perms (Suc 0) t m fa = Some (Inr (), ?m, fa)"
      using i False by (simp add: case_prod_beta)
    have i5: "?i < 512" by simp
    note W = write_differs[OF tal i5, where m = m and v = ?e]
    have g: "grows f (Suc 0) t [] m fa ?m fa" using 0(1) W(1) by (simp add: grows_def)
    have "leaf_at f ?m (Suc 0) t q = (if q mod 512 = ?i then Some ?e else leaf_at f m (Suc 0) t q)"
      if "mappable f perms \<and> addressable phys" for q
      using W(2) W(3)[of "q mod 512"] decode_leaf[of phys f perms] that by (auto simp: Let_def)
    then have "mappable f perms \<and> addressable phys \<longrightarrow> map_outcome f ?e (Suc 0) t ?p m fa (Inr ()) ?m fa"
      using False by (simp add: map_outcome_def Let_def)
    then show ?thesis using w g by blast
  qed
next
  case (Suc n)
  let ?p = "iova_page iova" let ?i = "iova_page iova div 512 ^ Suc n mod 512"
  have i: "domain_index levels iova (levels - Suc (Suc n)) = ?i" using domain_index_page Suc.prems(3) by simp
  have child: "\<exists>r m' fa' new. map_walk f levels iova phys perms (Suc (Suc n)) t m fa = Some (r, m', fa') \<and>
      grows f (Suc (Suc n)) t new m fa m' fa' \<and>
      (mappable f perms \<and> addressable phys \<longrightarrow>
        map_outcome f (encode_leaf f phys perms) (Suc (Suc n)) t ?p m fa r m' fa')"
    if fa: "fa_ok fa" and ok: "tree_ok f (Suc (Suc n)) t m fa"
      and nxt: "pte_decode f (table_entry m t ?i) = (True, nxt)" for m fa nxt
  proof -
    have "tree_ok f (Suc n) nxt m fa" by (rule tree_ok_child[OF ok zero_less_Suc index_less nxt])
    then obtain r m' fa' new where IH: "map_walk f levels iova phys perms (Suc n) nxt m fa = Some (r, m', fa')"
      "grows f (Suc n) nxt new m fa m' fa'"
      "mappable f perms \<and> addressable phys \<longrightarrow> map_outcome f (encode_leaf f phys perms) (Suc n) nxt ?p m fa r m' fa'"
      using Suc.IH[OF fa] Suc.prems(3) by (metis Suc_leD)
    note P = map_walk_present[OF fa ok zero_less_Suc Suc.prems(3) nxt IH]
    show ?thesis using P by blast
  qed
  show ?case
  proof (cases "fst (pte_decode f (table_entry m t ?i))")
    case True
    then show ?thesis using child[OF Suc.prems(1,2), of "snd (pte_decode f (table_entry m t ?i))"]
      by (metis prod.collapse)
  next
    case absent: False
    show ?thesis
    proof (cases "alloc_table m fa")
      case (Inl x)
      then have w: "map_walk f levels iova phys perms (Suc (Suc n)) t m fa = Some (Inl DomainExhausted, m, fa)"
        using i absent alloc_table_Inl[OF Suc.prems(1) Inl] by (simp add: case_prod_beta Let_def)
      have "leaf_at f m (Suc (Suc n)) t ?p = None" using absent by (simp add: Let_def)
      then have "map_outcome f e (Suc (Suc n)) t ?p m fa (Inl DomainExhausted) m fa" for e
        using alloc_table_Inl[OF Suc.prems(1) Inl] by (simp add: map_outcome_def)
      then show ?thesis using w grows_same[OF Suc.prems(1)] by blast
    next
      case (Inr y)
      obtain c m1 fa1 where al: "alloc_table m fa = Inr (c, m1, fa1)" using Inr by (metis prod_cases3)
      define m2 where "m2 = write64 m1 (entry_addr t ?i) (encode_link f c (levels - 1 - (levels - Suc (Suc n))))"
      note L = link_step[OF Suc.prems(1,2) zero_less_Suc index_less absent al m2_def]
      have fa1: "fa_ok fa1" using L(1) by (simp add: grows_def)
      have "map_walk f levels iova phys perms (Suc (Suc n)) t m fa = map_walk f levels iova phys perms (Suc n) c m2 fa1"
        using i absent al by (simp add: case_prod_beta m2_def Let_def)
      also have "\<dots> = map_walk f levels iova phys perms (Suc (Suc n)) t m2 fa1"
        using i L(2) by simp
      finally have w: "map_walk f levels iova phys perms (Suc (Suc n)) t m fa = map_walk f levels iova phys perms (Suc (Suc n)) t m2 fa1" .
      obtain r m' fa' new where C: "map_walk f levels iova phys perms (Suc (Suc n)) t m2 fa1 = Some (r, m', fa')"
        "grows f (Suc (Suc n)) t new m2 fa1 m' fa'"
        "mappable f perms \<and> addressable phys \<longrightarrow> map_outcome f (encode_leaf f phys perms) (Suc (Suc n)) t ?p m2 fa1 r m' fa'"
        using child[OF fa1 grows_tree_ok[OF Suc.prems(1,2) L(1)] L(2)] by blast
      have "leaf_at f m (Suc (Suc n)) t ?p = None" using absent by (simp add: Let_def)
      then have "mappable f perms \<and> addressable phys \<longrightarrow>
          map_outcome f (encode_leaf f phys perms) (Suc (Suc n)) t ?p m fa r m' fa'"
        using C(3) unfolding map_outcome_def L(3) by blast
      then show ?thesis using C(1) grows_trans[OF L(1) C(2)] unfolding w by blast
    qed
  qed
qed

lemma unmap_walk_spec:
  assumes "fa_ok fa" "tree_ok f (Suc n) t m fa" "Suc n \<le> levels"
  shows "\<exists>r m'. unmap_walk f levels iova (Suc n) t m = Some (r, m') \<and> grows f (Suc n) t [] m fa m' fa \<and>
      (r = Inr () \<and> leaf_at f m (Suc n) t (iova_page iova) \<noteq> None \<and>
         (\<forall>q. leaf_at f m' (Suc n) t q =
            (if q mod 512 ^ Suc n = iova_page iova mod 512 ^ Suc n then None else leaf_at f m (Suc n) t q)) \<or>
       r = Inl NotMapped \<and> leaf_at f m (Suc n) t (iova_page iova) = None \<and> m' = m)"
  using assms
proof (induction n arbitrary: t)
  case 0
  let ?i = "iova_page iova mod 512"
  have i: "domain_index levels iova (levels - Suc 0) = ?i" using domain_index_page[of 0] 0 by simp
  have tal: "\<not> misaligned t" using tree_aligned[OF 0(2)] root_in_tables by blast
  show ?case
  proof (cases "fst (pte_decode f (table_entry m t ?i))")
    case False
    then have "unmap_walk f levels iova (Suc 0) t m = Some (Inl NotMapped, m)"
      using i by (simp add: case_prod_beta)
    moreover have "leaf_at f m (Suc 0) t (iova_page iova) = None" using False by (simp add: Let_def)
    ultimately show ?thesis using grows_same[OF 0(1)] by fastforce
  next
    case True
    let ?m = "write64 m (entry_addr t ?i) 0"
    have w: "unmap_walk f levels iova (Suc 0) t m = Some (Inr (), ?m)"
      using i True by (simp add: case_prod_beta)
    have i5: "?i < 512" by simp
    note W = write_differs[OF tal i5, where m = m and v = 0]
    have g: "grows f (Suc 0) t [] m fa ?m fa" using 0(1) W(1) by (simp add: grows_def)
    have "\<forall>q. leaf_at f ?m (Suc 0) t q =
        (if q mod 512 ^ Suc 0 = iova_page iova mod 512 ^ Suc 0 then None else leaf_at f m (Suc 0) t q)"
      using W(2) W(3)[of "q mod 512" for q] by (auto simp: Let_def)
    moreover have "leaf_at f m (Suc 0) t (iova_page iova) \<noteq> None" using True by (simp add: Let_def)
    ultimately show ?thesis using w g by blast
  qed
next
  case (Suc n)
  let ?p = "iova_page iova" let ?i = "iova_page iova div 512 ^ Suc n mod 512"
  have i: "domain_index levels iova (levels - Suc (Suc n)) = ?i" using domain_index_page Suc.prems(3) by simp
  show ?case
  proof (cases "fst (pte_decode f (table_entry m t ?i))")
    case False
    then have "unmap_walk f levels iova (Suc (Suc n)) t m = Some (Inl NotMapped, m)"
      using i by (simp add: case_prod_beta)
    moreover have "leaf_at f m (Suc (Suc n)) t ?p = None" using False by (simp add: Let_def)
    ultimately show ?thesis using grows_same[OF Suc.prems(1)] by blast
  next
    case True
    then obtain nxt where nxt: "pte_decode f (table_entry m t ?i) = (True, nxt)" by (metis prod.collapse)
    have w: "unmap_walk f levels iova (Suc (Suc n)) t m = unmap_walk f levels iova (Suc n) nxt m"
      using i nxt by simp
    obtain r m' where IH: "unmap_walk f levels iova (Suc n) nxt m = Some (r, m')" "grows f (Suc n) nxt [] m fa m' fa"
      "r = Inr () \<and> leaf_at f m (Suc n) nxt ?p \<noteq> None \<and>
         (\<forall>q. leaf_at f m' (Suc n) nxt q =
            (if q mod 512 ^ Suc n = ?p mod 512 ^ Suc n then None else leaf_at f m (Suc n) nxt q)) \<or>
       r = Inl NotMapped \<and> leaf_at f m (Suc n) nxt ?p = None \<and> m' = m"
      using Suc.IH[OF Suc.prems(1) tree_ok_child[OF Suc.prems(2) zero_less_Suc index_less nxt]] Suc.prems(3)
      by (metis Suc_leD)
    note G = grows_parent[OF zero_less_Suc index_less nxt Suc.prems(2) IH(2)]
    have l: "leaf_at f m (Suc (Suc n)) t q = leaf_at f m (Suc n) nxt q" if "q div 512 ^ Suc n mod 512 = ?i" for q
      by (rule leaf_at_parent) (simp_all only: that nxt zero_less_Suc)
    have "r = Inr () \<and> leaf_at f m (Suc (Suc n)) t ?p \<noteq> None \<and>
         (\<forall>q. leaf_at f m' (Suc (Suc n)) t q =
            (if q mod 512 ^ Suc (Suc n) = ?p mod 512 ^ Suc (Suc n) then None else leaf_at f m (Suc (Suc n)) t q)) \<or>
       r = Inl NotMapped \<and> leaf_at f m (Suc (Suc n)) t ?p = None \<and> m' = m"
      using IH(3) l[OF refl] l G(2) unfolding page_mod_Suc[of _ "Suc n"] by auto
    then show ?thesis using IH(1) G(1) unfolding w by blast
  qed
qed

lemma translate_walk_spec:
  "n \<le> levels \<Longrightarrow> translate_walk f levels iova n t m =
     map_option (\<lambda>e. snd (pte_decode f e) OR (iova AND (push_bit PAGE_SHIFT 1 - 1))) (leaf_at f m n t (iova_page iova))"
  by (induction n arbitrary: t) (simp_all add: domain_index_page case_prod_beta Let_def)

lemma leaf_at_mod: "leaf_at f m n t (q mod 512 ^ n) = leaf_at f m n t q"
proof (induction n arbitrary: t q)
  case (Suc n)
  have i: "q mod 512 ^ Suc n div 512 ^ n mod 512 = q div 512 ^ n mod 512"
    and r: "q mod 512 ^ Suc n mod 512 ^ n = q mod 512 ^ n"
    using page_mod_Suc[of "q mod 512 ^ Suc n" n q] by simp_all
  have "leaf_at f m n u (q mod 512 ^ Suc n) = leaf_at f m n u q" for u
    using Suc[of u "q mod 512 ^ Suc n"] Suc[of u q] unfolding r by simp
  then show ?case unfolding leaf_at.simps i by (simp only:)
qed simp

lemma free_subtree_tables: "free_subtree f m n t fa = foldl drop_frame fa (tables f m n t)"
proof (induction n arbitrary: t fa)
  case (Suc n)
  have "foldl (\<lambda>fa i. let (present, child) = pte_decode f (table_entry m t i) in
            if present then free_subtree f m n child fa else fa) fa is =
      foldl drop_frame fa (concat (map (kids f m n t) is))" for "is"
    by (induction "is" arbitrary: fa) (simp_all add: kids_def case_prod_beta Suc)
  then show ?case by (cases "n = 0") (simp_all add: tables_Suc)
qed simp

section \<open>The domain as a partial map\<close>

text \<open>
  Abstractly a domain maps device page numbers to leaf entries; addresses beyond the domain's
  width alias, as the walk ignores the upper bits.
\<close>

definition domain_view :: "domain \<Rightarrow> mem \<Rightarrow> nat \<Rightarrow> u64 option" where
  "domain_view d m p =
     (if p < 512 ^ dm_levels d then leaf_at (dm_fmt d) m (dm_levels d) (dm_root d) p else None)"

definition dma_page :: "domain \<Rightarrow> u64 \<Rightarrow> nat" where
  "dma_page d iova = iova_page iova mod 512 ^ dm_levels d"

definition domain_tables :: "domain \<Rightarrow> mem \<Rightarrow> u64 list" where
  "domain_tables d m = tables (dm_fmt d) m (dm_levels d) (dm_root d)"

definition domain_ok :: "domain \<Rightarrow> mem \<Rightarrow> frame_alloc \<Rightarrow> bool" where
  "domain_ok d m fa \<longleftrightarrow> fa_ok fa \<and> dm_levels d \<in> {3..5} \<and> dm_root d \<noteq> 0 \<and>
     tree_ok (dm_fmt d) (dm_levels d) (dm_root d) m fa"

lemma view_leaf: "domain_view d m (dma_page d iova) = leaf_at (dm_fmt d) m (dm_levels d) (dm_root d) (iova_page iova)"
  by (simp add: domain_view_def dma_page_def leaf_at_mod)

lemma view_updated:
  assumes "\<forall>q. leaf_at (dm_fmt d) m' (dm_levels d) (dm_root d) q =
      (if q mod 512 ^ dm_levels d = iova_page iova mod 512 ^ dm_levels d then x
       else leaf_at (dm_fmt d) m (dm_levels d) (dm_root d) q)"
  shows "domain_view d m' = (domain_view d m)(dma_page d iova := x)"
proof
  fix q
  show "domain_view d m' q = ((domain_view d m)(dma_page d iova := x)) q"
    using assms by (auto simp: domain_view_def dma_page_def)
qed

lemma domain_levels_Suc: "domain_ok d m fa \<Longrightarrow> \<exists>n. dm_levels d = Suc n"
  by (cases "dm_levels d") (auto simp: domain_ok_def)

text \<open>Whatever its arguments, \<open>map\<close> returns and keeps a well-formed tree; its tables come from the allocator.\<close>

lemma domain_map_grows:
  assumes "domain_ok d m fa"
  shows "\<exists>r m' fa' new. domain_map d iova phys perms m fa = Some (r, m', fa') \<and>
      grows (dm_fmt d) (dm_levels d) (dm_root d) new m fa m' fa' \<and> domain_ok d m' fa' \<and>
      (\<not> misaligned iova \<and> mappable (dm_fmt d) perms \<and> addressable phys \<longrightarrow>
        map_outcome (dm_fmt d) (encode_leaf (dm_fmt d) phys perms) (dm_levels d) (dm_root d) (iova_page iova) m fa r m' fa')"
proof (cases "misaligned iova \<or> misaligned phys")
  case True
  then show ?thesis
    using assms grows_same[of fa "dm_fmt d" "dm_levels d" "dm_root d" m]
    by (auto simp: domain_map_def domain_ok_def addressable_def intro: exI[of _ "[] :: u64 list"])
next
  case False
  obtain n where n: "dm_levels d = Suc n" using domain_levels_Suc[OF assms] by blast
  have ok: "fa_ok fa" "tree_ok (dm_fmt d) (Suc n) (dm_root d) m fa" using assms n by (simp_all add: domain_ok_def)
  obtain r m' fa' new where W: "map_walk (dm_fmt d) (Suc n) iova phys perms (Suc n) (dm_root d) m fa = Some (r, m', fa')"
    "grows (dm_fmt d) (Suc n) (dm_root d) new m fa m' fa'"
    "mappable (dm_fmt d) perms \<and> addressable phys \<longrightarrow>
        map_outcome (dm_fmt d) (encode_leaf (dm_fmt d) phys perms) (Suc n) (dm_root d) (iova_page iova) m fa r m' fa'"
    using map_walk_spec[OF ok order_refl] by blast
  have "domain_ok d m' fa'"
    using assms n W(2) grows_tree_ok[OF ok W(2)] by (simp add: domain_ok_def grows_def)
  moreover have "domain_map d iova phys perms m fa = Some (r, m', fa')"
    using False W(1) n by (simp add: domain_map_def)
  ultimately show ?thesis using W(2,3) unfolding n by blast
qed

lemma domain_map_view:
  assumes "domain_ok d m fa" "\<not> misaligned iova" "mappable (dm_fmt d) perms" "addressable phys"
  shows "\<exists>r m' fa'. domain_map d iova phys perms m fa = Some (r, m', fa') \<and> domain_ok d m' fa' \<and>
      (r = Inr () \<and> domain_view d m (dma_page d iova) = None \<and>
         domain_view d m' = (domain_view d m)(dma_page d iova \<mapsto> encode_leaf (dm_fmt d) phys perms) \<or>
       r = Inl AlreadyMapped \<and> domain_view d m (dma_page d iova) \<noteq> None \<and> m' = m \<and> fa' = fa \<or>
       r = Inl DomainExhausted \<and> domain_view d m (dma_page d iova) = None \<and> avail fa' = {} \<and>
         domain_view d m' = domain_view d m)"
proof -
  obtain r m' fa' where M: "domain_map d iova phys perms m fa = Some (r, m', fa')" "domain_ok d m' fa'"
    "map_outcome (dm_fmt d) (encode_leaf (dm_fmt d) phys perms) (dm_levels d) (dm_root d) (iova_page iova) m fa r m' fa'"
    using domain_map_grows[OF assms(1)] assms(2-4) by metis
  have "domain_view d m' = domain_view d m" if
    "\<forall>q. leaf_at (dm_fmt d) m' (dm_levels d) (dm_root d) q = leaf_at (dm_fmt d) m (dm_levels d) (dm_root d) q"
    using that by (auto simp: domain_view_def)
  then show ?thesis using M view_updated[of d m' iova "Some (encode_leaf (dm_fmt d) phys perms)" m]
    unfolding map_outcome_def view_leaf by blast
qed

lemma domain_unmap_view:
  assumes "domain_ok d m fa" "\<not> misaligned iova"
  shows "\<exists>r m'. domain_unmap d iova m = Some (r, m') \<and> domain_ok d m' fa \<and>
      grows (dm_fmt d) (dm_levels d) (dm_root d) [] m fa m' fa \<and>
      (r = Inr () \<and> domain_view d m (dma_page d iova) \<noteq> None \<and>
         domain_view d m' = (domain_view d m)(dma_page d iova := None) \<or>
       r = Inl NotMapped \<and> domain_view d m (dma_page d iova) = None \<and> m' = m)"
proof -
  obtain n where n: "dm_levels d = Suc n" using domain_levels_Suc[OF assms(1)] by blast
  have ok: "fa_ok fa" "tree_ok (dm_fmt d) (Suc n) (dm_root d) m fa" using assms n by (simp_all add: domain_ok_def)
  obtain r m' where W: "unmap_walk (dm_fmt d) (Suc n) iova (Suc n) (dm_root d) m = Some (r, m')"
    "grows (dm_fmt d) (Suc n) (dm_root d) [] m fa m' fa"
    "r = Inr () \<and> leaf_at (dm_fmt d) m (Suc n) (dm_root d) (iova_page iova) \<noteq> None \<and>
         (\<forall>q. leaf_at (dm_fmt d) m' (Suc n) (dm_root d) q =
            (if q mod 512 ^ Suc n = iova_page iova mod 512 ^ Suc n then None else leaf_at (dm_fmt d) m (Suc n) (dm_root d) q)) \<or>
       r = Inl NotMapped \<and> leaf_at (dm_fmt d) m (Suc n) (dm_root d) (iova_page iova) = None \<and> m' = m"
    using unmap_walk_spec[OF ok order_refl] by blast
  have "domain_ok d m' fa"
    using assms n W(2) grows_tree_ok[OF ok W(2)] by (simp add: domain_ok_def)
  moreover have "domain_unmap d iova m = Some (r, m')" using assms(2) W(1) n by (simp add: domain_unmap_def)
  ultimately show ?thesis using W(2,3) view_updated[of d m' iova None m] unfolding view_leaf n by blast
qed

lemma domain_translate_view:
  "domain_translate d iova m =
     map_option (\<lambda>e. snd (pte_decode (dm_fmt d) e) OR (iova AND (push_bit PAGE_SHIFT 1 - 1))) (domain_view d m (dma_page d iova))"
  by (simp add: domain_translate_def translate_walk_spec view_leaf)

lemma domain_new_ok:
  assumes "fa_ok fa" "0 \<notin> avail fa" "domain_new m fa w f = Inr (d, m', fa')"
  shows "domain_ok d m' fa'" "domain_view d m' = Map.empty" "domain_tables d m' = [dm_root d]" "dm_fmt d = f"
    "frame_no (dm_root d) \<in> avail fa" "avail fa' = avail fa - {frame_no (dm_root d)}" "fa_free fa' + 1 = fa_free fa"
    "addressable (dm_root d)" "differs_in {dm_root d} m m'" "fa_frames fa' = fa_frames fa"
proof -
  obtain levels root where l: "domain_levels w = Some levels" "alloc_table m fa = Inr (root, m', fa')"
    and d: "d = \<lparr>dm_root = root, dm_levels = levels, dm_fmt = f\<rparr>"
    using assms(3) by (auto simp: domain_new_def split: option.splits sum.splits)
  note A = alloc_table_Inr[OF assms(1) l(2)]
  have lv: "levels \<in> {3..5}" using l(1) by (auto simp: domain_levels_def Let_def split: if_splits)
  have z: "\<forall>i < 512. table_entry m' root i = 0"
    using zero_table_differs(2)[OF addressable_aligned[OF A(1)]] A(7) by simp
  note E = empty_tree[OF z, of levels f]
  have r0: "root \<noteq> 0" using A(2) assms(2) by (auto simp: frame_no_def)
  show "domain_ok d m' fa'" using A E lv r0 by (simp add: d domain_ok_def tree_ok_def)
  show "domain_view d m' = Map.empty" using E lv by (auto simp: domain_view_def d)
  show "domain_tables d m' = [dm_root d]" using E lv by (simp add: domain_tables_def d)
  show "dm_fmt d = f" "frame_no (dm_root d) \<in> avail fa" "avail fa' = avail fa - {frame_no (dm_root d)}"
    "fa_free fa' + 1 = fa_free fa" "addressable (dm_root d)" "differs_in {dm_root d} m m'" "fa_frames fa' = fa_frames fa"
    using A zero_table_differs(1)[OF addressable_aligned[OF A(1)]] by (simp_all add: d)
qed

text \<open>
  C38. A device domain is a partial map from device pages to frames.  \<open>map\<close> adds exactly the page it
  is given, refuses a page that is mapped already without touching memory or the allocator, and runs
  out only when no frame is available, and then no mapping has changed; \<open>unmap\<close> removes exactly its
  page and refuses one that is not mapped; \<open>translate\<close> gives the frame that was mapped for the page
  and the offset in it, and nothing for any other page.  All three return, on both entry formats.
\<close>
theorem domain_refines_map:
  assumes "domain_ok d m fa" "\<not> misaligned iova" "mappable (dm_fmt d) perms" "addressable phys"
  shows "(\<exists>r m' fa'. domain_map d iova phys perms m fa = Some (r, m', fa') \<and> domain_ok d m' fa' \<and>
      (r = Inr () \<and> domain_view d m (dma_page d iova) = None \<and>
         domain_view d m' = (domain_view d m)(dma_page d iova \<mapsto> encode_leaf (dm_fmt d) phys perms) \<and>
         (\<forall>v. domain_translate d v m' =
            (if dma_page d v = dma_page d iova then Some (phys OR (v AND 0xfff)) else domain_translate d v m)) \<or>
       r = Inl AlreadyMapped \<and> domain_view d m (dma_page d iova) \<noteq> None \<and> m' = m \<and> fa' = fa \<or>
       r = Inl DomainExhausted \<and> domain_view d m (dma_page d iova) = None \<and> avail fa' = {} \<and>
         domain_view d m' = domain_view d m)) \<and>
    (\<exists>r m'. domain_unmap d iova m = Some (r, m') \<and> domain_ok d m' fa \<and>
      (r = Inr () \<and> domain_view d m (dma_page d iova) \<noteq> None \<and>
         domain_view d m' = (domain_view d m)(dma_page d iova := None) \<and>
         (\<forall>v. domain_translate d v m' =
            (if dma_page d v = dma_page d iova then None else domain_translate d v m)) \<or>
       r = Inl NotMapped \<and> domain_translate d iova m = None \<and> m' = m))"
proof (intro conjI)
  have o: "push_bit PAGE_SHIFT 1 - 1 = (0xfff :: u64)" by (simp add: PAGE_SHIFT_def)
  have t: "domain_translate d v m' = (if dma_page d v = dma_page d iova then Some (phys OR (v AND 0xfff)) else domain_translate d v m)"
    if "domain_view d m' = (domain_view d m)(dma_page d iova \<mapsto> encode_leaf (dm_fmt d) phys perms)" for v m'
    by (simp add: domain_translate_view that decode_leaf[OF assms(4,3)] o del: push_bit_of_1)
  show "\<exists>r m' fa'. domain_map d iova phys perms m fa = Some (r, m', fa') \<and> domain_ok d m' fa' \<and>
      (r = Inr () \<and> domain_view d m (dma_page d iova) = None \<and>
         domain_view d m' = (domain_view d m)(dma_page d iova \<mapsto> encode_leaf (dm_fmt d) phys perms) \<and>
         (\<forall>v. domain_translate d v m' =
            (if dma_page d v = dma_page d iova then Some (phys OR (v AND 0xfff)) else domain_translate d v m)) \<or>
       r = Inl AlreadyMapped \<and> domain_view d m (dma_page d iova) \<noteq> None \<and> m' = m \<and> fa' = fa \<or>
       r = Inl DomainExhausted \<and> domain_view d m (dma_page d iova) = None \<and> avail fa' = {} \<and>
         domain_view d m' = domain_view d m)"
    using domain_map_view[OF assms] t by blast
  have u: "domain_translate d v m' = (if dma_page d v = dma_page d iova then None else domain_translate d v m)"
    if "domain_view d m' = (domain_view d m)(dma_page d iova := None)" for v m'
    by (simp add: domain_translate_view that)
  show "\<exists>r m'. domain_unmap d iova m = Some (r, m') \<and> domain_ok d m' fa \<and>
      (r = Inr () \<and> domain_view d m (dma_page d iova) \<noteq> None \<and>
         domain_view d m' = (domain_view d m)(dma_page d iova := None) \<and>
         (\<forall>v. domain_translate d v m' =
            (if dma_page d v = dma_page d iova then None else domain_translate d v m)) \<or>
       r = Inl NotMapped \<and> domain_translate d iova m = None \<and> m' = m)"
    using domain_unmap_view[OF assms(1,2)] u domain_translate_view[of d iova m] by auto
qed

text \<open>An allocator with the frames 10 to 15, for the examples.\<close>

definition six_frames :: frame_alloc where
  "six_frames = \<lparr>fa_bitmap = [0xFFFFFFFFFFFF03FF], fa_frames = 16, fa_free = 6\<rparr>"

lemma six_frames_ok: "fa_ok six_frames" "avail six_frames = {10..<16}"
proof -
  have w: "(0xFFFFFFFFFFFF03FF :: u64) = NOT (push_bit 10 (mask 6))" by (simp add: mask_eq_exp_minus_1)
  have "avail six_frames = {i. i < 64 \<and> \<not> bit (NOT (push_bit 10 (mask 6)) :: u64) i}"
    by (auto simp: avail_def used_def six_frames_def w[symmetric])
  also have "\<dots> = {10..<16}" unfolding bit_not_iff bit_push_bit_iff bit_mask_iff by auto
  finally show av: "avail six_frames = {10..<16}" .
  have "fa_bitmap six_frames = [0xFFFFFFFFFFFF03FF]" "fa_frames six_frames = 16" "fa_free six_frames = 6"
    by (simp_all add: six_frames_def)
  then show "fa_ok six_frames" by (simp add: fa_ok_def fa_wf_def av FRAME_SIZE_def)
qed

lemma six_frames_new:
  obtains d m fa where "domain_new (\<lambda>_. 0) six_frames 48 f = Inr (d, m, fa)"
proof -
  have "\<exists>x. alloc six_frames = Inr x"
    using alloc_Inl_iff[of six_frames] six_frames_ok by (cases "alloc six_frames") (auto simp: fa_ok_def)
  then have "\<exists>x. domain_new (\<lambda>_. 0) six_frames 48 f = Inr x"
    by (auto simp: domain_new_def domain_levels_def alloc_table_def PAGE_SHIFT_def INDEX_BITS_def)
  then show ?thesis using that by (metis prod_cases3)
qed

lemma domain_refines_map_witness:
  "\<exists>d m fa r m' fa'. domain_new (\<lambda>_. 0) six_frames 48 Vtd = Inr (d, m, fa) \<and>
     domain_map d 0x40000000 0x5000 3 m fa = Some (r, m', fa') \<and> domain_ok d m' fa' \<and> r \<noteq> Inl AlreadyMapped \<and>
     domain_unmap d 0x40000000 m = Some (Inl NotMapped, m)"
proof -
  obtain d m fa where new: "domain_new (\<lambda>_. 0) six_frames 48 Vtd = Inr (d, m, fa)" by (rule six_frames_new)
  note N = domain_new_ok[OF six_frames_ok(1) _ new]
  have z: "0 \<notin> avail six_frames" by (simp add: six_frames_ok)
  have hyps: "\<not> misaligned 0x40000000" "mappable (dm_fmt d) 3" "addressable 0x5000"
    using N(4)[OF z] by (simp_all add: misaligned_def PAGE_SHIFT_def mappable_def addressable_def format_consts)
  note D = domain_refines_map[OF N(1)[OF z] hyps]
  obtain r m' fa' where "domain_map d 0x40000000 0x5000 3 m fa = Some (r, m', fa')" "domain_ok d m' fa'"
    "r = Inl AlreadyMapped \<longrightarrow> domain_view d m (dma_page d 0x40000000) \<noteq> None"
    using conjunct1[OF D] by blast
  moreover obtain r1 m1 where "domain_unmap d 0x40000000 m = Some (r1, m1)"
    "r1 = Inl NotMapped \<and> m1 = m \<or> domain_view d m (dma_page d 0x40000000) \<noteq> None"
    using conjunct2[OF D] by blast
  ultimately show ?thesis using new N(2)[OF z] by auto
qed

section \<open>The life of a domain\<close>

datatype dom_op = DMap u64 u64 u64 | DUnmap u64

fun run_domain :: "domain \<Rightarrow> dom_op list \<Rightarrow> mem \<Rightarrow> frame_alloc \<Rightarrow> (mem \<times> frame_alloc) option" where
  "run_domain d [] m fa = Some (m, fa)"
| "run_domain d (DMap iova phys perms # ops) m fa =
     (case domain_map d iova phys perms m fa of
        None \<Rightarrow> None
      | Some (r, m', fa') \<Rightarrow> run_domain d ops m' fa')"
| "run_domain d (DUnmap iova # ops) m fa =
     (case domain_unmap d iova m of
        None \<Rightarrow> None
      | Some (r, m') \<Rightarrow> run_domain d ops m' fa)"

text \<open>Where the frames of a run come from: those available at its start are still available or tables.\<close>

definition domain_accounts :: "mem \<Rightarrow> frame_alloc \<Rightarrow> domain \<Rightarrow> mem \<Rightarrow> frame_alloc \<Rightarrow> bool" where
  "domain_accounts m fa d m' fa' \<longleftrightarrow>
     avail fa = avail fa' \<union> frame_no ` set (domain_tables d m') \<and>
     fa_free fa = fa_free fa' + length (domain_tables d m') \<and>
     differs_in {u. frame_no u \<in> avail fa} m m'"

lemma accounts_grows:
  assumes "domain_accounts m fa d m1 fa1" "grows (dm_fmt d) (dm_levels d) (dm_root d) new m1 fa1 m' fa'"
  shows "domain_accounts m fa d m' fa'"
proof -
  have s: "set (domain_tables d m') = set (domain_tables d m1) \<union> set new"
    using grows_set[OF assms(2)] by (simp add: domain_tables_def)
  have "mset (domain_tables d m') = mset (domain_tables d m1) + mset new"
    using assms(2) by (simp add: grows_def domain_tables_def)
  then have l: "length (domain_tables d m') = length (domain_tables d m1) + length new"
    by (metis size_mset size_union)
  have "avail fa' \<union> frame_no ` set new = avail fa1"
    using assms(2) by (auto simp: grows_def)
  then have a: "avail fa = avail fa' \<union> frame_no ` set (domain_tables d m')"
    using assms(1) unfolding domain_accounts_def s by auto
  have "set (domain_tables d m1) \<union> set new \<subseteq> {u. frame_no u \<in> avail fa}"
    using a s by auto
  then have "differs_in {u. frame_no u \<in> avail fa} m1 m'"
    using assms(2) by (auto simp: grows_def domain_tables_def intro: differs_in_mono)
  then have "differs_in {u. frame_no u \<in> avail fa} m m'"
    using assms(1) differs_in_trans unfolding domain_accounts_def by fastforce
  moreover have "fa_free fa = fa_free fa' + length (domain_tables d m')"
    using l assms by (simp add: domain_accounts_def grows_def)
  ultimately show ?thesis using a unfolding domain_accounts_def by blast
qed

lemma run_domain_accounts:
  assumes "domain_ok d m1 fa1" "domain_accounts m fa d m1 fa1"
  shows "\<exists>m2 fa2. run_domain d ops m1 fa1 = Some (m2, fa2) \<and> domain_ok d m2 fa2 \<and> domain_accounts m fa d m2 fa2"
  using assms
proof (induction ops arbitrary: m1 fa1)
  case (Cons op ops)
  show ?case
  proof (cases op)
    case (DMap iova phys perms)
    then show ?thesis
      using domain_map_grows[OF Cons.prems(1), of iova phys perms] Cons.IH accounts_grows[OF Cons.prems(2)] by fastforce
  next
    case (DUnmap iova)
    show ?thesis
    proof (cases "misaligned iova")
      case True
      then show ?thesis using Cons DUnmap by (simp add: domain_unmap_def)
    next
      case False
      then show ?thesis
        using domain_unmap_view[OF Cons.prems(1) False] Cons.IH accounts_grows[OF Cons.prems(2)] DUnmap by fastforce
    qed
  qed
qed simp

lemma teardown_frames:
  assumes "domain_ok d m fa"
  shows "dm_root (fst (domain_teardown d m fa)) = 0"
    and "avail (snd (domain_teardown d m fa)) = avail fa \<union> frame_no ` set (domain_tables d m)"
    and "fa_free (snd (domain_teardown d m fa)) = fa_free fa + length (domain_tables d m)"
    and "fa_wf (snd (domain_teardown d m fa))" and "fa_frames (snd (domain_teardown d m fa)) = fa_frames fa"
proof -
  let ?as = "domain_tables d m"
  have ok: "fa_wf fa" "distinct ?as" "\<forall>u \<in> set ?as. taken fa u" "dm_root d \<noteq> 0"
    using assms by (simp_all add: domain_ok_def tree_ok_def domain_tables_def fa_ok_def)
  have t: "domain_teardown d m fa = (d\<lparr>dm_root := 0\<rparr>, foldl drop_frame fa ?as)"
    using ok(4) by (simp add: domain_teardown_def free_subtree_tables domain_tables_def)
  have "map unat ?as = map (\<lambda>i. i * FRAME_SIZE) (map frame_no ?as)"
    using ok(3) aligned_frame by (auto simp: taken_def addressable_def frame_no_def)
  moreover have "distinct (map frame_no ?as)"
    using ok(2,3) frame_no_inj by (auto simp: distinct_map inj_on_def taken_def)
  moreover have "\<forall>i \<in> set (map frame_no ?as). i < fa_frames fa \<and> i \<notin> avail fa"
    using ok(3) by (auto simp: taken_def)
  ultimately have D: "fa_wf (foldl drop_frame fa ?as)" "avail (foldl drop_frame fa ?as) = avail fa \<union> set (map frame_no ?as)"
    "free_frames (foldl drop_frame fa ?as) = free_frames fa + length (map frame_no ?as)"
    "fa_frames (foldl drop_frame fa ?as) = fa_frames fa"
    using drop_frames[OF ok(1)] by blast+
  then show "dm_root (fst (domain_teardown d m fa)) = 0"
    "avail (snd (domain_teardown d m fa)) = avail fa \<union> frame_no ` set (domain_tables d m)"
    "fa_free (snd (domain_teardown d m fa)) = fa_free fa + length (domain_tables d m)"
    "fa_wf (snd (domain_teardown d m fa))" "fa_frames (snd (domain_teardown d m fa)) = fa_frames fa"
    by (simp_all add: t free_frames_def)
qed

lemma new_accounts:
  assumes "fa_ok fa" "0 \<notin> avail fa" "domain_new m fa w f = Inr (d, m', fa')"
  shows "domain_accounts m fa d m' fa'"
  using domain_new_ok[OF assms] by (auto simp: domain_accounts_def intro: differs_in_mono)

text \<open>
  C39. A domain leaks no frame and touches no memory of others.  Whatever sequence of \<open>map\<close> and
  \<open>unmap\<close> calls is made on a new domain, failing ones included (a \<open>map\<close> that runs out of frames
  halfway leaves its intermediate tables behind), every call returns, no frame outside those the
  allocator had available is written, and tearing the domain down makes available again exactly
  the frames that were available before it was created.
\<close>
theorem domain_lifecycle:
  assumes "fa_ok fa" "0 \<notin> avail fa" "domain_new m fa w f = Inr (d, m1, fa1)"
  shows "\<exists>m2 fa2. run_domain d ops m1 fa1 = Some (m2, fa2) \<and>
    (\<forall>u i. \<not> misaligned u \<and> i < 512 \<and> frame_no u \<notin> avail fa \<longrightarrow> table_entry m2 u i = table_entry m u i) \<and>
    dm_root (fst (domain_teardown d m2 fa2)) = 0 \<and>
    avail (snd (domain_teardown d m2 fa2)) = avail fa \<and>
    free_frames (snd (domain_teardown d m2 fa2)) = free_frames fa"
proof -
  obtain m2 fa2 where R: "run_domain d ops m1 fa1 = Some (m2, fa2)" "domain_ok d m2 fa2" "domain_accounts m fa d m2 fa2"
    using run_domain_accounts[OF domain_new_ok(1)[OF assms] new_accounts[OF assms]] by blast
  have "\<forall>u i. \<not> misaligned u \<and> i < 512 \<and> frame_no u \<notin> avail fa \<longrightarrow> table_entry m2 u i = table_entry m u i"
    using R(3) by (simp add: domain_accounts_def differs_in_def)
  then show ?thesis
    using R(1,3) teardown_frames[OF R(2)] by (auto simp: domain_accounts_def free_frames_def)
qed

lemma domain_lifecycle_witness:
  "\<exists>d m1 fa1 m2 fa2. domain_new (\<lambda>_. 0) six_frames 48 AmdVi = Inr (d, m1, fa1) \<and>
     run_domain d [DMap 0x40000000 0x5000 3, DMap 0x40000000 0x6000 1, DUnmap 7] m1 fa1 = Some (m2, fa2) \<and>
     avail (snd (domain_teardown d m2 fa2)) = {10..<16}"
proof -
  obtain d m fa where new: "domain_new (\<lambda>_. 0) six_frames 48 AmdVi = Inr (d, m, fa)" by (rule six_frames_new)
  have z: "0 \<notin> avail six_frames" by (simp add: six_frames_ok)
  show ?thesis
    using new domain_lifecycle[OF six_frames_ok(1) z new, of "[DMap 0x40000000 0x5000 3, DMap 0x40000000 0x6000 1, DUnmap 7]"]
    unfolding six_frames_ok(2) by blast
qed

end
