(* ===== verification/Iommu.thy ===== *)
theory Iommu
  imports Iommu_Domain
begin

text \<open>
  The IOMMU driver, \<open>kernel/src/iommu.rs\<close>: the allocator of opaque device addresses (IOVAs) and the
  buffer operations of a domain; the VT-d root and context tables; the VT-d and AMD-Vi units (bring
  up, enable, invalidation, fault reports); and the orchestration that gives the kernel's block
  devices one shared identity domain and one directly bound device a domain of its own.

  The unit's hardware is a parameter \<open>hw\<close>: how its registers read and write and what happens while
  the kernel spins, which may include writes to memory.
\<close>

section \<open>Opaque device addresses\<close>

definition IOVA_FREELIST :: nat where "IOVA_FREELIST = 64"

record iova_alloc =
  iv_next :: u64
  iv_end :: u64
  iv_free :: "u64 list"
  iv_free_len :: nat

text \<open>The window's base must be nonzero and aligned: \<open>None\<close> is the debug assertion.\<close>

definition iova_new :: "u64 \<Rightarrow> nat \<Rightarrow> iova_alloc option" where
  "iova_new base pages =
     (if base = 0 \<or> misaligned base then None
      else Some \<lparr>iv_next = base, iv_end = base + push_bit PAGE_SHIFT (of_nat pages),
                 iv_free = replicate IOVA_FREELIST 0, iv_free_len = 0\<rparr>)"

definition iova_take :: "iova_alloc \<Rightarrow> u64 option \<times> iova_alloc" where
  "iova_take a =
     (if 0 < iv_free_len a
      then (Some (iv_free a ! (iv_free_len a - 1)), a\<lparr>iv_free_len := iv_free_len a - 1\<rparr>)
      else if iv_next a < iv_end a
      then (Some (iv_next a), a\<lparr>iv_next := iv_next a + push_bit PAGE_SHIFT 1\<rparr>)
      else (None, a))"

definition iova_free :: "u64 \<Rightarrow> iova_alloc \<Rightarrow> iova_alloc" where
  "iova_free v a =
     (if iv_free_len a < length (iv_free a)
      then a\<lparr>iv_free := (iv_free a)[iv_free_len a := v], iv_free_len := iv_free_len a + 1\<rparr>
      else a)"

definition map_buffer ::
    "domain \<Rightarrow> iova_alloc \<Rightarrow> u64 \<Rightarrow> u64 \<Rightarrow> mem \<Rightarrow> frame_alloc
      \<Rightarrow> ((domain_error + u64) \<times> iova_alloc \<times> mem \<times> frame_alloc) option" where
  "map_buffer d a phys perms m fa =
     (case iova_take a of
        (None, a') \<Rightarrow> Some (Inl IovaExhausted, a', m, fa)
      | (Some iova, a') \<Rightarrow>
          (case domain_map d iova phys perms m fa of
             None \<Rightarrow> None
           | Some (Inr _, m', fa') \<Rightarrow> Some (Inr iova, a', m', fa')
           | Some (Inl e, m', fa') \<Rightarrow> Some (Inl e, iova_free iova a', m', fa')))"

definition unmap_buffer ::
    "domain \<Rightarrow> iova_alloc \<Rightarrow> u64 \<Rightarrow> mem \<Rightarrow> ((domain_error + unit) \<times> iova_alloc \<times> mem) option" where
  "unmap_buffer d a iova m =
     (case domain_unmap d iova m of
        None \<Rightarrow> None
      | Some (Inl e, m') \<Rightarrow> Some (Inl e, a, m')
      | Some (Inr _, m') \<Rightarrow> Some (Inr (), iova_free iova a, m'))"

section \<open>VT-d root and context tables\<close>

definition VT_PRESENT :: u64 where "VT_PRESENT = 1"
definition CTX_TT_SECOND_LEVEL :: u64 where "CTX_TT_SECOND_LEVEL = push_bit 2 0"

record translation_tables =
  tt_root :: u64
  tt_ctx :: u64

definition tables_new :: "mem \<Rightarrow> frame_alloc \<Rightarrow> (domain_error + (translation_tables \<times> mem)) \<times> frame_alloc" where
  "tables_new m fa =
     (case alloc_table m fa of
        Inl e \<Rightarrow> (Inl e, fa)
      | Inr (root, m1, fa1) \<Rightarrow>
          (case alloc_table m1 fa1 of
             Inl e \<Rightarrow> (Inl e, drop_frame fa1 root)
           | Inr (ctx, m2, fa2) \<Rightarrow>
               (Inr (\<lparr>tt_root = root, tt_ctx = ctx\<rparr>,
                     write64 m2 (entry_addr root 0) ((ctx AND SL_ADDR_MASK) OR VT_PRESENT)), fa2)))"

definition devfn :: "u8 \<Rightarrow> u8 \<Rightarrow> nat" where
  "devfn dev func = unat ((push_bit 3 (ucast dev AND 0x1f) :: u64) OR (ucast func AND 0x7))"

definition set_context :: "translation_tables \<Rightarrow> u8 \<Rightarrow> u8 \<Rightarrow> u64 \<Rightarrow> nat \<Rightarrow> u16 \<Rightarrow> mem \<Rightarrow> mem" where
  "set_context tt dev func slptptr levels did m =
     (let n = devfn dev func; aw = of_nat (levels - 2) AND 0x7;
          m1 = write64 m (entry_addr (tt_ctx tt) (2 * n)) ((slptptr AND SL_ADDR_MASK) OR CTX_TT_SECOND_LEVEL OR VT_PRESENT)
      in write64 m1 (entry_addr (tt_ctx tt) (2 * n + 1)) (aw OR push_bit 8 (ucast did)))"

definition clear_context :: "translation_tables \<Rightarrow> u8 \<Rightarrow> u8 \<Rightarrow> mem \<Rightarrow> mem" where
  "clear_context tt dev func m =
     (let n = devfn dev func in
      write64 (write64 m (entry_addr (tt_ctx tt) (2 * n)) 0) (entry_addr (tt_ctx tt) (2 * n + 1)) 0)"

definition tables_teardown :: "translation_tables \<Rightarrow> frame_alloc \<Rightarrow> translation_tables \<times> frame_alloc" where
  "tables_teardown tt fa =
     (let fa1 = (if tt_ctx tt \<noteq> 0 then drop_frame fa (tt_ctx tt) else fa);
          fa2 = (if tt_root tt \<noteq> 0 then drop_frame fa1 (tt_root tt) else fa1)
      in (\<lparr>tt_root = 0, tt_ctx = 0\<rparr>, fa2))"

section \<open>The units\<close>

text \<open>
  The hardware: reads and writes of its registers at virtual addresses, and \<open>h_idle\<close>, what it does
  to memory and to itself between two polls.
\<close>

record 'h hw =
  h_rd32 :: "'h \<Rightarrow> u64 \<Rightarrow> u32"
  h_wr32 :: "u64 \<Rightarrow> u32 \<Rightarrow> 'h \<Rightarrow> 'h"
  h_rd64 :: "'h \<Rightarrow> u64 \<Rightarrow> u64"
  h_wr64 :: "u64 \<Rightarrow> u64 \<Rightarrow> 'h \<Rightarrow> 'h"
  h_idle :: "mem \<times> 'h \<Rightarrow> mem \<times> 'h"

text \<open>
  The bounded spin: \<open>n\<close> is what remains of the limit.  The loop checks, counts, gives up at the limit
  and otherwise lets the hardware run.
\<close>

fun poll_until :: "('s \<Rightarrow> bool) \<Rightarrow> ('s \<Rightarrow> 's) \<Rightarrow> nat \<Rightarrow> 's \<Rightarrow> bool \<times> 's" where
  "poll_until ready idle 0 s = (False, s)"
| "poll_until ready idle (Suc n) s =
     (if ready s then (True, s) else if n = 0 then (False, s) else poll_until ready idle n (idle s))"

definition VTD_CAP :: u64 where "VTD_CAP = 0x08"
definition VTD_ECAP :: u64 where "VTD_ECAP = 0x10"
definition VTD_GCMD :: u64 where "VTD_GCMD = 0x18"
definition VTD_GSTS :: u64 where "VTD_GSTS = 0x1c"
definition VTD_RTADDR :: u64 where "VTD_RTADDR = 0x20"
definition VTD_FSTS :: u64 where "VTD_FSTS = 0x34"
definition VTD_CCMD :: u64 where "VTD_CCMD = 0x28"
definition GCMD_SRTP :: u32 where "GCMD_SRTP = push_bit 30 1"
definition GCMD_TE :: u32 where "GCMD_TE = push_bit 31 1"
definition GSTS_RTPS :: u32 where "GSTS_RTPS = push_bit 30 1"
definition GSTS_TES :: u32 where "GSTS_TES = push_bit 31 1"
definition FRCD_HI_FAULT :: u64 where "FRCD_HI_FAULT = push_bit 63 1"
definition CCMD_ICC :: u64 where "CCMD_ICC = push_bit 63 1"
definition CCMD_CIRG_GLOBAL :: u64 where "CCMD_CIRG_GLOBAL = push_bit 61 1"
definition IOTLB_IVT :: u64 where "IOTLB_IVT = push_bit 63 1"
definition IOTLB_IIRG_GLOBAL :: u64 where "IOTLB_IIRG_GLOBAL = push_bit 60 1"
definition GSTS_POLL_LIMIT :: nat where "GSTS_POLL_LIMIT = 1000000"
definition INVAL_POLL_LIMIT :: nat where "INVAL_POLL_LIMIT = 1000000"
definition BLOCK_DID :: u16 where "BLOCK_DID = 1"
definition BOUND_DID :: u16 where "BOUND_DID = 2"

record dma_fault =
  df_addr :: u64
  df_reason :: u32

record vtd_unit =
  vu_regs :: u64
  vu_tables :: translation_tables
  vu_fault_off :: u64
  vu_iotlb_off :: u64

text \<open>Invalidation writes the request bit and polls for the hardware to clear it.\<close>

definition vtd_invalidate :: "'h hw \<Rightarrow> u64 \<Rightarrow> u64 \<Rightarrow> mem \<times> 'h \<Rightarrow> mem \<times> 'h" where
  "vtd_invalidate hw regs iotlb_off s0 =
     (let s1 = apsnd (h_wr64 hw (regs + VTD_CCMD) (CCMD_ICC OR CCMD_CIRG_GLOBAL)) s0;
          s2 = snd (poll_until (\<lambda>s. h_rd64 hw (snd s) (regs + VTD_CCMD) AND CCMD_ICC = 0) (h_idle hw) INVAL_POLL_LIMIT s1);
          s3 = apsnd (h_wr64 hw (regs + iotlb_off) (IOTLB_IVT OR IOTLB_IIRG_GLOBAL)) s2
      in snd (poll_until (\<lambda>s. h_rd64 hw (snd s) (regs + iotlb_off) AND IOTLB_IVT = 0) (h_idle hw) INVAL_POLL_LIMIT s3))"

definition vtd_enable :: "'h hw \<Rightarrow> vtd_unit \<Rightarrow> mem \<times> 'h \<Rightarrow> (string + unit) \<times> mem \<times> 'h" where
  "vtd_enable hw v s0 =
     (let regs = vu_regs v;
          s1 = apsnd (h_wr32 hw (regs + VTD_GCMD) GCMD_SRTP \<circ> h_wr64 hw (regs + VTD_RTADDR) (tt_root (vu_tables v))) s0;
          (ok1, s2) = poll_until (\<lambda>s. h_rd32 hw (snd s) (regs + VTD_GSTS) AND GSTS_RTPS \<noteq> 0) (h_idle hw) GSTS_POLL_LIMIT s1
      in if \<not> ok1 then (Inl ''iommu: root table pointer never acknowledged'', s2)
         else
           let s3 = apsnd (h_wr32 hw (regs + VTD_GCMD) GCMD_TE) s2;
               (ok2, s4) = poll_until (\<lambda>s. h_rd32 hw (snd s) (regs + VTD_GSTS) AND GSTS_TES \<noteq> 0) (h_idle hw) GSTS_POLL_LIMIT s3
           in if \<not> ok2 then (Inl ''iommu: translation enable never acknowledged'', s4)
              else (Inr (), vtd_invalidate hw regs (vu_iotlb_off v) s4))"

definition vtd_take_fault :: "'h hw \<Rightarrow> vtd_unit \<Rightarrow> 'h \<Rightarrow> dma_fault option \<times> 'h" where
  "vtd_take_fault hw v h =
     (let fr = vu_regs v + vu_fault_off v; hi = h_rd64 hw h (fr + 8) in
      if hi AND FRCD_HI_FAULT = 0 then (None, h)
      else let lo = h_rd64 hw h fr;
               h1 = h_wr64 hw (fr + 8) FRCD_HI_FAULT h;
               fsts = h_rd32 hw h1 (vu_regs v + VTD_FSTS);
               h2 = h_wr32 hw (vu_regs v + VTD_FSTS) fsts h1
           in (Some \<lparr>df_addr = lo AND SL_ADDR_MASK, df_reason = ucast (drop_bit 32 hi AND 0xff)\<rparr>, h2))"

datatype vendor = VendorVtd | VendorAmdVi

record remapping_unit =
  ru_base :: u64
  ru_segment :: u16
  ru_covers_all :: bool
  ru_width :: u8
  ru_vendor :: vendor

definition levels_for :: "u8 \<Rightarrow> string + nat" where
  "levels_for width =
     (if unat width < PAGE_SHIFT then Inl ''bad addr width''
      else let span = unat width - PAGE_SHIFT in
        if span = 0 \<or> span mod INDEX_BITS \<noteq> 0 then Inl ''addr width not a VT-d AGAW''
        else let levels = span div INDEX_BITS in
          if levels < 3 \<or> 5 < levels then Inl ''addr width not a VT-d AGAW'' else Inr levels)"

section \<open>The AMD-Vi unit\<close>

definition AMD_REG_DEV_TAB_BASE :: u64 where "AMD_REG_DEV_TAB_BASE = 0x00"
definition AMD_REG_CMD_BUF_BASE :: u64 where "AMD_REG_CMD_BUF_BASE = 0x08"
definition AMD_REG_EVT_LOG_BASE :: u64 where "AMD_REG_EVT_LOG_BASE = 0x10"
definition AMD_REG_CONTROL :: u64 where "AMD_REG_CONTROL = 0x18"
definition AMD_REG_CMD_BUF_HEAD :: u64 where "AMD_REG_CMD_BUF_HEAD = 0x2000"
definition AMD_REG_CMD_BUF_TAIL :: u64 where "AMD_REG_CMD_BUF_TAIL = 0x2008"
definition AMD_REG_EVT_LOG_HEAD :: u64 where "AMD_REG_EVT_LOG_HEAD = 0x2010"
definition AMD_REG_EVT_LOG_TAIL :: u64 where "AMD_REG_EVT_LOG_TAIL = 0x2018"
definition AMD_CTRL_IOMMU_EN :: u64 where "AMD_CTRL_IOMMU_EN = push_bit 0 1"
definition AMD_CTRL_EVT_LOG_EN :: u64 where "AMD_CTRL_EVT_LOG_EN = push_bit 2 1"
definition AMD_CTRL_CMD_BUF_EN :: u64 where "AMD_CTRL_CMD_BUF_EN = push_bit 12 1"
definition AMD_DTE_V :: u64 where "AMD_DTE_V = push_bit 0 1"
definition AMD_DTE_TV :: u64 where "AMD_DTE_TV = push_bit 1 1"
definition AMD_DTE_IR :: u64 where "AMD_DTE_IR = push_bit 61 1"
definition AMD_DTE_IW :: u64 where "AMD_DTE_IW = push_bit 62 1"
definition AMD_DTE_MODE_SHIFT :: nat where "AMD_DTE_MODE_SHIFT = 9"
definition AMD_CMD_OPCODE_SHIFT :: nat where "AMD_CMD_OPCODE_SHIFT = 28"
definition AMD_CMD_COMPLETION_WAIT :: u32 where "AMD_CMD_COMPLETION_WAIT = 0x01"
definition AMD_CMD_INV_ALL :: u32 where "AMD_CMD_INV_ALL = 0x08"
definition AMD_COMPL_STORE :: u32 where "AMD_COMPL_STORE = push_bit 0 1"
definition AMD_DEVTAB_ENTRIES :: nat where "AMD_DEVTAB_ENTRIES = 128"
definition AMD_RING_LEN_FIELD :: u64 where "AMD_RING_LEN_FIELD = 8"
definition AMD_CMDBUF_BYTES :: nat where "AMD_CMDBUF_BYTES = 4096"

record amd_unit =
  au_regs :: u64
  au_devtab :: u64
  au_cmdbuf :: u64
  au_cmdbuf_tail :: nat
  au_evtlog :: u64
  au_sem :: u64
  au_sem_val :: u64

definition read32 :: "mem \<Rightarrow> u64 \<Rightarrow> u32" where
  "read32 m a = of_nat (le_nat (map (\<lambda>i. m (a + of_nat i)) [0..<4]))"

definition write32 :: "mem \<Rightarrow> u64 \<Rightarrow> u32 \<Rightarrow> mem" where
  "write32 m a v = (\<lambda>x. if x - a < 4 then le_bytes 4 (unat v) ! unat (x - a) else m x)"

text \<open>The entry of a device in the single-frame device table: four words, at \<open>bdf * 32\<close>.\<close>

definition amd_set_device :: "amd_unit \<Rightarrow> u8 \<Rightarrow> u8 \<Rightarrow> u64 \<Rightarrow> nat \<Rightarrow> u16 \<Rightarrow> mem \<Rightarrow> mem" where
  "amd_set_device u dev func slptptr levels did m =
     (let bdf = devfn dev func in
      if AMD_DEVTAB_ENTRIES \<le> bdf then m
      else let d0 = AMD_DTE_V OR AMD_DTE_TV OR push_bit AMD_DTE_MODE_SHIFT (of_nat levels AND 0x7) OR
                    (slptptr AND SL_ADDR_MASK) OR AMD_DTE_IR OR AMD_DTE_IW
           in fold (\<lambda>(i, v) m. write64 m (entry_addr (au_devtab u) (4 * bdf + i)) v)
                [(0, d0), (1, ucast did), (2, 0), (3, 0)] m)"

definition amd_clear_device :: "amd_unit \<Rightarrow> u8 \<Rightarrow> u8 \<Rightarrow> mem \<Rightarrow> mem" where
  "amd_clear_device u dev func m =
     (let bdf = devfn dev func in
      if AMD_DEVTAB_ENTRIES \<le> bdf then m
      else fold (\<lambda>i m. write64 m (entry_addr (au_devtab u) (4 * bdf + i)) 0) [0..<4] m)"

definition amd_post_command ::
    "'h hw \<Rightarrow> u32 \<Rightarrow> u32 \<Rightarrow> u32 \<Rightarrow> u32 \<Rightarrow> amd_unit \<Rightarrow> mem \<times> 'h \<Rightarrow> amd_unit \<times> mem \<times> 'h" where
  "amd_post_command hw c0 c1 c2 c3 u s =
     (let p = au_cmdbuf u + of_nat (au_cmdbuf_tail u);
          m = write32 (write32 (write32 (write32 (fst s) p c0) (p + 4) c1) (p + 8) c2) (p + 12) c3;
          tail = (au_cmdbuf_tail u + 16) mod AMD_CMDBUF_BYTES
      in (u\<lparr>au_cmdbuf_tail := tail\<rparr>, m, h_wr64 hw (au_regs u + AMD_REG_CMD_BUF_TAIL) (of_nat tail) (snd s)))"

definition amd_completion_wait :: "'h hw \<Rightarrow> amd_unit \<Rightarrow> mem \<times> 'h \<Rightarrow> amd_unit \<times> mem \<times> 'h" where
  "amd_completion_wait hw u s =
     (let target = au_sem_val u + 1; paddr = au_sem u;
          (u1, s1) = amd_post_command hw
            (ucast paddr AND 0xfffffff8 OR AMD_COMPL_STORE)
            (ucast (drop_bit 32 paddr) OR push_bit AMD_CMD_OPCODE_SHIFT AMD_CMD_COMPLETION_WAIT)
            (ucast target) (ucast (drop_bit 32 target))
            (u\<lparr>au_sem_val := target\<rparr>) (write64 (fst s) (au_sem u) 0, snd s)
      in (u1, snd (poll_until (\<lambda>s. read64 (fst s) (au_sem u) = target) (h_idle hw) INVAL_POLL_LIMIT s1)))"

definition amd_invalidate :: "'h hw \<Rightarrow> amd_unit \<Rightarrow> mem \<times> 'h \<Rightarrow> amd_unit \<times> mem \<times> 'h" where
  "amd_invalidate hw u s =
     (let (u1, s1) = amd_post_command hw 0 (push_bit AMD_CMD_OPCODE_SHIFT AMD_CMD_INV_ALL) 0 0 u s
      in amd_completion_wait hw u1 s1)"

definition amd_enable :: "'h hw \<Rightarrow> amd_unit \<Rightarrow> mem \<times> 'h \<Rightarrow> (string + unit) \<times> amd_unit \<times> mem \<times> 'h" where
  "amd_enable hw u s =
     (let ctrl = h_rd64 hw (snd s) (au_regs u + AMD_REG_CONTROL) OR
                 (AMD_CTRL_IOMMU_EN OR AMD_CTRL_CMD_BUF_EN OR AMD_CTRL_EVT_LOG_EN)
      in (Inr (), amd_invalidate hw u (apsnd (h_wr64 hw (au_regs u + AMD_REG_CONTROL) ctrl) s)))"

definition amd_take_fault :: "'h hw \<Rightarrow> amd_unit \<Rightarrow> mem \<times> 'h \<Rightarrow> dma_fault option \<times> 'h" where
  "amd_take_fault hw u s =
     (let head = h_rd64 hw (snd s) (au_regs u + AMD_REG_EVT_LOG_HEAD) AND 0x7fff0;
          tail = h_rd64 hw (snd s) (au_regs u + AMD_REG_EVT_LOG_TAIL) AND 0x7fff0
      in if head = tail then (None, snd s)
         else let e = au_evtlog u + head;
                  dw1 = read32 (fst s) (e + 4); dw2 = read32 (fst s) (e + 8); dw3 = read32 (fst s) (e + 12)
              in (Some \<lparr>df_addr = (push_bit 32 (ucast dw3) OR ucast dw2) AND NOT 0xfff,
                        df_reason = drop_bit 28 dw1 AND 0xf\<rparr>,
                  h_wr64 hw (au_regs u + AMD_REG_EVT_LOG_HEAD) ((head + 16) mod 4096) (snd s)))"

section \<open>The shared state\<close>

datatype backend = BVtd vtd_unit | BAmd amd_unit

record location =
  lo_bus :: u8
  lo_slot :: u8
  lo_func :: u8

record bound_domain =
  bd_domain :: domain
  bd_iova :: iova_alloc
  bd_loc :: location

record block_iommu =
  bi_backend :: backend
  bi_domain :: domain
  bi_levels :: nat
  bi_width :: u8
  bi_prepared :: nat
  bi_enabled :: bool
  bi_bound :: "bound_domain option"

text \<open>\<open>FRAME_ALLOC\<close>, \<open>BLOCK_IOMMU\<close>, \<open>UNITS\<close> and \<open>SKIP_MAP\<close>, memory, the MMIO window and the hardware.\<close>

record 'h machine =
  mc_mem :: mem
  mc_fa :: "frame_alloc option"
  mc_hw :: 'h
  mc_window :: mmio
  mc_units :: "remapping_unit list"
  mc_block :: "block_iommu option"
  mc_skip :: bool

definition attach_device :: "backend \<Rightarrow> location \<Rightarrow> u64 \<Rightarrow> nat \<Rightarrow> u16 \<Rightarrow> mem \<Rightarrow> mem" where
  "attach_device b loc slptptr levels did m =
     (case b of
        BVtd v \<Rightarrow> set_context (vu_tables v) (lo_slot loc) (lo_func loc) slptptr levels did m
      | BAmd u \<Rightarrow> amd_set_device u (lo_slot loc) (lo_func loc) slptptr levels did m)"

definition detach_device :: "backend \<Rightarrow> location \<Rightarrow> mem \<Rightarrow> mem" where
  "detach_device b loc m =
     (case b of
        BVtd v \<Rightarrow> clear_context (vu_tables v) (lo_slot loc) (lo_func loc) m
      | BAmd u \<Rightarrow> amd_clear_device u (lo_slot loc) (lo_func loc) m)"

definition invalidate_all :: "'h hw \<Rightarrow> backend \<Rightarrow> mem \<times> 'h \<Rightarrow> backend \<times> mem \<times> 'h" where
  "invalidate_all hw b s =
     (case b of
        BVtd v \<Rightarrow> (b, vtd_invalidate hw (vu_regs v) (vu_iotlb_off v) s)
      | BAmd u \<Rightarrow> apfst BAmd (amd_invalidate hw u s))"

definition backend_enable :: "'h hw \<Rightarrow> backend \<Rightarrow> mem \<times> 'h \<Rightarrow> (string + unit) \<times> backend \<times> mem \<times> 'h" where
  "backend_enable hw b s =
     (case b of
        BVtd v \<Rightarrow> apsnd (Pair b) (vtd_enable hw v s)
      | BAmd u \<Rightarrow> apsnd (apfst BAmd) (amd_enable hw u s))"

definition backend_take_fault :: "'h hw \<Rightarrow> backend \<Rightarrow> mem \<times> 'h \<Rightarrow> dma_fault option \<times> 'h" where
  "backend_take_fault hw b s =
     (case b of BVtd v \<Rightarrow> vtd_take_fault hw v (snd s) | BAmd u \<Rightarrow> amd_take_fault hw u s)"

definition backend_fmt :: "backend \<Rightarrow> pte_fmt" where
  "backend_fmt b = (case b of BVtd _ \<Rightarrow> Vtd | BAmd _ \<Rightarrow> AmdVi)"

section \<open>Bring up\<close>

text \<open>The unit's register window, by \<open>map_kernel_mmio\<close>, which takes the frame allocator's lock itself.\<close>

definition map_unit_regs ::
    "(u64 \<Rightarrow> u64 \<Rightarrow> mem \<times> frame_alloc \<Rightarrow> string + mem \<times> frame_alloc) \<Rightarrow> u64 \<Rightarrow> u64 \<Rightarrow> 'h machine
      \<Rightarrow> (string + u64) \<times> 'h machine" where
  "map_unit_regs mapper base sz st =
     (case mc_fa st of
        None \<Rightarrow> (Inl (if mm_base (mc_window st) = 0 then ''mmio map: no window reserved''
                     else ''frame allocator not initialised''), st)
      | Some fa \<Rightarrow>
          let (r, w, m, fa') = map_kernel_mmio mapper (mc_window st) base sz (mc_mem st, fa)
          in (r, st\<lparr>mc_mem := m, mc_fa := Some fa', mc_window := w\<rparr>))"

definition vtd_bring_up ::
    "(u64 \<Rightarrow> u64 \<Rightarrow> mem \<times> frame_alloc \<Rightarrow> string + mem \<times> frame_alloc) \<Rightarrow> 'h hw \<Rightarrow> remapping_unit \<Rightarrow> 'h machine
      \<Rightarrow> (string + vtd_unit \<times> domain \<times> nat) \<times> 'h machine" where
  "vtd_bring_up mapper hw unit st0 =
     (case map_unit_regs mapper (ru_base unit) 0x1000 st0 of
        (Inl e, st) \<Rightarrow> (Inl e, st)
      | (Inr regs, st) \<Rightarrow>
          let cap = h_rd64 hw (mc_hw st) (regs + VTD_CAP); sagaw = drop_bit 8 cap AND 0x1f in
          (case levels_for (ru_width unit) of
             Inl e \<Rightarrow> (Inl e, st)
           | Inr levels \<Rightarrow>
               if sagaw AND push_bit (levels - 2) 1 = 0
               then (Inl ''unit does not support the required address width'', st)
               else
                 let fault_off = (drop_bit 24 cap AND 0x3ff) * 16;
                     ecap = h_rd64 hw (mc_hw st) (regs + VTD_ECAP);
                     iotlb_off = (drop_bit 8 ecap AND 0x3ff) * 16 + 8
                 in (case mc_fa st of
                       None \<Rightarrow> (Inl ''frame allocator not initialised'', st)
                     | Some fa \<Rightarrow>
                         (case domain_new (mc_mem st) fa (ru_width unit) Vtd of
                            Inl _ \<Rightarrow> (Inl ''iommu domain alloc failed'', st)
                          | Inr (d, m1, fa1) \<Rightarrow>
                              (case tables_new m1 fa1 of
                                 (Inl _, fa2) \<Rightarrow> (Inl ''iommu tables alloc failed'', st\<lparr>mc_mem := m1, mc_fa := Some fa2\<rparr>)
                               | (Inr (tt, m2), fa2) \<Rightarrow>
                                   (Inr (\<lparr>vu_regs = regs, vu_tables = tt, vu_fault_off = fault_off, vu_iotlb_off = iotlb_off\<rparr>,
                                         d, levels), st\<lparr>mc_mem := m2, mc_fa := Some fa2\<rparr>))))))"

text \<open>Allocations in sequence; the ones made before a failure are not given back.\<close>

fun alloc_named :: "string list \<Rightarrow> frame_alloc \<Rightarrow> (string + u64 list) \<times> frame_alloc" where
  "alloc_named [] fa = (Inr [], fa)"
| "alloc_named (e # es) fa =
     (case alloc fa of
        Inl _ \<Rightarrow> (Inl e, fa)
      | Inr (a, fa1) \<Rightarrow>
          (case alloc_named es fa1 of
             (Inl e', fa2) \<Rightarrow> (Inl e', fa2)
           | (Inr as, fa2) \<Rightarrow> (Inr (a # as), fa2)))"

definition amd_bring_up ::
    "(u64 \<Rightarrow> u64 \<Rightarrow> mem \<times> frame_alloc \<Rightarrow> string + mem \<times> frame_alloc) \<Rightarrow> 'h hw \<Rightarrow> remapping_unit \<Rightarrow> 'h machine
      \<Rightarrow> (string + amd_unit \<times> domain \<times> nat) \<times> 'h machine" where
  "amd_bring_up mapper hw unit st0 =
     (case map_unit_regs mapper (ru_base unit) 0x3000 st0 of
        (Inl e, st) \<Rightarrow> (Inl e, st)
      | (Inr regs, st) \<Rightarrow>
          (case levels_for (ru_width unit) of
             Inl e \<Rightarrow> (Inl e, st)
           | Inr levels \<Rightarrow>
               (case mc_fa st of
                  None \<Rightarrow> (Inl ''frame allocator not initialised'', st)
                | Some fa \<Rightarrow>
                    (case alloc_named [''amd devtab alloc failed'', ''amd cmdbuf alloc failed'',
                                       ''amd evtlog alloc failed'', ''amd sem alloc failed''] fa of
                       (Inl e, fa1) \<Rightarrow> (Inl e, st\<lparr>mc_fa := Some fa1\<rparr>)
                     | (Inr frames, fa1) \<Rightarrow>
                         let devtab = frames ! 0; cmdbuf = frames ! 1; evtlog = frames ! 2; sem = frames ! 3 in
                         (case domain_new (mc_mem st) fa1 (ru_width unit) AmdVi of
                            Inl _ \<Rightarrow> (Inl ''amd domain alloc failed'', st\<lparr>mc_fa := Some fa1\<rparr>)
                          | Inr (d, m1, fa2) \<Rightarrow>
                              let m2 = zero_table evtlog (zero_table cmdbuf (zero_table devtab m1));
                                  m3 = write64 m2 sem 0;
                                  h = fold (\<lambda>(r, v). h_wr64 hw (regs + r) v)
                                        [(AMD_REG_DEV_TAB_BASE, devtab AND SL_ADDR_MASK),
                                         (AMD_REG_CMD_BUF_BASE, (cmdbuf AND SL_ADDR_MASK) OR push_bit 56 AMD_RING_LEN_FIELD),
                                         (AMD_REG_EVT_LOG_BASE, (evtlog AND SL_ADDR_MASK) OR push_bit 56 AMD_RING_LEN_FIELD),
                                         (AMD_REG_CMD_BUF_HEAD, 0), (AMD_REG_CMD_BUF_TAIL, 0),
                                         (AMD_REG_EVT_LOG_HEAD, 0), (AMD_REG_EVT_LOG_TAIL, 0)] (mc_hw st)
                              in (Inr (\<lparr>au_regs = regs, au_devtab = devtab, au_cmdbuf = cmdbuf, au_cmdbuf_tail = 0,
                                        au_evtlog = evtlog, au_sem = sem, au_sem_val = 0\<rparr>, d, levels),
                                  st\<lparr>mc_mem := m3, mc_fa := Some fa2, mc_hw := h\<rparr>))))))"

definition bring_up ::
    "(u64 \<Rightarrow> u64 \<Rightarrow> mem \<times> frame_alloc \<Rightarrow> string + mem \<times> frame_alloc) \<Rightarrow> 'h hw \<Rightarrow> 'h machine
      \<Rightarrow> (string + unit) \<times> 'h machine" where
  "bring_up mapper hw st =
     (case mc_units st of
        [] \<Rightarrow> (Inl ''no remapping unit to bind block DMA to'', st)
      | unit # _ \<Rightarrow>
          let (r, st') = (case ru_vendor unit of
                            VendorVtd \<Rightarrow> apfst (map_sum id (apfst BVtd)) (vtd_bring_up mapper hw unit st)
                          | VendorAmdVi \<Rightarrow> apfst (map_sum id (apfst BAmd)) (amd_bring_up mapper hw unit st))
          in (case r of
                Inl e \<Rightarrow> (Inl e, st')
              | Inr (b, d, levels) \<Rightarrow>
                  (Inr (), st'\<lparr>mc_block := Some \<lparr>bi_backend = b, bi_domain = d, bi_levels = levels, bi_width = ru_width unit,
                                                bi_prepared = 0, bi_enabled = False, bi_bound = None\<rparr>\<rparr>)))"

section \<open>The shared block domain\<close>

definition frame_page :: "u64 \<Rightarrow> u64" where
  "frame_page a = a AND NOT (push_bit PAGE_SHIFT 1 - 1)"

text \<open>The fixed frames, mapped in order; a frame that is mapped already is fine.\<close>

fun map_fixed :: "domain \<Rightarrow> u64 list \<Rightarrow> mem \<Rightarrow> frame_alloc \<Rightarrow> ((string + unit) \<times> mem \<times> frame_alloc) option" where
  "map_fixed d [] m fa = Some (Inr (), m, fa)"
| "map_fixed d (frame # frames) m fa =
     (case domain_map d (frame_page frame) (frame_page frame) (IOMMU_READ OR IOMMU_WRITE) m fa of
        None \<Rightarrow> None
      | Some (r, m', fa') \<Rightarrow>
          if r = Inr () \<or> r = Inl AlreadyMapped then map_fixed d frames m' fa'
          else Some (Inl ''mapping a fixed block DMA frame failed'', m', fa'))"

definition block_prepare_device ::
    "(u64 \<Rightarrow> u64 \<Rightarrow> mem \<times> frame_alloc \<Rightarrow> string + mem \<times> frame_alloc) \<Rightarrow> 'h hw \<Rightarrow> location \<Rightarrow> u64 list \<Rightarrow> 'h machine
      \<Rightarrow> ((string + unit) \<times> 'h machine) option" where
  "block_prepare_device mapper hw loc fixed st0 =
     (let (r, st) = (if mc_block st0 = None then bring_up mapper hw st0 else (Inr (), st0)) in
      case r of
        Inl e \<Rightarrow> Some (Inl e, st)
      | Inr _ \<Rightarrow>
          (case mc_block st of
             None \<Rightarrow> Some (Inl ''block iommu vanished'', st)
           | Some bi \<Rightarrow>
               (case mc_fa st of
                  None \<Rightarrow> Some (Inl ''frame allocator not initialised'', st)
                | Some fa \<Rightarrow>
                    (case map_fixed (bi_domain bi) fixed (mc_mem st) fa of
                       None \<Rightarrow> None
                     | Some (Inl e, m, fa') \<Rightarrow> Some (Inl e, st\<lparr>mc_mem := m, mc_fa := Some fa'\<rparr>)
                     | Some (Inr _, m, fa') \<Rightarrow>
                         Some (Inr (), st\<lparr>mc_mem := attach_device (bi_backend bi) loc (dm_root (bi_domain bi)) (bi_levels bi) BLOCK_DID m,
                                         mc_fa := Some fa',
                                         mc_block := Some (bi\<lparr>bi_prepared := bi_prepared bi + 1\<rparr>)\<rparr>)))))"

definition invalidate_unit :: "'h hw \<Rightarrow> 'h machine \<Rightarrow> 'h machine" where
  "invalidate_unit hw st =
     (case mc_block st of
        None \<Rightarrow> st
      | Some bi \<Rightarrow>
          let (b, m, h) = invalidate_all hw (bi_backend bi) (mc_mem st, mc_hw st)
          in st\<lparr>mc_mem := m, mc_hw := h, mc_block := Some (bi\<lparr>bi_backend := b\<rparr>)\<rparr>)"

definition block_map_dma :: "'h hw \<Rightarrow> u64 \<Rightarrow> 'h machine \<Rightarrow> ((string + unit) \<times> 'h machine) option" where
  "block_map_dma hw data_phys st =
     (case mc_block st of
        None \<Rightarrow> Some (Inr (), st)
      | Some bi \<Rightarrow>
          if \<not> bi_enabled bi then Some (Inr (), st)
          else if mc_skip st then Some (Inr (), st)
          else
            (case mc_fa st of
               None \<Rightarrow> Some (Inl ''frame allocator not initialised'', st)
             | Some fa \<Rightarrow>
                 (case domain_map (bi_domain bi) (frame_page data_phys) (frame_page data_phys)
                         (IOMMU_READ OR IOMMU_WRITE) (mc_mem st) fa of
                    None \<Rightarrow> None
                  | Some (r, m, fa') \<Rightarrow>
                      let st' = st\<lparr>mc_mem := m, mc_fa := Some fa'\<rparr> in
                      if r = Inr () then Some (Inr (), invalidate_unit hw st')
                      else if r = Inl AlreadyMapped then Some (Inr (), st')
                      else Some (Inl ''mapping a block DMA data frame failed'', st'))))"

definition block_enable :: "'h hw \<Rightarrow> 'h machine \<Rightarrow> (string + unit) \<times> 'h machine" where
  "block_enable hw st =
     (case mc_block st of
        None \<Rightarrow> (Inl ''block iommu not prepared'', st)
      | Some bi \<Rightarrow>
          if bi_enabled bi then (Inr (), st)
          else
            let (r, b, m, h) = backend_enable hw (bi_backend bi) (mc_mem st, mc_hw st);
                st' = st\<lparr>mc_mem := m, mc_hw := h, mc_block := Some (bi\<lparr>bi_backend := b\<rparr>)\<rparr>
            in (case r of
                  Inl e \<Rightarrow> (Inl e, st')
                | Inr _ \<Rightarrow> (Inr (), st'\<lparr>mc_block := Some (bi\<lparr>bi_backend := b, bi_enabled := True\<rparr>)\<rparr>)))"

definition arm_skip_map :: "bool \<Rightarrow> 'h machine \<Rightarrow> 'h machine" where
  "arm_skip_map on st = st\<lparr>mc_skip := on\<rparr>"

definition take_fault :: "'h hw \<Rightarrow> 'h machine \<Rightarrow> dma_fault option \<times> 'h machine" where
  "take_fault hw st =
     (case mc_block st of
        None \<Rightarrow> (None, st)
      | Some bi \<Rightarrow> apsnd (\<lambda>h. st\<lparr>mc_hw := h\<rparr>) (backend_take_fault hw (bi_backend bi) (mc_mem st, mc_hw st)))"

section \<open>The bound device\<close>

definition BOUND_IOVA_BASE :: u64 where "BOUND_IOVA_BASE = 0x40000000"
definition BOUND_IOVA_PAGES :: nat where "BOUND_IOVA_PAGES = 256"

fun bind_fixed ::
    "domain \<Rightarrow> iova_alloc \<Rightarrow> u64 list \<Rightarrow> mem \<Rightarrow> frame_alloc
      \<Rightarrow> ((string + u64 list) \<times> iova_alloc \<times> mem \<times> frame_alloc) option" where
  "bind_fixed d a [] m fa = Some (Inr [], a, m, fa)"
| "bind_fixed d a (frame # frames) m fa =
     (case map_buffer d a (frame_page frame) (IOMMU_READ OR IOMMU_WRITE) m fa of
        None \<Rightarrow> None
      | Some (Inl _, a', m', fa') \<Rightarrow> Some (Inl ''mapping a bound fixed frame failed'', a', m', fa')
      | Some (Inr iova, a', m', fa') \<Rightarrow>
          (case bind_fixed d a' frames m' fa' of
             None \<Rightarrow> None
           | Some (Inl e, a2, m2, fa2) \<Rightarrow> Some (Inl e, a2, m2, fa2)
           | Some (Inr iovas, a2, m2, fa2) \<Rightarrow> Some (Inr (iova # iovas), a2, m2, fa2)))"

text \<open>On failure the half-built domain is dropped: its tables stay taken.\<close>

definition bind_prepare :: "location \<Rightarrow> u64 list \<Rightarrow> 'h machine \<Rightarrow> ((string + u64 list) \<times> 'h machine) option" where
  "bind_prepare loc fixed st =
     (if length fixed \<noteq> 4 then Some (Inl ''bind_prepare expects the four fixed virtqueue frames'', st)
      else case mc_block st of
        None \<Rightarrow> Some (Inl ''bind needs the remapping unit (prepare a block device first)'', st)
      | Some bi \<Rightarrow>
          if bi_bound bi \<noteq> None then Some (Inl ''a device is already directly bound (v1 binds one)'', st)
          else
            (case mc_fa st of
               None \<Rightarrow> Some (Inl ''frame allocator not initialised'', st)
             | Some fa \<Rightarrow>
                 (case domain_new (mc_mem st) fa (bi_width bi) (backend_fmt (bi_backend bi)) of
                    Inl _ \<Rightarrow> Some (Inl ''bound domain alloc failed'', st)
                  | Inr (d, m1, fa1) \<Rightarrow>
                      (case iova_new BOUND_IOVA_BASE BOUND_IOVA_PAGES of
                         None \<Rightarrow> None
                       | Some a \<Rightarrow>
                           (case bind_fixed d a fixed m1 fa1 of
                              None \<Rightarrow> None
                            | Some (Inl e, a', m2, fa2) \<Rightarrow> Some (Inl e, st\<lparr>mc_mem := m2, mc_fa := Some fa2\<rparr>)
                            | Some (Inr iovas, a', m2, fa2) \<Rightarrow>
                                Some (Inr iovas,
                                  st\<lparr>mc_mem := attach_device (bi_backend bi) loc (dm_root d) (bi_levels bi) BOUND_DID m2,
                                     mc_fa := Some fa2,
                                     mc_block := Some (bi\<lparr>bi_bound := Some \<lparr>bd_domain = d, bd_iova = a', bd_loc = loc\<rparr>\<rparr>)\<rparr>))))))"

definition bind_map_dma :: "'h hw \<Rightarrow> u64 \<Rightarrow> 'h machine \<Rightarrow> ((string + u64) \<times> 'h machine) option" where
  "bind_map_dma hw data_phys st =
     (case mc_block st of
        None \<Rightarrow> Some (Inl ''no remapping unit'', st)
      | Some bi \<Rightarrow>
          (case bi_bound bi of
             None \<Rightarrow> Some (Inl ''no bound device'', st)
           | Some b \<Rightarrow>
               (case mc_fa st of
                  None \<Rightarrow> Some (Inl ''frame allocator not initialised'', st)
                | Some fa \<Rightarrow>
                    (case map_buffer (bd_domain b) (bd_iova b) (frame_page data_phys) (IOMMU_READ OR IOMMU_WRITE) (mc_mem st) fa of
                       None \<Rightarrow> None
                     | Some (r, a, m, fa') \<Rightarrow>
                         let st' = st\<lparr>mc_mem := m, mc_fa := Some fa',
                                      mc_block := Some (bi\<lparr>bi_bound := Some (b\<lparr>bd_iova := a\<rparr>)\<rparr>)\<rparr>
                         in (case r of
                               Inl _ \<Rightarrow> Some (Inl ''mapping a bound data frame failed'', st')
                             | Inr iova \<Rightarrow> Some (Inr iova, if bi_enabled bi then invalidate_unit hw st' else st'))))))"

definition bind_teardown :: "'h hw \<Rightarrow> 'h machine \<Rightarrow> 'h machine" where
  "bind_teardown hw st =
     (case mc_block st of
        None \<Rightarrow> st
      | Some bi \<Rightarrow>
          (case bi_bound bi of
             None \<Rightarrow> st
           | Some b \<Rightarrow>
               let m = detach_device (bi_backend bi) (bd_loc b) (mc_mem st);
                   st' = st\<lparr>mc_mem := m,
                            mc_fa := map_option (\<lambda>fa. snd (domain_teardown (bd_domain b) m fa)) (mc_fa st),
                            mc_block := Some (bi\<lparr>bi_bound := None\<rparr>)\<rparr>
               in if bi_enabled bi then invalidate_unit hw st' else st'))"

section \<open>Opaque addresses are handed out once\<close>

text \<open>
  The invariant of the allocator over the set of live addresses: all of them come from the part of
  the window already handed out, the remembered free ones are distinct and not live.
\<close>

definition iova_ok :: "u64 \<Rightarrow> u64 set \<Rightarrow> iova_alloc \<Rightarrow> bool" where
  "iova_ok base live a \<longleftrightarrow>
     length (iv_free a) = IOVA_FREELIST \<and> iv_free_len a \<le> IOVA_FREELIST \<and>
     distinct (take (iv_free_len a) (iv_free a)) \<and> live \<inter> set (take (iv_free_len a) (iv_free a)) = {} \<and>
     (\<forall>v \<in> live \<union> set (take (iv_free_len a) (iv_free a)). \<not> misaligned v \<and> base \<le> v \<and> v < iv_next a) \<and>
     \<not> misaligned (iv_next a) \<and> \<not> misaligned (iv_end a) \<and> base \<le> iv_next a \<and> iv_next a \<le> iv_end a"

lemma next_page:
  assumes "\<not> misaligned a" "\<not> misaligned b" "a < b"
  shows "\<not> misaligned (a + push_bit PAGE_SHIFT 1)" "a + push_bit PAGE_SHIFT 1 \<le> b" "a < a + push_bit PAGE_SHIFT 1"
proof -
  have p: "push_bit PAGE_SHIFT 1 = (4096 :: u64)" by (simp add: PAGE_SHIFT_def)
  have m: "4096 dvd unat a" "4096 dvd unat b" using assms(1,2) by (auto simp: misaligned_def PAGE_SHIFT_def)
  have lt: "unat a < unat b" using assms(3) by (simp add: word_less_nat_alt)
  have ge: "unat a + 4096 \<le> unat b"
  proof -
    obtain i j where ij: "unat a = 4096 * i" "unat b = 4096 * j" using m by (auto elim!: dvdE)
    then have "i < j" using lt by simp
    then show ?thesis using ij by simp
  qed
  have u: "unat (a + 4096) = unat a + 4096"
    using ge unat_u64_less[of b] by (simp add: unat_word_ariths)
  show "\<not> misaligned (a + push_bit PAGE_SHIFT 1)"
    unfolding p misaligned_def u using m(1) by (simp add: PAGE_SHIFT_def)
  show "a + push_bit PAGE_SHIFT 1 \<le> b" "a < a + push_bit PAGE_SHIFT 1"
    unfolding p using u ge by (simp_all add: word_le_nat_alt word_less_nat_alt)
qed

lemma iova_take_Some:
  assumes ok: "iova_ok base live a" and t: "iova_take a = (Some v, a')"
  shows "v \<notin> live" "\<not> misaligned v" "base \<le> v" "v < iv_end a" "iova_ok base (insert v live) a'" "iv_end a' = iv_end a"
proof -
  let ?n = "iv_free_len a"
  show e: "iv_end a' = iv_end a" using t by (auto simp: iova_take_def split: if_splits)
  have "v \<notin> live \<and> \<not> misaligned v \<and> base \<le> v \<and> v < iv_end a \<and> iova_ok base (insert v live) a'"
  proof (cases "0 < ?n")
    case True
    then obtain k where k: "?n = Suc k" by (cases ?n) auto
    have v: "v = iv_free a ! k" and a': "a' = a\<lparr>iv_free_len := k\<rparr>" using t k by (auto simp: iova_take_def)
    have kl: "k < length (iv_free a)" using ok k by (simp add: iova_ok_def IOVA_FREELIST_def)
    have s: "take ?n (iv_free a) = take k (iv_free a) @ [v]" unfolding k v by (rule take_Suc_conv_app_nth[OF kl])
    have "v \<notin> live" "\<not> misaligned v" "base \<le> v" using ok unfolding iova_ok_def s by auto
    moreover have "v < iv_end a" using ok unfolding iova_ok_def s by (auto intro: order.strict_trans2)
    moreover have "iova_ok base (insert v live) a'" using ok kl k unfolding iova_ok_def s a' by auto
    ultimately show ?thesis by blast
  next
    case False
    then have v: "v = iv_next a" "iv_next a < iv_end a" and a': "a' = a\<lparr>iv_next := iv_next a + push_bit PAGE_SHIFT 1\<rparr>"
      using t by (auto simp: iova_take_def split: if_splits)
    have al: "\<not> misaligned (iv_next a)" "\<not> misaligned (iv_end a)" using ok by (simp_all add: iova_ok_def)
    note N = next_page[OF al v(2)]
    have "v \<notin> live" using ok v(1) by (auto simp: iova_ok_def)
    moreover have "\<not> misaligned v" "base \<le> v" "v < iv_end a" using ok v by (simp_all add: iova_ok_def)
    moreover have "base \<le> iv_next a" using ok unfolding iova_ok_def by blast
    then have b: "base \<le> iv_next a + push_bit PAGE_SHIFT 1" using N(3) by (rule order.trans[OF _ order.strict_implies_order])
    have l: "\<forall>w \<in> live. w < iv_next a + push_bit PAGE_SHIFT 1"
      using ok unfolding iova_ok_def by (blast intro: less_trans[OF _ N(3)])
    have "iova_ok base (insert v live) a'"
      using ok N b l False v(1) unfolding iova_ok_def a' by (simp del: push_bit_of_1)
    ultimately show ?thesis by blast
  qed
  then show "v \<notin> live" "\<not> misaligned v" "base \<le> v" "v < iv_end a" "iova_ok base (insert v live) a'" by blast+
qed

lemma iova_take_None:
  assumes "iova_ok base live a" "iova_take a = (None, a')"
  shows "a' = a" "iv_free_len a = 0" "iv_next a = iv_end a"
  using assms by (auto simp: iova_take_def iova_ok_def split: if_splits)

lemma iova_free_ok:
  assumes ok: "iova_ok base live a" and v: "v \<in> live"
  shows "iova_ok base (live - {v}) (iova_free v a)" "iv_end (iova_free v a) = iv_end a"
proof -
  show "iv_end (iova_free v a) = iv_end a" by (simp add: iova_free_def)
  show "iova_ok base (live - {v}) (iova_free v a)"
  proof (cases "iv_free_len a < length (iv_free a)")
    case False
    then show ?thesis using ok by (auto simp: iova_ok_def iova_free_def)
  next
    case True
    let ?f = "(iv_free a)[iv_free_len a := v]"
    have s: "take (Suc (iv_free_len a)) ?f = take (iv_free_len a) (iv_free a) @ [v]"
      using True take_Suc_conv_app_nth[of "iv_free_len a" ?f] by simp
    have a': "iova_free v a = a\<lparr>iv_free := ?f, iv_free_len := Suc (iv_free_len a)\<rparr>" using True by (simp add: iova_free_def)
    have l: "Suc (iv_free_len a) \<le> IOVA_FREELIST" "length ?f = IOVA_FREELIST" using True ok by (simp_all add: iova_ok_def)
    have v': "v \<notin> set (take (iv_free_len a) (iv_free a))" "\<not> misaligned v" "base \<le> v" "v < iv_next a"
      using ok v by (auto simp: iova_ok_def)
    show ?thesis
      using ok l v' by (auto simp: iova_ok_def a' s)
  qed
qed

lemma iova_new_ok:
  assumes "iova_new base pages = Some a" "unat base + pages * 4096 < 2 ^ 64"
  shows "iova_ok base {} a" "unat (iv_end a) = unat base + pages * 4096"
proof -
  have al: "\<not> misaligned base" and a: "a = \<lparr>iv_next = base, iv_end = base + push_bit PAGE_SHIFT (of_nat pages),
      iv_free = replicate IOVA_FREELIST 0, iv_free_len = 0\<rparr>"
    using assms(1) by (auto simp: iova_new_def split: if_splits)
  have "push_bit PAGE_SHIFT (of_nat pages) = (of_nat (pages * 4096) :: u64)"
    by (simp add: PAGE_SHIFT_def push_bit_eq_mult)
  moreover have "unat (of_nat (pages * 4096) :: u64) = pages * 4096"
    using assms(2) by (intro unat_of_nat_id) simp
  ultimately have u: "unat (iv_end a) = unat base + pages * 4096"
    using assms(2) by (simp add: a unat_word_ariths)
  then show "unat (iv_end a) = unat base + pages * 4096" .
  have "\<not> misaligned (iv_end a)" using al u by (auto simp: misaligned_def PAGE_SHIFT_def)
  then show "iova_ok base {} a" using al u by (auto simp: iova_ok_def a word_le_nat_alt)
qed

section \<open>Buffers at opaque addresses\<close>

text \<open>
  The live addresses of a domain over its window, and the invariant tying the domain to its
  allocator: the allocator knows exactly the live ones, and nothing outside the window is mapped.
\<close>

definition iova_live :: "u64 \<Rightarrow> domain \<Rightarrow> iova_alloc \<Rightarrow> mem \<Rightarrow> u64 set" where
  "iova_live base d a m =
     {v. \<not> misaligned v \<and> base \<le> v \<and> v < iv_end a \<and> domain_view d m (dma_page d v) \<noteq> None}"

definition buffers_ok :: "u64 \<Rightarrow> domain \<Rightarrow> iova_alloc \<Rightarrow> mem \<Rightarrow> bool" where
  "buffers_ok base d a m \<longleftrightarrow>
     iova_ok base (iova_live base d a m) a \<and> unat (iv_end a) \<le> 2 ^ 39 \<and> 3 \<le> dm_levels d \<and>
     (\<forall>p. domain_view d m p \<noteq> None \<longrightarrow> p \<in> dma_page d ` iova_live base d a m)"

lemma dma_page_window:
  assumes "unat v < 2 ^ 39" "3 \<le> dm_levels d"
  shows "dma_page d v = unat v div 4096"
proof -
  have "(512 :: nat) ^ 3 \<le> 512 ^ dm_levels d" by (rule power_increasing[OF assms(2)]) simp
  moreover have "unat v div 4096 < 512 ^ 3" using assms(1) by simp
  ultimately show ?thesis unfolding dma_page_def iova_page_def by simp
qed

lemma dma_page_inj:
  assumes "unat v < 2 ^ 39" "unat w < 2 ^ 39" "3 \<le> dm_levels d" "\<not> misaligned v" "\<not> misaligned w"
  shows "dma_page d v = dma_page d w \<longleftrightarrow> v = w"
  using assms(4,5) dma_page_window[OF assms(1,3)] dma_page_window[OF assms(2,3)]
  by (metis FRAME_SIZE_def aligned_frame word_unat_eq_iff)

lemma window_small: "v < iv_end a \<Longrightarrow> unat (iv_end a) \<le> 2 ^ 39 \<Longrightarrow> unat v < 2 ^ 39"
  by (simp add: word_less_nat_alt)

text \<open>Changing the view at the page of one window address changes the live set at that address.\<close>

lemma iova_live_update:
  assumes w: "\<not> misaligned v" "base \<le> v" "v < iv_end a" "unat (iv_end a) \<le> 2 ^ 39" "3 \<le> dm_levels d"
    and m': "domain_view d m' = (domain_view d m)(dma_page d v := x)" and e: "iv_end a' = iv_end a"
  shows "iova_live base d a' m' = (if x = None then iova_live base d a m - {v} else insert v (iova_live base d a m))"
proof -
  have "dma_page d u = dma_page d v \<longleftrightarrow> u = v" if "\<not> misaligned u" "u < iv_end a" for u
    by (rule dma_page_inj[OF window_small[OF that(2) w(4)] window_small[OF w(3,4)] w(5) that(1) w(1)])
  then show ?thesis using w unfolding iova_live_def m' e by auto
qed

lemma buffers_ok_insert:
  assumes B: "buffers_ok base d a m" and a': "iova_ok base (insert v (iova_live base d a m)) a'" "iv_end a' = iv_end a"
    and v: "\<not> misaligned v" "base \<le> v" "v < iv_end a"
    and m': "domain_view d m' = (domain_view d m)(dma_page d v \<mapsto> e)"
  shows "buffers_ok base d a' m'"
proof -
  have L: "iova_live base d a' m' = insert v (iova_live base d a m)"
    using iova_live_update[OF v _ _ m' a'(2)] B by (simp add: buffers_ok_def)
  show ?thesis using B a' unfolding buffers_ok_def L m' by auto
qed

text \<open>
  \<open>map_buffer\<close> hands out an address that was not mapped, maps exactly its page and fails only for
  want of addresses or frames, changing no mapping then; \<open>unmap_buffer\<close> undoes it.
\<close>

lemma map_buffer_view:
  assumes D: "domain_ok d m fa" and B: "buffers_ok base d a m" and p: "mappable (dm_fmt d) perms" "addressable phys"
  shows "\<exists>r a' m' fa'. map_buffer d a phys perms m fa = Some (r, a', m', fa') \<and>
      domain_ok d m' fa' \<and> buffers_ok base d a' m' \<and> iv_end a' = iv_end a \<and>
      (\<exists>new. grows (dm_fmt d) (dm_levels d) (dm_root d) new m fa m' fa') \<and>
      (case r of
         Inr v \<Rightarrow> \<not> misaligned v \<and> base \<le> v \<and> v < iv_end a \<and> domain_view d m (dma_page d v) = None \<and>
           domain_view d m' = (domain_view d m)(dma_page d v \<mapsto> encode_leaf (dm_fmt d) phys perms)
       | Inl e \<Rightarrow> domain_view d m' = domain_view d m \<and> iova_live base d a' m' = iova_live base d a m \<and>
           (e = IovaExhausted \<and> iv_free_len a = 0 \<and> iv_next a = iv_end a \<and> m' = m \<and> fa' = fa \<and> a' = a \<or>
            e = DomainExhausted \<and> avail fa' = {}))"
proof (cases "iova_take a")
  case (Pair ov a1)
  have iok: "iova_ok base (iova_live base d a m) a" and small: "unat (iv_end a) \<le> 2 ^ 39" "3 \<le> dm_levels d"
    using B by (simp_all add: buffers_ok_def)
  have fa: "fa_ok fa" using D by (simp add: domain_ok_def)
  show ?thesis
  proof (cases ov)
    case None
    note T = iova_take_None[OF iok Pair[unfolded None]]
    have "map_buffer d a phys perms m fa = Some (Inl IovaExhausted, a, m, fa)"
      using Pair None T(1) by (simp add: map_buffer_def)
    then show ?thesis using D B T(2,3) grows_same[OF fa] by fastforce
  next
    case (Some v)
    note T = iova_take_Some[OF iok Pair[unfolded Some]]
    have free: "domain_view d m (dma_page d v) = None"
      using T(1-4) by (auto simp: iova_live_def)
    obtain r m' fa' new where M: "domain_map d v phys perms m fa = Some (r, m', fa')"
      "grows (dm_fmt d) (dm_levels d) (dm_root d) new m fa m' fa'"
      using domain_map_grows[OF D] by blast
    have R: "domain_ok d m' fa'"
      "r = Inr () \<and> domain_view d m' = (domain_view d m)(dma_page d v \<mapsto> encode_leaf (dm_fmt d) phys perms) \<or>
       r = Inl DomainExhausted \<and> avail fa' = {} \<and> domain_view d m' = domain_view d m"
      using domain_map_view[OF D T(2) p] M(1) free by auto
    show ?thesis
    proof (cases r)
      case (Inr u)
      have v': "domain_view d m' = (domain_view d m)(dma_page d v \<mapsto> encode_leaf (dm_fmt d) phys perms)"
        using R(2) Inr by simp
      have "map_buffer d a phys perms m fa = Some (Inr v, a1, m', fa')"
        using Pair Some M(1) Inr by (simp add: map_buffer_def)
      then show ?thesis
        using R(1) buffers_ok_insert[OF B T(5,6,2,3,4) v'] T(2,3,4,6) free v' M(2) by auto
    next
      case (Inl e)
      have e: "e = DomainExhausted" "avail fa' = {}" "domain_view d m' = domain_view d m" using R(2) Inl by auto
      have v1: "v \<in> insert v (iova_live base d a m)" by simp
      note F = iova_free_ok[OF T(5) v1]
      have L: "iova_live base d (iova_free v a1) m' = iova_live base d a m"
        using F(2) T(6) e(3) by (simp add: iova_live_def)
      have "insert v (iova_live base d a m) - {v} = iova_live base d a m" using T(1) by auto
      then have "buffers_ok base d (iova_free v a1) m'"
        using F B e(3) L T(6) by (simp add: buffers_ok_def)
      moreover have "map_buffer d a phys perms m fa = Some (Inl e, iova_free v a1, m', fa')"
        using Pair Some M(1) Inl by (simp add: map_buffer_def)
      ultimately show ?thesis using R(1) e L M(2) F(2) T(6) by fastforce
    qed
  qed
qed

lemma unmap_buffer_view:
  assumes D: "domain_ok d m fa" and B: "buffers_ok base d a m" and v: "v \<in> iova_live base d a m"
  shows "\<exists>a' m'. unmap_buffer d a v m = Some (Inr (), a', m') \<and> domain_ok d m' fa \<and> buffers_ok base d a' m' \<and>
      domain_view d m' = (domain_view d m)(dma_page d v := None)"
proof -
  have v': "\<not> misaligned v" "base \<le> v" "v < iv_end a" "domain_view d m (dma_page d v) \<noteq> None"
    using v by (auto simp: iova_live_def)
  obtain m' where M: "domain_unmap d v m = Some (Inr (), m')" "domain_ok d m' fa"
    "domain_view d m' = (domain_view d m)(dma_page d v := None)"
    using domain_unmap_view[OF D v'(1)] v'(4) by auto
  have iok: "iova_ok base (iova_live base d a m) a" and small: "unat (iv_end a) \<le> 2 ^ 39" "3 \<le> dm_levels d"
    using B by (simp_all add: buffers_ok_def)
  note F = iova_free_ok[OF iok v]
  have L: "iova_live base d (iova_free v a) m' = iova_live base d a m - {v}"
    using iova_live_update[OF v'(1-3) small M(3) F(2)] by simp
  have "buffers_ok base d (iova_free v a) m'"
    using B F small unfolding buffers_ok_def L M(3) by auto
  moreover have "unmap_buffer d a v m = Some (Inr (), iova_free v a, m')" using M(1) by (simp add: unmap_buffer_def)
  ultimately show ?thesis using M(2,3) by blast
qed

section \<open>What the unit writes\<close>

text \<open>Bytes of one frame changed is a change of that frame's entries only.\<close>

lemma entry_byte_frame:
  assumes "\<not> misaligned u" "i < 512" "k < 8"
  shows "frame_no (entry_addr u i + of_nat k) = frame_no u"
proof -
  obtain j where j: "unat u = j * 4096" using assms(1) aligned_frame FRAME_SIZE_def by metis
  have lt: "unat u + 4096 \<le> 2 ^ 64" using unat_u64_less[of u] j by simp
  have "unat (entry_addr u i + of_nat k) = unat u + 8 * i + k"
    using lt assms(2,3) by (simp add: entry_addr_def unat_word_ariths unat_of_nat)
  then show ?thesis using j assms(2,3) by (simp add: frame_no_def FRAME_SIZE_def)
qed

lemma bytes_differ:
  assumes "\<not> misaligned t" "\<And>x. frame_no x \<noteq> frame_no t \<Longrightarrow> m' x = m x"
  shows "differs_in {t} m m'"
  unfolding differs_in_def
proof (intro allI impI, elim conjE)
  fix u :: u64 and i :: nat
  assume u: "\<not> misaligned u" "i < 512" "u \<notin> {t}"
  have ne: "frame_no u \<noteq> frame_no t"
    using u(1,3) assms(1) aligned_frame by (metis frame_no_def insertI1 word_unat_eq_iff)
  have "m' (entry_addr u i + of_nat k) = m (entry_addr u i + of_nat k)" if "k < 8" for k
    by (rule assms(2)) (simp add: entry_byte_frame[OF u(1,2) that] ne)
  then have "map (\<lambda>k. m' (entry_addr u i + of_nat k)) [0..<8] = map (\<lambda>k. m (entry_addr u i + of_nat k)) [0..<8]"
    by (intro map_cong) simp_all
  then show "table_entry m' u i = table_entry m u i" unfolding table_entry_def read64_def by (simp only:)
qed

lemma write32_frame:
  assumes "\<not> misaligned t" "n + 4 \<le> 4096" "frame_no x \<noteq> frame_no t"
  shows "write32 m (t + of_nat n) v x = m x"
proof -
  obtain j where j: "unat t = j * 4096" using assms(1) aligned_frame FRAME_SIZE_def by metis
  have lt: "unat t + 4096 \<le> 2 ^ 64" using unat_u64_less[of t] j by simp
  have "\<not> x - (t + of_nat n) < 4"
  proof
    assume c: "x - (t + of_nat n) < 4"
    define y where "y = x - (t + of_nat n)"
    have x: "x = t + of_nat n + y" by (simp add: y_def)
    have y: "unat y < 4" using c by (simp add: y_def word_less_nat_alt)
    have "unat x = unat t + n + unat y"
      unfolding x using y lt assms(2) by (simp add: unat_word_ariths unat_of_nat)
    then have "frame_no x = frame_no t" using j y assms(2) by (simp add: frame_no_def FRAME_SIZE_def)
    then show False using assms(3) by simp
  qed
  then show ?thesis by (simp add: write32_def)
qed

lemma devfn_less: "devfn dev func < 256"
proof -
  let ?w = "(push_bit 3 (take_bit 5 (ucast dev)) :: u64) OR take_bit 3 (ucast func)"
  have c: "(0x1f :: u64) = mask 5" "(0x7 :: u64) = mask 3" by (simp_all add: mask_eq_exp_minus_1)
  have "?w = take_bit 8 ?w" by (simp add: take_bit_or take_bit_push_bit)
  then have "unat ?w = unat (take_bit 8 ?w)" by (rule arg_cong)
  also have "\<dots> = take_bit 8 (unat ?w)" by (simp only: unsigned_take_bit_eq)
  also have "\<dots> < 2 ^ 8" by (rule take_bit_nat_less_exp)
  finally show ?thesis by (simp add: devfn_def c take_bit_eq_mask)
qed

text \<open>The frames of a unit: the tables the hardware reads its devices from, and AMD-Vi's rings.\<close>

definition unit_frames :: "backend \<Rightarrow> u64 list" where
  "unit_frames b =
     (case b of
        BVtd v \<Rightarrow> [tt_root (vu_tables v), tt_ctx (vu_tables v)]
      | BAmd u \<Rightarrow> [au_devtab u, au_cmdbuf u, au_evtlog u, au_sem u])"

definition backend_ok :: "backend \<Rightarrow> bool" where
  "backend_ok b \<longleftrightarrow> (\<forall>u \<in> set (unit_frames b). \<not> misaligned u) \<and>
     (case b of BVtd _ \<Rightarrow> True | BAmd u \<Rightarrow> 16 dvd au_cmdbuf_tail u \<and> au_cmdbuf_tail u < 4096)"

text \<open>
  The hardware's own writes: to the frames numbered by \<open>W\<close> (the data of its devices) and to
  AMD-Vi's rings and semaphore.
\<close>

definition unit_written :: "backend \<Rightarrow> u64 list" where
  "unit_written b = (case b of BVtd v \<Rightarrow> [] | BAmd u \<Rightarrow> [au_cmdbuf u, au_evtlog u, au_sem u])"

definition hw_confined :: "'h hw \<Rightarrow> nat set \<Rightarrow> backend \<Rightarrow> bool" where
  "hw_confined hw W b \<longleftrightarrow> (\<forall>s. differs_in ({u. frame_no u \<in> W} \<union> set (unit_written b)) (fst s) (fst (h_idle hw s)))"

lemma unit_written_frames: "set (unit_written b) \<subseteq> set (unit_frames b)"
  by (cases b) (auto simp: unit_written_def unit_frames_def)

lemma differs_in_refl [simp]: "differs_in S m m"
  by (simp add: differs_in_def)

lemma differs_in_join: "differs_in S m m' \<Longrightarrow> differs_in S m' m'' \<Longrightarrow> differs_in S m m''"
  by (simp add: differs_in_def)

lemma poll_differs:
  assumes "\<forall>s. differs_in S (fst s) (fst (idle s))"
  shows "differs_in S (fst s) (fst (snd (poll_until ready idle n s)))"
proof (induction n arbitrary: s)
  case (Suc n)
  have "differs_in S (fst s) (fst (idle s))" using assms by blast
  then show ?case using differs_in_join[OF _ Suc[of "idle s"]] by simp
qed simp

lemma write_entry_differs:
  "\<not> misaligned t \<Longrightarrow> i < 512 \<Longrightarrow> t \<in> S \<Longrightarrow> differs_in S m m' \<Longrightarrow> differs_in S m (write64 m' (entry_addr t i) v)"
  using differs_in_join differs_in_mono[OF write_differs(1)] by blast

lemma attach_differs:
  assumes "backend_ok b"
  shows "differs_in (set (unit_frames b)) m (attach_device b loc r l did m)"
    and "differs_in (set (unit_frames b)) m (detach_device b loc m)"
  using assms devfn_less[of "lo_slot loc" "lo_func loc"]
  by (cases b; auto simp: attach_device_def detach_device_def set_context_def clear_context_def amd_set_device_def
      amd_clear_device_def backend_ok_def unit_frames_def AMD_DEVTAB_ENTRIES_def Let_def upt_rec[of _ 4]
      intro!: write_entry_differs)+

lemma amd_post_differs:
  assumes "backend_ok (BAmd u)" "au_cmdbuf u \<in> S" "amd_post_command hw c0 c1 c2 c3 u s = (u', s')"
  shows "differs_in S (fst s) (fst s')" "unit_frames (BAmd u') = unit_frames (BAmd u)" "backend_ok (BAmd u')"
    "au_sem u' = au_sem u" "au_cmdbuf u' = au_cmdbuf u" "au_sem_val u' = au_sem_val u"
proof -
  have al: "\<not> misaligned (au_cmdbuf u)" and tl: "16 dvd au_cmdbuf_tail u" "au_cmdbuf_tail u < 4096"
    using assms(1) by (auto simp: backend_ok_def unit_frames_def)
  have t16: "au_cmdbuf_tail u + 16 \<le> 4096"
  proof -
    obtain k where "au_cmdbuf_tail u = 16 * k" using tl(1) by (auto elim: dvdE)
    then show ?thesis using tl(2) by simp
  qed
  have u': "u' = u\<lparr>au_cmdbuf_tail := (au_cmdbuf_tail u + 16) mod AMD_CMDBUF_BYTES\<rparr>"
    and s': "fst s' = (let p = au_cmdbuf u + of_nat (au_cmdbuf_tail u) in
      write32 (write32 (write32 (write32 (fst s) p c0) (p + 4) c1) (p + 8) c2) (p + 12) c3)"
    using assms(3) by (auto simp: amd_post_command_def Let_def)
  have p: "au_cmdbuf u + of_nat (au_cmdbuf_tail u) + 4 = au_cmdbuf u + of_nat (au_cmdbuf_tail u + 4)"
    "au_cmdbuf u + of_nat (au_cmdbuf_tail u) + 8 = au_cmdbuf u + of_nat (au_cmdbuf_tail u + 8)"
    "au_cmdbuf u + of_nat (au_cmdbuf_tail u) + 12 = au_cmdbuf u + of_nat (au_cmdbuf_tail u + 12)" by simp_all
  have "fst s' x = fst s x" if "frame_no x \<noteq> frame_no (au_cmdbuf u)" for x
    unfolding s' Let_def p using t16 by (simp add: write32_frame[OF al _ that] del: of_nat_add)
  then show "differs_in S (fst s) (fst s')" using bytes_differ[OF al] assms(2) by (meson differs_in_mono empty_subsetI insert_subset)
  show uf: "unit_frames (BAmd u') = unit_frames (BAmd u)" by (simp add: u' unit_frames_def)
  have "16 dvd (au_cmdbuf_tail u + 16) mod 4096" by (rule dvd_mod) (use tl(1) in simp_all)
  then show "backend_ok (BAmd u')"
    using assms(1) unfolding backend_ok_def uf by (simp add: u' AMD_CMDBUF_BYTES_def)
  show "au_sem u' = au_sem u" "au_cmdbuf u' = au_cmdbuf u" "au_sem_val u' = au_sem_val u" by (simp_all add: u')
qed

lemma invalidate_differs:
  assumes ok: "backend_ok b" and hw: "hw_confined hw W b" and i: "invalidate_all hw b s = (b', s')"
  shows "differs_in ({u. frame_no u \<in> W} \<union> set (unit_written b)) (fst s) (fst s')"
    and "unit_frames b' = unit_frames b" and "unit_written b' = unit_written b" and "backend_ok b'" and "backend_fmt b' = backend_fmt b"
proof -
  let ?S = "{u. frame_no u \<in> W} \<union> set (unit_written b)"
  have idle: "\<forall>s. differs_in ?S (fst s) (fst (h_idle hw s))" using hw by (simp add: hw_confined_def)
  have "differs_in ?S (fst s) (fst s') \<and> unit_frames b' = unit_frames b \<and> unit_written b' = unit_written b \<and> backend_ok b' \<and> backend_fmt b' = backend_fmt b"
  proof (cases b)
    case (BVtd v)
    then have b': "b' = b" and s': "s' = vtd_invalidate hw (vu_regs v) (vu_iotlb_off v) s"
      using i by (simp_all add: invalidate_all_def)
    have "differs_in ?S (fst s) (fst s')"
      unfolding s' vtd_invalidate_def Let_def
      by (rule differs_in_join[OF _ poll_differs[OF idle]], simp, rule differs_in_join[OF _ poll_differs[OF idle]]) simp
    then show ?thesis using ok b' by simp
  next
    case (BAmd u)
    obtain u1 s1 where p1: "amd_post_command hw 0 (push_bit AMD_CMD_OPCODE_SHIFT AMD_CMD_INV_ALL) 0 0 u s = (u1, s1)"
      by (rule prod.exhaust)
    have S: "au_cmdbuf u \<in> ?S" "au_sem u \<in> ?S" using BAmd by (simp_all add: unit_written_def)
    note P1 = amd_post_differs[OF ok[unfolded BAmd] S(1) p1]
    let ?u1 = "u1\<lparr>au_sem_val := au_sem_val u1 + 1\<rparr>"
    have ok1: "backend_ok (BAmd ?u1)" using P1(3) by (simp add: backend_ok_def unit_frames_def)
    have S1: "au_cmdbuf ?u1 \<in> ?S" using S(1) P1(5) by simp
    define s2 where "s2 = (write64 (fst s1) (au_sem u1) 0, snd s1)"
    obtain u3 s3 where p3: "amd_post_command hw
            (ucast (au_sem u1) AND 0xfffffff8 OR AMD_COMPL_STORE)
            (ucast (drop_bit 32 (au_sem u1)) OR push_bit AMD_CMD_OPCODE_SHIFT AMD_CMD_COMPLETION_WAIT)
            (ucast (au_sem_val u1 + 1)) (ucast (drop_bit 32 (au_sem_val u1 + 1))) ?u1 s2 = (u3, s3)"
      by (rule prod.exhaust)
    note P3 = amd_post_differs[OF ok1 S1 p3]
    have e: "b' = BAmd u3" "s' = snd (poll_until (\<lambda>s. read64 (fst s) (au_sem u1) = au_sem_val u1 + 1) (h_idle hw) INVAL_POLL_LIMIT s3)"
      using i p1 p3 by (auto simp: BAmd invalidate_all_def amd_invalidate_def amd_completion_wait_def Let_def s2_def)
    have sal: "\<not> misaligned (au_sem u1)" using P1(3) by (simp add: backend_ok_def unit_frames_def)
    have "entry_addr (au_sem u1) 0 = au_sem u1" by (simp add: entry_addr_def)
    then have "differs_in ?S (fst s) (fst s2)"
      using write_entry_differs[OF sal, of 0 ?S "fst s" "fst s1" 0] S(2) P1(1,4) by (simp add: s2_def)
    then have "differs_in ?S (fst s) (fst s')"
      using differs_in_join P3(1) poll_differs[OF idle] unfolding e by blast
    moreover have "unit_frames (BAmd ?u1) = unit_frames (BAmd u1)" by (simp add: unit_frames_def)
    moreover have "unit_written (BAmd u3) = unit_written (BAmd u)"
      using P1(2) P3(2) by (simp add: unit_frames_def unit_written_def)
    ultimately show ?thesis using P1(2) P3(2,3) BAmd by (simp add: e(1) backend_fmt_def)
  qed
  then show "differs_in ?S (fst s) (fst s')" "unit_frames b' = unit_frames b" "unit_written b' = unit_written b" "backend_ok b'" "backend_fmt b' = backend_fmt b"
    by simp_all
qed

section \<open>The driver's invariant\<close>

definition identity_map :: "domain \<Rightarrow> mem \<Rightarrow> bool" where
  "identity_map d m \<longleftrightarrow>
     (\<forall>p e. domain_view d m p = Some e \<longrightarrow> unat (snd (pte_decode (dm_fmt d) e)) = p * 4096)"

definition bound_tables :: "block_iommu \<Rightarrow> mem \<Rightarrow> u64 list" where
  "bound_tables bi m = (case bi_bound bi of None \<Rightarrow> [] | Some b \<Rightarrow> domain_tables (bd_domain b) m)"

definition owned :: "block_iommu \<Rightarrow> mem \<Rightarrow> u64 list" where
  "owned bi m = unit_frames (bi_backend bi) @ domain_tables (bi_domain bi) m @ bound_tables bi m"

text \<open>
  Two well-formed domains in tables of their own and the unit's frames, all distinct and in use, and
  the shared domain an identity.  \<open>W\<close> holds the frames no table may use: the reserved frame 0 and
  those the devices write.
\<close>

definition block_ok :: "nat set \<Rightarrow> block_iommu \<Rightarrow> mem \<Rightarrow> frame_alloc \<Rightarrow> bool" where
  "block_ok W bi m fa \<longleftrightarrow>
     fa_ok fa \<and> backend_ok (bi_backend bi) \<and>
     domain_ok (bi_domain bi) m fa \<and> identity_map (bi_domain bi) m \<and>
     dm_fmt (bi_domain bi) = backend_fmt (bi_backend bi) \<and> dm_levels (bi_domain bi) = bi_levels bi \<and>
     (\<forall>b. bi_bound bi = Some b \<longrightarrow> domain_ok (bd_domain b) m fa \<and> buffers_ok BOUND_IOVA_BASE (bd_domain b) (bd_iova b) m \<and>
        dm_fmt (bd_domain b) = backend_fmt (bi_backend bi)) \<and>
     distinct (owned bi m) \<and> (\<forall>u \<in> set (owned bi m). taken fa u) \<and>
     (\<forall>u \<in> set (owned bi m). frame_no u \<notin> W) \<and> domain_levels (bi_width bi) = Some (bi_levels bi) \<and>
     avail fa \<inter> W = {} \<and> 0 \<in> W"

text \<open>A domain does not notice changes outside its tables.\<close>

lemma domain_elsewhere:
  assumes D: "domain_ok d m fa" and dif: "differs_in S m m'" "S \<inter> set (domain_tables d m) = {}"
    and fa': "fa_ok fa'" "\<forall>u \<in> set (domain_tables d m). taken fa' u"
  shows "domain_ok d m' fa'" "domain_tables d m' = domain_tables d m" "domain_view d m' = domain_view d m"
proof -
  have ok: "tree_ok (dm_fmt d) (dm_levels d) (dm_root d) m fa" using D by (simp add: domain_ok_def)
  note U = tables_unchanged[OF dif(1) dif(2)[unfolded domain_tables_def] tree_aligned[OF ok]]
  show t: "domain_tables d m' = domain_tables d m" unfolding domain_tables_def by (rule U(1))
  show "domain_view d m' = domain_view d m" by (rule ext) (simp add: domain_view_def U(2))
  show "domain_ok d m' fa'"
    using D fa' t by (simp add: domain_ok_def tree_ok_def domain_tables_def)
qed

lemma identity_cong: "domain_view d m' = domain_view d m \<Longrightarrow> identity_map d m' = identity_map d m"
  by (simp add: identity_map_def)

lemma buffers_cong:
  "domain_view d m' = domain_view d m \<Longrightarrow> buffers_ok base d a m' = buffers_ok base d a m"
  by (simp add: buffers_ok_def iova_live_def)

text \<open>Memory changes outside the domains' tables: device entries, rings, the hardware's own writes.\<close>

lemma block_ok_elsewhere:
  assumes B: "block_ok W bi m fa" and dif: "differs_in ({u. frame_no u \<in> W} \<union> set (unit_frames (bi_backend bi))) m m'"
    and bi': "bi_domain bi' = bi_domain bi" "bi_levels bi' = bi_levels bi" "bi_bound bi' = bi_bound bi"
      "unit_frames (bi_backend bi') = unit_frames (bi_backend bi)" "backend_ok (bi_backend bi')" "bi_width bi' = bi_width bi"
      "backend_fmt (bi_backend bi') = backend_fmt (bi_backend bi)"
  shows "block_ok W bi' m' fa" "domain_view (bi_domain bi) m' = domain_view (bi_domain bi) m"
    "domain_tables (bi_domain bi) m' = domain_tables (bi_domain bi) m"
    "bi_bound bi = Some b \<Longrightarrow> domain_view (bd_domain b) m' = domain_view (bd_domain b) m"
    "bi_bound bi = Some b \<Longrightarrow> domain_tables (bd_domain b) m' = domain_tables (bd_domain b) m"
proof -
  let ?S = "{u. frame_no u \<in> W} \<union> set (unit_frames (bi_backend bi))"
  have fa: "fa_ok fa" using B by (simp add: block_ok_def)
  have s: "?S \<inter> set (domain_tables (bi_domain bi) m) = {}" "?S \<inter> set (bound_tables bi m) = {}"
    using B by (auto simp: block_ok_def owned_def)
  have t: "\<forall>u \<in> set (domain_tables (bi_domain bi) m). taken fa u" "\<forall>u \<in> set (bound_tables bi m). taken fa u"
    using B by (auto simp: block_ok_def owned_def)
  have D: "domain_ok (bi_domain bi) m fa" using B by (simp add: block_ok_def)
  note S = domain_elsewhere[OF D dif s(1) fa t(1)]
  have bd: "domain_ok (bd_domain b) m' fa \<and> domain_tables (bd_domain b) m' = domain_tables (bd_domain b) m \<and>
      domain_view (bd_domain b) m' = domain_view (bd_domain b) m" if "bi_bound bi = Some b" for b
    using domain_elsewhere[of "bd_domain b" m fa, OF _ dif _ fa] B s(2) t(2) that
    by (simp add: block_ok_def bound_tables_def)
  show "domain_view (bi_domain bi) m' = domain_view (bi_domain bi) m"
    "domain_tables (bi_domain bi) m' = domain_tables (bi_domain bi) m" by (rule S(3), rule S(2))
  show "domain_view (bd_domain b) m' = domain_view (bd_domain b) m"
    "domain_tables (bd_domain b) m' = domain_tables (bd_domain b) m" if "bi_bound bi = Some b"
    using bd[OF that] by simp_all
  have bt: "bound_tables bi' m' = bound_tables bi m"
    using bd by (auto simp: bound_tables_def bi' split: option.split)
  have o: "owned bi' m' = owned bi m" unfolding owned_def bi' bt S(2) by (rule refl)
  show "block_ok W bi' m' fa"
    using B bi'(5) S(1) bd identity_cong[OF S(3)] buffers_cong
    unfolding block_ok_def o bi'(1-3,6,7) by metis
qed

text \<open>Growth of one of the two domains.\<close>

lemma grows_owned:
  assumes "distinct (A @ tables f m n t @ B)" "\<forall>u \<in> set (A @ tables f m n t @ B). taken fa u"
    and g: "grows f n t new m fa m' fa'" and fa: "fa_ok fa"
  shows "distinct (A @ tables f m' n t @ B)" "\<forall>u \<in> set (A @ tables f m' n t @ B). taken fa' u"
    "set (tables f m' n t) = set (tables f m n t) \<union> set new" "set (A @ B) \<inter> set new = {}"
proof -
  have fresh: "set (A @ tables f m n t @ B) \<inter> set new = {}" using assms(2) new_not_taken[OF g] by blast
  have "mset (A @ tables f m' n t @ B) = mset (A @ tables f m n t @ B @ new)" using g by (simp add: grows_def)
  moreover have "distinct (A @ tables f m n t @ B @ new)" using assms(1) fresh g by (auto simp: grows_def)
  ultimately show "distinct (A @ tables f m' n t @ B)" using mset_eq_imp_distinct_iff by blast
  show s: "set (tables f m' n t) = set (tables f m n t) \<union> set new" by (rule grows_set[OF g])
  show "set (A @ B) \<inter> set new = {}" using fresh by auto
  have "taken fa' u" if "taken fa u" for u using that g by (auto simp: taken_def grows_def)
  moreover have "taken fa' u" if "u \<in> set new" for u
    using that g fa by (auto simp: taken_def grows_def fa_ok_def fa_wf_def)
  ultimately show "\<forall>u \<in> set (A @ tables f m' n t @ B). taken fa' u" using assms(2) s by auto
qed

lemma grows_avail: "grows f n t new m fa m' fa' \<Longrightarrow> avail fa' \<subseteq> avail fa \<and> fa_ok fa'"
  by (auto simp: grows_def)

lemma shared_grows:
  assumes B: "block_ok W bi m fa"
    and g: "grows (dm_fmt (bi_domain bi)) (dm_levels (bi_domain bi)) (dm_root (bi_domain bi)) new m fa m' fa'"
    and D: "domain_ok (bi_domain bi) m' fa'" and I: "identity_map (bi_domain bi) m'"
  shows "block_ok W bi m' fa'" "bi_bound bi = Some b \<Longrightarrow> domain_view (bd_domain b) m' = domain_view (bd_domain b) m"
proof -
  let ?d = "bi_domain bi"
  have fa: "fa_ok fa" using B by (simp add: block_ok_def)
  note G = grows_owned[of "unit_frames (bi_backend bi)" _ m _ _ "bound_tables bi m", OF _ _ g fa, folded domain_tables_def]
  have o: "distinct (unit_frames (bi_backend bi) @ domain_tables ?d m @ bound_tables bi m)"
    "\<forall>u \<in> set (unit_frames (bi_backend bi) @ domain_tables ?d m @ bound_tables bi m). taken fa u"
    using B by (simp_all add: block_ok_def owned_def)
  have dif: "differs_in (set (domain_tables ?d m) \<union> set new) m m'" using g by (simp add: grows_def domain_tables_def)
  have s: "(set (domain_tables ?d m) \<union> set new) \<inter> set (bound_tables bi m) = {}"
    using o(1) G(4)[OF o] by (auto simp: owned_def)
  have t: "\<forall>u \<in> set (bound_tables bi m). taken fa' u" using G(2)[OF o] by auto
  have bd: "domain_ok (bd_domain b) m' fa' \<and> domain_tables (bd_domain b) m' = domain_tables (bd_domain b) m \<and>
      domain_view (bd_domain b) m' = domain_view (bd_domain b) m" if "bi_bound bi = Some b" for b
    using domain_elsewhere[of "bd_domain b" m fa, OF _ dif _ conjunct2[OF grows_avail[OF g]]] B s t that
    by (simp add: block_ok_def bound_tables_def)
  then show "domain_view (bd_domain b) m' = domain_view (bd_domain b) m" if "bi_bound bi = Some b" using that by blast
  have bt: "bound_tables bi m' = bound_tables bi m" using bd by (auto simp: bound_tables_def split: option.split)
  have oo: "distinct (owned bi m')" "\<forall>u \<in> set (owned bi m'). taken fa' u"
    using G(1,2)[OF o] unfolding owned_def bt by simp_all
  have new: "frame_no u \<in> avail fa" if "u \<in> set new" for u using g that by (simp add: grows_def)
  have "set (owned bi m') = set (owned bi m) \<union> set new" using G(3)[OF o] by (auto simp: owned_def bt)
  then have "\<forall>u \<in> set (owned bi m'). frame_no u \<notin> W" using B new unfolding block_ok_def by blast
  moreover have "avail fa' \<inter> W = {}" "0 \<in> W" "fa_ok fa'"
    using B grows_avail[OF g] by (auto simp: block_ok_def)
  ultimately show "block_ok W bi m' fa'"
    using B oo D I bd buffers_cong unfolding block_ok_def by metis
qed

lemma bound_grows:
  assumes B: "block_ok W bi m fa" and b: "bi_bound bi = Some b" and d': "bd_domain b' = bd_domain b"
    and g: "grows (dm_fmt (bd_domain b)) (dm_levels (bd_domain b)) (dm_root (bd_domain b)) new m fa m' fa'"
    and D: "domain_ok (bd_domain b) m' fa'" and I: "buffers_ok BOUND_IOVA_BASE (bd_domain b) (bd_iova b') m'"
  shows "block_ok W (bi\<lparr>bi_bound := Some b'\<rparr>) m' fa'" "domain_view (bi_domain bi) m' = domain_view (bi_domain bi) m"
proof -
  let ?d = "bi_domain bi"
  have fa: "fa_ok fa" using B by (simp add: block_ok_def)
  note G = grows_owned[of "unit_frames (bi_backend bi) @ domain_tables ?d m" _ m _ _ "[]", OF _ _ g fa, folded domain_tables_def]
  have o: "distinct ((unit_frames (bi_backend bi) @ domain_tables ?d m) @ domain_tables (bd_domain b) m @ [])"
    "\<forall>u \<in> set ((unit_frames (bi_backend bi) @ domain_tables ?d m) @ domain_tables (bd_domain b) m @ []). taken fa u"
    using B by (simp_all add: block_ok_def owned_def bound_tables_def b)
  have dif: "differs_in (set (domain_tables (bd_domain b) m) \<union> set new) m m'" using g by (simp add: grows_def domain_tables_def)
  have s: "(set (domain_tables (bd_domain b) m) \<union> set new) \<inter> set (domain_tables ?d m) = {}"
    using o(1) G(4)[OF o] by auto
  have t: "\<forall>u \<in> set (domain_tables ?d m). taken fa' u" using G(2)[OF o] by auto
  have D0: "domain_ok ?d m fa" using B by (simp add: block_ok_def)
  note S = domain_elsewhere[OF D0 dif s conjunct2[OF grows_avail[OF g]] t]
  then show "domain_view ?d m' = domain_view ?d m" by blast
  let ?bi = "bi\<lparr>bi_bound := Some b'\<rparr>"
  have oo: "distinct (owned ?bi m')" "\<forall>u \<in> set (owned ?bi m'). taken fa' u"
    using G(1,2)[OF o] by (simp_all add: owned_def bound_tables_def d' S(2))
  have new: "frame_no u \<in> avail fa" if "u \<in> set new" for u using g that by (simp add: grows_def)
  have bt: "bound_tables ?bi m' = domain_tables (bd_domain b) m'" "bound_tables bi m = domain_tables (bd_domain b) m"
    by (simp_all add: bound_tables_def d' b)
  have "set (owned ?bi m') = set (owned bi m) \<union> set new" using G(3)[OF o] by (auto simp: owned_def bt S(2))
  then have "\<forall>u \<in> set (owned ?bi m'). frame_no u \<notin> W" using B new unfolding block_ok_def by blast
  moreover have "avail fa' \<inter> W = {}" "0 \<in> W" "fa_ok fa'"
    using B grows_avail[OF g] by (auto simp: block_ok_def)
  ultimately show "block_ok W ?bi m' fa'"
    using B oo D I S(1) identity_cong[OF S(3)] b by (simp add: block_ok_def d')
qed

text \<open>Forgetting a bound domain, torn down or not, leaves the rest in order.\<close>

lemma block_ok_unbound:
  assumes "block_ok W (bi\<lparr>bi_bound := Some b\<rparr>) m fa"
  shows "block_ok W (bi\<lparr>bi_bound := None\<rparr>) m fa"
  using assms by (auto simp: block_ok_def owned_def bound_tables_def)

section \<open>The operations keep the invariant\<close>

lemma unat_frame_page: "unat (frame_page x) = unat x div 4096 * 4096"
proof -
  have m: "push_bit PAGE_SHIFT 1 - 1 = (mask 12 :: u64)" by (simp add: PAGE_SHIFT_def mask_eq_exp_minus_1)
  have "frame_page x = push_bit 12 (drop_bit 12 x)"
    unfolding frame_page_def m
    by (rule bit_word_eqI, simp only: bit_and_iff bit_not_iff bit_mask_iff bit_push_bit_iff bit_drop_bit_eq) auto
  moreover have "unat (drop_bit 12 x) = drop_bit 12 (unat x)" by (simp only: unat_drop_bit_eq)
  then have "unat (drop_bit 12 x) = unat x div 4096" by (simp add: drop_bit_eq_div)
  moreover have "unat x div 4096 * 4096 < 2 ^ 64" 
    using unat_u64_less[of x] le_less_trans[OF div_times_less_eq_dividend] by simp
  ultimately show ?thesis by (simp add: push_bit_eq_mult unat_word_ariths)
qed

lemma frame_page_facts:
  assumes "unat x < 2 ^ 52"
  shows "addressable (frame_page x)" "\<not> misaligned (frame_page x)" "iova_page (frame_page x) = unat x div 4096"
proof -
  have le: "unat x div 4096 * 4096 \<le> unat x" by (rule div_times_less_eq_dividend)
  show "\<not> misaligned (frame_page x)" "iova_page (frame_page x) = unat x div 4096"
    by (simp_all add: misaligned_def PAGE_SHIFT_def iova_page_def unat_frame_page)
  then show "addressable (frame_page x)" using assms le by (simp add: addressable_def unat_frame_page)
qed

lemma mappable_rw [simp]: "mappable f (IOMMU_READ OR IOMMU_WRITE)"
  by (simp add: mappable_def format_consts)

definition in_width :: "block_iommu \<Rightarrow> u64 \<Rightarrow> bool" where
  "in_width bi x \<longleftrightarrow> unat x < 4096 * 512 ^ bi_levels bi \<and> unat x < 2 ^ 52"

lemma shared_map:
  assumes B: "block_ok W bi m fa" and x: "in_width bi x"
  shows "\<exists>r m' fa'. domain_map (bi_domain bi) (frame_page x) (frame_page x) (IOMMU_READ OR IOMMU_WRITE) m fa = Some (r, m', fa') \<and>
      block_ok W bi m' fa' \<and> avail fa' \<subseteq> avail fa \<and>
      (r = Inr () \<or> r = Inl AlreadyMapped \<or> r = Inl DomainExhausted \<and> avail fa' = {}) \<and>
      (\<forall>b. bi_bound bi = Some b \<longrightarrow> domain_view (bd_domain b) m' = domain_view (bd_domain b) m)"
proof -
  let ?d = "bi_domain bi" let ?p = "frame_page x"
  have D: "domain_ok ?d m fa" and I: "identity_map ?d m" and lv: "dm_levels ?d = bi_levels bi"
    using B by (simp_all add: block_ok_def)
  have x52: "unat x < 2 ^ 52" using x by (simp add: in_width_def)
  note F = frame_page_facts[OF x52]
  have pg: "dma_page ?d ?p = unat x div 4096"
    using x F(3) by (simp add: dma_page_def lv in_width_def less_mult_imp_div_less mult.commute)
  obtain r m' fa' new where M: "domain_map ?d ?p ?p (IOMMU_READ OR IOMMU_WRITE) m fa = Some (r, m', fa')"
    "grows (dm_fmt ?d) (dm_levels ?d) (dm_root ?d) new m fa m' fa'" "domain_ok ?d m' fa'"
    using domain_map_grows[OF D] by blast
  have R: "r = Inr () \<and> domain_view ?d m' = (domain_view ?d m)(dma_page ?d ?p \<mapsto> encode_leaf (dm_fmt ?d) ?p (IOMMU_READ OR IOMMU_WRITE)) \<or>
      r = Inl AlreadyMapped \<and> m' = m \<or> r = Inl DomainExhausted \<and> avail fa' = {} \<and> domain_view ?d m' = domain_view ?d m"
    using domain_map_view[OF D F(2) mappable_rw F(1)] M(1) by auto
  have "identity_map ?d m'"
    using R I decode_leaf[OF F(1) mappable_rw, of "dm_fmt ?d"] pg unat_frame_page[of x]
    by (auto simp: identity_map_def split: if_splits)
  note S = shared_grows[OF B M(2,3) this]
  show ?thesis using M(1) S R grows_avail[OF M(2)] by blast
qed

lemma map_fixed_ok:
  assumes "block_ok W bi m fa" "\<forall>x \<in> set fixed. in_width bi x"
  shows "\<exists>r m' fa'. map_fixed (bi_domain bi) fixed m fa = Some (r, m', fa') \<and> block_ok W bi m' fa' \<and> avail fa' \<subseteq> avail fa"
  using assms
proof (induction fixed arbitrary: m fa)
  case (Cons x fixed)
  obtain r m' fa' where M: "domain_map (bi_domain bi) (frame_page x) (frame_page x) (IOMMU_READ OR IOMMU_WRITE) m fa = Some (r, m', fa')"
    "block_ok W bi m' fa'" "avail fa' \<subseteq> avail fa"
    using shared_map[OF Cons.prems(1), of x] Cons.prems(2) by auto
  obtain r2 m2 fa2 where "map_fixed (bi_domain bi) fixed m' fa' = Some (r2, m2, fa2)" "block_ok W bi m2 fa2" "avail fa2 \<subseteq> avail fa'"
    using Cons.IH[OF M(2)] Cons.prems(2) by auto
  then show ?case using M by (cases "r = Inr () \<or> r = Inl AlreadyMapped") auto
qed simp

lemma in_width_frame_page: "\<not> misaligned a \<Longrightarrow> frame_page a = a"
  using aligned_frame[of a] unat_frame_page[of a] by (simp add: word_unat_eq_iff FRAME_SIZE_def)

text \<open>The fixed buffers of a bound device, in turn: each at an address of its own, nothing else added.\<close>

definition fixed_mapped :: "domain \<Rightarrow> u64 list \<Rightarrow> u64 list \<Rightarrow> mem \<Rightarrow> mem \<Rightarrow> bool" where
  "fixed_mapped d fixed iovas m m' \<longleftrightarrow>
     length iovas = length fixed \<and> distinct (map (dma_page d) iovas) \<and>
     (\<forall>v \<in> set iovas. domain_view d m (dma_page d v) = None) \<and>
     (\<forall>p. domain_view d m' p =
        (case map_of (zip (map (dma_page d) iovas) fixed) p of
           None \<Rightarrow> domain_view d m p
         | Some x \<Rightarrow> Some (encode_leaf (dm_fmt d) (frame_page x) (IOMMU_READ OR IOMMU_WRITE))))"

lemma fixed_mapped_Cons:
  assumes "domain_view d m (dma_page d v) = None"
    "domain_view d m1 = (domain_view d m)(dma_page d v \<mapsto> encode_leaf (dm_fmt d) (frame_page x) (IOMMU_READ OR IOMMU_WRITE))"
    "fixed_mapped d fixed iovas m1 m2"
  shows "fixed_mapped d (x # fixed) (v # iovas) m m2"
proof -
  have I: "length iovas = length fixed" "distinct (map (dma_page d) iovas)"
    "\<forall>v \<in> set iovas. domain_view d m1 (dma_page d v) = None"
    "\<forall>p. domain_view d m2 p = (case map_of (zip (map (dma_page d) iovas) fixed) p of
       None \<Rightarrow> domain_view d m1 p
     | Some x \<Rightarrow> Some (encode_leaf (dm_fmt d) (frame_page x) (IOMMU_READ OR IOMMU_WRITE)))"
    using assms(3) by (simp_all add: fixed_mapped_def)
  have nv: "dma_page d v \<notin> dma_page d ` set iovas" using I(3) assms(2) by auto
  then have "map_of (zip (map (dma_page d) iovas) fixed) (dma_page d v) = None"
    using I(1) by (simp add: map_of_zip_is_None)
  then have "\<forall>p. domain_view d m2 p = (case map_of (zip (map (dma_page d) (v # iovas)) (x # fixed)) p of
       None \<Rightarrow> domain_view d m p
     | Some x \<Rightarrow> Some (encode_leaf (dm_fmt d) (frame_page x) (IOMMU_READ OR IOMMU_WRITE)))"
    using I(4) assms(2) by (auto split: option.split)
  moreover have "\<forall>u \<in> set (v # iovas). domain_view d m (dma_page d u) = None"
    using I(3) assms(1,2) by (auto split: if_splits)
  ultimately show ?thesis using I(1,2) nv by (simp add: fixed_mapped_def)
qed

lemma bind_fixed_ok:
  assumes "block_ok W (bi\<lparr>bi_bound := Some \<lparr>bd_domain = d, bd_iova = a, bd_loc = loc\<rparr>\<rparr>) m fa"
    "\<forall>x \<in> set fixed. unat x < 2 ^ 52"
  shows "\<exists>r a' m' fa'. bind_fixed d a fixed m fa = Some (r, a', m', fa') \<and>
      block_ok W (bi\<lparr>bi_bound := Some \<lparr>bd_domain = d, bd_iova = a', bd_loc = loc\<rparr>\<rparr>) m' fa' \<and> avail fa' \<subseteq> avail fa \<and>
      domain_view (bi_domain bi) m' = domain_view (bi_domain bi) m \<and>
      (domain_accounts m0 fa0 d m fa \<longrightarrow> domain_accounts m0 fa0 d m' fa') \<and>
      (case r of
         Inl e \<Rightarrow> e = ''mapping a bound fixed frame failed''
       | Inr iovas \<Rightarrow> fixed_mapped d fixed iovas m m')"
  using assms
proof (induction fixed arbitrary: a m fa)
  case Nil
  then show ?case by (simp add: fixed_mapped_def)
next
  case (Cons x fixed)
  let ?b = "\<lambda>a. \<lparr>bd_domain = d, bd_iova = a, bd_loc = loc\<rparr>"
  have D: "domain_ok d m fa" and Bf: "buffers_ok BOUND_IOVA_BASE d a m"
    using Cons.prems(1) by (simp_all add: block_ok_def)
  have F: "addressable (frame_page x)" using frame_page_facts(1) Cons.prems(2) by simp
  obtain r a1 m1 fa1 new where M: "map_buffer d a (frame_page x) (IOMMU_READ OR IOMMU_WRITE) m fa = Some (r, a1, m1, fa1)"
    "domain_ok d m1 fa1" "buffers_ok BOUND_IOVA_BASE d a1 m1" "grows (dm_fmt d) (dm_levels d) (dm_root d) new m fa m1 fa1"
    "\<forall>v. r = Inr v \<longrightarrow> domain_view d m (dma_page d v) = None \<and>
           domain_view d m1 = (domain_view d m)(dma_page d v \<mapsto> encode_leaf (dm_fmt d) (frame_page x) (IOMMU_READ OR IOMMU_WRITE))"
    using map_buffer_view[OF D Bf mappable_rw F] by (fastforce split: sum.splits)
  have b: "bi_bound (bi\<lparr>bi_bound := Some (?b a)\<rparr>) = Some (?b a)" by simp
  have G: "block_ok W (bi\<lparr>bi_bound := Some (?b a1)\<rparr>) m1 fa1" "domain_view (bi_domain bi) m1 = domain_view (bi_domain bi) m"
    using bound_grows[OF Cons.prems(1) b, of "?b a1" new m1 fa1] M(2-4) by simp_all
  have A1: "domain_accounts m0 fa0 d m fa \<longrightarrow> domain_accounts m0 fa0 d m1 fa1" using accounts_grows[OF _ M(4)] by blast
  have av: "avail fa1 \<subseteq> avail fa" using grows_avail[OF M(4)] by blast
  show ?case
  proof (cases r)
    case (Inl e)
    then have "bind_fixed d a (x # fixed) m fa = Some (Inl ''mapping a bound fixed frame failed'', a1, m1, fa1)"
      using M(1) by simp
    then show ?thesis using G A1 av by fastforce
  next
    case r: (Inr v)
    obtain r2 a2 m2 fa2 where IH: "bind_fixed d a1 fixed m1 fa1 = Some (r2, a2, m2, fa2)"
      "block_ok W (bi\<lparr>bi_bound := Some (?b a2)\<rparr>) m2 fa2" "avail fa2 \<subseteq> avail fa1"
      "domain_view (bi_domain bi) m2 = domain_view (bi_domain bi) m1"
      "domain_accounts m0 fa0 d m1 fa1 \<longrightarrow> domain_accounts m0 fa0 d m2 fa2"
      "case r2 of Inl e \<Rightarrow> e = ''mapping a bound fixed frame failed'' | Inr iovas \<Rightarrow> fixed_mapped d fixed iovas m1 m2"
      using Cons.IH[OF G(1)] Cons.prems(2) by auto
    show ?thesis
    proof (cases r2)
      case (Inl e)
      then have "bind_fixed d a (x # fixed) m fa = Some (Inl e, a2, m2, fa2)" using M(1) r IH(1) by simp
      then show ?thesis using IH Inl G(2) A1 av by simp
    next
      case (Inr iovas)
      have "fixed_mapped d (x # fixed) (v # iovas) m m2"
        using fixed_mapped_Cons[of d m v m1 x fixed iovas m2] M(5) r IH(6) Inr by simp
      moreover have "bind_fixed d a (x # fixed) m fa = Some (Inr (v # iovas), a2, m2, fa2)"
        using M(1) r IH(1) Inr by simp
      ultimately show ?thesis using IH(2-5) G(2) A1 av by fastforce
    qed
  qed
qed

section \<open>The machine\<close>

definition iommu_ok :: "nat set \<Rightarrow> 'h machine \<Rightarrow> bool" where
  "iommu_ok W st \<longleftrightarrow>
     (\<exists>fa. mc_fa st = Some fa \<and> fa_ok fa \<and> avail fa \<inter> W = {} \<and> 0 \<in> W \<and>
       (\<forall>bi. mc_block st = Some bi \<longrightarrow> block_ok W bi (mc_mem st) fa))"

lemma iommu_okE:
  assumes "iommu_ok W st"
  obtains fa where "mc_fa st = Some fa" "fa_ok fa" "avail fa \<inter> W = {}" "0 \<notin> avail fa" "0 \<in> W"
    "\<And>bi. mc_block st = Some bi \<Longrightarrow> block_ok W bi (mc_mem st) fa"
  using assms unfolding iommu_ok_def by blast

lemma iommu_okI:
  assumes "mc_fa st = Some fa" "mc_block st = Some bi" "block_ok W bi (mc_mem st) fa"
  shows "iommu_ok W st"
  using assms unfolding iommu_ok_def by (auto simp: block_ok_def)

text \<open>Invalidation touches no mapping and moves no frame.\<close>

lemma invalidate_unit_ok:
  assumes fa: "mc_fa st = Some fa" and bi: "mc_block st = Some bi" and B: "block_ok W bi (mc_mem st) fa"
    and hw: "hw_confined hw W (bi_backend bi)"
  shows "\<exists>b m h. invalidate_unit hw st = st\<lparr>mc_mem := m, mc_hw := h, mc_block := Some (bi\<lparr>bi_backend := b\<rparr>)\<rparr> \<and>
      block_ok W (bi\<lparr>bi_backend := b\<rparr>) m fa \<and> unit_frames b = unit_frames (bi_backend bi) \<and>
      backend_fmt b = backend_fmt (bi_backend bi) \<and>
      differs_in ({u. frame_no u \<in> W} \<union> set (unit_written (bi_backend bi))) (mc_mem st) m \<and>
      domain_view (bi_domain bi) m = domain_view (bi_domain bi) (mc_mem st) \<and>
      (\<forall>bd. bi_bound bi = Some bd \<longrightarrow> domain_view (bd_domain bd) m = domain_view (bd_domain bd) (mc_mem st) \<and>
        domain_tables (bd_domain bd) m = domain_tables (bd_domain bd) (mc_mem st))"
proof -
  obtain b m h where i: "invalidate_all hw (bi_backend bi) (mc_mem st, mc_hw st) = (b, m, h)" by (rule prod_cases3)
  have ok: "backend_ok (bi_backend bi)" using B by (simp add: block_ok_def)
  note I = invalidate_differs[OF ok hw i, simplified fst_conv]
  have "differs_in ({u. frame_no u \<in> W} \<union> set (unit_frames (bi_backend bi))) (mc_mem st) m"
    by (rule differs_in_mono[OF I(1)]) (use unit_written_frames in auto)
  note E = block_ok_elsewhere[OF B this, of "bi\<lparr>bi_backend := b\<rparr>"]
  have "invalidate_unit hw st = st\<lparr>mc_mem := m, mc_hw := h, mc_block := Some (bi\<lparr>bi_backend := b\<rparr>)\<rparr>"
    using bi i by (simp add: invalidate_unit_def)
  then show ?thesis using E I by (intro exI[of _ b] exI[of _ m] exI[of _ h]) simp
qed

lemma attach_ok:
  assumes B: "block_ok W bi m fa" and m': "m' = attach_device (bi_backend bi) loc r l did m \<or> m' = detach_device (bi_backend bi) loc m"
  shows "block_ok W bi m' fa" "domain_view (bi_domain bi) m' = domain_view (bi_domain bi) m"
    "bi_bound bi = Some b \<Longrightarrow> domain_view (bd_domain b) m' = domain_view (bd_domain b) m"
    "bi_bound bi = Some b \<Longrightarrow> domain_tables (bd_domain b) m' = domain_tables (bd_domain b) m"
proof -
  have ok: "backend_ok (bi_backend bi)" using B by (simp add: block_ok_def)
  have "differs_in (set (unit_frames (bi_backend bi))) m m'" using attach_differs[OF ok] m' by blast
  then have dif: "differs_in ({u. frame_no u \<in> W} \<union> set (unit_frames (bi_backend bi))) m m'"
    by (rule differs_in_mono) simp
  note E = block_ok_elsewhere[OF B dif, of bi]
  show "block_ok W bi m' fa" "domain_view (bi_domain bi) m' = domain_view (bi_domain bi) m"
    "bi_bound bi = Some b \<Longrightarrow> domain_view (bd_domain b) m' = domain_view (bd_domain b) m"
    "bi_bound bi = Some b \<Longrightarrow> domain_tables (bd_domain b) m' = domain_tables (bd_domain b) m"
    using E ok by simp_all
qed

lemma block_ok_prepared:
  "block_ok W (bi\<lparr>bi_prepared := n\<rparr>) m fa = block_ok W bi m fa"
  "block_ok W (bi\<lparr>bi_enabled := e\<rparr>) m fa = block_ok W bi m fa"
  by (simp_all add: block_ok_def owned_def bound_tables_def)

lemma block_map_dma_ok:
  assumes "iommu_ok W st" "\<forall>bi. mc_block st = Some bi \<longrightarrow> in_width bi x \<and> hw_confined hw W (bi_backend bi)"
  shows "\<exists>r st'. block_map_dma hw x st = Some (r, st') \<and> iommu_ok W st'"
proof (cases "mc_block st")
  case None
  then show ?thesis using assms(1) by (simp add: block_map_dma_def)
next
  case (Some bi)
  obtain fa where fa: "mc_fa st = Some fa" "block_ok W bi (mc_mem st) fa" using iommu_okE[OF assms(1)] Some by metis
  obtain r m' fa' where M: "domain_map (bi_domain bi) (frame_page x) (frame_page x) (IOMMU_READ OR IOMMU_WRITE) (mc_mem st) fa = Some (r, m', fa')"
    "block_ok W bi m' fa'" using shared_map[OF fa(2)] assms(2) Some by blast
  define st1 where "st1 = st\<lparr>mc_mem := m', mc_fa := Some fa'\<rparr>"
  have s1: "mc_fa st1 = Some fa'" "mc_block st1 = Some bi" "block_ok W bi (mc_mem st1) fa'"
    using Some M(2) by (simp_all add: st1_def)
  have hw: "hw_confined hw W (bi_backend bi)" using assms(2) Some by blast
  have "iommu_ok W (invalidate_unit hw st1)"
    using invalidate_unit_ok[OF s1 hw] s1(1) by (auto intro!: iommu_okI)
  moreover have "iommu_ok W st1" by (rule iommu_okI[OF s1])
  ultimately show ?thesis using assms(1) Some fa(1) M(1) by (simp add: block_map_dma_def st1_def[symmetric])
qed

lemma bind_map_dma_bound:
  assumes "iommu_ok W st" "unat x < 2 ^ 52" and b: "mc_block st = Some bi" "bi_bound bi = Some b"
    and hwc: "hw_confined hw W (bi_backend bi)"
  obtains r st' bi' b' fa fa' where "bind_map_dma hw x st = Some (r, st')" "iommu_ok W st'"
    "mc_block st' = Some bi'" "bi_bound bi' = Some b'" "bd_domain b' = bd_domain b" "bi_domain bi' = bi_domain bi"
    "bd_loc b' = bd_loc b" "bi_enabled bi' = bi_enabled bi" "unit_frames (bi_backend bi') = unit_frames (bi_backend bi)"
    "mc_fa st = Some fa" "mc_fa st' = Some fa'"
    "domain_view (bi_domain bi) (mc_mem st') = domain_view (bi_domain bi) (mc_mem st)"
    "\<And>m0 fa0. domain_accounts m0 fa0 (bd_domain b) (mc_mem st) fa \<Longrightarrow>
       avail fa0 = avail fa' \<union> frame_no ` set (domain_tables (bd_domain b) (mc_mem st')) \<and>
       fa_free fa0 = fa_free fa' + length (domain_tables (bd_domain b) (mc_mem st'))"
    "case r of
       Inl e \<Rightarrow> domain_view (bd_domain b) (mc_mem st') = domain_view (bd_domain b) (mc_mem st)
     | Inr v \<Rightarrow> \<not> misaligned v \<and> BOUND_IOVA_BASE \<le> v \<and> v < iv_end (bd_iova b) \<and>
         domain_view (bd_domain b) (mc_mem st) (dma_page (bd_domain b) v) = None \<and>
         domain_view (bd_domain b) (mc_mem st') = (domain_view (bd_domain b) (mc_mem st))(dma_page (bd_domain b) v \<mapsto>
           encode_leaf (dm_fmt (bd_domain b)) (frame_page x) (IOMMU_READ OR IOMMU_WRITE))"
proof -
  let ?d = "bd_domain b"
  obtain fa where fa: "mc_fa st = Some fa" "block_ok W bi (mc_mem st) fa" using iommu_okE[OF assms(1)] b(1) by metis
  have D: "domain_ok ?d (mc_mem st) fa" "buffers_ok BOUND_IOVA_BASE ?d (bd_iova b) (mc_mem st)"
    using fa(2) b(2) by (simp_all add: block_ok_def)
  obtain r a m fa' new where M: "map_buffer ?d (bd_iova b) (frame_page x) (IOMMU_READ OR IOMMU_WRITE) (mc_mem st) fa = Some (r, a, m, fa')"
    "domain_ok ?d m fa'" "buffers_ok BOUND_IOVA_BASE ?d a m" "grows (dm_fmt ?d) (dm_levels ?d) (dm_root ?d) new (mc_mem st) fa m fa'"
    "case r of Inl e \<Rightarrow> domain_view ?d m = domain_view ?d (mc_mem st)
       | Inr v \<Rightarrow> \<not> misaligned v \<and> BOUND_IOVA_BASE \<le> v \<and> v < iv_end (bd_iova b) \<and> domain_view ?d (mc_mem st) (dma_page ?d v) = None \<and>
           domain_view ?d m = (domain_view ?d (mc_mem st))(dma_page ?d v \<mapsto> encode_leaf (dm_fmt ?d) (frame_page x) (IOMMU_READ OR IOMMU_WRITE))"
    using map_buffer_view[OF D mappable_rw frame_page_facts(1)[OF assms(2)]] by (fastforce split: sum.splits)
  let ?b = "b\<lparr>bd_iova := a\<rparr>" let ?bi = "bi\<lparr>bi_bound := Some (b\<lparr>bd_iova := a\<rparr>)\<rparr>"
  have G: "block_ok W ?bi m fa'" "domain_view (bi_domain bi) m = domain_view (bi_domain bi) (mc_mem st)"
    using bound_grows[OF fa(2) b(2) _ M(4,2), of ?b] M(3) by simp_all
  have acc: "domain_accounts m0 fa0 ?d (mc_mem st) fa \<Longrightarrow> domain_accounts m0 fa0 ?d m fa'" for m0 fa0
    by (rule accounts_grows[OF _ M(4)])
  define st1 where "st1 = st\<lparr>mc_mem := m, mc_fa := Some fa', mc_block := Some ?bi\<rparr>"
  have s1: "mc_fa st1 = Some fa'" "mc_block st1 = Some ?bi" "block_ok W ?bi (mc_mem st1) fa'" "mc_mem st1 = m"
    using G(1) by (simp_all add: st1_def)
  have hw: "hw_confined hw W (bi_backend ?bi)" using hwc by simp
  obtain be m2 h where I: "invalidate_unit hw st1 = st1\<lparr>mc_mem := m2, mc_hw := h, mc_block := Some (?bi\<lparr>bi_backend := be\<rparr>)\<rparr>"
    "block_ok W (?bi\<lparr>bi_backend := be\<rparr>) m2 fa'" "unit_frames be = unit_frames (bi_backend bi)"
    "domain_view (bi_domain bi) m2 = domain_view (bi_domain bi) m"
    "domain_view ?d m2 = domain_view ?d m" "domain_tables ?d m2 = domain_tables ?d m"
    using invalidate_unit_ok[OF s1(1,2,3) hw] unfolding s1(4) by auto
  define st2 where "st2 = (case r of Inl _ \<Rightarrow> st1 | Inr _ \<Rightarrow> if bi_enabled bi then invalidate_unit hw st1 else st1)"
  have ok2: "iommu_ok W st2"
    using iommu_okI[OF s1(1-3)] I(1,2) s1(1) by (auto simp: st2_def intro!: iommu_okI split: sum.split)
  obtain bi2 where B2: "mc_block st2 = Some bi2" "bi_bound bi2 = Some ?b" "bi_domain bi2 = bi_domain bi"
    "bi_enabled bi2 = bi_enabled bi" "unit_frames (bi_backend bi2) = unit_frames (bi_backend bi)" "mc_fa st2 = Some fa'"
    "domain_view (bi_domain bi) (mc_mem st2) = domain_view (bi_domain bi) m"
    "domain_view ?d (mc_mem st2) = domain_view ?d m" "domain_tables ?d (mc_mem st2) = domain_tables ?d m"
    using s1(1,2,4) I by (cases r; cases "bi_enabled bi") (auto simp: st2_def)
  have "\<exists>r'. bind_map_dma hw x st = Some (r', st2) \<and> (case r of Inl _ \<Rightarrow> \<exists>e. r' = Inl e | Inr v \<Rightarrow> r' = Inr v)"
    using b fa(1) M(1) by (cases r) (simp_all add: bind_map_dma_def Let_def st1_def st2_def)
  then obtain r' where r': "bind_map_dma hw x st = Some (r', st2)" "case r of Inl _ \<Rightarrow> \<exists>e. r' = Inl e | Inr v \<Rightarrow> r' = Inr v" by blast
  have res: "case r' of
             Inl e \<Rightarrow> domain_view ?d (mc_mem st2) = domain_view ?d (mc_mem st)
           | Inr v \<Rightarrow> \<not> misaligned v \<and> BOUND_IOVA_BASE \<le> v \<and> v < iv_end (bd_iova b) \<and>
               domain_view ?d (mc_mem st) (dma_page ?d v) = None \<and>
               domain_view ?d (mc_mem st2) = (domain_view ?d (mc_mem st))(dma_page ?d v \<mapsto>
                 encode_leaf (dm_fmt ?d) (frame_page x) (IOMMU_READ OR IOMMU_WRITE))"
    using M(5) r'(2) unfolding B2(8) by (cases r) auto
  have accs: "avail fa0 = avail fa' \<union> frame_no ` set (domain_tables ?d (mc_mem st2)) \<and>
      fa_free fa0 = fa_free fa' + length (domain_tables ?d (mc_mem st2))"
    if "domain_accounts m0 fa0 ?d (mc_mem st) fa" for m0 fa0
    using acc[OF that] unfolding B2(9) domain_accounts_def by blast
  have bv: "domain_view (bi_domain bi) (mc_mem st2) = domain_view (bi_domain bi) (mc_mem st)" using B2(7) G(2) by simp
  show ?thesis
    by (rule that[OF r'(1) ok2 B2(1,2) _ B2(3) _ B2(4,5) fa(1) B2(6) bv accs res]) simp_all
qed

lemma bind_map_dma_ok:
  assumes "iommu_ok W st" "unat x < 2 ^ 52" "\<forall>bi. mc_block st = Some bi \<longrightarrow> hw_confined hw W (bi_backend bi)"
  shows "\<exists>r st'. bind_map_dma hw x st = Some (r, st') \<and> iommu_ok W st'"
proof (cases "\<exists>bi b. mc_block st = Some bi \<and> bi_bound bi = Some b")
  case False
  then show ?thesis using assms(1) by (cases "mc_block st") (auto simp: bind_map_dma_def split: option.splits)
next
  case True
  then show ?thesis using bind_map_dma_bound[OF assms(1,2)] assms(3) by metis
qed

section \<open>What a device can reach\<close>

text \<open>
  The unit's view of a device, as the vendors document it: the page-table root and depth in its
  context entry or device table entry, when that entry is present; its DMA goes through that tree.
\<close>

definition device_entry :: "backend \<Rightarrow> location \<Rightarrow> mem \<Rightarrow> (u64 \<times> nat) option" where
  "device_entry b loc m =
     (let n = devfn (lo_slot loc) (lo_func loc) in
      case b of
        BVtd v \<Rightarrow>
          let lo = table_entry m (tt_ctx (vu_tables v)) (2 * n); hi = table_entry m (tt_ctx (vu_tables v)) (2 * n + 1) in
          if lo AND VT_PRESENT = 0 then None else Some (lo AND SL_ADDR_MASK, unat (hi AND 0x7) + 2)
      | BAmd u \<Rightarrow>
          if AMD_DEVTAB_ENTRIES \<le> n then None
          else let d0 = table_entry m (au_devtab u) (4 * n) in
               if d0 AND AMD_DTE_V = 0 \<or> d0 AND AMD_DTE_TV = 0 then None
               else Some (d0 AND SL_ADDR_MASK, unat (drop_bit AMD_DTE_MODE_SHIFT d0 AND 0x7)))"

definition device_dma :: "backend \<Rightarrow> location \<Rightarrow> u64 \<Rightarrow> mem \<Rightarrow> u64 option" where
  "device_dma b loc v m =
     Option.bind (device_entry b loc m) (\<lambda>(root, levels). translate_walk (backend_fmt b) levels v levels root m)"

definition device_table :: "backend \<Rightarrow> u64" where
  "device_table b = (case b of BVtd v \<Rightarrow> tt_ctx (vu_tables v) | BAmd u \<Rightarrow> au_devtab u)"

text \<open>AMD-Vi's device table has one frame: devices beyond it get no entry.\<close>

definition covered :: "backend \<Rightarrow> location \<Rightarrow> bool" where
  "covered b loc \<longleftrightarrow> (case b of BVtd _ \<Rightarrow> True | BAmd _ \<Rightarrow> devfn (lo_slot loc) (lo_func loc) < AMD_DEVTAB_ENTRIES)"

lemma device_entry_cong:
  assumes "device_table b' = device_table b" "backend_fmt b' = backend_fmt b"
    "\<And>i. i < 512 \<Longrightarrow> table_entry m' (device_table b) i = table_entry m (device_table b) i"
  shows "device_entry b' loc m' = device_entry b loc m"
  using assms devfn_less[of "lo_slot loc" "lo_func loc"]
  by (cases b; cases b') (auto simp: device_entry_def device_table_def backend_fmt_def AMD_DEVTAB_ENTRIES_def Let_def)

lemma device_table_frame: "device_table b \<in> set (unit_frames b)"
  by (cases b) (simp_all add: device_table_def unit_frames_def)

lemma unit_frames_eq: "unit_frames b' = unit_frames b \<Longrightarrow> device_table b' = device_table b \<and> backend_fmt b' = backend_fmt b"
  by (cases b; cases b') (simp_all add: device_table_def unit_frames_def backend_fmt_def)

lemma entry_root:
  assumes "addressable r"
  shows "((r AND SL_ADDR_MASK) OR CTX_TT_SECOND_LEVEL OR VT_PRESENT) AND SL_ADDR_MASK = r"
    "((r AND SL_ADDR_MASK) OR CTX_TT_SECOND_LEVEL OR VT_PRESENT) AND VT_PRESENT \<noteq> 0"
proof -
  have v: "VT_PRESENT = AMD_PR" by (simp add: VT_PRESENT_def AMD_PR_def)
  have c: "CTX_TT_SECOND_LEVEL = 0" by (simp add: CTX_TT_SECOND_LEVEL_def)
  show "((r AND SL_ADDR_MASK) OR CTX_TT_SECOND_LEVEL OR VT_PRESENT) AND SL_ADDR_MASK = r"
    unfolding v c using assms by (simp add: masked_or masked_flags masked_addr)
  show "((r AND SL_ADDR_MASK) OR CTX_TT_SECOND_LEVEL OR VT_PRESENT) AND VT_PRESENT \<noteq> 0"
    unfolding v c present_bits(2) by (simp add: bit_or_iff AMD_PR_def)
qed

lemma entry_levels:
  assumes "l \<in> {3..5}"
  shows "unat ((of_nat (l - 2) AND 0x7 OR push_bit 8 w) AND 0x7 :: u64) + 2 = l"
proof -
  have "(push_bit 8 w :: u64) AND 0x7 = 0"
  proof -
    have c: "(0x7 :: u64) = mask 3" by (simp add: mask_eq_exp_minus_1)
    show ?thesis unfolding c take_bit_eq_mask[symmetric] by (simp add: take_bit_push_bit)
  qed
  then have "(of_nat (l - 2) AND 0x7 OR push_bit 8 w) AND 0x7 = (of_nat (l - 2) AND 0x7 :: u64)"
    by (simp add: bit.conj_disj_distrib2 and.assoc)
  moreover have "l = 3 \<or> l = 4 \<or> l = 5" using assms by auto
  ultimately show ?thesis by auto
qed

text \<open>An AMD-Vi entry: the fields do not overlap.\<close>

definition dte_word :: "u64 \<Rightarrow> nat \<Rightarrow> u64" where
  "dte_word r l = AMD_DTE_V OR AMD_DTE_TV OR push_bit AMD_DTE_MODE_SHIFT (of_nat l AND 0x7) OR
     (r AND SL_ADDR_MASK) OR AMD_DTE_IR OR AMD_DTE_IW"

lemmas dte_consts = AMD_DTE_V_def AMD_DTE_TV_def AMD_DTE_MODE_SHIFT_def AMD_DTE_IR_def AMD_DTE_IW_def

lemma dte_fields:
  assumes r: "addressable r" and l: "l \<in> {3..5}"
  shows "dte_word r l AND SL_ADDR_MASK = r" "dte_word r l AND AMD_DTE_V \<noteq> 0" "dte_word r l AND AMD_DTE_TV \<noteq> 0"
    "unat (drop_bit AMD_DTE_MODE_SHIFT (dte_word r l) AND 0x7) = l"
proof -
  have sh: "AMD_DTE_V = shl1 0" "AMD_DTE_TV = shl1 1" "AMD_DTE_IR = shl1 61" "AMD_DTE_IW = shl1 62"
    by (simp_all add: dte_consts shl1_def)
  have c: "(0x7 :: u64) = mask 3" by (simp add: mask_eq_exp_minus_1)
  have rm: "r AND SL_ADDR_MASK = r" by (rule masked_addr[OF r])
  show "dte_word r l AND AMD_DTE_V \<noteq> 0" "dte_word r l AND AMD_DTE_TV \<noteq> 0"
    by (simp_all add: and_shl1_eq_0 dte_word_def sh bit_or_iff bit_shl1) (simp_all add: shl1_def)?
  have "AMD_DTE_V AND SL_ADDR_MASK = 0" "AMD_DTE_TV AND SL_ADDR_MASK = 0" "AMD_DTE_IR AND SL_ADDR_MASK = 0"
    "AMD_DTE_IW AND SL_ADDR_MASK = 0" by (simp_all add: dte_consts SL_ADDR_MASK_def)
  moreover have "push_bit AMD_DTE_MODE_SHIFT (of_nat l AND 0x7) AND SL_ADDR_MASK = 0"
    using masked_flags(6)[of "of_nat l"] by (simp add: AMD_DTE_MODE_SHIFT_def AMD_NL_SHIFT_def)
  ultimately show "dte_word r l AND SL_ADDR_MASK = r" by (simp add: dte_word_def masked_or rm del: push_bit_and)
  have rb: "\<not> bit r k" if "k < 12" for k using addr_bits[OF r, of k] that by auto
  have "drop_bit 9 (dte_word r l) AND 0x7 = (of_nat l AND 0x7 :: u64)"
    unfolding c
    by (rule bit_word_eqI)
      (auto simp: bit_and_iff bit_mask_iff bit_drop_bit_eq dte_word_def rm bit_or_iff bit_push_bit_iff sh bit_shl1
        AMD_DTE_MODE_SHIFT_def c rb)
  moreover have "l = 3 \<or> l = 4 \<or> l = 5" using l by auto
  then have "unat (of_nat l AND 0x7 :: u64) = l" by auto
  ultimately show "unat (drop_bit AMD_DTE_MODE_SHIFT (dte_word r l) AND 0x7) = l" by (simp add: AMD_DTE_MODE_SHIFT_def)
qed

lemma attach_entry:
  assumes ok: "backend_ok b" and r: "addressable r" and l: "l \<in> {3..5}"
  shows "covered b loc \<Longrightarrow> device_entry b loc (attach_device b loc r l did m) = Some (r, l)"
    and "devfn (lo_slot oth) (lo_func oth) \<noteq> devfn (lo_slot loc) (lo_func loc) \<Longrightarrow>
      device_entry b oth (attach_device b loc r l did m) = device_entry b oth m"
    and "device_entry b loc (detach_device b loc m) = None"
    and "devfn (lo_slot oth) (lo_func oth) \<noteq> devfn (lo_slot loc) (lo_func loc) \<Longrightarrow>
      device_entry b oth (detach_device b loc m) = device_entry b oth m"
proof -
  define n k where "n = devfn (lo_slot loc) (lo_func loc)" and "k = devfn (lo_slot oth) (lo_func oth)"
  have n: "n < 256" "k < 256" by (simp_all add: n_def k_def devfn_less)
  have all: "(covered b loc \<longrightarrow> device_entry b loc (attach_device b loc r l did m) = Some (r, l)) \<and>
    (k \<noteq> n \<longrightarrow> device_entry b oth (attach_device b loc r l did m) = device_entry b oth m) \<and>
    device_entry b loc (detach_device b loc m) = None \<and>
    (k \<noteq> n \<longrightarrow> device_entry b oth (detach_device b loc m) = device_entry b oth m)"
  proof (cases b)
    case (BVtd v)
    let ?t = "tt_ctx (vu_tables v)"
    have t: "\<not> misaligned ?t" using ok BVtd by (simp add: backend_ok_def unit_frames_def)
    have w: "table_entry (write64 (write64 m (entry_addr ?t (2 * n)) x) (entry_addr ?t (2 * n + 1)) y) ?t j =
        (if j = 2 * n + 1 then y else if j = 2 * n then x else table_entry m ?t j)" if "j < 512" for j x y
      using write_differs(2,3)[OF t] that n(1) by (cases "j = 2 * n + 1"; cases "j = 2 * n") simp_all
    have k: "2 * k < 512" "2 * k + 1 < 512" "2 * n < 512" "2 * n + 1 < 512" using n by simp_all
    have kn: "2 * k \<noteq> 2 * n + 1" "2 * k + 1 \<noteq> 2 * n" "2 * n \<noteq> 2 * n + 1" by arith+
    show ?thesis
      using w k kn entry_root[OF r] entry_levels[OF l]
      by (simp add: BVtd device_entry_def attach_device_def detach_device_def set_context_def clear_context_def Let_def
          n_def[symmetric] k_def[symmetric])
  next
    case (BAmd u)
    let ?t = "au_devtab u"
    have t: "\<not> misaligned ?t" using ok BAmd by (simp add: backend_ok_def unit_frames_def)
    have w: "table_entry (write64 (write64 (write64 (write64 m (entry_addr ?t (4 * n)) x) (entry_addr ?t (4 * n + 1)) y)
          (entry_addr ?t (4 * n + 2)) z) (entry_addr ?t (4 * n + 3)) z') ?t j =
        (if j = 4 * n + 3 then z' else if j = 4 * n + 2 then z else if j = 4 * n + 1 then y else if j = 4 * n then x
         else table_entry m ?t j)" if "j < 512" "n < 128" for j x y z z'
      using write_differs(2,3)[OF t] that
      by (cases "j = 4 * n + 3"; cases "j = 4 * n + 2"; cases "j = 4 * n + 1"; cases "j = 4 * n") simp_all
    have kn: "4 * k \<noteq> 4 * n + 3" "4 * k \<noteq> 4 * n + 2" "4 * k \<noteq> 4 * n + 1" "4 * n \<noteq> 4 * n + 3" "4 * n \<noteq> 4 * n + 2"
      "4 * n \<noteq> 4 * n + 1" by arith+
    have r4: "[0..<4] = [0, 1, 2, 3 :: nat]" by (simp add: upt_rec)
    have wn: "table_entry (write64 (write64 (write64 (write64 m (entry_addr ?t (4 * n)) x) (entry_addr ?t (4 * n + 1)) y)
          (entry_addr ?t (4 * n + 2)) z) (entry_addr ?t (4 * n + 3)) z') ?t (4 * n) = x" if "n < 128" for x y z z'
      using w[of "4 * n", OF _ that] that kn by simp
    have wk: "table_entry (write64 (write64 (write64 (write64 m (entry_addr ?t (4 * n)) x) (entry_addr ?t (4 * n + 1)) y)
          (entry_addr ?t (4 * n + 2)) z) (entry_addr ?t (4 * n + 3)) z') ?t (4 * k) = table_entry m ?t (4 * k)"
      if "n < 128" "k < 128" "k \<noteq> n" for x y z z'
      using w[of "4 * k", OF _ that(1)] that kn by simp
    have a: "attach_device b loc r l did m = (if 128 \<le> n then m else write64 (write64 (write64 (write64 m
        (entry_addr ?t (4 * n)) (dte_word r l)) (entry_addr ?t (4 * n + 1)) (ucast did)) (entry_addr ?t (4 * n + 2)) 0)
        (entry_addr ?t (4 * n + 3)) 0)"
      by (simp add: BAmd attach_device_def amd_set_device_def Let_def n_def[symmetric] AMD_DEVTAB_ENTRIES_def dte_word_def)
    have d: "detach_device b loc m = (if 128 \<le> n then m else write64 (write64 (write64 (write64 m
        (entry_addr ?t (4 * n)) 0) (entry_addr ?t (4 * n + 1)) 0) (entry_addr ?t (4 * n + 2)) 0)
        (entry_addr ?t (4 * n + 3)) 0)"
      by (simp add: BAmd detach_device_def amd_clear_device_def Let_def n_def[symmetric] AMD_DEVTAB_ENTRIES_def r4)
    show ?thesis
      unfolding a d using wn wk dte_fields[OF r l]
      by (cases "k = n"; cases "n < 128"; cases "k < 128")
        (simp_all add: BAmd device_entry_def covered_def Let_def n_def[symmetric] k_def[symmetric] AMD_DEVTAB_ENTRIES_def
          del: One_nat_def)
  qed
  then show "covered b loc \<Longrightarrow> device_entry b loc (attach_device b loc r l did m) = Some (r, l)"
    "devfn (lo_slot oth) (lo_func oth) \<noteq> devfn (lo_slot loc) (lo_func loc) \<Longrightarrow>
      device_entry b oth (attach_device b loc r l did m) = device_entry b oth m"
    "device_entry b loc (detach_device b loc m) = None"
    "devfn (lo_slot oth) (lo_func oth) \<noteq> devfn (lo_slot loc) (lo_func loc) \<Longrightarrow>
      device_entry b oth (detach_device b loc m) = device_entry b oth m"
    by (simp_all add: n_def k_def)
qed

end
