(* ===== verification/Iommu_Binding.thy ===== *)
theory Iommu_Binding
  imports Iommu
begin

text \<open>
  Direct binding of a device and the shared block domain, \<open>kernel/src/iommu.rs\<close>: what a device can
  reach once it is bound, the life of a binding, and the invariant of every run of the driver.
\<close>

section \<open>Binding a device\<close>

lemma bound_window: "\<exists>a. iova_new BOUND_IOVA_BASE BOUND_IOVA_PAGES = Some a \<and> iova_ok BOUND_IOVA_BASE {} a \<and>
    unat (iv_end a) = 0x40100000"
proof -
  have "\<exists>a. iova_new BOUND_IOVA_BASE BOUND_IOVA_PAGES = Some a"
    by (simp add: iova_new_def BOUND_IOVA_BASE_def misaligned_def PAGE_SHIFT_def)
  then obtain a where a: "iova_new BOUND_IOVA_BASE BOUND_IOVA_PAGES = Some a" by blast
  have "unat BOUND_IOVA_BASE + BOUND_IOVA_PAGES * 4096 < 2 ^ 64" by (simp add: BOUND_IOVA_BASE_def BOUND_IOVA_PAGES_def)
  then show ?thesis using iova_new_ok[OF a] a by (simp add: BOUND_IOVA_BASE_def BOUND_IOVA_PAGES_def)
qed

lemma domain_new_levels:
  "domain_new m fa w f = Inr (d, m', fa') \<Longrightarrow> domain_levels w = Some (dm_levels d)"
  by (auto simp: domain_new_def split: option.splits sum.splits)

text \<open>A fresh domain beside the shared one.\<close>

lemma bind_new_ok:
  assumes B: "block_ok W bi m fa" and bd: "bi_bound bi = None"
    and new: "domain_new m fa (bi_width bi) (backend_fmt (bi_backend bi)) = Inr (d, m1, fa1)"
    and a: "iova_new BOUND_IOVA_BASE BOUND_IOVA_PAGES = Some a"
  shows "block_ok W (bi\<lparr>bi_bound := Some \<lparr>bd_domain = d, bd_iova = a, bd_loc = loc\<rparr>\<rparr>) m1 fa1"
    "domain_view (bi_domain bi) m1 = domain_view (bi_domain bi) m" "dm_levels d = bi_levels bi"
proof -
  have fa: "fa_ok fa" "0 \<notin> avail fa" using B by (auto simp: block_ok_def)
  note N = domain_new_ok[OF fa new]
  show lv: "dm_levels d = bi_levels bi" using domain_new_levels[OF new] B by (simp add: block_ok_def)
  have D: "domain_ok (bi_domain bi) m fa" using B by (simp add: block_ok_def)
  have fresh: "dm_root d \<notin> set (owned bi m)" using B N(5) by (auto simp: block_ok_def taken_def)
  have t: "taken fa1 u" if "u \<in> set (owned bi m)" for u
    using that B N(6,10) by (auto simp: block_ok_def taken_def)
  have ok1: "fa_ok fa1" using N(1) by (simp add: domain_ok_def)
  have s: "{dm_root d} \<inter> set (domain_tables (bi_domain bi) m) = {}" "\<forall>u \<in> set (domain_tables (bi_domain bi) m). taken fa1 u"
    using fresh t by (auto simp: owned_def)
  note S = domain_elsewhere[OF D N(9) s(1) ok1 s(2)]
  show "domain_view (bi_domain bi) m1 = domain_view (bi_domain bi) m" by (rule S(3))
  obtain a' where a': "iova_new BOUND_IOVA_BASE BOUND_IOVA_PAGES = Some a'" "iova_ok BOUND_IOVA_BASE {} a'"
    "unat (iv_end a') = 0x40100000" using bound_window by blast
  have "iova_live BOUND_IOVA_BASE d a m1 = {}" by (simp add: iova_live_def N(2))
  then have Bf: "buffers_ok BOUND_IOVA_BASE d a m1"
    using a' a N(1,2) by (simp add: buffers_ok_def domain_ok_def)
  let ?bi = "bi\<lparr>bi_bound := Some \<lparr>bd_domain = d, bd_iova = a, bd_loc = loc\<rparr>\<rparr>"
  have o: "owned ?bi m1 = owned bi m @ [dm_root d]"
    using N(3) S(2) by (simp add: owned_def bound_tables_def bd)
  have rt: "taken fa1 (dm_root d)"
    using N(1,3) by (auto simp: domain_ok_def tree_ok_def domain_tables_def)
  have "frame_no (dm_root d) \<notin> W" using B N(5) by (auto simp: block_ok_def)
  then show "block_ok W ?bi m1 fa1"
    using B N(1,4,6) S(1) identity_cong[OF S(3)] Bf fresh rt t ok1 lv unfolding block_ok_def o by auto
qed

text \<open>
  The state right after a successful binding: the fixed frames mapped in a fresh domain whose tables
  are the frames taken, and the device's entry written.
\<close>

definition freshly_bound ::
    "block_iommu \<Rightarrow> location \<Rightarrow> u64 list \<Rightarrow> u64 list \<Rightarrow> domain \<Rightarrow> mem \<Rightarrow> frame_alloc \<Rightarrow> mem \<Rightarrow> frame_alloc \<Rightarrow> bool" where
  "freshly_bound bi loc fixed iovas d m fa m' fa' \<longleftrightarrow>
     dm_levels d = bi_levels bi \<and> dm_fmt d = backend_fmt (bi_backend bi) \<and> addressable (dm_root d) \<and>
     (\<exists>m0. domain_view d m0 = Map.empty \<and> fixed_mapped d fixed iovas m0 m') \<and>
     avail fa = avail fa' \<union> frame_no ` set (domain_tables d m') \<and>
     fa_free fa = fa_free fa' + length (domain_tables d m') \<and>
     (\<exists>m2. m' = attach_device (bi_backend bi) loc (dm_root d) (bi_levels bi) BOUND_DID m2 \<and>
       (\<forall>i < 512. table_entry m2 (device_table (bi_backend bi)) i = table_entry m (device_table (bi_backend bi)) i))"

lemma bind_prepare_spec:
  assumes ok: "iommu_ok W st" and bi: "mc_block st = Some bi" "bi_bound bi = None"
    and fixed: "length fixed = 4" "\<forall>x \<in> set fixed. unat x < 2 ^ 52"
  obtains r st' fa fa' where "bind_prepare loc fixed st = Some (r, st')" "iommu_ok W st'"
    "mc_fa st = Some fa" "mc_fa st' = Some fa'" "mc_hw st' = mc_hw st"
    "domain_view (bi_domain bi) (mc_mem st') = domain_view (bi_domain bi) (mc_mem st)"
    "case r of
       Inl e \<Rightarrow> mc_block st' = mc_block st \<and>
         (e = ''bound domain alloc failed'' \<and> st' = st \<and> avail fa = {} \<or>
          e = ''mapping a bound fixed frame failed'' \<and> avail fa' \<subset> avail fa)
     | Inr iovas \<Rightarrow> \<exists>d a'. mc_block st' = Some (bi\<lparr>bi_bound := Some \<lparr>bd_domain = d, bd_iova = a', bd_loc = loc\<rparr>\<rparr>) \<and>
         freshly_bound bi loc fixed iovas d (mc_mem st) fa (mc_mem st') fa'"
proof -
  obtain fa where fa: "mc_fa st = Some fa" "fa_ok fa" "0 \<notin> avail fa" "block_ok W bi (mc_mem st) fa"
    using iommu_okE[OF ok] bi(1) by metis
  let ?m = "mc_mem st"
  show ?thesis
  proof (cases "domain_new ?m fa (bi_width bi) (backend_fmt (bi_backend bi))")
    case (Inl e)
    then have "bind_prepare loc fixed st = Some (Inl ''bound domain alloc failed'', st)"
      using bi fa(1) fixed(1) by (simp add: bind_prepare_def)
    moreover have "avail fa = {}"
      using Inl fa(4) alloc_table_Inl(2)[OF fa(2), of ?m]
      by (auto simp: domain_new_def block_ok_def split: sum.splits)
    ultimately show ?thesis using that[of "Inl ''bound domain alloc failed''" st fa fa] ok fa(1) by simp
  next
    case (Inr y)
    obtain d m1 fa1 where new: "domain_new ?m fa (bi_width bi) (backend_fmt (bi_backend bi)) = Inr (d, m1, fa1)"
      using Inr by (metis prod_cases3)
    obtain a where a: "iova_new BOUND_IOVA_BASE BOUND_IOVA_PAGES = Some a" using bound_window by blast
    note N = domain_new_ok[OF fa(2,3) new] and B1 = bind_new_ok[OF fa(4) bi(2) new a]
    have acc: "domain_accounts ?m fa d m1 fa1" by (rule new_accounts[OF fa(2,3) new])
    obtain r a' m2 fa2 where F: "bind_fixed d a fixed m1 fa1 = Some (r, a', m2, fa2)"
      "block_ok W (bi\<lparr>bi_bound := Some \<lparr>bd_domain = d, bd_iova = a', bd_loc = loc\<rparr>\<rparr>) m2 fa2" "avail fa2 \<subseteq> avail fa1"
      "domain_view (bi_domain bi) m2 = domain_view (bi_domain bi) m1" "domain_accounts ?m fa d m2 fa2"
      "case r of Inl e \<Rightarrow> e = ''mapping a bound fixed frame failed'' | Inr iovas \<Rightarrow> fixed_mapped d fixed iovas m1 m2"
      using bind_fixed_ok[OF B1(1)[of loc] fixed(2), of ?m fa] acc by blast
    show ?thesis
    proof (cases r)
      case (Inl e)
      let ?st = "st\<lparr>mc_mem := m2, mc_fa := Some fa2\<rparr>"
      have "bi\<lparr>bi_bound := None\<rparr> = bi" using bi(2) by (cases bi) simp
      then have "block_ok W bi m2 fa2" using block_ok_unbound[OF F(2)] by simp
      then have "iommu_ok W ?st" using bi(1) by (intro iommu_okI[of _ fa2 bi]) simp_all
      moreover have "bind_prepare loc fixed st = Some (Inl e, ?st)"
        using bi fa(1) fixed(1) new a F(1) Inl by (simp add: bind_prepare_def)
      moreover have "avail fa2 \<subset> avail fa" using F(3) N(5,6) by auto
      ultimately show ?thesis using that[of "Inl e" ?st fa fa2] fa(1) F(4,6) B1(2) Inl by simp
    next
      case (Inr iovas)
      let ?bi = "bi\<lparr>bi_bound := Some \<lparr>bd_domain = d, bd_iova = a', bd_loc = loc\<rparr>\<rparr>"
      let ?m3 = "attach_device (bi_backend bi) loc (dm_root d) (bi_levels bi) BOUND_DID m2"
      let ?st = "st\<lparr>mc_mem := ?m3, mc_fa := Some fa2, mc_block := Some ?bi\<rparr>"
      have e: "?m3 = attach_device (bi_backend ?bi) loc (dm_root d) (bi_levels bi) BOUND_DID m2 \<or>
          ?m3 = detach_device (bi_backend ?bi) loc m2" by simp
      note A = attach_ok[OF F(2) e]
      have ok': "iommu_ok W ?st" using A(1) by (intro iommu_okI[of _ fa2 ?bi]) simp_all
      have res: "bind_prepare loc fixed st = Some (Inr iovas, ?st)"
        using bi fa(1) fixed(1) new a F(1) Inr by (simp add: bind_prepare_def)
      have v: "domain_view d ?m3 = domain_view d m2" "domain_tables d ?m3 = domain_tables d m2"
        "domain_view (bi_domain bi) ?m3 = domain_view (bi_domain bi) ?m"
        using A(2-4) F(4) B1(2) by simp_all
      have fm: "fixed_mapped d fixed iovas m1 ?m3" using F(6) Inr v(1) by (simp add: fixed_mapped_def)
      have fr: "avail fa = avail fa2 \<union> frame_no ` set (domain_tables d ?m3)"
        "fa_free fa = fa_free fa2 + length (domain_tables d ?m3)"
        using F(5) unfolding v(2) domain_accounts_def by blast+
      have dt: "table_entry m2 (device_table (bi_backend bi)) i = table_entry ?m (device_table (bi_backend bi)) i" if "i < 512" for i
      proof -
        have "taken fa (device_table (bi_backend bi))" "backend_ok (bi_backend bi)"
          using fa(4) device_table_frame by (auto simp: block_ok_def owned_def)
        then have "\<not> misaligned (device_table (bi_backend bi))" "frame_no (device_table (bi_backend bi)) \<notin> avail fa"
          by (simp_all add: taken_def addressable_def)
        then show ?thesis using F(5) that by (simp add: domain_accounts_def differs_in_def)
      qed
      have "freshly_bound bi loc fixed iovas d ?m fa ?m3 fa2"
        unfolding freshly_bound_def using B1(3) N(2,4,8) fm fr dt by blast
      then have "\<exists>d' a''. mc_block ?st = Some (bi\<lparr>bi_bound := Some \<lparr>bd_domain = d', bd_iova = a'', bd_loc = loc\<rparr>\<rparr>) \<and>
          freshly_bound bi loc fixed iovas d' ?m fa (mc_mem ?st) fa2"
        by (intro exI[of _ d] exI[of _ a']) simp
      then show ?thesis
        by (intro that[OF res ok' fa(1)]) (simp_all add: v(3))
    qed
  qed
qed

section \<open>Tearing a binding down\<close>

lemma domain_tables_nonempty: "domain_tables d m \<noteq> []"
  using root_in_tables[of "dm_root d"] unfolding domain_tables_def by (metis empty_iff empty_set)

lemma block_ok_freed:
  assumes B: "block_ok W bi m fa" and b: "bi_bound bi = Some b"
  shows "block_ok W (bi\<lparr>bi_bound := None\<rparr>) m (snd (domain_teardown (bd_domain b) m fa))"
proof -
  let ?d = "bd_domain b" let ?fa = "snd (domain_teardown (bd_domain b) m fa)" let ?bi = "bi\<lparr>bi_bound := None\<rparr>"
  have D: "domain_ok ?d m fa" using B b by (simp add: block_ok_def)
  note T = teardown_frames[OF D]
  have o: "owned bi m = owned ?bi m @ domain_tables ?d m" by (simp add: owned_def bound_tables_def b)
  have ad: "addressable u" if "u \<in> set (owned bi m)" for u using B that by (auto simp: block_ok_def taken_def)
  have dist: "distinct (owned ?bi m @ domain_tables ?d m)" using B unfolding o[symmetric] by (simp add: block_ok_def)
  have t: "taken ?fa u" if "u \<in> set (owned ?bi m)" for u
  proof -
    have "frame_no u \<notin> frame_no ` set (domain_tables ?d m)"
      using that dist ad frame_no_inj unfolding o by auto
    then show ?thesis using that B T(2,5) unfolding block_ok_def o by (auto simp: taken_def)
  qed
  have f: "fa_ok ?fa" using B T(4,5) by (simp add: block_ok_def fa_ok_def)
  have D0: "domain_ok (bi_domain bi) m fa" using B by (simp add: block_ok_def)
  have D1: "domain_ok (bi_domain bi) m ?fa"
    using D0 f t by (auto simp: domain_ok_def tree_ok_def owned_def domain_tables_def)
  have "frame_no u \<notin> W" if "u \<in> set (domain_tables ?d m)" for u using B that unfolding block_ok_def o by simp
  then have "avail ?fa \<inter> W = {}" using B T(2) by (auto simp: block_ok_def)
  then show ?thesis
    using B f D1 t dist unfolding block_ok_def o by (simp add: o)
qed

lemma bind_teardown_spec:
  assumes ok: "iommu_ok W st" and b: "mc_block st = Some bi" "bi_bound bi = Some b"
    and hw: "hw_confined hw W (bi_backend bi)"
  obtains bi' fa fa' where "iommu_ok W (bind_teardown hw st)" "mc_block (bind_teardown hw st) = Some bi'"
    "bi_bound bi' = None" "bi_domain bi' = bi_domain bi" "unit_frames (bi_backend bi') = unit_frames (bi_backend bi)"
    "mc_fa st = Some fa" "mc_fa (bind_teardown hw st) = Some fa'"
    "avail fa' = avail fa \<union> frame_no ` set (domain_tables (bd_domain b) (mc_mem st))"
    "fa_free fa' = fa_free fa + length (domain_tables (bd_domain b) (mc_mem st))"
    "domain_view (bi_domain bi) (mc_mem (bind_teardown hw st)) = domain_view (bi_domain bi) (mc_mem st)"
    "device_entry (bi_backend bi') (bd_loc b) (mc_mem (bind_teardown hw st)) = None"
    "\<And>oth. devfn (lo_slot oth) (lo_func oth) \<noteq> devfn (lo_slot (bd_loc b)) (lo_func (bd_loc b)) \<Longrightarrow>
       device_entry (bi_backend bi') oth (mc_mem (bind_teardown hw st)) = device_entry (bi_backend bi) oth (mc_mem st)"
proof -
  let ?d = "bd_domain b" let ?be = "bi_backend bi"
  obtain fa where fa: "mc_fa st = Some fa" "block_ok W bi (mc_mem st) fa" using iommu_okE[OF ok] b(1) by metis
  define m where "m = detach_device ?be (bd_loc b) (mc_mem st)"
  have md: "m = attach_device ?be (bd_loc b) 0 0 0 (mc_mem st) \<or> m = detach_device ?be (bd_loc b) (mc_mem st)" by (simp add: m_def)
  note A = attach_ok[OF fa(2) md]
  define fa1 where "fa1 = snd (domain_teardown ?d m fa)"
  have D: "domain_ok ?d m fa" using A(1) b(2) by (simp add: block_ok_def)
  note T = teardown_frames[OF D, folded fa1_def, unfolded A(4)[OF b(2)]]
  define st1 where "st1 = st\<lparr>mc_mem := m, mc_fa := Some fa1, mc_block := Some (bi\<lparr>bi_bound := None\<rparr>)\<rparr>"
  have s1: "mc_fa st1 = Some fa1" "mc_block st1 = Some (bi\<lparr>bi_bound := None\<rparr>)"
    "block_ok W (bi\<lparr>bi_bound := None\<rparr>) (mc_mem st1) fa1"
    using block_ok_freed[OF A(1) b(2)] by (simp_all add: st1_def fa1_def)
  have td: "bind_teardown hw st = (if bi_enabled bi then invalidate_unit hw st1 else st1)"
    using b fa(1) by (simp add: bind_teardown_def Let_def st1_def m_def[symmetric] fa1_def)
  have bok: "backend_ok ?be" using fa(2) by (simp add: block_ok_def)
  have ad0: "addressable 0" by (simp add: addressable_def misaligned_def)
  have l3: "3 \<in> {3..(5 :: nat)}" by simp
  note E = attach_entry(3,4)[OF bok ad0 l3]
  have e0: "device_entry ?be (bd_loc b) m = None" unfolding m_def by (rule E(1))
  have e1: "device_entry ?be oth m = device_entry ?be oth (mc_mem st)"
    if "devfn (lo_slot oth) (lo_func oth) \<noteq> devfn (lo_slot (bd_loc b)) (lo_func (bd_loc b))" for oth
    unfolding m_def by (rule E(2)[OF that])
  have hw': "hw_confined hw W (bi_backend (bi\<lparr>bi_bound := None\<rparr>))" using hw by simp
  obtain be m2 h where I: "invalidate_unit hw st1 = st1\<lparr>mc_mem := m2, mc_hw := h, mc_block := Some (bi\<lparr>bi_bound := None, bi_backend := be\<rparr>)\<rparr>"
    "block_ok W (bi\<lparr>bi_bound := None, bi_backend := be\<rparr>) m2 fa1" "unit_frames be = unit_frames ?be"
    "differs_in ({u. frame_no u \<in> W} \<union> set (unit_written ?be)) m m2"
    "domain_view (bi_domain bi) m2 = domain_view (bi_domain bi) m"
    using invalidate_unit_ok[OF s1 hw'] by (auto simp: st1_def)
  have dt: "device_table ?be \<notin> {u. frame_no u \<in> W} \<union> set (unit_written ?be)" "\<not> misaligned (device_table ?be)"
  proof -
    have "device_table ?be \<in> set (owned bi (mc_mem st))" using device_table_frame by (simp add: owned_def)
    then have "frame_no (device_table ?be) \<notin> W" "\<not> misaligned (device_table ?be)"
      using fa(2) by (auto simp: block_ok_def taken_def addressable_def)
    moreover have "device_table ?be \<notin> set (unit_written ?be)"
      using fa(2) by (cases ?be) (auto simp: block_ok_def owned_def unit_frames_def unit_written_def device_table_def)
    ultimately show "device_table ?be \<notin> {u. frame_no u \<in> W} \<union> set (unit_written ?be)" "\<not> misaligned (device_table ?be)" by simp_all
  qed
  have ent: "device_entry be oth m2 = device_entry ?be oth m" for oth
    using unit_frames_eq[OF I(3)] differs_inD[OF I(4) dt(2) _ dt(1)] by (intro device_entry_cong) auto
  define be' where "be' = (if bi_enabled bi then be else ?be)"
  define bi' where "bi' = bi\<lparr>bi_bound := None, bi_backend := be'\<rparr>"
  have r: "mc_block (bind_teardown hw st) = Some bi'" "mc_fa (bind_teardown hw st) = Some fa1"
    "mc_mem (bind_teardown hw st) = (if bi_enabled bi then m2 else m)" "block_ok W bi' (mc_mem (bind_teardown hw st)) fa1"
    using I(1,2) s1(3) by (simp_all add: td bi'_def be'_def st1_def)
  show ?thesis
  proof (rule that[of bi' fa fa1])
    show "iommu_ok W (bind_teardown hw st)" using r by (intro iommu_okI) simp_all
    show "domain_view (bi_domain bi) (mc_mem (bind_teardown hw st)) = domain_view (bi_domain bi) (mc_mem st)"
      using I(5) A(2) r(3) by simp
    show "device_entry (bi_backend bi') (bd_loc b) (mc_mem (bind_teardown hw st)) = None"
      using e0 ent r(3) by (simp add: bi'_def be'_def)
    show "device_entry (bi_backend bi') oth (mc_mem (bind_teardown hw st)) = device_entry ?be oth (mc_mem st)"
      if "devfn (lo_slot oth) (lo_func oth) \<noteq> devfn (lo_slot (bd_loc b)) (lo_func (bd_loc b))" for oth
      using e1[OF that] ent r(3) by (simp add: bi'_def be'_def)
  qed (use r fa(1) I(3) T in \<open>simp_all add: bi'_def be'_def\<close>)
qed

section \<open>Confinement\<close>

definition same_page :: "block_iommu \<Rightarrow> u64 \<Rightarrow> u64 \<Rightarrow> bool" where
  "same_page bi v w \<longleftrightarrow> iova_page v mod 512 ^ bi_levels bi = iova_page w mod 512 ^ bi_levels bi"

lemma device_dma_attached:
  assumes "device_entry b loc m = Some (dm_root d, dm_levels d)" "dm_fmt d = backend_fmt b"
  shows "device_dma b loc v m = domain_translate d v m"
  using assms by (simp add: device_dma_def domain_translate_def)

lemma fixed_mapped_translate:
  assumes F: "fixed_mapped d fixed iovas m0 m" and e: "domain_view d m0 = Map.empty" and x: "\<forall>x \<in> set fixed. unat x < 2 ^ 52"
  shows "i < length fixed \<Longrightarrow> dma_page d v = dma_page d (iovas ! i) \<Longrightarrow>
      domain_translate d v m = Some (frame_page (fixed ! i) OR (v AND 0xfff))"
    and "\<forall>i < length fixed. dma_page d v \<noteq> dma_page d (iovas ! i) \<Longrightarrow> domain_translate d v m = None"
proof -
  have off: "push_bit PAGE_SHIFT 1 - 1 = (0xfff :: u64)" by (simp add: PAGE_SHIFT_def)
  have l: "length iovas = length fixed" "distinct (map (dma_page d) iovas)"
    and V: "domain_view d m p = (case map_of (zip (map (dma_page d) iovas) fixed) p of
       None \<Rightarrow> None | Some x \<Rightarrow> Some (encode_leaf (dm_fmt d) (frame_page x) (IOMMU_READ OR IOMMU_WRITE)))" for p
    using F by (simp_all add: fixed_mapped_def e cong: option.case_cong)
  show "domain_translate d v m = Some (frame_page (fixed ! i) OR (v AND 0xfff))"
    if i: "i < length fixed" "dma_page d v = dma_page d (iovas ! i)"
  proof -
    have "map_of (zip (map (dma_page d) iovas) fixed) (map (dma_page d) iovas ! i) = Some (fixed ! i)"
      using map_of_zip_nth[of "map (dma_page d) iovas" fixed i] l i(1) by simp
    then have "domain_view d m (dma_page d v) = Some (encode_leaf (dm_fmt d) (frame_page (fixed ! i)) (IOMMU_READ OR IOMMU_WRITE))"
      using V i l(1) by simp
    then show ?thesis
      using decode_leaf[OF frame_page_facts(1) mappable_rw] x i(1)
      by (simp add: domain_translate_view off del: push_bit_of_1)
  qed
  show "domain_translate d v m = None" if n: "\<forall>i < length fixed. dma_page d v \<noteq> dma_page d (iovas ! i)"
  proof -
    have "dma_page d v \<notin> set (map (dma_page d) iovas)" using n l(1) by (auto simp: in_set_conv_nth)
    then have "map_of (zip (map (dma_page d) iovas) fixed) (dma_page d v) = None"
      using l(1) by (simp add: map_of_zip_is_None)
    then show ?thesis by (simp add: domain_translate_view V)
  qed
qed

lemma shared_translate: "domain_view d m' = domain_view d m \<Longrightarrow> domain_translate d v m' = domain_translate d v m"
  by (simp add: domain_translate_view)


section \<open>The life of a binding\<close>

fun map_all_dma :: "'h hw \<Rightarrow> u64 list \<Rightarrow> 'h machine \<Rightarrow> 'h machine option" where
  "map_all_dma hw [] st = Some st"
| "map_all_dma hw (x # xs) st =
     (case bind_map_dma hw x st of None \<Rightarrow> None | Some (r, st') \<Rightarrow> map_all_dma hw xs st')"

lemma hw_confined_cong: "unit_frames b' = unit_frames b \<Longrightarrow> hw_confined hw W b' = hw_confined hw W b"
  by (cases b; cases b') (simp_all add: hw_confined_def unit_frames_def unit_written_def)

lemma map_all_dma_ok:
  assumes "iommu_ok W st" "mc_block st = Some bi" "bi_bound bi = Some b" "\<forall>x \<in> set xs. unat x < 2 ^ 52"
    "hw_confined hw W (bi_backend bi)" "mc_fa st = Some fa" "domain_accounts (mc_mem st) fa0 (bd_domain b) (mc_mem st) fa"
  shows "\<exists>st' bi' b' fa'. map_all_dma hw xs st = Some st' \<and> iommu_ok W st' \<and> mc_block st' = Some bi' \<and>
      bi_bound bi' = Some b' \<and> bd_domain b' = bd_domain b \<and> bd_loc b' = bd_loc b \<and> bi_domain bi' = bi_domain bi \<and>
      unit_frames (bi_backend bi') = unit_frames (bi_backend bi) \<and> mc_fa st' = Some fa' \<and>
      domain_accounts (mc_mem st') fa0 (bd_domain b) (mc_mem st') fa' \<and>
      domain_view (bi_domain bi) (mc_mem st') = domain_view (bi_domain bi) (mc_mem st)"
  using assms
proof (induction xs arbitrary: st bi b fa)
  case Nil
  then show ?case by auto
next
  case (Cons x xs)
  have x: "unat x < 2 ^ 52" using Cons.prems(4) by simp
  obtain r st1 bi1 b1 fa1 where M: "bind_map_dma hw x st = Some (r, st1)" "iommu_ok W st1"
    "mc_block st1 = Some bi1" "bi_bound bi1 = Some b1" "bd_domain b1 = bd_domain b" "bi_domain bi1 = bi_domain bi"
    "bd_loc b1 = bd_loc b" "unit_frames (bi_backend bi1) = unit_frames (bi_backend bi)" "mc_fa st1 = Some fa1"
    "domain_view (bi_domain bi) (mc_mem st1) = domain_view (bi_domain bi) (mc_mem st)"
    "avail fa0 = avail fa1 \<union> frame_no ` set (domain_tables (bd_domain b) (mc_mem st1)) \<and>
       fa_free fa0 = fa_free fa1 + length (domain_tables (bd_domain b) (mc_mem st1))"
  proof (rule bind_map_dma_bound[OF Cons.prems(1) x Cons.prems(2,3,5)])
    fix r st1 bi1 b1 fb fa1
    assume A: "bind_map_dma hw x st = Some (r, st1)" "iommu_ok W st1"
      "mc_block st1 = Some bi1" "bi_bound bi1 = Some b1" "bd_domain b1 = bd_domain b" "bi_domain bi1 = bi_domain bi"
      "bd_loc b1 = bd_loc b" "unit_frames (bi_backend bi1) = unit_frames (bi_backend bi)" "mc_fa st1 = Some fa1"
      "domain_view (bi_domain bi) (mc_mem st1) = domain_view (bi_domain bi) (mc_mem st)" and fb: "mc_fa st = Some fb"
      and acc: "\<And>m0 fa0. domain_accounts m0 fa0 (bd_domain b) (mc_mem st) fb \<Longrightarrow>
         avail fa0 = avail fa1 \<union> frame_no ` set (domain_tables (bd_domain b) (mc_mem st1)) \<and>
         fa_free fa0 = fa_free fa1 + length (domain_tables (bd_domain b) (mc_mem st1))"
    have "fb = fa" using fb Cons.prems(6) by simp
    then show thesis using that[OF A acc] Cons.prems(7) by blast
  qed
  have acc: "domain_accounts (mc_mem st1) fa0 (bd_domain b1) (mc_mem st1) fa1"
    using M(5,11) by (simp add: domain_accounts_def)
  have hw: "hw_confined hw W (bi_backend bi1)" using Cons.prems(5) hw_confined_cong[OF M(8), of hw W] by simp
  have xs: "\<forall>x \<in> set xs. unat x < 2 ^ 52" using Cons.prems(4) by simp
  show ?case
    using Cons.IH[OF M(2-4) xs hw M(9) acc] M(1) unfolding M(5-8,10) by auto
qed


section \<open>Bringing a unit up\<close>

text \<open>The page-table crate's mapper takes frames for its tables and gives none back.\<close>

definition mapper_ok :: "(u64 \<Rightarrow> u64 \<Rightarrow> mem \<times> frame_alloc \<Rightarrow> string + mem \<times> frame_alloc) \<Rightarrow> bool" where
  "mapper_ok mapper \<longleftrightarrow>
     (\<forall>va pa m fa m' fa'. mapper va pa (m, fa) = Inr (m', fa') \<and> fa_ok fa \<longrightarrow> fa_ok fa' \<and> avail fa' \<subseteq> avail fa)"

lemma map_mmio_pages_ok:
  assumes "mapper_ok mapper" "fa_ok fa" "map_mmio_pages mapper va first n w (m, fa) = (r, w', m', fa')"
  shows "fa_ok fa' \<and> avail fa' \<subseteq> avail fa"
  using assms(2,3)
proof (induction n arbitrary: va first w m fa)
  case (Suc n)
  show ?case
  proof (cases "mapper va first (m, fa)")
    case (Inl e)
    then show ?thesis using Suc.prems by simp
  next
    case (Inr y)
    obtain m1 fa1 where y: "y = (m1, fa1)" by (rule prod.exhaust)
    have "fa_ok fa1 \<and> avail fa1 \<subseteq> avail fa" using assms(1) Inr y Suc.prems(1) unfolding mapper_ok_def by blast
    moreover have "map_mmio_pages mapper (va + of_nat FRAME_SIZE) (first + of_nat FRAME_SIZE) n (w\<lparr>mm_pages := mm_pages w + 1\<rparr>) (m1, fa1) = (r, w', m', fa')"
      using Suc.prems(2) Inr y by simp
    ultimately show ?thesis using Suc.IH by blast
  qed
qed simp

lemma map_unit_regs_ok:
  assumes "mapper_ok mapper" "iommu_ok W st" "mc_block st = None" "map_unit_regs mapper base sz st = (r, st')"
  shows "iommu_ok W st'" "mc_block st' = None"
proof -
  obtain fa where fa: "mc_fa st = Some fa" "fa_ok fa" "avail fa \<inter> W = {}" "0 \<in> W" using iommu_okE[OF assms(2)] by metis
  obtain q w m fa' where k: "map_kernel_mmio mapper (mc_window st) base sz (mc_mem st, fa) = (q, w, m, fa')"
    by (rule prod_cases4)
  have "fa_ok fa' \<and> avail fa' \<subseteq> avail fa"
    using k fa(2) map_mmio_pages_ok[OF assms(1) fa(2)]
    by (auto simp: map_kernel_mmio_def Let_def split: if_splits prod.splits option.splits)
  then have "fa_ok fa'" "avail fa' \<inter> W = {}" using fa(3) by blast+
  moreover have "st' = st\<lparr>mc_mem := m, mc_fa := Some fa', mc_window := w\<rparr>"
    using assms(4) fa(1) k by (simp add: map_unit_regs_def)
  ultimately show "iommu_ok W st'" "mc_block st' = None"
    using assms(3) fa(4) by (simp_all add: iommu_ok_def)
qed

lemma tables_new_Inr:
  assumes "fa_ok fa" "tables_new m fa = (Inr (tt, m'), fa')"
  shows "addressable (tt_root tt)" "addressable (tt_ctx tt)" "frame_no (tt_root tt) \<in> avail fa" "frame_no (tt_ctx tt) \<in> avail fa"
    "tt_root tt \<noteq> tt_ctx tt" "avail fa' = avail fa - {frame_no (tt_root tt), frame_no (tt_ctx tt)}" "fa_ok fa'"
    "fa_frames fa' = fa_frames fa" "fa_free fa' + 2 = fa_free fa" "differs_in {tt_root tt, tt_ctx tt} m m'"
proof -
  obtain root m1 fa1 where a1: "alloc_table m fa = Inr (root, m1, fa1)"
    using assms(2) by (cases "alloc_table m fa") (auto simp: tables_new_def)
  obtain ctx m2 fa2 where a2: "alloc_table m1 fa1 = Inr (ctx, m2, fa2)"
    using assms(2) a1 by (cases "alloc_table m1 fa1") (auto simp: tables_new_def)
  have e: "root = tt_root tt" "ctx = tt_ctx tt" "fa2 = fa'"
    and m': "m' = write64 m2 (entry_addr (tt_root tt) 0) ((tt_ctx tt AND SL_ADDR_MASK) OR VT_PRESENT)"
    using assms(2) a1 a2 by (auto simp: tables_new_def)
  note a = a1[unfolded e] a2[unfolded e]
  note A = alloc_table_Inr[OF assms(1) a(1)]
  note C = alloc_table_Inr[OF A(4) a(2)]
  note ral = addressable_aligned[OF A(1)] and cal = addressable_aligned[OF C(1)]
  show "addressable (tt_root tt)" "addressable (tt_ctx tt)" "frame_no (tt_root tt) \<in> avail fa" "fa_ok fa'"
    by (fact A(1), fact C(1), fact A(2), fact C(4))
  show "frame_no (tt_ctx tt) \<in> avail fa" "tt_root tt \<noteq> tt_ctx tt" using C(2) unfolding A(3) by auto
  show "avail fa' = avail fa - {frame_no (tt_root tt), frame_no (tt_ctx tt)}" unfolding C(3) A(3) by blast
  show "fa_frames fa' = fa_frames fa" "fa_free fa' + 2 = fa_free fa" using A(5,6) C(5,6) by simp_all
  have "differs_in {tt_root tt, tt_ctx tt} m m1"
    unfolding A(7) by (rule differs_in_mono[OF zero_table_differs(1)[OF ral]]) simp
  moreover have "differs_in {tt_root tt, tt_ctx tt} m1 m2"
    unfolding C(7) by (rule differs_in_mono[OF zero_table_differs(1)[OF cal]]) simp
  ultimately have "differs_in {tt_root tt, tt_ctx tt} m m2" by (rule differs_in_join)
  then show "differs_in {tt_root tt, tt_ctx tt} m m'"
    unfolding m' using write_entry_differs[OF ral, of 0 "{tt_root tt, tt_ctx tt}" m m2] by simp
qed

lemma tables_new_Inl:
  assumes "fa_ok fa" "tables_new m fa = (Inl e, fa')"
  shows "fa_ok fa'" "avail fa' = avail fa"
proof -
  have "fa_ok fa' \<and> avail fa' = avail fa"
  proof (cases "alloc_table m fa")
    case (Inl e)
    then show ?thesis using assms by (simp add: tables_new_def)
  next
    case (Inr y)
    obtain root m1 fa1 where a: "alloc_table m fa = Inr (root, m1, fa1)" using Inr by (metis prod_cases3)
    note A = alloc_table_Inr[OF assms(1) a]
    have fa': "fa' = foldl drop_frame fa1 [root]" using assms(2) a by (auto simp: tables_new_def split: sum.splits prod.splits)
    have wf: "fa_wf fa1" using A(4) by (simp add: fa_ok_def)
    have "unat root = frame_no root * FRAME_SIZE" using addressable_aligned[OF A(1)] aligned_frame by (simp add: frame_no_def)
    then have "fa_wf fa' \<and> avail fa' = avail fa1 \<union> {frame_no root} \<and> fa_frames fa' = fa_frames fa1"
      using drop_frames[OF wf, of "[root]" "[frame_no root]"] A(8) unfolding fa' by (simp add: taken_def)
    then show ?thesis using A by (auto simp: fa_ok_def)
  qed
  then show "fa_ok fa'" "avail fa' = avail fa" by simp_all
qed

lemma alloc_named_ok:
  assumes "fa_ok fa" "alloc_named es fa = (r, fa')"
  shows "fa_ok fa'" "avail fa' \<subseteq> avail fa"
    "r = Inr as \<Longrightarrow> length as = length es \<and> distinct as \<and> fa_frames fa' = fa_frames fa \<and>
       (\<forall>u \<in> set as. addressable u \<and> frame_no u \<in> avail fa) \<and> avail fa' = avail fa - frame_no ` set as"
proof -
  have "fa_ok fa' \<and> avail fa' \<subseteq> avail fa \<and>
    (\<forall>as. r = Inr as \<longrightarrow> length as = length es \<and> distinct as \<and> fa_frames fa' = fa_frames fa \<and>
       (\<forall>u \<in> set as. addressable u \<and> frame_no u \<in> avail fa) \<and> avail fa' = avail fa - frame_no ` set as)"
    using assms
  proof (induction es arbitrary: fa r fa')
    case (Cons e es)
    show ?case
    proof (cases "alloc fa")
      case (Inl x)
      then show ?thesis using Cons.prems by auto
    next
      case (Inr y)
      obtain a fa1 where y: "alloc fa = Inr (a, fa1)" using Inr by (metis prod.exhaust)
      have "alloc_table (\<lambda>_. 0) fa = Inr (a, zero_table a (\<lambda>_. 0), fa1)" using y by (simp add: alloc_table_def)
      note A = alloc_table_Inr[OF Cons.prems(1) this]
      obtain r1 fa2 where rest: "alloc_named es fa1 = (r1, fa2)" by (rule prod.exhaust)
      note IH = Cons.IH[OF A(4) rest]
      have e: "fa' = fa2" "r = (case r1 of Inl e \<Rightarrow> Inl e | Inr as \<Rightarrow> Inr (a # as))"
        using Cons.prems(2) y rest by (auto split: sum.splits)
      show ?thesis
      proof (cases r1)
        case (Inl e')
        then show ?thesis using IH A e by auto
      next
        case (Inr as)
        then have I: "length as = length es" "distinct as" "fa_frames fa2 = fa_frames fa1" 
          "\<forall>u \<in> set as. addressable u \<and> frame_no u \<in> avail fa1" "avail fa2 = avail fa1 - frame_no ` set as"
          using IH by simp_all
        have "a \<notin> set as" using I(4) A(3) by auto
        then show ?thesis using I A e Inr IH by auto
      qed
    qed
  qed auto
  then show "fa_ok fa'" "avail fa' \<subseteq> avail fa"
    "r = Inr as \<Longrightarrow> length as = length es \<and> distinct as \<and> fa_frames fa' = fa_frames fa \<and>
       (\<forall>u \<in> set as. addressable u \<and> frame_no u \<in> avail fa) \<and> avail fa' = avail fa - frame_no ` set as" by blast+
qed

text \<open>The state a successful bring up leaves, for either vendor.\<close>

lemma brought_up_ok:
  assumes ok: "iommu_ok W st" and fa: "mc_fa st = Some fa"
    and us: "distinct (unit_frames b)" "backend_ok b" "\<forall>u \<in> set (unit_frames b). addressable u \<and> frame_no u \<in> avail fa \<and> frame_no u \<noteq> frame_no (dm_root d)"
    and fa1: "fa_ok fa1" "domain_new m0 fa1 (ru_width unit) (backend_fmt b) = Inr (d, m1, fa2)" "avail fa1 \<subseteq> avail fa" "fa_frames fa1 = fa_frames fa"
    and fa3: "fa_ok fa3" "avail fa3 = avail fa - frame_no ` set (unit_frames b) - {frame_no (dm_root d)}" "fa_frames fa3 = fa_frames fa"
    and m3: "differs_in (set (unit_frames b)) m1 m3"
  shows "block_ok W \<lparr>bi_backend = b, bi_domain = d, bi_levels = dm_levels d, bi_width = ru_width unit,
      bi_prepared = 0, bi_enabled = False, bi_bound = None\<rparr> m3 fa3"
proof -
  let ?bi = "\<lparr>bi_backend = b, bi_domain = d, bi_levels = dm_levels d, bi_width = ru_width unit,
      bi_prepared = 0, bi_enabled = False, bi_bound = None\<rparr>"
  have f: "fa_ok fa" "avail fa \<inter> W = {}" "0 \<in> W" using iommu_okE[OF ok] fa by auto
  have "0 \<notin> avail fa1" using f fa1(3) by auto
  note N = domain_new_ok[OF fa1(1) this fa1(2)]
  have rt: "frame_no (dm_root d) \<in> avail fa" using N(5) fa1(3) by auto
  have lt: "i < fa_frames fa" if "i \<in> avail fa" for i using that f(1) by (auto simp: fa_ok_def fa_wf_def)
  have s: "set (unit_frames b) \<inter> set (domain_tables d m1) = {}" using us(3) N(3) by auto
  have t: "\<forall>u \<in> set (domain_tables d m1). taken fa3 u" using N(3,8) rt lt fa3(2,3) by (simp add: taken_def)
  note E = domain_elsewhere[OF N(1) m3 s fa3(1) t]
  have o: "owned ?bi m3 = unit_frames b @ [dm_root d]" by (simp add: owned_def bound_tables_def E(2) N(3))
  have "identity_map d m3" by (simp add: identity_map_def E(3) N(2))
  moreover have "distinct (owned ?bi m3)" "\<forall>u \<in> set (owned ?bi m3). taken fa3 u" "\<forall>u \<in> set (owned ?bi m3). frame_no u \<notin> W"
    unfolding o using us s N(3,8) rt lt fa3(2,3) f(2) by (auto simp: taken_def)
  moreover have "avail fa3 \<inter> W = {}" using fa3(2) f(2) by auto
  ultimately show ?thesis
    using us(2) E(1) fa3(1) N(4) f(3) domain_new_levels[OF fa1(2)] unfolding block_ok_def by simp
qed

lemma levels_for_domain: "levels_for w = Inr l \<longleftrightarrow> domain_levels w = Some l"
  by (simp add: levels_for_def domain_levels_def Let_def)

definition fresh_iommu :: "backend \<Rightarrow> domain \<Rightarrow> nat \<Rightarrow> u8 \<Rightarrow> block_iommu" where
  "fresh_iommu b d levels w = \<lparr>bi_backend = b, bi_domain = d, bi_levels = levels, bi_width = w,
     bi_prepared = 0, bi_enabled = False, bi_bound = None\<rparr>"

lemma iommu_ok_shrunk:
  fixes st st' :: "'h machine"
  assumes "iommu_ok W st" "mc_block st = None" "mc_fa st = Some fa" "mc_fa st' = Some fa'" "mc_block st' = None"
    "fa_ok fa'" "avail fa' \<subseteq> avail fa"
  shows "iommu_ok W st'"
proof -
  have "avail fa \<inter> W = {}" "0 \<in> W" using iommu_okE[OF assms(1)] assms(3) by auto
  moreover from this have "avail fa' \<inter> W = {}" using assms(7) by blast
  ultimately show ?thesis using assms(4-6) by (simp add: iommu_ok_def)
qed

lemma vtd_bring_up_ok:
  assumes M: "mapper_ok mapper" and ok: "iommu_ok W st0" "mc_block st0 = None"
    and r: "vtd_bring_up mapper hw unit st0 = (r, st')"
  shows "(\<exists>e. r = Inl e) \<and> iommu_ok W st' \<and> mc_block st' = None \<or>
    (\<exists>v d l fa. r = Inr (v, d, l) \<and> mc_fa st' = Some fa \<and> block_ok W (fresh_iommu (BVtd v) d l (ru_width unit)) (mc_mem st') fa)"
proof -
  obtain q st where regs: "map_unit_regs mapper (ru_base unit) 0x1000 st0 = (q, st)" by (rule prod.exhaust)
  note S = map_unit_regs_ok[OF M ok regs]
  obtain fa where fa: "mc_fa st = Some fa" "fa_ok fa" "0 \<notin> avail fa" using iommu_okE[OF S(1)] by metis
  show ?thesis
  proof (cases "\<exists>v. r = Inr v")
    case False
    then obtain e where e: "r = Inl e" by (cases r) auto
    have "st' = st \<or> (\<exists>m1 fa1 d fa2 e. domain_new (mc_mem st) fa (ru_width unit) Vtd = Inr (d, m1, fa1) \<and>
        tables_new m1 fa1 = (Inl e, fa2) \<and> st' = st\<lparr>mc_mem := m1, mc_fa := Some fa2\<rparr>)"
      using r e fa(1) by (auto simp: vtd_bring_up_def regs Let_def split: sum.splits if_splits prod.splits)
    then have "iommu_ok W st' \<and> mc_block st' = None"
    proof (elim disjE exE conjE)
      fix m1 fa1 d fa2 e
      assume new: "domain_new (mc_mem st) fa (ru_width unit) Vtd = Inr (d, m1, fa1)"
        and t: "tables_new m1 fa1 = (Inl e, fa2)" and st': "st' = st\<lparr>mc_mem := m1, mc_fa := Some fa2\<rparr>"
      note N = domain_new_ok[OF fa(2,3) new]
      have "fa_ok fa1" using N(1) by (simp add: domain_ok_def)
      note T = tables_new_Inl[OF this t]
      have "avail fa2 \<subseteq> avail fa" using T(2) N(6) by simp
      then show ?thesis using iommu_ok_shrunk[OF S(1,2) fa(1) _ _ T(1)] S(2) by (simp add: st')
    qed (use S in simp)
    then show ?thesis using e by simp
  next
    case True
    then obtain v d l where rr: "r = Inr (v, d, l)" by (metis prod_cases3)
    obtain m1 fa1 tt m2 fa2 where new: "domain_new (mc_mem st) fa (ru_width unit) Vtd = Inr (d, m1, fa1)"
      and t: "tables_new m1 fa1 = (Inr (tt, m2), fa2)" and st': "st' = st\<lparr>mc_mem := m2, mc_fa := Some fa2\<rparr>"
      and v: "vu_tables v = tt" and l: "levels_for (ru_width unit) = Inr l"
      using r fa(1) unfolding rr by (auto simp: vtd_bring_up_def regs Let_def split: sum.splits if_splits prod.splits)
    note N = domain_new_ok[OF fa(2,3) new]
    have ok1: "fa_ok fa1" using N(1) by (simp add: domain_ok_def)
    note T = tables_new_Inr[OF ok1 t]
    have uf: "unit_frames (BVtd v) = [tt_root tt, tt_ctx tt]" by (simp add: unit_frames_def v)
    have ll: "dm_levels d = l" using domain_new_levels[OF new] l by (simp add: levels_for_domain)
    have "block_ok W (fresh_iommu (BVtd v) d (dm_levels d) (ru_width unit)) m2 fa2"
      unfolding fresh_iommu_def
    proof (rule brought_up_ok[OF S(1) fa(1)])
      show "domain_new (mc_mem st) fa (ru_width unit) (backend_fmt (BVtd v)) = Inr (d, m1, fa1)"
        using new by (simp add: backend_fmt_def)
      show "backend_ok (BVtd v)" using T(1,2) by (simp add: backend_ok_def uf addressable_aligned)
      show "\<forall>u \<in> set (unit_frames (BVtd v)). addressable u \<and> frame_no u \<in> avail fa \<and> frame_no u \<noteq> frame_no (dm_root d)"
        using T(1-4) N(6) by (simp add: uf)
      show "avail fa2 = avail fa - frame_no ` set (unit_frames (BVtd v)) - {frame_no (dm_root d)}"
        using T(6) N(6) by (auto simp: uf)
    qed (use T N fa uf in \<open>simp_all\<close>)
    then show ?thesis using rr ll by (simp add: st')
  qed
qed

lemma amd_bring_up_ok:
  assumes M: "mapper_ok mapper" and ok: "iommu_ok W st0" "mc_block st0 = None"
    and r: "amd_bring_up mapper hw unit st0 = (r, st')"
  shows "(\<exists>e. r = Inl e) \<and> iommu_ok W st' \<and> mc_block st' = None \<or>
    (\<exists>u d l fa. r = Inr (u, d, l) \<and> mc_fa st' = Some fa \<and> block_ok W (fresh_iommu (BAmd u) d l (ru_width unit)) (mc_mem st') fa)"
proof -
  obtain q st where regs: "map_unit_regs mapper (ru_base unit) 0x3000 st0 = (q, st)" by (rule prod.exhaust)
  note S = map_unit_regs_ok[OF M ok regs]
  obtain fa where fa: "mc_fa st = Some fa" "fa_ok fa" "0 \<notin> avail fa" using iommu_okE[OF S(1)] by metis
  obtain q2 fa1 where al: "alloc_named [''amd devtab alloc failed'', ''amd cmdbuf alloc failed'',
      ''amd evtlog alloc failed'', ''amd sem alloc failed''] fa = (q2, fa1)" by (rule prod.exhaust)
  note A = alloc_named_ok[OF fa(2) al]
  show ?thesis
  proof (cases "\<exists>v. r = Inr v")
    case False
    then obtain e where e: "r = Inl e" by (cases r) auto
    have "st' = st \<or> st' = st\<lparr>mc_fa := Some fa1\<rparr>"
      using r e fa(1) al by (auto simp: amd_bring_up_def regs Let_def split: sum.splits if_splits prod.splits)
    then have "iommu_ok W st' \<and> mc_block st' = None"
      using S iommu_ok_shrunk[OF S(1,2) fa(1) _ _ A(1,2), of st'] by auto
    then show ?thesis using e by simp
  next
    case True
    then obtain u d l where rr: "r = Inr (u, d, l)" by (metis prod_cases3)
    obtain fs m1 fa2 h where q2: "q2 = Inr fs" and new: "domain_new (mc_mem st) fa1 (ru_width unit) AmdVi = Inr (d, m1, fa2)"
      and st': "st' = st\<lparr>mc_mem := write64 (zero_table (fs ! 2) (zero_table (fs ! 1) (zero_table (fs ! 0) m1))) (fs ! 3) 0,
           mc_fa := Some fa2, mc_hw := h\<rparr>"
      and u: "au_devtab u = fs ! 0" "au_cmdbuf u = fs ! 1" "au_evtlog u = fs ! 2" "au_sem u = fs ! 3" "au_cmdbuf_tail u = 0"
      and l: "levels_for (ru_width unit) = Inr l"
      using r fa(1) al unfolding rr by (auto simp: amd_bring_up_def regs Let_def split: sum.splits if_splits prod.splits)
    have F: "length fs = 4" "distinct fs" "fa_frames fa1 = fa_frames fa"
      "\<forall>u \<in> set fs. addressable u \<and> frame_no u \<in> avail fa" "avail fa1 = avail fa - frame_no ` set fs"
      using A(3)[OF q2] by simp_all
    have fs: "fs = [fs ! 0, fs ! 1, fs ! 2, fs ! 3]"
      using F(1) by (auto simp: length_Suc_conv numeral_eq_Suc)
    have uf: "unit_frames (BAmd u) = fs" using fs by (simp add: unit_frames_def u)
    have z: "0 \<notin> avail fa1" using fa(3) A(2) by auto
    note N = domain_new_ok[OF A(1) z new]
    have ll: "dm_levels d = l" using domain_new_levels[OF new] l by (simp add: levels_for_domain)
    have al4: "\<not> misaligned (fs ! i)" "fs ! i \<in> set fs" if "i < 4" for i
      using F(1,4) that addressable_aligned by simp_all
    let ?m2 = "zero_table (fs ! 2) (zero_table (fs ! 1) (zero_table (fs ! 0) m1))"
    have z: "differs_in (set fs) m (zero_table (fs ! i) m)" if "i < 4" for i m
      by (rule differs_in_mono[OF zero_table_differs(1)[OF al4(1)[OF that]]]) (use al4(2)[OF that] in simp)
    have "differs_in (set fs) m1 ?m2"
      by (rule differs_in_join[OF differs_in_join[OF z z] z]) simp_all
    then have dif: "differs_in (set fs) m1 (write64 ?m2 (fs ! 3) 0)"
      using write_entry_differs[OF al4(1)[of 3], of 0 "set fs" m1 ?m2 0] al4(2)[of 3] by (simp add: entry_addr_def)
    have "block_ok W (fresh_iommu (BAmd u) d (dm_levels d) (ru_width unit)) (write64 ?m2 (fs ! 3) 0) fa2"
      unfolding fresh_iommu_def
    proof (rule brought_up_ok[OF S(1) fa(1)])
      show "domain_new (mc_mem st) fa1 (ru_width unit) (backend_fmt (BAmd u)) = Inr (d, m1, fa2)"
        using new by (simp add: backend_fmt_def)
      show "backend_ok (BAmd u)" using F(4) by (auto simp: backend_ok_def uf addressable_aligned u(5))
      show "\<forall>x \<in> set (unit_frames (BAmd u)). addressable x \<and> frame_no x \<in> avail fa \<and> frame_no x \<noteq> frame_no (dm_root d)"
        using F(4,5) N(5) unfolding uf by (metis DiffD2 imageI)
      show "avail fa2 = avail fa - frame_no ` set (unit_frames (BAmd u)) - {frame_no (dm_root d)}"
        using F(5) N(6) by (auto simp: uf)
      show "fa_ok fa2" using N(1) by (simp add: domain_ok_def)
    qed (use F N A uf dif in \<open>simp_all\<close>)
    then show ?thesis using rr ll by (simp add: st')
  qed
qed

lemma bring_up_ok:
  assumes M: "mapper_ok mapper" and ok: "iommu_ok W st" "mc_block st = None" and r: "bring_up mapper hw st = (r, st')"
  shows "iommu_ok W st'"
proof (cases "mc_units st")
  case Nil
  then show ?thesis using ok(1) r by (simp add: bring_up_def)
next
  case (Cons unit us)
  show ?thesis
  proof (cases "ru_vendor unit")
    case VendorVtd
    obtain q st1 where b: "vtd_bring_up mapper hw unit st = (q, st1)" by (rule prod.exhaust)
    note B = vtd_bring_up_ok[OF M ok b]
    show ?thesis
    proof (cases q)
      case (Inl e)
      then show ?thesis using B r Cons VendorVtd b by (auto simp: bring_up_def)
    next
      case (Inr y)
      then obtain v d l fa where y: "q = Inr (v, d, l)" "mc_fa st1 = Some fa"
        "block_ok W (fresh_iommu (BVtd v) d l (ru_width unit)) (mc_mem st1) fa" using B by auto
      have "st' = st1\<lparr>mc_block := Some (fresh_iommu (BVtd v) d l (ru_width unit))\<rparr>"
        using r Cons VendorVtd b y(1) by (simp add: bring_up_def fresh_iommu_def)
      then show ?thesis using y(2,3) by (intro iommu_okI) simp_all
    qed
  next
    case VendorAmdVi
    obtain q st1 where b: "amd_bring_up mapper hw unit st = (q, st1)" by (rule prod.exhaust)
    note B = amd_bring_up_ok[OF M ok b]
    show ?thesis
    proof (cases q)
      case (Inl e)
      then show ?thesis using B r Cons VendorAmdVi b by (auto simp: bring_up_def)
    next
      case (Inr y)
      then obtain v d l fa where y: "q = Inr (v, d, l)" "mc_fa st1 = Some fa"
        "block_ok W (fresh_iommu (BAmd v) d l (ru_width unit)) (mc_mem st1) fa" using B by auto
      have "st' = st1\<lparr>mc_block := Some (fresh_iommu (BAmd v) d l (ru_width unit))\<rparr>"
        using r Cons VendorAmdVi b y(1) by (simp add: bring_up_def fresh_iommu_def)
      then show ?thesis using y(2,3) by (intro iommu_okI) simp_all
    qed
  qed
qed

lemma width_39:
  assumes "block_ok W bi m fa" "unat x < 2 ^ 39"
  shows "in_width bi x"
proof -
  have "3 \<le> bi_levels bi" using assms(1) by (auto simp: block_ok_def domain_ok_def)
  then have "(512 :: nat) ^ 3 \<le> 512 ^ bi_levels bi" by (rule power_increasing) simp
  then show ?thesis using assms(2) by (simp add: in_width_def)
qed

lemma block_prepare_ok:
  assumes M: "mapper_ok mapper" and ok: "iommu_ok W st" and x: "\<forall>x \<in> set fixed. unat x < 2 ^ 39"
  shows "\<exists>r st'. block_prepare_device mapper hw loc fixed st = Some (r, st') \<and> iommu_ok W st'"
proof -
  obtain r st1 where b: "(if mc_block st = None then bring_up mapper hw st else (Inr (), st)) = (r, st1)" by (rule prod.exhaust)
  have ok1: "iommu_ok W st1" using b ok bring_up_ok[OF M ok] by (auto split: if_splits)
  obtain fa where fa: "mc_fa st1 = Some fa" "\<And>bi. mc_block st1 = Some bi \<Longrightarrow> block_ok W bi (mc_mem st1) fa"
    using iommu_okE[OF ok1] by metis
  show ?thesis
  proof (cases "r = Inr () \<and> mc_block st1 \<noteq> None")
    case False
    then show ?thesis using b ok1 by (cases r) (auto simp: block_prepare_device_def split: option.split)
  next
    case True
    then obtain bi where bi: "mc_block st1 = Some bi" and r: "r = Inr ()" by auto
    note B = fa(2)[OF bi]
    obtain q m fa' where F: "map_fixed (bi_domain bi) fixed (mc_mem st1) fa = Some (q, m, fa')" "block_ok W bi m fa'"
      using map_fixed_ok[OF B, of fixed] width_39[OF B] x by blast
    let ?m = "attach_device (bi_backend bi) loc (dm_root (bi_domain bi)) (bi_levels bi) BLOCK_DID m"
    have "block_ok W bi ?m fa'" by (rule attach_ok(1)[OF F(2)]) blast
    then have "iommu_ok W (st1\<lparr>mc_mem := ?m, mc_fa := Some fa', mc_block := Some (bi\<lparr>bi_prepared := bi_prepared bi + 1\<rparr>)\<rparr>)"
      by (intro iommu_okI[of _ fa' "bi\<lparr>bi_prepared := bi_prepared bi + 1\<rparr>"]) (simp_all add: block_ok_prepared)
    moreover have "iommu_ok W (st1\<lparr>mc_mem := m, mc_fa := Some fa'\<rparr>)" using F(2) bi by (intro iommu_okI) simp_all
    ultimately show ?thesis
      using F(1) fa(1) bi b r by (cases q) (simp_all add: block_prepare_device_def)
  qed
qed

section \<open>Runs of the driver\<close>

lemma enable_differs:
  assumes ok: "backend_ok b" and hw: "hw_confined hw W b" and i: "backend_enable hw b s = (r, b', s')"
  shows "differs_in ({u. frame_no u \<in> W} \<union> set (unit_frames b)) (fst s) (fst s')"
    and "unit_frames b' = unit_frames b" and "backend_ok b'" and "backend_fmt b' = backend_fmt b"
proof -
  let ?S = "{u. frame_no u \<in> W} \<union> set (unit_frames b)"
  have idle: "\<forall>s. differs_in ?S (fst s) (fst (h_idle hw s))"
    using hw unit_written_frames[of b] by (auto simp: hw_confined_def intro: differs_in_mono)
  have "differs_in ?S (fst s) (fst s') \<and> unit_frames b' = unit_frames b \<and> backend_ok b' \<and> backend_fmt b' = backend_fmt b"
  proof (cases b)
    case (BVtd v)
    let ?s1 = "apsnd (h_wr32 hw (vu_regs v + VTD_GCMD) GCMD_SRTP \<circ> h_wr64 hw (vu_regs v + VTD_RTADDR) (tt_root (vu_tables v))) s"
    let ?p1 = "poll_until (\<lambda>s. h_rd32 hw (snd s) (vu_regs v + VTD_GSTS) AND GSTS_RTPS \<noteq> 0) (h_idle hw) GSTS_POLL_LIMIT ?s1"
    obtain ok1 s2 where p1: "?p1 = (ok1, s2)" by (rule prod.exhaust)
    let ?p2 = "poll_until (\<lambda>s. h_rd32 hw (snd s) (vu_regs v + VTD_GSTS) AND GSTS_TES \<noteq> 0) (h_idle hw) GSTS_POLL_LIMIT
        (apsnd (h_wr32 hw (vu_regs v + VTD_GCMD) GCMD_TE) s2)"
    obtain ok2 s4 where p2: "?p2 = (ok2, s4)" by (rule prod.exhaust)
    have "differs_in ?S (fst ?s1) (fst (snd ?p1))" by (rule poll_differs[OF idle])
    then have d2: "differs_in ?S (fst s) (fst s2)" unfolding p1 by simp
    have "differs_in ?S (fst (apsnd (h_wr32 hw (vu_regs v + VTD_GCMD) GCMD_TE) s2)) (fst (snd ?p2))" by (rule poll_differs[OF idle])
    then have "differs_in ?S (fst s2) (fst s4)" unfolding p2 by simp
    then have d4: "differs_in ?S (fst s) (fst s4)" by (rule differs_in_join[OF d2])
    have inv: "invalidate_all hw b s4 = (b, vtd_invalidate hw (vu_regs v) (vu_iotlb_off v) s4)"
      by (simp add: invalidate_all_def BVtd)
    have d5: "differs_in ?S (fst s) (fst (vtd_invalidate hw (vu_regs v) (vu_iotlb_off v) s4))"
      by (rule differs_in_join[OF d4 differs_in_mono[OF invalidate_differs(1)[OF ok hw inv]]]) (use unit_written_frames in auto)
    have "b' = b" "s' = s2 \<or> s' = s4 \<or> s' = vtd_invalidate hw (vu_regs v) (vu_iotlb_off v) s4"
      using i p1 p2 by (auto simp: BVtd backend_enable_def vtd_enable_def Let_def apsnd_def map_prod_def split: if_splits)
    then show ?thesis using d2 d4 d5 ok by auto
  next
    case (BAmd u)
    define s1 where "s1 = apsnd (h_wr64 hw (au_regs u + AMD_REG_CONTROL) (h_rd64 hw (snd s) (au_regs u + AMD_REG_CONTROL) OR
                 (AMD_CTRL_IOMMU_EN OR AMD_CTRL_CMD_BUF_EN OR AMD_CTRL_EVT_LOG_EN))) s"
    have inv: "invalidate_all hw b s1 = (b', s')"
      using i by (simp add: BAmd backend_enable_def amd_enable_def Let_def invalidate_all_def s1_def)
    note I = invalidate_differs[OF ok hw inv]
    have "fst s1 = fst s" by (simp add: s1_def)
    then have "differs_in ?S (fst s) (fst s')" using I(1) unit_written_frames[of b] by (auto intro: differs_in_mono)
    then show ?thesis using I by simp
  qed
  then show "differs_in ?S (fst s) (fst s')" "unit_frames b' = unit_frames b" "backend_ok b'" "backend_fmt b' = backend_fmt b"
    by simp_all
qed

lemma block_enable_ok:
  assumes "iommu_ok W st" "\<forall>bi. mc_block st = Some bi \<longrightarrow> hw_confined hw W (bi_backend bi)" "block_enable hw st = (r, st')"
  shows "iommu_ok W st'"
proof (cases "mc_block st")
  case None
  then show ?thesis using assms(1,3) by (simp add: block_enable_def)
next
  case (Some bi)
  obtain fa where fa: "mc_fa st = Some fa" "block_ok W bi (mc_mem st) fa" using iommu_okE[OF assms(1)] Some by metis
  obtain q b m h where e: "backend_enable hw (bi_backend bi) (mc_mem st, mc_hw st) = (q, b, m, h)" by (rule prod_cases4)
  have ok: "backend_ok (bi_backend bi)" "hw_confined hw W (bi_backend bi)" using fa(2) assms(2) Some by (simp_all add: block_ok_def)
  note E = enable_differs[OF ok e, simplified fst_conv]
  have B: "block_ok W (bi\<lparr>bi_backend := b\<rparr>) m fa" using block_ok_elsewhere(1)[OF fa(2) E(1)] E(2-4) by simp
  then have "block_ok W (bi\<lparr>bi_backend := b, bi_enabled := True\<rparr>) m fa"
    using block_ok_prepared(2)[where bi = "bi\<lparr>bi_backend := b\<rparr>" and e = True] by simp
  moreover have "st' = st \<or> st' = st\<lparr>mc_mem := m, mc_hw := h, mc_block := Some (bi\<lparr>bi_backend := b\<rparr>)\<rparr> \<or>
      st' = st\<lparr>mc_mem := m, mc_hw := h, mc_block := Some (bi\<lparr>bi_backend := b, bi_enabled := True\<rparr>)\<rparr>"
    using assms(3) Some e by (auto simp: block_enable_def Let_def split: if_splits sum.splits)
  ultimately show ?thesis using assms(1) B fa(1) by (auto intro: iommu_okI)
qed

lemma take_fault_ok: "iommu_ok W st \<Longrightarrow> take_fault hw st = (f, st') \<Longrightarrow> iommu_ok W st'"
  by (cases "mc_block st") (auto simp: take_fault_def iommu_ok_def apsnd_def map_prod_def split: prod.splits)

text \<open>
  The driver's runs: any sequence of its entry points, with frames below the narrowest width it
  accepts.  While the kernel spins the hardware writes only what \<open>hw_confined\<close> allows.
\<close>

inductive iommu_run ::
    "(u64 \<Rightarrow> u64 \<Rightarrow> mem \<times> frame_alloc \<Rightarrow> string + mem \<times> frame_alloc) \<Rightarrow> 'h hw \<Rightarrow> nat set \<Rightarrow> 'h machine \<Rightarrow> 'h machine \<Rightarrow> bool"
  for mapper :: "u64 \<Rightarrow> u64 \<Rightarrow> mem \<times> frame_alloc \<Rightarrow> string + mem \<times> frame_alloc" and hw :: "'h hw"
    and W :: "nat set" and st0 :: "'h machine" where
  run_start: "iommu_run mapper hw W st0 st0"
| run_prepare: "iommu_run mapper hw W st0 st \<Longrightarrow> \<forall>x \<in> set fixed. unat x < 2 ^ 39 \<Longrightarrow>
    block_prepare_device mapper hw loc fixed st = Some (r, st') \<Longrightarrow> iommu_run mapper hw W st0 st'"
| run_map: "iommu_run mapper hw W st0 st \<Longrightarrow> unat x < 2 ^ 39 \<Longrightarrow>
    \<forall>bi. mc_block st = Some bi \<longrightarrow> hw_confined hw W (bi_backend bi) \<Longrightarrow>
    block_map_dma hw x st = Some (r, st') \<Longrightarrow> iommu_run mapper hw W st0 st'"
| run_enable: "iommu_run mapper hw W st0 st \<Longrightarrow>
    \<forall>bi. mc_block st = Some bi \<longrightarrow> hw_confined hw W (bi_backend bi) \<Longrightarrow>
    block_enable hw st = (r, st') \<Longrightarrow> iommu_run mapper hw W st0 st'"
| run_bind: "iommu_run mapper hw W st0 st \<Longrightarrow> \<forall>x \<in> set fixed. unat x < 2 ^ 39 \<Longrightarrow>
    bind_prepare loc fixed st = Some (q, st') \<Longrightarrow> iommu_run mapper hw W st0 st'"
| run_bind_map: "iommu_run mapper hw W st0 st \<Longrightarrow> unat x < 2 ^ 39 \<Longrightarrow>
    \<forall>bi. mc_block st = Some bi \<longrightarrow> hw_confined hw W (bi_backend bi) \<Longrightarrow>
    bind_map_dma hw x st = Some (v, st') \<Longrightarrow> iommu_run mapper hw W st0 st'"
| run_teardown: "iommu_run mapper hw W st0 st \<Longrightarrow>
    \<forall>bi. mc_block st = Some bi \<longrightarrow> hw_confined hw W (bi_backend bi) \<Longrightarrow>
    iommu_run mapper hw W st0 (bind_teardown hw st)"
| run_arm: "iommu_run mapper hw W st0 st \<Longrightarrow> iommu_run mapper hw W st0 (arm_skip_map on st)"
| run_fault: "iommu_run mapper hw W st0 st \<Longrightarrow> take_fault hw st = (f, st') \<Longrightarrow> iommu_run mapper hw W st0 st'"

lemma bind_prepare_ok:
  assumes "iommu_ok W st" "\<forall>x \<in> set fixed. unat x < 2 ^ 52" "bind_prepare loc fixed st = Some (q, st')"
  shows "iommu_ok W st'"
proof (cases "\<exists>bi. mc_block st = Some bi \<and> bi_bound bi = None \<and> length fixed = 4")
  case True
  then obtain bi where bi: "mc_block st = Some bi" "bi_bound bi = None" "length fixed = 4" by blast
  show ?thesis
  proof (rule bind_prepare_spec[OF assms(1) bi assms(2), of loc])
    fix r st2
    assume "bind_prepare loc fixed st = Some (r, st2)" "iommu_ok W st2"
    then show ?thesis using assms(3) by simp
  qed
next
  case False
  then have "st' = st" using assms(3) by (auto simp: bind_prepare_def split: if_splits option.splits)
  then show ?thesis using assms(1) by simp
qed

lemma bind_teardown_ok:
  assumes "iommu_ok W st" "\<forall>bi. mc_block st = Some bi \<longrightarrow> hw_confined hw W (bi_backend bi)"
  shows "iommu_ok W (bind_teardown hw st)"
proof (cases "\<exists>bi b. mc_block st = Some bi \<and> bi_bound bi = Some b")
  case True
  then show ?thesis using bind_teardown_spec[OF assms(1)] assms(2) by metis
next
  case False
  then have "bind_teardown hw st = st" by (cases "mc_block st") (auto simp: bind_teardown_def split: option.splits)
  then show ?thesis using assms(1) by simp
qed

lemma iommu_run_ok:
  assumes "iommu_run mapper hw W st0 st" "mapper_ok mapper" "iommu_ok W st0"
  shows "iommu_ok W st"
  using assms
proof (induction rule: iommu_run.induct)
  case (run_prepare st fixed loc r st')
  then show ?case using block_prepare_ok[of mapper W st fixed hw loc] by auto
next
  case (run_map st x r st')
  have "\<forall>bi. mc_block st = Some bi \<longrightarrow> in_width bi x \<and> hw_confined hw W (bi_backend bi)"
    using iommu_okE[OF run_map.IH[OF run_map.prems]] width_39 run_map.hyps by metis
  then show ?case using block_map_dma_ok[OF run_map.IH[OF run_map.prems]] run_map.hyps by fastforce
next
  case (run_enable st r st')
  then show ?case using block_enable_ok by metis
next
  case (run_bind st fixed loc q st')
  have "\<forall>x \<in> set fixed. unat x < 2 ^ 52" using run_bind.hyps by fastforce
  then show ?case using bind_prepare_ok run_bind by metis
next
  case (run_bind_map st x v st')
  have "unat x < 2 ^ 52" using run_bind_map.hyps by simp
  then show ?case using bind_map_dma_ok[OF run_bind_map.IH[OF run_bind_map.prems]] run_bind_map.hyps by fastforce
next
  case (run_teardown st)
  then show ?case using bind_teardown_ok by metis
next
  case (run_arm st on)
  then show ?case by (simp add: arm_skip_map_def iommu_ok_def)
next
  case (run_fault st f st')
  then show ?case using take_fault_ok by metis
qed simp

lemma unat_or_offset:
  assumes "\<not> misaligned a"
  shows "unat (a OR (v AND 0xfff)) = unat a + unat v mod 4096"
proof -
  have m: "(0xfff :: u64) = mask 12" by (simp add: mask_eq_exp_minus_1)
  obtain j where j: "unat a = j * 4096" using assms aligned_frame FRAME_SIZE_def by metis
  have "a = push_bit 12 (word_of_nat j)"
  proof -
    have "a = word_of_nat (j * 4096)" using j by (metis unat_of_nat_id unsigned_less word_unat_eq_iff)
    then show ?thesis by (simp add: push_bit_eq_mult)
  qed
  then have "take_bit 12 a = 0" by (simp add: take_bit_push_bit)
  then have "a AND mask 12 = 0" by (simp add: take_bit_eq_mask)
  moreover have "a AND (v AND mask 12) = (a AND mask 12) AND v" by (simp only: ac_simps)
  ultimately have "a AND take_bit 12 v = 0" by (simp only: take_bit_eq_mask) simp
  then have "a OR (v AND 0xfff) = a + take_bit 12 v"
    unfolding m take_bit_eq_mask[symmetric] by (simp add: disjunctive_add_eq_or)
  moreover have "unat (take_bit 12 v) = take_bit 12 (unat v)" by (simp only: unsigned_take_bit_eq)
  then have "unat (take_bit 12 v) = unat v mod 4096" by (simp add: take_bit_eq_mod)
  moreover have "unat a + 4096 \<le> 2 ^ 64" using unat_u64_less[of a] j by simp
  ultimately show ?thesis by (simp add: unat_word_ariths)
qed

lemma identity_translate:
  assumes "identity_map d m" "domain_translate d v m = Some a"
  shows "unat a = unat v mod (4096 * 512 ^ dm_levels d)"
proof -
  have off: "push_bit PAGE_SHIFT 1 - 1 = (0xfff :: u64)" by (simp add: PAGE_SHIFT_def)
  obtain e where e: "domain_view d m (dma_page d v) = Some e" "a = snd (pte_decode (dm_fmt d) e) OR (v AND 0xfff)"
    using assms(2) unfolding domain_translate_view off by auto
  have u: "unat (snd (pte_decode (dm_fmt d) e)) = dma_page d v * 4096" using assms(1) e(1) by (simp add: identity_map_def)
  then have "\<not> misaligned (snd (pte_decode (dm_fmt d) e))" by (simp add: misaligned_def PAGE_SHIFT_def)
  then have "unat a = dma_page d v * 4096 + unat v mod 4096" unfolding e(2) by (simp add: unat_or_offset u)
  also have "\<dots> = unat v mod (4096 * 512 ^ dm_levels d)"
    by (simp add: dma_page_def iova_page_def mod_mult2_eq mult.commute)
  finally show ?thesis .
qed


section \<open>When a binding succeeds\<close>

text \<open>A walk takes at most one table per level below the root.\<close>

lemma map_walk_cost:
  "fa_ok fa \<Longrightarrow> map_walk f levels iova phys perms (Suc n) t m fa = Some (r, m', fa') \<Longrightarrow> fa_free fa \<le> fa_free fa' + n"
proof (induction n arbitrary: t m fa)
  case 0
  then show ?case by (auto simp: Let_def split: prod.splits if_splits)
next
  case (Suc n)
  let ?e = "pte_decode f (table_entry m t (domain_index levels iova (levels - Suc (Suc n))))"
  show ?case
  proof (cases "fst ?e")
    case True
    then have "map_walk f levels iova phys perms (Suc n) (snd ?e) m fa = Some (r, m', fa')"
      using Suc.prems(2) by (auto simp: Let_def case_prod_beta)
    then show ?thesis using Suc.IH[OF Suc.prems(1)] by fastforce
  next
    case absent: False
    show ?thesis
    proof (cases "alloc_table m fa")
      case (Inl e)
      then show ?thesis using Suc.prems absent by (auto simp: Let_def case_prod_beta)
    next
      case (Inr y)
      obtain c m1 fa1 where a: "alloc_table m fa = Inr (c, m1, fa1)" using Inr by (metis prod_cases3)
      note A = alloc_table_Inr[OF Suc.prems(1) a]
      have "\<exists>m2. map_walk f levels iova phys perms (Suc n) c m2 fa1 = Some (r, m', fa')"
        using Suc.prems(2) absent a unfolding map_walk.simps(2)[of f levels iova phys perms "Suc n" t m fa]
        by (auto simp: Let_def case_prod_beta simp del: map_walk.simps)
      then show ?thesis using Suc.IH[OF A(4)] A(6) by fastforce
    qed
  qed
qed

lemma domain_map_cost:
  assumes "domain_ok d m fa" "domain_map d iova phys perms m fa = Some (r, m', fa')"
  shows "fa_free fa < fa_free fa' + dm_levels d"
proof -
  obtain n where n: "dm_levels d = Suc n" using domain_levels_Suc[OF assms(1)] by blast
  have "fa_ok fa" using assms(1) by (simp add: domain_ok_def)
  show ?thesis
  proof (cases "misaligned iova \<or> misaligned phys")
    case True
    then show ?thesis using assms(2) n by (auto simp: domain_map_def)
  next
    case False
    then have "map_walk (dm_fmt d) (Suc n) iova phys perms (Suc n) (dm_root d) m fa = Some (r, m', fa')"
      using assms(2) unfolding domain_map_def n by simp
    then show ?thesis using map_walk_cost[OF \<open>fa_ok fa\<close>] n by fastforce
  qed
qed

lemma free_zero: "fa_ok fa \<Longrightarrow> avail fa = {} \<Longrightarrow> fa_free fa = 0"
  by (simp add: fa_ok_def fa_wf_def)

lemma map_buffer_succeeds:
  assumes D: "domain_ok d m fa" and B: "buffers_ok base d a m" and p: "mappable (dm_fmt d) perms" "addressable phys"
    and a: "iv_free_len a = 0" "iv_next a < iv_end a" and fa: "dm_levels d \<le> fa_free fa"
  shows "\<exists>m' fa'. map_buffer d a phys perms m fa = Some (Inr (iv_next a), a\<lparr>iv_next := iv_next a + push_bit PAGE_SHIFT 1\<rparr>, m', fa') \<and>
    fa_free fa < fa_free fa' + dm_levels d"
proof -
  have t: "iova_take a = (Some (iv_next a), a\<lparr>iv_next := iv_next a + push_bit PAGE_SHIFT 1\<rparr>)"
    using a by (simp add: iova_take_def)
  obtain r m' fa' where M: "domain_map d (iv_next a) phys perms m fa = Some (r, m', fa')" "domain_ok d m' fa'"
    using domain_map_grows[OF D] by blast
  have c: "fa_free fa < fa_free fa' + dm_levels d" by (rule domain_map_cost[OF D M(1)])
  have ne: "avail fa' \<noteq> {}" using c fa free_zero[of fa'] M(2) by (auto simp: domain_ok_def)
  show ?thesis
  proof (cases r)
    case (Inr u)
    then show ?thesis using M(1) t c by (simp add: map_buffer_def)
  next
    case (Inl e)
    then obtain a' where "map_buffer d a phys perms m fa = Some (Inl e, a', m', fa')" using M(1) t by (simp add: map_buffer_def)
    then show ?thesis using map_buffer_view[OF D B p] ne a by auto
  qed
qed

lemma bind_fixed_succeeds:
  assumes "block_ok W (bi\<lparr>bi_bound := Some \<lparr>bd_domain = d, bd_iova = a, bd_loc = loc\<rparr>\<rparr>) m fa"
    "\<forall>x \<in> set fixed. unat x < 2 ^ 52" "iv_free_len a = 0" "unat (iv_next a) + 4096 * length fixed \<le> unat (iv_end a)"
    "dm_levels d * length fixed \<le> fa_free fa"
  shows "\<exists>iovas a' m' fa'. bind_fixed d a fixed m fa = Some (Inr iovas, a', m', fa')"
  using assms
proof (induction fixed arbitrary: a m fa)
  case (Cons x fixed)
  let ?b = "\<lambda>a. \<lparr>bd_domain = d, bd_iova = a, bd_loc = loc\<rparr>" let ?a = "a\<lparr>iv_next := iv_next a + push_bit PAGE_SHIFT 1\<rparr>"
  have D: "domain_ok d m fa" "buffers_ok BOUND_IOVA_BASE d a m" using Cons.prems(1) by (simp_all add: block_ok_def)
  have F: "addressable (frame_page x)" using frame_page_facts(1) Cons.prems(2) by simp
  have lt: "iv_next a < iv_end a" using Cons.prems(4) by (simp add: word_less_nat_alt)
  have fr: "dm_levels d \<le> fa_free fa" using Cons.prems(5) by simp
  obtain m1 fa1 where M: "map_buffer d a (frame_page x) (IOMMU_READ OR IOMMU_WRITE) m fa = Some (Inr (iv_next a), ?a, m1, fa1)"
    "fa_free fa < fa_free fa1 + dm_levels d"
    using map_buffer_succeeds[OF D mappable_rw F Cons.prems(3) lt fr] by blast
  obtain new where G: "domain_ok d m1 fa1" "buffers_ok BOUND_IOVA_BASE d ?a m1"
    "grows (dm_fmt d) (dm_levels d) (dm_root d) new m fa m1 fa1"
    using map_buffer_view[OF D mappable_rw F] M(1) by auto
  have "bi_bound (bi\<lparr>bi_bound := Some (?b a)\<rparr>) = Some (?b a)" by simp
  then have B1: "block_ok W (bi\<lparr>bi_bound := Some (?b ?a)\<rparr>) m1 fa1"
    using bound_grows(1)[OF Cons.prems(1), of "?b a" "?b ?a" new m1 fa1] G by simp
  have "unat (iv_next ?a) = unat (iv_next a) + 4096"
    using Cons.prems(4) unat_u64_less[of "iv_end a"] by (simp add: PAGE_SHIFT_def unat_word_ariths)
  then have n: "iv_free_len ?a = 0" "unat (iv_next ?a) + 4096 * length fixed \<le> unat (iv_end ?a)"
    using Cons.prems(3,4) by simp_all
  have "dm_levels d * length fixed \<le> fa_free fa1" using Cons.prems(5) M(2) by simp
  then obtain iovas a' m' fa' where "bind_fixed d ?a fixed m1 fa1 = Some (Inr iovas, a', m', fa')"
    using Cons.IH[OF B1 _ n] Cons.prems(2) by auto
  then show ?case using M(1) by simp
qed simp

lemma domain_new_succeeds:
  assumes "fa_ok fa" "0 < fa_free fa" "domain_levels w = Some l"
  shows "\<exists>d m' fa'. domain_new m fa w f = Inr (d, m', fa')"
proof -
  have "\<exists>c m' fa'. alloc_table m fa = Inr (c, m', fa')"
    using alloc_table_Inl(2)[OF assms(1), of m] free_zero[OF assms(1)] assms(2)
    by (cases "alloc_table m fa") auto
  then show ?thesis using assms(3) by (auto simp: domain_new_def)
qed

lemma bind_prepare_succeeds:
  assumes ok: "iommu_ok W st" and bi: "mc_block st = Some bi" "bi_bound bi = None" and fa: "mc_fa st = Some fa"
    and fixed: "length fixed = 4" "\<forall>x \<in> set fixed. unat x < 2 ^ 52" and free: "4 * bi_levels bi < fa_free fa"
  shows "\<exists>iovas st'. bind_prepare loc fixed st = Some (Inr iovas, st')"
proof -
  have B: "block_ok W bi (mc_mem st) fa" "fa_ok fa" "0 \<notin> avail fa" using iommu_okE[OF ok] bi(1) fa by auto
  have lv: "domain_levels (bi_width bi) = Some (bi_levels bi)" using B(1) by (simp add: block_ok_def)
  obtain d m1 fa1 where new: "domain_new (mc_mem st) fa (bi_width bi) (backend_fmt (bi_backend bi)) = Inr (d, m1, fa1)"
    using domain_new_succeeds[OF B(2) _ lv] free by fastforce
  obtain a where a: "iova_new BOUND_IOVA_BASE BOUND_IOVA_PAGES = Some a" "unat (iv_end a) = 0x40100000" using bound_window by blast
  have a': "iv_free_len a = 0" "unat (iv_next a) = 0x40000000"
    using a(1) by (auto simp: iova_new_def BOUND_IOVA_BASE_def split: if_splits)
  note N = domain_new_ok[OF B(2,3) new]
  note B1 = bind_new_ok[OF B(1) bi(2) new a(1)]
  have w: "unat (iv_next a) + 4096 * length fixed \<le> unat (iv_end a)" using a(2) a'(2) fixed(1) by simp
  have "dm_levels d * length fixed \<le> fa_free fa1" using free fixed(1) N(7) B1(3) by simp
  then obtain iovas a2 m2 fa2 where "bind_fixed d a fixed m1 fa1 = Some (Inr iovas, a2, m2, fa2)"
    using bind_fixed_succeeds[OF B1(1)[of loc] fixed(2) a'(1) w] by blast
  then show ?thesis using bi fa fixed(1) new a(1) by (simp add: bind_prepare_def)
qed

text \<open>
  C40. Binding a device succeeds when memory allows, and loses frames when it does not.  With the unit
  up, no device bound and more than four times the page-table depth in free frames, \<open>bind_prepare\<close>
  succeeds.  When it fails, either no frame was available and nothing has changed, or frames that
  were available are not any more although no device is bound: the half-built domain is dropped
  without a teardown, and nothing records its tables.
\<close>
theorem bind_succeeds_or_leaks:
  assumes "iommu_ok W st" "mc_block st = Some bi" "bi_bound bi = None" "mc_fa st = Some fa"
    "length fixed = 4" "\<forall>x \<in> set fixed. unat x < 2 ^ 52"
  shows "\<exists>r st' fa'. bind_prepare loc fixed st = Some (r, st') \<and> mc_fa st' = Some fa' \<and>
    (4 * bi_levels bi < fa_free fa \<longrightarrow> (\<exists>iovas. r = Inr iovas)) \<and>
    ((\<exists>e. r = Inl e) \<longrightarrow> mc_block st' = Some bi \<and> (st' = st \<and> avail fa = {} \<or> avail fa' \<subset> avail fa))"
proof (rule bind_prepare_spec[OF assms(1-3,5,6), of loc])
  fix r st' fb fa'
  assume P: "bind_prepare loc fixed st = Some (r, st')" "mc_fa st = Some fb" "mc_fa st' = Some fa'"
    and R: "case r of
       Inl e \<Rightarrow> mc_block st' = mc_block st \<and>
         (e = ''bound domain alloc failed'' \<and> st' = st \<and> avail fb = {} \<or>
          e = ''mapping a bound fixed frame failed'' \<and> avail fa' \<subset> avail fb)
     | Inr iovas \<Rightarrow> \<exists>d a'. mc_block st' = Some (bi\<lparr>bi_bound := Some \<lparr>bd_domain = d, bd_iova = a', bd_loc = loc\<rparr>\<rparr>) \<and>
         freshly_bound bi loc fixed iovas d (mc_mem st) fb (mc_mem st') fa'"
  have fb: "fb = fa" using P(2) assms(4) by simp
  have "\<exists>iovas. r = Inr iovas" if "4 * bi_levels bi < fa_free fa"
    using bind_prepare_succeeds[OF assms(1-6) that, of loc] P(1) by auto
  moreover have "mc_block st' = Some bi \<and> (st' = st \<and> avail fa = {} \<or> avail fa' \<subset> avail fa)" if "\<exists>e. r = Inl e"
    using R that fb assms(2) by auto
  ultimately show ?thesis using P by blast
qed

section \<open>An example machine\<close>

text \<open>Thirty free frames, a VT-d unit of 39 bits whose registers read as ones, an idle hardware.\<close>

definition still_hw :: "unit hw" where
  "still_hw = \<lparr>h_rd32 = \<lambda>_ _. - 1, h_wr32 = \<lambda>_ _ h. h, h_rd64 = \<lambda>_ _. - 1, h_wr64 = \<lambda>_ _ h. h, h_idle = \<lambda>s. s\<rparr>"

definition still_mapper :: "u64 \<Rightarrow> u64 \<Rightarrow> mem \<times> frame_alloc \<Rightarrow> string + mem \<times> frame_alloc" where
  "still_mapper va pa s = Inr s"

definition thirty_frames :: frame_alloc where
  "thirty_frames = \<lparr>fa_bitmap = [0xFFFFFF00000003FF], fa_frames = 40, fa_free = 30\<rparr>"

definition boot_machine :: "unit machine" where
  "boot_machine = \<lparr>mc_mem = \<lambda>_. 0, mc_fa = Some thirty_frames, mc_hw = (),
     mc_window = \<lparr>mm_base = 0x8000000000, mm_next = 0x8000000000, mm_pages = 0\<rparr>,
     mc_units = [\<lparr>ru_base = 0xfed90000, ru_segment = 0, ru_covers_all = True, ru_width = 39, ru_vendor = VendorVtd\<rparr>],
     mc_block = None, mc_skip = False\<rparr>"

lemma thirty_frames_ok: "fa_ok thirty_frames" "avail thirty_frames = {10..<40}"
proof -
  have w: "(0xFFFFFF00000003FF :: u64) = NOT (push_bit 10 (mask 30))" by (simp add: mask_eq_exp_minus_1)
  have "avail thirty_frames = {i. i < 64 \<and> \<not> bit (NOT (push_bit 10 (mask 30)) :: u64) i}"
    by (auto simp: avail_def used_def thirty_frames_def w[symmetric])
  also have "\<dots> = {10..<40}" unfolding bit_not_iff bit_push_bit_iff bit_mask_iff by auto
  finally show av: "avail thirty_frames = {10..<40}" .
  have "fa_bitmap thirty_frames = [0xFFFFFF00000003FF]" "fa_frames thirty_frames = 40" "fa_free thirty_frames = 30"
    by (simp_all add: thirty_frames_def)
  then show "fa_ok thirty_frames" by (simp add: fa_ok_def fa_wf_def av FRAME_SIZE_def)
qed

lemma boot_ok: "iommu_ok {0} boot_machine" "mc_block boot_machine = None"
  using thirty_frames_ok by (simp_all add: iommu_ok_def boot_machine_def)

lemma still_mapper_ok: "mapper_ok still_mapper"
  by (simp add: mapper_ok_def still_mapper_def)

lemma still_confined: "hw_confined still_hw W b"
  by (simp add: hw_confined_def still_hw_def)

lemma still_pages: "\<exists>w'. map_mmio_pages still_mapper va first n w s = (None, w', s)"
  by (induction n arbitrary: va first w) (simp_all add: still_mapper_def)

lemma boot_regs: "\<exists>regs w. map_unit_regs still_mapper 0xfed90000 0x1000 boot_machine = (Inr regs, boot_machine\<lparr>mc_window := w\<rparr>)"
proof -
  obtain w' where "map_mmio_pages still_mapper 0x8000000000 0xfed90000 1 \<lparr>mm_base = 0x8000000000, mm_next = 0x8000000000, mm_pages = 0\<rparr>
      (\<lambda>_. 0, thirty_frames) = (None, w', \<lambda>_. 0, thirty_frames)" using still_pages by blast
  then show ?thesis
    by (simp add: map_unit_regs_def map_kernel_mmio_def boot_machine_def page_floor_def FRAME_SIZE_def PML4_SLOT_SPAN_def Let_def)
qed

lemma tables_new_succeeds:
  assumes "fa_ok fa" "2 \<le> fa_free fa"
  shows "\<exists>tt m' fa'. tables_new m fa = (Inr (tt, m'), fa')"
proof -
  have ex: "\<exists>c m' fa'. alloc_table m fa = Inr (c, m', fa')" if "fa_ok fa" "0 < fa_free fa" for m fa
    using alloc_table_Inl(2)[OF that(1), of m] free_zero[OF that(1)] that(2) by (cases "alloc_table m fa") auto
  obtain c m1 fa1 where a: "alloc_table m fa = Inr (c, m1, fa1)" using ex[OF assms(1)] assms(2) by fastforce
  note A = alloc_table_Inr[OF assms(1) a]
  obtain c2 m2 fa2 where "alloc_table m1 fa1 = Inr (c2, m2, fa2)" using ex[OF A(4), of m1] A(6) assms(2) by fastforce
  then show ?thesis using a by (simp add: tables_new_def)
qed

lemma example_state:
  obtains st bi fa where "bring_up still_mapper still_hw boot_machine = (Inr (), st)" "iommu_ok {0} st" "mc_block st = Some bi"
    "bi_bound bi = None" "bi_levels bi = 3" "mc_fa st = Some fa" "fa_free fa = 27" "\<exists>v. bi_backend bi = BVtd v"
proof -
  obtain regs w where R: "map_unit_regs still_mapper 0xfed90000 0x1000 boot_machine = (Inr regs, boot_machine\<lparr>mc_window := w\<rparr>)"
    using boot_regs by blast
  have l: "domain_levels 39 = Some 3" by (simp add: domain_levels_def PAGE_SHIFT_def INDEX_BITS_def)
  have f: "fa_free thirty_frames = 30" by (simp add: thirty_frames_def)
  obtain d m1 fa1 where new: "domain_new (\<lambda>_. 0) thirty_frames 39 Vtd = Inr (d, m1, fa1)"
    using domain_new_succeeds[OF thirty_frames_ok(1) _ l] f by fastforce
  have z: "0 \<notin> avail thirty_frames" by (simp add: thirty_frames_ok)
  note N = domain_new_ok[OF thirty_frames_ok(1) z new]
  have ok1: "fa_ok fa1" using N(1) by (simp add: domain_ok_def)
  obtain tt m2 fa2 where t: "tables_new m1 fa1 = (Inr (tt, m2), fa2)"
    using tables_new_succeeds[OF ok1] N(7) f by fastforce
  have free: "fa_free fa2 = 27" using tables_new_Inr(9)[OF ok1 t] N(7) f by simp
  have sag: "((mask 56 :: u64) AND 31) AND 2 \<noteq> 0" by (simp add: mask_eq_exp_minus_1)
  have lf: "levels_for 39 = Inr 3" using l by (simp add: levels_for_domain)
  let ?v = "\<lparr>vu_regs = regs, vu_tables = tt, vu_fault_off = (drop_bit 24 (- 1) AND 0x3ff) * 16,
      vu_iotlb_off = (drop_bit 8 (- 1) AND 0x3ff) * 16 + 8\<rparr>"
  let ?st = "boot_machine\<lparr>mc_window := w, mc_mem := m2, mc_fa := Some fa2\<rparr>"
  define unit where "unit = \<lparr>ru_base = 0xfed90000, ru_segment = 0, ru_covers_all = True, ru_width = 39, ru_vendor = VendorVtd\<rparr>"
  have V: "vtd_bring_up still_mapper still_hw unit boot_machine = (Inr (?v, d, 3), ?st)"
    using R lf new t sag
    by (simp add: vtd_bring_up_def unit_def boot_machine_def still_hw_def Let_def)
  define st where "st = ?st\<lparr>mc_block := Some (fresh_iommu (BVtd ?v) d 3 39)\<rparr>"
  have B: "bring_up still_mapper still_hw boot_machine = (Inr (), st)"
    using V by (simp add: bring_up_def st_def fresh_iommu_def boot_machine_def unit_def)
  show ?thesis
  proof (rule that[OF B bring_up_ok[OF still_mapper_ok boot_ok B]])
    show "mc_block st = Some (fresh_iommu (BVtd ?v) d 3 39)" by (simp add: st_def)
  qed (use free in \<open>simp_all add: fresh_iommu_def st_def\<close>)
qed


lemma bind_succeeds_or_leaks_witness:
  "\<exists>(st :: unit machine) r st'. bind_prepare \<lparr>lo_bus = 0, lo_slot = 5, lo_func = 0\<rparr> [0x5000, 0x6000, 0x7000, 0x8000] st = Some (r, st') \<and>
     (\<exists>iovas. r = Inr iovas)"
proof -
  obtain st bi fa where S: "bring_up still_mapper still_hw boot_machine = (Inr (), st)" "iommu_ok {0} st" "mc_block st = Some bi"
    "bi_bound bi = None" "bi_levels bi = 3" "mc_fa st = Some fa" "fa_free fa = 27" "\<exists>v. bi_backend bi = BVtd v"
    by (rule example_state)
  have x: "length [0x5000, 0x6000, 0x7000, 0x8000 :: u64] = 4" "\<forall>x \<in> set [0x5000, 0x6000, 0x7000, 0x8000 :: u64]. unat x < 2 ^ 52" by simp_all
  have "4 * bi_levels bi < fa_free fa" using S(5,7) by simp
  moreover obtain r st' fa' where R: "bind_prepare \<lparr>lo_bus = 0, lo_slot = 5, lo_func = 0\<rparr> [0x5000, 0x6000, 0x7000, 0x8000] st = Some (r, st')"
    "4 * bi_levels bi < fa_free fa \<longrightarrow> (\<exists>iovas. r = Inr iovas)"
    using bind_succeeds_or_leaks[OF S(2-4) S(6) x, of "\<lparr>lo_bus = 0, lo_slot = 5, lo_func = 0\<rparr>"] by (elim exE conjE) (rule that)
  ultimately show ?thesis by (intro exI[of _ st] exI[of _ r] exI[of _ st'] conjI R(1) mp[OF R(2)])
qed



end
