(* ===== verification/Spec2Isabelle.thy ===== *)
theory Spec2Isabelle
  imports Spawn Completion_Rings Rwfs Archive_Load Iommu_Binding
begin

text \<open>
  A model of the Plinth OS kernel (Rust, \<open>kernel/src\<close>) and the theorems that make it correct.

  The kernel runs processes on several cores under one big lock.  A process owns an address space
  and a table of capabilities; every authority it has (memory frames, endpoints, rings, devices,
  CPU time) is a capability in that table.  Processes meet through synchronous IPC on endpoints,
  where a capability may be moved along with the message, and asynchronously through rings.
  The lock makes every kernel entry atomic, so the model is sequential: a kernel entry is a function
  on the state, and concurrency between cores is the interleaving of entries.

  Theories, and the code they model:

    \<^item> \<open>Prelude\<close>: machine words, little-endian reads (\<open>rd_u16\<close> and its siblings of \<open>elf.rs\<close>), checked
      arithmetic, positions in lists; the lemma collections the other theories use.
    \<^item> \<open>Pool\<close>: the interface of a lowest-first allocator of numbered units as a locale, with the facts
      that follow from its laws.
    \<^item> \<open>Capability\<close> (\<open>capability.rs\<close>): objects, rights, origins, the release policy, the capability
      table with its reservations.
    \<^item> \<open>Frame_Alloc\<close> (\<open>frame_alloc.rs\<close>): the bitmap of physical frames; interprets \<open>Pool\<close>.
    \<^item> \<open>Elf\<close> (\<open>elf.rs\<close>): the ELF64 parser.
    \<^item> \<open>Wait_Queue\<close>, \<open>Endpoint\<close> (\<open>ipc.rs\<close>): the intrusive wait queue, and the endpoint table with
      its reference counters.
    \<^item> \<open>Process\<close> (\<open>process.rs\<close>): a process record, spawning, and giving a capability away.
    \<^item> \<open>Event_Subs\<close> (\<open>rings.rs\<close>, \<open>input.rs\<close>): the subscription table and packed events.
    \<^item> \<open>Kernel\<close> (\<open>scheduler.rs\<close>, \<open>process.rs\<close>): the global state (process table, per-core queues,
      current processes, saved trap frames, endpoints, rings) and every scheduler operation on it.
    \<^item> \<open>Scheduler\<close>: the invariant of the process table and its preservation by ticks, blocks,
      switches, steals and wakes; progress.
    \<^item> \<open>Ipc\<close> (\<open>ipc.rs\<close>): send, receive, call, reply, transfers, reaping.
    \<^item> \<open>Held_Caps\<close>: the capabilities of all processes as one collection, and what each IPC operation
      exchanges in it.
    \<^item> \<open>Rendezvous\<close>: the IPC invariant, the step relation of the kernel, and the semantics of the
      operations.
    \<^item> \<open>Address_Space\<close> (\<open>memory.rs\<close>): page-table frames and the device window.
    \<^item> \<open>Loader\<close> (\<open>process.rs\<close>): \<open>load_and_map\<close>, over the page-table mapper as a parameter.
    \<^item> \<open>Exit\<close> (\<open>scheduler.rs\<close>): the death of a process.
    \<^item> \<open>Fault\<close> (\<open>fault.rs\<close>): self-paging, the saved context and its return.
    \<^item> \<open>User_Map\<close> (\<open>syscall.rs\<close>): the system calls on the caller's memory, over the memory management
      unit as a parameter.
    \<^item> \<open>Virtio\<close> (\<open>virtio_blk.rs\<close>): the in-flight pool, posting and draining requests; interprets \<open>Pool\<close>.
    \<^item> \<open>Completion_Rings\<close> (\<open>rings.rs\<close>, \<open>input.rs\<close>): rings over the bytes of their frames, submission, completion,
      waiting, events.
    \<^item> \<open>Spawn\<close> (\<open>scheduler.rs\<close>, \<open>syscall.rs\<close>): making processes, taking and giving up resources; a spawn keeps
      the IPC invariant and a failed one gives the lent capability back.
    \<^item> \<open>Rwfs_Bitmap\<close>, \<open>Rwfs_Directory\<close>, \<open>Rwfs\<close> (\<open>librwfs\<close>): the read-write file system over one block range, as a
      refinement of a map from names to contents; the bitmap interprets \<open>Pool\<close>, the block ring is a
      parameter.
    \<^item> \<open>Archive\<close>, \<open>Archive_Load\<close> (\<open>libfs\<close>, \<open>archive_image\<close> of \<open>xtask\<close>): the boot archive, its builder, its
      reader and the loader that spawns a program from it, over the system calls as a parameter.
    \<^item> \<open>Iommu_Domain\<close>, \<open>Iommu\<close>, \<open>Iommu_Binding\<close> (\<open>iommu.rs\<close>): the page-table trees of a DMA domain in memory, for
      both entry formats, as a refinement of a partial map; opaque device addresses; the device tables
      and registers of the VT-d and the AMD unit, over the hardware as a parameter; the shared block
      domain and the direct binding of one device; what a bound device can reach, and the invariant
      that no run of the driver lets a device's DMA arrive at the driver's own frames.

  Conventions.  Machine integers keep their width; indices of fixed arrays are naturals, bounded by
  the well-formedness predicates.  A Rust \<open>Result\<close> is a sum with the error on the left, an \<open>Option\<close>
  is an option; where an operation may panic (an \<open>expect\<close>, an index out of range) the outcome
  \<open>None\<close> is the panic, and the theorems show it does not occur under the invariants.  Loops with a
  fixed bound are folds or searches over the index list; draining a wait queue uses the number of
  process slots as fuel, which bounds its length.  The search for an online core is a partial
  function with its own termination theorem.

  Not modelled: assembly stubs, descriptor tables and device registers; the page-table mapper, which is
  the \<open>x86_64\<close> crate's, is a parameter where a definition needs it.  Console output and boot
  orchestration are left out.
\<close>

end
